(* ===== verification/Prelude.thy ===== *)
theory Prelude
  imports Main "HOL-Library.Word" "HOL-Library.Monad_Syntax"
begin

text \<open>
  Shared vocabulary of the development.

  \<^item> Integers. An unsigned C++ integer is a \<open>nat\<close>; every addition, subtraction or
    multiplication of the source that could leave its width is written with \<open>add64\<close>,
    \<open>sub64\<close>, \<open>mul64\<close> (or the 32 and 16 bit versions), which wrap modulo the
    width.  The collection \<open>u64_simps\<close> removes the wrap where the operands are in range.
  \<^item> Bytes. A \<open>std::span\<close> or \<open>std::vector\<close> of \<open>std::uint8_t\<close> is a list of
    \<open>8 word\<close>.
  \<^item> Undefined behaviour. A read or a write outside a span, or a failed \<open>ASSERT\<close>, is the
    value \<open>None\<close> of the option monad, so that a theorem of the form \<open>\<exists>r. f x = Some r\<close>
    is a memory-safety theorem.
  \<^item> Little-endian reads. \<open>read_le\<close> is the \<open>read\<close> lambda that every guest parser
    of \<^verbatim>\<open>src/src/core/uwp\<close> declares: a loop that ORs shifted bytes together.  It is shown
    equal to the weighted sum of the bytes, which is what the simplifier evaluates.
\<close>

unbundle bit_operations_syntax

named_theorems u64_simps \<open>removal of 64-bit wrap-around for operands in range\<close>
named_theorems bytes_simps \<open>evaluation of reads from and writes to byte lists\<close>

type_synonym byte = "8 word"
type_synonym u8 = nat
type_synonym u16 = nat
type_synonym u32 = nat
type_synonym u64 = nat

section \<open>Wrapping arithmetic\<close>

abbreviation UINT64_MAX :: u64 where
  "UINT64_MAX \<equiv> 18446744073709551615"

definition add64 :: "u64 \<Rightarrow> u64 \<Rightarrow> u64" where
  "add64 a b = (a + b) mod 18446744073709551616"

definition sub64 :: "u64 \<Rightarrow> u64 \<Rightarrow> u64" where
  "sub64 a b = (if b \<le> a then a - b else a + 18446744073709551616 - b)"

definition mul64 :: "u64 \<Rightarrow> u64 \<Rightarrow> u64" where
  "mul64 a b = (a * b) mod 18446744073709551616"

definition in_s64 :: "int \<Rightarrow> bool" where
  "in_s64 x \<longleftrightarrow> -9223372036854775808 \<le> x \<and> x \<le> 9223372036854775807"

lemma add64_exact [u64_simps]: "a + b \<le> UINT64_MAX \<Longrightarrow> add64 a b = a + b"
  by (simp add: add64_def)

lemma sub64_exact [u64_simps]: "b \<le> a \<Longrightarrow> sub64 a b = a - b"
  by (simp add: sub64_def)

lemma mul64_exact [u64_simps]: "a * b \<le> UINT64_MAX \<Longrightarrow> mul64 a b = a * b"
  by (simp add: mul64_def)

lemma add64_bound: "add64 a b \<le> UINT64_MAX"
  using mod_less_divisor [of 18446744073709551616 "a + b"] unfolding add64_def by linarith

lemma sub64_bound: "a \<le> UINT64_MAX \<Longrightarrow> sub64 a b \<le> UINT64_MAX"
  by (auto simp: sub64_def)

lemma sub64_add64: "a \<le> UINT64_MAX \<Longrightarrow> b \<le> UINT64_MAX \<Longrightarrow> sub64 (add64 a b) b = a"
  unfolding add64_def sub64_def by (auto simp: mod_if) 

text \<open>
  The overflow guards of the source have the form \<open>a > UINT64_MAX - b\<close>; where one of them
  does not fire, the sum it protects is exact.
\<close>

lemma guarded_sum: "\<not> UINT64_MAX - b < a \<Longrightarrow> b \<le> UINT64_MAX \<Longrightarrow> add64 a b = a + b"
  by (simp add: add64_def)

section \<open>Alignment (common/alignment.h)\<close>

definition AlignUp :: "u64 \<Rightarrow> u64 \<Rightarrow> u64" where
  "AlignUp v n = (let m = v mod n; w = v - m in if m = 0 then w else add64 w n)"

definition AlignDown :: "u64 \<Rightarrow> u64 \<Rightarrow> u64" where
  "AlignDown v n = v - v mod n"

lemma AlignDown_le: "AlignDown v n \<le> v"
  by (simp add: AlignDown_def)

lemma AlignDown_dvd: "n dvd AlignDown v n"
  by (simp add: AlignDown_def dvd_minus_mod)

lemma AlignDown_gap: "0 < n \<Longrightarrow> v < AlignDown v n + n"
proof -
  assume n: "0 < n"
  have "v mod n < n" using n by simp
  moreover have "v mod n \<le> v" by simp
  ultimately show ?thesis by (simp add: AlignDown_def)
qed

lemma AlignUp_exact:
  assumes "0 < n" and "v + n \<le> UINT64_MAX"
  shows "AlignUp v n = (v + n - 1) div n * n"
proof (cases "v mod n = 0")
  case True
  then obtain q where q: "v = n * q" by (auto simp: mod_eq_0_iff_dvd)
  have e: "v + n - 1 = n * q + (n - 1)" using assms(1) q by simp
  have "(v + n - 1) div n = q" unfolding e using assms(1) by (subst div_mult_self4) auto
  then show ?thesis using True q by (simp add: AlignUp_def Let_def)
next
  case False
  define q r where "q = v div n" and "r = v mod n"
  have v: "v = q * n + r" and r: "0 < r" "r < n"
    using False assms(1) by (auto simp: q_def r_def)
  have e: "v + n - 1 = (r - 1) + (q + 1) * n" using v r by (simp add: algebra_simps)
  have "(v + n - 1) div n = q + 1" unfolding e using r by (subst div_mult_self1) auto
  moreover have "v - r = q * n" using v by simp
  moreover have "q * n + n \<le> UINT64_MAX" using v assms(2) by simp
  ultimately show ?thesis
    using False by (simp add: AlignUp_def Let_def r_def [symmetric] u64_simps)
qed

lemma AlignUp_ge:
  assumes "0 < n" and "v + n \<le> UINT64_MAX"
  shows "v \<le> AlignUp v n" and "n dvd AlignUp v n" and "AlignUp v n < v + n"
proof -
  have d: "(v + n - 1) div n * n + (v + n - 1) mod n = v + n - 1" by simp
  have m: "(v + n - 1) mod n < n" using assms(1) by simp
  show "v \<le> AlignUp v n" "AlignUp v n < v + n"
    using d m assms unfolding AlignUp_exact [OF assms] by linarith+
  show "n dvd AlignUp v n" using assms by (simp add: AlignUp_exact)
qed

section \<open>Byte reads\<close>

definition byte_at :: "byte list \<Rightarrow> nat \<Rightarrow> u8 option" where
  "byte_at bs i = (if i < length bs then Some (unat (bs ! i)) else None)"

text \<open>
  The loop \<^verbatim>\<open>for (i = 0; i < count; ++i) value |= uint64_t(bytes[offset + i]) << (8 * i)\<close>.
  The arguments are the index \<open>i\<close>, the number of iterations left and the value so far.
\<close>

fun read_loop :: "byte list \<Rightarrow> nat \<Rightarrow> nat \<Rightarrow> nat \<Rightarrow> u64 \<Rightarrow> u64 option" where
  "read_loop bs offset i 0 v = Some v"
| "read_loop bs offset i (Suc n) v = do {
     b \<leftarrow> byte_at bs (offset + i);
     read_loop bs offset (Suc i) n (v OR push_bit (8 * i) b)
   }"

definition read_le :: "byte list \<Rightarrow> nat \<Rightarrow> nat \<Rightarrow> u64 option" where
  "read_le bs offset count = read_loop bs offset 0 count 0"

fun le_value :: "byte list \<Rightarrow> u64" where
  "le_value [] = 0"
| "le_value (b # bs) = unat b + 256 * le_value bs"

definition field :: "byte list \<Rightarrow> nat \<Rightarrow> nat \<Rightarrow> u64" where
  "field bs offset count = le_value (take count (drop offset bs))"

lemma unat_byte_less [simp]: "unat (b :: byte) < 256"
  using unsigned_less [of b, where ?'a = nat] by simp

lemma le_value_less: "le_value bs < 256 ^ length bs"
proof (induction bs)
  case (Cons b bs)
  have "unat b + 256 * le_value bs < 256 * (le_value bs + 1)" by simp
  also have "\<dots> \<le> 256 * 256 ^ length bs" using Cons.IH by (intro mult_le_mono2) simp
  finally show ?case by simp
qed simp

lemma field_less: "field bs offset n < 256 ^ n"
proof -
  have "field bs offset n < 256 ^ length (take n (drop offset bs))"
    unfolding field_def by (rule le_value_less)
  also have "\<dots> \<le> 256 ^ n" by (intro power_increasing) auto
  finally show ?thesis .
qed

lemma field_8_bound: "field bs offset 8 \<le> UINT64_MAX"
  using field_less [of bs offset 8] by simp

lemma field_2_bound: "field bs offset 2 \<le> 65535"
  using field_less [of bs offset 2] by simp

lemma le_value_append: "le_value (xs @ ys) = le_value xs + 256 ^ length xs * le_value ys"
  by (induction xs) (auto simp: algebra_simps)

lemma or_disjoint_add:
  assumes "v < 2 ^ k"
  shows "v OR push_bit k (b :: nat) = v + 2 ^ k * b"
proof -
  have "v AND push_bit k b = 0"
  proof (rule bit_eqI)
    fix n
    have "bit v n \<Longrightarrow> n < k"
      using assms by (metis bit_take_bit_iff take_bit_nat_eq_self)
    then show "bit (v AND push_bit k b) n \<longleftrightarrow> bit (0::nat) n"
      by (auto simp: bit_and_iff bit_push_bit_iff)
  qed
  then have "v OR push_bit k b = v + push_bit k b"
    by (simp add: disjunctive_add_eq_or)
  then show ?thesis by (simp add: push_bit_eq_mult mult.commute)
qed

lemma read_loop_sum:
  assumes "offset + i + n \<le> length bs" and "v < 256 ^ i"
  shows "read_loop bs offset i n v = Some (v + 256 ^ i * field bs (offset + i) n)"
  using assms
proof (induction n arbitrary: i v)
  case 0
  then show ?case by (simp add: field_def)
next
  case (Suc n)
  let ?b = "unat (bs ! (offset + i))"
  have pow: "(256::nat) ^ i = 2 ^ (8 * i)" by (simp add: power_mult)
  have or: "v OR push_bit (8 * i) ?b = v + 256 ^ i * ?b"
    using Suc.prems(2) unfolding pow by (rule or_disjoint_add)
  have "v + 256 ^ i * ?b < 256 ^ i * (?b + 1)" using Suc.prems(2) by (simp add: algebra_simps)
  also have "\<dots> \<le> 256 ^ i * 256"
  proof (rule mult_le_mono2)
    show "?b + 1 \<le> 256" using unat_byte_less [of "bs ! (offset + i)"] by linarith
  qed
  finally have lt: "v + 256 ^ i * ?b < 256 ^ Suc i" by simp
  have step: "field bs (offset + i) (Suc n) = ?b + 256 * field bs (offset + Suc i) n"
    using Suc.prems(1) by (simp add: field_def Cons_nth_drop_Suc [symmetric])
  have "read_loop bs offset i (Suc n) v = read_loop bs offset (Suc i) n (v + 256 ^ i * ?b)"
    using Suc.prems(1) by (simp add: byte_at_def or)
  also have "\<dots> = Some (v + 256 ^ i * ?b + 256 ^ Suc i * field bs (offset + Suc i) n)"
    using Suc.prems(1) lt by (intro Suc.IH) auto
  also have "\<dots> = Some (v + 256 ^ i * field bs (offset + i) (Suc n))"
    unfolding step by (simp add: algebra_simps)
  finally show ?case .
qed

lemma read_le_field [bytes_simps]:
  "offset + count \<le> length bs \<Longrightarrow> read_le bs offset count = Some (field bs offset count)"
  using read_loop_sum [of offset 0 count bs 0] by (simp add: read_le_def)

lemma read_loop_None: "offset + i + n > length bs \<Longrightarrow> offset + i \<le> length bs \<Longrightarrow>
  read_loop bs offset i n v = None"
  by (induction n arbitrary: i v) (auto simp: byte_at_def)

lemma byte_at_Some [bytes_simps]: "i < length bs \<Longrightarrow> byte_at bs i = Some (unat (bs ! i))"
  by (simp add: byte_at_def)

section \<open>Byte writes\<close>

text \<open>
  \<open>std::copy_n\<close> or \<open>std::memcpy\<close> of \<open>count\<close> bytes of \<open>src\<close> from \<open>from\<close> to position
  \<open>to\<close> of \<open>dst\<close>: undefined when either range leaves its buffer.
\<close>

definition splice :: "'a list \<Rightarrow> nat \<Rightarrow> 'a list \<Rightarrow> 'a list" where
  "splice dst at xs = take at dst @ xs @ drop (at + length xs) dst"

definition copy_n :: "'a list \<Rightarrow> nat \<Rightarrow> nat \<Rightarrow> 'a list \<Rightarrow> nat \<Rightarrow> 'a list option" where
  "copy_n src from count dst to =
     (if from + count \<le> length src \<and> to + count \<le> length dst
      then Some (splice dst to (take count (drop from src))) else None)"

lemma length_splice [simp]: "at + length xs \<le> length dst \<Longrightarrow> length (splice dst at xs) = length dst"
  by (simp add: splice_def)

lemma nth_splice:
  assumes "at + length xs \<le> length dst" and "i < length dst"
  shows "splice dst at xs ! i = (if at \<le> i \<and> i < at + length xs then xs ! (i - at) else dst ! i)"
  using assms by (auto simp: splice_def nth_append min_def)

lemma copy_n_Some:
  "copy_n src from count dst to = Some d \<Longrightarrow>
     length d = length dst \<and>
     (\<forall>i < length dst. d ! i = (if to \<le> i \<and> i < to + count then src ! (from + (i - to)) else dst ! i))"
  by (auto simp: copy_n_def nth_splice split: if_splits)

lemma copy_n_ok: "from + count \<le> length src \<Longrightarrow> to + count \<le> length dst \<Longrightarrow>
    \<exists>d. copy_n src from count dst to = Some d"
  by (simp add: copy_n_def)

section \<open>Half-open ranges\<close>

definition disjoint_ranges :: "(nat \<times> nat) \<Rightarrow> (nat \<times> nat) \<Rightarrow> bool" where
  "disjoint_ranges p q \<longleftrightarrow> fst p + snd p \<le> fst q \<or> fst q + snd q \<le> fst p"

lemma disjoint_ranges_sym: "disjoint_ranges p q \<Longrightarrow> disjoint_ranges q p"
  by (auto simp: disjoint_ranges_def)

lemma disjoint_ranges_apart:
  "disjoint_ranges (a, m) (b, n) \<Longrightarrow> a \<le> x \<Longrightarrow> x < a + m \<Longrightarrow> \<not> (b \<le> x \<and> x < b + n)"
  by (auto simp: disjoint_ranges_def)

lemma sorted_wrt_distinct_pair:
  assumes "sorted_wrt (\<lambda>a b. disjoint_ranges (f a) (f b)) xs" and "x \<in> set xs" "y \<in> set xs" "x \<noteq> y"
  shows "disjoint_ranges (f x) (f y)"
  using assms by (induction xs) (auto intro: disjoint_ranges_sym)

text \<open>Pairwise disjoint ranges inside one range have a total size that fits it.\<close>

lemma disjoint_total_size:
  assumes "sorted_wrt disjoint_ranges rs" and "\<forall>r \<in> set rs. lo \<le> fst r \<and> fst r + snd r \<le> lo + n"
  shows "sum_list (map snd rs) \<le> n"
proof -
  define pts where "pts rs = (\<Union>r \<in> set rs. {fst r ..< fst r + snd r})" for rs :: "(nat \<times> nat) list"
  have fin: "finite (pts rs)" for rs by (simp add: pts_def)
  have "card (pts rs) = sum_list (map snd rs)" using assms(1)
  proof (induction rs)
    case Nil
    then show ?case by (simp add: pts_def)
  next
    case (Cons r rs)
    have "pts (r # rs) = {fst r ..< fst r + snd r} \<union> pts rs" by (simp add: pts_def)
    moreover have "{fst r ..< fst r + snd r} \<inter> pts rs = {}"
      using Cons.prems by (fastforce simp: pts_def disjoint_ranges_def)
    ultimately show ?case using Cons fin [of rs] by (simp add: card_Un_disjoint)
  qed
  moreover have "pts rs \<subseteq> {lo ..< lo + n}" using assms(2) by (fastforce simp: pts_def)
  then have "card (pts rs) \<le> n" using card_mono [of "{lo ..< lo + n}" "pts rs"] by simp
  ultimately show ?thesis by simp
qed

text \<open>A wrapping running total is the exact sum when the exact sum fits.\<close>

lemma foldl_add64_exact:
  "n + sum_list (map f xs) \<le> UINT64_MAX \<Longrightarrow> foldl (\<lambda>n x. add64 n (f x)) n xs = n + sum_list (map f xs)"
  by (induction xs arbitrary: n) (auto simp: u64_simps algebra_simps)

section \<open>Copying several pieces\<close>

text \<open>
  A loop of \<open>std::copy_n\<close> calls with one source and one destination.  A piece is the source
  offset, the number of bytes and the destination offset.
\<close>

type_synonym piece = "nat \<times> nat \<times> nat"

fun copy_pieces :: "'a list \<Rightarrow> piece list \<Rightarrow> 'a list \<Rightarrow> 'a list option" where
  "copy_pieces src [] dst = Some dst"
| "copy_pieces src ((from, count, to) # ps) dst = do {
     d \<leftarrow> copy_n src from count dst to;
     copy_pieces src ps d
   }"

definition piece_fits :: "nat \<Rightarrow> nat \<Rightarrow> piece \<Rightarrow> bool" where
  "piece_fits n m p = (case p of (from, count, to) \<Rightarrow> from + count \<le> n \<and> to + count \<le> m)"

definition piece_target :: "piece \<Rightarrow> nat \<times> nat" where
  "piece_target p = (case p of (from, count, to) \<Rightarrow> (to, count))"

definition in_piece :: "piece \<Rightarrow> nat \<Rightarrow> bool" where
  "in_piece p i = (case p of (from, count, to) \<Rightarrow> to \<le> i \<and> i < to + count)"

definition piece_byte :: "'a list \<Rightarrow> piece \<Rightarrow> nat \<Rightarrow> 'a" where
  "piece_byte src p i = (case p of (from, count, to) \<Rightarrow> src ! (from + (i - to)))"

lemma copy_pieces_result:
  assumes "\<forall>p \<in> set ps. piece_fits (length src) (length dst) p"
    and "sorted_wrt (\<lambda>p q. disjoint_ranges (piece_target p) (piece_target q)) ps"
  shows "\<exists>d. copy_pieces src ps dst = Some d \<and> length d = length dst \<and>
    (\<forall>i < length dst.
       (\<forall>p \<in> set ps. in_piece p i \<longrightarrow> d ! i = piece_byte src p i) \<and>
       ((\<forall>p \<in> set ps. \<not> in_piece p i) \<longrightarrow> d ! i = dst ! i))"
  using assms
proof (induction ps arbitrary: dst)
  case Nil
  then show ?case by simp
next
  case (Cons p ps)
  obtain a n t where p: "p = (a, n, t)" by (cases p)
  obtain d where d: "copy_n src a n dst t = Some d"
    using Cons.prems(1) copy_n_ok [of a n src t dst] by (auto simp: p piece_fits_def)
  note d' = copy_n_Some [OF d]
  obtain e where e: "copy_pieces src ps d = Some e" "length e = length d"
    "\<forall>i < length d. (\<forall>q \<in> set ps. in_piece q i \<longrightarrow> e ! i = piece_byte src q i) \<and>
       ((\<forall>q \<in> set ps. \<not> in_piece q i) \<longrightarrow> e ! i = d ! i)"
    using Cons.IH [of d] Cons.prems d' by auto
  have apart: "\<not> in_piece q i" if "q \<in> set ps" "in_piece p i" for q i
    using Cons.prems(2) that
    by (auto simp: p piece_target_def in_piece_def disjoint_ranges_def split: prod.splits)
  have "e ! i = piece_byte src p i" if "i < length dst" "in_piece p i" for i
    using that e(3) d' apart [OF _ that(2)] by (auto simp: p in_piece_def piece_byte_def)
  moreover have "e ! i = dst ! i" if "i < length dst" "\<not> in_piece p i" "\<forall>q \<in> set ps. \<not> in_piece q i" for i
    using that e(3) d' by (auto simp: p in_piece_def)
  ultimately show ?case using d d' e by (auto simp: p)
qed

section \<open>Loops with early return\<close>

text \<open>
  A loop body gets the index (or the element) and the loop variables; it returns \<open>Inl\<close> of the
  function's result for a \<open>return\<close> inside the loop and \<open>Inr\<close> of the new loop variables
  otherwise.  \<open>for_loop body i n\<close> runs the indices \<open>i, ..., i + n - 1\<close>; \<open>for_each\<close> runs the
  elements of a container.  Each comes with one invariant rule, which gives termination without
  undefined behaviour, what every early return satisfies and what holds after the last
  iteration.
\<close>

fun for_loop :: "(nat \<Rightarrow> 's \<Rightarrow> ('r + 's) option) \<Rightarrow> nat \<Rightarrow> nat \<Rightarrow> 's \<Rightarrow> ('r + 's) option" where
  "for_loop body i 0 s = Some (Inr s)"
| "for_loop body i (Suc n) s = do {
     x \<leftarrow> body i s;
     case x of Inl r \<Rightarrow> Some (Inl r) | Inr s' \<Rightarrow> for_loop body (Suc i) n s'
   }"

fun for_each :: "('a \<Rightarrow> 's \<Rightarrow> ('r + 's) option) \<Rightarrow> 'a list \<Rightarrow> 's \<Rightarrow> ('r + 's) option" where
  "for_each body [] s = Some (Inr s)"
| "for_each body (a # as) s = do {
     x \<leftarrow> body a s;
     case x of Inl r \<Rightarrow> Some (Inl r) | Inr s' \<Rightarrow> for_each body as s'
   }"

definition outcome :: "('r \<Rightarrow> bool) \<Rightarrow> ('s \<Rightarrow> bool) \<Rightarrow> ('r + 's) option \<Rightarrow> bool" where
  "outcome E I x \<longleftrightarrow> (\<exists>r. x = Some (Inl r) \<and> E r) \<or> (\<exists>s. x = Some (Inr s) \<and> I s)"

lemma outcome_simps [simp]:
  "outcome E I (Some (Inl r)) = E r" "outcome E I (Some (Inr s)) = I s" "\<not> outcome E I None"
  by (auto simp: outcome_def)

lemma outcome_if [simp]:
  "outcome E I (if c then x else y) = (if c then outcome E I x else outcome E I y)"
  by simp

lemma outcomeE:
  assumes "outcome E I x"
  obtains r where "x = Some (Inl r)" "E r" | s where "x = Some (Inr s)" "I s"
  using assms by (auto simp: outcome_def)

text \<open>The code after a loop: an early return is the result, otherwise the function goes on with the loop variables.\<close>

lemma outcome_bind:
  assumes "outcome E I x" and "\<And>r. E r \<Longrightarrow> P (Some r)" and "\<And>s. I s \<Longrightarrow> P (g s)"
  shows "P (x \<bind> (\<lambda>y. case y of Inl r \<Rightarrow> Some r | Inr s \<Rightarrow> g s))"
  using assms(1) by (cases rule: outcomeE) (simp_all add: assms(2,3))

lemma for_loop_rule:
  assumes "I i s"
    and "\<And>k s. i \<le> k \<Longrightarrow> k < i + n \<Longrightarrow> I k s \<Longrightarrow> outcome E (I (Suc k)) (body k s)"
  shows "outcome E (I (i + n)) (for_loop body i n s)"
  using assms
proof (induction n arbitrary: i s)
  case 0
  then show ?case by simp
next
  case (Suc n)
  have "outcome E (I (Suc i)) (body i s)" using Suc.prems by auto
  then show ?case
  proof (cases rule: outcomeE)
    case (1 r)
    then show ?thesis by simp
  next
    case (2 s')
    then have "outcome E (I (Suc i + n)) (for_loop body (Suc i) n s')"
      using Suc.prems by (intro Suc.IH) auto
    with 2 show ?thesis by simp
  qed
qed

lemma for_each_rule:
  assumes "I [] s"
    and "\<And>pre a s. a \<in> set as \<Longrightarrow> I pre s \<Longrightarrow> outcome E (I (pre @ [a])) (body a s)"
  shows "outcome E (I as) (for_each body as s)"
proof -
  have "outcome E (I (pre @ bs)) (for_each body bs s)"
    if "I pre s" "set bs \<subseteq> set as" for pre bs s
    using that
  proof (induction bs arbitrary: pre s)
    case Nil
    then show ?case by simp
  next
    case (Cons b bs)
    have "outcome E (I (pre @ [b])) (body b s)" using Cons.prems by (intro assms(2)) auto
    then show ?case
    proof (cases rule: outcomeE)
      case (1 r)
      then show ?thesis by simp
    next
      case (2 s')
      then show ?thesis using Cons.IH [of "pre @ [b]" s'] Cons.prems by simp
    qed
  qed
  from this [of "[]" s as] assms(1) show ?thesis by simp
qed

text \<open>
  A \<open>while\<close> loop that may not end: \<open>fuel\<close> bounds the number of iterations, and running out of it
  is the value \<open>None\<close>.
\<close>

fun while_opt :: "nat \<Rightarrow> ('s \<Rightarrow> bool) \<Rightarrow> ('s \<Rightarrow> 's option) \<Rightarrow> 's \<Rightarrow> 's option" where
  "while_opt 0 b f s = (if b s then None else Some s)"
| "while_opt (Suc n) b f s = (if b s then f s \<bind> while_opt n b f else Some s)"

lemma while_opt_numeral [simp]:
  "while_opt (numeral k) b f s = (if b s then f s \<bind> while_opt (pred_numeral k) b f else Some s)"
  by (simp add: numeral_eq_Suc)

text \<open>The invariant rule: the variant \<open>t\<close> decreases, so enough fuel reaches the end.\<close>

lemma while_opt_rule:
  assumes "I s" and "t s \<le> fuel"
    and "\<And>s. I s \<Longrightarrow> b s \<Longrightarrow> \<exists>s'. f s = Some s' \<and> I s' \<and> t s' < (t s :: nat)"
  shows "\<exists>s'. while_opt fuel b f s = Some s' \<and> I s' \<and> \<not> b s'"
  using assms(1,2)
proof (induction fuel arbitrary: s)
  case 0
  then show ?case using assms(3) [of s] by auto
next
  case (Suc n)
  show ?case
  proof (cases "b s")
    case True
    then obtain s' where "f s = Some s'" "I s'" "t s' < t s" using assms(3) Suc.prems by blast
    then show ?thesis using True Suc.IH [of s'] Suc.prems by auto
  qed (use Suc.prems in auto)
qed

section \<open>Bit masks\<close>

lemma and_mask_split: "(f :: nat) < 2 ^ 32 \<Longrightarrow> f AND 0xfffffff8 = 0 \<Longrightarrow> f < 8"
proof -
  assume f: "f < 2 ^ 32" and z: "f AND 0xfffffff8 = 0"
  have "f = f AND mask 32" using f by (simp add: take_bit_eq_mask [symmetric] take_bit_nat_eq_self)
  also have "mask 32 = (7 OR 0xfffffff8 :: nat)" by (simp add: mask_eq_exp_minus_1)
  also have "f AND (7 OR 0xfffffff8) = (f AND 7) OR (f AND 0xfffffff8)"
    by (rule bit_eqI) (auto simp only: bit_and_iff bit_or_iff)
  also have "\<dots> = take_bit 3 f" using z by (simp add: take_bit_eq_mask mask_eq_exp_minus_1)
  finally have "f = take_bit 3 f" .
  moreover have "take_bit 3 f < 2 ^ 3" by (rule take_bit_nat_less_exp)
  ultimately show ?thesis by simp
qed

lemma for_loop_numeral [simp]:
  "for_loop body i (numeral k) s = do {
     x \<leftarrow> body i s;
     case x of Inl r \<Rightarrow> Some (Inl r) | Inr s' \<Rightarrow> for_loop body (Suc i) (pred_numeral k) s'
   }"
  by (simp add: numeral_eq_Suc)

section \<open>Fields of a prefix\<close>

lemma field_take: "offset + n \<le> m \<Longrightarrow> field (take m bs) offset n = field bs offset n"
  by (simp add: field_def drop_take min_def)

section \<open>Counting\<close>

lemma count_list_distinct: "distinct xs \<Longrightarrow> count_list xs x = (if x \<in> set xs then 1 else 0)"
  by (induction xs) auto

end
