(* ===== verification/Fixtures.thy ===== *)
theory Fixtures
  imports Prelude
begin

text \<open>
  Concrete guest files on which the properties of the pipeline are exercised, in the spirit of
  the fixture headers \<^verbatim>\<open>src/src/core/uwp/guest_*_fixture.h\<close>.  \<open>tiny_elf\<close> is a raw ELF64 file of
  128 bytes with the Orbis identity and one executable PT\_LOAD segment of 128 file bytes and
  144 memory bytes at 0x400000; the entry point is the first payload byte at 0x400078.
\<close>

definition tiny_elf_header :: "byte list" where
  "tiny_elf_header =
    [0x7f, 0x45, 0x4c, 0x46, 2, 1, 1, 9, 0, 0, 0, 0, 0, 0, 0, 0,
     0x10, 0xfe, 62, 0, 1, 0, 0, 0,
     0x78, 0x00, 0x40, 0, 0, 0, 0, 0,
     64, 0, 0, 0, 0, 0, 0, 0,
     0, 0, 0, 0, 0, 0, 0, 0,
     0, 0, 0, 0, 64, 0, 56, 0, 1, 0, 0, 0, 0, 0, 0, 0]"

definition tiny_elf_phdr :: "byte list" where
  "tiny_elf_phdr =
    [1, 0, 0, 0, 5, 0, 0, 0,
     0, 0, 0, 0, 0, 0, 0, 0,
     0, 0, 0x40, 0, 0, 0, 0, 0,
     0, 0, 0, 0, 0, 0, 0, 0,
     128, 0, 0, 0, 0, 0, 0, 0,
     144, 0, 0, 0, 0, 0, 0, 0,
     0, 0x10, 0, 0, 0, 0, 0, 0]"

definition tiny_elf :: "byte list" where
  "tiny_elf = tiny_elf_header @ tiny_elf_phdr @ [0xc3, 0x90, 0x90, 0x90, 1, 2, 3, 4]"

lemma length_tiny_elf: "length tiny_elf = 128"
  by (simp add: tiny_elf_def tiny_elf_header_def tiny_elf_phdr_def)

lemmas tiny_elf_bytes = tiny_elf_def tiny_elf_header_def tiny_elf_phdr_def

lemma tiny_elf_fields:
  "field tiny_elf 0 4 = 0x464c457f"
  "field tiny_elf 16 2 = 0xfe10"
  "field tiny_elf 18 2 = 0x3e"
  "field tiny_elf 20 4 = 1"
  "field tiny_elf 24 8 = 0x400078"
  "field tiny_elf 32 8 = 0x40"
  "field tiny_elf 52 2 = 0x40"
  "field tiny_elf 54 2 = 0x38"
  "field tiny_elf 56 2 = 1"
  "field tiny_elf 64 4 = 1"
  "field tiny_elf 68 4 = 0x5"
  "field tiny_elf 72 8 = 0"
  "field tiny_elf 80 8 = 0x400000"
  "field tiny_elf 96 8 = 0x80"
  "field tiny_elf 104 8 = 0x90"
  "field tiny_elf 112 8 = 0x1000"
  "unat (tiny_elf ! 4) = 2"
  "unat (tiny_elf ! 5) = 1"
  "unat (tiny_elf ! 6) = 1"
  "unat (tiny_elf ! 7) = 9"
  "unat (tiny_elf ! 8) = 0"
  by (simp_all add: field_def tiny_elf_bytes)

end
