(* ===== verification/Guest_Preflight.thy ===== *)
theory Guest_Preflight
  imports Prelude Fixtures
begin

text \<open>
  The bounded header inspection of \<^verbatim>\<open>src/src/core/uwp/guest_preflight.h\<close>: it classifies a
  file prefix as an ELF or a SELF container and validates the ELF64 header inside it.
  Every read of the prefix goes through \<open>read_le\<close> or \<open>byte_at\<close>, so \<open>None\<close> is a read
  outside the span.  The component theorems show that there is none, that the verdict and the
  error string agree, and what an accepted header guarantees to the later stages.
\<close>

section \<open>Result record and constants\<close>

abbreviation GuestPrefixLimit :: nat where
  "GuestPrefixLimit \<equiv> 16384"

record GuestPreflight =
  pf_header_valid :: bool
  pf_self_container :: bool
  pf_orbis_identity :: bool
  pf_encrypted_segments :: bool
  pf_compressed_segments :: bool
  pf_type :: u16
  pf_program_headers :: u16
  pf_entry :: u64
  pf_elf_offset :: u64
  pf_error :: string

definition preflight_init :: GuestPreflight where
  "preflight_init = \<lparr>pf_header_valid = False, pf_self_container = False,
     pf_orbis_identity = False, pf_encrypted_segments = False, pf_compressed_segments = False,
     pf_type = 0, pf_program_headers = 0, pf_entry = 0, pf_elf_offset = 0, pf_error = ''''\<rparr>"

definition preflight_fail :: "GuestPreflight \<Rightarrow> string \<Rightarrow> GuestPreflight option" where
  "preflight_fail r e = Some (r\<lparr>pf_error := e\<rparr>)"

section \<open>Inspection\<close>

text \<open>The second half of the function: the ELF header at \<open>pf_elf_offset r\<close>.\<close>

definition inspect_elf :: "byte list \<Rightarrow> u64 \<Rightarrow> GuestPreflight \<Rightarrow> GuestPreflight option" where
  "inspect_elf bytes file_size r =
    (let offset = pf_elf_offset r in
     if sub64 (length bytes) offset < 64 then preflight_fail r ''truncated_elf_header''
     else do {
       magic \<leftarrow> read_le bytes offset 4;
       if magic \<noteq> 0x464c457f then preflight_fail r ''invalid_elf_magic''
       else do {
         b4 \<leftarrow> byte_at bytes (offset + 4);
         b5 \<leftarrow> byte_at bytes (offset + 5);
         b6 \<leftarrow> byte_at bytes (offset + 6);
         machine \<leftarrow> read_le bytes (offset + 18) 2;
         version \<leftarrow> read_le bytes (offset + 20) 4;
         if b4 \<noteq> 2 \<or> b5 \<noteq> 1 \<or> b6 \<noteq> 1 \<or> machine \<noteq> 62 \<or> version \<noteq> 1
         then preflight_fail r ''requires_elf64_little_endian_x86_64''
         else do {
           header_size \<leftarrow> read_le bytes (offset + 52) 2;
           if header_size < 64 \<or> header_size > file_size \<or>
              (\<not> pf_self_container r \<and> header_size \<noteq> 64)
           then preflight_fail r ''invalid_elf_header_size''
           else do {
             type \<leftarrow> read_le bytes (offset + 16) 2;
             let r = r\<lparr>pf_type := type\<rparr>;
             if type \<noteq> 2 \<and> type \<noteq> 3 \<and> type \<noteq> 0xfe00 \<and> type \<noteq> 0xfe10 \<and> type \<noteq> 0xfe18
             then preflight_fail r ''unsupported_elf_type''
             else do {
               entry \<leftarrow> read_le bytes (offset + 24) 8;
               phnum \<leftarrow> read_le bytes (offset + 56) 2;
               phentsize \<leftarrow> read_le bytes (offset + 54) 2;
               let r = r\<lparr>pf_entry := entry, pf_program_headers := phnum\<rparr>;
               if phnum = 0 \<or> phnum = 0xffff \<or> phentsize \<noteq> 56
               then preflight_fail r ''unsupported_program_header_layout''
               else do {
                 phoff \<leftarrow> read_le bytes (offset + 32) 8;
                 let available = sub64 file_size (pf_elf_offset r);
                 if phoff < 64 \<or> phoff > available \<or> mul64 phnum 56 > sub64 available phoff
                 then preflight_fail r ''program_header_table_outside_file''
                 else do {
                   b7 \<leftarrow> byte_at bytes (offset + 7);
                   b8 \<leftarrow> byte_at bytes (offset + 8);
                   Some (r\<lparr>pf_orbis_identity := (b7 = 9 \<and> b8 = 0 \<and> type \<ge> 0xfe00),
                           pf_header_valid := True\<rparr>)
                 }
               }
             }
           }
         }
       }
     })"

text \<open>
  The loop over the SELF segment descriptors.  Arguments: the index \<open>i\<close>, the number of
  descriptors left, the result so far.
\<close>

fun inspect_self_flags :: "byte list \<Rightarrow> nat \<Rightarrow> nat \<Rightarrow> GuestPreflight \<Rightarrow> GuestPreflight option" where
  "inspect_self_flags bytes i 0 r = Some r"
| "inspect_self_flags bytes i (Suc n) r = do {
     flags \<leftarrow> read_le bytes (32 + i * 32) 8;
     inspect_self_flags bytes (Suc i) n
       (r\<lparr>pf_encrypted_segments := (pf_encrypted_segments r \<or> flags AND 2 \<noteq> 0),
          pf_compressed_segments := (pf_compressed_segments r \<or> flags AND 8 \<noteq> 0)\<rparr>)
   }"

text \<open>The identity bytes 4 to 9 of a SELF header.\<close>

definition self_identity :: "byte list \<Rightarrow> bool option" where
  "self_identity bytes = do {
     b4 \<leftarrow> byte_at bytes 4; b5 \<leftarrow> byte_at bytes 5; b6 \<leftarrow> byte_at bytes 6;
     b7 \<leftarrow> byte_at bytes 7; b8 \<leftarrow> byte_at bytes 8; b9 \<leftarrow> byte_at bytes 9;
     Some (b4 = 0 \<and> b5 = 1 \<and> b6 = 1 \<and> b7 = 0x12 \<and> b8 = 1 \<and> b9 = 1)
   }"

definition InspectGuestPrefix :: "byte list \<Rightarrow> u64 \<Rightarrow> GuestPreflight option" where
  "InspectGuestPrefix bytes file_size =
    (if length bytes > GuestPrefixLimit \<or> length bytes > file_size \<or> length bytes < 4
     then preflight_fail preflight_init ''invalid_prefix_size''
     else do {
       magic \<leftarrow> read_le bytes 0 4;
       let r = preflight_init\<lparr>pf_self_container := (magic = 0x1d3d154f)\<rparr>;
       if pf_self_container r then
         if length bytes < 32 then preflight_fail r ''truncated_self_header''
         else do {
           ident \<leftarrow> self_identity bytes;
           if \<not> ident then preflight_fail r ''unsupported_self_identity''
           else do {
             segments \<leftarrow> read_le bytes 24 2;
             let r = r\<lparr>pf_elf_offset := 32 + segments * 32\<rparr>;
             if pf_elf_offset r > length bytes \<or> length bytes - pf_elf_offset r < 64
             then preflight_fail r ''self_elf_outside_prefix''
             else do {
               r \<leftarrow> inspect_self_flags bytes 0 segments r;
               inspect_elf bytes file_size r
             }
           }
         }
       else inspect_elf bytes file_size r
     })"

section \<open>What an accepted header means\<close>

text \<open>
  The ELF header as a record of fields at fixed offsets, independent of the order in which the
  code looks at them.
\<close>

definition elf64_orbis_header :: "byte list \<Rightarrow> nat \<Rightarrow> bool" where
  "elf64_orbis_header bs off \<longleftrightarrow>
     off + 64 \<le> length bs \<and> field bs off 4 = 0x464c457f \<and>
     unat (bs ! (off + 4)) = 2 \<and> unat (bs ! (off + 5)) = 1 \<and> unat (bs ! (off + 6)) = 1 \<and>
     field bs (off + 18) 2 = 62 \<and> field bs (off + 20) 4 = 1 \<and>
     field bs (off + 16) 2 \<in> {2, 3, 0xfe00, 0xfe10, 0xfe18}"

definition ph_table_in_file :: "byte list \<Rightarrow> nat \<Rightarrow> nat \<Rightarrow> bool" where
  "ph_table_in_file bs off fs \<longleftrightarrow>
     field bs (off + 54) 2 = 56 \<and> 0 < field bs (off + 56) 2 \<and> field bs (off + 56) 2 < 0xffff \<and>
     64 \<le> field bs (off + 32) 8 \<and>
     off + field bs (off + 32) 8 + 56 * field bs (off + 56) 2 \<le> fs"

definition self_prefix :: "byte list \<Rightarrow> bool" where
  "self_prefix bs \<longleftrightarrow> field bs 0 4 = 0x1d3d154f"

definition elf_start :: "byte list \<Rightarrow> nat" where
  "elf_start bs = (if self_prefix bs then 32 + 32 * field bs 24 2 else 0)"

definition header_size_ok :: "byte list \<Rightarrow> nat \<Rightarrow> bool" where
  "header_size_ok bs fs \<longleftrightarrow>
     (let h = field bs (elf_start bs + 52) 2 in
      64 \<le> h \<and> h \<le> fs \<and> (self_prefix bs \<or> h = 64))"

definition self_identity_ok :: "byte list \<Rightarrow> bool" where
  "self_identity_ok bs \<longleftrightarrow> 32 \<le> length bs \<and> map unat (take 6 (drop 4 bs)) = [0, 1, 1, 0x12, 1, 1]"

definition accepted_prefix :: "byte list \<Rightarrow> nat \<Rightarrow> bool" where
  "accepted_prefix bs fs \<longleftrightarrow>
     4 \<le> length bs \<and> length bs \<le> GuestPrefixLimit \<and> length bs \<le> fs \<and>
     (self_prefix bs \<longrightarrow> self_identity_ok bs) \<and>
     elf64_orbis_header bs (elf_start bs) \<and> header_size_ok bs fs \<and>
     ph_table_in_file bs (elf_start bs) fs"

text \<open>\<open>some_self_flag bs m\<close>: some SELF segment descriptor has a bit of the mask \<open>m\<close>.\<close>

definition some_self_flag :: "byte list \<Rightarrow> nat \<Rightarrow> bool" where
  "some_self_flag bs m \<longleftrightarrow>
     self_prefix bs \<and> (\<exists>i < field bs 24 2. field bs (32 + i * 32) 8 AND m \<noteq> 0)"

section \<open>Lemmas\<close>

lemma inspect_self_flags_result:
  assumes "32 + (i + n) * 32 \<le> length bs"
  shows "inspect_self_flags bs i n r =
    Some (r\<lparr>pf_encrypted_segments := (pf_encrypted_segments r \<or>
              (\<exists>k \<in> {i..<i + n}. field bs (32 + k * 32) 8 AND 2 \<noteq> 0)),
            pf_compressed_segments := (pf_compressed_segments r \<or>
              (\<exists>k \<in> {i..<i + n}. field bs (32 + k * 32) 8 AND 8 \<noteq> 0))\<rparr>)"
  using assms
proof (induction n arbitrary: i r)
  case 0
  then show ?case by simp
next
  case (Suc n)
  have split: "{i..<i + Suc n} = insert i {Suc i..<Suc i + n}" by auto
  have rd: "read_le bs (32 + i * 32) 8 = Some (field bs (32 + i * 32) 8)"
    using Suc.prems by (intro read_le_field) simp
  show ?case
    using Suc.prems unfolding split by (simp add: rd Suc.IH disj_ac)
qed

lemma self_identity_result:
  "32 \<le> length bs \<Longrightarrow> self_identity bs = Some (self_identity_ok bs)"
proof -
  assume len: "32 \<le> length bs"
  have "take 6 (drop 4 bs) = map (\<lambda>i. bs ! (4 + i)) [0..<6]"
    using len by (intro nth_equalityI) auto
  also have "[0..<6] = [0, 1, 2, 3, 4, 5::nat]" by (simp add: upt_rec)
  finally show ?thesis
    using len by (simp add: self_identity_def self_identity_ok_def bytes_simps)
qed

text \<open>
  The ELF half, for a start offset inside the prefix: it always returns, it accepts exactly the
  headers described above, the error string is empty exactly for those, and it touches only the
  fields it fills in.
\<close>

definition elf_half_ok :: "byte list \<Rightarrow> nat \<Rightarrow> GuestPreflight \<Rightarrow> bool" where
  "elf_half_ok bs fs r \<longleftrightarrow>
     (let off = pf_elf_offset r; h = field bs (off + 52) 2 in
      elf64_orbis_header bs off \<and> 64 \<le> h \<and> h \<le> fs \<and> (pf_self_container r \<or> h = 64) \<and>
      ph_table_in_file bs off fs)"

definition filled_from :: "byte list \<Rightarrow> GuestPreflight \<Rightarrow> GuestPreflight \<Rightarrow> bool" where
  "filled_from bs r r' \<longleftrightarrow>
     pf_type r' = field bs (pf_elf_offset r + 16) 2 \<and>
     pf_entry r' = field bs (pf_elf_offset r + 24) 8 \<and>
     pf_program_headers r' = field bs (pf_elf_offset r + 56) 2 \<and>
     (pf_orbis_identity r' \<longleftrightarrow>
        unat (bs ! (pf_elf_offset r + 7)) = 9 \<and> unat (bs ! (pf_elf_offset r + 8)) = 0 \<and>
        0xfe00 \<le> pf_type r')"

definition same_container :: "GuestPreflight \<Rightarrow> GuestPreflight \<Rightarrow> bool" where
  "same_container r r' \<longleftrightarrow>
     pf_self_container r' = pf_self_container r \<and> pf_elf_offset r' = pf_elf_offset r \<and>
     pf_encrypted_segments r' = pf_encrypted_segments r \<and>
     pf_compressed_segments r' = pf_compressed_segments r"

lemma inspect_elf_total:
  assumes off: "pf_elf_offset r \<le> length bs" and fs: "length bs \<le> fs"
    and init: "\<not> pf_header_valid r" "pf_error r = ''''"
  shows "\<exists>r'. inspect_elf bs fs r = Some r' \<and>
    (pf_header_valid r' \<longleftrightarrow> elf_half_ok bs fs r) \<and> (pf_error r' = '''' \<longleftrightarrow> pf_header_valid r') \<and>
    same_container r r' \<and> (pf_header_valid r' \<longrightarrow> filled_from bs r r')"
proof (cases "pf_elf_offset r + 64 \<le> length bs")
  case False
  then have "sub64 (length bs) (pf_elf_offset r) < 64"
    using off by (simp add: u64_simps)
  with False show ?thesis
    by (simp add: inspect_elf_def preflight_fail_def init elf_half_ok_def elf64_orbis_header_def
        same_container_def)
next
  case True
  have rd: "\<And>k n. k + n \<le> 64 \<Longrightarrow> read_le bs (pf_elf_offset r + k) n = Some (field bs (pf_elf_offset r + k) n)"
    and rd0: "read_le bs (pf_elf_offset r) 4 = Some (field bs (pf_elf_offset r) 4)"
    and b: "\<And>k. k < 64 \<Longrightarrow> byte_at bs (pf_elf_offset r + k) = Some (unat (bs ! (pf_elf_offset r + k)))"
    using True by (auto simp: bytes_simps)
  have sub: "sub64 (length bs) (pf_elf_offset r) = length bs - pf_elf_offset r"
    "sub64 fs (pf_elf_offset r) = fs - pf_elf_offset r"
    using off fs by (auto simp: u64_simps)
  define n where "n = field bs (pf_elf_offset r + 56) 2"
  have m: "mul64 n 56 = n * 56"
    using field_2_bound [of bs "pf_elf_offset r + 56"] by (intro mul64_exact) (simp add: n_def)
  have n16: "n \<le> 65535"
    using field_2_bound [of bs "pf_elf_offset r + 56"] by (simp add: n_def)
  let ?off = "pf_elf_offset r"
  define ident where "ident \<longleftrightarrow> unat (bs ! (?off + 4)) = 2 \<and> unat (bs ! (?off + 5)) = 1 \<and>
    unat (bs ! (?off + 6)) = 1 \<and> field bs (?off + 18) 2 = 62 \<and> field bs (?off + 20) 4 = 1"
  define hsz where "hsz \<longleftrightarrow> 64 \<le> field bs (?off + 52) 2 \<and> field bs (?off + 52) 2 \<le> fs \<and>
    (pf_self_container r \<or> field bs (?off + 52) 2 = 64)"
  define tyok where "tyok \<longleftrightarrow> field bs (?off + 16) 2 \<in> {2, 3, 0xfe00, 0xfe10, 0xfe18}"
  define lay where "lay \<longleftrightarrow> n \<noteq> 0 \<and> n \<noteq> 0xffff \<and> field bs (?off + 54) 2 = 56"
  define tab where "tab \<longleftrightarrow> 64 \<le> field bs (?off + 32) 8 \<and> field bs (?off + 32) 8 \<le> fs - ?off \<and>
    n * 56 \<le> fs - ?off - field bs (?off + 32) 8"
  let ?r1 = "r\<lparr>pf_type := field bs (?off + 16) 2\<rparr>"
  let ?r2 = "?r1\<lparr>pf_entry := field bs (?off + 24) 8, pf_program_headers := n\<rparr>"
  let ?r3 = "?r2\<lparr>pf_orbis_identity := (unat (bs ! (?off + 7)) = 9 \<and> unat (bs ! (?off + 8)) = 0 \<and>
      0xfe00 \<le> field bs (?off + 16) 2), pf_header_valid := True\<rparr>"
  have sub2: "sub64 (fs - ?off) x = (fs - ?off) - x" if "x \<le> fs - ?off" for x
    using that by (rule sub64_exact)
  have run: "inspect_elf bs fs r = Some (
    if field bs ?off 4 \<noteq> 0x464c457f then r\<lparr>pf_error := ''invalid_elf_magic''\<rparr>
    else if \<not> ident then r\<lparr>pf_error := ''requires_elf64_little_endian_x86_64''\<rparr>
    else if \<not> hsz then r\<lparr>pf_error := ''invalid_elf_header_size''\<rparr>
    else if \<not> tyok then ?r1\<lparr>pf_error := ''unsupported_elf_type''\<rparr>
    else if \<not> lay then ?r2\<lparr>pf_error := ''unsupported_program_header_layout''\<rparr>
    else if \<not> tab then ?r2\<lparr>pf_error := ''program_header_table_outside_file''\<rparr>
    else ?r3)"
    using True by (simp add: inspect_elf_def Let_def rd rd0 b sub preflight_fail_def
        n_def [symmetric] m ident_def hsz_def tyok_def lay_def tab_def not_le not_less sub2
        cong: conj_cong disj_cong)
  have spec: "elf_half_ok bs fs r \<longleftrightarrow>
      field bs ?off 4 = 0x464c457f \<and> ident \<and> hsz \<and> tyok \<and> lay \<and> tab"
    using True off fs n16
    by (auto simp: elf_half_ok_def Let_def elf64_orbis_header_def ph_table_in_file_def
        n_def [symmetric] ident_def hsz_def tyok_def lay_def tab_def)
  show ?thesis
    unfolding run spec using init
    by (simp add: same_container_def filled_from_def n_def)
qed

lemma InspectGuestPrefix_result:
  "\<exists>r. InspectGuestPrefix bs fs = Some r \<and>
    (pf_header_valid r \<longleftrightarrow> accepted_prefix bs fs) \<and> (pf_error r = '''' \<longleftrightarrow> pf_header_valid r) \<and>
    (pf_header_valid r \<longrightarrow>
       pf_self_container r = self_prefix bs \<and> pf_elf_offset r = elf_start bs \<and>
       pf_encrypted_segments r = some_self_flag bs 2 \<and>
       pf_compressed_segments r = some_self_flag bs 8 \<and> filled_from bs r r)"
proof (cases "length bs > GuestPrefixLimit \<or> length bs > fs \<or> length bs < 4")
  case True
  then show ?thesis
    by (auto simp: InspectGuestPrefix_def preflight_fail_def preflight_init_def accepted_prefix_def)
next
  case size: False
  then have rd: "read_le bs 0 4 = Some (field bs 0 4)" by (simp add: bytes_simps)
  let ?r0 = "preflight_init\<lparr>pf_self_container := self_prefix bs\<rparr>"
  have init: "\<not> pf_header_valid preflight_init" "pf_error preflight_init = ''''"
    "\<not> pf_encrypted_segments preflight_init" "\<not> pf_compressed_segments preflight_init"
    "pf_elf_offset preflight_init = 0"
    by (simp_all add: preflight_init_def)
  show ?thesis
  proof (cases "self_prefix bs")
    case raw: False
    then have start: "elf_start bs = 0" by (simp add: elf_start_def)
    have run: "InspectGuestPrefix bs fs = inspect_elf bs fs ?r0"
      using size raw by (simp add: InspectGuestPrefix_def rd self_prefix_def)
    have half: "elf_half_ok bs fs ?r0 \<longleftrightarrow> accepted_prefix bs fs"
      using size raw
      by (simp add: elf_half_ok_def accepted_prefix_def header_size_ok_def start init Let_def)
    obtain r' where "inspect_elf bs fs ?r0 = Some r'"
      and "pf_header_valid r' \<longleftrightarrow> accepted_prefix bs fs" "pf_error r' = '''' \<longleftrightarrow> pf_header_valid r'"
      and "same_container ?r0 r'" "pf_header_valid r' \<longrightarrow> filled_from bs ?r0 r'"
      using inspect_elf_total [of ?r0 bs fs, unfolded half] size init by auto
    with raw run init show ?thesis
      by (auto simp: same_container_def start some_self_flag_def filled_from_def)
  next
    case self: True
    let ?n = "field bs 24 2"
    have start: "elf_start bs = 32 + ?n * 32" using self by (simp add: elf_start_def)
    let ?fits = "self_identity_ok bs \<and> elf_start bs + 64 \<le> length bs"
    show ?thesis
    proof (cases ?fits)
      case False
      have reject: "\<not> accepted_prefix bs fs"
        using False self by (auto simp: accepted_prefix_def elf64_orbis_header_def)
      have "\<exists>r. InspectGuestPrefix bs fs = Some r \<and> \<not> pf_header_valid r \<and> pf_error r \<noteq> ''''"
      proof (cases "length bs < 32")
        case True
        then show ?thesis using size self init
          by (simp add: InspectGuestPrefix_def rd self_prefix_def preflight_fail_def)
      next
        case ge: False
        then show ?thesis using False size self init
          by (auto simp: InspectGuestPrefix_def rd self_prefix_def self_identity_result start
              read_le_field preflight_fail_def Let_def)
      qed
      with reject show ?thesis by auto
    next
      case True
      let ?r1 = "?r0\<lparr>pf_elf_offset := elf_start bs, pf_encrypted_segments := some_self_flag bs 2,
          pf_compressed_segments := some_self_flag bs 8\<rparr>"
      have len: "32 + ?n * 32 + 64 \<le> length bs" using True start by simp
      then have room: "\<not> length bs - (32 + ?n * 32) < 64" by linarith
      have run: "InspectGuestPrefix bs fs = inspect_elf bs fs ?r1"
        using size self True len init
        by (simp add: InspectGuestPrefix_def rd self_prefix_def self_identity_result read_le_field
            inspect_self_flags_result start some_self_flag_def Let_def atLeast0LessThan Bex_def room)
      have half: "elf_half_ok bs fs ?r1 \<longleftrightarrow> accepted_prefix bs fs"
        using size self True
        by (simp add: elf_half_ok_def accepted_prefix_def header_size_ok_def Let_def)
      obtain r' where "inspect_elf bs fs ?r1 = Some r'"
        and "pf_header_valid r' \<longleftrightarrow> accepted_prefix bs fs" "pf_error r' = '''' \<longleftrightarrow> pf_header_valid r'"
        and "same_container ?r1 r'" "pf_header_valid r' \<longrightarrow> filled_from bs ?r1 r'"
        using inspect_elf_total [of ?r1 bs fs, unfolded half] size True init by auto
      with self run show ?thesis by (auto simp: same_container_def filled_from_def)
    qed
  qed
qed

lemma tiny_elf_accepted: "accepted_prefix tiny_elf 128"
  by (simp add: accepted_prefix_def self_prefix_def elf64_orbis_header_def elf_start_def
      header_size_ok_def ph_table_in_file_def field_def tiny_elf_bytes)

section \<open>Properties\<close>

text \<open>C3: InspectGuestPrefix returns for every prefix and every declared file size without
  reading outside the prefix; it accepts exactly the prefixes that hold a well-formed ELF64
  header for x86-64 (raw, or inside a SELF container with the expected identity) whose program
  header table fits the file; and its error string is empty exactly when it accepts.\<close>

theorem preflight_verdict:
  "\<exists>r. InspectGuestPrefix bs fs = Some r \<and>
     (pf_header_valid r \<longleftrightarrow> accepted_prefix bs fs) \<and> (pf_error r = '''' \<longleftrightarrow> pf_header_valid r)"
  using InspectGuestPrefix_result [of bs fs] by blast

text \<open>For an accepted header the reported layout is usable by the later stages: the ELF
  header lies in the prefix, there is at least one program header, the whole table lies in the
  file, the encryption and compression flags are raised exactly when some SELF segment
  descriptor carries the bit, and the Orbis identity implies an Orbis file type.\<close>

theorem preflight_accepted_layout:
  assumes run: "InspectGuestPrefix bs fs = Some r" and valid: "pf_header_valid r"
  shows "pf_elf_offset r + 64 \<le> length bs \<and> 0 < pf_program_headers r \<and>
     pf_elf_offset r + field bs (pf_elf_offset r + 32) 8 + 56 * pf_program_headers r \<le> fs \<and>
     (pf_encrypted_segments r \<longleftrightarrow> some_self_flag bs 2) \<and>
     (pf_compressed_segments r \<longleftrightarrow> some_self_flag bs 8) \<and>
     (pf_orbis_identity r \<longrightarrow> 0xfe00 \<le> pf_type r)"
  using InspectGuestPrefix_result [of bs fs] run valid
  by (auto simp: accepted_prefix_def elf64_orbis_header_def ph_table_in_file_def filled_from_def)

theorem preflight_accepted_layout_witness:
  "\<exists>r. InspectGuestPrefix tiny_elf 128 = Some r \<and> pf_header_valid r \<and> pf_elf_offset r + 64 \<le> 128"
proof -
  obtain r where r: "InspectGuestPrefix tiny_elf 128 = Some r" "pf_header_valid r"
    using InspectGuestPrefix_result [of tiny_elf 128] tiny_elf_accepted by blast
  show ?thesis using r preflight_accepted_layout [OF r] by (auto simp: length_tiny_elf)
qed

end
