(* ===== verification/Guest_Load_Plan.thy ===== *)
theory Guest_Load_Plan
  imports Guest_Preflight
begin

text \<open>
  The segment planner and the raw-ELF stager of \<^verbatim>\<open>src/src/core/uwp/guest_load_plan.h\<close>.
  \<open>PlanGuestLoads\<close> walks the program header table of an accepted prefix and either fails with a
  reason or returns the list of loadable segments with the image base and size;
  \<open>StageRawGuest\<close> copies the file parts of the segments into a zeroed image.
  The invariant \<open>plan_inv\<close> of the walk gives the guarantees of a valid plan: segments in
  bounds, disjoint, never writable and executable at once, all inside a page-aligned image that
  respects the budget.
\<close>

section \<open>Records\<close>

abbreviation GuestImageLimit :: u64 where
  "GuestImageLimit \<equiv> 16777216"

abbreviation GuestPageSize :: u64 where
  "GuestPageSize \<equiv> 16384"

abbreviation PT_SCE_RELRO :: u32 where
  "PT_SCE_RELRO \<equiv> 0x61000010"

record GuestLoadSegment =
  seg_file_offset :: u64
  seg_address :: u64
  seg_file_size :: u64
  seg_memory_size :: u64
  seg_flags :: u32
  seg_program_index :: u32
  seg_type :: u32

record GuestLoadPlan =
  plan_valid :: bool
  plan_raw_elf :: bool
  plan_base :: u64
  plan_image_size :: u64
  plan_entry_offset :: u64
  plan_segments :: "GuestLoadSegment list"
  plan_error :: string

definition plan_init :: GuestLoadPlan where
  "plan_init = \<lparr>plan_valid = False, plan_raw_elf = False, plan_base = 0, plan_image_size = 0,
     plan_entry_offset = 0, plan_segments = [], plan_error = ''''\<rparr>"

definition plan_fail :: "GuestLoadPlan \<Rightarrow> string \<Rightarrow> GuestLoadPlan" where
  "plan_fail p e = p\<lparr>plan_error := e\<rparr>"

text \<open>The variables of the loop: the plan under construction, \<open>low\<close>, \<open>high\<close> and
  \<open>executable_entry\<close>.\<close>

record plan_state =
  ps_plan :: GuestLoadPlan
  ps_low :: u64
  ps_high :: u64
  ps_exec :: bool

section \<open>PlanGuestLoads\<close>

definition read_segment :: "byte list \<Rightarrow> nat \<Rightarrow> nat \<Rightarrow> u32 \<Rightarrow> GuestLoadSegment option" where
  "read_segment prefix offset i type = do {
     file_offset \<leftarrow> read_le prefix (offset + 8) 8;
     address \<leftarrow> read_le prefix (offset + 16) 8;
     file_size \<leftarrow> read_le prefix (offset + 32) 8;
     memory_size \<leftarrow> read_le prefix (offset + 40) 8;
     flags \<leftarrow> read_le prefix (offset + 4) 4;
     Some \<lparr>seg_file_offset = file_offset, seg_address = address, seg_file_size = file_size,
           seg_memory_size = memory_size, seg_flags = flags, seg_program_index = i,
           seg_type = type\<rparr>
   }"

text \<open>The checks of one segment, in the order of the code; \<open>None\<close> when all pass or the segment
  is skipped because it occupies no memory.\<close>

definition segment_overlaps :: "GuestLoadSegment \<Rightarrow> GuestLoadSegment list \<Rightarrow> bool" where
  "segment_overlaps s prev = list_ex (\<lambda>p.
     seg_address s < add64 (seg_address p) (seg_memory_size p) \<and>
     seg_address p < add64 (seg_address s) (seg_memory_size s)) prev"

definition segment_attr_error :: "GuestLoadSegment \<Rightarrow> u64 \<Rightarrow> string option" where
  "segment_attr_error s alignment =
    (if seg_type s = PT_SCE_RELRO \<and> seg_flags s AND 1 \<noteq> 0
     then Some ''unsupported_relro_permissions''
     else if seg_flags s AND 0xfffffff8 \<noteq> 0 \<or> seg_flags s AND 3 = 3
     then Some ''unsupported_segment_permissions''
     else if seg_file_size s > seg_memory_size s then Some ''file_size_exceeds_memory''
     else if alignment > 1 \<and> (alignment AND (alignment - 1) \<noteq> 0 \<or>
        seg_address s mod alignment \<noteq> seg_file_offset s mod alignment)
     then Some ''invalid_segment_alignment''
     else None)"

definition segment_range_error ::
  "GuestLoadSegment \<Rightarrow> bool \<Rightarrow> u64 \<Rightarrow> GuestLoadSegment list \<Rightarrow> string option" where
  "segment_range_error s raw file_size prev =
    (if seg_memory_size s > GuestImageLimit \<or> seg_address s > UINT64_MAX - seg_memory_size s
     then Some ''segment_address_overflow_or_budget''
     else if raw \<and> (seg_file_offset s > file_size \<or>
        seg_file_size s > sub64 file_size (seg_file_offset s))
     then Some ''segment_outside_file''
     else if segment_overlaps s prev then Some ''overlapping_load_segments''
     else None)"

definition plan_accept :: "u64 \<Rightarrow> GuestLoadSegment \<Rightarrow> plan_state \<Rightarrow> plan_state" where
  "plan_accept entry s st = st\<lparr>
     ps_low := min (ps_low st) (seg_address s),
     ps_high := max (ps_high st) (add64 (seg_address s) (seg_memory_size s)),
     ps_exec := (ps_exec st \<or> (seg_type s = 1 \<and> seg_flags s AND 1 \<noteq> 0 \<and>
        entry \<ge> seg_address s \<and> sub64 entry (seg_address s) < seg_file_size s)),
     ps_plan := (ps_plan st)\<lparr>plan_segments := plan_segments (ps_plan st) @ [s]\<rparr>\<rparr>"

text \<open>One iteration: \<open>Inl\<close> is the early return, \<open>Inr\<close> the loop variables for the next one.\<close>

definition plan_step :: "byte list \<Rightarrow> u64 \<Rightarrow> bool \<Rightarrow> GuestPreflight \<Rightarrow> u64 \<Rightarrow> nat \<Rightarrow> plan_state
    \<Rightarrow> (GuestLoadPlan + plan_state) option" where
  "plan_step prefix file_size relro header phoff i st = do {
     let offset = pf_elf_offset header + phoff + i * 56;
     type \<leftarrow> read_le prefix offset 4;
     if type \<noteq> 1 \<and> \<not> (relro \<and> type = PT_SCE_RELRO) then Some (Inr st)
     else do {
       s \<leftarrow> read_segment prefix offset i type;
       alignment \<leftarrow> read_le prefix (offset + 48) 8;
       case segment_attr_error s alignment of
         Some e \<Rightarrow> Some (Inl (plan_fail (ps_plan st) e))
       | None \<Rightarrow>
           if seg_memory_size s = 0 then Some (Inr st)
           else (case segment_range_error s (plan_raw_elf (ps_plan st)) file_size
                        (plan_segments (ps_plan st)) of
                   Some e \<Rightarrow> Some (Inl (plan_fail (ps_plan st) e))
                 | None \<Rightarrow> Some (Inr (plan_accept (pf_entry header) s st)))
     }
   }"

text \<open>The checks after the loop.\<close>

definition plan_finish :: "GuestPreflight \<Rightarrow> plan_state \<Rightarrow> GuestLoadPlan" where
  "plan_finish header st =
    (let plan = ps_plan st in
     if plan_segments plan = [] then plan_fail plan ''no_load_segments''
     else if \<not> ps_exec st then plan_fail plan ''entry_outside_file_backed_executable_segment''
     else
       let base = ps_low st - ps_low st mod GuestPageSize;
           plan = plan\<lparr>plan_base := base\<rparr>;
           span = sub64 (ps_high st) base in
       if span > GuestImageLimit then plan_fail plan ''image_budget_exceeded''
       else plan\<lparr>
         plan_image_size := (span + GuestPageSize - 1) div GuestPageSize * GuestPageSize,
         plan_entry_offset := sub64 (pf_entry header) base,
         plan_valid := True\<rparr>)"

definition PlanGuestLoads :: "byte list \<Rightarrow> u64 \<Rightarrow> bool \<Rightarrow> GuestLoadPlan option" where
  "PlanGuestLoads prefix file_size include_sce_relro = do {
     header \<leftarrow> InspectGuestPrefix prefix file_size;
     if \<not> pf_header_valid header then Some (plan_fail plan_init ''header_invalid'')
     else do {
       let plan = plan_init\<lparr>plan_raw_elf := (\<not> pf_self_container header)\<rparr>;
       phoff \<leftarrow> read_le prefix (pf_elf_offset header + 32) 8;
       if pf_program_headers header > 128 then Some (plan_fail plan ''program_header_limit'')
       else do {
         let available = sub64 (length prefix) (pf_elf_offset header);
         if phoff > available \<or> mul64 (pf_program_headers header) 56 > sub64 available phoff
         then Some (plan_fail plan ''program_headers_outside_prefix'')
         else do {
           x \<leftarrow> for_loop (plan_step prefix file_size include_sce_relro header phoff) 0
                 (pf_program_headers header)
                 \<lparr>ps_plan = plan, ps_low = UINT64_MAX, ps_high = 0, ps_exec = False\<rparr>;
           case x of Inl p \<Rightarrow> Some p | Inr st \<Rightarrow> Some (plan_finish header st)
         }
       }
     }
   }"

section \<open>StageRawGuest\<close>

record GuestStagedImage =
  img_plan :: GuestLoadPlan
  img_bytes :: "byte list"
  img_error :: string

definition segment_piece :: "GuestLoadPlan \<Rightarrow> u64 \<Rightarrow> GuestLoadSegment \<Rightarrow> piece" where
  "segment_piece plan from s = (from, seg_file_size s, sub64 (seg_address s) (plan_base plan))"

definition StageRawGuest :: "byte list \<Rightarrow> GuestStagedImage option" where
  "StageRawGuest file = do {
     plan \<leftarrow> PlanGuestLoads (take (min (length file) GuestPrefixLimit) file) (length file) False;
     if \<not> plan_valid plan
     then Some \<lparr>img_plan = plan, img_bytes = [], img_error = plan_error plan\<rparr>
     else if \<not> plan_raw_elf plan
     then Some \<lparr>img_plan = plan, img_bytes = [], img_error = ''self_payload_adapter_required''\<rparr>
     else do {
       bytes \<leftarrow> copy_pieces file (map (\<lambda>s. segment_piece plan (seg_file_offset s) s) (plan_segments plan))
                 (replicate (plan_image_size plan) 0);
       Some \<lparr>img_plan = plan, img_bytes = bytes, img_error = ''''\<rparr>
     }
   }"

section \<open>The guarantees of a plan\<close>

text \<open>\<open>seg_ok raw fs relro s\<close>: what the checks of one iteration establish for a segment.\<close>

definition seg_ok :: "bool \<Rightarrow> u64 \<Rightarrow> bool \<Rightarrow> GuestLoadSegment \<Rightarrow> bool" where
  "seg_ok raw fs relro s \<longleftrightarrow>
     0 < seg_memory_size s \<and> seg_memory_size s \<le> GuestImageLimit \<and>
     seg_file_size s \<le> seg_memory_size s \<and>
     seg_address s + seg_memory_size s \<le> UINT64_MAX \<and>
     seg_flags s < 8 \<and> seg_flags s AND 3 \<noteq> 3 \<and>
     (raw \<longrightarrow> seg_file_offset s + seg_file_size s \<le> fs) \<and>
     (seg_type s = 1 \<or> relro \<and> seg_type s = PT_SCE_RELRO \<and> seg_flags s AND 1 = 0)"

definition seg_range :: "GuestLoadSegment \<Rightarrow> nat \<times> nat" where
  "seg_range s = (seg_address s, seg_memory_size s)"

definition entry_in :: "u64 \<Rightarrow> GuestLoadSegment \<Rightarrow> bool" where
  "entry_in entry s \<longleftrightarrow> seg_type s = 1 \<and> seg_flags s AND 1 \<noteq> 0 \<and>
     seg_address s \<le> entry \<and> entry < seg_address s + seg_file_size s"

definition segs_inv :: "bool \<Rightarrow> u64 \<Rightarrow> bool \<Rightarrow> nat \<Rightarrow> GuestLoadSegment list \<Rightarrow> bool" where
  "segs_inv raw fs relro n segs \<longleftrightarrow>
     (\<forall>s \<in> set segs. seg_ok raw fs relro s \<and> seg_program_index s < n) \<and>
     sorted_wrt (\<lambda>a b. disjoint_ranges (seg_range a) (seg_range b)) segs"

text \<open>The loop invariant after the first \<open>n\<close> program headers.\<close>

definition plan_inv :: "bool \<Rightarrow> u64 \<Rightarrow> bool \<Rightarrow> u64 \<Rightarrow> nat \<Rightarrow> plan_state \<Rightarrow> bool" where
  "plan_inv raw fs relro entry n st \<longleftrightarrow>
     \<not> plan_valid (ps_plan st) \<and> plan_error (ps_plan st) = '''' \<and> plan_raw_elf (ps_plan st) = raw \<and>
     segs_inv raw fs relro n (plan_segments (ps_plan st)) \<and>
     (\<forall>s \<in> set (plan_segments (ps_plan st)).
        ps_low st \<le> seg_address s \<and> seg_address s + seg_memory_size s \<le> ps_high st) \<and>
     (plan_segments (ps_plan st) \<noteq> [] \<longrightarrow> ps_low st \<le> ps_high st) \<and>
     ps_high st \<le> UINT64_MAX \<and>
     (ps_exec st \<longleftrightarrow> (\<exists>s \<in> set (plan_segments (ps_plan st)). entry_in entry s))"

definition plan_failed :: "GuestLoadPlan \<Rightarrow> bool" where
  "plan_failed p \<longleftrightarrow> \<not> plan_valid p \<and> plan_error p \<noteq> ''''"

lemma segment_error_nonempty:
  "segment_attr_error s a = Some e \<Longrightarrow> e \<noteq> ''''"
  "segment_range_error s raw fs prev = Some e \<Longrightarrow> e \<noteq> ''''"
  by (auto simp: segment_attr_error_def segment_range_error_def split: if_splits)

lemma segment_checks:
  assumes attr: "segment_attr_error s a = None" and range: "segment_range_error s raw fs prev = None"
    and mem: "seg_memory_size s \<noteq> 0" and f32: "seg_flags s < 2 ^ 32"
    and ty: "seg_type s = 1 \<or> relro \<and> seg_type s = PT_SCE_RELRO"
  shows "seg_ok raw fs relro s"
    and "(\<forall>p \<in> set prev. seg_ok raw fs relro p) \<Longrightarrow>
         \<forall>p \<in> set prev. disjoint_ranges (seg_range p) (seg_range s)"
proof -
  have fl: "seg_flags s < 8"
    using attr f32 and_mask_split [of "seg_flags s"]
    by (auto simp: segment_attr_error_def split: if_splits)
  have nowrap: "seg_address s + seg_memory_size s \<le> UINT64_MAX"
    "seg_memory_size s \<le> GuestImageLimit"
    using range by (auto simp: segment_range_error_def split: if_splits)
  show "seg_ok raw fs relro s"
    using attr range mem ty fl nowrap
    by (auto simp: segment_attr_error_def segment_range_error_def seg_ok_def sub64_exact
        split: if_splits)
  show "\<forall>p \<in> set prev. disjoint_ranges (seg_range p) (seg_range s)"
    if "\<forall>p \<in> set prev. seg_ok raw fs relro p"
    using range nowrap that
    by (auto simp: segment_range_error_def segment_overlaps_def list_ex_iff disjoint_ranges_def
        seg_range_def seg_ok_def u64_simps not_less split: if_splits)
qed

lemma plan_accept_inv:
  assumes inv: "plan_inv raw fs relro entry n st"
    and ok: "seg_ok raw fs relro s" "seg_program_index s < n'" and n: "n \<le> n'"
    and apart: "\<forall>p \<in> set (plan_segments (ps_plan st)). disjoint_ranges (seg_range p) (seg_range s)"
  shows "plan_inv raw fs relro entry n' (plan_accept entry s st)"
proof -
  let ?st = "plan_accept entry s st" and ?segs = "plan_segments (ps_plan st)"
  have exec: "(seg_type s = 1 \<and> seg_flags s AND 1 \<noteq> 0 \<and> entry \<ge> seg_address s \<and>
      sub64 entry (seg_address s) < seg_file_size s) = entry_in entry s"
    by (auto simp: entry_in_def u64_simps)
  have upd: "plan_segments (ps_plan ?st) = ?segs @ [s]" "ps_low ?st = min (ps_low st) (seg_address s)"
    "ps_high ?st = max (ps_high st) (seg_address s + seg_memory_size s)"
    "ps_exec ?st = (ps_exec st \<or> entry_in entry s)"
    "plan_valid (ps_plan ?st) = plan_valid (ps_plan st)"
    "plan_error (ps_plan ?st) = plan_error (ps_plan st)"
    "plan_raw_elf (ps_plan ?st) = plan_raw_elf (ps_plan st)"
    using ok exec by (auto simp: plan_accept_def seg_ok_def u64_simps)
  have segs: "segs_inv raw fs relro n' (?segs @ [s])"
    using inv ok n apart by (auto simp: plan_inv_def segs_inv_def sorted_wrt_append)
  have bounds: "ps_low ?st \<le> seg_address p \<and> seg_address p + seg_memory_size p \<le> ps_high ?st"
    if "p \<in> set (?segs @ [s])" for p
    using inv that unfolding upd by (auto simp: plan_inv_def min.coboundedI1 max.coboundedI1)
  have "seg_address s + seg_memory_size s \<le> UINT64_MAX" using ok by (simp add: seg_ok_def)
  then show ?thesis
    using inv segs bounds unfolding plan_inv_def upd by auto
qed

lemma plan_inv_mono: "plan_inv raw fs relro entry n st \<Longrightarrow> n \<le> n' \<Longrightarrow> plan_inv raw fs relro entry n' st"
  by (auto simp: plan_inv_def segs_inv_def)

lemma plan_fail_failed: "\<not> plan_valid p \<Longrightarrow> e \<noteq> '''' \<Longrightarrow> plan_failed (plan_fail p e)"
  by (simp add: plan_failed_def plan_fail_def)

lemma read_segment_ok:
  assumes "offset + 56 \<le> length prefix"
  shows "\<exists>s. read_segment prefix offset i ty = Some s \<and> seg_program_index s = i \<and> seg_type s = ty \<and>
    seg_flags s < 2 ^ 32 \<and> seg_file_size s = field prefix (offset + 32) 8 \<and>
    seg_file_offset s = field prefix (offset + 8) 8"
  using assms field_less [of prefix "offset + 4" 4]
  by (simp add: read_segment_def bytes_simps)

lemma plan_step_outcome:
  assumes fits: "pf_elf_offset header + phoff + k * 56 + 56 \<le> length prefix"
    and inv: "plan_inv raw fs relro (pf_entry header) k st"
  shows "outcome plan_failed (plan_inv raw fs relro (pf_entry header) (Suc k))
           (plan_step prefix fs relro header phoff k st)"
proof -
  let ?off = "pf_elf_offset header + phoff + k * 56"
  let ?ty = "field prefix ?off 4"
  have rd: "read_le prefix ?off 4 = Some ?ty"
    "read_le prefix (?off + 48) 8 = Some (field prefix (?off + 48) 8)"
    using fits by (auto intro!: read_le_field)
  obtain s where s: "read_segment prefix ?off k ?ty = Some s" "seg_program_index s = k"
    "seg_type s = ?ty" "seg_flags s < 2 ^ 32"
    using read_segment_ok [of ?off prefix k ?ty] fits by auto
  have nv: "\<not> plan_valid (ps_plan st)" and raw: "plan_raw_elf (ps_plan st) = raw"
    using inv by (auto simp: plan_inv_def)
  have keep: "plan_inv raw fs relro (pf_entry header) (Suc k) st"
    using inv by (rule plan_inv_mono) simp
  show ?thesis
  proof (cases "?ty \<noteq> 1 \<and> \<not> (relro \<and> ?ty = PT_SCE_RELRO)")
    case True
    then show ?thesis using rd keep by (simp add: plan_step_def)
  next
    case load: False
    let ?a = "segment_attr_error s (field prefix (?off + 48) 8)"
    let ?r = "segment_range_error s raw fs (plan_segments (ps_plan st))"
    have accept: "plan_inv raw fs relro (pf_entry header) (Suc k) (plan_accept (pf_entry header) s st)"
      if "?a = None" "?r = None" "seg_memory_size s \<noteq> 0"
    proof (rule plan_accept_inv [OF inv])
      note checks = segment_checks [OF that(1) that(2) that(3) s(4), of relro]
      show "seg_ok raw fs relro s" using checks(1) load s(3) by auto
      show "\<forall>p \<in> set (plan_segments (ps_plan st)). disjoint_ranges (seg_range p) (seg_range s)"
        using checks(2) load s(3) inv by (auto simp: plan_inv_def segs_inv_def)
    qed (use s in auto)
    have step: "plan_step prefix fs relro header phoff k st =
      (case ?a of Some e \<Rightarrow> Some (Inl (plan_fail (ps_plan st) e))
       | None \<Rightarrow> if seg_memory_size s = 0 then Some (Inr st)
           else (case ?r of Some e \<Rightarrow> Some (Inl (plan_fail (ps_plan st) e))
                 | None \<Rightarrow> Some (Inr (plan_accept (pf_entry header) s st))))"
      unfolding plan_step_def Let_def rd Option.bind.bind_lunit if_not_P [OF load] s(1) raw by (rule refl)
    show ?thesis
      unfolding step using accept keep nv
      by (auto split: option.split simp: segment_error_nonempty plan_fail_failed)
  qed
qed

text \<open>The guarantees of a valid plan, as the later stages use them.\<close>

definition plan_sound :: "bool \<Rightarrow> u64 \<Rightarrow> bool \<Rightarrow> u64 \<Rightarrow> nat \<Rightarrow> GuestLoadPlan \<Rightarrow> bool" where
  "plan_sound raw fs relro entry n p \<longleftrightarrow>
     plan_raw_elf p = raw \<and> plan_segments p \<noteq> [] \<and> segs_inv raw fs relro n (plan_segments p) \<and>
     GuestPageSize dvd plan_base p \<and> GuestPageSize dvd plan_image_size p \<and>
     plan_image_size p \<le> GuestImageLimit \<and> plan_base p + plan_image_size p \<le> UINT64_MAX + 1 \<and>
     (\<forall>s \<in> set (plan_segments p). plan_base p \<le> seg_address s \<and>
        seg_address s + seg_memory_size s \<le> plan_base p + plan_image_size p) \<and>
     (\<exists>s \<in> set (plan_segments p). entry_in entry s) \<and>
     plan_base p + plan_entry_offset p = entry"

lemma page_round_up:
  assumes "span \<le> GuestImageLimit"
  defines "sz \<equiv> (span + GuestPageSize - 1) div GuestPageSize * GuestPageSize"
  shows "span \<le> sz" and "sz \<le> GuestImageLimit" and "GuestPageSize dvd sz" and "sz < span + GuestPageSize"
  using assms by auto

lemma page_end_bound:
  assumes "GuestPageSize dvd (b::nat)" "GuestPageSize dvd sz" "sz < span + GuestPageSize" "b + span \<le> UINT64_MAX"
  shows "b + sz \<le> UINT64_MAX + 1"
proof -
  have "GuestPageSize dvd b + sz" using assms by simp
  then obtain k where k: "b + sz = GuestPageSize * k" by auto
  have "b + sz < UINT64_MAX + GuestPageSize" using assms by linarith
  with k have "GuestPageSize * k < UINT64_MAX + GuestPageSize" by simp
  then have "k \<le> 1125899906842624" by simp
  then show ?thesis unfolding k by simp
qed

lemma plan_finish_result:
  assumes inv: "plan_inv raw fs relro (pf_entry h) n st"
  shows "plan_failed (plan_finish h st) \<or>
    plan_valid (plan_finish h st) \<and> plan_error (plan_finish h st) = '''' \<and>
    plan_sound raw fs relro (pf_entry h) n (plan_finish h st)"
proof (cases "plan_segments (ps_plan st) \<noteq> [] \<and> ps_exec st")
  case False
  then show ?thesis using inv
    by (auto simp: plan_finish_def Let_def plan_inv_def intro!: plan_fail_failed)
next
  case True
  define base where "base = ps_low st - ps_low st mod GuestPageSize"
  have base: "base \<le> ps_low st" "GuestPageSize dvd base"
    by (auto simp: base_def dvd_minus_mod)
  define span where "span = ps_high st - base"
  have hi: "base \<le> ps_high st" "base + span \<le> UINT64_MAX" "base + span = ps_high st"
    using inv True base by (auto simp: plan_inv_def span_def)
  have sub: "sub64 (ps_high st) base = span" using hi by (simp add: span_def u64_simps)
  obtain s where s: "s \<in> set (plan_segments (ps_plan st))" "entry_in (pf_entry h) s"
    using inv True by (auto simp: plan_inv_def)
  then have ent: "base \<le> pf_entry h" using inv base by (fastforce simp: plan_inv_def entry_in_def)
  show ?thesis
  proof (cases "span > GuestImageLimit")
    case big: True
    then show ?thesis using True inv
      by (auto simp: plan_finish_def Let_def base_def [symmetric] sub plan_inv_def intro!: plan_fail_failed)
  next
    case small: False
    define sz where "sz = (span + GuestPageSize - 1) div GuestPageSize * GuestPageSize"
    note r = page_round_up [of span, folded sz_def]
    have "base + sz \<le> UINT64_MAX + 1"
      using page_end_bound [OF base(2) r(3) r(4) hi(2)] small by simp
    moreover have "base \<le> seg_address p \<and> seg_address p + seg_memory_size p \<le> base + sz"
      if "p \<in> set (plan_segments (ps_plan st))" for p
    proof -
      have "ps_low st \<le> seg_address p" "seg_address p + seg_memory_size p \<le> ps_high st"
        using inv that by (auto simp: plan_inv_def)
      then show ?thesis using base hi r(1) small by linarith
    qed
    moreover have fin: "plan_finish h st = (ps_plan st)\<lparr>plan_base := base, plan_image_size := sz,
        plan_entry_offset := pf_entry h - base, plan_valid := True\<rparr>"
      using True small ent
      by (simp add: plan_finish_def Let_def base_def [symmetric] sub sz_def u64_simps)
    ultimately have "plan_sound raw fs relro (pf_entry h) n (plan_finish h st)"
      using inv s True base small r ent by (auto simp: plan_sound_def plan_inv_def)
    then show ?thesis using inv by (simp add: fin plan_inv_def)
  qed
qed

text \<open>Abbreviations for the header fields of a prefix.\<close>

abbreviation ph_offset :: "byte list \<Rightarrow> u64" where
  "ph_offset bs \<equiv> field bs (elf_start bs + 32) 8"

abbreviation ph_count :: "byte list \<Rightarrow> u16" where
  "ph_count bs \<equiv> field bs (elf_start bs + 56) 2"

abbreviation elf_entry :: "byte list \<Rightarrow> u64" where
  "elf_entry bs \<equiv> field bs (elf_start bs + 24) 8"

definition ph_table_in_prefix :: "byte list \<Rightarrow> bool" where
  "ph_table_in_prefix bs \<longleftrightarrow>
     ph_count bs \<le> 128 \<and> elf_start bs + ph_offset bs + 56 * ph_count bs \<le> length bs"

lemma PlanGuestLoads_result:
  "\<exists>p. PlanGuestLoads bs fs relro = Some p \<and>
     (plan_failed p \<or>
      plan_valid p \<and> plan_error p = '''' \<and> accepted_prefix bs fs \<and> ph_table_in_prefix bs \<and>
      plan_sound (\<not> self_prefix bs) fs relro (elf_entry bs) (ph_count bs) p)"
proof -
  obtain h where h: "InspectGuestPrefix bs fs = Some h" "pf_header_valid h \<longleftrightarrow> accepted_prefix bs fs"
    and ok: "pf_header_valid h \<longrightarrow> pf_self_container h = self_prefix bs \<and>
      pf_elf_offset h = elf_start bs \<and> filled_from bs h h"
    using InspectGuestPrefix_result [of bs fs] by blast
  have nv: "\<not> plan_valid (plan_init\<lparr>plan_raw_elf := x\<rparr>)" "\<not> plan_valid plan_init" for x
    by (simp_all add: plan_init_def)
  show ?thesis
  proof (cases "pf_header_valid h")
    case False
    then show ?thesis using h nv by (simp add: PlanGuestLoads_def plan_fail_failed)
  next
    case True
    have acc: "accepted_prefix bs fs" using True h by simp
    have off: "pf_elf_offset h = elf_start bs" and self: "pf_self_container h = self_prefix bs"
      and cnt: "pf_program_headers h = ph_count bs" and ent: "pf_entry h = elf_entry bs"
      using True ok by (auto simp: filled_from_def)
    have inside: "elf_start bs + 64 \<le> length bs"
      using acc by (simp add: accepted_prefix_def elf64_orbis_header_def)
    have rd: "read_le bs (elf_start bs + 32) 8 = Some (ph_offset bs)"
      using inside by (simp add: bytes_simps)
    have sub: "sub64 (length bs) (elf_start bs) = length bs - elf_start bs"
      using inside by (simp add: u64_simps)
    have mul: "mul64 (ph_count bs) 56 = ph_count bs * 56"
      using field_2_bound [of bs "elf_start bs + 56"] by (simp add: u64_simps)
    let ?plan = "plan_init\<lparr>plan_raw_elf := (\<not> self_prefix bs)\<rparr>"
    let ?st = "\<lparr>ps_plan = ?plan, ps_low = UINT64_MAX, ps_high = 0, ps_exec = False\<rparr>"
    have tab: "ph_table_in_prefix bs \<longleftrightarrow> \<not> ph_count bs > 128 \<and>
        \<not> (ph_offset bs > length bs - elf_start bs \<or>
           ph_count bs * 56 > sub64 (length bs - elf_start bs) (ph_offset bs))"
      using inside by (auto simp: ph_table_in_prefix_def sub64_def)
    show ?thesis
    proof (cases "ph_table_in_prefix bs")
      case False
      then have "\<exists>e. PlanGuestLoads bs fs relro = Some (plan_fail ?plan e) \<and> e \<noteq> ''''"
        using h True by (auto simp: PlanGuestLoads_def Let_def off cnt self rd sub mul tab)
      then show ?thesis using nv plan_fail_failed by blast
    next
      case fits: True
      have run: "PlanGuestLoads bs fs relro =
          do { x \<leftarrow> for_loop (plan_step bs fs relro h (ph_offset bs)) 0 (ph_count bs) ?st;
               case x of Inl p \<Rightarrow> Some p | Inr st \<Rightarrow> Some (plan_finish h st) }"
        using h True fits by (simp add: PlanGuestLoads_def Let_def off cnt self rd sub mul tab)
      have "outcome plan_failed (plan_inv (\<not> self_prefix bs) fs relro (pf_entry h) (0 + ph_count bs))
          (for_loop (plan_step bs fs relro h (ph_offset bs)) 0 (ph_count bs) ?st)"
      proof (rule for_loop_rule)
        show "plan_inv (\<not> self_prefix bs) fs relro (pf_entry h) 0 ?st"
          by (simp add: plan_inv_def plan_init_def segs_inv_def)
      next
        fix k st
        assume k: "k < 0 + ph_count bs" and inv: "plan_inv (\<not> self_prefix bs) fs relro (pf_entry h) k st"
        have "elf_start bs + ph_offset bs + k * 56 + 56 \<le> length bs"
          using fits k by (auto simp: ph_table_in_prefix_def)
        then show "outcome plan_failed (plan_inv (\<not> self_prefix bs) fs relro (pf_entry h) (Suc k))
            (plan_step bs fs relro h (ph_offset bs) k st)"
          using inv by (intro plan_step_outcome) (simp_all add: off)
      qed
      then show ?thesis
      proof (cases rule: outcomeE)
        case (1 r)
        then show ?thesis by (simp add: run)
      next
        case (2 st)
        then show ?thesis
          using plan_finish_result [of "\<not> self_prefix bs" fs relro h "ph_count bs" st] acc fits
          by (auto simp: run ent)
      qed
    qed
  qed
qed

section \<open>Staging\<close>

text \<open>The pieces copied for a sound plan fit the image and do not overlap.\<close>

lemma sound_piece_fits:
  assumes "plan_sound raw fs relro entry n p" and "s \<in> set (plan_segments p)"
    and "off + seg_file_size s \<le> len"
  shows "piece_fits len (plan_image_size p) (segment_piece p off s)"
proof -
  have "seg_address s + seg_memory_size s \<le> plan_base p + plan_image_size p"
    "plan_base p \<le> seg_address s" "seg_file_size s \<le> seg_memory_size s"
    using assms by (auto simp: plan_sound_def segs_inv_def seg_ok_def)
  then show ?thesis using assms(3)
    by (simp add: piece_fits_def segment_piece_def u64_simps)
qed

lemma sound_pieces_disjoint:
  assumes sound: "plan_sound raw fs relro entry n p"
  shows "sorted_wrt (\<lambda>a b. disjoint_ranges (piece_target a) (piece_target b))
           (map2 (segment_piece p) offs (plan_segments p))"
proof -
  let ?segs = "plan_segments p"
  have sw: "sorted_wrt (\<lambda>a b. disjoint_ranges (seg_range a) (seg_range b)) ?segs"
    and ok: "\<And>s. s \<in> set ?segs \<Longrightarrow> plan_base p \<le> seg_address s \<and> seg_file_size s \<le> seg_memory_size s"
    using sound by (auto simp: plan_sound_def segs_inv_def seg_ok_def)
  show ?thesis
    unfolding sorted_wrt_iff_nth_less
  proof (intro allI impI)
    fix i j assume ij: "i < j" "j < length (map2 (segment_piece p) offs ?segs)"
    have "disjoint_ranges (seg_range (?segs ! i)) (seg_range (?segs ! j))"
      using sw ij by (auto simp: sorted_wrt_iff_nth_less)
    then show "disjoint_ranges (piece_target (map2 (segment_piece p) offs ?segs ! i))
        (piece_target (map2 (segment_piece p) offs ?segs ! j))"
      using ij ok [of "?segs ! i"] ok [of "?segs ! j"]
      by (auto simp: disjoint_ranges_def seg_range_def piece_target_def segment_piece_def u64_simps)
  qed
qed

text \<open>
  \<open>image_of file offs p img\<close>: the image has the planned size, holds the file bytes of every
  segment at the segment's place (segment \<open>j\<close> is read from file offset \<open>offs ! j\<close>) and zero
  everywhere else.
\<close>

definition image_of :: "byte list \<Rightarrow> u64 list \<Rightarrow> GuestLoadPlan \<Rightarrow> byte list \<Rightarrow> bool" where
  "image_of file offs p img \<longleftrightarrow> length img = plan_image_size p \<and>
     (\<forall>j < length (plan_segments p). \<forall>k < seg_file_size (plan_segments p ! j).
        img ! (seg_address (plan_segments p ! j) - plan_base p + k) = file ! (offs ! j + k)) \<and>
     (\<forall>i < plan_image_size p.
        (\<forall>s \<in> set (plan_segments p). \<not> (seg_address s \<le> plan_base p + i \<and>
           plan_base p + i < seg_address s + seg_file_size s)) \<longrightarrow> img ! i = 0)"

lemma stage_image:
  assumes sound: "plan_sound raw fs relro entry n p"
    and len: "length offs = length (plan_segments p)"
    and src: "\<forall>j < length offs. offs ! j + seg_file_size (plan_segments p ! j) \<le> length file"
  shows "\<exists>img. copy_pieces file (map2 (segment_piece p) offs (plan_segments p))
           (replicate (plan_image_size p) 0) = Some img \<and> image_of file offs p img"
proof -
  let ?segs = "plan_segments p" and ?ps = "map2 (segment_piece p) offs (plan_segments p)"
  have nth: "?ps ! j = segment_piece p (offs ! j) (?segs ! j)" if "j < length ?segs" for j
    using that len by simp
  have lps: "length ?ps = length ?segs" using len by simp
  have base: "plan_base p \<le> seg_address s" "seg_file_size s \<le> seg_memory_size s"
    "seg_address s + seg_memory_size s \<le> plan_base p + plan_image_size p" if "s \<in> set ?segs" for s
    using sound that by (auto simp: plan_sound_def segs_inv_def seg_ok_def)
  have fits: "\<forall>q \<in> set ?ps. piece_fits (length file) (length (replicate (plan_image_size p) (0::byte))) q"
  proof
    fix q assume "q \<in> set ?ps"
    then obtain j where j: "j < length ?segs" "q = segment_piece p (offs ! j) (?segs ! j)"
      by (metis in_set_conv_nth lps nth)
    show "piece_fits (length file) (length (replicate (plan_image_size p) (0::byte))) q"
      using j src len sound_piece_fits [OF sound, of "?segs ! j" "offs ! j" "length file"] by simp
  qed
  obtain img where img: "copy_pieces file ?ps (replicate (plan_image_size p) 0) = Some img"
    "length img = plan_image_size p"
    and bytes: "\<And>i. i < plan_image_size p \<Longrightarrow>
       (\<forall>q \<in> set ?ps. in_piece q i \<longrightarrow> img ! i = piece_byte file q i) \<and>
       ((\<forall>q \<in> set ?ps. \<not> in_piece q i) \<longrightarrow> img ! i = 0)"
    using copy_pieces_result [OF fits sound_pieces_disjoint [OF sound]] by auto
  have inp: "in_piece (segment_piece p off s) i \<longleftrightarrow>
      seg_address s \<le> plan_base p + i \<and> plan_base p + i < seg_address s + seg_file_size s"
    if "s \<in> set ?segs" for off s i
    using base(1) [OF that] by (auto simp: in_piece_def segment_piece_def u64_simps)
  have "img ! (seg_address (?segs ! j) - plan_base p + k) = file ! (offs ! j + k)"
    if j: "j < length ?segs" and k: "k < seg_file_size (?segs ! j)" for j k
  proof -
    let ?i = "seg_address (?segs ! j) - plan_base p + k"
    have b: "plan_base p \<le> seg_address (?segs ! j)" using base(1) j by simp
    have i: "?i < plan_image_size p" using base [of "?segs ! j"] j k by auto
    have mem: "segment_piece p (offs ! j) (?segs ! j) \<in> set ?ps"
      using j by (metis nth nth_mem lps)
    have "in_piece (segment_piece p (offs ! j) (?segs ! j)) ?i" using inp j k b by simp
    then have "img ! ?i = piece_byte file (segment_piece p (offs ! j) (?segs ! j)) ?i"
      using bytes [OF i] mem by blast
    then show ?thesis using b by (simp add: piece_byte_def segment_piece_def u64_simps)
  qed
  moreover have "img ! i = 0" if i: "i < plan_image_size p"
    and out: "\<forall>s \<in> set ?segs. \<not> (seg_address s \<le> plan_base p + i \<and>
           plan_base p + i < seg_address s + seg_file_size s)" for i
  proof -
    have "\<not> in_piece q i" if "q \<in> set ?ps" for q
      using that out inp lps nth by (metis in_set_conv_nth nth_mem)
    then show ?thesis using bytes [OF i] by blast
  qed
  ultimately show ?thesis using img by (auto simp: image_of_def)
qed

lemma map_as_map2: "map (\<lambda>x. f (g x) x) xs = map2 f (map g xs) xs"
  by (induction xs) auto

lemma PlanGuestLoads_valid:
  assumes "PlanGuestLoads bs fs relro = Some p" and "plan_valid p"
  shows "plan_sound (\<not> self_prefix bs) fs relro (elf_entry bs) (ph_count bs) p"
    and "accepted_prefix bs fs" and "ph_table_in_prefix bs" and "plan_error p = ''''"
  using PlanGuestLoads_result [of bs fs relro] assms by (auto simp: plan_failed_def)

lemma StageRawGuest_result:
  "\<exists>img. StageRawGuest file = Some img \<and>
     (if img_error img = '''' then plan_valid (img_plan img) \<and>
        image_of file (map seg_file_offset (plan_segments (img_plan img))) (img_plan img) (img_bytes img)
      else img_bytes img = [])"
proof -
  let ?pre = "take (min (length file) GuestPrefixLimit) file"
  obtain p where p: "PlanGuestLoads ?pre (length file) False = Some p"
    and v: "plan_failed p \<or> plan_valid p \<and> plan_error p = ''''"
    using PlanGuestLoads_result [of ?pre "length file" False] by blast
  show ?thesis
  proof (cases "plan_valid p \<and> plan_raw_elf p")
    case False
    then show ?thesis using p v by (auto simp: StageRawGuest_def plan_failed_def)
  next
    case True
    have sound: "plan_sound (\<not> self_prefix ?pre) (length file) False (elf_entry ?pre) (ph_count ?pre) p"
      using PlanGuestLoads_valid(1) [OF p] True by blast
    have raw: "\<not> self_prefix ?pre" using sound True by (auto simp: plan_sound_def)
    let ?offs = "map seg_file_offset (plan_segments p)"
    have src: "\<forall>j < length ?offs. ?offs ! j + seg_file_size (plan_segments p ! j) \<le> length file"
      using sound True raw by (auto simp: plan_sound_def segs_inv_def seg_ok_def)
    obtain img where "copy_pieces file (map2 (segment_piece p) ?offs (plan_segments p))
        (replicate (plan_image_size p) 0) = Some img" "image_of file ?offs p img"
      using stage_image [OF sound, of ?offs "file"] True src by auto
    then show ?thesis
      using p True by (simp add: StageRawGuest_def map_as_map2 [where f = "segment_piece p"])
  qed
qed

section \<open>Properties\<close>

text \<open>PlanGuestLoads returns for every prefix, file size and RELRO choice without reading
  outside the prefix, and its error string is empty exactly when the plan is valid.\<close>

theorem load_plan_total:
  "\<exists>p. PlanGuestLoads bs fs relro = Some p \<and> (plan_error p = '''' \<longleftrightarrow> plan_valid p)"
  using PlanGuestLoads_result [of bs fs relro] by (auto simp: plan_failed_def)

text \<open>C9: The segments of a valid plan occupy pairwise disjoint address ranges that neither
  wrap nor leave the page-aligned image, whose size is a multiple of the page size within the
  16 MiB budget; no segment is writable and executable; for a raw ELF the file part of every
  segment lies in the file; and the entry point lies in the file-backed part of an executable
  PT\_LOAD segment, at the reported offset from the image base.\<close>

theorem load_plan_sound:
  assumes run: "PlanGuestLoads bs fs relro = Some p" and valid: "plan_valid p"
  shows "sorted_wrt (\<lambda>a b. disjoint_ranges (seg_range a) (seg_range b)) (plan_segments p) \<and>
    (\<forall>s \<in> set (plan_segments p).
       seg_flags s AND 3 \<noteq> 3 \<and> seg_file_size s \<le> seg_memory_size s \<and>
       plan_base p \<le> seg_address s \<and>
       seg_address s + seg_memory_size s \<le> plan_base p + plan_image_size p \<and>
       seg_address s + seg_memory_size s \<le> UINT64_MAX \<and>
       (plan_raw_elf p \<longrightarrow> seg_file_offset s + seg_file_size s \<le> fs)) \<and>
    GuestPageSize dvd plan_base p \<and> GuestPageSize dvd plan_image_size p \<and>
    plan_image_size p \<le> GuestImageLimit \<and>
    (\<exists>s \<in> set (plan_segments p). seg_type s = 1 \<and> seg_flags s AND 1 \<noteq> 0 \<and>
       seg_address s \<le> plan_base p + plan_entry_offset p \<and>
       plan_base p + plan_entry_offset p < seg_address s + seg_file_size s)"
  using PlanGuestLoads_valid(1) [OF run valid]
  by (auto simp: plan_sound_def segs_inv_def seg_ok_def entry_in_def)

text \<open>StageRawGuest returns for every file without an out-of-bounds copy.  When it reports
  no error, the staged image has the planned size, holds the bytes of the file at the place of
  every segment and zero at every byte no segment fills; when it reports an error it stages
  nothing.\<close>

theorem stage_raw_guest_image:
  "\<exists>img. StageRawGuest file = Some img \<and>
     (if img_error img = '''' then plan_valid (img_plan img) \<and>
        image_of file (map seg_file_offset (plan_segments (img_plan img))) (img_plan img) (img_bytes img)
      else img_bytes img = [])"
  by (rule StageRawGuest_result)

text \<open>The plan of the fixture: one segment, an image of one page.\<close>

definition tiny_plan :: GuestLoadPlan where
  "tiny_plan = \<lparr>plan_valid = True, plan_raw_elf = True, plan_base = 0x400000,
     plan_image_size = 0x4000, plan_entry_offset = 0x78,
     plan_segments = [\<lparr>seg_file_offset = 0, seg_address = 0x400000, seg_file_size = 128,
       seg_memory_size = 144, seg_flags = 5, seg_program_index = 0, seg_type = 1\<rparr>],
     plan_error = ''''\<rparr>"

lemma tiny_elf_header:
  "InspectGuestPrefix tiny_elf 128 = Some \<lparr>pf_header_valid = True, pf_self_container = False,
     pf_orbis_identity = True, pf_encrypted_segments = False, pf_compressed_segments = False,
     pf_type = 0xfe10, pf_program_headers = 1, pf_entry = 0x400078, pf_elf_offset = 0,
     pf_error = ''''\<rparr>"
  by (simp add: InspectGuestPrefix_def inspect_elf_def preflight_init_def read_le_field
      byte_at_Some length_tiny_elf u64_simps tiny_elf_fields)

lemma tiny_elf_plan: "PlanGuestLoads tiny_elf 128 False = Some tiny_plan"
  by (simp add: PlanGuestLoads_def tiny_elf_header plan_init_def plan_step_def read_segment_def
      read_le_field length_tiny_elf u64_simps tiny_elf_fields segment_attr_error_def
      segment_range_error_def segment_overlaps_def plan_accept_def plan_finish_def tiny_plan_def)

theorem load_plan_sound_witness:
  "PlanGuestLoads tiny_elf 128 False = Some tiny_plan \<and> plan_valid tiny_plan \<and>
   GuestPageSize dvd plan_base tiny_plan \<and> plan_image_size tiny_plan \<le> GuestImageLimit"
  using load_plan_sound [OF tiny_elf_plan] tiny_elf_plan by (simp add: tiny_plan_def)

end
