(* ===== verification/Guest_Payload.thy ===== *)
theory Guest_Payload
  imports Guest_Load_Plan
begin

text \<open>
  Payload staging of \<^verbatim>\<open>src/src/core/uwp/guest_payload.h\<close>.  \<open>PlanGuestPayloadFile\<close> finds, for every
  planned segment, where its bytes are in the file: at the ELF offset for a raw ELF, in the
  SELF block that names the program header otherwise.  \<open>StageGuestPayload\<close> then copies the
  payload into a zeroed image, re-checks the BSS and computes a fingerprint.
\<close>

section \<open>Records\<close>

abbreviation GuestPayloadFileLimit :: u64 where
  "GuestPayloadFileLimit \<equiv> 33554432"

record GuestFileRange =
  fr_logical_offset :: u64
  fr_physical_offset :: u64
  fr_size :: u64

record GuestPayload =
  pay_image :: GuestStagedImage
  pay_copied_bytes :: u64
  pay_bss_bytes :: u64
  pay_checksum :: u64
  pay_bss_verified :: bool
  pay_file_ranges :: "GuestFileRange list"
  pay_load_offsets :: "u64 list"

definition payload_init :: GuestPayload where
  "payload_init = \<lparr>pay_image = \<lparr>img_plan = plan_init, img_bytes = [], img_error = ''''\<rparr>,
     pay_copied_bytes = 0, pay_bss_bytes = 0, pay_checksum = 0, pay_bss_verified = False,
     pay_file_ranges = [], pay_load_offsets = []\<rparr>"

definition payload_fail :: "GuestPayload \<Rightarrow> string \<Rightarrow> GuestPayload" where
  "payload_fail p e = p\<lparr>pay_image := (pay_image p)\<lparr>img_error := e, img_bytes := []\<rparr>\<rparr>"

definition payload_Ready :: "GuestPayload \<Rightarrow> bool" where
  "payload_Ready p \<longleftrightarrow> plan_valid (img_plan (pay_image p)) \<and> img_error (pay_image p) = '''' \<and>
     img_bytes (pay_image p) \<noteq> [] \<and> pay_bss_verified p"

record Block =
  blk_offset :: u64
  blk_size :: u64
  blk_present :: bool

definition block_at :: "Block list \<Rightarrow> nat \<Rightarrow> Block option" where
  "block_at bs i = (if i < length bs then Some (bs ! i) else None)"

definition ranges_clash :: "u64 \<Rightarrow> u64 \<Rightarrow> (u64 \<times> u64) list \<Rightarrow> bool" where
  "ranges_clash offset sz rs = list_ex (\<lambda>(o', s').
     sz \<noteq> 0 \<and> s' \<noteq> 0 \<and> offset < add64 o' s' \<and> o' < add64 offset sz) rs"

section \<open>PlanGuestPayloadFile\<close>

text \<open>The loop over the SELF blocks.  Loop variables: \<open>blocks\<close> and \<open>ranges\<close>.\<close>

definition self_block_step :: "byte list \<Rightarrow> u64 \<Rightarrow> GuestPayload \<Rightarrow> nat \<Rightarrow>
    Block list \<times> (u64 \<times> u64) list \<Rightarrow> (GuestPayload + (Block list \<times> (u64 \<times> u64) list)) option" where
  "self_block_step file metadata_end payload i st = (case st of (blocks, ranges) \<Rightarrow> do {
     flags \<leftarrow> read_le file (32 + i * 32) 8;
     offset \<leftarrow> read_le file (40 + i * 32) 8;
     sz \<leftarrow> read_le file (48 + i * 32) 8;
     memory_size \<leftarrow> read_le file (56 + i * 32) 8;
     if offset < metadata_end \<or> offset > length file \<or> sz > sub64 (length file) offset
     then Some (Inl (payload_fail payload ''self_payload_outside_file''))
     else if ranges_clash offset sz ranges
     then Some (Inl (payload_fail payload ''overlapping_self_payloads''))
     else do {
       let ranges = ranges @ [(offset, sz)];
       if flags AND 0x800 = 0 then Some (Inr (blocks, ranges))
       else do {
         let index = drop_bit 20 flags AND 0xfff;
         if index \<ge> length blocks
         then Some (Inl (payload_fail payload ''self_program_index_outside_table''))
         else if blk_present (blocks ! index)
         then Some (Inl (payload_fail payload ''duplicate_self_program_block''))
         else if sz \<noteq> memory_size
         then Some (Inl (payload_fail payload ''unsupported_self_block_size''))
         else Some (Inr (blocks[index := \<lparr>blk_offset = offset, blk_size = sz, blk_present = True\<rparr>], ranges))
       }
     }
   })"

text \<open>The loop that turns the present blocks into logical file ranges.\<close>

definition file_range_step :: "byte list \<Rightarrow> u64 \<Rightarrow> Block list \<Rightarrow> nat \<Rightarrow> GuestPayload \<Rightarrow>
    (GuestPayload + GuestPayload) option" where
  "file_range_step file table blocks i payload = do {
     block \<leftarrow> block_at blocks i;
     if \<not> blk_present block then Some (Inr payload)
     else do {
       let ph = table + i * 56;
       logical \<leftarrow> read_le file (ph + 8) 8;
       sz \<leftarrow> read_le file (ph + 32) 8;
       if logical > UINT64_MAX - sz \<or> sz \<noteq> blk_size block
       then Some (Inl (payload_fail payload ''self_logical_range_or_size_invalid''))
       else if ranges_clash logical sz
         (map (\<lambda>r. (fr_logical_offset r, fr_size r)) (pay_file_ranges payload))
       then Some (Inl (payload_fail payload ''overlapping_self_logical_ranges''))
       else Some (Inr (payload\<lparr>pay_file_ranges := pay_file_ranges payload @
         [\<lparr>fr_logical_offset = logical, fr_physical_offset = blk_offset block, fr_size = sz\<rparr>]\<rparr>))
     }
   }"

text \<open>The loop that assigns a file offset to every planned segment.\<close>

definition load_offset_step :: "Block list \<Rightarrow> GuestLoadSegment \<Rightarrow> GuestPayload \<Rightarrow>
    (GuestPayload + GuestPayload) option" where
  "load_offset_step blocks segment payload =
    (if seg_file_size segment = 0
     then Some (Inr (payload\<lparr>pay_load_offsets := pay_load_offsets payload @ [0]\<rparr>))
     else do {
       block \<leftarrow> block_at blocks (seg_program_index segment);
       if \<not> blk_present block then Some (Inl (payload_fail payload ''missing_self_load_block''))
       else if blk_size block \<noteq> seg_file_size segment
       then Some (Inl (payload_fail payload ''self_load_size_mismatch''))
       else Some (Inr (payload\<lparr>pay_load_offsets := pay_load_offsets payload @ [blk_offset block]\<rparr>))
     })"

definition plan_self_payload :: "byte list \<Rightarrow> GuestPreflight \<Rightarrow> GuestPayload \<Rightarrow> GuestPayload option" where
  "plan_self_payload file header payload =
    (if pf_encrypted_segments header \<or> pf_compressed_segments header
     then Some (payload_fail payload ''encrypted_or_compressed_self_unsupported'')
     else do {
       phoff \<leftarrow> read_le file (pf_elf_offset header + 32) 8;
       let table_end = pf_elf_offset header + phoff + pf_program_headers header * 56;
       m1 \<leftarrow> read_le file 12 2;
       m2 \<leftarrow> read_le file 14 2;
       let metadata_end = m1 + m2;
       if metadata_end < table_end \<or> metadata_end > length file
       then Some (payload_fail payload ''invalid_self_metadata_range'')
       else do {
         segments \<leftarrow> read_le file 24 2;
         x \<leftarrow> for_loop (self_block_step file metadata_end payload) 0 segments
               (replicate (pf_program_headers header)
                  \<lparr>blk_offset = 0, blk_size = 0, blk_present = False\<rparr>, []);
         case x of Inl p \<Rightarrow> Some p
         | Inr (blocks, ranges) \<Rightarrow> do {
             y \<leftarrow> for_loop (file_range_step file (pf_elf_offset header + phoff) blocks) 0
                   (length blocks) payload;
             case y of Inl p \<Rightarrow> Some p
             | Inr payload \<Rightarrow> do {
                 z \<leftarrow> for_each (load_offset_step blocks) (plan_segments (img_plan (pay_image payload))) payload;
                 case z of Inl p \<Rightarrow> Some p | Inr payload \<Rightarrow> Some payload
               }
           }
       }
     })"

definition PlanGuestPayloadFile :: "byte list \<Rightarrow> GuestPayload option" where
  "PlanGuestPayloadFile file =
    (if length file > GuestPayloadFileLimit
     then Some (payload_fail payload_init ''payload_file_budget_exceeded'')
     else do {
       let prefix = take (min (length file) GuestPrefixLimit) file;
       plan \<leftarrow> PlanGuestLoads prefix (length file) True;
       let payload = payload_init\<lparr>pay_image := (pay_image payload_init)\<lparr>img_plan := plan\<rparr>\<rparr>;
       if \<not> plan_valid plan then Some (payload_fail payload (plan_error plan))
       else do {
         header \<leftarrow> InspectGuestPrefix prefix (length file);
         if plan_raw_elf plan
         then Some (payload\<lparr>
           pay_file_ranges := [\<lparr>fr_logical_offset = 0, fr_physical_offset = 0, fr_size = length file\<rparr>],
           pay_load_offsets := map seg_file_offset (plan_segments plan)\<rparr>)
         else plan_self_payload file header payload
       }
     })"

section \<open>StageGuestPayload\<close>

definition bss_zero :: "byte list \<Rightarrow> GuestLoadPlan \<Rightarrow> GuestLoadSegment \<Rightarrow> bool" where
  "bss_zero bytes plan s =
    (let start = sub64 (seg_address s) (plan_base plan) + seg_file_size s;
         fin = sub64 (seg_address s) (plan_base plan) + seg_memory_size s in
     list_all (\<lambda>b. b = 0) (take (fin - start) (drop start bytes)))"

definition fnv1a64 :: "byte list \<Rightarrow> u64" where
  "fnv1a64 bytes =
     foldl (\<lambda>c b. mul64 (c XOR unat b) 1099511628211) 14695981039346656037 bytes"

definition StageGuestPayload :: "byte list \<Rightarrow> GuestPayload option" where
  "StageGuestPayload file = do {
     payload \<leftarrow> PlanGuestPayloadFile file;
     let plan = img_plan (pay_image payload);
     if \<not> plan_valid plan \<or> img_error (pay_image payload) \<noteq> '''' then Some payload
     else do {
       bytes \<leftarrow> copy_pieces file (map2 (segment_piece plan) (pay_load_offsets payload) (plan_segments plan))
                 (replicate (plan_image_size plan) 0);
       let copied = map fst (zip (plan_segments plan) (pay_load_offsets payload));
       Some (payload\<lparr>
         pay_image := (pay_image payload)\<lparr>img_bytes := bytes\<rparr>,
         pay_copied_bytes := foldl (\<lambda>n s. add64 n (seg_file_size s)) (pay_copied_bytes payload) copied,
         pay_bss_bytes := foldl (\<lambda>n s. add64 n (sub64 (seg_memory_size s) (seg_file_size s)))
           (pay_bss_bytes payload) copied,
         pay_bss_verified := list_all (bss_zero bytes plan) (plan_segments plan),
         pay_checksum := fnv1a64 bytes\<rparr>)
     }
   }"

section \<open>Invariants of the SELF loops\<close>

definition blocks_inv :: "nat \<Rightarrow> nat \<Rightarrow> Block list \<Rightarrow> bool" where
  "blocks_inv len n blocks \<longleftrightarrow> length blocks = n \<and>
     (\<forall>b \<in> set blocks. blk_present b \<longrightarrow> blk_offset b + blk_size b \<le> len)"

definition payload_failed :: "GuestLoadPlan \<Rightarrow> GuestPayload \<Rightarrow> bool" where
  "payload_failed plan p \<longleftrightarrow> img_error (pay_image p) \<noteq> '''' \<and> img_plan (pay_image p) = plan \<and>
     img_bytes (pay_image p) = []"

text \<open>Logical ranges stay inside the file and do not overlap where they are non-empty.\<close>

definition ranges_inv :: "nat \<Rightarrow> GuestFileRange list \<Rightarrow> bool" where
  "ranges_inv len rs \<longleftrightarrow>
     (\<forall>r \<in> set rs. fr_physical_offset r + fr_size r \<le> len \<and>
        fr_logical_offset r + fr_size r \<le> UINT64_MAX) \<and>
     sorted_wrt (\<lambda>a b. fr_size a = 0 \<or> fr_size b = 0 \<or>
        disjoint_ranges (fr_logical_offset a, fr_size a) (fr_logical_offset b, fr_size b)) rs"

definition payload_open :: "GuestLoadPlan \<Rightarrow> GuestPayload \<Rightarrow> bool" where
  "payload_open plan p \<longleftrightarrow>
     pay_image p = \<lparr>img_plan = plan, img_bytes = [], img_error = ''''\<rparr> \<and>
     pay_copied_bytes p = 0 \<and> pay_bss_bytes p = 0"

definition offsets_inv :: "nat \<Rightarrow> GuestLoadSegment list \<Rightarrow> u64 list \<Rightarrow> bool" where
  "offsets_inv len segs offs \<longleftrightarrow>
     list_all2 (\<lambda>s off. off + seg_file_size s \<le> len) segs offs"

lemma payload_fail_failed:
  "payload_open plan p \<Longrightarrow> e \<noteq> '''' \<Longrightarrow> payload_failed plan (payload_fail p e)"
  by (simp add: payload_failed_def payload_fail_def payload_open_def)

lemma ranges_clash_disjoint:
  assumes "\<not> ranges_clash a m rs" and "a + m \<le> UINT64_MAX" and "(b, n) \<in> set rs" "b + n \<le> UINT64_MAX"
  shows "m = 0 \<or> n = 0 \<or> disjoint_ranges (b, n) (a, m)"
  using assms by (auto simp: ranges_clash_def list_ex_iff disjoint_ranges_def u64_simps)

lemma self_block_step_outcome:
  assumes len: "64 + k * 32 \<le> length file" and opn: "payload_open plan p"
    and inv: "blocks_inv (length file) n blocks"
  shows "outcome (payload_failed plan) (\<lambda>st. blocks_inv (length file) n (fst st))
           (self_block_step file md p k (blocks, ranges))"
proof -
  have rd: "read_le file (32 + k * 32) 8 = Some (field file (32 + k * 32) 8)"
    "read_le file (40 + k * 32) 8 = Some (field file (40 + k * 32) 8)"
    "read_le file (48 + k * 32) 8 = Some (field file (48 + k * 32) 8)"
    "read_le file (56 + k * 32) 8 = Some (field file (56 + k * 32) 8)"
    using len by (auto intro!: read_le_field)
  have upd: "blocks_inv (length file) n (blocks[i := \<lparr>blk_offset = a, blk_size = m, blk_present = True\<rparr>])"
    if "a \<le> length file" "m \<le> sub64 (length file) a" for i a m
    using inv that unfolding blocks_inv_def
    by (auto simp: u64_simps dest!: subsetD [OF set_update_subset_insert])
  show ?thesis
    using inv opn upd by (simp add: self_block_step_def rd Let_def payload_fail_failed)
qed

lemma file_range_step_outcome:
  assumes tab: "table + k * 56 + 56 \<le> length file" and k: "k < n" and opn: "payload_open plan p"
    and blocks: "blocks_inv (length file) n blocks" and inv: "ranges_inv (length file) (pay_file_ranges p)"
    and offs: "pay_load_offsets p = []"
  shows "outcome (payload_failed plan) (\<lambda>p. payload_open plan p \<and> ranges_inv (length file) (pay_file_ranges p)
             \<and> pay_load_offsets p = [])
           (file_range_step file table blocks k p)"
proof -
  let ?logical = "field file (table + k * 56 + 8) 8" and ?size = "field file (table + k * 56 + 32) 8"
  have rd: "read_le file (table + k * 56 + 8) 8 = Some ?logical"
    "read_le file (table + k * 56 + 32) 8 = Some ?size"
    using tab by (auto intro!: read_le_field)
  have blk: "block_at blocks k = Some (blocks ! k)"
    and phys: "blk_present (blocks ! k) \<Longrightarrow> blk_offset (blocks ! k) + blk_size (blocks ! k) \<le> length file"
    using blocks k by (auto simp: block_at_def blocks_inv_def)
  let ?r = "\<lparr>fr_logical_offset = ?logical, fr_physical_offset = blk_offset (blocks ! k), fr_size = ?size\<rparr>"
  have new: "ranges_inv (length file) (pay_file_ranges p @ [?r])"
    if "blk_present (blocks ! k)" "?logical + ?size \<le> UINT64_MAX" "?size = blk_size (blocks ! k)"
      "\<not> ranges_clash ?logical ?size (map (\<lambda>r. (fr_logical_offset r, fr_size r)) (pay_file_ranges p))"
    using inv phys [OF that(1)] that ranges_clash_disjoint [OF that(4) that(2)]
    by (fastforce simp: ranges_inv_def sorted_wrt_append)
  show ?thesis
    using opn offs new inv field_8_bound [of "file" "table + k * 56 + 32"]
    by (auto simp: file_range_step_def blk rd Let_def payload_fail_failed payload_open_def not_less)
qed

lemma load_offset_step_outcome:
  assumes blocks: "blocks_inv (length file) n blocks" and idx: "seg_program_index s < n"
    and opn: "payload_open plan p \<and> pay_file_ranges p = rs" and inv: "offsets_inv (length file) segs (pay_load_offsets p)"
  shows "outcome (payload_failed plan) (\<lambda>p. (payload_open plan p \<and> pay_file_ranges p = rs) \<and>
             offsets_inv (length file) (segs @ [s]) (pay_load_offsets p))
           (load_offset_step blocks s p)"
proof -
  have blk: "block_at blocks (seg_program_index s) = Some (blocks ! seg_program_index s)"
    and phys: "blk_present (blocks ! seg_program_index s) \<Longrightarrow>
      blk_offset (blocks ! seg_program_index s) + blk_size (blocks ! seg_program_index s) \<le> length file"
    using blocks idx by (auto simp: block_at_def blocks_inv_def)
  show ?thesis
    using opn inv phys
    by (auto simp: load_offset_step_def blk payload_fail_failed payload_open_def offsets_inv_def
        intro!: list_all2_appendI)
qed

text \<open>What a payload plan without error guarantees.\<close>

definition payload_plan_ok :: "byte list \<Rightarrow> GuestPayload \<Rightarrow> bool" where
  "payload_plan_ok file p \<longleftrightarrow> (\<exists>raw entry n plan.
     payload_open plan p \<and> plan_valid plan \<and> plan_sound raw (length file) True entry n plan \<and>
     offsets_inv (length file) (plan_segments plan) (pay_load_offsets p) \<and>
     ranges_inv (length file) (pay_file_ranges p))"

lemma plan_self_payload_result:
  assumes tab: "pf_elf_offset h + field file (pf_elf_offset h + 32) 8 + 56 * pf_program_headers h \<le> length file"
    and off: "pf_elf_offset h = 32 + 32 * field file 24 2" and len: "pf_elf_offset h + 64 \<le> length file"
    and opn: "payload_open plan p" "pay_file_ranges p = []" "pay_load_offsets p = []"
    and sound: "plan_sound raw (length file) True entry (pf_program_headers h) plan" and valid: "plan_valid plan"
  shows "\<exists>q. plan_self_payload file h p = Some q \<and> (payload_failed plan q \<or> payload_plan_ok file q)"
proof -
  let ?n = "pf_program_headers h" and ?phoff = "field file (pf_elf_offset h + 32) 8"
  let ?md = "field file 12 2 + field file 14 2"
  let ?blocks0 = "replicate ?n \<lparr>blk_offset = 0, blk_size = 0, blk_present = False\<rparr>"
  have rd: "read_le file (pf_elf_offset h + 32) 8 = Some ?phoff"
    "read_le file 12 2 = Some (field file 12 2)" "read_le file 14 2 = Some (field file 14 2)"
    "read_le file 24 2 = Some (field file 24 2)"
    using len off by (auto intro!: read_le_field)
  have loop1: "outcome (payload_failed plan) (\<lambda>st. blocks_inv (length file) ?n (fst st))
      (for_loop (self_block_step file ?md p) 0 (field file 24 2) (?blocks0, []::(u64 \<times> u64) list))"
  proof (rule for_loop_rule [where I = "\<lambda>k st. blocks_inv (length file) ?n (fst st)"])
    show "blocks_inv (length file) ?n (fst (?blocks0, []::(u64 \<times> u64) list))" by (simp add: blocks_inv_def)
  next
    fix k and st :: "Block list \<times> (u64 \<times> u64) list"
    assume "k < 0 + field file 24 2" "blocks_inv (length file) ?n (fst st)"
    then show "outcome (payload_failed plan) (\<lambda>st. blocks_inv (length file) ?n (fst st))
        (self_block_step file ?md p k st)"
      using self_block_step_outcome [of k "file" plan p ?n "fst st" ?md "snd st"] off len opn by simp
  qed
  have loop2: "outcome (payload_failed plan) (\<lambda>q. payload_open plan q \<and>
        ranges_inv (length file) (pay_file_ranges q) \<and> pay_load_offsets q = [])
      (for_loop (file_range_step file (pf_elf_offset h + ?phoff) blocks) 0 (length blocks) p)"
    if "blocks_inv (length file) ?n blocks" for blocks
  proof (rule for_loop_rule [where I = "\<lambda>k q. payload_open plan q \<and>
        ranges_inv (length file) (pay_file_ranges q) \<and> pay_load_offsets q = []"])
    show "payload_open plan p \<and> ranges_inv (length file) (pay_file_ranges p) \<and> pay_load_offsets p = []"
      using opn by (simp add: ranges_inv_def)
  next
    fix k q
    assume "k < 0 + length blocks" and q: "payload_open plan q \<and>
        ranges_inv (length file) (pay_file_ranges q) \<and> pay_load_offsets q = []"
    then have k: "k < ?n" using that by (simp add: blocks_inv_def)
    then have "pf_elf_offset h + ?phoff + k * 56 + 56 \<le> length file" using tab by linarith
    then show "outcome (payload_failed plan) (\<lambda>q. payload_open plan q \<and>
        ranges_inv (length file) (pay_file_ranges q) \<and> pay_load_offsets q = [])
        (file_range_step file (pf_elf_offset h + ?phoff) blocks k q)"
      using file_range_step_outcome [OF _ k] that q by blast
  qed
  have loop3: "outcome (payload_failed plan) (\<lambda>q'. (payload_open plan q' \<and> pay_file_ranges q' = rs) \<and>
        offsets_inv (length file) (plan_segments plan) (pay_load_offsets q'))
      (for_each (load_offset_step blocks) (plan_segments plan) q)"
    if "blocks_inv (length file) ?n blocks" "payload_open plan q" "pay_file_ranges q = rs"
      "pay_load_offsets q = []" for blocks q rs
  proof (rule for_each_rule [where I = "\<lambda>segs q'. (payload_open plan q' \<and> pay_file_ranges q' = rs) \<and>
        offsets_inv (length file) segs (pay_load_offsets q')"])
    show "(payload_open plan q \<and> pay_file_ranges q = rs) \<and> offsets_inv (length file) [] (pay_load_offsets q)"
      using that by (simp add: offsets_inv_def)
  next
    fix pre s q'
    assume s: "s \<in> set (plan_segments plan)" and "(payload_open plan q' \<and> pay_file_ranges q' = rs) \<and>
        offsets_inv (length file) pre (pay_load_offsets q')"
    moreover have "seg_program_index s < ?n" using sound s by (auto simp: plan_sound_def segs_inv_def)
    ultimately show "outcome (payload_failed plan) (\<lambda>q'. (payload_open plan q' \<and> pay_file_ranges q' = rs) \<and>
        offsets_inv (length file) (pre @ [s]) (pay_load_offsets q')) (load_offset_step blocks s q')"
      using load_offset_step_outcome [OF that(1)] by blast
  qed
  show ?thesis
  proof (cases "pf_encrypted_segments h \<or> pf_compressed_segments h \<or>
      ?md < pf_elf_offset h + ?phoff + ?n * 56 \<or> length file < ?md")
    case True
    then show ?thesis using opn
      by (auto simp: plan_self_payload_def rd Let_def payload_fail_failed)
  next
    case False
    then have run: "plan_self_payload file h p = do {
        x \<leftarrow> for_loop (self_block_step file ?md p) 0 (field file 24 2) (?blocks0, []);
        case x of Inl p \<Rightarrow> Some p
        | Inr (blocks, ranges) \<Rightarrow> do {
             y \<leftarrow> for_loop (file_range_step file (pf_elf_offset h + ?phoff) blocks) 0 (length blocks) p;
             case y of Inl p \<Rightarrow> Some p
             | Inr payload \<Rightarrow> do {
                 z \<leftarrow> for_each (load_offset_step blocks) (plan_segments (img_plan (pay_image payload))) payload;
                 case z of Inl p \<Rightarrow> Some p | Inr payload \<Rightarrow> Some payload } } }"
      by (simp add: plan_self_payload_def rd Let_def)
    from loop1 show ?thesis
    proof (cases rule: outcomeE)
      case (1 r)
      then show ?thesis by (simp add: run)
    next
      case (2 st)
      then obtain blocks ranges where
        s1: "for_loop (self_block_step file ?md p) 0 (field file 24 2) (?blocks0, []) = Some (Inr (blocks, ranges))"
        and inv: "blocks_inv (length file) ?n blocks" by (cases st) auto
      from loop2 [OF inv] show ?thesis
      proof (cases rule: outcomeE)
        case (1 r)
        then show ?thesis by (simp add: run s1)
      next
        case s2: (2 q)
        then have pl: "img_plan (pay_image q) = plan" by (simp add: payload_open_def)
        from loop3 [OF inv, of q] s2
        have "outcome (payload_failed plan) (\<lambda>q'. (payload_open plan q' \<and> pay_file_ranges q' = pay_file_ranges q) \<and>
            offsets_inv (length file) (plan_segments plan) (pay_load_offsets q'))
            (for_each (load_offset_step blocks) (plan_segments plan) q)" by blast
        then show ?thesis
        proof (cases rule: outcomeE)
          case (1 r)
          then show ?thesis using s2 by (simp add: run s1 pl)
        next
          case (2 q')
          then have "payload_plan_ok file q'"
            using s2 sound valid by (auto simp: payload_plan_ok_def)
          then show ?thesis using 2 s2 by (simp add: run s1 pl)
        qed
      qed
    qed
  qed
qed

section \<open>Results of planning and staging\<close>

lemma PlanGuestPayloadFile_result:
  "\<exists>p. PlanGuestPayloadFile file = Some p \<and>
     ((\<exists>plan. payload_failed plan p) \<or> payload_plan_ok file p)"
proof (cases "length file > GuestPayloadFileLimit")
  case True
  then show ?thesis
    by (simp add: PlanGuestPayloadFile_def payload_failed_def payload_fail_def)
next
  case small: False
  define pre where "pre = take (min (length file) GuestPrefixLimit) file"
  obtain plan where plan: "PlanGuestLoads pre (length file) True = Some plan"
    and v: "plan_failed plan \<or> plan_valid plan" using PlanGuestLoads_result by blast
  define p where "p = payload_init\<lparr>pay_image := (pay_image payload_init)\<lparr>img_plan := plan\<rparr>\<rparr>"
  have opn: "payload_open plan p" "pay_file_ranges p = []" "pay_load_offsets p = []"
    by (simp_all add: p_def payload_open_def payload_init_def)
  show ?thesis
  proof (cases "plan_valid plan")
    case False
    then show ?thesis using small plan v opn(1)
      by (auto simp: PlanGuestPayloadFile_def pre_def [symmetric] p_def [symmetric] Let_def plan_failed_def
          intro: payload_fail_failed)
  next
    case True
    note ok = PlanGuestLoads_valid [OF plan True]
    obtain h where h: "InspectGuestPrefix pre (length file) = Some h" "pf_elf_offset h = elf_start pre"
      "pf_program_headers h = ph_count pre"
      using InspectGuestPrefix_result [of pre "length file"] ok(2) by (auto simp: filled_from_def)
    have lpre: "length pre \<le> length file" "length pre = min (length file) GuestPrefixLimit"
      by (auto simp: pre_def)
    have fld: "field pre a n = field file a n" if "a + n \<le> length pre" for a n
      using that lpre by (simp add: pre_def field_take)
    show ?thesis
    proof (cases "plan_raw_elf plan")
      case raw: True
      let ?q = "p\<lparr>pay_file_ranges := [\<lparr>fr_logical_offset = 0, fr_physical_offset = 0, fr_size = length file\<rparr>],
           pay_load_offsets := map seg_file_offset (plan_segments plan)\<rparr>"
      have "payload_open plan ?q" "ranges_inv (length file) (pay_file_ranges ?q)"
        using opn(1) small by (simp_all add: payload_open_def ranges_inv_def)
      moreover have "offsets_inv (length file) (plan_segments plan) (pay_load_offsets ?q)"
        using ok(1) raw
        by (auto simp: offsets_inv_def plan_sound_def segs_inv_def seg_ok_def list_all2_conv_all_nth)
      ultimately have "payload_plan_ok file ?q" using ok(1) True unfolding payload_plan_ok_def by blast
      then show ?thesis using small plan True h raw
        by (simp add: PlanGuestPayloadFile_def pre_def [symmetric] p_def [symmetric] Let_def)
    next
      case self: False
      then have sp: "self_prefix pre" using ok(1) by (simp add: plan_sound_def)
      have len: "elf_start pre + 64 \<le> length pre"
        using ok(2) by (simp add: accepted_prefix_def elf64_orbis_header_def)
      then have f: "field pre (elf_start pre + 32) 8 = field file (elf_start pre + 32) 8"
        "field pre 24 2 = field file 24 2"
        using sp by (auto intro!: fld simp: elf_start_def)
      have "pf_elf_offset h + field file (pf_elf_offset h + 32) 8 + 56 * pf_program_headers h \<le> length file"
        using ok(3) lpre h f by (simp add: ph_table_in_prefix_def)
      moreover have "pf_elf_offset h = 32 + 32 * field file 24 2" "pf_elf_offset h + 64 \<le> length file"
        using sp h f len lpre by (auto simp: elf_start_def)
      ultimately obtain q where "plan_self_payload file h p = Some q" "payload_failed plan q \<or> payload_plan_ok file q"
        using plan_self_payload_result opn ok(1) True h(3) by metis
      then show ?thesis using small plan True h self
        by (auto simp: PlanGuestPayloadFile_def pre_def [symmetric] p_def [symmetric] Let_def)
    qed
  qed
qed

lemma image_gap_zero:
  assumes sound: "plan_sound raw fs relro entry n plan" and img: "image_of file offs plan img"
    and s: "s \<in> set (plan_segments plan)"
  shows "bss_zero img plan s"
proof -
  let ?a = "seg_address s - plan_base plan"
  have b: "plan_base plan \<le> seg_address s" "seg_file_size s \<le> seg_memory_size s"
    "seg_address s + seg_memory_size s \<le> plan_base plan + plan_image_size plan"
    using sound s by (auto simp: plan_sound_def segs_inv_def seg_ok_def)
  have "img ! (?a + seg_file_size s + k) = 0" if k: "k < seg_memory_size s - seg_file_size s" for k
  proof -
    let ?i = "?a + seg_file_size s + k"
    have "\<not> (seg_address t \<le> plan_base plan + ?i \<and> plan_base plan + ?i < seg_address t + seg_file_size t)"
      if t: "t \<in> set (plan_segments plan)" for t
    proof (cases "t = s")
      case True
      then show ?thesis using b by simp
    next
      case False
      have apart: "disjoint_ranges (seg_range s) (seg_range t)"
        using sound s t False
        by (auto simp: plan_sound_def segs_inv_def intro: sorted_wrt_distinct_pair)
      moreover have "seg_file_size t \<le> seg_memory_size t"
        using sound t by (auto simp: plan_sound_def segs_inv_def seg_ok_def)
      ultimately show ?thesis using b k by (auto simp: disjoint_ranges_def seg_range_def)
    qed
    moreover have "?i < plan_image_size plan" using b k by linarith
    ultimately show ?thesis using img by (auto simp: image_of_def)
  qed
  then show ?thesis
    using b by (auto simp: bss_zero_def Let_def u64_simps list_all_iff in_set_conv_nth)
qed

text \<open>The memory of all segments together fits the image.\<close>

lemma sound_memory_total:
  assumes "plan_sound raw fs relro entry n plan"
  shows "sum_list (map seg_memory_size (plan_segments plan)) \<le> plan_image_size plan"
proof -
  have "sum_list (map snd (map seg_range (plan_segments plan))) \<le> plan_image_size plan"
    using assms by (intro disjoint_total_size [where lo = "plan_base plan"])
      (auto simp: plan_sound_def segs_inv_def sorted_wrt_map seg_range_def)
  then show ?thesis by (simp add: comp_def seg_range_def)
qed

lemma sum_split_parts:
  fixes f g :: "'a \<Rightarrow> nat"
  shows "\<forall>x \<in> set xs. f x \<le> g x \<Longrightarrow>
    sum_list (map f xs) + sum_list (map (\<lambda>x. sub64 (g x) (f x)) xs) = sum_list (map g xs)"
  by (induction xs) (auto simp: u64_simps)

text \<open>\<open>payload_staged file p\<close>: the state of a payload that was staged completely.\<close>

definition payload_staged :: "byte list \<Rightarrow> GuestPayload \<Rightarrow> bool" where
  "payload_staged file p \<longleftrightarrow>
     (let plan = img_plan (pay_image p); img = img_bytes (pay_image p) in
      image_of file (pay_load_offsets p) plan img \<and>
      offsets_inv (length file) (plan_segments plan) (pay_load_offsets p) \<and>
      pay_copied_bytes p = sum_list (map seg_file_size (plan_segments plan)) \<and>
      pay_copied_bytes p + pay_bss_bytes p = sum_list (map seg_memory_size (plan_segments plan)) \<and>
      pay_copied_bytes p + pay_bss_bytes p \<le> plan_image_size plan \<and>
      pay_checksum p = fnv1a64 img)"

lemma StageGuestPayload_result:
  "\<exists>p. StageGuestPayload file = Some p \<and> (img_error (pay_image p) = '''' \<longleftrightarrow> payload_Ready p) \<and>
     (if payload_Ready p then payload_staged file p else img_bytes (pay_image p) = [])"
proof -
  obtain p where p: "PlanGuestPayloadFile file = Some p"
    and v: "(\<exists>plan. payload_failed plan p) \<or> payload_plan_ok file p"
    using PlanGuestPayloadFile_result by blast
  from v show ?thesis
  proof
    assume "\<exists>plan. payload_failed plan p"
    then show ?thesis using p
      by (auto simp: StageGuestPayload_def payload_failed_def payload_Ready_def)
  next
    assume "payload_plan_ok file p"
    then obtain raw entry n plan where opn: "payload_open plan p" and valid: "plan_valid plan"
      and sound: "plan_sound raw (length file) True entry n plan"
      and offs: "offsets_inv (length file) (plan_segments plan) (pay_load_offsets p)"
      unfolding payload_plan_ok_def by blast
    let ?segs = "plan_segments plan" and ?offs = "pay_load_offsets p"
    have len: "length ?offs = length ?segs" using offs by (simp add: offsets_inv_def list_all2_lengthD)
    obtain img where img: "copy_pieces file (map2 (segment_piece plan) ?offs ?segs)
        (replicate (plan_image_size plan) 0) = Some img" "image_of file ?offs plan img"
      using stage_image [OF sound len, of "file"] offs by (auto simp: offsets_inv_def list_all2_conv_all_nth)
    have bss: "list_all (bss_zero img plan) ?segs"
      using image_gap_zero [OF sound img(2)] by (simp add: list_all_iff)
    have total: "sum_list (map seg_memory_size ?segs) \<le> plan_image_size plan"
      by (rule sound_memory_total [OF sound])
    moreover have parts: "sum_list (map seg_file_size ?segs) +
        sum_list (map (\<lambda>s. sub64 (seg_memory_size s) (seg_file_size s)) ?segs) = sum_list (map seg_memory_size ?segs)"
      using sound by (intro sum_split_parts) (auto simp: plan_sound_def segs_inv_def seg_ok_def)
    moreover have lim: "plan_image_size plan \<le> GuestImageLimit" using sound by (simp add: plan_sound_def)
    ultimately have sums: "foldl (\<lambda>n s. add64 n (seg_file_size s)) 0 ?segs = sum_list (map seg_file_size ?segs)"
      "foldl (\<lambda>n s. add64 n (sub64 (seg_memory_size s) (seg_file_size s))) 0 ?segs =
        sum_list (map (\<lambda>s. sub64 (seg_memory_size s) (seg_file_size s)) ?segs)"
      by (subst foldl_add64_exact; simp)+
    have copied: "map fst (zip ?segs ?offs) = ?segs" using len by simp
    have ne: "img \<noteq> []"
    proof -
      obtain s where "s \<in> set ?segs" using sound by (auto simp: plan_sound_def neq_Nil_conv)
      then have "0 < plan_image_size plan"
        using sound by (fastforce simp: plan_sound_def segs_inv_def seg_ok_def)
      then show ?thesis using img(2) by (auto simp: image_of_def)
    qed
    have pl: "img_plan (pay_image p) = plan" "img_error (pay_image p) = ''''"
      "pay_copied_bytes p = 0" "pay_bss_bytes p = 0" using opn by (simp_all add: payload_open_def)
    show ?thesis
      using p img bss ne valid offs parts total
      by (simp add: StageGuestPayload_def pl copied sums payload_Ready_def payload_staged_def Let_def)
  qed
qed

section \<open>Properties\<close>

text \<open>PlanGuestPayloadFile returns for every file, raw ELF or SELF, without reading outside
  the file or outside the block table.  When it reports no error, every planned segment has
  one file offset whose bytes lie in the file, and the logical file ranges lie in the file, do
  not wrap and are pairwise disjoint; when it reports an error nothing is staged.\<close>

theorem payload_plan_in_file:
  "\<exists>p. PlanGuestPayloadFile file = Some p \<and>
     (if img_error (pay_image p) = '''' then plan_valid (img_plan (pay_image p)) \<and>
        offsets_inv (length file) (plan_segments (img_plan (pay_image p))) (pay_load_offsets p) \<and>
        ranges_inv (length file) (pay_file_ranges p)
      else img_bytes (pay_image p) = [])"
proof -
  obtain p where "PlanGuestPayloadFile file = Some p"
    "(\<exists>plan. payload_failed plan p) \<or> payload_plan_ok file p"
    using PlanGuestPayloadFile_result by blast
  then show ?thesis by (auto simp: payload_failed_def payload_plan_ok_def payload_open_def)
qed

text \<open>C11: StageGuestPayload returns for every file without an out-of-bounds access; it is ready
  exactly when it reports no error, so the BSS re-check never fails on a planned payload.  A
  ready payload holds the bytes of the file at the place of every segment and zero elsewhere,
  its byte counters are the exact totals and fit the image, and the fingerprint is the FNV-1a
  hash of the image; a payload that is not ready holds no image.\<close>

theorem stage_guest_payload_complete:
  "\<exists>p. StageGuestPayload file = Some p \<and> (img_error (pay_image p) = '''' \<longleftrightarrow> payload_Ready p) \<and>
     (if payload_Ready p then payload_staged file p else img_bytes (pay_image p) = [])"
  by (rule StageGuestPayload_result)

end
