(* ===== verification/Guest_Link.thy ===== *)
theory Guest_Link
  imports Guest_Payload
begin

text \<open>
  The link inventory of \<^verbatim>\<open>src/src/core/uwp/guest_link_manifest.h\<close>: \<open>InspectGuestLinkManifest\<close> finds the
  dynamic tables of an Orbis file, checks them against their budgets and counts and optionally
  records the dependencies, imports, symbols and relocations.  A span is the list of its bytes;
  every read of one goes through \<open>read_le\<close> or \<open>byte_at\<close>.  The lambdas of the function are
  definitions that take what they capture as arguments.
\<close>

section \<open>Records\<close>

record GuestLinkSymbol =
  ls_address :: u64
  ls_size :: u64
  ls_section :: u16
  ls_binding :: u8
  ls_type :: u8

record GuestLinkRelocation =
  lr_address :: u64
  lr_addend_bits :: u64
  lr_type :: u32
  lr_symbol :: u32

record GuestLinkDependency =
  ld_name :: string
  ld_packed :: u64

record GuestLinkManifest =
  lm_valid :: bool
  lm_error :: string
  lm_dynamic_entries :: u64
  lm_symbols :: u64
  lm_relocations :: u64
  lm_relative :: u64
  lm_jump_slots :: u64
  lm_symbol_relocations :: u64
  lm_tls_relocations :: u64
  lm_other_relocations :: u64
  lm_target_checks :: u64
  lm_undefined_functions :: u64
  lm_undefined_objects :: u64
  lm_undefined_other :: u64
  lm_tls_segments :: u64
  lm_tls_address :: u64
  lm_tls_file_bytes :: u64
  lm_tls_memory_bytes :: u64
  lm_tls_alignment :: u64
  lm_needed :: "string list"
  lm_modules :: "string list"
  lm_libraries :: "string list"
  lm_imports :: "string list"
  lm_symbol_records :: "GuestLinkSymbol list"
  lm_relocation_records :: "GuestLinkRelocation list"
  lm_module_records :: "GuestLinkDependency list"
  lm_library_records :: "GuestLinkDependency list"
  lm_import_symbol_indices :: "u32 list"

definition manifest_init :: GuestLinkManifest where
  "manifest_init = \<lparr>lm_valid = False, lm_error = '''', lm_dynamic_entries = 0, lm_symbols = 0, lm_relocations = 0,
     lm_relative = 0, lm_jump_slots = 0, lm_symbol_relocations = 0, lm_tls_relocations = 0, lm_other_relocations = 0,
     lm_target_checks = 0, lm_undefined_functions = 0, lm_undefined_objects = 0, lm_undefined_other = 0,
     lm_tls_segments = 0, lm_tls_address = 0, lm_tls_file_bytes = 0, lm_tls_memory_bytes = 0, lm_tls_alignment = 0,
     lm_needed = [], lm_modules = [], lm_libraries = [], lm_imports = [], lm_symbol_records = [],
     lm_relocation_records = [], lm_module_records = [], lm_library_records = [], lm_import_symbol_indices = []\<rparr>"

definition manifest_fail :: "GuestLinkManifest \<Rightarrow> string \<Rightarrow> GuestLinkManifest" where
  "manifest_fail m e = m\<lparr>lm_error := e\<rparr>"

section \<open>The lambdas\<close>

definition range_holds :: "nat \<Rightarrow> u64 \<Rightarrow> u64 \<Rightarrow> GuestFileRange \<Rightarrow> bool" where
  "range_holds len offset sz r \<longleftrightarrow>
     \<not> (offset < fr_logical_offset r \<or> sub64 offset (fr_logical_offset r) > fr_size r \<or>
        sz > sub64 (fr_size r) (sub64 offset (fr_logical_offset r))) \<and>
     (let physical = add64 (fr_physical_offset r) (sub64 offset (fr_logical_offset r))
      in \<not> (physical > len \<or> sz > sub64 len physical))"

text \<open>The bytes of a logical range when exactly one file range holds it, an empty span otherwise.\<close>

definition logical_slice :: "byte list \<Rightarrow> GuestFileRange list \<Rightarrow> u64 \<Rightarrow> u64 \<Rightarrow> byte list" where
  "logical_slice file ranges offset sz = (case filter (range_holds (length file) offset sz) ranges of
     [r] \<Rightarrow> take sz (drop (add64 (fr_physical_offset r) (sub64 offset (fr_logical_offset r))) file)
   | _ \<Rightarrow> [])"

definition link_mapped :: "GuestLoadSegment list \<Rightarrow> u64 \<Rightarrow> u64 \<Rightarrow> bool" where
  "link_mapped segments address sz = list_ex (\<lambda>s.
     address \<ge> seg_address s \<and> sub64 address (seg_address s) \<le> seg_memory_size s \<and>
     sz \<le> sub64 (seg_memory_size s) (sub64 address (seg_address s))) segments"

definition link_table :: "(u64 \<rightharpoonup> u64) \<Rightarrow> byte list \<Rightarrow> u64 \<Rightarrow> u64 \<Rightarrow> byte list" where
  "link_table tags dynlib offset_tag size_tag = (case (tags offset_tag, tags size_tag) of
     (Some offset, Some sz) \<Rightarrow>
       if offset > length dynlib \<or> sz > sub64 (length dynlib) offset then [] else take sz (drop offset dynlib)
   | _ \<Rightarrow> [])"

text \<open>The name that starts at an offset of the string table: \<open>None\<close> is the result \<open>false\<close>, which ends the inspection.  The
  second component is the new total \<open>name_bytes\<close>.\<close>

fun scan_name :: "byte list \<Rightarrow> string \<Rightarrow> string option" where
  "scan_name [] output = None"
| "scan_name (byte # rest) output =
    (if byte = 0 then Some output
     else if length output \<ge> 256 \<or> unat byte < 32 \<or> unat byte > 126 \<or> unat byte = 59 \<or> unat byte = 44 then None
     else scan_name rest (output @ [char_of (unat byte)]))"

definition string_at :: "byte list \<Rightarrow> nat \<Rightarrow> u64 \<Rightarrow> (string \<times> nat) option" where
  "string_at strings name_bytes offset =
    (if offset \<ge> length strings then None
     else (case scan_name (drop offset strings) [] of
         None \<Rightarrow> None
       | Some output \<Rightarrow>
         let name_bytes = name_bytes + length output
         in if output \<noteq> [] \<and> name_bytes \<le> 1048576 then Some (output, name_bytes) else None))"

section \<open>Program headers\<close>

record link_spans =
  sp_result :: GuestLinkManifest
  sp_dynamic :: "byte list"
  sp_dynlib :: "byte list"
  sp_have_dynamic :: bool
  sp_have_dynlib :: bool

definition link_tls :: "byte list \<Rightarrow> GuestFileRange list \<Rightarrow> GuestLoadSegment list \<Rightarrow> u64 \<Rightarrow> u64 \<Rightarrow> u64 \<Rightarrow> u64 \<Rightarrow> u64
    \<Rightarrow> GuestLinkManifest \<Rightarrow> GuestLinkManifest + GuestLinkManifest" where
  "link_tls file ranges segments offset address sz memory alignment result =
    (let result = result\<lparr>lm_tls_segments := lm_tls_segments result + 1\<rparr> in
     if lm_tls_segments result > 1 then Inl (manifest_fail result ''multiple_tls_segments_unsupported'')
     else if sz > memory \<or> memory > GuestImageLimit \<or>
        (alignment > 1 \<and> (alignment AND (alignment - 1) \<noteq> 0 \<or> alignment > 65536))
     then Inl (manifest_fail result ''invalid_tls_layout'')
     else if (memory \<noteq> 0 \<and> \<not> link_mapped segments address memory) \<or>
        (sz \<noteq> 0 \<and> length (logical_slice file ranges offset sz) \<noteq> sz)
     then Inl (manifest_fail result ''tls_image_unmapped'')
     else Inr (result\<lparr>lm_tls_address := address, lm_tls_file_bytes := sz, lm_tls_memory_bytes := memory,
            lm_tls_alignment := alignment\<rparr>))"

definition link_ph_step :: "byte list \<Rightarrow> byte list \<Rightarrow> GuestPayload \<Rightarrow> GuestPreflight \<Rightarrow> u64 \<Rightarrow> nat \<Rightarrow> link_spans
    \<Rightarrow> (GuestLinkManifest + link_spans) option" where
  "link_ph_step file prefix layout header phoff i st = do {
     let ph = pf_elf_offset header + phoff + i * 56;
     type \<leftarrow> read_le prefix ph 4;
     offset \<leftarrow> read_le prefix (ph + 8) 8;
     address \<leftarrow> read_le prefix (ph + 16) 8;
     sz \<leftarrow> read_le prefix (ph + 32) 8;
     memory \<leftarrow> read_le prefix (ph + 40) 8;
     if type = 2 \<or> type = 0x61000000 then
       if (if type = 2 then sp_have_dynamic st else sp_have_dynlib st)
       then Some (Inl (manifest_fail (sp_result st) ''duplicate_dynamic_program_header''))
       else if sz = 0 \<or> sz > (if type = 2 then 65536 else 8388608)
       then Some (Inl (manifest_fail (sp_result st) ''dynamic_data_budget_or_size''))
       else let bytes = logical_slice file (pay_file_ranges layout) offset sz in
         if length bytes \<noteq> sz then Some (Inl (manifest_fail (sp_result st) ''dynamic_data_unmapped''))
         else if type = 2 then Some (Inr (st\<lparr>sp_dynamic := bytes, sp_have_dynamic := True\<rparr>))
         else Some (Inr (st\<lparr>sp_dynlib := bytes, sp_have_dynlib := True\<rparr>))
     else if type = 7 then do {
       alignment \<leftarrow> read_le prefix (ph + 48) 8;
       case link_tls file (pay_file_ranges layout) (plan_segments (img_plan (pay_image layout))) offset address sz
              memory alignment (sp_result st) of
         Inl m \<Rightarrow> Some (Inl m)
       | Inr m \<Rightarrow> Some (Inr (st\<lparr>sp_result := m\<rparr>))
     }
     else Some (Inr st)
   }"

section \<open>The dynamic table\<close>

record link_tags =
  tg_result :: GuestLinkManifest
  tg_tags :: "u64 \<rightharpoonup> u64"
  tg_names :: "(u64 \<times> u64) list"

text \<open>The loop over the entries; the flag of the result is \<open>terminated\<close>.\<close>

fun dynamic_loop :: "byte list \<Rightarrow> nat \<Rightarrow> nat \<Rightarrow> link_tags \<Rightarrow> (GuestLinkManifest + bool \<times> link_tags) option" where
  "dynamic_loop dynamic offset 0 st = Some (Inr (False, st))"
| "dynamic_loop dynamic offset (Suc n) st = do {
     tag \<leftarrow> read_le dynamic offset 8;
     value \<leftarrow> read_le dynamic (offset + 8) 8;
     if tag = 0 then Some (Inr (True, st))
     else do {
       let st = st\<lparr>tg_result := (tg_result st)\<lparr>lm_dynamic_entries := lm_dynamic_entries (tg_result st) + 1\<rparr>\<rparr>;
       if tag = 1 \<or> tag = 0x6100000f \<or> tag = 0x61000015 then
         if length (tg_names st) \<ge> 512 then Some (Inl (manifest_fail (tg_result st) ''dependency_budget_exceeded''))
         else dynamic_loop dynamic (offset + 16) n (st\<lparr>tg_names := tg_names st @ [(tag, value)]\<rparr>)
       else if tag \<ge> 0x61000029 \<and> tag \<le> 0x6100003f \<and> tag AND 1 \<noteq> 0 then
         if tg_tags st tag \<noteq> None then Some (Inl (manifest_fail (tg_result st) ''duplicate_link_table_tag''))
         else dynamic_loop dynamic (offset + 16) n (st\<lparr>tg_tags := (tg_tags st)(tag \<mapsto> value)\<rparr>)
       else dynamic_loop dynamic (offset + 16) n st
     }
   }"

section \<open>Names, symbols and relocations\<close>

text \<open>The loop variables of the two name loops: the result and \<open>name_bytes\<close>.\<close>

definition link_name_step :: "bool \<Rightarrow> byte list \<Rightarrow> u64 \<times> u64 \<Rightarrow> GuestLinkManifest \<times> nat
    \<Rightarrow> (GuestLinkManifest + GuestLinkManifest \<times> nat) option" where
  "link_name_step collect strings entry st = (case (entry, st) of ((tag, value), (result, name_bytes)) \<Rightarrow>
     (case string_at strings name_bytes (if tag = 1 then value else value AND 0xffffffff) of
        None \<Rightarrow> Some (Inl (manifest_fail result ''invalid_dependency_name''))
      | Some (name, name_bytes) \<Rightarrow>
        let result = (if collect \<and> tag \<noteq> 1
              then if tag = 0x6100000f
                then result\<lparr>lm_module_records := lm_module_records result @ [\<lparr>ld_name = name, ld_packed = value\<rparr>]\<rparr>
                else result\<lparr>lm_library_records := lm_library_records result @ [\<lparr>ld_name = name, ld_packed = value\<rparr>]\<rparr>
              else result);
            result = (if tag = 1 then result\<lparr>lm_needed := lm_needed result @ [name]\<rparr>
              else if tag = 0x6100000f then result\<lparr>lm_modules := lm_modules result @ [name]\<rparr>
              else result\<lparr>lm_libraries := lm_libraries result @ [name]\<rparr>)
        in Some (Inr (result, name_bytes))))"

text \<open>The record of a symbol, and the import of an undefined one.\<close>

definition push_symbol :: "bool \<Rightarrow> GuestLinkSymbol \<Rightarrow> GuestLinkManifest \<Rightarrow> GuestLinkManifest" where
  "push_symbol collect s result = (if collect then result\<lparr>lm_symbol_records := lm_symbol_records result @ [s]\<rparr> else result)"

definition push_import :: "bool \<Rightarrow> nat \<Rightarrow> string \<Rightarrow> u8 \<Rightarrow> GuestLinkManifest \<Rightarrow> GuestLinkManifest" where
  "push_import collect i name type result =
    (let result = result\<lparr>lm_imports := lm_imports result @ [name]\<rparr>;
         result = (if collect then result\<lparr>lm_import_symbol_indices := lm_import_symbol_indices result @ [i]\<rparr> else result)
     in if type = 2 then result\<lparr>lm_undefined_functions := lm_undefined_functions result + 1\<rparr>
        else if type = 1 then result\<lparr>lm_undefined_objects := lm_undefined_objects result + 1\<rparr>
        else result\<lparr>lm_undefined_other := lm_undefined_other result + 1\<rparr>)"

definition link_symbol_step :: "bool \<Rightarrow> byte list \<Rightarrow> byte list \<Rightarrow> nat \<Rightarrow> GuestLinkManifest \<times> nat
    \<Rightarrow> (GuestLinkManifest + GuestLinkManifest \<times> nat) option" where
  "link_symbol_step collect strings symbols i st = (case st of (result, name_bytes) \<Rightarrow> do {
     let offset = 24 * i;
     info \<leftarrow> byte_at symbols (offset + 4);
     address \<leftarrow> read_le symbols (offset + 8) 8;
     sz \<leftarrow> read_le symbols (offset + 16) 8;
     section \<leftarrow> read_le symbols (offset + 6) 2;
     let bind = drop_bit 4 info;
     let type = info AND 15;
     let result = push_symbol collect
           \<lparr>ls_address = address, ls_size = sz, ls_section = section, ls_binding = bind, ls_type = type\<rparr> result;
     if section \<noteq> 0 \<or> (bind \<noteq> 1 \<and> bind \<noteq> 2) then Some (Inr (result, name_bytes))
     else if length (lm_imports result) \<ge> 8192 then Some (Inl (manifest_fail result ''import_budget_exceeded''))
     else do {
       name_offset \<leftarrow> read_le symbols offset 4;
       case string_at strings name_bytes name_offset of
         None \<Rightarrow> Some (Inl (manifest_fail result ''invalid_import_name''))
       | Some (name, name_bytes) \<Rightarrow> Some (Inr (push_import collect i name type result, name_bytes))
     }
   })"

text \<open>The counter a relocation type belongs to and the width of its target, 0 when it is not known.\<close>

definition count_relocation :: "u32 \<Rightarrow> GuestLinkManifest \<Rightarrow> GuestLinkManifest \<times> u64" where
  "count_relocation type result =
    (if type = 8 then (result\<lparr>lm_relative := lm_relative result + 1\<rparr>, 8)
     else if type = 7 then (result\<lparr>lm_jump_slots := lm_jump_slots result + 1\<rparr>, 8)
     else if type = 1 \<or> type = 6 \<or> type = 2 \<or> type = 10 \<or> type = 11
     then (result\<lparr>lm_symbol_relocations := lm_symbol_relocations result + 1\<rparr>,
           if type = 2 \<or> type = 10 \<or> type = 11 then 4 else 8)
     else if type = 16 \<or> type = 17 \<or> type = 18 \<or> type = 36
     then (result\<lparr>lm_tls_relocations := lm_tls_relocations result + 1\<rparr>, if type = 36 then 16 else 8)
     else if type \<noteq> 0 then (result\<lparr>lm_other_relocations := lm_other_relocations result + 1\<rparr>, 0)
     else (result, 0))"

definition push_relocation :: "bool \<Rightarrow> GuestLinkRelocation \<Rightarrow> GuestLinkManifest \<Rightarrow> GuestLinkManifest" where
  "push_relocation collect r result =
    (if collect then result\<lparr>lm_relocation_records := lm_relocation_records result @ [r]\<rparr> else result)"

definition link_reloc_step :: "bool \<Rightarrow> GuestLoadSegment list \<Rightarrow> byte list \<Rightarrow> nat \<Rightarrow> GuestLinkManifest
    \<Rightarrow> (GuestLinkManifest + GuestLinkManifest) option" where
  "link_reloc_step collect segments bytes i result = do {
     let offset = 24 * i;
     address \<leftarrow> read_le bytes offset 8;
     info \<leftarrow> read_le bytes (offset + 8) 8;
     addend \<leftarrow> read_le bytes (offset + 16) 8;
     let type = info mod 4294967296;
     let symbol = drop_bit 32 info;
     if symbol \<ge> lm_symbols result \<or> (type = 8 \<and> symbol \<noteq> 0)
     then Some (Inl (manifest_fail result ''invalid_relocation_symbol''))
     else
       let result = push_relocation collect
             \<lparr>lr_address = address, lr_addend_bits = addend, lr_type = type, lr_symbol = symbol\<rparr> result;
           result = result\<lparr>lm_relocations := lm_relocations result + 1\<rparr>;
           (result, width) = count_relocation type result
       in if width \<noteq> 0 then
            if \<not> link_mapped segments address width
            then Some (Inl (manifest_fail result ''relocation_target_outside_mapped_segment''))
            else Some (Inr (result\<lparr>lm_target_checks := lm_target_checks result + 1\<rparr>))
          else Some (Inr result)
   }"

definition reloc_layout_ok :: "(u64 \<rightharpoonup> u64) \<Rightarrow> byte list \<Rightarrow> bool \<Rightarrow> byte list \<Rightarrow> bool" where
  "reloc_layout_ok tags dynlib jump_table bytes = (case (tags (if jump_table then 0x61000029 else 0x6100002f),
       tags (if jump_table then 0x6100002d else 0x61000031)) of
     (Some offset, Some sz) \<Rightarrow>
       \<not> (offset > length dynlib \<or> sz > sub64 (length dynlib) offset \<or> length bytes \<noteq> sz \<or> length bytes mod 24 \<noteq> 0 \<or>
          length bytes div 24 > 262144 \<or> (jump_table \<and> tags 0x6100002b \<noteq> Some 7) \<or>
          (\<not> jump_table \<and> tags 0x61000033 \<noteq> Some 24))
   | _ \<Rightarrow> False)"

definition link_reloc_table :: "bool \<Rightarrow> GuestLoadSegment list \<Rightarrow> (u64 \<rightharpoonup> u64) \<Rightarrow> byte list \<Rightarrow> bool \<Rightarrow> GuestLinkManifest
    \<Rightarrow> (GuestLinkManifest + GuestLinkManifest) option" where
  "link_reloc_table collect segments tags dynlib jump_table result =
    (let offset_tag = (if jump_table then 0x61000029 else 0x6100002f);
         size_tag = (if jump_table then 0x6100002d else 0x61000031);
         bytes = link_table tags dynlib offset_tag size_tag in
     if tags offset_tag = None \<and> tags size_tag = None then Some (Inr result)
     else if \<not> reloc_layout_ok tags dynlib jump_table bytes
     then Some (Inl (manifest_fail result ''invalid_relocation_table_layout''))
     else for_loop (link_reloc_step collect segments bytes) 0 (length bytes div 24) result)"

section \<open>InspectGuestLinkManifest\<close>

definition link_tables :: "bool \<Rightarrow> GuestLoadSegment list \<Rightarrow> byte list \<Rightarrow> link_tags \<Rightarrow> GuestLinkManifest option" where
  "link_tables collect segments dynlib st = do {
     let result = tg_result st;
     let tags = tg_tags st;
     let strings = link_table tags dynlib 0x61000035 0x61000037;
     let symbols = link_table tags dynlib 0x61000039 0x6100003f;
     if strings = [] \<or> length strings > 4194304 \<or> symbols = [] \<or> length symbols mod 24 \<noteq> 0 \<or>
        length symbols div 24 > 131072 \<or> tags 0x6100003b \<noteq> Some 24
     then Some (manifest_fail result ''invalid_or_missing_string_symbol_tables'')
     else do {
       x \<leftarrow> for_each (link_name_step collect strings) (tg_names st) (result, 0);
       case x of Inl m \<Rightarrow> Some m
       | Inr (result, name_bytes) \<Rightarrow> do {
           let result = result\<lparr>lm_symbols := length symbols div 24\<rparr>;
           y \<leftarrow> for_loop (link_symbol_step collect strings symbols) 0 (length symbols div 24) (result, name_bytes);
           case y of Inl m \<Rightarrow> Some m
           | Inr (result, _) \<Rightarrow> do {
               z \<leftarrow> for_each (link_reloc_table collect segments tags dynlib) [False, True] result;
               case z of Inl m \<Rightarrow> Some m
               | Inr result \<Rightarrow> Some (result\<lparr>lm_valid := True\<rparr>)
             }
         }
     }
   }"

definition InspectGuestLinkManifest :: "byte list \<Rightarrow> bool \<Rightarrow> GuestLinkManifest option" where
  "InspectGuestLinkManifest file collect_records = do {
     layout \<leftarrow> PlanGuestPayloadFile file;
     if \<not> plan_valid (img_plan (pay_image layout)) \<or> img_error (pay_image layout) \<noteq> ''''
     then Some (manifest_fail manifest_init ''payload_layout_invalid'')
     else do {
       let prefix = take (min (length file) GuestPrefixLimit) file;
       header \<leftarrow> InspectGuestPrefix prefix (length file);
       if \<not> pf_orbis_identity header then Some (manifest_fail manifest_init ''requires_orbis_dynamic_profile'')
       else do {
         phoff \<leftarrow> read_le prefix (pf_elf_offset header + 32) 8;
         x \<leftarrow> for_loop (link_ph_step file prefix layout header phoff) 0 (pf_program_headers header)
               \<lparr>sp_result = manifest_init, sp_dynamic = [], sp_dynlib = [], sp_have_dynamic = False, sp_have_dynlib = False\<rparr>;
         case x of Inl m \<Rightarrow> Some m
         | Inr st \<Rightarrow>
           if \<not> sp_have_dynamic st \<or> \<not> sp_have_dynlib st \<or> length (sp_dynamic st) mod 16 \<noteq> 0
           then Some (manifest_fail (sp_result st) ''missing_or_invalid_orbis_dynamic_tables'')
           else do {
             y \<leftarrow> dynamic_loop (sp_dynamic st) 0 (length (sp_dynamic st) div 16)
                   \<lparr>tg_result = sp_result st, tg_tags = Map.empty, tg_names = []\<rparr>;
             case y of Inl m \<Rightarrow> Some m
             | Inr (terminated, tg) \<Rightarrow>
               if \<not> terminated then Some (manifest_fail (tg_result tg) ''unterminated_dynamic_table'')
               else link_tables collect_records (plan_segments (img_plan (pay_image layout))) (sp_dynlib st) tg
           }
       }
     }
   }"

section \<open>What a manifest guarantees\<close>

definition manifest_failed :: "GuestLinkManifest \<Rightarrow> bool" where
  "manifest_failed m \<longleftrightarrow> \<not> lm_valid m \<and> lm_error m \<noteq> ''''"

definition manifest_open :: "GuestLinkManifest \<Rightarrow> bool" where
  "manifest_open m \<longleftrightarrow> \<not> lm_valid m \<and> lm_error m = ''''"

definition safe_name :: "string \<Rightarrow> bool" where
  "safe_name s \<longleftrightarrow> s \<noteq> [] \<and> length s \<le> 256 \<and>
     (\<forall>c \<in> set s. 32 \<le> (of_char c :: nat) \<and> (of_char c :: nat) \<le> 126 \<and> (of_char c :: nat) \<noteq> 59 \<and> (of_char c :: nat) \<noteq> 44)"

text \<open>Dependencies: their records are collected in step with the names, and are at most \<open>k\<close>.\<close>

definition deps_ok :: "bool \<Rightarrow> nat \<Rightarrow> GuestLinkManifest \<Rightarrow> bool" where
  "deps_ok collect k m \<longleftrightarrow> length (lm_modules m) + length (lm_libraries m) \<le> k \<and>
     (\<forall>n \<in> set (lm_needed m @ lm_modules m @ lm_libraries m). safe_name n) \<and>
     map ld_name (lm_module_records m) = (if collect then lm_modules m else []) \<and>
     map ld_name (lm_library_records m) = (if collect then lm_libraries m else [])"

definition undefined_symbol :: "GuestLinkSymbol \<Rightarrow> bool" where
  "undefined_symbol s \<longleftrightarrow> ls_section s = 0 \<and> (ls_binding s = 1 \<or> ls_binding s = 2)"

definition symbol_in_range :: "GuestLinkSymbol \<Rightarrow> bool" where
  "symbol_in_range s \<longleftrightarrow> ls_address s \<le> UINT64_MAX \<and> ls_size s \<le> UINT64_MAX \<and> ls_section s \<le> 65535 \<and> ls_type s < 16"

text \<open>Imports: the undefined global and weak symbols among the first \<open>n\<close>, in table order.\<close>

definition imports_ok :: "bool \<Rightarrow> nat \<Rightarrow> GuestLinkManifest \<Rightarrow> bool" where
  "imports_ok collect n m \<longleftrightarrow> length (lm_imports m) \<le> 8192 \<and> (\<forall>n \<in> set (lm_imports m). safe_name n) \<and>
     lm_undefined_functions m + lm_undefined_objects m + lm_undefined_other m = length (lm_imports m) \<and>
     (if collect then length (lm_symbol_records m) = n \<and> (\<forall>s \<in> set (lm_symbol_records m). symbol_in_range s) \<and>
        length (lm_import_symbol_indices m) = length (lm_imports m) \<and>
        lm_import_symbol_indices m = filter (\<lambda>k. undefined_symbol (lm_symbol_records m ! k)) [0..<n]
      else lm_symbol_records m = [] \<and> lm_import_symbol_indices m = [])"

definition reloc_width :: "u32 \<Rightarrow> u64" where
  "reloc_width type = (if type = 36 then 16 else if type = 2 \<or> type = 10 \<or> type = 11 then 4
     else if type \<in> {1, 6, 7, 8, 16, 17, 18} then 8 else 0)"

definition in_segment :: "GuestLoadSegment list \<Rightarrow> u64 \<Rightarrow> u64 \<Rightarrow> bool" where
  "in_segment segments a n \<longleftrightarrow>
     (\<exists>s \<in> set segments. seg_address s \<le> a \<and> a + n \<le> seg_address s + seg_memory_size s)"

definition reloc_ok :: "GuestLoadSegment list \<Rightarrow> nat \<Rightarrow> GuestLinkRelocation \<Rightarrow> bool" where
  "reloc_ok segments n r \<longleftrightarrow> lr_symbol r < n \<and> (lr_type r = 8 \<longrightarrow> lr_symbol r = 0) \<and>
     lr_address r \<le> UINT64_MAX \<and> lr_addend_bits r \<le> UINT64_MAX \<and>
     (reloc_width (lr_type r) \<noteq> 0 \<longrightarrow> in_segment segments (lr_address r) (reloc_width (lr_type r)))"

definition relocs_ok :: "bool \<Rightarrow> GuestLoadSegment list \<Rightarrow> GuestLinkManifest \<Rightarrow> bool" where
  "relocs_ok collect segments m \<longleftrightarrow>
     lm_target_checks m = lm_relative m + lm_jump_slots m + lm_symbol_relocations m + lm_tls_relocations m \<and>
     lm_target_checks m + lm_other_relocations m \<le> lm_relocations m \<and>
     (if collect then length (lm_relocation_records m) = lm_relocations m \<and>
        (\<forall>r \<in> set (lm_relocation_records m). reloc_ok segments (lm_symbols m) r)
      else lm_relocation_records m = [])"

section \<open>The loops\<close>

lemma link_mapped_in_segment: "link_mapped segments a n \<longleftrightarrow> in_segment segments a n"
  by (auto simp: link_mapped_def in_segment_def list_ex_iff u64_simps)

lemma scan_name_safe:
  assumes "scan_name bs out = Some s" "length out \<le> 256" "\<forall>c \<in> set out. 32 \<le> (of_char c :: nat) \<and>
     (of_char c :: nat) \<le> 126 \<and> (of_char c :: nat) \<noteq> 59 \<and> (of_char c :: nat) \<noteq> 44"
  shows "length s \<le> 256 \<and> (\<forall>c \<in> set s. 32 \<le> (of_char c :: nat) \<and> (of_char c :: nat) \<le> 126 \<and>
     (of_char c :: nat) \<noteq> 59 \<and> (of_char c :: nat) \<noteq> 44)"
  using assms
proof (induction bs out rule: scan_name.induct)
  case (2 byte rest out)
  show ?case
  proof (cases "byte = 0")
    case True
    then show ?thesis using 2 by simp
  next
    case False
    have "(of_char (char_of (unat byte) :: char) :: nat) = unat byte" by (simp add: of_char_of)
    then show ?thesis using 2 False by (auto split: if_splits)
  qed
qed simp

lemma string_at_safe: "string_at strings nb off = Some (s, nb') \<Longrightarrow> safe_name s"
  using scan_name_safe [of "drop off strings" "[]" s]
  by (auto simp: string_at_def safe_name_def Let_def split: if_splits option.splits)

lemma link_name_step_outcome:
  assumes "manifest_open m" "deps_ok collect k m" "imports_ok collect 0 m" "relocs_ok collect segs m"
  shows "outcome manifest_failed (\<lambda>(m, _). manifest_open m \<and> deps_ok collect (Suc k) m \<and> imports_ok collect 0 m \<and>
      relocs_ok collect segs m) (link_name_step collect strings e (m, nb))"
proof (cases e)
  case (Pair tag v)
  show ?thesis
  proof (cases "string_at strings nb (if tag = 1 then v else v AND 0xffffffff)")
    case None
    then show ?thesis using assms(1)
      by (simp add: link_name_step_def Pair manifest_failed_def manifest_open_def manifest_fail_def)
  next
    case (Some p)
    obtain name nb' where p: "p = (name, nb')" by (cases p)
    have "safe_name name" using Some p string_at_safe by blast
    then show ?thesis using assms Some
      by (auto simp: link_name_step_def Pair p Let_def manifest_open_def deps_ok_def imports_ok_def relocs_ok_def)
  qed
qed

lemma filter_upt_snoc:
  "filter (\<lambda>k. P ((xs @ [x]) ! k)) [0..<Suc (length xs)] =
   filter (\<lambda>k. P (xs ! k)) [0..<length xs] @ (if P x then [length xs] else [])"
proof -
  have "filter (\<lambda>k. P ((xs @ [x]) ! k)) [0..<length xs] = filter (\<lambda>k. P (xs ! k)) [0..<length xs]"
    by (rule filter_cong) (auto simp: nth_append)
  then show ?thesis by simp
qed

lemma and_15_less: "(x::nat) AND 15 < 16"
  using take_bit_nat_less_exp [of 4 x] by (simp add: take_bit_eq_mask mask_eq_exp_minus_1)

lemma push_symbol_defined:
  "imports_ok collect i m \<Longrightarrow> symbol_in_range s \<Longrightarrow> \<not> undefined_symbol s \<Longrightarrow> imports_ok collect (Suc i) (push_symbol collect s m)"
  unfolding imports_ok_def push_symbol_def using filter_upt_snoc [of undefined_symbol "lm_symbol_records m" s] by auto

lemma push_symbol_import:
  assumes "imports_ok collect i m" "symbol_in_range s" "undefined_symbol s" "safe_name name" "\<not> length (lm_imports m) \<ge> 8192"
  shows "imports_ok collect (Suc i) (push_import collect i name type (push_symbol collect s m))"
  using assms filter_upt_snoc [of undefined_symbol "lm_symbol_records m" s]
  by (cases collect) (auto simp: imports_ok_def push_symbol_def push_import_def Let_def)

lemma push_others:
  "lm_imports (push_symbol collect s m) = lm_imports m"
  "manifest_open m \<Longrightarrow> manifest_open (push_symbol collect s m)"
  "manifest_open m \<Longrightarrow> manifest_open (push_import collect i name type m)"
  "deps_ok collect k m \<Longrightarrow> deps_ok collect k (push_symbol collect s m)"
  "deps_ok collect k m \<Longrightarrow> deps_ok collect k (push_import collect i name type m)"
  "relocs_ok collect segs m \<Longrightarrow> relocs_ok collect segs (push_symbol collect s m)"
  "relocs_ok collect segs m \<Longrightarrow> relocs_ok collect segs (push_import collect i name type m)"
  "lm_symbols (push_symbol collect s m) = lm_symbols m" "lm_symbols (push_import collect i name type m) = lm_symbols m"
  by (auto simp: push_symbol_def push_import_def manifest_open_def deps_ok_def relocs_ok_def Let_def)

lemma manifest_fail_failed: "manifest_open m \<Longrightarrow> e \<noteq> '''' \<Longrightarrow> manifest_failed (manifest_fail m e)"
  by (simp add: manifest_open_def manifest_failed_def manifest_fail_def)

lemma link_symbol_step_outcome:
  assumes fits: "24 * i + 24 \<le> length symbols"
    and inv: "manifest_open m" "deps_ok collect k m" "imports_ok collect i m" "relocs_ok collect segs m" "lm_symbols m = n"
  shows "outcome manifest_failed (\<lambda>(m, _). manifest_open m \<and> deps_ok collect k m \<and> imports_ok collect (Suc i) m \<and>
      relocs_ok collect segs m \<and> lm_symbols m = n) (link_symbol_step collect strings symbols i (m, nb))"
proof -
  let ?o = "24 * i" and ?info = "unat (symbols ! (24 * i + 4))"
  define s where "s = \<lparr>ls_address = field symbols (?o + 8) 8, ls_size = field symbols (?o + 16) 8,
    ls_section = field symbols (?o + 6) 2, ls_binding = drop_bit 4 ?info, ls_type = ?info AND 15\<rparr>"
  have rd: "byte_at symbols (?o + 4) = Some ?info" "read_le symbols (?o + 6) 2 = Some (ls_section s)"
    "read_le symbols (?o + 8) 8 = Some (ls_address s)" "read_le symbols (?o + 16) 8 = Some (ls_size s)"
    "read_le symbols ?o 4 = Some (field symbols ?o 4)"
    using fits by (auto simp: bytes_simps s_def)
  have s: "symbol_in_range s"
    by (simp add: symbol_in_range_def s_def field_8_bound field_2_bound and_15_less)
  have sel: "drop_bit 4 ?info = ls_binding s" "?info AND 15 = ls_type s"
    "\<lparr>ls_address = ls_address s, ls_size = ls_size s, ls_section = ls_section s, ls_binding = ls_binding s,
      ls_type = ls_type s\<rparr> = s"
    by (simp_all add: s_def)
  have step: "link_symbol_step collect strings symbols i (m, nb) =
      (let m = push_symbol collect s m in
       if \<not> undefined_symbol s then Some (Inr (m, nb))
       else if length (lm_imports m) \<ge> 8192 then Some (Inl (manifest_fail m ''import_budget_exceeded''))
       else (case string_at strings nb (field symbols ?o 4) of
           None \<Rightarrow> Some (Inl (manifest_fail m ''invalid_import_name''))
         | Some (name, nb) \<Rightarrow> Some (Inr (push_import collect i name (ls_type s) m, nb))))"
    unfolding link_symbol_step_def prod.case Let_def rd Option.bind.bind_lunit sel undefined_symbol_def by simp
  show ?thesis
    unfolding step using inv s push_symbol_defined [of collect i m s] push_symbol_import [of collect i m s]
    by (auto simp: Let_def push_others manifest_fail_failed string_at_safe split: option.split)
qed

definition reloc_inv :: "bool \<Rightarrow> nat \<Rightarrow> GuestLoadSegment list \<Rightarrow> nat \<Rightarrow> GuestLinkManifest \<Rightarrow> bool" where
  "reloc_inv collect k segs n m \<longleftrightarrow> manifest_open m \<and> deps_ok collect k m \<and> imports_ok collect n m \<and>
     relocs_ok collect segs m \<and> lm_symbols m = n"

lemma count_relocation_keeps:
  assumes "count_relocation type m = (m', w)"
  shows "lm_valid m' = lm_valid m" "lm_error m' = lm_error m" "lm_symbols m' = lm_symbols m" "lm_needed m' = lm_needed m"
    "lm_modules m' = lm_modules m" "lm_libraries m' = lm_libraries m" "lm_imports m' = lm_imports m"
    "lm_module_records m' = lm_module_records m" "lm_library_records m' = lm_library_records m"
    "lm_symbol_records m' = lm_symbol_records m" "lm_import_symbol_indices m' = lm_import_symbol_indices m"
    "lm_relocation_records m' = lm_relocation_records m" "lm_relocations m' = lm_relocations m"
    "lm_undefined_functions m' = lm_undefined_functions m" "lm_undefined_objects m' = lm_undefined_objects m"
    "lm_undefined_other m' = lm_undefined_other m" "lm_target_checks m' = lm_target_checks m" "w = reloc_width type"
    "lm_relative m' + lm_jump_slots m' + lm_symbol_relocations m' + lm_tls_relocations m' =
      lm_relative m + lm_jump_slots m + lm_symbol_relocations m + lm_tls_relocations m + (if w \<noteq> 0 then 1 else 0)"
    "lm_other_relocations m' \<le> lm_other_relocations m + (if w \<noteq> 0 then 0 else 1)"
  using assms by (auto simp: count_relocation_def reloc_width_def split: if_splits)

lemma push_relocation_keeps:
  "lm_valid (push_relocation c r m) = lm_valid m" "lm_error (push_relocation c r m) = lm_error m"
  "lm_needed (push_relocation c r m) = lm_needed m" "lm_modules (push_relocation c r m) = lm_modules m"
  "lm_libraries (push_relocation c r m) = lm_libraries m" "lm_imports (push_relocation c r m) = lm_imports m"
  "lm_module_records (push_relocation c r m) = lm_module_records m"
  "lm_library_records (push_relocation c r m) = lm_library_records m"
  "lm_symbol_records (push_relocation c r m) = lm_symbol_records m"
  "lm_import_symbol_indices (push_relocation c r m) = lm_import_symbol_indices m"
  "lm_undefined_functions (push_relocation c r m) = lm_undefined_functions m"
  "lm_undefined_objects (push_relocation c r m) = lm_undefined_objects m"
  "lm_undefined_other (push_relocation c r m) = lm_undefined_other m"
  by (simp_all add: push_relocation_def)

text \<open>One more relocation whose target has been checked keeps the invariant.\<close>

lemma counted_relocation:
  assumes inv: "reloc_inv collect k segs n m" and m': "count_relocation (lr_type r)
      ((push_relocation collect r m)\<lparr>lm_relocations := lm_relocations (push_relocation collect r m) + 1\<rparr>) = (m', w)"
  shows "manifest_open m'"
    and "reloc_ok segs n r \<Longrightarrow> reloc_inv collect k segs n (if w \<noteq> 0 then m'\<lparr>lm_target_checks := lm_target_checks m' + 1\<rparr> else m')"
proof -
  note keep = count_relocation_keeps [OF m']
  have records: "lm_relocation_records m' = (if collect then lm_relocation_records m @ [r] else lm_relocation_records m)"
    "lm_relocations m' = lm_relocations m + 1" "lm_symbols m' = n"
    using keep inv by (simp_all add: push_relocation_def reloc_inv_def)
  show opn: "manifest_open m'" using keep(1,2) inv by (simp add: push_relocation_def reloc_inv_def manifest_open_def)
  assume r: "reloc_ok segs n r"
  have "deps_ok collect k m' = deps_ok collect k m"
    unfolding deps_ok_def keep(4-11) by (simp add: push_relocation_keeps)
  moreover have "imports_ok collect n m' = imports_ok collect n m"
    unfolding imports_ok_def keep(7,10,11,14-16) by (simp add: push_relocation_keeps)
  moreover have "relocs_ok collect segs (if w \<noteq> 0 then m'\<lparr>lm_target_checks := lm_target_checks m' + 1\<rparr> else m')"
    using inv keep(17,19,20) records r unfolding reloc_inv_def relocs_ok_def push_relocation_def
    by (cases "w \<noteq> 0"; cases collect) auto
  ultimately show "reloc_inv collect k segs n (if w \<noteq> 0 then m'\<lparr>lm_target_checks := lm_target_checks m' + 1\<rparr> else m')"
    using inv opn records(3) unfolding reloc_inv_def by (auto simp: manifest_open_def deps_ok_def imports_ok_def)
qed

lemma link_reloc_step_outcome:
  assumes fits: "24 * i + 24 \<le> length bytes" and inv: "reloc_inv collect k segs n m"
  shows "outcome manifest_failed (reloc_inv collect k segs n) (link_reloc_step collect segs bytes i m)"
proof -
  let ?o = "24 * i" and ?info = "field bytes (24 * i + 8) 8"
  define r where "r = \<lparr>lr_address = field bytes ?o 8, lr_addend_bits = field bytes (?o + 16) 8,
    lr_type = ?info mod 4294967296, lr_symbol = drop_bit 32 ?info\<rparr>"
  have rd: "read_le bytes ?o 8 = Some (lr_address r)" "read_le bytes (?o + 16) 8 = Some (lr_addend_bits r)"
    "read_le bytes (?o + 8) 8 = Some ?info"
    using fits by (auto simp: bytes_simps r_def)
  have sel: "?info mod 4294967296 = lr_type r" "drop_bit 32 ?info = lr_symbol r"
    "\<lparr>lr_address = lr_address r, lr_addend_bits = lr_addend_bits r, lr_type = lr_type r, lr_symbol = lr_symbol r\<rparr> = r"
    by (simp_all add: r_def)
  obtain m' w where m': "count_relocation (lr_type r)
      ((push_relocation collect r m)\<lparr>lm_relocations := lm_relocations (push_relocation collect r m) + 1\<rparr>) = (m', w)"
    by (cases "count_relocation (lr_type r)
      ((push_relocation collect r m)\<lparr>lm_relocations := lm_relocations (push_relocation collect r m) + 1\<rparr>)")
  have w: "w = reloc_width (lr_type r)" using count_relocation_keeps(18) [OF m'] .
  have n: "lm_symbols m = n" and opn: "manifest_open m" using inv by (auto simp: reloc_inv_def)
  have step: "link_reloc_step collect segs bytes i m =
      (if lr_symbol r \<ge> n \<or> (lr_type r = 8 \<and> lr_symbol r \<noteq> 0)
       then Some (Inl (manifest_fail m ''invalid_relocation_symbol''))
       else if w \<noteq> 0 \<and> \<not> in_segment segs (lr_address r) w
       then Some (Inl (manifest_fail m' ''relocation_target_outside_mapped_segment''))
       else Some (Inr (if w \<noteq> 0 then m'\<lparr>lm_target_checks := lm_target_checks m' + 1\<rparr> else m')))"
    unfolding link_reloc_step_def Let_def rd Option.bind.bind_lunit sel m' prod.case link_mapped_in_segment n by simp
  have ok: "reloc_ok segs n r" if "\<not> (lr_symbol r \<ge> n \<or> (lr_type r = 8 \<and> lr_symbol r \<noteq> 0))"
      "\<not> (w \<noteq> 0 \<and> \<not> in_segment segs (lr_address r) w)"
    using that field_8_bound by (auto simp: reloc_ok_def w r_def)
  show ?thesis
    using opn ok counted_relocation [OF inv m'] unfolding step by (simp add: manifest_fail_failed)
qed

lemma link_reloc_table_outcome:
  assumes inv: "reloc_inv collect k segs n m"
  shows "outcome manifest_failed (reloc_inv collect k segs n) (link_reloc_table collect segs tags dynlib jump m)"
proof -
  define bytes where "bytes = link_table tags dynlib (if jump then 0x61000029 else 0x6100002f) (if jump then 0x6100002d else 0x61000031)"
  have "outcome manifest_failed (reloc_inv collect k segs n)
      (for_loop (link_reloc_step collect segs bytes) 0 (length bytes div 24) m)" if "length bytes mod 24 = 0"
  proof (rule for_loop_rule [where I = "\<lambda>_. reloc_inv collect k segs n", OF inv])
    fix i m assume i: "i < 0 + length bytes div 24" and m: "reloc_inv collect k segs n m"
    have "24 * i + 24 \<le> 24 * (length bytes div 24)" using i by linarith
    also have "\<dots> \<le> length bytes" using that by (metis mult_div_mod_eq add_0_right order_refl)
    finally show "outcome manifest_failed (reloc_inv collect k segs n) (link_reloc_step collect segs bytes i m)"
      using m by (rule link_reloc_step_outcome)
  qed
  moreover have "length bytes mod 24 = 0" if "reloc_layout_ok tags dynlib jump bytes"
    using that by (auto simp: reloc_layout_ok_def split: option.splits)
  moreover have "manifest_open m" using inv by (simp add: reloc_inv_def)
  ultimately show ?thesis using inv
    by (simp add: link_reloc_table_def Let_def bytes_def [symmetric] manifest_fail_failed)
qed

text \<open>\<open>manifest_sound\<close>: what the later stages rely on.\<close>

definition manifest_sound :: "bool \<Rightarrow> GuestLoadSegment list \<Rightarrow> GuestLinkManifest \<Rightarrow> bool" where
  "manifest_sound collect segs m \<longleftrightarrow> deps_ok collect 512 m \<and> imports_ok collect (lm_symbols m) m \<and>
     relocs_ok collect segs m \<and> 0 < lm_symbols m \<and> lm_symbols m \<le> 131072"

definition manifest_fresh :: "GuestLinkManifest \<Rightarrow> bool" where
  "manifest_fresh m \<longleftrightarrow> manifest_open m \<and> lm_relocation_records m = [] \<and> (\<forall>collect segs.
     deps_ok collect 0 m \<and> imports_ok collect 0 m \<and> relocs_ok collect segs m)"

definition manifest_verdict :: "bool \<Rightarrow> GuestLoadSegment list \<Rightarrow> GuestLinkManifest option \<Rightarrow> bool" where
  "manifest_verdict collect segs x \<longleftrightarrow> (\<exists>m. x = Some m \<and>
     (manifest_failed m \<or> lm_valid m \<and> lm_error m = '''' \<and> manifest_sound collect segs m))"

lemma manifest_verdict_Some [simp]: "manifest_verdict c segs (Some m) \<longleftrightarrow>
    manifest_failed m \<or> lm_valid m \<and> lm_error m = '''' \<and> manifest_sound c segs m"
  by (simp add: manifest_verdict_def)

lemma link_names_outcome:
  assumes fresh: "manifest_fresh m" "length names \<le> 512"
  shows "outcome manifest_failed (\<lambda>(m, _). manifest_open m \<and> deps_ok collect 512 m \<and> imports_ok collect 0 m \<and>
      relocs_ok collect segs m \<and> lm_relocation_records m = []) (for_each (link_name_step collect strings) names (m, 0))"
proof -
  let ?I = "\<lambda>(pre :: (u64 \<times> u64) list) (m, nb :: nat). (manifest_open m \<and> deps_ok collect (length pre) m \<and> imports_ok collect 0 m \<and>
      relocs_ok collect segs m) \<and> lm_relocation_records m = []"
  have "outcome manifest_failed (?I names) (for_each (link_name_step collect strings) names (m, 0))"
  proof (rule for_each_rule)
    show "?I [] (m, 0)" using fresh by (simp add: manifest_fresh_def)
  next
    fix pre a st assume st: "?I pre st"
    obtain m' nb where s: "st = (m', nb)" by (cases st)
    have "outcome manifest_failed (\<lambda>(m, _). manifest_open m \<and> deps_ok collect (Suc (length pre)) m \<and> imports_ok collect 0 m \<and>
        relocs_ok collect segs m) (link_name_step collect strings a (m', nb))"
      using st by (intro link_name_step_outcome) (auto simp: s)
    moreover have "lm_relocation_records (fst r) = []"
      if "link_name_step collect strings a (m', nb) = Some (Inr r)" for r
      using that st by (auto simp: s link_name_step_def Let_def split: prod.splits option.splits if_splits)
    ultimately show "outcome manifest_failed (?I (pre @ [a])) (link_name_step collect strings a st)"
      by (auto simp: s elim!: outcomeE)
  qed
  then show ?thesis
    using fresh(2) by (auto simp: deps_ok_def elim!: outcomeE)
qed

lemma set_symbols_keeps:
  "manifest_open (m\<lparr>lm_symbols := n\<rparr>) = manifest_open m" "deps_ok c k (m\<lparr>lm_symbols := n\<rparr>) = deps_ok c k m"
  "imports_ok c i (m\<lparr>lm_symbols := n\<rparr>) = imports_ok c i m"
  "lm_relocation_records m = [] \<Longrightarrow> relocs_ok c segs (m\<lparr>lm_symbols := n\<rparr>) = relocs_ok c segs m"
  by (simp_all add: manifest_open_def deps_ok_def imports_ok_def relocs_ok_def)

lemma set_valid_keeps:
  "deps_ok c k (m\<lparr>lm_valid := v\<rparr>) = deps_ok c k m" "imports_ok c i (m\<lparr>lm_valid := v\<rparr>) = imports_ok c i m"
  "relocs_ok c segs (m\<lparr>lm_valid := v\<rparr>) = relocs_ok c segs m"
  by (simp_all add: deps_ok_def imports_ok_def relocs_ok_def)

lemma link_symbols_outcome:
  assumes "manifest_open m" "deps_ok collect 512 m" "imports_ok collect 0 m" "relocs_ok collect segs m"
    "lm_relocation_records m = []" "length symbols = 24 * n"
  shows "outcome manifest_failed (\<lambda>(m, _). reloc_inv collect 512 segs n m)
    (for_loop (link_symbol_step collect strings symbols) 0 n (m\<lparr>lm_symbols := n\<rparr>, nb))"
proof -
  let ?I = "\<lambda>i (m, nb :: nat). manifest_open m \<and> deps_ok collect 512 m \<and> imports_ok collect i m \<and>
    relocs_ok collect segs m \<and> lm_symbols m = n"
  have "outcome manifest_failed (?I (0 + n))
      (for_loop (link_symbol_step collect strings symbols) 0 n (m\<lparr>lm_symbols := n\<rparr>, nb))"
  proof (rule for_loop_rule)
    show "?I 0 (m\<lparr>lm_symbols := n\<rparr>, nb)" using assms by (simp add: set_symbols_keeps)
  next
    fix i s assume i: "i < 0 + n" and s: "?I i s"
    then show "outcome manifest_failed (?I (Suc i)) (link_symbol_step collect strings symbols i s)"
      using link_symbol_step_outcome [of i symbols "fst s" collect 512 segs n strings "snd s"] assms(6) by (cases s) auto
  qed
  then show ?thesis by (simp add: reloc_inv_def)
qed

lemma link_relocs_verdict:
  assumes inv: "reloc_inv collect 512 segs n m" and n: "0 < n" "n \<le> 131072"
  shows "manifest_verdict collect segs (do {
      z \<leftarrow> for_each (link_reloc_table collect segs tags dynlib) [False, True] m;
      case z of Inl m \<Rightarrow> Some m | Inr result \<Rightarrow> Some (result\<lparr>lm_valid := True\<rparr>) })"
proof (rule outcome_bind)
  show "outcome manifest_failed (reloc_inv collect 512 segs n) (for_each (link_reloc_table collect segs tags dynlib) [False, True] m)"
    using inv link_reloc_table_outcome by (intro for_each_rule [where I = "\<lambda>_. reloc_inv collect 512 segs n"]) auto
next
  fix m assume "reloc_inv collect 512 segs n m"
  then show "manifest_verdict collect segs (Some (m\<lparr>lm_valid := True\<rparr>))"
    using n by (simp add: reloc_inv_def manifest_sound_def manifest_open_def set_valid_keeps)
qed simp

lemma link_tables_verdict:
  assumes fresh: "manifest_fresh (tg_result st)" "length (tg_names st) \<le> 512"
  shows "manifest_verdict collect segs (link_tables collect segs dynlib st)"
proof -
  define strings symbols where "strings = link_table (tg_tags st) dynlib 0x61000035 0x61000037"
    "symbols = link_table (tg_tags st) dynlib 0x61000039 0x6100003f"
  let ?n = "length symbols div 24"
  have opn: "manifest_open (tg_result st)" using fresh by (simp add: manifest_fresh_def)
  show ?thesis
  proof (cases "strings = [] \<or> length strings > 4194304 \<or> symbols = [] \<or> length symbols mod 24 \<noteq> 0 \<or> ?n > 131072 \<or>
      tg_tags st 0x6100003b \<noteq> Some 24")
    case True
    then show ?thesis using opn
      by (simp add: link_tables_def Let_def strings_symbols_def [symmetric] manifest_fail_failed)
  next
    case False
    then have len: "length symbols = 24 * ?n" by auto
    then have n: "0 < ?n" "?n \<le> 131072" using False by (cases "?n = 0"; simp)+
    show ?thesis
      unfolding link_tables_def Let_def strings_symbols_def [symmetric] if_not_P [OF False]
    proof (rule outcome_bind [OF link_names_outcome [OF fresh, of collect segs strings]])
      fix s :: "GuestLinkManifest \<times> nat"
      assume s: "case s of (m, _) \<Rightarrow> manifest_open m \<and> deps_ok collect 512 m \<and> imports_ok collect 0 m \<and>
        relocs_ok collect segs m \<and> lm_relocation_records m = []"
      obtain m nb where m: "s = (m, nb)" by (cases s)
      show "manifest_verdict collect segs (case s of (result, name_bytes) \<Rightarrow> do {
            y \<leftarrow> for_loop (link_symbol_step collect strings symbols) 0 ?n (result\<lparr>lm_symbols := ?n\<rparr>, name_bytes);
            case y of Inl m \<Rightarrow> Some m
            | Inr (result, _) \<Rightarrow> do {
                z \<leftarrow> for_each (link_reloc_table collect segs (tg_tags st) dynlib) [False, True] result;
                case z of Inl m \<Rightarrow> Some m
                | Inr result \<Rightarrow> Some (result\<lparr>lm_valid := True\<rparr>) } })"
        unfolding m prod.case
        by (rule outcome_bind [OF link_symbols_outcome [of m collect segs]])
          (use s m len link_relocs_verdict [OF _ n] in \<open>auto simp del: for_each.simps\<close>)
    qed simp
  qed
qed

text \<open>The dynamic table.\<close>

lemma set_entries_keeps:
  "manifest_open (m\<lparr>lm_dynamic_entries := n\<rparr>) = manifest_open m" "deps_ok c k (m\<lparr>lm_dynamic_entries := n\<rparr>) = deps_ok c k m"
  "imports_ok c i (m\<lparr>lm_dynamic_entries := n\<rparr>) = imports_ok c i m"
  "relocs_ok c segs (m\<lparr>lm_dynamic_entries := n\<rparr>) = relocs_ok c segs m"
  by (simp_all add: manifest_open_def deps_ok_def imports_ok_def relocs_ok_def)

lemma manifest_fresh_entries: "manifest_fresh m \<Longrightarrow> manifest_fresh (m\<lparr>lm_dynamic_entries := n\<rparr>)"
  by (simp only: manifest_fresh_def set_entries_keeps) simp

lemma dynamic_loop_outcome:
  assumes "manifest_fresh (tg_result st)" "length (tg_names st) \<le> 512" "offset + 16 * n \<le> length dynamic"
  shows "outcome manifest_failed (\<lambda>(_, st). manifest_fresh (tg_result st) \<and> length (tg_names st) \<le> 512)
    (dynamic_loop dynamic offset n st)"
  using assms
proof (induction n arbitrary: offset st)
  case (Suc n)
  let ?st = "st\<lparr>tg_result := (tg_result st)\<lparr>lm_dynamic_entries := lm_dynamic_entries (tg_result st) + 1\<rparr>\<rparr>"
  have rd: "read_le dynamic offset 8 = Some (field dynamic offset 8)" "read_le dynamic (offset + 8) 8 = Some (field dynamic (offset + 8) 8)"
    using Suc.prems(3) by (auto simp: bytes_simps)
  have fresh: "manifest_fresh (tg_result ?st)" using Suc.prems(1) by (simp add: manifest_fresh_entries)
  then have opn: "manifest_open (tg_result ?st)" by (simp add: manifest_fresh_def)
  have IH: "outcome manifest_failed (\<lambda>(_, st). manifest_fresh (tg_result st) \<and> length (tg_names st) \<le> 512)
      (dynamic_loop dynamic (offset + 16) n st')" if "tg_result st' = tg_result ?st" "length (tg_names st') \<le> 512" for st'
    using that fresh Suc.prems(3) by (intro Suc.IH) auto
  show ?case
    using Suc.prems(1,2) opn
    by (simp only: dynamic_loop.simps rd Option.bind.bind_lunit Let_def outcome_if outcome_simps)
      (simp add: IH manifest_fail_failed del: dynamic_loop.simps)
qed simp

text \<open>The program headers.\<close>

lemma set_tls_keeps:
  "manifest_open (m\<lparr>lm_tls_segments := n\<rparr>) = manifest_open m" "deps_ok c k (m\<lparr>lm_tls_segments := n\<rparr>) = deps_ok c k m"
  "imports_ok c i (m\<lparr>lm_tls_segments := n\<rparr>) = imports_ok c i m" "relocs_ok c segs (m\<lparr>lm_tls_segments := n\<rparr>) = relocs_ok c segs m"
  "manifest_open (m\<lparr>lm_tls_address := a, lm_tls_file_bytes := f, lm_tls_memory_bytes := b, lm_tls_alignment := l\<rparr>) = manifest_open m"
  "deps_ok c k (m\<lparr>lm_tls_address := a, lm_tls_file_bytes := f, lm_tls_memory_bytes := b, lm_tls_alignment := l\<rparr>) = deps_ok c k m"
  "imports_ok c i (m\<lparr>lm_tls_address := a, lm_tls_file_bytes := f, lm_tls_memory_bytes := b, lm_tls_alignment := l\<rparr>) = imports_ok c i m"
  "relocs_ok c segs (m\<lparr>lm_tls_address := a, lm_tls_file_bytes := f, lm_tls_memory_bytes := b, lm_tls_alignment := l\<rparr>) = relocs_ok c segs m"
  by (simp_all add: manifest_open_def deps_ok_def imports_ok_def relocs_ok_def)

lemma link_tls_fresh:
  assumes "manifest_fresh m"
  shows "case link_tls file ranges segs offset address sz memory alignment m of
    Inl m' \<Rightarrow> manifest_failed m' | Inr m' \<Rightarrow> manifest_fresh m'"
proof -
  let ?m = "m\<lparr>lm_tls_segments := lm_tls_segments m + 1\<rparr>"
  have fresh: "manifest_fresh ?m" using assms by (simp only: manifest_fresh_def set_tls_keeps) simp
  then have opn: "manifest_open ?m" by (simp add: manifest_fresh_def)
  have "manifest_fresh (?m\<lparr>lm_tls_address := a, lm_tls_file_bytes := f, lm_tls_memory_bytes := b, lm_tls_alignment := l\<rparr>)" for a f b l
    using fresh by (simp only: manifest_fresh_def set_tls_keeps) simp
  moreover obtain m1 where m1: "m1 = ?m" by blast
  ultimately show ?thesis
    using manifest_fail_failed [OF opn] unfolding link_tls_def Let_def m1 [symmetric] by auto
qed

lemma link_ph_step_outcome:
  assumes fits: "pf_elf_offset h + phoff + i * 56 + 56 \<le> length prefix" and fresh: "manifest_fresh (sp_result st)"
  shows "outcome manifest_failed (\<lambda>st :: link_spans. manifest_fresh (sp_result st)) (link_ph_step file prefix layout h phoff i st)"
proof -
  let ?o = "pf_elf_offset h + phoff + i * 56"
  have rd: "read_le prefix ?o 4 = Some (field prefix ?o 4)" "read_le prefix (?o + 8) 8 = Some (field prefix (?o + 8) 8)"
    "read_le prefix (?o + 16) 8 = Some (field prefix (?o + 16) 8)" "read_le prefix (?o + 32) 8 = Some (field prefix (?o + 32) 8)"
    "read_le prefix (?o + 40) 8 = Some (field prefix (?o + 40) 8)" "read_le prefix (?o + 48) 8 = Some (field prefix (?o + 48) 8)"
    using fits by (auto intro!: read_le_field)
  have opn: "manifest_open (sp_result st)" using fresh by (simp add: manifest_fresh_def)
  have tls: "outcome manifest_failed (\<lambda>st :: link_spans. manifest_fresh (sp_result st))
      (case link_tls file ranges segs offset address sz memory alignment (sp_result st) of
         Inl m \<Rightarrow> Some (Inl m) | Inr m \<Rightarrow> Some (Inr (st\<lparr>sp_result := m\<rparr>)))" for ranges segs offset address sz memory alignment
    using link_tls_fresh [OF fresh] by (simp split: sum.split) (metis sum.case)
  show ?thesis
    unfolding link_ph_step_def Let_def rd Option.bind.bind_lunit outcome_if
    using tls fresh manifest_fail_failed [OF opn] by simp
qed

lemma payload_prefix_plan:
  assumes "PlanGuestPayloadFile file = Some p" "plan_valid (img_plan (pay_image p))"
  obtains plan where "PlanGuestLoads (take (min (length file) GuestPrefixLimit) file) (length file) True = Some plan" "plan_valid plan"
proof -
  have small: "\<not> length file > GuestPayloadFileLimit"
    using assms by (auto simp: PlanGuestPayloadFile_def payload_fail_def payload_init_def plan_init_def)
  obtain plan where plan: "PlanGuestLoads (take (min (length file) GuestPrefixLimit) file) (length file) True = Some plan"
    using PlanGuestLoads_result by blast
  moreover have "plan_valid plan"
    using assms small plan
    by (auto simp: PlanGuestPayloadFile_def Let_def payload_fail_def payload_init_def split: if_splits)
  ultimately show thesis using that by blast
qed

lemma link_dynamic_verdict:
  assumes fresh: "manifest_fresh (sp_result st)"
  shows "manifest_verdict collect segs (
    if \<not> sp_have_dynamic st \<or> \<not> sp_have_dynlib st \<or> length (sp_dynamic st) mod 16 \<noteq> 0
    then Some (manifest_fail (sp_result st) ''missing_or_invalid_orbis_dynamic_tables'')
    else do {
      y \<leftarrow> dynamic_loop (sp_dynamic st) 0 (length (sp_dynamic st) div 16)
            \<lparr>tg_result = sp_result st, tg_tags = Map.empty, tg_names = []\<rparr>;
      case y of Inl m \<Rightarrow> Some m
      | Inr (terminated, tg) \<Rightarrow>
        if \<not> terminated then Some (manifest_fail (tg_result tg) ''unterminated_dynamic_table'')
        else link_tables collect segs (sp_dynlib st) tg })"
  (is "manifest_verdict _ _ (if ?bad then ?fail else ?go)")
proof -
  have "manifest_open (sp_result st)" using fresh by (simp add: manifest_fresh_def)
  then have bad: "manifest_verdict collect segs ?fail" by (simp add: manifest_fail_failed)
  have "manifest_verdict collect segs ?go"
  proof (rule outcome_bind [OF dynamic_loop_outcome])
    fix s :: "bool \<times> link_tags"
    assume s: "case s of (_, tg) \<Rightarrow> manifest_fresh (tg_result tg) \<and> length (tg_names tg) \<le> 512"
    obtain terminated tg where e: "s = (terminated, tg)" by (cases s)
    have "manifest_open (tg_result tg)" using s e by (simp add: manifest_fresh_def)
    then show "manifest_verdict collect segs (case s of (terminated, tg) \<Rightarrow>
        if \<not> terminated then Some (manifest_fail (tg_result tg) ''unterminated_dynamic_table'')
        else link_tables collect segs (sp_dynlib st) tg)"
      using s link_tables_verdict by (simp add: e manifest_fail_failed)
  qed (use fresh in auto)
  with bad show ?thesis by presburger
qed

lemma InspectGuestLinkManifest_result:
  "\<exists>p. PlanGuestPayloadFile file = Some p \<and>
     manifest_verdict collect (plan_segments (img_plan (pay_image p))) (InspectGuestLinkManifest file collect)"
proof -
  obtain p where p: "PlanGuestPayloadFile file = Some p" using PlanGuestPayloadFile_result by blast
  define pre segs where "pre = take (min (length file) GuestPrefixLimit) file" "segs = plan_segments (img_plan (pay_image p))"
  have init: "manifest_fresh manifest_init" "manifest_open manifest_init"
    by (simp_all add: manifest_fresh_def manifest_init_def manifest_open_def deps_ok_def imports_ok_def relocs_ok_def)
  have "manifest_verdict collect segs (InspectGuestLinkManifest file collect)"
  proof (cases "plan_valid (img_plan (pay_image p)) \<and> img_error (pay_image p) = ''''")
    case False
    then show ?thesis using p manifest_fail_failed [OF init(2)] by (auto simp: InspectGuestLinkManifest_def)
  next
    case True
    obtain plan where plan: "PlanGuestLoads pre (length file) True = Some plan" "plan_valid plan"
      by (rule payload_prefix_plan [OF p, folded pre_segs_def]) (use True in \<open>auto intro: that\<close>)
    note ok = PlanGuestLoads_valid [OF plan]
    obtain h where h: "InspectGuestPrefix pre (length file) = Some h" "pf_elf_offset h = elf_start pre"
      "pf_program_headers h = ph_count pre"
      using InspectGuestPrefix_result [of pre "length file"] ok(2) by (auto simp: filled_from_def)
    have len: "elf_start pre + 64 \<le> length pre" using ok(2) by (simp add: accepted_prefix_def elf64_orbis_header_def)
    have rd: "read_le pre (pf_elf_offset h + 32) 8 = Some (ph_offset pre)" using len h by (auto simp: bytes_simps)
    let ?st = "\<lparr>sp_result = manifest_init, sp_dynamic = [], sp_dynlib = [], sp_have_dynamic = False, sp_have_dynlib = False\<rparr>"
    have headers: "outcome manifest_failed (\<lambda>st. manifest_fresh (sp_result st))
        (for_loop (link_ph_step file pre p h (ph_offset pre)) 0 (pf_program_headers h) ?st)"
    proof (rule for_loop_rule [where I = "\<lambda>_ st. manifest_fresh (sp_result st)"])
      fix k and st :: link_spans assume "k < 0 + pf_program_headers h" "manifest_fresh (sp_result st)"
      then show "outcome manifest_failed (\<lambda>st. manifest_fresh (sp_result st)) (link_ph_step file pre p h (ph_offset pre) k st)"
        using ok(3) h by (intro link_ph_step_outcome) (auto simp: ph_table_in_prefix_def)
    qed (simp add: init)
    show ?thesis
    proof (cases "pf_orbis_identity h")
      case False
      then show ?thesis using p True h(1) manifest_fail_failed [OF init(2)]
        by (simp add: InspectGuestLinkManifest_def Let_def pre_segs_def [symmetric])
    next
      case orbis: True
      have c: "\<not> (\<not> plan_valid (img_plan (pay_image p)) \<or> img_error (pay_image p) \<noteq> '''')" "\<not> \<not> pf_orbis_identity h"
        using True orbis by auto
      show ?thesis
        unfolding InspectGuestLinkManifest_def Let_def pre_segs_def [symmetric] p Option.bind.bind_lunit if_not_P [OF c(1)] h(1)
          if_not_P [OF c(2)] rd
        by (rule outcome_bind [OF headers]) (simp, erule link_dynamic_verdict)
    qed
  qed
  then show ?thesis using p by (simp add: pre_segs_def)
qed

section \<open>Properties\<close>

text \<open>C4: InspectGuestLinkManifest returns for every file, with or without records, and never reads outside the prefix, the
  dynamic table, the string, symbol or relocation tables.  It is valid exactly when it reports no error.  A valid
  manifest stays within its budgets; its names are short and printable; the imports are exactly the undefined global
  and weak symbols of the table, in order, and the three import counters add up to them; every relocation names an
  existing symbol and, when the width of its type is known, its whole target lies inside one load segment; and the
  collected records are complete (one per symbol, import, module, library and relocation).\<close>

theorem link_manifest_sound:
  "\<exists>p m. PlanGuestPayloadFile file = Some p \<and> InspectGuestLinkManifest file collect = Some m \<and>
     (if lm_valid m then lm_error m = '''' \<and> manifest_sound collect (plan_segments (img_plan (pay_image p))) m
      else lm_error m \<noteq> '''')"
  using InspectGuestLinkManifest_result [of "file" collect] by (auto simp: manifest_verdict_def manifest_failed_def)

end
