(* ===== verification/Guest_Import.thy ===== *)
theory Guest_Import
  imports Guest_Link "HOL-Library.Sublist"
begin

text \<open>
  The import resolver of \<^verbatim>\<open>src/src/core/uwp/guest_import_resolver.h\<close>: the base-64 library and module
  ids, the key of an import, and \<open>ResolveGuestImports\<close>, which matches the imports of a manifest against
  a registry of data exports.
\<close>

section \<open>Encoded ids\<close>

definition GuestIdAlphabet :: string where
  "GuestIdAlphabet = ''ABCDEFGHIJKLMNOPQRSTUVWXYZabcdefghijklmnopqrstuvwxyz0123456789+-''"

definition EncodeGuestId :: "u16 \<Rightarrow> string" where
  "EncodeGuestId n =
    (if n \<ge> 4096 then [GuestIdAlphabet ! (drop_bit 12 n AND 63)] else '''') @
    (if n \<ge> 64 then [GuestIdAlphabet ! (drop_bit 6 n AND 63)] else '''') @
    [GuestIdAlphabet ! (n AND 63)]"

text \<open>\<open>std::string_view::find\<close>: \<open>None\<close> is \<open>npos\<close>.\<close>

fun find_from :: "char \<Rightarrow> nat \<Rightarrow> string \<Rightarrow> nat option" where
  "find_from c i [] = None"
| "find_from c i (d # ds) = (if c = d then Some i else find_from c (Suc i) ds)"

definition find_char :: "char \<Rightarrow> string \<Rightarrow> nat \<Rightarrow> nat option" where
  "find_char c s pos = find_from c pos (drop pos s)"

fun decode_digits :: "string \<Rightarrow> u32 \<Rightarrow> u32 option" where
  "decode_digits [] value = Some value"
| "decode_digits (c # cs) value = (case find_char c GuestIdAlphabet 0 of
     None \<Rightarrow> None
   | Some digit \<Rightarrow> decode_digits cs ((value * 64 + digit) mod 4294967296))"

definition DecodeGuestId :: "string \<Rightarrow> u16 option" where
  "DecodeGuestId encoded =
    (if encoded = [] \<or> length encoded > 3 then None
     else (case decode_digits encoded 0 of
         None \<Rightarrow> None
       | Some value \<Rightarrow> if value > 65535 \<or> EncodeGuestId value \<noteq> encoded then None else Some value))"

lemma length_alphabet: "length GuestIdAlphabet = 64"
  by (simp add: GuestIdAlphabet_def)

lemma distinct_alphabet: "distinct GuestIdAlphabet"
  by (simp add: GuestIdAlphabet_def)

lemma find_from_nth:
  assumes "distinct s" "i < length s"
  shows "find_from (s ! i) k s = Some (k + i)"
  using assms
proof (induction s arbitrary: i k)
  case (Cons d ds)
  then show ?case by (cases i) auto
qed simp

lemma find_alphabet: "i < 64 \<Longrightarrow> find_char (GuestIdAlphabet ! i) GuestIdAlphabet 0 = Some i"
  using find_from_nth [OF distinct_alphabet, of i 0] by (simp add: find_char_def length_alphabet)

lemma and_63: "(x::nat) AND 63 = x mod 64"
  using take_bit_eq_mask [of 6 x] by (simp add: mask_eq_exp_minus_1 take_bit_eq_mod)

lemma decode_encode:
  assumes "n \<le> 65535"
  shows "decode_digits (EncodeGuestId n) 0 = Some n"
proof -
  define a b c where "a = n div 4096 mod 64" "b = n div 64 mod 64" "c = n mod 64"
  have lt: "a < 64" "b < 64" "c < 64" by (simp_all add: a_b_c_def)
  have bits: "drop_bit 12 n AND 63 = a" "drop_bit 6 n AND 63 = b" "n AND 63 = c"
    by (simp_all add: and_63 drop_bit_eq_div a_b_c_def)
  have digits: "n div 64 = 64 * (n div 4096) + b" "n = 64 * (n div 64) + c" "n div 4096 < 64"
    using mult_div_mod_eq [of 64 "n div 64"] assms by (simp_all add: a_b_c_def div_mult2_eq [symmetric] less_mult_imp_div_less)
  then have a: "a = n div 4096" by (simp add: a_b_c_def)
  note f = find_alphabet [OF lt(1)] find_alphabet [OF lt(2)] find_alphabet [OF lt(3)]
  consider "n \<ge> 4096" | "n < 4096" "n \<ge> 64" | "n < 64" by linarith
  then show ?thesis
  proof cases
    case 1
    then have "decode_digits (EncodeGuestId n) 0 = Some (((a * 64 + b) * 64 + c))"
      using lt by (simp add: EncodeGuestId_def bits f)
    then show ?thesis using digits a by simp
  next
    case 2
    then have "decode_digits (EncodeGuestId n) 0 = Some (b * 64 + c)" using lt by (simp add: EncodeGuestId_def bits f)
    then show ?thesis using digits 2 by simp
  next
    case 3
    then have "decode_digits (EncodeGuestId n) 0 = Some c" using lt by (simp add: EncodeGuestId_def bits f)
    then show ?thesis using digits 3 by simp
  qed
qed

lemma length_EncodeGuestId: "length (EncodeGuestId n) \<le> 3" "EncodeGuestId n \<noteq> []"
  by (simp_all add: EncodeGuestId_def)

lemma DecodeGuestId_encode: "DecodeGuestId s = Some n \<Longrightarrow> n \<le> 65535 \<and> s = EncodeGuestId n"
  by (auto simp: DecodeGuestId_def split: if_splits option.splits)

text \<open>C37: The encoded ids are canonical: decoding accepts a text exactly when it is the encoding of a 16-bit id, and then
  gives that id back, so every id has one spelling and padded or overlong spellings are refused.\<close>

theorem guest_id_roundtrip:
  "DecodeGuestId s = Some n \<longleftrightarrow> n \<le> 65535 \<and> s = EncodeGuestId n"
proof
  assume "DecodeGuestId s = Some n"
  then show "n \<le> 65535 \<and> s = EncodeGuestId n" by (rule DecodeGuestId_encode)
next
  assume "n \<le> 65535 \<and> s = EncodeGuestId n"
  then show "DecodeGuestId s = Some n"
    using decode_encode [of n] length_EncodeGuestId [of n] by (simp add: DecodeGuestId_def)
qed

section \<open>Keys, exports and the plan\<close>

record GuestImportKey =
  ik_nid :: string
  ik_library :: string
  ik_module :: string
  ik_library_version :: u16
  ik_module_major :: u8
  ik_module_minor :: u8
  ik_type :: u8

record GuestDataExport =
  de_key :: GuestImportKey
  de_numeric_address :: u64

record GuestImportBinding =
  ib_symbol :: u32
  ib_library_id :: u16
  ib_module_id :: u16
  ib_key :: GuestImportKey
  ib_numeric_address :: u64

record GuestImportPlan =
  ip_valid :: bool
  ip_error :: string
  ip_exports :: u64
  ip_matched :: u64
  ip_unresolved :: u64
  ip_bindings :: "GuestImportBinding list"
  ip_addresses_by_symbol :: "u64 list"

definition import_init :: GuestImportPlan where
  "import_init = \<lparr>ip_valid = False, ip_error = '''', ip_exports = 0, ip_matched = 0, ip_unresolved = 0, ip_bindings = [],
     ip_addresses_by_symbol = []\<rparr>"

definition import_fail :: "GuestImportPlan \<Rightarrow> string \<Rightarrow> GuestImportPlan" where
  "import_fail r e = r\<lparr>ip_error := e, ip_matched := 0, ip_unresolved := 0, ip_bindings := [], ip_addresses_by_symbol := []\<rparr>"

definition ValidGuestKeyPart :: "string \<Rightarrow> bool" where
  "ValidGuestKeyPart t \<longleftrightarrow> t \<noteq> [] \<and> length t \<le> 256 \<and>
     list_all (\<lambda>c. (of_char c :: nat) \<ge> 33 \<and> (of_char c :: nat) \<le> 126 \<and> c \<noteq> CHR ''#'' \<and> c \<noteq> CHR ''|'' \<and>
       c \<noteq> CHR '';'' \<and> c \<noteq> CHR '','') t"

text \<open>A \<open>std::map\<close> that is only filled by \<open>emplace\<close>: an association list in insertion order; the flag of
  \<open>emplace\<close> is \<open>None\<close> when the key is taken.\<close>

definition emplace :: "'k \<Rightarrow> 'v \<Rightarrow> ('k \<times> 'v) list \<Rightarrow> ('k \<times> 'v) list option" where
  "emplace k v m = (if map_of m k \<noteq> None then None else Some (m @ [(k, v)]))"

definition at_index :: "'a list \<Rightarrow> nat \<Rightarrow> 'a option" where
  "at_index xs i = (if i < length xs then Some (xs ! i) else None)"

section \<open>ResolveGuestImports\<close>

definition registry_step :: "GuestImportPlan \<Rightarrow> GuestDataExport \<Rightarrow> (GuestImportKey \<times> u64) list
    \<Rightarrow> (GuestImportPlan + (GuestImportKey \<times> u64) list) option" where
  "registry_step result entry registry =
    (if \<not> ValidGuestKeyPart (ik_nid (de_key entry)) \<or> \<not> ValidGuestKeyPart (ik_library (de_key entry)) \<or>
        \<not> ValidGuestKeyPart (ik_module (de_key entry)) \<or> ik_type (de_key entry) > 2 \<or> de_numeric_address entry = 0
     then Some (Inl (import_fail result ''invalid_data_export''))
     else (case emplace (de_key entry) (de_numeric_address entry) registry of
         None \<Rightarrow> Some (Inl (import_fail result ''duplicate_export_key''))
       | Some registry \<Rightarrow> Some (Inr registry)))"

text \<open>The same loop for the module and the library records, with the error texts of each.\<close>

definition dependency_step :: "GuestImportPlan \<Rightarrow> string \<Rightarrow> string \<Rightarrow> GuestLinkDependency \<Rightarrow> (u16 \<times> GuestLinkDependency) list
    \<Rightarrow> (GuestImportPlan + (u16 \<times> GuestLinkDependency) list) option" where
  "dependency_step result bad_name duplicate entry deps =
    (if \<not> ValidGuestKeyPart (ld_name entry) then Some (Inl (import_fail result bad_name))
     else (case emplace (drop_bit 48 (ld_packed entry) mod 65536) entry deps of
         None \<Rightarrow> Some (Inl (import_fail result duplicate))
       | Some deps \<Rightarrow> Some (Inr deps)))"

text \<open>The name of an import cut at its two \<open>#\<close>.\<close>

definition split_import_name :: "string \<Rightarrow> (string \<times> string \<times> string) option" where
  "split_import_name name = (case find_char (CHR ''#'') name 0 of
     None \<Rightarrow> None
   | Some first \<Rightarrow> (case find_char (CHR ''#'') name (first + 1) of
       None \<Rightarrow> None
     | Some second \<Rightarrow>
       if find_char (CHR ''#'') name (second + 1) \<noteq> None \<or> \<not> ValidGuestKeyPart (take first name) then None
       else Some (take first name, take (second - first - 1) (drop (first + 1) name), drop (second + 1) name)))"

definition import_key :: "string \<Rightarrow> GuestLinkDependency \<Rightarrow> GuestLinkDependency \<Rightarrow> u8 \<Rightarrow> GuestImportKey" where
  "import_key nid library module type = \<lparr>ik_nid = nid, ik_library = ld_name library, ik_module = ld_name module,
     ik_library_version = drop_bit 32 (ld_packed library) mod 65536, ik_module_major = drop_bit 40 (ld_packed module) mod 256,
     ik_module_minor = drop_bit 32 (ld_packed module) mod 256, ik_type = type\<rparr>"

definition bind_import :: "(GuestImportKey \<times> u64) list \<Rightarrow> u32 \<Rightarrow> u16 \<Rightarrow> u16 \<Rightarrow> GuestImportKey \<Rightarrow> GuestImportPlan \<Rightarrow> GuestImportPlan" where
  "bind_import registry symbol library_id module_id key result =
    (let binding = \<lparr>ib_symbol = symbol, ib_library_id = library_id, ib_module_id = module_id, ib_key = key, ib_numeric_address = 0\<rparr>;
         (result, binding) = (case map_of registry key of
             None \<Rightarrow> (result\<lparr>ip_unresolved := ip_unresolved result + 1\<rparr>, binding)
           | Some address \<Rightarrow>
             (result\<lparr>ip_addresses_by_symbol := (ip_addresses_by_symbol result)[symbol := address],
                ip_matched := ip_matched result + 1\<rparr>, binding\<lparr>ib_numeric_address := address\<rparr>))
     in result\<lparr>ip_bindings := ip_bindings result @ [binding]\<rparr>)"

definition resolve_step :: "GuestLinkManifest \<Rightarrow> (GuestImportKey \<times> u64) list \<Rightarrow> (u16 \<times> GuestLinkDependency) list
    \<Rightarrow> (u16 \<times> GuestLinkDependency) list \<Rightarrow> nat \<Rightarrow> GuestImportPlan \<times> bool list
    \<Rightarrow> (GuestImportPlan + GuestImportPlan \<times> bool list) option" where
  "resolve_step manifest registry libraries modules i st = (case st of (result, seen) \<Rightarrow> do {
     symbol \<leftarrow> at_index (lm_import_symbol_indices manifest) i;
     if symbol \<ge> lm_symbols manifest then Some (Inl (import_fail result ''invalid_or_duplicate_import_symbol''))
     else do {
       was_seen \<leftarrow> at_index seen symbol;
       if was_seen then Some (Inl (import_fail result ''invalid_or_duplicate_import_symbol''))
       else do {
         let seen = seen[symbol := True];
         info \<leftarrow> at_index (lm_symbol_records manifest) symbol;
         if ls_section info \<noteq> 0 \<or> (ls_binding info \<noteq> 1 \<and> ls_binding info \<noteq> 2)
         then Some (Inl (import_fail result ''invalid_import_symbol_binding''))
         else do {
           name \<leftarrow> at_index (lm_imports manifest) i;
           case split_import_name name of
             None \<Rightarrow> Some (Inl (import_fail result ''invalid_nid_namespace_shape''))
           | Some (nid, library_text, module_text) \<Rightarrow>
             (case (DecodeGuestId library_text, DecodeGuestId module_text) of
                (Some library_id, Some module_id) \<Rightarrow>
                  (case map_of libraries library_id of
                     None \<Rightarrow> Some (Inl (import_fail result ''unknown_import_library_id''))
                   | Some library \<Rightarrow>
                     (case map_of modules module_id of
                        None \<Rightarrow> Some (Inl (import_fail result ''unknown_import_module_id''))
                      | Some module \<Rightarrow>
                        Some (Inr (bind_import registry symbol library_id module_id
                          (import_key nid library module (ls_type info)) result, seen))))
              | _ \<Rightarrow> Some (Inl (import_fail result ''invalid_encoded_import_id'')))
         }
       }
     }
   })"

definition manifest_records_bad :: "GuestLinkManifest \<Rightarrow> bool" where
  "manifest_records_bad manifest \<longleftrightarrow> \<not> lm_valid manifest \<or> lm_symbols manifest > 131072 \<or>
     length (lm_symbol_records manifest) \<noteq> lm_symbols manifest \<or> length (lm_imports manifest) > 8192 \<or>
     length (lm_import_symbol_indices manifest) \<noteq> length (lm_imports manifest) \<or>
     length (lm_module_records manifest) \<noteq> length (lm_modules manifest) \<or>
     length (lm_library_records manifest) \<noteq> length (lm_libraries manifest) \<or>
     length (lm_module_records manifest) + length (lm_library_records manifest) > 512"

definition ResolveGuestImports :: "GuestLinkManifest \<Rightarrow> GuestDataExport list \<Rightarrow> GuestImportPlan option" where
  "ResolveGuestImports manifest exports =
    (if manifest_records_bad manifest then Some (import_fail import_init ''manifest_records_unavailable_or_budget'')
     else if length exports > 4096 then Some (import_fail import_init ''export_registry_budget'')
     else do {
       x \<leftarrow> for_each (registry_step import_init) exports [];
       case x of Inl r \<Rightarrow> Some r
       | Inr registry \<Rightarrow> do {
           let result = import_init\<lparr>ip_exports := length registry\<rparr>;
           y \<leftarrow> for_each (dependency_step result ''invalid_module_name'' ''duplicate_module_id'') (lm_module_records manifest) [];
           case y of Inl r \<Rightarrow> Some r
           | Inr modules \<Rightarrow> do {
               z \<leftarrow> for_each (dependency_step result ''invalid_library_name'' ''duplicate_library_id'') (lm_library_records manifest) [];
               case z of Inl r \<Rightarrow> Some r
               | Inr libraries \<Rightarrow> do {
                   let result = result\<lparr>ip_addresses_by_symbol := replicate (lm_symbols manifest) 0\<rparr>;
                   w \<leftarrow> for_loop (resolve_step manifest registry libraries modules) 0 (length (lm_imports manifest))
                         (result, replicate (lm_symbols manifest) False);
                   case w of Inl r \<Rightarrow> Some r
                   | Inr (result, _) \<Rightarrow> Some (result\<lparr>ip_valid := True\<rparr>)
                 }
             }
         }
     })"

section \<open>The specification of a resolution\<close>

definition dep_id :: "GuestLinkDependency \<Rightarrow> u16" where
  "dep_id d = drop_bit 48 (ld_packed d) mod 65536"

definition export_registry :: "GuestDataExport list \<Rightarrow> (GuestImportKey \<times> u64) list" where
  "export_registry exports = map (\<lambda>e. (de_key e, de_numeric_address e)) exports"

text \<open>Import \<open>i\<close> of the manifest is bound by \<open>b\<close>: the name spells the NID and the ids of a declared library and module,
  the key takes names and versions from these, and the address is the registered one, 0 when there is none.\<close>

definition binding_exact :: "GuestLinkManifest \<Rightarrow> GuestDataExport list \<Rightarrow> nat \<Rightarrow> GuestImportBinding \<Rightarrow> bool" where
  "binding_exact manifest exports i b \<longleftrightarrow> (\<exists>library \<in> set (lm_library_records manifest). \<exists>module \<in> set (lm_module_records manifest).
     ib_symbol b = lm_import_symbol_indices manifest ! i \<and> ib_symbol b < lm_symbols manifest \<and>
     undefined_symbol (lm_symbol_records manifest ! ib_symbol b) \<and>
     ib_library_id b = dep_id library \<and> ib_module_id b = dep_id module \<and>
     lm_imports manifest ! i = ik_nid (ib_key b) @ ''#'' @ EncodeGuestId (ib_library_id b) @ ''#'' @ EncodeGuestId (ib_module_id b) \<and>
     ib_key b = import_key (ik_nid (ib_key b)) library module (ls_type (lm_symbol_records manifest ! ib_symbol b)) \<and>
     ib_numeric_address b = (case map_of (export_registry exports) (ib_key b) of None \<Rightarrow> 0 | Some a \<Rightarrow> a))"

definition addresses_exact :: "nat \<Rightarrow> GuestImportBinding list \<Rightarrow> u64 list \<Rightarrow> bool" where
  "addresses_exact n bs as \<longleftrightarrow> length as = n \<and> distinct (map ib_symbol bs) \<and>
     (\<forall>b \<in> set bs. ib_symbol b < n \<and> as ! ib_symbol b = ib_numeric_address b) \<and>
     (\<forall>k < n. k \<notin> ib_symbol ` set bs \<longrightarrow> as ! k = 0)"

definition bindings_exact :: "GuestLinkManifest \<Rightarrow> GuestDataExport list \<Rightarrow> nat \<Rightarrow> GuestImportPlan \<Rightarrow> bool" where
  "bindings_exact manifest exports n p \<longleftrightarrow> length (ip_bindings p) = n \<and>
     (\<forall>i < n. binding_exact manifest exports i (ip_bindings p ! i)) \<and>
     addresses_exact (lm_symbols manifest) (ip_bindings p) (ip_addresses_by_symbol p) \<and>
     ip_matched p = length (filter (\<lambda>b. ib_numeric_address b \<noteq> 0) (ip_bindings p)) \<and>
     ip_unresolved p = length (filter (\<lambda>b. ib_numeric_address b = 0) (ip_bindings p))"

definition import_failed :: "GuestImportPlan \<Rightarrow> bool" where
  "import_failed p \<longleftrightarrow> \<not> ip_valid p \<and> ip_error p \<noteq> '''' \<and> ip_matched p = 0 \<and> ip_unresolved p = 0 \<and> ip_bindings p = [] \<and>
     ip_addresses_by_symbol p = []"

section \<open>Proofs\<close>

lemma find_from_Some:
  "find_from c i s = Some j \<Longrightarrow> i \<le> j \<and> j - i < length s \<and> s ! (j - i) = c \<and> c \<notin> set (take (j - i) s)"
proof (induction s arbitrary: i)
  case (Cons d ds)
  show ?case
  proof (cases "c = d")
    case False
    then have "Suc i \<le> j \<and> j - Suc i < length ds \<and> ds ! (j - Suc i) = c \<and> c \<notin> set (take (j - Suc i) ds)"
      using Cons.IH [of "Suc i"] Cons.prems by simp
    moreover from this have "j - i = Suc (j - Suc i)" by linarith
    ultimately show ?thesis using False by simp
  qed (use Cons.prems in simp)
qed simp

lemma find_from_None: "find_from c i s = None \<longleftrightarrow> c \<notin> set s"
  by (induction s arbitrary: i) auto

lemma split_import_name_Some:
  assumes "split_import_name name = Some (a, b, c)"
  shows "name = a @ ''#'' @ b @ ''#'' @ c" "ValidGuestKeyPart a"
proof -
  obtain i j where i: "find_char (CHR ''#'') name 0 = Some i" and j: "find_char (CHR ''#'') name (i + 1) = Some j"
    and abc: "a = take i name" "b = take (j - i - 1) (drop (i + 1) name)" "c = drop (j + 1) name"
    and v: "ValidGuestKeyPart a"
    using assms by (auto simp: split_import_name_def split: option.splits if_splits)
  let ?r = "drop (i + 1) name"
  have "i < length name" "name ! i = CHR ''#''" using find_from_Some [OF i [unfolded find_char_def]] by auto
  then have e1: "name = a @ ''#'' @ ?r" using id_take_nth_drop [of i name] abc(1) by simp
  note f = find_from_Some [OF j [unfolded find_char_def]]
  have r: "i + 1 \<le> j" "j - (i + 1) < length ?r" "?r ! (j - (i + 1)) = CHR ''#''" using f by auto
  have "drop (Suc (j - (i + 1))) ?r = c" using r(1) by (simp add: abc(3) Suc_diff_le)
  then have "?r = b @ ''#'' @ c" using id_take_nth_drop [OF r(2)] r(3) abc(2) by simp
  then show "name = a @ ''#'' @ b @ ''#'' @ c" using e1 by simp
  show "ValidGuestKeyPart a" by (rule v)
qed

lemma map_of_export_registry_nonzero:
  "\<forall>e \<in> set exports. de_numeric_address e \<noteq> 0 \<Longrightarrow> map_of (export_registry exports) k = Some a \<Longrightarrow> a \<noteq> 0"
  by (auto simp: export_registry_def dest!: map_of_SomeD)

lemma import_fail_failed: "\<not> ip_valid r \<Longrightarrow> e \<noteq> '''' \<Longrightarrow> import_failed (import_fail r e)"
  by (simp add: import_failed_def import_fail_def)

lemma bind_import_fields:
  assumes "addr = (case map_of registry key of None \<Rightarrow> 0 | Some a \<Rightarrow> a)" "\<forall>a. map_of registry key = Some a \<longrightarrow> a \<noteq> 0"
    "p' = bind_import registry symbol l m key p"
  shows "ip_bindings p' = ip_bindings p @ [\<lparr>ib_symbol = symbol, ib_library_id = l, ib_module_id = m, ib_key = key, ib_numeric_address = addr\<rparr>]"
    "ip_addresses_by_symbol p' = (if addr = 0 then ip_addresses_by_symbol p else (ip_addresses_by_symbol p)[symbol := addr])"
    "ip_matched p' = ip_matched p + (if addr = 0 then 0 else 1)" "ip_unresolved p' = ip_unresolved p + (if addr = 0 then 1 else 0)"
    "ip_valid p' = ip_valid p" "ip_error p' = ip_error p" "ip_exports p' = ip_exports p"
  using assms by (auto simp: bind_import_def Let_def split: option.splits)

text \<open>A new binding for a symbol that has none yet.\<close>

lemma addresses_exact_snoc:
  assumes "addresses_exact n bs as" "ib_symbol b < n" "ib_symbol b \<notin> ib_symbol ` set bs"
  shows "addresses_exact n (bs @ [b])
    (if ib_numeric_address b = 0 then as else as[ib_symbol b := ib_numeric_address b])"
  using assms by (auto simp: addresses_exact_def nth_list_update)

definition dep_table :: "GuestLinkDependency list \<Rightarrow> (u16 \<times> GuestLinkDependency) list" where
  "dep_table ds = map (\<lambda>d. (dep_id d, d)) ds"

lemma map_of_dep_table: "map_of (dep_table ds) k = Some d \<Longrightarrow> d \<in> set ds \<and> dep_id d = k"
  by (auto simp: dep_table_def dest!: map_of_SomeD)

definition resolve_inv :: "GuestLinkManifest \<Rightarrow> GuestDataExport list \<Rightarrow> nat \<Rightarrow> GuestImportPlan \<times> bool list \<Rightarrow> bool" where
  "resolve_inv manifest exports i st \<longleftrightarrow> (case st of (p, seen) \<Rightarrow>
     \<not> ip_valid p \<and> ip_error p = '''' \<and> ip_exports p = length exports \<and> bindings_exact manifest exports i p \<and>
     length seen = lm_symbols manifest \<and> (\<forall>k < lm_symbols manifest. seen ! k \<longleftrightarrow> k \<in> ib_symbol ` set (ip_bindings p)))"

lemma bind_import_exact:
  assumes inv: "resolve_inv manifest exports i (p, seen)" and nz: "\<forall>e \<in> set exports. de_numeric_address e \<noteq> 0"
    and sym: "symbol = lm_import_symbol_indices manifest ! i" "symbol < lm_symbols manifest" "\<not> seen ! symbol"
      "undefined_symbol (lm_symbol_records manifest ! symbol)"
    and deps: "library \<in> set (lm_library_records manifest)" "module \<in> set (lm_module_records manifest)"
    and name: "lm_imports manifest ! i = nid @ ''#'' @ EncodeGuestId (dep_id library) @ ''#'' @ EncodeGuestId (dep_id module)"
  shows "resolve_inv manifest exports (Suc i) (bind_import (export_registry exports) symbol (dep_id library) (dep_id module)
    (import_key nid library module (ls_type (lm_symbol_records manifest ! symbol))) p, seen[symbol := True])"
proof -
  define key addr where "key = import_key nid library module (ls_type (lm_symbol_records manifest ! symbol))"
    "addr = (case map_of (export_registry exports) key of None \<Rightarrow> 0 | Some a \<Rightarrow> a)"
  define p' b where "p' = bind_import (export_registry exports) symbol (dep_id library) (dep_id module) key p"
    "b = \<lparr>ib_symbol = symbol, ib_library_id = dep_id library, ib_module_id = dep_id module, ib_key = key, ib_numeric_address = addr\<rparr>"
  have "\<forall>a. map_of (export_registry exports) key = Some a \<longrightarrow> a \<noteq> 0" using nz map_of_export_registry_nonzero by blast
  note f = bind_import_fields [OF key_addr_def(2) this p'_b_def(1), folded p'_b_def(2)]
  have ex: "bindings_exact manifest exports i p" and seen: "length seen = lm_symbols manifest"
    "\<forall>k < lm_symbols manifest. seen ! k \<longleftrightarrow> k \<in> ib_symbol ` set (ip_bindings p)"
    using inv by (auto simp: resolve_inv_def)
  have b: "binding_exact manifest exports i b"
    using sym deps name by (auto simp: binding_exact_def p'_b_def(2) key_addr_def import_key_def)
  have bsel: "ib_symbol b = symbol" "ib_numeric_address b = addr" by (simp_all add: p'_b_def(2))
  have new: "symbol \<notin> ib_symbol ` set (ip_bindings p)" using seen(2) sym(2,3) by blast
  have adr: "addresses_exact (lm_symbols manifest) (ip_bindings p') (ip_addresses_by_symbol p')"
    using addresses_exact_snoc [of "lm_symbols manifest" "ip_bindings p" "ip_addresses_by_symbol p" b] ex new sym(2)
    unfolding f bsel by (simp add: bindings_exact_def)
  have "binding_exact manifest exports k (ip_bindings p' ! k)" if "k < Suc i" for k
    using that ex b by (cases "k = i") (auto simp: f bindings_exact_def nth_append)
  then have "bindings_exact manifest exports (Suc i) p'"
    using ex adr by (auto simp: bindings_exact_def f bsel)
  moreover have "\<forall>k < lm_symbols manifest. seen[symbol := True] ! k \<longleftrightarrow> k \<in> ib_symbol ` set (ip_bindings p')"
    using seen sym(2) by (auto simp: f bsel nth_list_update)
  ultimately show ?thesis
    using inv seen(1) by (simp add: resolve_inv_def f p'_b_def(1) [symmetric] key_addr_def(1) [symmetric])
qed

lemma resolve_step_outcome:
  assumes good: "\<not> manifest_records_bad manifest" and nz: "\<forall>e \<in> set exports. de_numeric_address e \<noteq> 0"
    and i: "i < length (lm_imports manifest)" and inv: "resolve_inv manifest exports i st"
  shows "outcome import_failed (resolve_inv manifest exports (Suc i))
    (resolve_step manifest (export_registry exports) (dep_table (lm_library_records manifest)) (dep_table (lm_module_records manifest)) i st)"
proof -
  obtain p seen where st: "st = (p, seen)" by (cases st)
  let ?s = "lm_import_symbol_indices manifest ! i"
  have nv: "\<not> ip_valid p" and len: "length seen = lm_symbols manifest" using inv by (auto simp: st resolve_inv_def)
  have at: "at_index (lm_import_symbol_indices manifest) i = Some ?s" "at_index (lm_imports manifest) i = Some (lm_imports manifest ! i)"
    using good i by (auto simp: manifest_records_bad_def at_index_def)
  have at2: "at_index seen ?s = Some (seen ! ?s)" "at_index (lm_symbol_records manifest) ?s = Some (lm_symbol_records manifest ! ?s)"
    if "\<not> ?s \<ge> lm_symbols manifest" using that good len by (auto simp: manifest_records_bad_def at_index_def)
  have bound: "resolve_inv manifest exports (Suc i) (bind_import (export_registry exports) ?s lid mid
      (import_key nid library module (ls_type (lm_symbol_records manifest ! ?s))) p, seen[?s := True])"
    if "\<not> ?s \<ge> lm_symbols manifest" "\<not> seen ! ?s" "\<not> (ls_section (lm_symbol_records manifest ! ?s) \<noteq> 0 \<or>
        (ls_binding (lm_symbol_records manifest ! ?s) \<noteq> 1 \<and> ls_binding (lm_symbol_records manifest ! ?s) \<noteq> 2))"
      "split_import_name (lm_imports manifest ! i) = Some (nid, lt, mt)" "DecodeGuestId lt = Some lid" "DecodeGuestId mt = Some mid"
      "map_of (dep_table (lm_library_records manifest)) lid = Some library"
      "map_of (dep_table (lm_module_records manifest)) mid = Some module" for nid lt mt lid mid library module
  proof -
    have "lt = EncodeGuestId lid" "mt = EncodeGuestId mid" using that(5,6) DecodeGuestId_encode by blast+
    moreover have "library \<in> set (lm_library_records manifest)" "dep_id library = lid" "module \<in> set (lm_module_records manifest)"
      "dep_id module = mid" using that(7,8) map_of_dep_table by blast+
    ultimately show ?thesis
      using bind_import_exact [OF inv [unfolded st] nz refl _ that(2), of library module nid] that split_import_name_Some(1) [OF that(4)]
      by (auto simp: undefined_symbol_def)
  qed
  show ?thesis
    unfolding resolve_step_def st prod.case Let_def at Option.bind.bind_lunit
    using at2 bound import_fail_failed [OF nv] by (auto split: option.split)
qed

definition exports_ok :: "GuestDataExport list \<Rightarrow> bool" where
  "exports_ok exports \<longleftrightarrow> distinct (map de_key exports) \<and> (\<forall>e \<in> set exports. de_numeric_address e \<noteq> 0)"

lemma registry_loop:
  "outcome import_failed (\<lambda>reg. reg = export_registry exports \<and> exports_ok exports)
     (for_each (registry_step import_init) exports [])"
proof (rule for_each_rule [where I = "\<lambda>es reg. reg = export_registry es \<and> exports_ok es"])
  show "[] = export_registry [] \<and> exports_ok []" by (simp add: export_registry_def exports_ok_def)
next
  fix pre e reg assume "reg = export_registry pre \<and> exports_ok pre"
  moreover have "map_of (export_registry es) k = None \<longleftrightarrow> k \<notin> de_key ` set es" for es k
    by (auto simp: export_registry_def map_of_eq_None_iff image_image)
  ultimately show "outcome import_failed (\<lambda>reg. reg = export_registry (pre @ [e]) \<and> exports_ok (pre @ [e])) (registry_step import_init e reg)"
    by (auto simp: registry_step_def emplace_def exports_ok_def import_fail_failed import_init_def export_registry_def
        split: if_splits option.split)
qed

lemma dependency_loop:
  assumes "\<not> ip_valid result" "bad \<noteq> ''''" "dup \<noteq> ''''"
  shows "outcome import_failed (\<lambda>t. t = dep_table ds) (for_each (dependency_step result bad dup) ds [])"
proof (rule for_each_rule [where I = "\<lambda>ds t. t = dep_table ds"])
  fix pre d t assume "t = dep_table pre"
  then show "outcome import_failed (\<lambda>t. t = dep_table (pre @ [d])) (dependency_step result bad dup d t)"
    using assms by (auto simp: dependency_step_def emplace_def import_fail_failed dep_table_def dep_id_def split: option.split)
qed (simp add: dep_table_def)

lemma resolve_start:
  "resolve_inv manifest exports 0 (import_init\<lparr>ip_exports := length (export_registry exports),
     ip_addresses_by_symbol := replicate (lm_symbols manifest) 0\<rparr>, replicate (lm_symbols manifest) False)"
  by (simp add: resolve_inv_def import_init_def export_registry_def bindings_exact_def addresses_exact_def)

definition resolution :: "GuestLinkManifest \<Rightarrow> GuestDataExport list \<Rightarrow> GuestImportPlan option \<Rightarrow> bool" where
  "resolution manifest exports x \<longleftrightarrow> (\<exists>p. x = Some p \<and>
     (import_failed p \<or> ip_valid p \<and> ip_error p = '''' \<and> ip_exports p = length exports \<and> exports_ok exports \<and>
        bindings_exact manifest exports (length (lm_imports manifest)) p))"

lemma resolution_failed: "import_failed p \<Longrightarrow> resolution manifest exports (Some p)"
  by (simp add: resolution_def)

lemma resolve_loop_resolution:
  assumes good: "\<not> manifest_records_bad manifest" and ok: "exports_ok exports"
  shows "resolution manifest exports (do {
     w \<leftarrow> for_loop (resolve_step manifest (export_registry exports) (dep_table (lm_library_records manifest))
           (dep_table (lm_module_records manifest))) 0 (length (lm_imports manifest))
           (import_init\<lparr>ip_exports := length (export_registry exports), ip_addresses_by_symbol := replicate (lm_symbols manifest) 0\<rparr>,
            replicate (lm_symbols manifest) False);
     case w of Inl r \<Rightarrow> Some r | Inr (result, _) \<Rightarrow> Some (result\<lparr>ip_valid := True\<rparr>) })"
proof (rule outcome_bind)
  show "outcome import_failed (resolve_inv manifest exports (0 + length (lm_imports manifest)))
     (for_loop (resolve_step manifest (export_registry exports) (dep_table (lm_library_records manifest))
           (dep_table (lm_module_records manifest))) 0 (length (lm_imports manifest))
           (import_init\<lparr>ip_exports := length (export_registry exports), ip_addresses_by_symbol := replicate (lm_symbols manifest) 0\<rparr>,
            replicate (lm_symbols manifest) False))"
    using good ok by (intro for_loop_rule resolve_start resolve_step_outcome) (auto simp: exports_ok_def)
next
  fix s assume "resolve_inv manifest exports (0 + length (lm_imports manifest)) s"
  then show "resolution manifest exports (case s of (result, _) \<Rightarrow> Some (result\<lparr>ip_valid := True\<rparr>))"
    using ok by (cases s) (simp add: resolve_inv_def resolution_def bindings_exact_def)
qed (rule resolution_failed)

lemma ResolveGuestImports_result: "resolution manifest exports (ResolveGuestImports manifest exports)"
proof (cases "manifest_records_bad manifest \<or> length exports > 4096")
  case True
  then show ?thesis
    by (auto simp: ResolveGuestImports_def intro!: resolution_failed import_fail_failed) (simp_all add: import_init_def)
next
  case False
  then have c: "\<not> manifest_records_bad manifest" "\<not> length exports > 4096" by auto
  have nv: "\<not> ip_valid (import_init\<lparr>ip_exports := n\<rparr>)" for n by (simp add: import_init_def)
  show ?thesis
    unfolding ResolveGuestImports_def if_not_P [OF c(1)] if_not_P [OF c(2)] Let_def
  proof (rule outcome_bind [OF registry_loop], erule resolution_failed, elim conjE, hypsubst)
    assume ok: "exports_ok exports"
    show "resolution manifest exports (do {
        y \<leftarrow> for_each (dependency_step (import_init\<lparr>ip_exports := length (export_registry exports)\<rparr>) ''invalid_module_name''
              ''duplicate_module_id'') (lm_module_records manifest) [];
        case y of Inl r \<Rightarrow> Some r
        | Inr modules \<Rightarrow> do {
            z \<leftarrow> for_each (dependency_step (import_init\<lparr>ip_exports := length (export_registry exports)\<rparr>) ''invalid_library_name''
                  ''duplicate_library_id'') (lm_library_records manifest) [];
            case z of Inl r \<Rightarrow> Some r
            | Inr libraries \<Rightarrow> do {
                w \<leftarrow> for_loop (resolve_step manifest (export_registry exports) libraries modules) 0 (length (lm_imports manifest))
                      (import_init\<lparr>ip_exports := length (export_registry exports),
                         ip_addresses_by_symbol := replicate (lm_symbols manifest) 0\<rparr>, replicate (lm_symbols manifest) False);
                case w of Inl r \<Rightarrow> Some r | Inr (result, _) \<Rightarrow> Some (result\<lparr>ip_valid := True\<rparr>) } } })"
      by (rule outcome_bind [OF dependency_loop [OF nv]], simp, simp, erule resolution_failed, hypsubst,
          rule outcome_bind [OF dependency_loop [OF nv]], simp, simp, erule resolution_failed, hypsubst,
          rule resolve_loop_resolution [OF c(1) ok])
  qed
qed

text \<open>C5: ResolveGuestImports returns for every manifest and every export registry, without an access outside the symbol, import or
  record vectors.  A valid plan binds every import exactly once: the import's name spells its NID and the ids of a declared
  library and module, the key takes the names and versions from their records, the address is the one registered
  under exactly that key and 0 when there is none, the address table holds it at the import's symbol and 0
  at every other symbol, and the counters of matched and unresolved imports are exact.  Any failure leaves
  no binding and no address behind.\<close>

theorem resolve_imports_exact:
  "\<exists>p. ResolveGuestImports manifest exports = Some p \<and>
     (if ip_valid p then ip_error p = '''' \<and> ip_exports p = length exports \<and>
        bindings_exact manifest exports (length (lm_imports manifest)) p \<and>
        ip_matched p + ip_unresolved p = length (lm_imports manifest)
      else ip_error p \<noteq> '''' \<and> ip_bindings p = [] \<and> ip_addresses_by_symbol p = [] \<and> ip_matched p = 0)"
proof -
  have "length (filter (\<lambda>b. ib_numeric_address b \<noteq> 0) bs) + length (filter (\<lambda>b. ib_numeric_address b = 0) bs) = length bs" for bs :: "GuestImportBinding list"
    by (induction bs) auto
  then have count: "ip_matched p + ip_unresolved p = n" if "bindings_exact manifest exports n p" for p n
    using that by (simp add: bindings_exact_def)
  obtain p where "ResolveGuestImports manifest exports = Some p" "import_failed p \<or> ip_valid p \<and> ip_error p = '''' \<and>
      ip_exports p = length exports \<and> bindings_exact manifest exports (length (lm_imports manifest)) p"
    using ResolveGuestImports_result [of manifest exports] by (auto simp: resolution_def)
  then show ?thesis using count by (intro exI [of _ p]) (auto simp: import_failed_def)
qed

end
