(* ===== verification/Guest_Data_Link.thy ===== *)
theory Guest_Data_Link
  imports Guest_Import "HOL-Library.Multiset"
begin

text \<open>
  The data linker of \<^verbatim>\<open>src/src/core/uwp/guest_data_link.h\<close>: it applies the relocations of a staged image
  that need no resolver (relative, local symbol, registered data import), counts the others, and re-checks
  the written and the untouched bytes of the image before it reports a result.
\<close>

section \<open>Records\<close>

abbreviation GuestDiagnosticLoadBias :: u64 where
  "GuestDiagnosticLoadBias \<equiv> 0x100000000"

record GuestDataLink =
  dl_payload :: GuestPayload
  dl_manifest :: GuestLinkManifest
  dl_imports :: GuestImportPlan
  dl_valid :: bool
  dl_complete :: bool
  dl_writes_verified :: bool
  dl_untouched_verified :: bool
  dl_bias :: u64
  dl_relative_applied :: u64
  dl_local_applied :: u64
  dl_pending_imports :: u64
  dl_pending_bindings :: u64
  dl_pending_types :: u64
  dl_none :: u64
  dl_checksum_after :: u64
  dl_data_import_applied :: u64
  dl_error :: string

definition data_link_init :: "u64 \<Rightarrow> GuestPayload \<Rightarrow> GuestLinkManifest \<Rightarrow> GuestDataLink" where
  "data_link_init bias payload manifest = \<lparr>dl_payload = payload, dl_manifest = manifest, dl_imports = import_init, dl_valid = False,
     dl_complete = False, dl_writes_verified = False, dl_untouched_verified = False, dl_bias = bias, dl_relative_applied = 0,
     dl_local_applied = 0, dl_pending_imports = 0, dl_pending_bindings = 0, dl_pending_types = 0, dl_none = 0,
     dl_checksum_after = 0, dl_data_import_applied = 0, dl_error = ''''\<rparr>"

definition data_link_fail :: "GuestDataLink \<Rightarrow> string \<Rightarrow> GuestDataLink" where
  "data_link_fail r e = r\<lparr>dl_error := e, dl_valid := False, dl_complete := False\<rparr>"

definition AddGuestSigned :: "u64 \<Rightarrow> u64 \<Rightarrow> u64 option" where
  "AddGuestSigned base bits =
    (if drop_bit 63 bits \<noteq> 0 then
       let magnitude = add64 (UINT64_MAX - bits) 1 in if base < magnitude then None else Some (base - magnitude)
     else if base > UINT64_MAX - bits then None else Some (base + bits))"

fun data_mapped :: "GuestLoadSegment list \<Rightarrow> u64 \<Rightarrow> u64 \<Rightarrow> bool \<Rightarrow> bool" where
  "data_mapped [] address sz writable = False"
| "data_mapped (s # segments) address sz writable =
    (if address < seg_address s \<or> sub64 address (seg_address s) > seg_memory_size s \<or>
        sz > sub64 (seg_memory_size s) (sub64 address (seg_address s))
     then data_mapped segments address sz writable
     else \<not> writable \<or> (seg_flags s AND 1 = 0 \<and> (seg_flags s AND 2 \<noteq> 0 \<or> seg_type s = 0x61000010)))"

section \<open>Relocations\<close>

record Patch =
  pt_offset :: nat
  pt_value :: u64
  pt_original :: u64

text \<open>The variables of the loop over the relocations.\<close>

record link_state =
  ds_result :: GuestDataLink
  ds_patches :: "Patch list"
  ds_ranges :: "(u64 \<times> u64) list"
  ds_relative :: u64
  ds_local :: u64
  ds_import :: u64

text \<open>What one relocation of a supported type asks for.\<close>

datatype RelocationAction = ActFail string | PendImport | PendBinding | PendType
  | ApplyRelative u64 | ApplyLocal u64 | ApplyImport u64

definition relocation_action :: "GuestLoadSegment list \<Rightarrow> GuestLinkManifest \<Rightarrow> GuestImportPlan \<Rightarrow> u64 \<Rightarrow> GuestLinkRelocation
    \<Rightarrow> RelocationAction option" where
  "relocation_action segments manifest imports bias r =
    (if lr_type r = 8 then
       (case AddGuestSigned bias (lr_addend_bits r) of
          None \<Rightarrow> Some (ActFail ''relative_value_overflow'') | Some v \<Rightarrow> Some (ApplyRelative v))
     else if lr_type r = 1 \<or> lr_type r = 6 \<or> lr_type r = 7 then do {
       symbol \<leftarrow> at_index (lm_symbol_records manifest) (lr_symbol r);
       if ls_section symbol = 0 then do {
         address \<leftarrow> at_index (ip_addresses_by_symbol imports) (lr_symbol r);
         if address = 0 then Some PendImport
         else (case AddGuestSigned address (if lr_type r = 1 then lr_addend_bits r else 0) of
             None \<Rightarrow> Some (ActFail ''data_import_value_overflow'') | Some v \<Rightarrow> Some (ApplyImport v))
       }
       else if ls_binding symbol \<noteq> 0 \<or> ls_section symbol \<ge> 0xff00 \<or> ls_type symbol > 2 then Some PendBinding
       else if \<not> data_mapped segments (ls_address symbol) (max 1 (ls_size symbol)) False \<or> bias > UINT64_MAX - ls_address symbol
       then Some (ActFail ''local_symbol_outside_image_or_overflow'')
       else (case AddGuestSigned (add64 bias (ls_address symbol)) (if lr_type r = 1 then lr_addend_bits r else 0) of
           None \<Rightarrow> Some (ActFail ''local_symbol_value_overflow'') | Some v \<Rightarrow> Some (ApplyLocal v))
     }
     else Some PendType)"

definition supported_type :: "u32 \<Rightarrow> bool" where
  "supported_type type \<longleftrightarrow> type = 1 \<or> type = 2 \<or> type = 6 \<or> type = 7 \<or> type = 8 \<or> type = 10 \<or> type = 11 \<or> type = 16 \<or> type = 17 \<or>
     type = 18 \<or> type = 36"

definition add_patch :: "GuestLoadPlan \<Rightarrow> GuestLinkRelocation \<Rightarrow> u64 \<Rightarrow> link_state \<Rightarrow> (GuestDataLink + link_state)" where
  "add_patch plan r v st =
    (if \<not> data_mapped (plan_segments plan) (lr_address r) 8 True
     then Inl (data_link_fail (ds_result st) ''selected_write_not_allowed'')
     else Inr (st\<lparr>ds_patches := ds_patches st @
       [\<lparr>pt_offset = sub64 (lr_address r) (plan_base plan), pt_value = v, pt_original = 0\<rparr>]\<rparr>))"

definition relocation_step :: "GuestLoadPlan \<Rightarrow> GuestLinkManifest \<Rightarrow> GuestImportPlan \<Rightarrow> u64 \<Rightarrow> GuestLinkRelocation \<Rightarrow> link_state
    \<Rightarrow> (GuestDataLink + link_state) option" where
  "relocation_step plan manifest imports bias r st =
    (let result = ds_result st in
     if lr_type r = 0 then Some (Inr (st\<lparr>ds_result := result\<lparr>dl_none := dl_none result + 1\<rparr>\<rparr>))
     else if \<not> supported_type (lr_type r) then Some (Inl (data_link_fail result ''unsupported_relocation_type''))
     else do {
       let width = (if lr_type r = 36 then 16 else if lr_type r = 2 \<or> lr_type r = 10 \<or> lr_type r = 11 then 4 else 8);
       let st = st\<lparr>ds_ranges := ds_ranges st @ [(lr_address r, add64 (lr_address r) width)]\<rparr>;
       action \<leftarrow> relocation_action (plan_segments plan) manifest imports bias r;
       case action of
         ActFail e \<Rightarrow> Some (Inl (data_link_fail result e))
       | PendImport \<Rightarrow> Some (Inr (st\<lparr>ds_result := result\<lparr>dl_pending_imports := dl_pending_imports result + 1\<rparr>\<rparr>))
       | PendBinding \<Rightarrow> Some (Inr (st\<lparr>ds_result := result\<lparr>dl_pending_bindings := dl_pending_bindings result + 1\<rparr>\<rparr>))
       | PendType \<Rightarrow> Some (Inr (st\<lparr>ds_result := result\<lparr>dl_pending_types := dl_pending_types result + 1\<rparr>\<rparr>))
       | ApplyRelative v \<Rightarrow> Some (add_patch plan r v (st\<lparr>ds_relative := ds_relative st + 1\<rparr>))
       | ApplyLocal v \<Rightarrow> Some (add_patch plan r v (st\<lparr>ds_local := ds_local st + 1\<rparr>))
       | ApplyImport v \<Rightarrow> Some (add_patch plan r v (st\<lparr>ds_import := ds_import st + 1\<rparr>))
     })"

text \<open>The scan of the sorted targets.\<close>

fun targets_overlap :: "(u64 \<times> u64) list \<Rightarrow> bool" where
  "targets_overlap ((s, e) # (s', e') # rest) = (s' < e \<or> targets_overlap ((s', e') # rest))"
| "targets_overlap _ = False"

section \<open>The image\<close>

definition word_bytes :: "u64 \<Rightarrow> byte list" where
  "word_bytes v = map (\<lambda>i. word_of_nat (drop_bit (8 * i) v)) [0..<8]"

definition read_word :: "byte list \<Rightarrow> nat \<Rightarrow> u64 option" where
  "read_word img offset = read_le img offset 8"

definition write_word :: "byte list \<Rightarrow> nat \<Rightarrow> u64 \<Rightarrow> byte list option" where
  "write_word img offset v = (if offset + 8 \<le> length img then Some (splice img offset (word_bytes v)) else None)"

fun write_patches :: "Patch list \<Rightarrow> byte list \<Rightarrow> (Patch list \<times> byte list) option" where
  "write_patches [] img = Some ([], img)"
| "write_patches (p # ps) img = do {
     original \<leftarrow> read_word img (pt_offset p);
     img \<leftarrow> write_word img (pt_offset p) (pt_value p);
     (ps, img) \<leftarrow> write_patches ps img;
     Some (p\<lparr>pt_original := original\<rparr> # ps, img)
   }"

fun patches_hold :: "byte list \<Rightarrow> Patch list \<Rightarrow> bool option" where
  "patches_hold img [] = Some True"
| "patches_hold img (p # ps) = do {
     v \<leftarrow> read_word img (pt_offset p);
     if v = pt_value p then patches_hold img ps else Some False
   }"

fun restore_patches :: "Patch list \<Rightarrow> byte list \<Rightarrow> byte list option" where
  "restore_patches [] img = Some img"
| "restore_patches (p # ps) img = do {
     img \<leftarrow> write_word img (pt_offset p) (pt_original p);
     restore_patches ps img
   }"

record ExpectedRange =
  ex_start :: nat
  ex_end :: nat
  ex_physical :: nat

text \<open>\<open>verify_untouched\<close> from position \<open>i\<close> with the patches and the expected ranges that are left.\<close>

function untouched_loop :: "byte list \<Rightarrow> byte list \<Rightarrow> nat \<Rightarrow> Patch list \<Rightarrow> ExpectedRange list \<Rightarrow> bool option" where
  "untouched_loop file img i patches expected =
    (if i \<ge> length img then Some True
     else if patches \<noteq> [] \<and> i = pt_offset (hd patches) then untouched_loop file img (i + 8) (tl patches) expected
     else do {
       let expected = dropWhile (\<lambda>e. ex_end e \<le> i) expected;
       byte \<leftarrow> (if expected \<noteq> [] \<and> i \<ge> ex_start (hd expected)
                then at_index file (ex_physical (hd expected) + i - ex_start (hd expected)) else Some 0);
       if img ! i \<noteq> byte then Some False else untouched_loop file img (i + 1) patches expected
     })"
  by pat_completeness auto
termination
  by (relation "measure (\<lambda>(file, img, i, patches, expected). length img - i)") auto

declare untouched_loop.simps [simp del]

definition expected_ranges :: "GuestLoadPlan \<Rightarrow> u64 list \<Rightarrow> ExpectedRange list" where
  "expected_ranges plan offsets = map2 (\<lambda>s physical. let start = sub64 (seg_address s) (plan_base plan)
     in \<lparr>ex_start = start, ex_end = start + seg_file_size s, ex_physical = physical\<rparr>) (plan_segments plan) offsets"

section \<open>StageGuestDataLink\<close>

text \<open>The part after the last check: write, verify, and undo when the verification fails.\<close>

definition apply_data_link :: "byte list \<Rightarrow> link_state \<Rightarrow> GuestDataLink option" where
  "apply_data_link file st = do {
     let result = ds_result st;
     let payload = dl_payload result;
     let pending = dl_pending_imports result + dl_pending_bindings result + dl_pending_types result;
     let expected = sort_key ex_start (expected_ranges (img_plan (pay_image payload)) (pay_load_offsets payload));
     (patches, img) \<leftarrow> write_patches (sort_key pt_offset (ds_patches st)) (img_bytes (pay_image payload));
     writes \<leftarrow> patches_hold img patches;
     untouched \<leftarrow> untouched_loop file img 0 patches expected;
     let result = result\<lparr>dl_writes_verified := writes, dl_untouched_verified := untouched\<rparr>;
     if \<not> writes \<or> \<not> untouched then do {
       img \<leftarrow> restore_patches patches img;
       Some (data_link_fail (result\<lparr>dl_payload := payload\<lparr>pay_image := (pay_image payload)\<lparr>img_bytes := img\<rparr>\<rparr>\<rparr>)
         ''post_write_verification_failed'')
     }
     else Some (result\<lparr>dl_payload := payload\<lparr>pay_image := (pay_image payload)\<lparr>img_bytes := img\<rparr>\<rparr>,
       dl_relative_applied := ds_relative st, dl_local_applied := ds_local st, dl_data_import_applied := ds_import st,
       dl_checksum_after := fnv1a64 img, dl_complete := (pending = 0), dl_valid := True\<rparr>)
   }"

definition StageGuestDataLink :: "byte list \<Rightarrow> u64 \<Rightarrow> bool \<Rightarrow> GuestDataExport list \<Rightarrow> GuestDataLink option" where
  "StageGuestDataLink file bias require_complete exports = do {
     payload \<leftarrow> StageGuestPayload file;
     manifest \<leftarrow> InspectGuestLinkManifest file True;
     let result = data_link_init bias payload manifest;
     if \<not> payload_Ready payload \<or> \<not> lm_valid manifest then Some (data_link_fail result ''payload_or_manifest_invalid'')
     else do {
       imports \<leftarrow> ResolveGuestImports manifest exports;
       let result = result\<lparr>dl_imports := imports\<rparr>;
       if \<not> ip_valid imports then Some (data_link_fail result ''import_namespace_or_registry_invalid'')
       else do {
         let plan = img_plan (pay_image payload);
         if bias > UINT64_MAX - plan_base plan \<or> add64 bias (plan_base plan) > UINT64_MAX - plan_image_size plan
         then Some (data_link_fail result ''biased_image_range_overflow'')
         else do {
           x \<leftarrow> for_each (relocation_step plan manifest imports bias) (lm_relocation_records manifest)
                 \<lparr>ds_result = result, ds_patches = [], ds_ranges = [], ds_relative = 0, ds_local = 0, ds_import = 0\<rparr>;
           case x of Inl r \<Rightarrow> Some r
           | Inr st \<Rightarrow>
             if targets_overlap (sort_key fst (ds_ranges st))
             then Some (data_link_fail (ds_result st) ''overlapping_relocation_targets'')
             else if require_complete \<and> dl_pending_imports (ds_result st) + dl_pending_bindings (ds_result st) +
                 dl_pending_types (ds_result st) \<noteq> 0
             then Some (data_link_fail (ds_result st) ''pending_relocations_require_resolver'')
             else apply_data_link file st
         }
       }
     }
   }"

section \<open>Word stores\<close>

text \<open>What the linker needs of the memory it patches: a write of a word is seen by a read at the same place, and neither
  another word nor a byte outside it changes.\<close>

fun apply_writes :: "('m \<Rightarrow> nat \<Rightarrow> u64 \<Rightarrow> 'm option) \<Rightarrow> (nat \<times> u64) list \<Rightarrow> 'm \<Rightarrow> 'm option" where
  "apply_writes wr [] m = Some m"
| "apply_writes wr ((off, v) # ws) m = wr m off v \<bind> apply_writes wr ws"

locale word_store =
  fixes size :: "'m \<Rightarrow> nat" and peek :: "'m \<Rightarrow> nat \<Rightarrow> 'b"
    and rd :: "'m \<Rightarrow> nat \<Rightarrow> u64 option" and wr :: "'m \<Rightarrow> nat \<Rightarrow> u64 \<Rightarrow> 'm option"
  assumes write_succeeds: "off + 8 \<le> size m \<Longrightarrow> \<exists>m'. wr m off v = Some m'"
    and write_size: "wr m off v = Some m' \<Longrightarrow> size m' = size m"
    and read_written: "wr m off v = Some m' \<Longrightarrow> v \<le> UINT64_MAX \<Longrightarrow> rd m' off = Some v"
    and read_other: "wr m off v = Some m' \<Longrightarrow> off' + 8 \<le> size m \<Longrightarrow> disjoint_ranges (off, 8) (off', 8) \<Longrightarrow> rd m' off' = rd m off'"
    and peek_other: "wr m off v = Some m' \<Longrightarrow> i < size m \<Longrightarrow> \<not> (off \<le> i \<and> i < off + 8) \<Longrightarrow> peek m' i = peek m i"
begin

text \<open>Disjoint writes all succeed, all hold afterwards, and change nothing else.\<close>

lemma writes_hold:
  assumes "\<forall>(off, v) \<in> set ws. off + 8 \<le> size m \<and> v \<le> UINT64_MAX"
    and "sorted_wrt (\<lambda>a b. disjoint_ranges (fst a, 8) (fst b, 8)) ws"
  shows "\<exists>m'. apply_writes wr ws m = Some m' \<and> size m' = size m \<and> (\<forall>(off, v) \<in> set ws. rd m' off = Some v) \<and>
    (\<forall>off. off + 8 \<le> size m \<longrightarrow> (\<forall>w \<in> set ws. disjoint_ranges (fst w, 8) (off, 8)) \<longrightarrow> rd m' off = rd m off) \<and>
    (\<forall>i < size m. (\<forall>w \<in> set ws. \<not> (fst w \<le> i \<and> i < fst w + 8)) \<longrightarrow> peek m' i = peek m i)"
  using assms
proof (induction ws arbitrary: m)
  case (Cons w ws)
  obtain off v where w: "w = (off, v)" by (cases w)
  have fit: "off + 8 \<le> size m" "v \<le> UINT64_MAX" using Cons.prems(1) by (auto simp: w)
  obtain m1 where m1: "wr m off v = Some m1" using write_succeeds fit by blast
  note sz = write_size [OF m1]
  obtain m' where m': "apply_writes wr ws m1 = Some m'" "size m' = size m1" "\<forall>(off, v) \<in> set ws. rd m' off = Some v"
    "\<forall>off. off + 8 \<le> size m1 \<longrightarrow> (\<forall>w \<in> set ws. disjoint_ranges (fst w, 8) (off, 8)) \<longrightarrow> rd m' off = rd m1 off"
    "\<forall>i < size m1. (\<forall>w \<in> set ws. \<not> (fst w \<le> i \<and> i < fst w + 8)) \<longrightarrow> peek m' i = peek m1 i"
    using Cons.IH [of m1] Cons.prems sz by auto
  have "\<forall>w \<in> set ws. disjoint_ranges (fst w, 8) (off, 8)" using Cons.prems(2) disjoint_ranges_sym by (auto simp: w)
  then have "rd m' off = Some v" using m'(4) fit sz read_written [OF m1 fit(2)] by auto
  moreover have "rd m' o' = rd m o'"
    if "o' + 8 \<le> size m" "\<forall>w' \<in> set (w # ws). disjoint_ranges (fst w', 8) (o', 8)" for o'
    using that m'(4) sz read_other [OF m1 that(1)] by (auto simp: w)
  moreover have "peek m' i = peek m i" if "i < size m" "\<forall>w' \<in> set (w # ws). \<not> (fst w' \<le> i \<and> i < fst w' + 8)" for i
    using that m'(5) sz peek_other [OF m1 that(1)] by (auto simp: w)
  ultimately show ?case using m' m1 sz by (auto simp: w)
qed simp

end

lemma length_word_bytes [simp]: "length (word_bytes v) = 8"
  by (simp add: word_bytes_def)

lemma le_value_drop_bytes:
  "le_value (map (\<lambda>i. word_of_nat (drop_bit (8 * i) v)) [0..<n]) = v mod 256 ^ n"
proof (induction n arbitrary: v)
  case (Suc n)
  have "map (\<lambda>i. word_of_nat (drop_bit (8 * i) v) :: byte) [0..<Suc n] =
      word_of_nat v # map (\<lambda>i. word_of_nat (drop_bit (8 * i) (v div 256))) [0..<n]"
    by (simp add: upt_conv_Cons map_Suc_upt [symmetric] comp_def drop_bit_eq_div power_add div_mult2_eq [symmetric] del: upt_Suc)
  moreover have "unat (word_of_nat v :: byte) = v mod 256" by (simp add: unat_of_nat)
  moreover have "v mod 256 + 256 * (v div 256 mod 256 ^ n) = v mod 256 ^ Suc n"
    by (simp add: mod_mult2_eq)
  ultimately show ?case using Suc [of "v div 256"] by simp
qed simp

lemma field_splice_same: "off + length xs \<le> length img \<Longrightarrow> field (splice img off xs) off (length xs) = le_value xs"
  by (simp add: field_def splice_def)

lemma field_splice_other:
  assumes "off + length xs \<le> length img" "off' + n \<le> off \<or> off + length xs \<le> off'" "off' + n \<le> length img"
  shows "field (splice img off xs) off' n = field img off' n"
proof -
  have "take n (drop off' (splice img off xs)) = take n (drop off' img)"
    by (rule nth_equalityI) (use assms in \<open>auto simp: nth_splice\<close>)
  then show ?thesis by (simp add: field_def)
qed

interpretation image_store: word_store length nth read_word write_word
proof
  show "\<exists>m'. write_word m off v = Some m'" if "off + 8 \<le> length m" for off m v
    using that by (simp add: write_word_def)
  show "length m' = length m" if "write_word m off v = Some m'" for m off v m'
    using that by (auto simp: write_word_def split: if_splits)
  show "read_word m' off = Some v" if "write_word m off v = Some m'" "v \<le> UINT64_MAX" for m off v m'
  proof -
    have m': "off + 8 \<le> length m" "m' = splice m off (word_bytes v)" using that(1) by (auto simp: write_word_def split: if_splits)
    have "le_value (word_bytes v) = v" using le_value_drop_bytes [of v 8] that(2) by (simp add: word_bytes_def)
    then show ?thesis using m' field_splice_same [of off "word_bytes v" m] by (simp add: read_word_def read_le_field)
  qed
  show "read_word m' off' = read_word m off'"
    if "write_word m off v = Some m'" "off' + 8 \<le> length m" "disjoint_ranges (off, 8) (off', 8)" for m off v m' off'
    using that field_splice_other [of off "word_bytes v" m off' 8]
    by (auto simp: write_word_def read_word_def read_le_field disjoint_ranges_def split: if_splits)
  show "m' ! i = m ! i" if "write_word m off v = Some m'" "i < length m" "\<not> (off \<le> i \<and> i < off + 8)" for m off v m' i
    using that nth_splice [of off "word_bytes v" m i] by (auto simp: write_word_def split: if_splits)
qed

section \<open>Writing and verifying\<close>

definition patch_write :: "Patch \<Rightarrow> nat \<times> u64" where
  "patch_write p = (pt_offset p, pt_value p)"

text \<open>The loop that saves and writes is the sequence of its writes; reading the old words never fails.\<close>

lemma write_patches_apply:
  assumes "\<forall>p \<in> set ps. pt_offset p + 8 \<le> length img"
  shows "\<exists>qs. write_patches ps img = map_option (\<lambda>img. (qs, img)) (apply_writes write_word (map patch_write ps) img) \<and>
    map patch_write qs = map patch_write ps"
  using assms
proof (induction ps arbitrary: img)
  case (Cons p ps)
  obtain img1 where w: "write_word img (pt_offset p) (pt_value p) = Some img1"
    using Cons.prems image_store.write_succeeds [of "pt_offset p" img] by auto
  have r: "read_word img (pt_offset p) = Some (field img (pt_offset p) 8)"
    using Cons.prems by (simp add: read_word_def read_le_field)
  obtain qs where "write_patches ps img1 = map_option (\<lambda>img. (qs, img)) (apply_writes write_word (map patch_write ps) img1)"
    "map patch_write qs = map patch_write ps"
    using Cons.IH [of img1] Cons.prems image_store.write_size [OF w] by auto
  moreover have "patch_write (p\<lparr>pt_original := x\<rparr>) = patch_write p" for x by (simp add: patch_write_def)
  moreover have "apply_writes write_word (patch_write p # ws) img = apply_writes write_word ws img1" for ws
    using w by (simp add: patch_write_def)
  ultimately show ?case using w r
    by (intro exI [of _ "p\<lparr>pt_original := field img (pt_offset p) 8\<rparr> # qs"])
      (cases "apply_writes write_word (map patch_write ps) img1"; simp del: apply_writes.simps)
qed simp

lemma patches_hold_iff: "\<forall>p \<in> set ps. read_word img (pt_offset p) = Some (pt_value p) \<Longrightarrow> patches_hold img ps = Some True"
  by (induction ps) auto

text \<open>The expected byte at a position that no patch covers.\<close>

definition range_byte :: "byte list \<Rightarrow> ExpectedRange list \<Rightarrow> nat \<Rightarrow> byte" where
  "range_byte file es i = (case find (\<lambda>e. ex_start e \<le> i \<and> i < ex_end e) es of
     None \<Rightarrow> 0 | Some e \<Rightarrow> file ! (ex_physical e + (i - ex_start e)))"

definition expected_ok :: "nat \<Rightarrow> ExpectedRange list \<Rightarrow> bool" where
  "expected_ok len es \<longleftrightarrow> sorted_wrt (\<lambda>a b. ex_start a < ex_start b \<and> ex_end a \<le> ex_start b) es \<and>
     (\<forall>e \<in> set es. ex_start e \<le> ex_end e \<and> ex_physical e + (ex_end e - ex_start e) \<le> len)"

lemma range_byte_head:
  fixes i :: nat
  assumes "expected_ok (length file) es"
  defines "es' \<equiv> dropWhile (\<lambda>e. ex_end e \<le> i) es"
  shows "(if es' \<noteq> [] \<and> i \<ge> ex_start (hd es') then at_index file (ex_physical (hd es') + i - ex_start (hd es')) else Some 0) =
      Some (range_byte file es i)" and "expected_ok (length file) es'"
    and "j > i \<Longrightarrow> range_byte file es' j = range_byte file es j"
proof -
  have skip: "find (\<lambda>e. ex_start e \<le> j \<and> j < ex_end e) es = find (\<lambda>e. ex_start e \<le> j \<and> j < ex_end e) es'" if "i \<le> j" for j
    using that unfolding es'_def by (induction es) auto
  have sub: "set es' \<subseteq> set es" by (auto simp: es'_def dest: set_dropWhileD)
  show ok: "expected_ok (length file) es'"
    using assms(1) sub sorted_wrt_dropWhile unfolding expected_ok_def es'_def by blast
  show "range_byte file es' j = range_byte file es j" if "j > i" using skip [of j] that by (simp add: range_byte_def)
  show "(if es' \<noteq> [] \<and> i \<ge> ex_start (hd es') then at_index file (ex_physical (hd es') + i - ex_start (hd es')) else Some 0) =
      Some (range_byte file es i)"
  proof (cases es')
    case Nil
    then show ?thesis using skip [of i] by (simp add: range_byte_def)
  next
    case (Cons e rest)
    have "\<not> ex_end e \<le> i" using Cons hd_dropWhile [of "\<lambda>e. ex_end e \<le> i" es] by (simp add: es'_def)
    moreover have "find (\<lambda>e. ex_start e \<le> i \<and> i < ex_end e) rest = None" if "i < ex_start e"
      using that ok Cons by (fastforce simp: expected_ok_def find_None_iff)
    ultimately show ?thesis using ok Cons skip [of i]
      by (auto simp: range_byte_def at_index_def expected_ok_def)
  qed
qed

lemma untouched_loop_true:
  assumes "expected_ok (length file) es" "sorted_wrt (\<lambda>p q. pt_offset p + 8 \<le> pt_offset q) ps"
    and "\<forall>p \<in> set ps. i \<le> pt_offset p"
    and "\<forall>j < length img. i \<le> j \<longrightarrow> (\<forall>p \<in> set ps. \<not> (pt_offset p \<le> j \<and> j < pt_offset p + 8)) \<longrightarrow> img ! j = range_byte file es j"
  shows "untouched_loop file img i ps es = Some True"
  using assms
proof (induction "length img - i" arbitrary: i ps es rule: less_induct)
  case less
  show ?case
  proof (cases "i \<ge> length img")
    case True
    then show ?thesis by (simp add: untouched_loop.simps)
  next
    case run: False
    show ?thesis
    proof (cases "ps \<noteq> [] \<and> i = pt_offset (hd ps)")
      case True
      then obtain p qs where ps: "ps = p # qs" "pt_offset p = i" by (cases ps) auto
      have "untouched_loop file img (i + 8) qs es = Some True"
      proof (rule less.hyps)
        show "length img - (i + 8) < length img - i" using run by simp
        show "sorted_wrt (\<lambda>p q. pt_offset p + 8 \<le> pt_offset q) qs" "\<forall>p \<in> set qs. i + 8 \<le> pt_offset p"
          using less.prems(2) ps by auto
        show "\<forall>j < length img. i + 8 \<le> j \<longrightarrow> (\<forall>p \<in> set qs. \<not> (pt_offset p \<le> j \<and> j < pt_offset p + 8)) \<longrightarrow> img ! j = range_byte file es j"
          using less.prems(4) ps by simp
      qed (rule less.prems(1))
      then have "untouched_loop file img (i + 8) (tl ps) es = Some True" by (simp add: ps(1))
      then show ?thesis using run True by (subst untouched_loop.simps) simp
    next
      case False
      define es' where "es' = dropWhile (\<lambda>e. ex_end e \<le> i) es"
      note h = range_byte_head [OF less.prems(1), where i = i, folded es'_def]
      have nxt: "\<forall>p \<in> set ps. i + 1 \<le> pt_offset p"
        using False less.prems(2,3) by (cases ps) fastforce+
      have "\<forall>p \<in> set ps. \<not> (pt_offset p \<le> i \<and> i < pt_offset p + 8)" using nxt by fastforce
      then have "img ! i = range_byte file es i" using less.prems(4) run by simp
      moreover have "untouched_loop file img (i + 1) ps es' = Some True"
      proof (rule less.hyps)
        show "length img - (i + 1) < length img - i" using run by simp
        show "\<forall>j < length img. i + 1 \<le> j \<longrightarrow> (\<forall>p \<in> set ps. \<not> (pt_offset p \<le> j \<and> j < pt_offset p + 8)) \<longrightarrow> img ! j = range_byte file es' j"
          using less.prems(4) h(3) by simp
      qed (use less.prems(2) nxt h(2) in auto)
      ultimately show ?thesis
        using run False h(1) unfolding untouched_loop.simps [of "file" img i] es'_def [symmetric] Let_def by auto
    qed
  qed
qed

section \<open>Sorting\<close>

lemma sorted_wrt_permute:
  assumes "sorted_wrt R xs" "mset xs = mset ys" "\<And>a b. R a b \<Longrightarrow> R b a"
  shows "sorted_wrt R ys"
  using assms(1,2)
proof (induction xs arbitrary: ys)
  case (Cons x xs)
  then have "x \<in> set ys" by (metis list.set_intros(1) set_mset_mset)
  then obtain us vs where ys: "ys = us @ x # vs" by (auto simp: in_set_conv_decomp)
  then have m: "mset xs = mset (us @ vs)" using Cons.prems(2) by simp
  then have "set xs = set (us @ vs)" by (metis set_mset_mset)
  then have x: "\<forall>y \<in> set (us @ vs). R x y" using Cons.prems(1) by simp
  then have "\<forall>y \<in> set (us @ vs). R y x" using assms(3) by blast
  moreover have "sorted_wrt R (us @ vs)" using Cons.IH [OF _ m] Cons.prems(1) by simp
  ultimately show ?case using x by (simp add: ys sorted_wrt_append)
qed simp

lemma sorted_wrt_sort_key:
  assumes "sorted_wrt R xs" "\<And>a b. R a b \<Longrightarrow> R b a"
  shows "sorted_wrt (\<lambda>a b. R a b \<and> f a \<le> f b) (sort_key f xs)"
proof -
  have "sorted_wrt R (sort_key f xs)" by (rule sorted_wrt_permute [OF assms(1) _ assms(2)]) simp_all
  moreover have "sorted_wrt (\<lambda>a b. f a \<le> f b) (sort_key f xs)" using sorted_sort_key [of f xs] by (simp add: sorted_wrt_map)
  ultimately show ?thesis by (auto simp: sorted_wrt_iff_nth_less)
qed

text \<open>No two neighbours of the sorted targets overlap, so no two targets do.\<close>

lemma targets_disjoint_sorted:
  "\<not> targets_overlap ts \<Longrightarrow> sorted (map fst ts) \<Longrightarrow> \<forall>t \<in> set ts. fst t \<le> snd t \<Longrightarrow> sorted_wrt (\<lambda>a b. snd a \<le> fst b) ts"
proof (induction ts rule: targets_overlap.induct)
  case (1 s e s' e' rest)
  then have "sorted_wrt (\<lambda>a b. snd a \<le> fst b) ((s', e') # rest)" by auto
  moreover have "e \<le> s'" using "1.prems"(1) by simp
  moreover have "s' \<le> fst t" if "t \<in> set rest" for t using "1.prems"(2) that by auto
  ultimately show ?case by fastforce
qed auto

lemma targets_disjoint:
  assumes "\<not> targets_overlap (sort_key fst ts)" "\<forall>t \<in> set ts. fst t \<le> snd t"
  shows "sorted_wrt (\<lambda>a b. snd a \<le> fst b \<or> snd b \<le> fst a) ts"
proof (rule sorted_wrt_permute)
  have "sorted_wrt (\<lambda>a b. snd a \<le> fst b) (sort_key fst ts)" using assms by (intro targets_disjoint_sorted) auto
  then show "sorted_wrt (\<lambda>a b. snd a \<le> fst b \<or> snd b \<le> fst a) (sort_key fst ts)"
    by (rule sorted_wrt_mono_rel [rotated]) auto
qed auto

section \<open>The relocation loop\<close>

text \<open>The value that a relocation writes, when it is applied.\<close>

definition applied_value :: "GuestLoadSegment list \<Rightarrow> GuestLinkManifest \<Rightarrow> GuestImportPlan \<Rightarrow> u64 \<Rightarrow> GuestLinkRelocation \<Rightarrow> u64 option" where
  "applied_value segs manifest imports bias r = (if supported_type (lr_type r)
     then (case relocation_action segs manifest imports bias r of
         Some (ApplyRelative v) \<Rightarrow> Some v | Some (ApplyLocal v) \<Rightarrow> Some v | Some (ApplyImport v) \<Rightarrow> Some v | _ \<Rightarrow> None)
     else None)"

definition reloc_target :: "GuestLinkRelocation \<Rightarrow> u64 \<times> u64" where
  "reloc_target r = (lr_address r, lr_address r + reloc_width (lr_type r))"

definition reloc_patch :: "GuestLoadPlan \<Rightarrow> (GuestLinkRelocation \<Rightarrow> u64 option) \<Rightarrow> GuestLinkRelocation \<Rightarrow> Patch" where
  "reloc_patch plan val r = \<lparr>pt_offset = lr_address r - plan_base plan, pt_value = the (val r), pt_original = 0\<rparr>"

lemma supported_width: "supported_type type \<Longrightarrow> reloc_width type = (if type = 36 then 16 else if type = 2 \<or> type = 10 \<or> type = 11 then 4 else 8)"
  by (auto simp: supported_type_def reloc_width_def)

text \<open>Checked addition of a two's complement number.\<close>

definition signed_value :: "u64 \<Rightarrow> int" where
  "signed_value bits = (if bits < 9223372036854775808 then int bits else int bits - 18446744073709551616)"

lemma AddGuestSigned_exact:
  assumes "base \<le> UINT64_MAX" "bits \<le> UINT64_MAX"
  shows "AddGuestSigned base bits =
    (let v = int base + signed_value bits in if 0 \<le> v \<and> v \<le> int UINT64_MAX then Some (nat v) else None)"
proof -
  have top: "drop_bit 63 bits \<noteq> 0 \<longleftrightarrow> \<not> bits < 9223372036854775808"
    using assms(2) by (auto simp: drop_bit_eq_div div_eq_0_iff not_less)
  show ?thesis
  proof (cases "bits < 9223372036854775808")
    case True
    then show ?thesis using assms top by (auto simp: AddGuestSigned_def signed_value_def Let_def nat_add_distrib)
  next
    case False
    have "add64 (UINT64_MAX - bits) 1 = 18446744073709551616 - bits" using False assms(2) by (simp add: add64_def)
    then show ?thesis using False assms top by (auto simp: AddGuestSigned_def signed_value_def Let_def)
  qed
qed

definition link_open :: "GuestPayload \<Rightarrow> GuestLinkManifest \<Rightarrow> GuestImportPlan \<Rightarrow> u64 \<Rightarrow> GuestDataLink \<Rightarrow> bool" where
  "link_open payload manifest imports bias l \<longleftrightarrow> \<not> dl_valid l \<and> dl_error l = '''' \<and> dl_payload l = payload \<and> dl_manifest l = manifest \<and>
     dl_imports l = imports \<and> dl_bias l = bias"

definition link_failed :: "GuestPayload \<Rightarrow> u64 \<Rightarrow> GuestDataLink \<Rightarrow> bool" where
  "link_failed payload bias l \<longleftrightarrow> \<not> dl_valid l \<and> \<not> dl_complete l \<and> dl_error l \<notin> {'''', ''post_write_verification_failed''} \<and>
     dl_payload l = payload \<and> dl_bias l = bias"

definition pending :: "GuestDataLink \<Rightarrow> u64" where
  "pending l = dl_pending_imports l + dl_pending_bindings l + dl_pending_types l"

text \<open>After the relocations \<open>pre\<close>: the patches and the targets collected so far.\<close>

definition link_inv :: "GuestPayload \<Rightarrow> GuestLinkManifest \<Rightarrow> GuestImportPlan \<Rightarrow> u64 \<Rightarrow> GuestLoadPlan \<Rightarrow> (GuestLinkRelocation \<Rightarrow> u64 option)
    \<Rightarrow> GuestLinkRelocation list \<Rightarrow> link_state \<Rightarrow> bool" where
  "link_inv payload manifest imports bias plan val pre st \<longleftrightarrow> link_open payload manifest imports bias (ds_result st) \<and>
     ds_patches st = map (reloc_patch plan val) (filter (\<lambda>r. val r \<noteq> None) pre) \<and>
     ds_ranges st = map reloc_target (filter (\<lambda>r. lr_type r \<noteq> 0) pre) \<and>
     ds_relative st + ds_local st + ds_import st = length (ds_patches st) \<and>
     dl_none (ds_result st) + pending (ds_result st) + length (ds_patches st) = length pre \<and>
     (\<forall>r \<in> set pre. (lr_type r = 0 \<or> supported_type (lr_type r)) \<and>
        (val r \<noteq> None \<longrightarrow> data_mapped (plan_segments plan) (lr_address r) 8 True))"

lemma link_fail_failed: "link_open payload m i bias l \<Longrightarrow> e \<notin> {'''', ''post_write_verification_failed''} \<Longrightarrow> link_failed payload bias (data_link_fail l e)"
  by (simp add: link_open_def link_failed_def data_link_fail_def)

lemma relocation_action_total:
  assumes "reloc_ok segs n r" "length (lm_symbol_records m) = n" "length (ip_addresses_by_symbol imports) = n"
  shows "\<exists>a. relocation_action segs m imports bias r = Some a \<and> (\<forall>e. a = ActFail e \<longrightarrow> e \<notin> {'''', ''post_write_verification_failed''})"
  using assms by (auto simp: relocation_action_def reloc_ok_def at_index_def split: option.split)

lemma add_patch_inv:
  assumes inv: "link_inv payload m imports bias plan val pre st" and v: "val r = Some v" and ty: "supported_type (lr_type r)"
    and base: "plan_base plan \<le> lr_address r"
    and st': "ds_result st' = ds_result st" "ds_patches st' = ds_patches st" "ds_ranges st' = ds_ranges st @ [reloc_target r]"
      "ds_relative st' + ds_local st' + ds_import st' = ds_relative st + ds_local st + ds_import st + 1"
  shows "outcome (link_failed payload bias) (link_inv payload m imports bias plan val (pre @ [r])) (Some (add_patch plan r v st'))"
proof (cases "data_mapped (plan_segments plan) (lr_address r) 8 True")
  case False
  have "link_open payload m imports bias (ds_result st)" using inv by (simp add: link_inv_def)
  then show ?thesis using False link_fail_failed by (simp add: add_patch_def st')
next
  case True
  have "lr_type r \<noteq> 0" using ty by (auto simp: supported_type_def)
  then show ?thesis using True inv v ty base
    by (auto simp: add_patch_def link_inv_def st' reloc_patch_def u64_simps)
qed

lemma relocation_step_outcome:
  assumes inv: "link_inv payload m imports bias plan val pre st" and val: "val = applied_value (plan_segments plan) m imports bias"
    and ok: "reloc_ok (plan_segments plan) n r" "length (lm_symbol_records m) = n" "length (ip_addresses_by_symbol imports) = n"
    and segs: "\<forall>s \<in> set (plan_segments plan). plan_base plan \<le> seg_address s \<and> seg_address s + seg_memory_size s \<le> UINT64_MAX"
  shows "outcome (link_failed payload bias) (link_inv payload m imports bias plan val (pre @ [r]))
    (relocation_step plan m imports bias r st)"
proof -
  have opn: "link_open payload m imports bias (ds_result st)" using inv by (simp add: link_inv_def)
  consider "lr_type r = 0" | "\<not> supported_type (lr_type r)" "lr_type r \<noteq> 0" | "supported_type (lr_type r)" "lr_type r \<noteq> 0" by blast
  then show ?thesis
  proof cases
    case 1
    then have "val r = None" by (simp add: val applied_value_def supported_type_def)
    then show ?thesis using 1 inv
      by (auto simp: relocation_step_def Let_def link_inv_def link_open_def pending_def)
  next
    case 2
    then show ?thesis using link_fail_failed [OF opn] by (simp add: relocation_step_def Let_def)
  next
    case 3
    define w where "w = (if lr_type r = 36 then 16 else if lr_type r = 2 \<or> lr_type r = 10 \<or> lr_type r = 11 then 4 else 8 :: nat)"
    obtain a where a: "relocation_action (plan_segments plan) m imports bias r = Some a" "\<forall>e. a = ActFail e \<longrightarrow> e \<notin> {'''', ''post_write_verification_failed''}"
      using relocation_action_total [OF ok] by blast
    have width: "reloc_width (lr_type r) = w" "0 < w" using supported_width [OF 3(1)] by (simp_all add: w_def)
    then obtain s where s: "s \<in> set (plan_segments plan)" "seg_address s \<le> lr_address r" "lr_address r + w \<le> seg_address s + seg_memory_size s"
      using ok(1) by (auto simp: reloc_ok_def in_segment_def)
    then have tgt: "(lr_address r, add64 (lr_address r) w) = reloc_target r" and base: "plan_base plan \<le> lr_address r"
      using segs width by (fastforce simp: reloc_target_def u64_simps)+
    let ?st = "st\<lparr>ds_ranges := ds_ranges st @ [reloc_target r]\<rparr>"
    have step: "relocation_step plan m imports bias r st = (case a of
         ActFail e \<Rightarrow> Some (Inl (data_link_fail (ds_result st) e))
       | PendImport \<Rightarrow> Some (Inr (?st\<lparr>ds_result := (ds_result st)\<lparr>dl_pending_imports := dl_pending_imports (ds_result st) + 1\<rparr>\<rparr>))
       | PendBinding \<Rightarrow> Some (Inr (?st\<lparr>ds_result := (ds_result st)\<lparr>dl_pending_bindings := dl_pending_bindings (ds_result st) + 1\<rparr>\<rparr>))
       | PendType \<Rightarrow> Some (Inr (?st\<lparr>ds_result := (ds_result st)\<lparr>dl_pending_types := dl_pending_types (ds_result st) + 1\<rparr>\<rparr>))
       | ApplyRelative v \<Rightarrow> Some (add_patch plan r v (?st\<lparr>ds_relative := ds_relative ?st + 1\<rparr>))
       | ApplyLocal v \<Rightarrow> Some (add_patch plan r v (?st\<lparr>ds_local := ds_local ?st + 1\<rparr>))
       | ApplyImport v \<Rightarrow> Some (add_patch plan r v (?st\<lparr>ds_import := ds_import ?st + 1\<rparr>)))"
      using 3 unfolding relocation_step_def Let_def a(1) w_def [symmetric] tgt by (cases a) simp_all
    have vr: "val r = (case a of ApplyRelative v \<Rightarrow> Some v | ApplyLocal v \<Rightarrow> Some v | ApplyImport v \<Rightarrow> Some v | _ \<Rightarrow> None)"
      using 3 a(1) by (simp add: val applied_value_def split: RelocationAction.split)
    show ?thesis
    proof (cases a)
      case (ActFail e)
      then show ?thesis using a(2) link_fail_failed [OF opn] by (simp add: step)
    next
      case (ApplyRelative v)
      then show ?thesis using vr by (simp add: step) (rule add_patch_inv [OF inv _ 3(1) base]; simp)
    next
      case (ApplyLocal v)
      then show ?thesis using vr by (simp add: step) (rule add_patch_inv [OF inv _ 3(1) base]; simp)
    next
      case (ApplyImport v)
      then show ?thesis using vr by (simp add: step) (rule add_patch_inv [OF inv _ 3(1) base]; simp)
    qed (use inv 3 vr in \<open>auto simp: step link_inv_def link_open_def pending_def\<close>)
  qed
qed

section \<open>The staged image and the expected ranges\<close>

lemma staged_plan:
  assumes "StageGuestPayload file = Some p" "payload_Ready p"
  obtains p0 raw entry n where "PlanGuestPayloadFile file = Some p0" "img_plan (pay_image p0) = img_plan (pay_image p)"
    "plan_sound raw (length file) True entry n (img_plan (pay_image p))"
proof -
  obtain p0 where p0: "PlanGuestPayloadFile file = Some p0" "(\<exists>plan. payload_failed plan p0) \<or> payload_plan_ok file p0"
    using PlanGuestPayloadFile_result by blast
  have keep: "img_plan (pay_image p) = img_plan (pay_image p0)" "img_error (pay_image p) = img_error (pay_image p0)"
    using assms(1) p0(1) by (auto simp: StageGuestPayload_def Let_def split: if_splits bind_splits)
  then have "payload_plan_ok file p0" using p0(2) assms(2) by (auto simp: payload_failed_def payload_Ready_def)
  then obtain raw entry n where "plan_sound raw (length file) True entry n (img_plan (pay_image p0))"
    by (auto simp: payload_plan_ok_def payload_open_def)
  then show thesis using that p0(1) keep(1) by simp
qed

definition apart :: "ExpectedRange \<Rightarrow> ExpectedRange \<Rightarrow> bool" where
  "apart a b \<longleftrightarrow> ex_start a \<noteq> ex_start b \<and> (ex_start a < ex_start b \<longrightarrow> ex_end a \<le> ex_start b) \<and>
     (ex_start b < ex_start a \<longrightarrow> ex_end b \<le> ex_start a)"

lemma expected_ranges_nth:
  assumes "length offs = length (plan_segments plan)" "j < length (plan_segments plan)" "plan_base plan \<le> seg_address (plan_segments plan ! j)"
  shows "expected_ranges plan offs ! j = \<lparr>ex_start = seg_address (plan_segments plan ! j) - plan_base plan,
    ex_end = seg_address (plan_segments plan ! j) - plan_base plan + seg_file_size (plan_segments plan ! j), ex_physical = offs ! j\<rparr>"
  using assms by (simp add: expected_ranges_def Let_def u64_simps)

lemma expected_ranges_ok:
  assumes sound: "plan_sound raw fs relro entry n plan" and offs: "offsets_inv (length file) (plan_segments plan) offs"
  shows "expected_ok (length file) (sort_key ex_start (expected_ranges plan offs))"
proof -
  let ?segs = "plan_segments plan" and ?es = "expected_ranges plan offs"
  have len: "length offs = length ?segs" "length ?es = length ?segs"
    using offs by (auto simp: offsets_inv_def expected_ranges_def dest: list_all2_lengthD)
  have seg: "plan_base plan \<le> seg_address s" "0 < seg_memory_size s" "seg_file_size s \<le> seg_memory_size s" if "s \<in> set ?segs" for s
    using sound that by (auto simp: plan_sound_def segs_inv_def seg_ok_def)
  have nth: "?es ! j = \<lparr>ex_start = seg_address (?segs ! j) - plan_base plan,
      ex_end = seg_address (?segs ! j) - plan_base plan + seg_file_size (?segs ! j), ex_physical = offs ! j\<rparr>" if "j < length ?segs" for j
    using expected_ranges_nth [OF len(1) that] seg(1) that by simp
  have "sorted_wrt apart ?es"
    unfolding sorted_wrt_iff_nth_less
  proof (intro allI impI)
    fix i j assume ij: "i < j" "j < length ?es"
    have "disjoint_ranges (seg_range (?segs ! i)) (seg_range (?segs ! j))"
      using sound ij len by (auto simp: plan_sound_def segs_inv_def sorted_wrt_iff_nth_less)
    then show "apart (?es ! i) (?es ! j)"
      using ij len seg [of "?segs ! i"] seg [of "?segs ! j"] by (auto simp: nth apart_def disjoint_ranges_def seg_range_def)
  qed
  then have "sorted_wrt (\<lambda>a b. apart a b \<and> ex_start a \<le> ex_start b) (sort_key ex_start ?es)"
    by (rule sorted_wrt_sort_key) (auto simp: apart_def)
  then have "sorted_wrt (\<lambda>a b. ex_start a < ex_start b \<and> ex_end a \<le> ex_start b) (sort_key ex_start ?es)"
    by (rule sorted_wrt_mono_rel [rotated]) (auto simp: apart_def)
  moreover have "ex_start e \<le> ex_end e \<and> ex_physical e + (ex_end e - ex_start e) \<le> length file" if "e \<in> set ?es" for e
    using that offs len nth by (auto simp: in_set_conv_nth offsets_inv_def list_all2_conv_all_nth)
  ultimately show ?thesis unfolding expected_ok_def set_sort by blast
qed

lemma range_byte_image:
  assumes sound: "plan_sound raw fs relro entry n plan" and offs: "offsets_inv (length file) (plan_segments plan) offs"
    and img: "image_of file offs plan img" and i: "i < length img"
  shows "range_byte file (sort_key ex_start (expected_ranges plan offs)) i = img ! i"
proof -
  let ?segs = "plan_segments plan" and ?es = "expected_ranges plan offs"
  have len: "length offs = length ?segs" "length ?es = length ?segs"
    using offs by (auto simp: offsets_inv_def expected_ranges_def dest: list_all2_lengthD)
  have seg: "plan_base plan \<le> seg_address s" if "s \<in> set ?segs" for s using sound that by (auto simp: plan_sound_def)
  have nth: "?es ! j = \<lparr>ex_start = seg_address (?segs ! j) - plan_base plan,
      ex_end = seg_address (?segs ! j) - plan_base plan + seg_file_size (?segs ! j), ex_physical = offs ! j\<rparr>" if "j < length ?segs" for j
    using expected_ranges_nth [OF len(1) that] seg(1) that by simp
  show ?thesis
  proof (cases "find (\<lambda>e. ex_start e \<le> i \<and> i < ex_end e) (sort_key ex_start ?es)")
    case None
    have "\<not> (seg_address s \<le> plan_base plan + i \<and> plan_base plan + i < seg_address s + seg_file_size s)" if s: "s \<in> set ?segs" for s
    proof -
      obtain j where j: "j < length ?segs" "s = ?segs ! j" using s by (auto simp: in_set_conv_nth)
      have "?es ! j \<in> set ?es" using j len by simp
      then have "\<not> (ex_start (?es ! j) \<le> i \<and> i < ex_end (?es ! j))" using None by (auto simp: find_None_iff)
      then show ?thesis using j seg [OF s] by (auto simp: nth [OF j(1)])
    qed
    then show ?thesis using None img i by (auto simp: range_byte_def image_of_def)
  next
    case (Some e)
    then obtain a where "a < length (sort_key ex_start ?es)" "e = sort_key ex_start ?es ! a" "ex_start e \<le> i \<and> i < ex_end e"
      unfolding find_Some_iff by blast
    then have e: "e \<in> set ?es" "ex_start e \<le> i" "i < ex_end e" using nth_mem [of a "sort_key ex_start ?es"] by auto
    then obtain j where j: "j < length ?segs" "e = ?es ! j" using len by (auto simp: in_set_conv_nth)
    let ?k = "i - ex_start e"
    have "?k < seg_file_size (?segs ! j)" "i = seg_address (?segs ! j) - plan_base plan + ?k" using e j nth [OF j(1)] by auto
    then have "img ! i = file ! (offs ! j + ?k)" using img j(1) by (metis image_of_def)
    then show ?thesis using Some j nth [OF j(1)] by (simp add: range_byte_def)
  qed
qed

section \<open>The linked image\<close>

lemma applied_type: "applied_value segs m imports bias r = Some v \<Longrightarrow> lr_type r \<in> {1, 6, 7, 8} \<and> reloc_width (lr_type r) = 8"
  by (auto simp: applied_value_def relocation_action_def reloc_width_def split: if_splits option.splits)

lemma AddGuestSigned_bound: "AddGuestSigned base bits = Some v \<Longrightarrow> base \<le> UINT64_MAX \<Longrightarrow> bits \<le> UINT64_MAX \<Longrightarrow> v \<le> UINT64_MAX"
  by (auto simp: AddGuestSigned_exact Let_def split: if_splits)

lemma applied_source:
  assumes "applied_value segs m imports bias r = Some v"
  shows "\<exists>base bits. AddGuestSigned base bits = Some v \<and> (bits = 0 \<or> bits = lr_addend_bits r) \<and>
    (base = bias \<or> base \<in> set (ip_addresses_by_symbol imports) \<or> (\<exists>a. base = add64 bias a))"
proof -
  obtain a where a: "relocation_action segs m imports bias r = Some a" "a \<in> {ApplyRelative v, ApplyLocal v, ApplyImport v}"
    using assms by (auto simp: applied_value_def split: if_splits option.splits RelocationAction.splits)
  let ?bits = "if lr_type r = 1 then lr_addend_bits r else 0"
  have "AddGuestSigned bias (lr_addend_bits r) = Some v \<or> (\<exists>b. AddGuestSigned b ?bits = Some v \<and>
      (b \<in> set (ip_addresses_by_symbol imports) \<or> (\<exists>a. b = add64 bias a)))"
  proof (cases "lr_type r = 8")
    case True
    then show ?thesis using a by (auto simp: relocation_action_def split: option.splits)
  next
    case False
    then show ?thesis using a
      by (simp add: relocation_action_def at_index_def split: if_splits option.splits bind_splits) (fastforce intro: nth_mem)+
  qed
  then show ?thesis by (smt (verit))
qed

lemma applied_value_bound:
  assumes "applied_value segs m imports bias r = Some v" "bias \<le> UINT64_MAX" "lr_addend_bits r \<le> UINT64_MAX"
    and "\<forall>a \<in> set (ip_addresses_by_symbol imports). a \<le> UINT64_MAX"
  shows "v \<le> UINT64_MAX"
proof -
  obtain base bits where "AddGuestSigned base bits = Some v" "bits = 0 \<or> bits = lr_addend_bits r"
    "base = bias \<or> base \<in> set (ip_addresses_by_symbol imports) \<or> (\<exists>a. base = add64 bias a)"
    using applied_source [OF assms(1)] by blast
  then show ?thesis using AddGuestSigned_bound [of base bits v] assms(2-4) add64_bound by auto
qed

text \<open>\<open>image_linked\<close>: every applied relocation holds its value in a writable segment that is not executable, and no other
  byte of the staged image has changed.\<close>

definition writable_word :: "GuestLoadSegment list \<Rightarrow> u64 \<Rightarrow> bool" where
  "writable_word segs a \<longleftrightarrow> (\<exists>s \<in> set segs. seg_address s \<le> a \<and> a + 8 \<le> seg_address s + seg_memory_size s \<and>
     seg_flags s AND 1 = 0 \<and> (seg_flags s AND 2 \<noteq> 0 \<or> seg_type s = PT_SCE_RELRO))"

definition image_linked :: "GuestLoadPlan \<Rightarrow> (GuestLinkRelocation \<Rightarrow> u64 option) \<Rightarrow> GuestLinkRelocation list \<Rightarrow> byte list \<Rightarrow> byte list \<Rightarrow> bool" where
  "image_linked plan val relocs old img \<longleftrightarrow> length img = length old \<and>
     (\<forall>r \<in> set relocs. \<forall>v. val r = Some v \<longrightarrow> plan_base plan \<le> lr_address r \<and>
        read_word img (lr_address r - plan_base plan) = Some v \<and> writable_word (plan_segments plan) (lr_address r)) \<and>
     (\<forall>i < length old. (\<forall>r \<in> set relocs. val r \<noteq> None \<longrightarrow>
        \<not> (lr_address r - plan_base plan \<le> i \<and> i < lr_address r - plan_base plan + 8)) \<longrightarrow> img ! i = old ! i)"

lemma data_mapped_writable: "data_mapped segs a 8 True \<Longrightarrow> writable_word segs a"
  by (induction segs) (auto simp: writable_word_def u64_simps split: if_splits)

text \<open>The patches keep apart, since their targets do.\<close>

lemma patches_disjoint:
  assumes "sorted_wrt (\<lambda>a b. snd a \<le> fst b \<or> snd b \<le> fst a) (map reloc_target (filter (\<lambda>r. lr_type r \<noteq> 0) relocs))"
    and val: "\<And>r. val r \<noteq> None \<Longrightarrow> lr_type r \<noteq> 0 \<and> reloc_width (lr_type r) = 8"
    and base: "\<And>r. r \<in> set relocs \<Longrightarrow> val r \<noteq> None \<Longrightarrow> plan_base plan \<le> lr_address r"
  shows "sorted_wrt (\<lambda>p q. disjoint_ranges (pt_offset p, 8) (pt_offset q, 8))
    (map (reloc_patch plan val) (filter (\<lambda>r. val r \<noteq> None) relocs))"
proof -
  let ?R = "\<lambda>r r'. snd (reloc_target r) \<le> fst (reloc_target r') \<or> snd (reloc_target r') \<le> fst (reloc_target r)"
  have "sorted_wrt ?R (filter (\<lambda>r. val r \<noteq> None) (filter (\<lambda>r. lr_type r \<noteq> 0) relocs))"
    using assms(1) unfolding sorted_wrt_map by (rule sorted_wrt_filter)
  moreover have "filter (\<lambda>r. val r \<noteq> None) (filter (\<lambda>r. lr_type r \<noteq> 0) relocs) = filter (\<lambda>r. val r \<noteq> None) relocs"
    using val by (auto simp: filter_filter intro!: filter_cong)
  ultimately have "sorted_wrt ?R (filter (\<lambda>r. val r \<noteq> None) relocs)" by simp
  then show ?thesis
    unfolding sorted_wrt_map
  proof (rule sorted_wrt_mono_rel [rotated])
    fix r r' assume "r \<in> set (filter (\<lambda>r. val r \<noteq> None) relocs)" "r' \<in> set (filter (\<lambda>r. val r \<noteq> None) relocs)" and "?R r r'"
    then show "disjoint_ranges (pt_offset (reloc_patch plan val r), 8) (pt_offset (reloc_patch plan val r'), 8)"
      using val [of r] val [of r'] base [of r] base [of r'] by (auto simp: reloc_target_def reloc_patch_def disjoint_ranges_def)
  qed
qed

definition link_done :: "byte list \<Rightarrow> GuestDataLink \<Rightarrow> bool" where
  "link_done file l \<longleftrightarrow> (\<exists>p. StageGuestPayload file = Some p \<and> payload_Ready p \<and>
     InspectGuestLinkManifest file True = Some (dl_manifest l) \<and> dl_error l = '''' \<and>
     dl_payload l = p\<lparr>pay_image := (pay_image p)\<lparr>img_bytes := img_bytes (pay_image (dl_payload l))\<rparr>\<rparr> \<and>
     image_linked (img_plan (pay_image p))
       (applied_value (plan_segments (img_plan (pay_image p))) (dl_manifest l) (dl_imports l) (dl_bias l))
       (lm_relocation_records (dl_manifest l)) (img_bytes (pay_image p)) (img_bytes (pay_image (dl_payload l))) \<and>
     dl_checksum_after l = fnv1a64 (img_bytes (pay_image (dl_payload l))) \<and>
     dl_none l + pending l + dl_relative_applied l + dl_local_applied l + dl_data_import_applied l = lm_relocations (dl_manifest l) \<and>
     (dl_complete l \<longleftrightarrow> pending l = 0))"

text \<open>The write and verify stage, as its three loops.\<close>

lemma write_and_verify:
  assumes dis: "sorted_wrt (\<lambda>p q. disjoint_ranges (pt_offset p, 8) (pt_offset q, 8)) ps"
    and fit: "\<forall>p \<in> set ps. pt_offset p + 8 \<le> length old \<and> pt_value p \<le> UINT64_MAX"
    and es: "expected_ok (length file) es" and old: "\<forall>i < length old. range_byte file es i = old ! i"
  obtains qs img where "write_patches (sort_key pt_offset ps) old = Some (qs, img)" "patches_hold img qs = Some True"
    "untouched_loop file img 0 qs es = Some True" "length img = length old" "\<forall>p \<in> set ps. read_word img (pt_offset p) = Some (pt_value p)"
    "\<forall>i < length old. (\<forall>p \<in> set ps. \<not> (pt_offset p \<le> i \<and> i < pt_offset p + 8)) \<longrightarrow> img ! i = old ! i"
proof -
  let ?ps = "sort_key pt_offset ps"
  have srt: "sorted_wrt (\<lambda>p q. disjoint_ranges (pt_offset p, 8) (pt_offset q, 8) \<and> pt_offset p \<le> pt_offset q) ?ps"
    by (rule sorted_wrt_sort_key [OF dis]) (rule disjoint_ranges_sym)
  have ws: "\<forall>(off, v) \<in> set (map patch_write ?ps). off + 8 \<le> length old \<and> v \<le> UINT64_MAX"
    using fit by (auto simp: patch_write_def)
  have "sorted_wrt (\<lambda>a b. disjoint_ranges (fst a, 8) (fst b, 8)) (map patch_write ?ps)"
    unfolding sorted_wrt_map using srt by (rule sorted_wrt_mono_rel [rotated]) (simp add: patch_write_def)
  from image_store.writes_hold [OF ws this] obtain img where img: "apply_writes write_word (map patch_write ?ps) old = Some img"
    "length img = length old" "\<forall>(off, v) \<in> set (map patch_write ?ps). read_word img off = Some v"
    "\<forall>i < length old. (\<forall>w \<in> set (map patch_write ?ps). \<not> (fst w \<le> i \<and> i < fst w + 8)) \<longrightarrow> img ! i = old ! i" by blast
  obtain qs where qs: "write_patches ?ps old = Some (qs, img)" "map patch_write qs = map patch_write ?ps"
    using write_patches_apply [of ?ps old] fit img(1) by auto
  have hold: "\<forall>p \<in> set ps. read_word img (pt_offset p) = Some (pt_value p)" using img(3) by (auto simp: patch_write_def)
  have rest: "\<forall>i < length old. (\<forall>p \<in> set ps. \<not> (pt_offset p \<le> i \<and> i < pt_offset p + 8)) \<longrightarrow> img ! i = old ! i"
    using img(4) by (simp add: patch_write_def)
  have same: "patch_write ` set qs = patch_write ` set ps" using arg_cong [OF qs(2), of set] by simp
  have "\<exists>p \<in> set ps. pt_offset p = pt_offset q \<and> pt_value p = pt_value q" if "q \<in> set qs" for q
  proof -
    have "patch_write q \<in> patch_write ` set ps" using that same by blast
    then show ?thesis by (auto simp: patch_write_def)
  qed
  then have "patches_hold img qs = Some True" using hold by (intro patches_hold_iff) metis
  moreover have "sorted_wrt (\<lambda>a b. fst a + 8 \<le> fst b) (map patch_write ?ps)"
    unfolding sorted_wrt_map using srt by (rule sorted_wrt_mono_rel [rotated]) (auto simp: patch_write_def disjoint_ranges_def)
  then have "sorted_wrt (\<lambda>p q. pt_offset p + 8 \<le> pt_offset q) qs" unfolding qs(2) [symmetric] by (simp add: sorted_wrt_map patch_write_def)
  then have "untouched_loop file img 0 qs es = Some True"
  proof (rule untouched_loop_true [OF es])
    have "\<exists>q \<in> set qs. pt_offset q = pt_offset p" if "p \<in> set ps" for p
    proof -
      have "patch_write p \<in> patch_write ` set qs" using that same by blast
      then show ?thesis by (auto simp: patch_write_def)
    qed
    then show "\<forall>j < length img. 0 \<le> j \<longrightarrow> (\<forall>p \<in> set qs. \<not> (pt_offset p \<le> j \<and> j < pt_offset p + 8)) \<longrightarrow> img ! j = range_byte file es j"
      using rest old img(2) by metis
  qed simp
  ultimately show thesis using that qs(1) img(2) hold rest by blast
qed

lemma apply_data_link_done:
  assumes pay: "StageGuestPayload file = Some p" "payload_Ready p" and man: "InspectGuestLinkManifest file True = Some m"
    and inv: "link_inv p m imports bias (img_plan (pay_image p)) val (lm_relocation_records m) st"
    and val: "val = applied_value (plan_segments (img_plan (pay_image p))) m imports bias"
    and bounds: "\<forall>r \<in> set (lm_relocation_records m). lr_addend_bits r \<le> UINT64_MAX" "bias \<le> UINT64_MAX"
      "\<forall>a \<in> set (ip_addresses_by_symbol imports). a \<le> UINT64_MAX"
    and len: "length (lm_relocation_records m) = lm_relocations m" and ov: "\<not> targets_overlap (sort_key fst (ds_ranges st))"
  shows "\<exists>l. apply_data_link file st = Some l \<and> dl_valid l \<and> link_done file l"
proof -
  define plan old relocs where [simp]: "plan = img_plan (pay_image p)" "old = img_bytes (pay_image p)" "relocs = lm_relocation_records m"
  obtain raw entry n where sound: "plan_sound raw (length file) True entry n plan"    unfolding plan_old_relocs_def by (rule staged_plan [OF pay]) blast
  have st: "image_of file (pay_load_offsets p) plan old" "offsets_inv (length file) (plan_segments plan) (pay_load_offsets p)"
    using StageGuestPayload_result [of "file"] pay by (auto simp: payload_staged_def Let_def)
  let ?es = "sort_key ex_start (expected_ranges plan (pay_load_offsets p))" and ?ps = "ds_patches st"
  have opn: "dl_payload (ds_result st) = p" "dl_manifest (ds_result st) = m" "dl_imports (ds_result st) = imports"
    "dl_error (ds_result st) = ''''" "dl_bias (ds_result st) = bias" using inv by (simp_all add: link_inv_def link_open_def)
  have tg: "?ps = map (reloc_patch plan val) (filter (\<lambda>r. val r \<noteq> None) relocs)" "ds_ranges st = map reloc_target (filter (\<lambda>r. lr_type r \<noteq> 0) relocs)"
    "dl_none (ds_result st) + pending (ds_result st) + ds_relative st + ds_local st + ds_import st = length relocs"
    using inv by (simp_all add: link_inv_def)
  have wr: "writable_word (plan_segments plan) (lr_address r)" if "r \<in> set relocs" "val r \<noteq> None" for r
    using inv that data_mapped_writable by (auto simp: link_inv_def)
  have base: "plan_base plan \<le> lr_address r \<and> lr_address r + 8 \<le> plan_base plan + plan_image_size plan" if "r \<in> set relocs" "val r \<noteq> None" for r
    using wr [OF that] sound unfolding writable_word_def plan_sound_def by fastforce
  have ty: "lr_type r \<noteq> 0 \<and> reloc_width (lr_type r) = 8" if "val r \<noteq> None" for r using that applied_type by (fastforce simp: val)
  have "sorted_wrt (\<lambda>a b. snd a \<le> fst b \<or> snd b \<le> fst a) (ds_ranges st)"
    by (rule targets_disjoint [OF ov]) (auto simp: tg(2) reloc_target_def)
  then have dis: "sorted_wrt (\<lambda>p q. disjoint_ranges (pt_offset p, 8) (pt_offset q, 8)) ?ps"
    unfolding tg using ty base by (intro patches_disjoint) auto
  have vb: "v \<le> UINT64_MAX" if "r \<in> set relocs" "val r = Some v" for r v
    using that bounds applied_value_bound by (simp add: val)
  have fit: "\<forall>p \<in> set ?ps. pt_offset p + 8 \<le> length old \<and> pt_value p \<le> UINT64_MAX"
    using base vb st(1) unfolding tg image_of_def by (fastforce simp: reloc_patch_def)
  have es: "expected_ok (length file) ?es" by (rule expected_ranges_ok [OF sound st(2)])
  have "\<forall>i < length old. range_byte file ?es i = old ! i" using range_byte_image [OF sound st(2,1)] by blast
  from write_and_verify [OF dis fit es this] obtain qs img where w: "write_patches (sort_key pt_offset ?ps) old = Some (qs, img)"
    "patches_hold img qs = Some True" "untouched_loop file img 0 qs ?es = Some True" "length img = length old"
    and hold: "\<forall>p \<in> set ?ps. read_word img (pt_offset p) = Some (pt_value p)"
    and rest: "\<forall>i < length old. (\<forall>p \<in> set ?ps. \<not> (pt_offset p \<le> i \<and> i < pt_offset p + 8)) \<longrightarrow> img ! i = old ! i" by blast
  have "image_linked plan val relocs old img"
    unfolding image_linked_def
  proof (intro conjI ballI allI impI)
    fix r v assume r: "r \<in> set relocs" "val r = Some v"
    then have "reloc_patch plan val r \<in> set ?ps" by (simp add: tg(1) del: plan_old_relocs_def)
    then show "read_word img (lr_address r - plan_base plan) = Some v" using hold r(2) by (auto simp: reloc_patch_def)
    show "plan_base plan \<le> lr_address r" "writable_word (plan_segments plan) (lr_address r)" using base wr r by auto
  next
    fix i assume "i < length old" "\<forall>r \<in> set relocs. val r \<noteq> None \<longrightarrow> \<not> (lr_address r - plan_base plan \<le> i \<and> i < lr_address r - plan_base plan + 8)"
    then show "img ! i = old ! i" using rest unfolding tg(1) by (auto simp: reloc_patch_def)
  qed (rule w(4))
  then show ?thesis
    using w opn tg(3) pay man len
    by (simp add: apply_data_link_def Let_def link_done_def pending_def val)
qed

section \<open>The result of StageGuestDataLink\<close>

lemma sound_records: "lm_valid m \<Longrightarrow> manifest_sound True segs m \<Longrightarrow> \<not> manifest_records_bad m"
proof -
  assume m: "lm_valid m" "manifest_sound True segs m"
  have "map ld_name (lm_module_records m) = lm_modules m" "map ld_name (lm_library_records m) = lm_libraries m"
    using m(2) by (simp_all add: manifest_sound_def deps_ok_def)
  from this [THEN arg_cong [of _ _ length]]
  have "length (lm_module_records m) = length (lm_modules m)" "length (lm_library_records m) = length (lm_libraries m)" by simp_all
  then show ?thesis using m by (auto simp: manifest_records_bad_def manifest_sound_def imports_ok_def deps_ok_def)
qed

lemma resolved_addresses:
  assumes "bindings_exact m exports n p" "\<forall>e \<in> set exports. de_numeric_address e \<le> UINT64_MAX"
  shows "length (ip_addresses_by_symbol p) = lm_symbols m" "\<forall>a \<in> set (ip_addresses_by_symbol p). a \<le> UINT64_MAX"
proof -
  have ex: "addresses_exact (lm_symbols m) (ip_bindings p) (ip_addresses_by_symbol p)" "length (ip_bindings p) = n"
    "\<And>i. i < n \<Longrightarrow> binding_exact m exports i (ip_bindings p ! i)" using assms(1) by (auto simp: bindings_exact_def)
  have b: "ib_numeric_address b \<le> UINT64_MAX" if mem: "b \<in> set (ip_bindings p)" for b
  proof -
    obtain i where "i < n" "b = ip_bindings p ! i" using mem unfolding in_set_conv_nth ex(2) by blast
    then have "ib_numeric_address b = (case map_of (export_registry exports) (ib_key b) of None \<Rightarrow> 0 | Some a \<Rightarrow> a)"
      using ex(3) by (auto simp: binding_exact_def)
    then show ?thesis using assms(2) by (auto simp: export_registry_def split: option.split dest!: map_of_SomeD)
  qed
  show "length (ip_addresses_by_symbol p) = lm_symbols m" using ex(1) by (simp add: addresses_exact_def)
  show "\<forall>a \<in> set (ip_addresses_by_symbol p). a \<le> UINT64_MAX"
  proof
    fix a assume "a \<in> set (ip_addresses_by_symbol p)"
    then obtain k where "k < lm_symbols m" "a = ip_addresses_by_symbol p ! k" using ex(1) by (auto simp: in_set_conv_nth addresses_exact_def)
    then show "a \<le> UINT64_MAX" using ex(1) b by (cases "k \<in> ib_symbol ` set (ip_bindings p)") (auto simp: addresses_exact_def)
  qed
qed

text \<open>\<open>link_verdict\<close>: a valid link is done, any other one reports an error and leaves the staged image alone.\<close>

definition link_verdict :: "byte list \<Rightarrow> u64 \<Rightarrow> bool \<Rightarrow> GuestDataLink \<Rightarrow> bool" where
  "link_verdict file bias require_complete l \<longleftrightarrow> dl_bias l = bias \<and>
     (if dl_valid l then link_done file l \<and> (require_complete \<longrightarrow> dl_complete l)
      else dl_error l \<noteq> '''' \<and> dl_error l \<noteq> ''post_write_verification_failed'' \<and> \<not> dl_complete l \<and>
        StageGuestPayload file = Some (dl_payload l))"

lemma failed_verdict: "link_failed p bias l \<Longrightarrow> StageGuestPayload file = Some p \<Longrightarrow> link_verdict file bias rc l"
  by (simp add: link_failed_def link_verdict_def)

lemma link_loop:
  assumes sound: "plan_sound raw fs relro entry n plan" and man: "manifest_sound True (plan_segments plan) m"
    and adr: "length (ip_addresses_by_symbol imports) = lm_symbols m"
    and opn: "link_open p m imports bias l" "dl_none l = 0" "pending l = 0"
  shows "outcome (link_failed p bias)
    (link_inv p m imports bias plan (applied_value (plan_segments plan) m imports bias) (lm_relocation_records m))
    (for_each (relocation_step plan m imports bias) (lm_relocation_records m)
      \<lparr>ds_result = l, ds_patches = [], ds_ranges = [], ds_relative = 0, ds_local = 0, ds_import = 0\<rparr>)"
proof (rule for_each_rule)
  show "link_inv p m imports bias plan (applied_value (plan_segments plan) m imports bias) []
      \<lparr>ds_result = l, ds_patches = [], ds_ranges = [], ds_relative = 0, ds_local = 0, ds_import = 0\<rparr>"
    using opn by (simp add: link_inv_def)
  fix pre r st assume "r \<in> set (lm_relocation_records m)"
    "link_inv p m imports bias plan (applied_value (plan_segments plan) m imports bias) pre st"
  then show "outcome (link_failed p bias)
      (link_inv p m imports bias plan (applied_value (plan_segments plan) m imports bias) (pre @ [r]))
      (relocation_step plan m imports bias r st)"
    using man sound adr
    by (intro relocation_step_outcome [where n = "lm_symbols m"])
      (auto simp: manifest_sound_def relocs_ok_def imports_ok_def plan_sound_def segs_inv_def seg_ok_def)
qed

text \<open>The stage after the checks on payload, manifest, imports and bias.\<close>

lemma link_tail_verdict:
  assumes pay: "StageGuestPayload file = Some p" "payload_Ready p" and man: "InspectGuestLinkManifest file True = Some m"
    and inv: "link_inv p m imports bias (img_plan (pay_image p)) (applied_value (plan_segments (img_plan (pay_image p))) m imports bias)
      (lm_relocation_records m) st"
    and bounds: "\<forall>r \<in> set (lm_relocation_records m). lr_addend_bits r \<le> UINT64_MAX" "bias \<le> UINT64_MAX"
      "\<forall>a \<in> set (ip_addresses_by_symbol imports). a \<le> UINT64_MAX"
    and len: "length (lm_relocation_records m) = lm_relocations m"
  shows "\<exists>l. (if targets_overlap (sort_key fst (ds_ranges st))
      then Some (data_link_fail (ds_result st) ''overlapping_relocation_targets'')
      else if rc \<and> dl_pending_imports (ds_result st) + dl_pending_bindings (ds_result st) + dl_pending_types (ds_result st) \<noteq> 0
      then Some (data_link_fail (ds_result st) ''pending_relocations_require_resolver'')
      else apply_data_link file st) = Some l \<and> link_verdict file bias rc l"
proof -
  have opn: "link_open p m imports bias (ds_result st)" using inv by (simp add: link_inv_def)
  show ?thesis
  proof (cases "targets_overlap (sort_key fst (ds_ranges st)) \<or> (rc \<and> pending (ds_result st) \<noteq> 0)")
    case True
    then show ?thesis using failed_verdict [OF link_fail_failed [OF opn] pay(1)] by (auto simp: pending_def)
  next
    case False
    then obtain l where l: "apply_data_link file st = Some l" "dl_valid l" "link_done file l"
      using apply_data_link_done [OF pay man inv refl bounds len] by blast
    then have "pending l = pending (ds_result st)" "dl_bias l = bias" using opn
      by (auto simp: apply_data_link_def Let_def pending_def link_open_def data_link_fail_def split: bind_splits if_splits prod.splits)
    then show ?thesis using l False by (auto simp: pending_def link_verdict_def link_done_def)
  qed
qed

lemma StageGuestDataLink_result:
  assumes "\<forall>e \<in> set exports. de_numeric_address e \<le> UINT64_MAX"
  shows "\<exists>l. StageGuestDataLink file bias rc exports = Some l \<and> link_verdict file bias rc l"
proof -
  obtain p where p: "StageGuestPayload file = Some p" using StageGuestPayload_result by blast
  obtain p0 where p0: "PlanGuestPayloadFile file = Some p0"
      "manifest_verdict True (plan_segments (img_plan (pay_image p0))) (InspectGuestLinkManifest file True)"
    using InspectGuestLinkManifest_result by blast
  then obtain m where m: "InspectGuestLinkManifest file True = Some m"
      "manifest_failed m \<or> lm_valid m \<and> manifest_sound True (plan_segments (img_plan (pay_image p0))) m"
    by (auto simp: manifest_verdict_def)
  obtain i where i: "ResolveGuestImports m exports = Some i" and ex: "ip_valid i \<Longrightarrow> bindings_exact m exports (length (lm_imports m)) i"
    using ResolveGuestImports_result [of m exports] by (auto simp: resolution_def import_failed_def)
  let ?plan = "img_plan (pay_image p)" and ?start = "data_link_init bias p m"
  let ?l = "?start\<lparr>dl_imports := i\<rparr>"
  have opn0: "link_open p m import_init bias ?start" and opn: "link_open p m i bias ?l" "dl_none ?l = 0" "pending ?l = 0"
    by (simp_all add: link_open_def data_link_init_def pending_def)
  note fail = failed_verdict [OF link_fail_failed p]
  have run: "StageGuestDataLink file bias rc exports =
     (if \<not> payload_Ready p \<or> \<not> lm_valid m then Some (data_link_fail ?start ''payload_or_manifest_invalid'')
      else if \<not> ip_valid i then Some (data_link_fail ?l ''import_namespace_or_registry_invalid'')
      else if bias > UINT64_MAX - plan_base ?plan \<or> add64 bias (plan_base ?plan) > UINT64_MAX - plan_image_size ?plan
      then Some (data_link_fail ?l ''biased_image_range_overflow'')
      else do {
        x \<leftarrow> for_each (relocation_step ?plan m i bias) (lm_relocation_records m)
             \<lparr>ds_result = ?l, ds_patches = [], ds_ranges = [], ds_relative = 0, ds_local = 0, ds_import = 0\<rparr>;
        case x of Inl r \<Rightarrow> Some r
        | Inr st \<Rightarrow>
           if targets_overlap (sort_key fst (ds_ranges st))
           then Some (data_link_fail (ds_result st) ''overlapping_relocation_targets'')
           else if rc \<and> dl_pending_imports (ds_result st) + dl_pending_bindings (ds_result st) + dl_pending_types (ds_result st) \<noteq> 0
           then Some (data_link_fail (ds_result st) ''pending_relocations_require_resolver'')
           else apply_data_link file st
      })"
    unfolding StageGuestDataLink_def Let_def p m(1) Option.bind.bind_lunit i by (rule refl)
  consider "\<not> payload_Ready p \<or> \<not> lm_valid m" | "payload_Ready p" "lm_valid m" "\<not> ip_valid i"
    | "payload_Ready p" "lm_valid m" "ip_valid i" "bias > UINT64_MAX - plan_base ?plan \<or> add64 bias (plan_base ?plan) > UINT64_MAX - plan_image_size ?plan"
    | "payload_Ready p" "lm_valid m" "ip_valid i" "\<not> (bias > UINT64_MAX - plan_base ?plan \<or> add64 bias (plan_base ?plan) > UINT64_MAX - plan_image_size ?plan)"
    by blast
  then show ?thesis
  proof cases
    case 1
    then show ?thesis unfolding run if_P [OF 1] using fail [OF opn0] by simp
  next
    case 2
    then show ?thesis unfolding run using fail [OF opn(1)] by simp
  next
    case 3
    then show ?thesis unfolding run using fail [OF opn(1)] by (simp add: if_P [OF 3(4)])
  next
    case 4
    obtain p1 raw entry n where pl: "PlanGuestPayloadFile file = Some p1" "img_plan (pay_image p1) = ?plan"
        "plan_sound raw (length file) True entry n ?plan" using staged_plan [OF p 4(1)] by blast
    have sound: "manifest_sound True (plan_segments ?plan) m" using m(2) 4(2) pl p0(1) by (auto simp: manifest_failed_def)
    note adr = resolved_addresses [OF ex [OF 4(3)] assms]
    have c: "\<not> (\<not> payload_Ready p \<or> \<not> lm_valid m)" "\<not> \<not> ip_valid i" using 4 by simp_all
    show ?thesis
      unfolding run if_not_P [OF c(1)] if_not_P [OF c(2)] if_not_P [OF 4(4)]
    proof (rule outcome_bind [OF link_loop [OF pl(3) sound adr(1) opn]])
      show "\<exists>l. Some r = Some l \<and> link_verdict file bias rc l" if "link_failed p bias r" for r
        using failed_verdict [OF that p] by simp
    next
      fix st assume "link_inv p m i bias ?plan (applied_value (plan_segments ?plan) m i bias) (lm_relocation_records m) st"
      then show "\<exists>l. (if targets_overlap (sort_key fst (ds_ranges st))
          then Some (data_link_fail (ds_result st) ''overlapping_relocation_targets'')
          else if rc \<and> dl_pending_imports (ds_result st) + dl_pending_bindings (ds_result st) + dl_pending_types (ds_result st) \<noteq> 0
          then Some (data_link_fail (ds_result st) ''pending_relocations_require_resolver'')
          else apply_data_link file st) = Some l \<and> link_verdict file bias rc l"
        using sound 4(4) by (intro link_tail_verdict [OF p 4(1) m(1) _ _ _ adr(2)]) (auto simp: manifest_sound_def relocs_ok_def reloc_ok_def)
    qed
  qed
qed

section \<open>Properties\<close>

text \<open>C6: StageGuestDataLink returns for every file, bias and registry of 64-bit addresses without an access outside the
  file, the image, the symbol table or the address table.  A valid link starts from the staged payload and the
  manifest of the file; every applied relocation holds its value (bias or symbol or registered import plus the
  two's complement addend) in a writable segment that is not executable, no other byte of the image has
  changed, every relocation is counted exactly once as applied, pending or none, the checksum is that of the
  patched image, and the link is complete exactly when nothing is pending, as it has to be when completeness
  is required.  Any other result reports an error and holds the staged payload unchanged; the re-check of
  the written and untouched bytes never fails.\<close>

theorem data_link_exact:
  assumes "\<forall>e \<in> set exports. de_numeric_address e \<le> UINT64_MAX"
  shows "\<exists>l. StageGuestDataLink file bias require_complete exports = Some l \<and> link_verdict file bias require_complete l"
  by (rule StageGuestDataLink_result [OF assms])

theorem data_link_exact_witness:
  "\<exists>l. StageGuestDataLink tiny_elf GuestDiagnosticLoadBias True [\<lparr>de_key = \<lparr>ik_nid = ''Q3VBxCXhUHs'', ik_library = ''libkernel'',
       ik_module = ''libkernel'', ik_library_version = 1, ik_module_major = 1, ik_module_minor = 1, ik_type = 1\<rparr>,
       de_numeric_address = 0x200000000\<rparr>] = Some l \<and> link_verdict tiny_elf GuestDiagnosticLoadBias True l"
  by (rule data_link_exact) simp

end
