(* ===== verification/Guest_Memory.thy ===== *)
theory Guest_Memory
  imports Guest_Import
begin

text \<open>
  Two runtime services of the guest: the memory functions of \<^verbatim>\<open>src/src/core/uwp/guest_memory.h\<close>, which
  act only inside host ranges that were authorised before, and the clock of
  \<^verbatim>\<open>src/src/core/uwp/kernel_clock.h\<close>.  The memory of the host is a function from addresses to bytes.
\<close>

section \<open>Host memory\<close>

type_synonym host_memory = "u64 \<Rightarrow> byte"

definition mem_read :: "host_memory \<Rightarrow> u64 \<Rightarrow> nat \<Rightarrow> byte list" where
  "mem_read mem a n = map (\<lambda>i. mem (a + i)) [0..<n]"

definition mem_write :: "host_memory \<Rightarrow> u64 \<Rightarrow> byte list \<Rightarrow> host_memory" where
  "mem_write mem a bs = (\<lambda>x. if a \<le> x \<and> x < a + length bs then bs ! (x - a) else mem x)"

text \<open>The C functions; where the standard leaves their effect undefined (an access outside the objects that the
  ranges denote, or a copy between overlapping regions) the value is \<open>None\<close>.\<close>

record GuestMemoryRange =
  mr_data :: u64
  mr_size :: u64
  mr_writable :: bool

definition accessible :: "GuestMemoryRange list \<Rightarrow> u64 \<Rightarrow> nat \<Rightarrow> bool \<Rightarrow> bool" where
  "accessible rs a n write = list_ex (\<lambda>r. mr_data r \<le> a \<and> a + n \<le> mr_data r + mr_size r \<and> (write \<longrightarrow> mr_writable r)) rs"

definition c_memset :: "GuestMemoryRange list \<Rightarrow> host_memory \<Rightarrow> u64 \<Rightarrow> byte \<Rightarrow> nat \<Rightarrow> host_memory option" where
  "c_memset rs mem d c n = (if accessible rs d n True then Some (mem_write mem d (replicate n c)) else None)"

definition c_memcpy :: "GuestMemoryRange list \<Rightarrow> host_memory \<Rightarrow> u64 \<Rightarrow> u64 \<Rightarrow> nat \<Rightarrow> host_memory option" where
  "c_memcpy rs mem d s n = (if accessible rs d n True \<and> accessible rs s n False \<and> disjoint_ranges (d, n) (s, n)
     then Some (mem_write mem d (mem_read mem s n)) else None)"

fun compare_bytes :: "byte list \<Rightarrow> byte list \<Rightarrow> int" where
  "compare_bytes (x # xs) (y # ys) = (if x < y then -1 else if y < x then 1 else compare_bytes xs ys)"
| "compare_bytes _ _ = 0"

definition c_memcmp :: "GuestMemoryRange list \<Rightarrow> host_memory \<Rightarrow> u64 \<Rightarrow> u64 \<Rightarrow> nat \<Rightarrow> int option" where
  "c_memcmp rs mem a b n = (if accessible rs a n False \<and> accessible rs b n False
     then Some (compare_bytes (mem_read mem a n) (mem_read mem b n)) else None)"

section \<open>GuestMemory\<close>

text \<open>\<open>OtherService\<close> stands for the values of the enumeration type that no enumerator names.\<close>

datatype GuestMemoryService = MemCopy | MemSet | MemCompare | OtherService

record GuestMemoryResult =
  res_valid :: bool
  res_value :: u64

definition no_result :: GuestMemoryResult where
  "no_result = \<lparr>res_valid = False, res_value = 0\<rparr>"

abbreviation MaxTransfer :: u64 where
  "MaxTransfer \<equiv> 1024 * 1024"

definition ranges_meet :: "GuestMemoryRange \<Rightarrow> GuestMemoryRange \<Rightarrow> bool" where
  "ranges_meet r other \<longleftrightarrow> mr_data r < add64 (mr_data other) (mr_size other) \<and> mr_data other < add64 (mr_data r) (mr_size r)"

fun valid_loop :: "GuestMemoryRange list \<Rightarrow> GuestMemoryRange list \<Rightarrow> bool" where
  "valid_loop prev [] = True"
| "valid_loop prev (r # rs) =
    (if mr_data r = 0 \<or> mr_size r = 0 \<or> mr_size r > UINT64_MAX - mr_data r then False
     else if list_ex (ranges_meet r) prev then False
     else valid_loop (prev @ [r]) rs)"

definition memory_Valid :: "GuestMemoryRange list \<Rightarrow> bool" where
  "memory_Valid ranges = (if ranges = [] \<or> length ranges > 64 then False else valid_loop [] ranges)"

fun find_containing :: "GuestMemoryRange list \<Rightarrow> u64 \<Rightarrow> GuestMemoryRange option" where
  "find_containing [] p = None"
| "find_containing (r # rs) p = (if p \<ge> mr_data r \<and> p - mr_data r < mr_size r then Some r else find_containing rs p)"

fun find_end :: "GuestMemoryRange list \<Rightarrow> u64 \<Rightarrow> bool \<Rightarrow> u64" where
  "find_end [] p write = 0"
| "find_end (r # rs) p write = (if (\<not> write \<or> mr_writable r) \<and> p = add64 (mr_data r) (mr_size r)
     then add64 (mr_data r) (mr_size r) else find_end rs p write)"

text \<open>A pointer is its address, the null pointer 0.\<close>

definition memory_Find :: "GuestMemoryRange list \<Rightarrow> u64 \<Rightarrow> u64 \<Rightarrow> bool \<Rightarrow> u64" where
  "memory_Find ranges pointer count write =
    (case find_containing ranges pointer of
       Some r \<Rightarrow> if (write \<and> \<not> mr_writable r) \<or> count > mr_size r - (pointer - mr_data r) then 0
                 else mr_data r + (pointer - mr_data r)
     | None \<Rightarrow> if count = 0 then find_end ranges pointer write else 0)"

definition memory_Invoke :: "GuestMemoryRange list \<Rightarrow> GuestMemoryService \<Rightarrow> u64 \<Rightarrow> u64 \<Rightarrow> u64 \<Rightarrow> host_memory
    \<Rightarrow> (GuestMemoryResult \<times> host_memory) option" where
  "memory_Invoke ranges service first second count mem =
    (if \<not> memory_Valid ranges \<or> count > MaxTransfer \<or> (service \<noteq> MemCopy \<and> service \<noteq> MemSet \<and> service \<noteq> MemCompare)
     then Some (no_result, mem)
     else
       let destination = memory_Find ranges first count (service \<noteq> MemCompare);
           source = (if service = MemSet then 0 else memory_Find ranges second count False)
       in if destination = 0 \<or> (service \<noteq> MemSet \<and> source = 0) then Some (no_result, mem)
       else if service = MemCopy \<and> count \<noteq> 0 \<and> first < add64 second count \<and> second < add64 first count then Some (no_result, mem)
       else if count = 0 then Some (\<lparr>res_valid = True, res_value = (if service = MemCompare then 0 else first)\<rparr>, mem)
       else if service = MemSet then do {
         mem \<leftarrow> c_memset ranges mem destination (word_of_nat second) count;
         Some (\<lparr>res_valid = True, res_value = first\<rparr>, mem)
       }
       else if service = MemCopy then do {
         mem \<leftarrow> c_memcpy ranges mem destination source count;
         Some (\<lparr>res_valid = True, res_value = first\<rparr>, mem)
       }
       else do {
         compared \<leftarrow> c_memcmp ranges mem destination source count;
         Some (\<lparr>res_valid = True, res_value = (if compared < 0 then UINT64_MAX else if compared > 0 then 1 else 0)\<rparr>, mem)
       })"

section \<open>KernelClock\<close>

datatype KernelClockService = Microseconds | Counter | Frequency | OtherClockService

record KernelClock =
  kc_frequency :: u64
  kc_epoch :: u64

definition clock_Valid :: "KernelClock \<Rightarrow> bool" where
  "clock_Valid c \<longleftrightarrow> kc_frequency c > 0 \<and> kc_frequency c \<le> UINT64_MAX div 1000000"

definition clock_Read :: "KernelClock \<Rightarrow> u64 \<Rightarrow> KernelClockService \<Rightarrow> u64 option" where
  "clock_Read c now service =
    (if \<not> clock_Valid c then None
     else if service = Frequency then Some (kc_frequency c)
     else if now < kc_epoch c then None
     else let ticks = sub64 now (kc_epoch c) in
       if service = Counter then Some ticks
       else if service \<noteq> Microseconds then None
       else let seconds = ticks div kc_frequency c;
                fractional = mul64 (ticks mod kc_frequency c) 1000000 div kc_frequency c
            in if seconds > sub64 UINT64_MAX fractional div 1000000 then None
               else Some (add64 (mul64 seconds 1000000) fractional))"

section \<open>Import keys of the services\<close>

definition GuestMemoryNids :: "string list" where
  "GuestMemoryNids = [''Q3VBxCXhUHs'', ''8zTFvBIAIN8'', ''DfivPArhucg'']"

definition empty_key :: GuestImportKey where
  "empty_key = \<lparr>ik_nid = '''', ik_library = '''', ik_module = '''', ik_library_version = 0, ik_module_major = 0, ik_module_minor = 0,
     ik_type = 0\<rparr>"

definition GuestMemoryKey :: "u32 \<Rightarrow> GuestImportKey" where
  "GuestMemoryKey service = (if service \<ge> length GuestMemoryNids then empty_key
     else \<lparr>ik_nid = GuestMemoryNids ! service, ik_library = ''libSceLibcInternal'', ik_module = ''libSceLibcInternal'',
       ik_library_version = 1, ik_module_major = 1, ik_module_minor = 1, ik_type = 2\<rparr>)"

definition KernelClockNids :: "string list" where
  "KernelClockNids = [''4J2sUJmuHZQ'', ''fgxnMeTNUtY'', ''BNowx2l588E'']"

definition KernelClockKey :: "u32 \<Rightarrow> GuestImportKey" where
  "KernelClockKey service = (if service \<ge> length KernelClockNids then empty_key
     else \<lparr>ik_nid = KernelClockNids ! service, ik_library = ''libkernel'', ik_module = ''libkernel'',
       ik_library_version = 1, ik_module_major = 1, ik_module_minor = 1, ik_type = 2\<rparr>)"

text \<open>The resolver accepts the six keys together: they are well formed and distinct.\<close>

definition service_keys :: "GuestImportKey list" where
  "service_keys = map GuestMemoryKey [0, 1, 2] @ map KernelClockKey [0, 1, 2]"

lemma service_keys_registrable:
  "distinct service_keys"
  "list_all (\<lambda>k. ValidGuestKeyPart (ik_nid k) \<and> ValidGuestKeyPart (ik_library k) \<and> ValidGuestKeyPart (ik_module k) \<and> ik_type k \<le> 2) service_keys"
  by (simp_all add: service_keys_def GuestMemoryKey_def KernelClockKey_def GuestMemoryNids_def KernelClockNids_def ValidGuestKeyPart_def)

section \<open>The authorised ranges\<close>

text \<open>What Valid establishes: no empty, null or wrapping range, and no two ranges share an address.\<close>

definition ranges_ok :: "GuestMemoryRange list \<Rightarrow> bool" where
  "ranges_ok rs \<longleftrightarrow> (\<forall>r \<in> set rs. 0 < mr_data r \<and> 0 < mr_size r \<and> mr_data r + mr_size r \<le> UINT64_MAX) \<and>
     sorted_wrt (\<lambda>a b. disjoint_ranges (mr_data a, mr_size a) (mr_data b, mr_size b)) rs"

lemma valid_loop_ok: "ranges_ok prev \<Longrightarrow> valid_loop prev rs \<longleftrightarrow> ranges_ok (prev @ rs)"
proof (induction rs arbitrary: prev)
  case (Cons r rs)
  let ?fit = "0 < mr_data r \<and> 0 < mr_size r \<and> mr_data r + mr_size r \<le> UINT64_MAX"
  show ?case
  proof (cases "?fit \<and> \<not> list_ex (ranges_meet r) prev")
    case True
    then have "ranges_ok (prev @ [r])" using Cons.prems
      by (fastforce simp: ranges_ok_def sorted_wrt_append list_ex_iff ranges_meet_def disjoint_ranges_def u64_simps)
    then show ?thesis using Cons.IH [of "prev @ [r]"] True by auto
  next
    case False
    have "\<not> ranges_ok (prev @ r # rs)"
    proof
      assume ok: "ranges_ok (prev @ r # rs)"
      then have "?fit" "\<not> list_ex (ranges_meet r) prev" using Cons.prems
        by (fastforce simp: ranges_ok_def sorted_wrt_append list_ex_iff ranges_meet_def disjoint_ranges_def u64_simps)+
      then show False using False by blast
    qed
    moreover have "\<not> valid_loop prev (r # rs)" using False by auto
    ultimately show ?thesis by simp
  qed
qed simp

lemma memory_Valid_ok: "memory_Valid rs \<longleftrightarrow> rs \<noteq> [] \<and> length rs \<le> 64 \<and> ranges_ok rs"
  using valid_loop_ok [of "[]" rs] by (auto simp: memory_Valid_def ranges_ok_def)

definition in_range :: "u64 \<Rightarrow> GuestMemoryRange \<Rightarrow> bool" where
  "in_range p r \<longleftrightarrow> mr_data r \<le> p \<and> p < mr_data r + mr_size r"

text \<open>A pointer is authorised for \<open>n\<close> bytes when one range holds them all; an empty access may also point to the end of a
  range, unless another range starts there.\<close>

definition authorised :: "GuestMemoryRange list \<Rightarrow> u64 \<Rightarrow> u64 \<Rightarrow> bool \<Rightarrow> bool" where
  "authorised rs p n write \<longleftrightarrow>
     (if n = 0 \<and> \<not> (\<exists>r \<in> set rs. in_range p r) then \<exists>r \<in> set rs. p = mr_data r + mr_size r \<and> (write \<longrightarrow> mr_writable r)
      else \<exists>r \<in> set rs. in_range p r \<and> p + n \<le> mr_data r + mr_size r \<and> (write \<longrightarrow> mr_writable r))"

lemma in_range_unique:
  assumes "ranges_ok rs" "r \<in> set rs" "r' \<in> set rs" "in_range p r" "in_range p r'"
  shows "r = r'"
  using assms
proof (induction rs)
  case (Cons a rs)
  have "ranges_ok rs" using Cons.prems(1) by (simp add: ranges_ok_def)
  moreover have "\<not> in_range p b" if "b \<in> set rs" "in_range p a" for b
    using Cons.prems(1) that by (fastforce simp: ranges_ok_def in_range_def disjoint_ranges_def)
  ultimately show ?case using Cons by auto
qed simp

lemma find_containing_in_range:
  "find_containing rs p = Some r \<Longrightarrow> r \<in> set rs \<and> in_range p r"
  "find_containing rs p = None \<longleftrightarrow> (\<forall>r \<in> set rs. \<not> in_range p r)"
  by (induction rs) (auto simp: in_range_def split: if_splits)

lemma find_end_result:
  assumes "\<forall>r \<in> set rs. 0 < mr_size r \<and> mr_data r + mr_size r \<le> UINT64_MAX"
  shows "find_end rs p write = (if \<exists>r \<in> set rs. p = mr_data r + mr_size r \<and> (write \<longrightarrow> mr_writable r) then p else 0)"
  using assms by (induction rs) (auto simp: u64_simps)

lemma memory_Find_authorised:
  assumes ok: "ranges_ok rs"
  shows "memory_Find rs p n write = (if authorised rs p n write then p else 0)"
proof (cases "find_containing rs p")
  case None
  then have "\<forall>r \<in> set rs. \<not> in_range p r" by (simp add: find_containing_in_range(2))
  then show ?thesis using None ok find_end_result [of rs p "write"] by (auto simp: memory_Find_def authorised_def ranges_ok_def)
next
  case (Some r)
  note r = find_containing_in_range(1) [OF Some]
  have "r' = r" if "r' \<in> set rs" "in_range p r'" for r' using in_range_unique [OF ok] r that by blast
  then have "authorised rs p n write \<longleftrightarrow> p + n \<le> mr_data r + mr_size r \<and> (write \<longrightarrow> mr_writable r)"
    using r unfolding authorised_def by (metis (no_types))
  then show ?thesis using Some r by (auto simp: memory_Find_def in_range_def)
qed

lemma authorised_pos: "ranges_ok rs \<Longrightarrow> authorised rs p n w \<Longrightarrow> 0 < p \<and> p + n \<le> UINT64_MAX"
  by (fastforce simp: authorised_def ranges_ok_def in_range_def split: if_splits)

lemma authorised_accessible: "authorised rs p n w \<Longrightarrow> 0 < n \<Longrightarrow> accessible rs p n w"
  by (auto simp: authorised_def accessible_def list_ex_iff in_range_def)

lemma accessible_read: "accessible rs p n w \<Longrightarrow> accessible rs p n False"
  by (auto simp: accessible_def list_ex_iff)

section \<open>Comparison\<close>

definition first_below :: "host_memory \<Rightarrow> u64 \<Rightarrow> u64 \<Rightarrow> nat \<Rightarrow> bool" where
  "first_below mem a b n \<longleftrightarrow> (\<exists>k < n. mem (a + k) < mem (b + k) \<and> (\<forall>j < k. mem (a + j) = mem (b + j)))"

lemma mem_read_Suc: "mem_read mem a (Suc n) = mem a # mem_read mem (Suc a) n"
  by (simp add: mem_read_def upt_conv_Cons map_Suc_upt [symmetric] comp_def del: upt_Suc)

lemma first_below_Suc:
  "first_below mem a b (Suc n) \<longleftrightarrow> mem a < mem b \<or> (mem a = mem b \<and> first_below mem (Suc a) (Suc b) n)"
  unfolding first_below_def by (subst Ex_less_Suc2) (auto simp: All_less_Suc2)

lemma compare_bytes_cases:
  "compare_bytes (mem_read mem a n) (mem_read mem b n) =
    (if first_below mem a b n then -1 else if first_below mem b a n then 1 else 0)"
proof (induction n arbitrary: a b)
  case 0
  then show ?case by (simp add: mem_read_def first_below_def)
next
  case (Suc n)
  have "\<not> (mem a < mem b \<and> mem b < mem a)" by auto
  then show ?case using Suc [of "Suc a" "Suc b"] by (auto simp: mem_read_Suc first_below_Suc)
qed

section \<open>The services\<close>

definition permitted :: "GuestMemoryRange list \<Rightarrow> GuestMemoryService \<Rightarrow> u64 \<Rightarrow> u64 \<Rightarrow> u64 \<Rightarrow> bool" where
  "permitted rs service first second count \<longleftrightarrow> rs \<noteq> [] \<and> length rs \<le> 64 \<and> ranges_ok rs \<and> count \<le> 1048576 \<and> service \<noteq> OtherService \<and>
     authorised rs first count (service \<noteq> MemCompare) \<and> (service = MemSet \<or> authorised rs second count False) \<and>
     (service = MemCopy \<longrightarrow> count = 0 \<or> disjoint_ranges (first, count) (second, count))"

definition service_effect :: "GuestMemoryService \<Rightarrow> u64 \<Rightarrow> u64 \<Rightarrow> u64 \<Rightarrow> host_memory \<Rightarrow> u64 \<Rightarrow> host_memory \<Rightarrow> bool" where
  "service_effect service first second count mem v mem' \<longleftrightarrow> (case service of
     MemSet \<Rightarrow> v = first \<and> mem' = mem_write mem first (replicate count (word_of_nat second))
   | MemCopy \<Rightarrow> v = first \<and> mem' = mem_write mem first (mem_read mem second count)
   | _ \<Rightarrow> mem' = mem \<and> v = (if first_below mem first second count then UINT64_MAX
       else if first_below mem second first count then 1 else 0))"

definition writes_authorised :: "GuestMemoryRange list \<Rightarrow> host_memory \<Rightarrow> host_memory \<Rightarrow> bool" where
  "writes_authorised rs mem mem' \<longleftrightarrow> (\<forall>a. mem' a \<noteq> mem a \<longrightarrow> (\<exists>r \<in> set rs. mr_writable r \<and> in_range a r))"

lemma mem_write_authorised:
  assumes "accessible rs p (length bs) True" shows "writes_authorised rs mem (mem_write mem p bs)"
  using assms by (fastforce simp: writes_authorised_def mem_write_def accessible_def list_ex_iff in_range_def split: if_splits)

text \<open>C16: A guest memory service always returns, without an undefined memory access.  It succeeds exactly when the range table is
  valid, at most 1 MiB is requested, every operand lies in one authorised range (writable for a destination) and
  the operands of a copy are disjoint.  A successful service has exactly the effect and value of memset, memcpy or
  memcmp; a refused one changes nothing and returns the empty result.  No byte outside a writable range ever changes.\<close>

theorem guest_memory_exact:
  "\<exists>r mem'. memory_Invoke ranges service first second count mem = Some (r, mem') \<and>
     (res_valid r \<longleftrightarrow> permitted ranges service first second count) \<and> writes_authorised ranges mem mem' \<and>
     (if res_valid r then service_effect service first second count mem (res_value r) mem' else r = no_result \<and> mem' = mem)"
proof (cases "memory_Valid ranges \<and> count \<le> MaxTransfer \<and> service \<noteq> OtherService")
  case False
  then have "memory_Invoke ranges service first second count mem = Some (no_result, mem)"
    by (cases service) (auto simp: memory_Invoke_def)
  moreover have "\<not> permitted ranges service first second count" using False by (auto simp: permitted_def memory_Valid_ok)
  ultimately show ?thesis by (simp add: no_result_def writes_authorised_def)
next
  case True
  then have ok: "ranges_ok ranges" and v: "ranges \<noteq> []" "length ranges \<le> 64" by (auto simp: memory_Valid_ok)
  have nz: "(if authorised ranges p n w then p else 0) = 0 \<longleftrightarrow> \<not> authorised ranges p n w" for p n w
    using authorised_pos [OF ok] by auto
  have over: "first < add64 second count \<and> second < add64 first count \<longleftrightarrow> \<not> disjoint_ranges (first, count) (second, count)"
    if "authorised ranges first count w" "authorised ranges second count w'" "0 < count" for w w'
    using authorised_pos [OF ok that(1)] authorised_pos [OF ok that(2)] that(3) by (auto simp: disjoint_ranges_def u64_simps)
  note acc = authorised_accessible [of ranges] accessible_read [of ranges]
  have run: "memory_Invoke ranges service first second count mem =
     (if \<not> permitted ranges service first second count then Some (no_result, mem)
      else if count = 0 then Some (\<lparr>res_valid = True, res_value = (if service = MemCompare then 0 else first)\<rparr>, mem)
      else Some (case service of
          MemSet \<Rightarrow> (\<lparr>res_valid = True, res_value = first\<rparr>, mem_write mem first (replicate count (word_of_nat second)))
        | MemCopy \<Rightarrow> (\<lparr>res_valid = True, res_value = first\<rparr>, mem_write mem first (mem_read mem second count))
        | _ \<Rightarrow> (\<lparr>res_valid = True, res_value = (if first_below mem first second count then UINT64_MAX
             else if first_below mem second first count then 1 else 0)\<rparr>, mem)))"
  proof (cases service)
    case MemCopy
    then show ?thesis using True ok v over acc
      by (auto simp: memory_Invoke_def memory_Find_authorised permitted_def nz c_memcpy_def Let_def)
  next
    case MemSet
    then show ?thesis using True ok v acc
      by (auto simp: memory_Invoke_def memory_Find_authorised permitted_def nz c_memset_def Let_def)
  next
    case MemCompare
    then show ?thesis using True ok v acc
      by (auto simp: memory_Invoke_def memory_Find_authorised permitted_def nz c_memcmp_def Let_def compare_bytes_cases)
  qed (use True in simp)
  have same: "mem_write mem first [] = mem" by (auto simp: mem_write_def fun_eq_iff)
  show ?thesis
  proof (cases "permitted ranges service first second count")
    case False
    then show ?thesis by (simp add: run no_result_def writes_authorised_def)
  next
    case perm: True
    have "writes_authorised ranges mem (mem_write mem first bs)" if "length bs = count" "service \<noteq> MemCompare" "count \<noteq> 0" for bs
      using perm that acc by (intro mem_write_authorised) (auto simp: permitted_def)
    then show ?thesis using perm True unfolding run
      by (cases service; cases "count = 0")
        (simp_all add: service_effect_def same mem_read_def first_below_def writes_authorised_def [of _ mem mem])
  qed
qed

section \<open>The clock\<close>

lemma scaled_division:
  fixes f t c :: nat
  assumes "0 < f" shows "t * c div f = t div f * c + t mod f * c div f"
proof -
  have "t * c = t mod f * c + (t div f * c) * f"
    using mod_div_mult_eq [of t f] by (metis add.commute distrib_right mult.assoc mult.commute)
  then show ?thesis using assms by simp
qed

text \<open>C38: KernelClock.Read converts exactly, at every counter value: the microseconds are the elapsed ticks times one million
  divided by the frequency, rounded down, with no intermediate overflow.  It fails exactly for a frequency outside its
  range, for a counter before the epoch, for an unknown service, and when the microseconds do not fit 64 bits.\<close>

theorem kernel_clock_exact:
  "clock_Read c now service =
    (let f = kc_frequency c; ticks = now - kc_epoch c; us = ticks * 1000000 div f in
     if f = 0 \<or> f * 1000000 > UINT64_MAX \<or> service = OtherClockService then None
     else if service = Frequency then Some f
     else if now < kc_epoch c then None
     else if service = Counter then Some ticks
     else if us > UINT64_MAX then None else Some us)"
proof (cases "clock_Valid c")
  case False
  then have "kc_frequency c = 0 \<or> kc_frequency c * 1000000 > UINT64_MAX" by (auto simp: clock_Valid_def not_le div_less_iff_less_mult)
  then show ?thesis using False by (auto simp: clock_Read_def Let_def)
next
  case True
  define f ticks where "f = kc_frequency c" "ticks = now - kc_epoch c"
  have f: "0 < f" "f * 1000000 \<le> UINT64_MAX" using True by (auto simp: clock_Valid_def f_ticks_def)
  define frac where "frac = ticks mod f * 1000000 div f"
  have "ticks mod f < f" using f by simp
  then have "ticks mod f * 1000000 \<le> f * 1000000" by simp
  then have m: "mul64 (ticks mod f) 1000000 = ticks mod f * 1000000" using f(2) by (intro mul64_exact) linarith
  have lt: "frac < 1000000" using f unfolding frac_def by (simp add: div_less_iff_less_mult)
  have us: "ticks * 1000000 div f = ticks div f * 1000000 + frac" unfolding frac_def by (rule scaled_division [OF f(1)])
  have "ticks div f > sub64 UINT64_MAX frac div 1000000 \<longleftrightarrow> ticks div f * 1000000 + frac > UINT64_MAX"
    using lt by (simp add: u64_simps div_less_iff_less_mult) linarith
  moreover have "add64 (mul64 (ticks div f) 1000000) frac = ticks div f * 1000000 + frac" if "ticks div f * 1000000 + frac \<le> UINT64_MAX"
    using that by (simp add: u64_simps)
  ultimately show ?thesis using True f m us
    by (cases service) (auto simp: clock_Read_def Let_def f_ticks_def [symmetric] frac_def [symmetric] u64_simps)
qed

end
