(* ===== verification/Guest_Startup.thy ===== *)
theory Guest_Startup
  imports Guest_Data_Link Guest_Memory
begin

text \<open>
  The preparation of the first guest thread, \<^verbatim>\<open>src/src/core/uwp/guest_startup.h\<close> with the layouts of
  \<^verbatim>\<open>src/src/core/runtime_layout.h\<close>: the initial stack, the thread control block and the TLS image, and the
  permissions of the pages of the image.
\<close>

section \<open>Layouts\<close>

record host_span =
  sp_data :: u64
  sp_size :: u64

definition int_bytes :: "u32 \<Rightarrow> byte list" where
  "int_bytes v = map (\<lambda>i. word_of_nat (drop_bit (8 * i) v)) [0..<4]"

record EntryParams =
  ep_argc :: u32
  ep_padding :: u32
  ep_argv :: "u64 list"
  ep_entry_addr :: u64

definition EntryParams_bytes :: "EntryParams \<Rightarrow> byte list" where
  "EntryParams_bytes p = int_bytes (ep_argc p) @ int_bytes (ep_padding p) @ concat (map word_bytes (ep_argv p)) @ word_bytes (ep_entry_addr p)"

record Tcb =
  tcb_self :: u64
  tcb_dtv :: u64
  tcb_thread :: u64
  tcb_spare :: "u64 list"
  tcb_canary :: u64
  tcb_fiber :: u64

definition Tcb_bytes :: "Tcb \<Rightarrow> byte list" where
  "Tcb_bytes t = word_bytes (tcb_self t) @ word_bytes (tcb_dtv t) @ word_bytes (tcb_thread t) @ concat (map word_bytes (tcb_spare t)) @
     word_bytes (tcb_canary t) @ word_bytes (tcb_fiber t)"

section \<open>PrepareGuestStartup\<close>

definition GuestStartupStackSize :: nat where
  "GuestStartupStackSize = 131072"

record GuestStartupLayout =
  sl_valid :: bool
  sl_params :: u64
  sl_initial_rsp :: u64
  sl_tcb :: u64
  sl_dtv :: u64
  sl_tls :: u64
  sl_error :: string

definition startup_init :: GuestStartupLayout where
  "startup_init = \<lparr>sl_valid = False, sl_params = 0, sl_initial_rsp = 0, sl_tcb = 0, sl_dtv = 0, sl_tls = 0, sl_error = ''''\<rparr>"

definition span_overlaps :: "u64 \<Rightarrow> u64 \<Rightarrow> u64 \<Rightarrow> u64 \<Rightarrow> bool" where
  "span_overlaps a sz b other_size \<longleftrightarrow> sz \<noteq> 0 \<and> other_size \<noteq> 0 \<and> a < add64 b other_size \<and> b < add64 a sz"

text \<open>Writing outside a span is undefined.\<close>

definition span_write :: "host_span \<Rightarrow> nat \<Rightarrow> byte list \<Rightarrow> host_memory \<Rightarrow> host_memory option" where
  "span_write s off bs mem = (if off + length bs \<le> sp_size s then Some (mem_write mem (sp_data s + off) bs) else None)"

definition startup_budget_bad :: "host_span \<Rightarrow> host_span \<Rightarrow> host_span \<Rightarrow> u64 \<Rightarrow> u64 \<Rightarrow> u64 \<Rightarrow> host_span \<Rightarrow> host_memory \<Rightarrow> bool" where
  "startup_budget_bad stack tls_backing tls_initial tls_memory tls_alignment entry argv0 mem \<longleftrightarrow>
     sp_size stack \<noteq> GuestStartupStackSize \<or> sp_data stack = 0 \<or> sp_data stack mod 16 \<noteq> 0 \<or>
     sp_size stack > UINT64_MAX - sp_data stack \<or> sp_data tls_backing = 0 \<or> sp_data tls_backing mod 32 \<noteq> 0 \<or>
     sp_size tls_backing > UINT64_MAX - sp_data tls_backing \<or> entry = 0 \<or> sp_size argv0 = 0 \<or>
     sp_size argv0 > 256 \<or> 0 \<in> set (mem_read mem (sp_data argv0) (sp_size argv0)) \<or>
     tls_memory > 16 * 1024 * 1024 \<or> sp_size tls_initial > tls_memory \<or> tls_alignment = 0 \<or>
     tls_alignment > 32 \<or> tls_alignment AND (tls_alignment - 1) \<noteq> 0"

definition startup_aliases :: "host_span \<Rightarrow> host_span \<Rightarrow> host_span \<Rightarrow> host_span \<Rightarrow> bool" where
  "startup_aliases stack tls_backing tls_initial argv0 \<longleftrightarrow>
     sp_size tls_initial > UINT64_MAX - sp_data tls_initial \<or> sp_size argv0 > UINT64_MAX - sp_data argv0 \<or>
     span_overlaps (sp_data stack) (sp_size stack) (sp_data tls_backing) (sp_size tls_backing) \<or>
     span_overlaps (sp_data tls_initial) (sp_size tls_initial) (sp_data stack) (sp_size stack) \<or>
     span_overlaps (sp_data tls_initial) (sp_size tls_initial) (sp_data tls_backing) (sp_size tls_backing) \<or>
     span_overlaps (sp_data argv0) (sp_size argv0) (sp_data stack) (sp_size stack) \<or>
     span_overlaps (sp_data argv0) (sp_size argv0) (sp_data tls_backing) (sp_size tls_backing)"

definition tls_align :: "u64 \<Rightarrow> u64" where
  "tls_align tls_memory = add64 tls_memory 31 AND (UINT64_MAX - 31)"

definition PrepareGuestStartup :: "host_span \<Rightarrow> host_span \<Rightarrow> host_span \<Rightarrow> u64 \<Rightarrow> u64 \<Rightarrow> u64 \<Rightarrow> host_span \<Rightarrow> host_memory
    \<Rightarrow> (GuestStartupLayout \<times> host_memory) option" where
  "PrepareGuestStartup stack tls_backing tls_initial tls_memory tls_alignment entry argv0 mem =
    (if startup_budget_bad stack tls_backing tls_initial tls_memory tls_alignment entry argv0 mem
     then Some (startup_init\<lparr>sl_error := ''startup_layout_or_budget_invalid''\<rparr>, mem)
     else let tls_aligned = tls_align tls_memory in
     if tls_aligned + 64 + 3 * 8 > sp_size tls_backing
     then Some (startup_init\<lparr>sl_error := ''tls_backing_too_small''\<rparr>, mem)
     else if startup_aliases stack tls_backing tls_initial argv0
     then Some (startup_init\<lparr>sl_error := ''startup_input_output_overlap''\<rparr>, mem)
     else do {
       let stack_base = sp_data stack;
       let tls_base = sp_data tls_backing;
       mem \<leftarrow> span_write stack 0 (replicate (sp_size stack) 0) mem;
       mem \<leftarrow> span_write tls_backing 0 (replicate (sp_size tls_backing) 0) mem;
       mem \<leftarrow> (if sp_size tls_initial \<noteq> 0
               then span_write tls_backing 0 (mem_read mem (sp_data tls_initial) (sp_size tls_initial)) mem else Some mem);
       let result = startup_init\<lparr>sl_params := add64 stack_base 0x100,
         sl_initial_rsp := sub64 (add64 stack_base (sp_size stack)) 24, sl_tls := tls_base,
         sl_tcb := add64 tls_base tls_aligned, sl_dtv := add64 (add64 tls_base tls_aligned) 64\<rparr>;
       let params = EntryParams_bytes \<lparr>ep_argc = 1, ep_padding = 0, ep_argv = add64 stack_base 0x400 # replicate 32 0, ep_entry_addr = entry\<rparr>;
       mem \<leftarrow> span_write stack 0x100 params mem;
       mem \<leftarrow> span_write stack 0x400 (mem_read mem (sp_data argv0) (sp_size argv0)) mem;
       mem \<leftarrow> span_write stack (sp_size stack - 24) (take 16 params) mem;
       mem \<leftarrow> span_write tls_backing tls_aligned (Tcb_bytes \<lparr>tcb_self = sl_tcb result, tcb_dtv = sl_dtv result, tcb_thread = 0,
                tcb_spare = [0, 0], tcb_canary = 0, tcb_fiber = 0\<rparr>) mem;
       mem \<leftarrow> span_write tls_backing (tls_aligned + 64)
               (word_bytes 1 @ word_bytes 1 @ word_bytes (if tls_memory \<noteq> 0 then tls_base else 0)) mem;
       Some (result\<lparr>sl_valid := True\<rparr>, mem)
     })"

section \<open>StartupPageFlags\<close>

definition page_step :: "u32 \<Rightarrow> nat \<Rightarrow> u8 list \<Rightarrow> (u8 list + u8 list) option" where
  "page_step flags page pages =
    (if page < length pages then
       let v = pages ! page OR flags mod 256 in
       if v AND 3 = 3 then Some (Inl []) else Some (Inr (pages[page := v]))
     else None)"

definition segment_pages_bad :: "GuestLoadPlan \<Rightarrow> GuestLoadSegment \<Rightarrow> bool" where
  "segment_pages_bad plan s \<longleftrightarrow> seg_memory_size s = 0 \<or> seg_address s < plan_base plan \<or> seg_flags s AND 0xfffffff8 \<noteq> 0 \<or>
     seg_flags s AND 4 = 0 \<or> sub64 (seg_address s) (plan_base plan) > plan_image_size plan \<or>
     seg_memory_size s > sub64 (plan_image_size plan) (sub64 (seg_address s) (plan_base plan))"

definition segment_pages_step :: "GuestLoadPlan \<Rightarrow> GuestLoadSegment \<Rightarrow> u8 list \<Rightarrow> (u8 list + u8 list) option" where
  "segment_pages_step plan s pages =
    (if segment_pages_bad plan s then Some (Inl [])
     else let offset = sub64 (seg_address s) (plan_base plan);
              first = offset div 4096;
              last = (offset + seg_memory_size s - 1) div 4096
          in for_loop (page_step (seg_flags s)) first (last + 1 - first) pages)"

definition StartupPageFlags :: "GuestLoadPlan \<Rightarrow> u8 list option" where
  "StartupPageFlags plan =
    (if \<not> plan_valid plan \<or> plan_image_size plan = 0 \<or> plan_image_size plan > GuestImageLimit \<or>
        plan_image_size plan mod 4096 \<noteq> 0 \<or> plan_base plan > UINT64_MAX - plan_image_size plan
     then Some []
     else do {
       x \<leftarrow> for_each (segment_pages_step plan) (plan_segments plan) (replicate (plan_image_size plan div 4096) 0);
       case x of Inl r \<Rightarrow> Some r | Inr pages \<Rightarrow> Some pages
     })"

section \<open>Page permissions\<close>

text \<open>A segment touches a page when one of its bytes lies there; a page grants a permission (0 execute, 1 write, 2 read) when a
  segment that touches it has it.\<close>

definition touches :: "GuestLoadPlan \<Rightarrow> nat \<Rightarrow> GuestLoadSegment \<Rightarrow> bool" where
  "touches plan i s \<longleftrightarrow> (\<exists>a. seg_address s \<le> a \<and> a < seg_address s + seg_memory_size s \<and> (a - plan_base plan) div 4096 = i)"

definition page_grants :: "GuestLoadPlan \<Rightarrow> GuestLoadSegment list \<Rightarrow> nat \<Rightarrow> nat \<Rightarrow> bool" where
  "page_grants plan segs i k \<longleftrightarrow> (\<exists>s \<in> set segs. touches plan i s \<and> bit (seg_flags s) k)"

definition pages_hold :: "GuestLoadPlan \<Rightarrow> GuestLoadSegment list \<Rightarrow> u8 list \<Rightarrow> bool" where
  "pages_hold plan segs pages \<longleftrightarrow> length pages = plan_image_size plan div 4096 \<and>
     (\<forall>i < length pages. (\<forall>k < 8. bit (pages ! i) k \<longleftrightarrow> page_grants plan segs i k) \<and> pages ! i < 256 \<and>
        \<not> (page_grants plan segs i 0 \<and> page_grants plan segs i 1))"

definition pages_plannable :: "GuestLoadPlan \<Rightarrow> bool" where
  "pages_plannable plan \<longleftrightarrow> plan_valid plan \<and> 0 < plan_image_size plan \<and> plan_image_size plan \<le> GuestImageLimit \<and>
     4096 dvd plan_image_size plan \<and> plan_base plan + plan_image_size plan \<le> UINT64_MAX \<and>
     (\<forall>s \<in> set (plan_segments plan). \<not> segment_pages_bad plan s) \<and>
     (\<forall>i < plan_image_size plan div 4096. \<not> (page_grants plan (plan_segments plan) i 0 \<and> page_grants plan (plan_segments plan) i 1))"

lemma and_3_iff: "v AND 3 = (3 :: nat) \<longleftrightarrow> bit v 0 \<and> bit v 1"
proof -
  have "v AND 3 = v mod 4" using take_bit_eq_mask [of 2 v] by (simp add: mask_eq_exp_minus_1 take_bit_eq_mod)
  moreover have "bit v 0 \<longleftrightarrow> odd v" "bit v 1 \<longleftrightarrow> odd (v div 2)" by (simp_all add: bit_iff_odd)
  ultimately show ?thesis by presburger
qed

lemma touches_iff:
  assumes "\<not> segment_pages_bad plan s" "plan_base plan + plan_image_size plan \<le> UINT64_MAX"
  shows "touches plan i s \<longleftrightarrow> (seg_address s - plan_base plan) div 4096 \<le> i \<and>
      i \<le> (seg_address s - plan_base plan + seg_memory_size s - 1) div 4096"
    and "(seg_address s - plan_base plan + seg_memory_size s - 1) div 4096 < plan_image_size plan div 4096 \<or> \<not> 4096 dvd plan_image_size plan"
proof -
  define off n where "off = seg_address s - plan_base plan" "n = seg_memory_size s"
  have s: "plan_base plan \<le> seg_address s" "0 < n" "off + n \<le> plan_image_size plan"
    using assms by (auto simp: segment_pages_bad_def u64_simps off_n_def)
  have "touches plan i s \<longleftrightarrow> (\<exists>x. off \<le> x \<and> x < off + n \<and> x div 4096 = i)" (is "_ = ?R")
  proof
    assume "touches plan i s"
    then obtain a where "seg_address s \<le> a" "a < seg_address s + n" "(a - plan_base plan) div 4096 = i" by (auto simp: touches_def off_n_def)
    then show ?R using s(1) by (intro exI [of _ "a - plan_base plan"]) (auto simp: off_n_def)
  next
    assume ?R
    then obtain x where "off \<le> x" "x < off + n" "x div 4096 = i" by blast
    then show "touches plan i s" using s(1) unfolding touches_def by (intro exI [of _ "plan_base plan + x"]) (auto simp: off_n_def)
  qed
  also have "\<dots> \<longleftrightarrow> off div 4096 \<le> i \<and> i \<le> (off + n - 1) div 4096" (is "_ = ?B")
  proof
    assume ?R
    then obtain x where "off \<le> x" "x \<le> off + n - 1" "x div 4096 = i" by auto
    then show ?B using div_le_mono by blast
  next
    assume b: ?B
    show ?R
    proof (cases "off div 4096 = i")
      case True
      then show ?thesis using s by auto
    next
      case False
      then have "off div 4096 < i" "i * 4096 \<le> off + n - 1" using b by (auto simp: less_eq_div_iff_mult_less_eq)
      then have "off < i * 4096" by (simp add: div_less_iff_less_mult)
      then show ?thesis using \<open>i * 4096 \<le> off + n - 1\<close> s(2) by (intro exI [of _ "i * 4096"]) auto
    qed
  qed
  finally show "touches plan i s \<longleftrightarrow> (seg_address s - plan_base plan) div 4096 \<le> i \<and>
      i \<le> (seg_address s - plan_base plan + seg_memory_size s - 1) div 4096" by (simp add: off_n_def)
  show "(seg_address s - plan_base plan + seg_memory_size s - 1) div 4096 < plan_image_size plan div 4096 \<or> \<not> 4096 dvd plan_image_size plan"
    using s(2,3) unfolding off_n_def [symmetric] by (auto simp: div_less_iff_less_mult elim!: dvdE)
qed

text \<open>One segment: the pages from its first to its last one.\<close>

lemma page_loop:
  assumes "first + n \<le> length pages"
  shows "outcome (\<lambda>r. r = [] \<and> (\<exists>i. first \<le> i \<and> i < first + n \<and> (pages ! i OR flags mod 256) AND 3 = 3))
    (\<lambda>ps. length ps = length pages \<and> (\<forall>i < length pages. ps ! i = (if first \<le> i \<and> i < first + n then pages ! i OR flags mod 256 else pages ! i)) \<and>
       (\<forall>i. first \<le> i \<longrightarrow> i < first + n \<longrightarrow> (pages ! i OR flags mod 256) AND 3 \<noteq> 3))
    (for_loop (page_step flags) first n pages)"
proof (rule for_loop_rule [where I = "\<lambda>k ps. length ps = length pages \<and>
      (\<forall>i < length pages. ps ! i = (if first \<le> i \<and> i < k then pages ! i OR flags mod 256 else pages ! i)) \<and>
      (\<forall>i. first \<le> i \<longrightarrow> i < k \<longrightarrow> (pages ! i OR flags mod 256) AND 3 \<noteq> 3)"])
  fix k ps
  assume k: "first \<le> k" "k < first + n" and inv: "length ps = length pages \<and>
      (\<forall>i < length pages. ps ! i = (if first \<le> i \<and> i < k then pages ! i OR flags mod 256 else pages ! i)) \<and>
      (\<forall>i. first \<le> i \<longrightarrow> i < k \<longrightarrow> (pages ! i OR flags mod 256) AND 3 \<noteq> 3)"
  have "ps ! k = pages ! k" "k < length ps" using k inv assms by auto
  then show "outcome (\<lambda>r. r = [] \<and> (\<exists>i. first \<le> i \<and> i < first + n \<and> (pages ! i OR flags mod 256) AND 3 = 3))
    (\<lambda>ps. length ps = length pages \<and> (\<forall>i < length pages. ps ! i = (if first \<le> i \<and> i < Suc k then pages ! i OR flags mod 256 else pages ! i)) \<and>
       (\<forall>i. first \<le> i \<longrightarrow> i < Suc k \<longrightarrow> (pages ! i OR flags mod 256) AND 3 \<noteq> 3)) (page_step flags k ps)"
    using k inv by (auto simp: page_step_def Let_def nth_list_update less_Suc_eq)
qed auto

lemma bit_mod_256: "k < 8 \<Longrightarrow> bit (f mod 256 :: nat) k = bit f k"
  using bit_take_bit_iff [of 8 f k] by (simp add: take_bit_eq_mod)

lemma or_mod_256: "v < 256 \<Longrightarrow> v OR f mod 256 < (256 :: nat)"
proof -
  assume "v < 256"
  then have "take_bit 8 v OR take_bit 8 f = v OR f mod 256" by (simp add: take_bit_eq_mod)
  then have "v OR f mod 256 = take_bit 8 (v OR f)" by simp
  then show ?thesis using take_bit_nat_less_exp [of 8 "v OR f"] by simp
qed

lemma segment_pages_outcome:
  assumes hdr: "plan_base plan + plan_image_size plan \<le> UINT64_MAX" "4096 dvd plan_image_size plan" and s: "s \<in> set (plan_segments plan)"
    and inv: "pages_hold plan pre pages" "set pre \<subseteq> set (plan_segments plan)" "\<forall>s \<in> set pre. \<not> segment_pages_bad plan s"
  shows "outcome (\<lambda>r. r = [] \<and> \<not> pages_plannable plan)
    (\<lambda>ps. pages_hold plan (pre @ [s]) ps \<and> set (pre @ [s]) \<subseteq> set (plan_segments plan) \<and> (\<forall>s \<in> set (pre @ [s]). \<not> segment_pages_bad plan s))
    (segment_pages_step plan s pages)"
proof (cases "segment_pages_bad plan s")
  case True
  then show ?thesis using s by (auto simp: segment_pages_step_def pages_plannable_def)
next
  case False
  let ?first = "(seg_address s - plan_base plan) div 4096" and ?last = "(seg_address s - plan_base plan + seg_memory_size s - 1) div 4096"
  let ?n = "?last + 1 - ?first"
  have base: "plan_base plan \<le> seg_address s" "0 < seg_memory_size s" using False by (auto simp: segment_pages_bad_def)
  then have "?first \<le> ?last" by (intro div_le_mono) simp
  then have n: "?first + ?n = Suc ?last" by simp
  note t = touches_iff [OF False hdr(1)]
  have fit: "?first + ?n \<le> length pages" using t(2) hdr(2) inv(1) unfolding n by (auto simp: pages_hold_def)
  have gr: "page_grants plan (pre @ [s]) i k \<longleftrightarrow> page_grants plan pre i k \<or> (?first \<le> i \<and> i < Suc ?last \<and> bit (seg_flags s) k)" for i k
    using t(1) [of i] by (auto simp: page_grants_def)
  have sub: "page_grants plan (plan_segments plan) i k" if "page_grants plan (pre @ [s]) i k" for i k
    using that inv(2) s by (auto simp: page_grants_def)
  have old: "bit (pages ! i) k = page_grants plan pre i k" "pages ! i < 256" if "i < length pages" "k < 8" for i k
    using inv(1) that by (auto simp: pages_hold_def)
  have wx: "(pages ! i OR seg_flags s mod 256) AND 3 = 3 \<longleftrightarrow> page_grants plan (pre @ [s]) i 0 \<and> page_grants plan (pre @ [s]) i 1"
    if "?first \<le> i" "i < Suc ?last" for i
    using that fit old [of i 0] old [of i 1] unfolding n and_3_iff bit_or_iff gr by (auto simp: bit_mod_256)
  have "segment_pages_step plan s pages = for_loop (page_step (seg_flags s)) ?first ?n pages"
    using False base by (simp add: segment_pages_step_def Let_def u64_simps)
  moreover have "outcome (\<lambda>r. r = [] \<and> \<not> pages_plannable plan)
    (\<lambda>ps. pages_hold plan (pre @ [s]) ps \<and> set (pre @ [s]) \<subseteq> set (plan_segments plan) \<and> (\<forall>s \<in> set (pre @ [s]). \<not> segment_pages_bad plan s))
    (for_loop (page_step (seg_flags s)) ?first ?n pages)"
    using page_loop [OF fit, of "seg_flags s"]
  proof (cases rule: outcomeE)
    case (1 r)
    then obtain i where "?first \<le> i" "i < Suc ?last" "(pages ! i OR seg_flags s mod 256) AND 3 = 3" unfolding n by blast
    then have "page_grants plan (plan_segments plan) i 0 \<and> page_grants plan (plan_segments plan) i 1 \<and> i < plan_image_size plan div 4096"
      using wx sub fit inv(1) unfolding n by (auto simp: pages_hold_def)
    then show ?thesis using 1 by (auto simp: pages_plannable_def)
  next
    case (2 ps)
    have "pages_hold plan (pre @ [s]) ps"
      unfolding pages_hold_def
    proof (intro conjI allI impI)
      show "length ps = plan_image_size plan div 4096" using 2 inv(1) by (simp add: pages_hold_def)
      fix i assume i: "i < length ps"
      have p: "ps ! i = (if ?first \<le> i \<and> i < Suc ?last then pages ! i OR seg_flags s mod 256 else pages ! i)"
        using 2 i unfolding n by simp
      show "ps ! i < 256" using p old(2) [of i 0] i 2 or_mod_256 by auto
      show "bit (ps ! i) k = page_grants plan (pre @ [s]) i k" if "k < 8" for k
        using p old(1) [of i k] i 2 that by (auto simp: gr bit_or_iff bit_mod_256)
      show "\<not> (page_grants plan (pre @ [s]) i 0 \<and> page_grants plan (pre @ [s]) i 1)"
      proof (cases "?first \<le> i \<and> i < Suc ?last")
        case True
        then show ?thesis using 2 wx unfolding n by blast
      next
        case False
        then show ?thesis using inv(1) i 2 by (auto simp: gr pages_hold_def)
      qed
    qed
    then show ?thesis using 2 inv s False by auto
  qed
  ultimately show ?thesis by simp
qed

text \<open>C18: StartupPageFlags returns for every plan without an access outside its page vector.  It rejects a plan exactly when its
  image or one of its segments is malformed or when some page would be both writable and executable because of the
  segments that touch it; otherwise it returns one entry per 4 KiB page, which grants exactly the permissions of the
  segments that touch the page.\<close>

theorem startup_pages_exact:
  "\<exists>pages. StartupPageFlags plan = Some pages \<and>
     (if pages_plannable plan then pages_hold plan (plan_segments plan) pages else pages = [])"
proof (cases "\<not> plan_valid plan \<or> plan_image_size plan = 0 \<or> plan_image_size plan > GuestImageLimit \<or>
    plan_image_size plan mod 4096 \<noteq> 0 \<or> plan_base plan > UINT64_MAX - plan_image_size plan")
  case True
  then have "\<not> pages_plannable plan" by (auto simp: pages_plannable_def)
  then show ?thesis using True by (simp add: StartupPageFlags_def)
next
  case False
  then have hdr: "plan_base plan + plan_image_size plan \<le> UINT64_MAX" "4096 dvd plan_image_size plan" by (auto simp: mod_eq_0_iff_dvd)
  have "outcome (\<lambda>r. r = [] \<and> \<not> pages_plannable plan)
    (\<lambda>ps. pages_hold plan (plan_segments plan) ps \<and> set (plan_segments plan) \<subseteq> set (plan_segments plan) \<and>
       (\<forall>s \<in> set (plan_segments plan). \<not> segment_pages_bad plan s))
    (for_each (segment_pages_step plan) (plan_segments plan) (replicate (plan_image_size plan div 4096) 0))"
  proof (rule for_each_rule [where I = "\<lambda>pre ps. pages_hold plan pre ps \<and> set pre \<subseteq> set (plan_segments plan) \<and>
        (\<forall>s \<in> set pre. \<not> segment_pages_bad plan s)"])
    show "pages_hold plan [] (replicate (plan_image_size plan div 4096) 0) \<and> set [] \<subseteq> set (plan_segments plan) \<and>
        (\<forall>s \<in> set []. \<not> segment_pages_bad plan s)" by (simp add: pages_hold_def page_grants_def)
  qed (rule segment_pages_outcome [OF hdr]; blast)
  then show ?thesis
    unfolding StartupPageFlags_def if_not_P [OF False]
  proof (rule outcome_bind)
    fix ps assume "pages_hold plan (plan_segments plan) ps \<and> set (plan_segments plan) \<subseteq> set (plan_segments plan) \<and>
       (\<forall>s \<in> set (plan_segments plan). \<not> segment_pages_bad plan s)"
    moreover from this have "pages_plannable plan" using False by (auto simp: pages_plannable_def pages_hold_def)
    ultimately show "\<exists>pages. Some ps = Some pages \<and>
       (if pages_plannable plan then pages_hold plan (plan_segments plan) pages else pages = [])" by simp
  qed simp
qed

section \<open>Spans of host memory\<close>

lemma length_mem_read [simp]: "length (mem_read mem a n) = n"
  by (simp add: mem_read_def)

lemma mem_read_write_in:
  "off + length bs \<le> n \<Longrightarrow> mem_read (mem_write mem (a + off) bs) a n = splice (mem_read mem a n) off bs"
  by (rule nth_equalityI) (auto simp: mem_read_def mem_write_def nth_splice)

lemma mem_read_write_out:
  "disjoint_ranges (b, length bs) (a, n) \<Longrightarrow> mem_read (mem_write mem b bs) a n = mem_read mem a n"
  by (auto simp: mem_read_def mem_write_def disjoint_ranges_def)

lemma mem_write_outside: "\<not> (a \<le> x \<and> x < a + n) \<Longrightarrow> off + length bs \<le> n \<Longrightarrow> mem_write mem (a + off) bs x = mem x"
  by (auto simp: mem_write_def)

text \<open>Filling a span and then writing three disjoint pieces in it, in the order of their offsets.\<close>

lemma splice_replicate:
  "k + length xs \<le> m \<Longrightarrow> splice (pre @ replicate m z) (length pre + k) xs = pre @ replicate k z @ xs @ replicate (m - k - length xs) z"
  by (simp add: splice_def min_def)

lemma three_pieces:
  assumes "a + length xs \<le> b" "b + length ys \<le> c" "c + length zs \<le> n"
  shows "splice (splice (splice (replicate n z) a xs) b ys) c zs =
    replicate a z @ xs @ replicate (b - a - length xs) z @ ys @ replicate (c - b - length ys) z @ zs @ replicate (n - c - length zs) z"
proof -
  have "splice (replicate n z) a xs = (replicate a z @ xs) @ replicate (n - a - length xs) z"
    using splice_replicate [of a xs n "[]" z] assms by simp
  moreover have "splice ((replicate a z @ xs) @ replicate (n - a - length xs) z) b ys =
      (replicate a z @ xs @ replicate (b - a - length xs) z @ ys) @ replicate (n - b - length ys) z"
    using splice_replicate [of "b - a - length xs" ys "n - a - length xs" "replicate a z @ xs" z] assms by (simp add: algebra_simps)
  moreover have "splice ((replicate a z @ xs @ replicate (b - a - length xs) z @ ys) @ replicate (n - b - length ys) z) c zs =
      (replicate a z @ xs @ replicate (b - a - length xs) z @ ys @ replicate (c - b - length ys) z @ zs) @ replicate (n - c - length zs) z"
    using splice_replicate [of "c - b - length ys" zs "n - b - length ys" "replicate a z @ xs @ replicate (b - a - length xs) z @ ys" z] assms
    by (simp add: algebra_simps)
  ultimately show ?thesis by simp
qed

lemma splice_all: "length xs = length ys \<Longrightarrow> splice xs 0 ys = ys"
  by (simp add: splice_def)

section \<open>The startup layout\<close>

lemma length_concat_words: "length (concat (map word_bytes xs)) = 8 * length xs"
  by (induction xs) auto

lemma layout_sizes:
  "length (ep_argv p) = 33 \<Longrightarrow> length (EntryParams_bytes p) = 280"
  "length (tcb_spare t) = 2 \<Longrightarrow> length (Tcb_bytes t) = 56"
  by (simp_all add: EntryParams_bytes_def Tcb_bytes_def int_bytes_def length_concat_words)

lemma tls_align_exact:
  assumes "m \<le> 16 * 1024 * 1024"
  shows "tls_align m = (m + 31) div 32 * 32"
proof -
  let ?x = "m + 31"
  have eq: "UINT64_MAX - 31 = push_bit 5 (mask 59 :: nat)" by (simp add: push_bit_eq_mult mask_eq_exp_minus_1)
  have "?x AND (UINT64_MAX - 31) = push_bit 5 (drop_bit 5 ?x AND mask 59)"
    unfolding eq by (rule bit_eqI) (auto simp: bit_simps)
  also have "drop_bit 5 ?x AND mask 59 = drop_bit 5 ?x"
    using assms by (simp add: take_bit_eq_mask [symmetric] take_bit_nat_eq_self_iff drop_bit_eq_div)
  finally show ?thesis using assms by (simp add: tls_align_def u64_simps push_bit_eq_mult drop_bit_eq_div)
qed

text \<open>The memory of a prepared thread: the initial stack with the entry parameters, the argument string and the two words that
  the entry finds on top of it; the TLS image, the thread control block and the vector of the one module.\<close>

definition startup_params :: "u64 \<Rightarrow> u64 \<Rightarrow> byte list" where
  "startup_params base entry = EntryParams_bytes \<lparr>ep_argc = 1, ep_padding = 0, ep_argv = (base + 0x400) # replicate 32 0, ep_entry_addr = entry\<rparr>"

definition stack_image :: "u64 \<Rightarrow> u64 \<Rightarrow> byte list \<Rightarrow> byte list" where
  "stack_image base entry arg = replicate 0x100 0 @ startup_params base entry @ replicate 488 0 @ arg @
     replicate (GuestStartupStackSize - 1048 - length arg) 0 @ take 16 (startup_params base entry) @ replicate 8 0"

definition tls_image :: "u64 \<Rightarrow> u64 \<Rightarrow> u64 \<Rightarrow> byte list \<Rightarrow> byte list" where
  "tls_image base sz memory initial = (let tcb = base + tls_align memory in
     initial @ replicate (tls_align memory - length initial) 0 @
     Tcb_bytes \<lparr>tcb_self = tcb, tcb_dtv = tcb + 64, tcb_thread = 0, tcb_spare = [0, 0], tcb_canary = 0, tcb_fiber = 0\<rparr> @ replicate 8 0 @
     word_bytes 1 @ word_bytes 1 @ word_bytes (if memory \<noteq> 0 then base else 0) @ replicate (sz - tls_align memory - 88) 0)"

definition startup_done :: "host_span \<Rightarrow> host_span \<Rightarrow> host_span \<Rightarrow> u64 \<Rightarrow> u64 \<Rightarrow> host_span \<Rightarrow> host_memory \<Rightarrow> GuestStartupLayout \<Rightarrow> host_memory \<Rightarrow> bool" where
  "startup_done stack tls initial memory entry arg mem l mem' \<longleftrightarrow>
     sl_params l = sp_data stack + 0x100 \<and> sl_initial_rsp l = sp_data stack + GuestStartupStackSize - 24 \<and> sl_initial_rsp l mod 16 = 8 \<and>
     sl_tls l = sp_data tls \<and> sl_tcb l = sp_data tls + tls_align memory \<and> sl_tcb l mod 32 = 0 \<and> sl_dtv l = sl_tcb l + 64 \<and>
     sl_dtv l + 24 \<le> sp_data tls + sp_size tls \<and>
     mem_read mem' (sp_data stack) (sp_size stack) = stack_image (sp_data stack) entry (mem_read mem (sp_data arg) (sp_size arg)) \<and>
     mem_read mem' (sp_data tls) (sp_size tls) =
       tls_image (sp_data tls) (sp_size tls) memory (mem_read mem (sp_data initial) (sp_size initial)) \<and>
     (\<forall>a. \<not> (sp_data stack \<le> a \<and> a < sp_data stack + sp_size stack) \<longrightarrow> \<not> (sp_data tls \<le> a \<and> a < sp_data tls + sp_size tls) \<longrightarrow> mem' a = mem a)"

text \<open>The eight writes, on addresses.\<close>

lemma startup_writes:
  fixes mem :: host_memory
  assumes dis: "disjoint_ranges (S, N) (T, M)" and arg: "argn = 0 \<or> disjoint_ranges (S, N) (A, argn) \<and> disjoint_ranges (T, M) (A, argn)"
    and ini: "inin = 0 \<or> disjoint_ranges (S, N) (I, inin) \<and> disjoint_ranges (T, M) (I, inin)"
    and len: "length params = 280" "argn \<le> 256" "1304 \<le> hi" "N = hi + 24" "inin \<le> al" "length tcb = 56" "length dtv = 24" "al + 88 \<le> M"
  defines "m2 \<equiv> mem_write (mem_write mem S (replicate N 0)) T (replicate M 0)"
  defines "m4 \<equiv> mem_write (mem_write m2 T (mem_read m2 I inin)) (S + 256) params"
  defines "m8 \<equiv> mem_write (mem_write (mem_write (mem_write m4 (S + 1024) (mem_read m4 A argn)) (S + hi) (take 16 params)) (T + al) tcb) (T + (al + 64)) dtv"
  shows "mem_read m8 S N = replicate 256 0 @ params @ replicate 488 0 @ mem_read mem A argn @ replicate (N - 1048 - argn) 0 @ take 16 params @ replicate 8 0"
    and "mem_read m8 T M = mem_read mem I inin @ replicate (al - inin) 0 @ tcb @ replicate 8 0 @ dtv @ replicate (M - al - 88) 0"
    and "\<not> (S \<le> a \<and> a < S + N) \<Longrightarrow> \<not> (T \<le> a \<and> a < T + M) \<Longrightarrow> m8 a = mem a"
proof -
  have rep: "mem_read m2 I inin = mem_read mem I inin"
    using ini by (cases "inin = 0") (auto simp: m2_def mem_read_write_out, simp add: mem_read_def)
  have sub: "off + n \<le> M \<Longrightarrow> disjoint_ranges (T + off, n) (S, N)" "off + n \<le> N \<Longrightarrow> disjoint_ranges (S + off, n) (T, M)"
    "n \<le> M \<Longrightarrow> disjoint_ranges (T, n) (S, N)" for off n using dis by (auto simp: disjoint_ranges_def)
  have "mem_read m4 A argn = mem_read mem A argn"
  proof (cases "argn = 0")
    case False
    then have d: "disjoint_ranges (S, N) (A, argn)" "disjoint_ranges (T, M) (A, argn)" "disjoint_ranges (S + 256, 280) (A, argn)"
        "disjoint_ranges (T, inin) (A, argn)" using arg len by (auto simp: disjoint_ranges_def)
    then show ?thesis by (simp add: m4_def m2_def mem_read_write_out len)
  qed (simp add: mem_read_def)
  then have m8: "m8 = mem_write (mem_write (mem_write (mem_write (mem_write (mem_write m2 T (mem_read mem I inin)) (S + 256) params)
      (S + 1024) (mem_read mem A argn)) (S + hi) (take 16 params)) (T + al) tcb) (T + (al + 64)) dtv"
    by (simp add: m8_def m4_def rep)
  have zero: "mem_read m2 S N = replicate N 0" "mem_read m2 T M = replicate M 0"
    using sub(3) [of M] mem_read_write_in [of 0 "replicate N 0" N mem S] mem_read_write_in [of 0 "replicate M 0" M _ T]
    by (simp_all add: m2_def mem_read_write_out splice_all)
  have "mem_read m8 S N = splice (splice (splice (replicate N 0) 256 params) 1024 (mem_read mem A argn)) hi (take 16 params)"
    unfolding m8 using len sub by (simp add: mem_read_write_out mem_read_write_in zero(1) [unfolded len(4)])
  also have "\<dots> = replicate 256 0 @ params @ replicate (1024 - 256 - length params) 0 @ mem_read mem A argn @
      replicate (hi - 1024 - length (mem_read mem A argn)) 0 @ take 16 params @ replicate (N - hi - length (take 16 params)) 0"
    using len by (intro three_pieces) auto
  finally show "mem_read m8 S N = replicate 256 0 @ params @ replicate 488 0 @ mem_read mem A argn @ replicate (N - 1048 - argn) 0 @ take 16 params @ replicate 8 0"
    using len by simp
  have "mem_read m8 T M = splice (splice (splice (replicate M 0) 0 (mem_read mem I inin)) al tcb) (al + 64) dtv"
    unfolding m8 using len sub mem_read_write_in [of 0 "mem_read mem I inin" M m2 T] by (simp add: mem_read_write_out mem_read_write_in zero)
  also have "\<dots> = replicate 0 0 @ mem_read mem I inin @ replicate (al - 0 - length (mem_read mem I inin)) 0 @ tcb @
      replicate (al + 64 - al - length tcb) 0 @ dtv @ replicate (M - (al + 64) - length dtv) 0"
    using len by (intro three_pieces) auto
  finally show "mem_read m8 T M = mem_read mem I inin @ replicate (al - inin) 0 @ tcb @ replicate 8 0 @ dtv @ replicate (M - al - 88) 0"
    using len by simp
  show "m8 a = mem a" if "\<not> (S \<le> a \<and> a < S + N)" "\<not> (T \<le> a \<and> a < T + M)"
  proof -
    note out = mem_write_outside [OF that(1)] mem_write_outside [OF that(2)]
      mem_write_outside [OF that(1), of 0, simplified] mem_write_outside [OF that(2), of 0, simplified]
    show ?thesis unfolding m8 m2_def using len by (simp add: out)
  qed
qed

lemma mem_write_nil [simp]: "mem_write mem a [] = mem"
  by (auto simp: mem_write_def fun_eq_iff)

lemma no_overlap_disjoint:
  "\<not> span_overlaps a n b m \<Longrightarrow> n = 0 \<or> a + n \<le> UINT64_MAX \<Longrightarrow> b + m \<le> UINT64_MAX \<Longrightarrow> 0 < m \<Longrightarrow> n = 0 \<or> disjoint_ranges (b, m) (a, n)"
  by (auto simp: span_overlaps_def disjoint_ranges_def u64_simps)

text \<open>C17: PrepareGuestStartup returns for all spans without a write outside the stack or the TLS backing.  A valid layout has the
  stack pointer 8 modulo 16 at the two words of the entry parameters, the thread control block and its vector aligned
  inside the TLS backing; the stack holds exactly the entry parameters, the argument string and zeros, the TLS backing
  exactly the initial image, zeros, the control block and the vector, and no other byte of the host has
  changed.  Any other result reports an error and has changed nothing.\<close>

theorem startup_layout_exact:
  "\<exists>l mem'. PrepareGuestStartup stack tls initial memory alignment entry arg mem = Some (l, mem') \<and>
     (if sl_valid l then sl_error l = '''' \<and> startup_done stack tls initial memory entry arg mem l mem'
      else sl_error l \<noteq> '''' \<and> mem' = mem)"
proof (cases "startup_budget_bad stack tls initial memory alignment entry arg mem \<or> tls_align memory + 64 + 3 * 8 > sp_size tls \<or>
    startup_aliases stack tls initial arg")
  case True
  then show ?thesis by (auto simp: PrepareGuestStartup_def startup_init_def Let_def)
next
  case False
  let ?S = "sp_data stack" and ?N = "sp_size stack" and ?T = "sp_data tls" and ?al = "tls_align memory"
  have N: "?N = 131048 + 24" "?N = GuestStartupStackSize" and S: "?S mod 16 = 0" "?S + ?N \<le> UINT64_MAX" and T: "?T mod 32 = 0" "?T + sp_size tls \<le> UINT64_MAX"
    and mem: "memory \<le> 16 * 1024 * 1024" "sp_size initial \<le> memory" and arg: "sp_size arg \<le> 256"
    using False by (auto simp: startup_budget_bad_def GuestStartupStackSize_def)
  have al: "memory \<le> ?al" "?al mod 32 = 0" using tls_align_exact [OF mem(1)] by auto
  have fit: "?al + 88 \<le> sp_size tls" using False by simp
  have "sp_size initial = 0 \<or> sp_data initial + sp_size initial \<le> UINT64_MAX" "sp_size arg = 0 \<or> sp_data arg + sp_size arg \<le> UINT64_MAX"
    using False unfolding startup_aliases_def by linarith+
  then have fits: "sp_size initial = 0 \<or> sp_data initial + sp_size initial \<le> UINT64_MAX" "sp_size arg = 0 \<or> sp_data arg + sp_size arg \<le> UINT64_MAX"
    "?N = 0 \<or> ?S + ?N \<le> UINT64_MAX" "0 < ?N" "0 < sp_size tls" using S N fit by auto
  have no: "\<not> span_overlaps ?S ?N ?T (sp_size tls)" "\<not> span_overlaps (sp_data initial) (sp_size initial) ?S ?N"
    "\<not> span_overlaps (sp_data initial) (sp_size initial) ?T (sp_size tls)" "\<not> span_overlaps (sp_data arg) (sp_size arg) ?S ?N"
    "\<not> span_overlaps (sp_data arg) (sp_size arg) ?T (sp_size tls)" using False unfolding startup_aliases_def by blast+
  have dis: "disjoint_ranges (?S, ?N) (?T, sp_size tls)"
    "sp_size arg = 0 \<or> disjoint_ranges (?S, ?N) (sp_data arg, sp_size arg) \<and> disjoint_ranges (?T, sp_size tls) (sp_data arg, sp_size arg)"
    "sp_size initial = 0 \<or> disjoint_ranges (?S, ?N) (sp_data initial, sp_size initial) \<and> disjoint_ranges (?T, sp_size tls) (sp_data initial, sp_size initial)"
    using no_overlap_disjoint [OF no(1) fits(3) T(2) fits(5)] no_overlap_disjoint [OF no(2) fits(1) S(2) fits(4)]
      no_overlap_disjoint [OF no(3) fits(1) T(2) fits(5)] no_overlap_disjoint [OF no(4) fits(2) S(2) fits(4)]
      no_overlap_disjoint [OF no(5) fits(2) T(2) fits(5)] disjoint_ranges_sym
      fits(4) [THEN gr_implies_not0] by blast+
  define params where "params = startup_params ?S entry"
  define tcb where "tcb = Tcb_bytes \<lparr>tcb_self = ?T + ?al, tcb_dtv = ?T + ?al + 64, tcb_thread = 0, tcb_spare = [0, 0], tcb_canary = 0, tcb_fiber = 0\<rparr>"
  define ptr where "ptr = (if memory \<noteq> 0 then ?T else 0)"
  define dtv where "dtv = word_bytes 1 @ word_bytes 1 @ word_bytes ptr"
  have len: "length params = 280" "length tcb = 56" "length dtv = 24"
    by (simp_all add: params_def startup_params_def tcb_def dtv_def layout_sizes)
  have ex: "add64 ?S 0x100 = ?S + 0x100" "add64 ?S 0x400 = ?S + 0x400" "sub64 (add64 ?S ?N) 24 = ?S + ?N - 24"
    "add64 ?T ?al = ?T + ?al" "add64 (?T + ?al) 64 = ?T + ?al + 64" using S T N(1) fit by (simp_all add: u64_simps)
  note w = startup_writes [OF dis len(1) arg _ N(1) _ len(2,3) fit, where mem = mem]
  have le: "1304 \<le> (131048 :: nat)" "sp_size initial \<le> ?al" using mem al by simp_all
  note w = w [OF le]
  have bad: "\<not> startup_budget_bad stack tls initial memory alignment entry arg mem" "\<not> ?al + 64 + 3 * 8 > sp_size tls"
    "\<not> startup_aliases stack tls initial arg" using False by blast+
  have ini: "(if sp_size initial \<noteq> 0 then span_write tls 0 (mem_read m (sp_data initial) (sp_size initial)) m else Some m) =
      Some (mem_write m ?T (mem_read m (sp_data initial) (sp_size initial)))" for m
    using fit le(2) by (auto simp: span_write_def mem_read_def)
  let ?fill = "mem_write (mem_write mem ?S (replicate ?N 0)) ?T (replicate (sp_size tls) 0)"
  let ?m4 = "mem_write (mem_write ?fill ?T (mem_read ?fill (sp_data initial) (sp_size initial))) (?S + 256) params"
  let ?m8 = "mem_write (mem_write (mem_write (mem_write ?m4 (?S + 1024) (mem_read ?m4 (sp_data arg) (sp_size arg))) (?S + 131048)
      (take 16 params)) (?T + ?al) tcb) (?T + (?al + 64)) dtv"
  have run: "PrepareGuestStartup stack tls initial memory alignment entry arg mem = Some (startup_init\<lparr>sl_params := ?S + 0x100,
      sl_initial_rsp := ?S + ?N - 24, sl_tls := ?T, sl_tcb := ?T + ?al, sl_dtv := ?T + ?al + 64, sl_valid := True\<rparr>, ?m8)"
    unfolding PrepareGuestStartup_def if_not_P [OF bad(1)] Let_def if_not_P [OF bad(2)] if_not_P [OF bad(3)] ini ex
      startup_params_def [symmetric] params_def [symmetric] ptr_def [symmetric] dtv_def [symmetric]
    using len N(1) arg fit
    by (simp add: span_write_def tcb_def [symmetric])
  have "(?T + ?al) mod 32 = 0" using T(1) al(2) by (simp add: mod_eq_0_iff_dvd)
  moreover have "(?S + ?N - 24) mod 16 = 8"
  proof -
    have "?S + ?N - 24 = 131048 + ?S" using N(1) by simp
    also have "\<dots> mod 16 = (131048 + ?S mod 16) mod 16" by (rule mod_add_right_eq [symmetric])
    finally show ?thesis using S(1) by simp
  qed
  moreover have "mem_read ?m8 ?S ?N = stack_image ?S entry (mem_read mem (sp_data arg) (sp_size arg))"
    using w(1) N by (simp add: stack_image_def params_def)
  moreover have "mem_read ?m8 ?T (sp_size tls) = tls_image ?T (sp_size tls) memory (mem_read mem (sp_data initial) (sp_size initial))"
    using w(2) unfolding tls_image_def Let_def tcb_def dtv_def ptr_def by simp
  ultimately show ?thesis
    using w(3) N(2) fit by (simp add: run startup_init_def startup_done_def)
qed

end
