(* ===== verification/Ordered_Map.thy ===== *)
theory Ordered_Map
  imports Prelude
begin

text \<open>
  \<open>std::map\<close> with 64-bit keys.  A map is a list of key/value pairs sorted by key; an iterator is
  the key of the element it points to (the containers of the memory manager never change a key
  in place, and erasing or inserting other elements keeps a \<open>std::map\<close> iterator valid);
  \<open>end()\<close> is \<open>None\<close>.  The locale \<open>ordered_map\<close> states what the clients of the container rely
  on; the sorted lists are shown to be an instance of it.
\<close>

section \<open>The operations\<close>

type_synonym 'v omap = "(u64 \<times> 'v) list"

text \<open>\<open>find\<close> and dereferencing an iterator.\<close>

fun om_find :: "'v omap \<Rightarrow> u64 \<Rightarrow> 'v option" where
  "om_find [] k = None"
| "om_find ((j, v) # m) k = (if j = k then Some v else om_find m k)"

text \<open>\<open>m[k] = v\<close>, and assigning through an iterator.\<close>

fun om_set :: "'v omap \<Rightarrow> u64 \<Rightarrow> 'v \<Rightarrow> 'v omap" where
  "om_set [] k v = [(k, v)]"
| "om_set ((j, w) # m) k v =
    (if k < j then (k, v) # (j, w) # m else if k = j then (k, v) # m else (j, w) # om_set m k v)"

text \<open>\<open>emplace\<close> and \<open>emplace_hint\<close>: an element that is already there stays.\<close>

definition om_emplace :: "'v omap \<Rightarrow> u64 \<Rightarrow> 'v \<Rightarrow> 'v omap" where
  "om_emplace m k v = (if om_find m k = None then om_set m k v else m)"

fun om_erase :: "'v omap \<Rightarrow> u64 \<Rightarrow> 'v omap" where
  "om_erase [] k = []"
| "om_erase ((j, w) # m) k = (if j = k then m else (j, w) # om_erase m k)"

text \<open>\<open>std::prev(m.upper_bound(k))\<close>; undefined when \<open>upper_bound\<close> is \<open>begin()\<close>.\<close>

fun om_floor :: "'v omap \<Rightarrow> u64 \<Rightarrow> u64 option" where
  "om_floor [] k = None"
| "om_floor ((j, w) # m) k =
    (if k < j then None else case om_floor m k of Some i \<Rightarrow> Some i | None \<Rightarrow> Some j)"

text \<open>\<open>std::next\<close>: the key after \<open>k\<close>, \<open>None\<close> for \<open>end()\<close>.\<close>

fun om_next :: "'v omap \<Rightarrow> u64 \<Rightarrow> u64 option" where
  "om_next [] k = None"
| "om_next ((j, w) # m) k = (if k < j then Some j else om_next m k)"

text \<open>\<open>std::prev\<close>: the key before \<open>k\<close>, \<open>None\<close> when the iterator is \<open>begin()\<close>.\<close>

fun om_prev :: "'v omap \<Rightarrow> u64 \<Rightarrow> u64 option" where
  "om_prev [] k = None"
| "om_prev ((j, w) # m) k =
    (if k \<le> j then None else case om_prev m k of Some i \<Rightarrow> Some i | None \<Rightarrow> Some j)"

definition om_begin :: "'v omap \<Rightarrow> u64 option" where
  "om_begin m = (case m of [] \<Rightarrow> None | (k, v) # _ \<Rightarrow> Some k)"

definition om_last :: "'v omap \<Rightarrow> u64 option" where
  "om_last m = (if m = [] then None else Some (fst (last m)))"

definition om_sorted :: "'v omap \<Rightarrow> bool" where
  "om_sorted m \<longleftrightarrow> sorted_wrt (<) (map fst m)"

section \<open>The contract\<close>

locale ordered_map =
  fixes invar :: "'m \<Rightarrow> bool"
    and lookup :: "'m \<Rightarrow> u64 \<Rightarrow> 'v option"
    and assign :: "'m \<Rightarrow> u64 \<Rightarrow> 'v \<Rightarrow> 'm"
    and erase :: "'m \<Rightarrow> u64 \<Rightarrow> 'm"
    and floor :: "'m \<Rightarrow> u64 \<Rightarrow> u64 option"
    and succ :: "'m \<Rightarrow> u64 \<Rightarrow> u64 option"
    and pred :: "'m \<Rightarrow> u64 \<Rightarrow> u64 option"
  assumes invar_assign: "invar m \<Longrightarrow> invar (assign m k v)"
    and invar_erase: "invar m \<Longrightarrow> invar (erase m k)"
    and lookup_assign: "invar m \<Longrightarrow> lookup (assign m k v) = (lookup m)(k \<mapsto> v)"
    and lookup_erase: "invar m \<Longrightarrow> lookup (erase m k) = (lookup m)(k := None)"
    and floor_Some: "invar m \<Longrightarrow> floor m k = Some j \<longleftrightarrow>
          lookup m j \<noteq> None \<and> j \<le> k \<and> (\<forall>i. lookup m i \<noteq> None \<longrightarrow> i \<le> k \<longrightarrow> i \<le> j)"
    and floor_None: "invar m \<Longrightarrow> floor m k = None \<longleftrightarrow> (\<forall>i. lookup m i \<noteq> None \<longrightarrow> k < i)"
    and succ_Some: "invar m \<Longrightarrow> succ m k = Some j \<longleftrightarrow>
          lookup m j \<noteq> None \<and> k < j \<and> (\<forall>i. lookup m i \<noteq> None \<longrightarrow> k < i \<longrightarrow> j \<le> i)"
    and succ_None: "invar m \<Longrightarrow> succ m k = None \<longleftrightarrow> (\<forall>i. lookup m i \<noteq> None \<longrightarrow> i \<le> k)"
    and pred_Some: "invar m \<Longrightarrow> pred m k = Some j \<longleftrightarrow>
          lookup m j \<noteq> None \<and> j < k \<and> (\<forall>i. lookup m i \<noteq> None \<longrightarrow> i < k \<longrightarrow> i \<le> j)"
    and pred_None: "invar m \<Longrightarrow> pred m k = None \<longleftrightarrow> (\<forall>i. lookup m i \<noteq> None \<longrightarrow> k \<le> i)"
begin

lemma floor_key: "invar m \<Longrightarrow> lookup m k \<noteq> None \<Longrightarrow> floor m k = Some k"
  by (simp add: floor_Some)

lemma floorE:
  assumes "invar m" and "floor m k = Some j"
  obtains v where "lookup m j = Some v" "j \<le> k" "\<And>i. lookup m i \<noteq> None \<Longrightarrow> i \<le> k \<Longrightarrow> i \<le> j"
  using assms by (auto simp: floor_Some)

lemma succE:
  assumes "invar m" and "succ m k = Some j"
  obtains v where "lookup m j = Some v" "k < j" "\<And>i. lookup m i \<noteq> None \<Longrightarrow> k < i \<Longrightarrow> j \<le> i"
  using assms by (auto simp: succ_Some)

lemma predE:
  assumes "invar m" and "pred m k = Some j"
  obtains v where "lookup m j = Some v" "j < k" "\<And>i. lookup m i \<noteq> None \<Longrightarrow> i < k \<Longrightarrow> i \<le> j"
  using assms by (auto simp: pred_Some)

text \<open>Between an element and its successor there is nothing, seen from both sides.\<close>

lemma succ_pred:
  assumes "invar m" and "lookup m k \<noteq> None" and "succ m k = Some j"
  shows "pred m j = Some k"
  using assms by (auto simp: succ_Some pred_Some)

lemma floor_below_succ:
  assumes "invar m" and "lookup m k \<noteq> None" and "succ m k = Some j" and "k \<le> a" and "a < j"
  shows "floor m a = Some k"
  using assms by (auto simp: succ_Some floor_Some)

end

section \<open>Sorted lists implement the contract\<close>

lemma om_sorted_Cons: "om_sorted ((j, v) # m) \<longleftrightarrow> om_sorted m \<and> (\<forall>(i, w) \<in> set m. j < i)"
  by (auto simp: om_sorted_def)

lemma om_sorted_Nil [simp]: "om_sorted []"
  by (simp add: om_sorted_def)

lemma om_find_key: "om_find m k \<noteq> None \<longleftrightarrow> k \<in> fst ` set m"
  by (induction m k rule: om_find.induct) force+

lemma om_find_mem: "om_sorted m \<Longrightarrow> om_find m k = Some v \<longleftrightarrow> (k, v) \<in> set m"
  by (induction m k rule: om_find.induct) (auto simp: om_sorted_Cons)

lemma keys_om_set: "fst ` set (om_set m k v) = insert k (fst ` set m)"
  by (induction m k v rule: om_set.induct) auto

lemma om_sorted_keys: "om_sorted ((j, v) # m) \<longleftrightarrow> om_sorted m \<and> (\<forall>i \<in> fst ` set m. j < i)"
  by (auto simp: om_sorted_Cons)

lemma om_sorted_set: "om_sorted m \<Longrightarrow> om_sorted (om_set m k v)"
  by (induction m k v rule: om_set.induct) (auto simp: om_sorted_keys keys_om_set)

lemma om_find_above: "om_sorted ((j, v) # m) \<Longrightarrow> k \<le> j \<Longrightarrow> om_find m k = None"
  using om_find_key [of m k] by (auto simp: om_sorted_Cons)

lemma om_find_set: "om_sorted m \<Longrightarrow> om_find (om_set m k v) = (om_find m)(k \<mapsto> v)"
  by (induction m k v rule: om_set.induct) (auto simp: om_sorted_keys fun_eq_iff)

lemma keys_om_erase: "fst ` set (om_erase m k) \<subseteq> fst ` set m"
  by (induction m k rule: om_erase.induct) auto

lemma om_sorted_erase: "om_sorted m \<Longrightarrow> om_sorted (om_erase m k)"
  using keys_om_erase by (induction m k rule: om_erase.induct) (fastforce simp: om_sorted_keys)+

lemma om_find_erase: "om_sorted m \<Longrightarrow> om_find (om_erase m k) = (om_find m)(k := None)"
  by (induction m k rule: om_erase.induct)
    (auto simp: om_sorted_keys fun_eq_iff om_find_above [unfolded om_sorted_keys])

lemma om_floor_iff:
  assumes "om_sorted m"
  shows "case om_floor m k of
      None \<Rightarrow> (\<forall>i \<in> fst ` set m. k < i)
    | Some j \<Rightarrow> j \<in> fst ` set m \<and> j \<le> k \<and> (\<forall>i \<in> fst ` set m. i \<le> k \<longrightarrow> i \<le> j)"
  using assms
  by (induction m k rule: om_floor.induct) (fastforce simp: om_sorted_keys split: option.splits)+

lemma om_next_iff:
  assumes "om_sorted m"
  shows "case om_next m k of
      None \<Rightarrow> (\<forall>i \<in> fst ` set m. i \<le> k)
    | Some j \<Rightarrow> j \<in> fst ` set m \<and> k < j \<and> (\<forall>i \<in> fst ` set m. k < i \<longrightarrow> j \<le> i)"
  using assms
  by (induction m k rule: om_next.induct) (fastforce simp: om_sorted_keys split: option.splits)+

lemma om_prev_iff:
  assumes "om_sorted m"
  shows "case om_prev m k of
      None \<Rightarrow> (\<forall>i \<in> fst ` set m. k \<le> i)
    | Some j \<Rightarrow> j \<in> fst ` set m \<and> j < k \<and> (\<forall>i \<in> fst ` set m. i < k \<longrightarrow> i \<le> j)"
  using assms
  by (induction m k rule: om_prev.induct) (fastforce simp: om_sorted_keys split: option.splits)+

text \<open>Greatest and least elements are unique.\<close>

lemma greatest_iff:
  fixes i j :: nat
  assumes "i \<in> K" "P i" "\<forall>x \<in> K. P x \<longrightarrow> x \<le> i"
  shows "i = j \<longleftrightarrow> j \<in> K \<and> P j \<and> (\<forall>x. x \<in> K \<longrightarrow> P x \<longrightarrow> x \<le> j)"
  using assms order.antisym [of i j] by blast

lemma least_iff:
  fixes i j :: nat
  assumes "i \<in> K" "P i" "\<forall>x \<in> K. P x \<longrightarrow> i \<le> x"
  shows "i = j \<longleftrightarrow> j \<in> K \<and> P j \<and> (\<forall>x. x \<in> K \<longrightarrow> P x \<longrightarrow> j \<le> x)"
  using assms order.antisym [of i j] by blast

lemma om_floor_Some:
  assumes "om_sorted m"
  shows "om_floor m k = Some j \<longleftrightarrow>
    om_find m j \<noteq> None \<and> j \<le> k \<and> (\<forall>i. om_find m i \<noteq> None \<longrightarrow> i \<le> k \<longrightarrow> i \<le> j)"
proof (cases "om_floor m k")
  case None
  then show ?thesis using om_floor_iff [OF assms, of k] unfolding om_find_key by auto
next
  case (Some i)
  then show ?thesis using om_floor_iff [OF assms, of k] greatest_iff [of i "fst ` set m" "\<lambda>x. x \<le> k" j]
    unfolding om_find_key by simp
qed

lemma om_floor_None:
  assumes "om_sorted m"
  shows "om_floor m k = None \<longleftrightarrow> (\<forall>i. om_find m i \<noteq> None \<longrightarrow> k < i)"
  using om_floor_iff [OF assms, of k] unfolding om_find_key
  by (cases "om_floor m k") fastforce+

lemma om_next_Some:
  assumes "om_sorted m"
  shows "om_next m k = Some j \<longleftrightarrow>
    om_find m j \<noteq> None \<and> k < j \<and> (\<forall>i. om_find m i \<noteq> None \<longrightarrow> k < i \<longrightarrow> j \<le> i)"
proof (cases "om_next m k")
  case None
  then show ?thesis using om_next_iff [OF assms, of k] unfolding om_find_key by auto
next
  case (Some i)
  then show ?thesis using om_next_iff [OF assms, of k] least_iff [of i "fst ` set m" "\<lambda>x. k < x" j]
    unfolding om_find_key by simp
qed

lemma om_next_None:
  assumes "om_sorted m"
  shows "om_next m k = None \<longleftrightarrow> (\<forall>i. om_find m i \<noteq> None \<longrightarrow> i \<le> k)"
  using om_next_iff [OF assms, of k] unfolding om_find_key
  by (cases "om_next m k") fastforce+

lemma om_prev_Some:
  assumes "om_sorted m"
  shows "om_prev m k = Some j \<longleftrightarrow>
    om_find m j \<noteq> None \<and> j < k \<and> (\<forall>i. om_find m i \<noteq> None \<longrightarrow> i < k \<longrightarrow> i \<le> j)"
proof (cases "om_prev m k")
  case None
  then show ?thesis using om_prev_iff [OF assms, of k] unfolding om_find_key by auto
next
  case (Some i)
  then show ?thesis using om_prev_iff [OF assms, of k] greatest_iff [of i "fst ` set m" "\<lambda>x. x < k" j]
    unfolding om_find_key by simp
qed

lemma om_prev_None:
  assumes "om_sorted m"
  shows "om_prev m k = None \<longleftrightarrow> (\<forall>i. om_find m i \<noteq> None \<longrightarrow> k \<le> i)"
  using om_prev_iff [OF assms, of k] unfolding om_find_key
  by (cases "om_prev m k") fastforce+

interpretation om: ordered_map om_sorted om_find om_set om_erase om_floor om_next om_prev
  by unfold_locales
    (simp_all only: om_sorted_set om_sorted_erase om_find_set om_find_erase om_floor_Some om_floor_None
      om_next_Some om_next_None om_prev_Some om_prev_None)

lemma om_sorted_emplace: "om_sorted m \<Longrightarrow> om_sorted (om_emplace m k v)"
  by (simp add: om_emplace_def om_sorted_set)

lemma om_find_emplace:
  "om_sorted m \<Longrightarrow> om_find m k = None \<Longrightarrow> om_find (om_emplace m k v) = (om_find m)(k \<mapsto> v)"
  by (simp add: om_emplace_def om_find_set)

lemmas om_sorted_ops = om_sorted_set om_sorted_erase om_sorted_emplace
lemmas om_find_ops = om_find_set om_find_erase om_find_emplace

section \<open>Bulk insertion\<close>

lemma om_find_foldl_set:
  "om_sorted m \<Longrightarrow> om_find (foldl (\<lambda>m (k, x). om_set m (f k) x) m xs) =
     om_find m ++ map_of (rev (map (\<lambda>(k, x). (f k, x)) xs))"
proof (induction xs arbitrary: m)
  case (Cons e xs)
  obtain k x where e: "e = (k, x)" by (cases e)
  show ?case using Cons.IH [OF om_sorted_set [OF Cons.prems]] Cons.prems
    by (auto simp: e om_find_set map_of_append map_add_def fun_eq_iff split: option.split)
qed simp

lemma om_sorted_foldl_set: "om_sorted m \<Longrightarrow> om_sorted (foldl (\<lambda>m (k, x). om_set m (f k) x) m xs)"
  by (induction xs arbitrary: m) (auto simp: om_sorted_set)

lemma map_of_single_valued:
  assumes "\<And>v w. (j, v) \<in> set ys \<Longrightarrow> (j, w) \<in> set ys \<Longrightarrow> v = w"
  shows "map_of ys j = Some v \<longleftrightarrow> (j, v) \<in> set ys"
  using assms by (metis map_of_SomeD not_Some_eq map_of_eq_None_iff image_eqI fst_conv)

end
