(* ===== verification/Area_Map.thy ===== *)
theory Area_Map
  imports Ordered_Map
begin

text \<open>
  Maps of memory areas.  The memory manager keeps three of them (\<open>dmem_map\<close>, \<open>fmem_map\<close> and
  \<open>vma_map\<close>), and every virtual area keeps one more (\<open>phys_areas\<close>).  An element at key \<open>k\<close>
  covers the addresses from \<open>k\<close> to \<open>k\<close> plus its size.  \<open>Split\<close> and \<open>MergeAdjacent\<close> have one
  overload per area type; the overloads differ in how one area is halve in two and when and how
  two areas are joined, which are the parameters here.

  The locale \<open>area_kind\<close> is the contract of an area type: cutting and joining keep what can be
  observed at every offset.  Under this contract the locale proves, once for all maps, that
  splitting, carving and merging never change what is observed at any address.
\<close>

section \<open>Operations\<close>

text \<open>\<open>MemoryManager::Split\<close>, both overloads.\<close>

definition map_Split :: "('v \<Rightarrow> u64) \<Rightarrow> ('v \<Rightarrow> u64) \<Rightarrow> (u64 \<Rightarrow> 'v \<Rightarrow> 'v \<times> 'v) \<Rightarrow>
    'v omap \<Rightarrow> u64 \<Rightarrow> u64 \<Rightarrow> ('v omap \<times> u64) option" where
  "map_Split start len halve m handle offset = do {
     old_area \<leftarrow> om_find m handle;
     if \<not> (offset < len old_area \<and> offset > 0) then None
     else do {
       let (old_area, new_area) = halve offset old_area;
       Some (om_emplace (om_set m handle old_area) (start new_area) new_area, start new_area)
     }
   }"

text \<open>\<open>MemoryManager::MergeAdjacent\<close>, both overloads: first the next element, then the previous
  one; the result is the iterator that now covers the merged area.\<close>

definition map_MergeNext :: "('v \<Rightarrow> 'v \<Rightarrow> bool option) \<Rightarrow> ('v \<Rightarrow> 'v \<Rightarrow> 'v) \<Rightarrow> 'v omap \<Rightarrow> u64 \<Rightarrow>
    'v omap option" where
  "map_MergeNext CanMergeWith join m iter = do {
     area \<leftarrow> om_find m iter;
     case om_next m iter of
       None \<Rightarrow> Some m
     | Some next_vma \<Rightarrow> do {
         next_area \<leftarrow> om_find m next_vma;
         mergeable \<leftarrow> CanMergeWith area next_area;
         if mergeable then Some (om_erase (om_set m iter (join area next_area)) next_vma) else Some m
       }
   }"

definition map_MergePrev :: "('v \<Rightarrow> 'v \<Rightarrow> bool option) \<Rightarrow> ('v \<Rightarrow> 'v \<Rightarrow> 'v) \<Rightarrow> 'v omap \<Rightarrow> u64 \<Rightarrow>
    ('v omap \<times> u64) option" where
  "map_MergePrev CanMergeWith join m iter =
    (case om_prev m iter of
       None \<Rightarrow> Some (m, iter)
     | Some prev_vma \<Rightarrow> do {
         area \<leftarrow> om_find m iter;
         prev_area \<leftarrow> om_find m prev_vma;
         mergeable \<leftarrow> CanMergeWith prev_area area;
         if mergeable then Some (om_erase (om_set m prev_vma (join prev_area area)) iter, prev_vma)
         else Some (m, iter)
       })"

definition map_MergeAdjacent :: "('v \<Rightarrow> 'v \<Rightarrow> bool option) \<Rightarrow> ('v \<Rightarrow> 'v \<Rightarrow> 'v) \<Rightarrow> 'v omap \<Rightarrow> u64 \<Rightarrow>
    ('v omap \<times> u64) option" where
  "map_MergeAdjacent CanMergeWith join m iter = do {
     m \<leftarrow> map_MergeNext CanMergeWith join m iter;
     map_MergePrev CanMergeWith join m iter
   }"

text \<open>The common end of \<open>CarveVMA\<close> and \<open>CarvePhysArea\<close>: split at the end of the requested
  range, then at its start.\<close>

definition map_CarveSplits :: "('v \<Rightarrow> u64) \<Rightarrow> ('v \<Rightarrow> u64) \<Rightarrow> (u64 \<Rightarrow> 'v \<Rightarrow> 'v \<times> 'v) \<Rightarrow>
    'v omap \<Rightarrow> u64 \<Rightarrow> u64 \<Rightarrow> u64 \<Rightarrow> u64 \<Rightarrow> ('v omap \<times> u64) option" where
  "map_CarveSplits start len halve m handle sz start_in_area end_in_area = do {
     m \<leftarrow> (if end_in_area \<noteq> sz
           then do { (m, _) \<leftarrow> map_Split start len halve m handle end_in_area; Some m } else Some m);
     if start_in_area \<noteq> 0 then map_Split start len halve m handle start_in_area else Some (m, handle)
   }"

section \<open>What is observed at an address\<close>

definition area_at :: "('v \<Rightarrow> u64) \<Rightarrow> 'v omap \<Rightarrow> u64 \<Rightarrow> (u64 \<times> 'v) option" where
  "area_at len m a = do {
     k \<leftarrow> om_floor m a;
     v \<leftarrow> om_find m k;
     if a < k + len v then Some (k, v) else None
   }"

definition view_at :: "('v \<Rightarrow> u64) \<Rightarrow> ('v \<Rightarrow> u64 \<Rightarrow> 'w) \<Rightarrow> 'v omap \<Rightarrow> u64 \<Rightarrow> 'w option" where
  "view_at len view m a = map_option (\<lambda>(k, v). view v (a - k)) (area_at len m a)"

text \<open>Elements are non-empty, do not wrap, are well formed and do not overlap.\<close>

definition area_inv :: "('v \<Rightarrow> u64) \<Rightarrow> ('v \<Rightarrow> bool) \<Rightarrow> 'v omap \<Rightarrow> bool" where
  "area_inv len good m \<longleftrightarrow> om_sorted m \<and>
     (\<forall>k v. om_find m k = Some v \<longrightarrow> 0 < len v \<and> k + len v \<le> UINT64_MAX \<and> good v) \<and>
     (\<forall>k v k' v'. om_find m k = Some v \<longrightarrow> om_find m k' = Some v' \<longrightarrow> k < k' \<longrightarrow> k + len v \<le> k')"

text \<open>The element at key \<open>k\<close> says that it starts at \<open>k\<close> (\<open>dmem_map\<close>, \<open>fmem_map\<close>, \<open>vma_map\<close>).\<close>

definition keyed :: "('v \<Rightarrow> u64) \<Rightarrow> 'v omap \<Rightarrow> bool" where
  "keyed start m \<longleftrightarrow> (\<forall>k v. om_find m k = Some v \<longrightarrow> start v = k)"

text \<open>There is no gap between two elements (\<open>phys_areas\<close>).\<close>

definition gapless :: "('v \<Rightarrow> u64) \<Rightarrow> 'v omap \<Rightarrow> bool" where
  "gapless len m \<longleftrightarrow>
     (\<forall>k v k'. om_find m k = Some v \<longrightarrow> om_find m k' \<noteq> None \<longrightarrow> k < k' \<longrightarrow> om_find m (k + len v) \<noteq> None)"

text \<open>A range lies in one element.\<close>

definition in_area :: "('v \<Rightarrow> u64) \<Rightarrow> 'v omap \<Rightarrow> u64 \<Rightarrow> u64 \<Rightarrow> bool" where
  "in_area len m a n \<longleftrightarrow> (\<exists>k v. om_find m k = Some v \<and> k \<le> a \<and> a + n \<le> k + len v)"

lemma area_apart:
  "area_inv len good m \<Longrightarrow> om_find m k = Some v \<Longrightarrow> om_find m k' = Some v' \<Longrightarrow> k < k' \<Longrightarrow> k + len v \<le> k'"
  unfolding area_inv_def by blast

lemma area_entry:
  assumes "area_inv len good m" and "om_find m k = Some v"
  shows "0 < len v" and "k + len v \<le> UINT64_MAX" and "good v" and "om_sorted m"
  using assms unfolding area_inv_def by blast+

lemma in_area_set:
  assumes "om_sorted m" "om_find m k = Some v" "len v' = len v" "in_area len m x y"
  shows "in_area len (om_set m k v') x y"
  using assms unfolding in_area_def om_find_set [OF assms(1)]
  by (metis fun_upd_apply option.inject)

lemma area_at_Some:
  assumes inv: "area_inv len good m"
  shows "area_at len m a = Some (k, v) \<longleftrightarrow> om_find m k = Some v \<and> k \<le> a \<and> a < k + len v"
proof
  assume "area_at len m a = Some (k, v)"
  then show "om_find m k = Some v \<and> k \<le> a \<and> a < k + len v"
    using inv by (auto simp: area_at_def area_inv_def om.floor_Some split: if_splits bind_splits)
next
  assume r: "om_find m k = Some v \<and> k \<le> a \<and> a < k + len v"
  have "i \<le> k" if "om_find m i \<noteq> None" "i \<le> a" for i
    using inv r that unfolding area_inv_def by (metis leD le_trans not_le option.exhaust)
  then have "om_floor m a = Some k" using inv r by (simp add: area_inv_def om.floor_Some)
  then show "area_at len m a = Some (k, v)" using r by (simp add: area_at_def)
qed

lemma view_at_Some:
  assumes "area_inv len good m"
  shows "view_at len view m a = Some w \<longleftrightarrow>
    (\<exists>k v. om_find m k = Some v \<and> k \<le> a \<and> a < k + len v \<and> view v (a - k) = w)"
  using area_at_Some [OF assms, of a] by (auto simp: view_at_def)

lemma view_at_eqI:
  assumes "area_inv len good m" "area_inv len good' m'"
    and "\<And>a w. (\<exists>k v. om_find m k = Some v \<and> k \<le> a \<and> a < k + len v \<and> view v (a - k) = w) \<longleftrightarrow>
      (\<exists>k v. om_find m' k = Some v \<and> k \<le> a \<and> a < k + len v \<and> view v (a - k) = w)"
  shows "view_at len view m = view_at len view m'"
proof
  fix a
  have "view_at len view m a = Some w \<longleftrightarrow> view_at len view m' a = Some w" for w
    using assms by (simp add: view_at_Some)
  then show "view_at len view m a = view_at len view m' a" by (metis option.exhaust)
qed

section \<open>The contract of an area type\<close>

locale area_kind =
  fixes start :: "'v \<Rightarrow> u64"
    and len :: "'v \<Rightarrow> u64"
    and view :: "'v \<Rightarrow> u64 \<Rightarrow> 'w"
    and good :: "'v \<Rightarrow> bool"
    and halve :: "u64 \<Rightarrow> 'v \<Rightarrow> 'v \<times> 'v"
    and CanMergeWith :: "'v \<Rightarrow> 'v \<Rightarrow> bool option"
    and join :: "'v \<Rightarrow> 'v \<Rightarrow> 'v"
  assumes halve_laws: "\<lbrakk>good v; 0 < c; c < len v; start v + len v \<le> UINT64_MAX; halve c v = (a, b)\<rbrakk> \<Longrightarrow>
        start a = start v \<and> len a = c \<and> good a \<and> start b = start v + c \<and> len b = len v - c \<and> good b \<and>
        (\<forall>i < c. view a i = view v i) \<and> (\<forall>i < len v - c. view b i = view v (c + i))"
    and merge_defined: "\<lbrakk>good a; good b; 0 < len a; 0 < len b\<rbrakk> \<Longrightarrow> CanMergeWith a b \<noteq> None"
    and merge_adjacent: "\<lbrakk>good a; good b; CanMergeWith a b = Some True\<rbrakk> \<Longrightarrow> start a + len a = start b \<or>
        UINT64_MAX < start a + len a"
    and join_laws: "\<lbrakk>good a; good b; 0 < len a; 0 < len b; len a + len b \<le> UINT64_MAX; CanMergeWith a b = Some True\<rbrakk> \<Longrightarrow>
        start (join a b) = start a \<and> len (join a b) = len a + len b \<and> good (join a b) \<and>
        (\<forall>i < len a + len b. view (join a b) i = (if i < len a then view a i else view b (i - len a)))"
begin

lemma replace_area:
  assumes inv: "area_inv len good m" and v: "om_find m k = Some v" and new: "len v' = len v" "good v'"
  shows "area_inv len good (om_set m k v')"
    and "view_at len view (om_set m k v') a =
      (if k \<le> a \<and> a < k + len v then Some (view v' (a - k)) else view_at len view m a)"
proof -
  have srt: "om_sorted m" using inv by (simp add: area_inv_def)
  have fnd: "om_find (om_set m k v') = (om_find m)(k \<mapsto> v')" by (rule om_find_set [OF srt])
  show inv': "area_inv len good (om_set m k v')"
    using inv v new unfolding area_inv_def fnd by (auto simp: om_sorted_set)
  show "view_at len view (om_set m k v') a =
      (if k \<le> a \<and> a < k + len v then Some (view v' (a - k)) else view_at len view m a)"
  proof (cases "k \<le> a \<and> a < k + len v")
    case True
    then show ?thesis using view_at_Some [OF inv', of view a] new fnd by (auto simp: v)
  next
    case False
    have "view_at len view (om_set m k v') a = Some w \<longleftrightarrow> view_at len view m a = Some w" for w
      unfolding view_at_Some [OF inv'] view_at_Some [OF inv] fnd using False new v by auto
    then have "view_at len view (om_set m k v') a = view_at len view m a" by (metis option.exhaust)
    then show ?thesis using False by auto
  qed
qed

text \<open>
  One map has the area \<open>v\<close> at \<open>k\<close>, the other has its two parts \<open>a\<close> and \<open>b\<close> there: they show
  the same at every address.
\<close>

lemma parts_view:
  assumes inv: "area_inv len good whole" "area_inv len good parts"
    and v: "om_find whole k = Some v" and none: "om_find whole k' = None"
    and fnd: "om_find parts = (om_find whole)(k \<mapsto> a, k' \<mapsto> b)"
    and lens: "k' = k + len a" "len v = len a + len b" "0 < len a"
    and views: "\<And>i. i < len a \<Longrightarrow> view v i = view a i" "\<And>i. i < len b \<Longrightarrow> view v (len a + i) = view b i"
  shows "view_at len view parts = view_at len view whole"
proof (rule view_at_eqI [OF inv(2) inv(1)])
  fix x w
  let ?in = "\<lambda>m i u. om_find m i = Some u \<and> i \<le> x \<and> x < i + len u \<and> view u (x - i) = w"
  have a: "?in parts k a \<longleftrightarrow> ?in whole k v" if "x < k'"
    using that v fnd lens views(1) [of "x - k"] by auto
  have b: "?in parts k' b \<longleftrightarrow> ?in whole k v" if "k' \<le> x"
    using that v fnd lens views(2) [of "x - k'"] by auto
  have rest: "?in parts i u \<longleftrightarrow> ?in whole i u" if "i \<noteq> k" "i \<noteq> k'" for i u using that fnd by auto
  have ka: "?in parts k u \<Longrightarrow> u = a \<and> x < k'" "?in parts k' u \<Longrightarrow> u = b \<and> k' \<le> x" for u
    using fnd lens by auto
  have kv: "?in whole k u \<Longrightarrow> u = v" "\<not> ?in whole k' u" for u using v none by auto
  show "(\<exists>i u. ?in parts i u) \<longleftrightarrow> (\<exists>i u. ?in whole i u)"
    using a b rest ka kv by (metis not_le_imp_less)
qed

lemma map_Split_result:
  assumes inv: "area_inv len good m" and keyed: "keyed start m"
    and v: "om_find m k = Some v" and c: "0 < c" "c < len v"
  obtains m' a b where "map_Split start len halve m k c = Some (m', k + c)" "halve c v = (a, b)"
    "om_find m' = (om_find m)(k \<mapsto> a, k + c \<mapsto> b)" "area_inv len good m'" "keyed start m'"
    "view_at len view m' = view_at len view m"
    "\<And>x y. in_area len m x y \<Longrightarrow> \<not> (x < k + c \<and> k + c < x + y) \<Longrightarrow> in_area len m' x y"
proof -
  obtain a b where ab: "halve c v = (a, b)" by (cases "halve c v")
  have vk: "0 < len v" "k + len v \<le> UINT64_MAX" "good v" and srt: "om_sorted m"
    and apart: "\<And>k v k' v'. om_find m k = Some v \<Longrightarrow> om_find m k' = Some v' \<Longrightarrow> k < k' \<Longrightarrow> k + len v \<le> k'"
    using inv v unfolding area_inv_def by blast+
  have st: "start v = k" using keyed v by (simp add: keyed_def)
  have laws: "start a = k" "len a = c" "good a" "start b = k + c" "len b = len v - c" "good b"
    "\<And>i. i < c \<Longrightarrow> view a i = view v i" "\<And>i. i < len v - c \<Longrightarrow> view b i = view v (c + i)"
    using halve_laws [OF vk(3) c _ ab] st vk(2) by auto
  let ?m' = "om_emplace (om_set m k a) (k + c) b"
  have free: "om_find m (k + c) = None"
    using apart [OF v, of "k + c"] c by (cases "om_find m (k + c)") auto
  have fnd: "om_find ?m' = (om_find m)(k \<mapsto> a, k + c \<mapsto> b)"
    using free c by (simp add: om_find_emplace om_find_set om_sorted_set srt)
  have inv': "area_inv len good ?m'"
  proof -
    have "om_sorted ?m'" by (simp add: om_sorted_ops srt)
    moreover have "i + len x \<le> i'" if "om_find m i = Some x" "i < k + c" "k < i'" "i \<noteq> k" "i' = k + c" for i x i'
      using apart [OF that(1) v] apart [OF v that(1)] that c by (cases "i < k") auto
    moreover have "k + len v \<le> i'" if "om_find m i' = Some x" "k + c < i'" for i' x
      using apart [OF v that(1)] that c by auto
    ultimately show ?thesis
      using inv c laws vk unfolding area_inv_def fnd by (auto split: if_splits dest: apart [OF _ v] apart [OF v])
  qed
  have kd: "keyed start ?m'" using keyed laws unfolding keyed_def fnd by auto
  have "view_at len view ?m' = view_at len view m"
    by (rule parts_view [OF inv inv' v free fnd]) (use laws c in auto)
  moreover have "map_Split start len halve m k c = Some (?m', k + c)"
    using v c ab laws(4) by (simp add: map_Split_def)
  moreover have "in_area len ?m' x y" if r: "in_area len m x y" "\<not> (x < k + c \<and> k + c < x + y)" for x y
  proof -
    obtain i u where u: "om_find m i = Some u" "i \<le> x" "x + y \<le> i + len u" using r by (auto simp: in_area_def)
    have "om_find ?m' i = Some u" if "i \<noteq> k" using that u(1) free fnd by auto
    moreover have "(x + y \<le> k + len a) \<or> (k + c \<le> x \<and> x + y \<le> k + c + len b)" if "i = k"
      using that u v r(2) laws(2,5) c by auto
    moreover have "om_find ?m' k = Some a" "om_find ?m' (k + c) = Some b" using fnd c by auto
    ultimately show ?thesis using u unfolding in_area_def by blast
  qed
  ultimately show ?thesis using that [OF _ ab fnd inv' kd] by blast
qed

text \<open>Joining an element with its neighbour.\<close>

lemma join_step:
  assumes inv: "area_inv len good m" and v: "om_find m k = Some v" and v': "om_find m k' = Some v'"
    and adj: "k + len v = k'" and can: "CanMergeWith v v' = Some True"
  defines "m' \<equiv> om_erase (om_set m k (join v v')) k'"
  shows "area_inv len good m'" "om_find m' = (om_find m)(k \<mapsto> join v v', k' := None)"
    "view_at len view m' = view_at len view m"
    "keyed start m \<Longrightarrow> keyed start m'" "gapless len m \<Longrightarrow> gapless len m'"
    "\<And>x y. in_area len m x y \<Longrightarrow> in_area len m' x y"
proof -
  have vk: "0 < len v" "good v" "0 < len v'" "k' + len v' \<le> UINT64_MAX" "good v'" and srt: "om_sorted m"
    and apart: "\<And>k v k' v'. om_find m k = Some v \<Longrightarrow> om_find m k' = Some v' \<Longrightarrow> k < k' \<Longrightarrow> k + len v \<le> k'"
    using inv v v' unfolding area_inv_def by blast+
  have lt: "k < k'" using adj vk by simp
  have laws: "start (join v v') = start v" "len (join v v') = len v + len v'" "good (join v v')"
    "\<And>i. i < len v + len v' \<Longrightarrow> view (join v v') i = (if i < len v then view v i else view v' (i - len v))"
    using join_laws [OF vk(2) vk(5) vk(1) vk(3) _ can] vk(4) adj by auto
  show fnd: "om_find m' = (om_find m)(k \<mapsto> join v v', k' := None)"
    using srt by (simp add: m'_def om_find_ops om_sorted_set)
  have beyond: "k' + len v' \<le> i" if "om_find m i = Some u" "k < i" "i \<noteq> k'" for i u
    using apart [OF v that(1)] apart [OF v' that(1)] that adj by auto
  have before: "i + len u \<le> k" if "om_find m i = Some u" "i < k" for i u
    using apart [OF that(1) v] that by auto
  show inv': "area_inv len good m'"
  proof -
    have "om_sorted m'" by (simp add: m'_def om_sorted_ops srt)
    moreover have "k + (len v + len v') \<le> UINT64_MAX" using adj vk by simp
    moreover have "k + (len v + len v') \<le> i" if "om_find m i = Some u" "k < i" "i \<noteq> k'" for i u
      using beyond [OF that] adj by simp
    ultimately show ?thesis
      using inv laws vk before unfolding area_inv_def fnd by (auto split: if_splits)
  qed
  have parts: "om_find m = (om_find m')(k \<mapsto> v, k' \<mapsto> v')" using fnd v v' lt by (auto simp: fun_eq_iff)
  have "view_at len view m = view_at len view m'"
  proof (rule parts_view [OF inv' inv _ _ parts])
    show "om_find m' k = Some (join v v')" "om_find m' k' = None" using fnd lt by auto
  qed (use laws adj vk in auto)
  then show "view_at len view m' = view_at len view m" by simp
  show "keyed start m'" if "keyed start m" using that laws v unfolding keyed_def fnd by auto
  show "in_area len m' x y" if r: "in_area len m x y" for x y
  proof -
    obtain i u where u: "om_find m i = Some u" "i \<le> x" "x + y \<le> i + len u" using r by (auto simp: in_area_def)
    have "om_find m' i = Some u" if "i \<noteq> k" "i \<noteq> k'" using that u(1) fnd by auto
    moreover have "k \<le> x \<and> x + y \<le> k + len (join v v')" if "i = k \<or> i = k'"
      using that u v v' laws(2) adj by auto
    moreover have "om_find m' k = Some (join v v')" using fnd lt by simp
    ultimately show ?thesis using u unfolding in_area_def by blast
  qed
  show "gapless len m'" if g: "gapless len m"
    unfolding gapless_def
  proof (intro allI impI)
    fix i u j
    assume u: "om_find m' i = Some u" and j: "om_find m' j \<noteq> None" and ij: "i < j"
    have jm: "om_find m j \<noteq> None" "j \<noteq> k'" using j fnd v by (auto split: if_splits)
    show "om_find m' (i + len u) \<noteq> None"
    proof (cases "i = k")
      case True
      then have e: "i + len u = k' + len v'" using u fnd laws(2) lt adj by auto
      have "k' < j" using beyond [of j] jm ij True vk by fastforce
      then have "om_find m (k' + len v') \<noteq> None" using g v' jm unfolding gapless_def by blast
      then show ?thesis using e fnd adj vk by auto
    next
      case False
      then have um: "om_find m i = Some u" "i \<noteq> k'" using u fnd by (auto split: if_splits)
      have "om_find m (i + len u) \<noteq> None" using g um jm ij unfolding gapless_def by blast
      moreover have "i + len u \<noteq> k'"
        using before [OF um(1)] beyond [OF um(1)] um False lt vk by fastforce
      ultimately show ?thesis using fnd by auto
    qed
  qed
qed

text \<open>In both kinds of map, elements that may be merged are adjacent.\<close>

lemma merge_neighbours:
  assumes inv: "area_inv len good m" and link: "keyed start m \<or> gapless len m"
    and v: "om_find m k = Some v" and v': "om_find m k' = Some v'" and nxt: "om_next m k = Some k'"
    and can: "CanMergeWith v v' = Some True"
  shows "k + len v = k'"
  using link
proof
  assume "keyed start m"
  then have "start v = k" "start v' = k'" using v v' by (auto simp: keyed_def)
  moreover have "k + len v \<le> UINT64_MAX" "good v" "good v'" using inv v v' unfolding area_inv_def by blast+
  ultimately show ?thesis using merge_adjacent [OF _ _ can] by auto
next
  assume g: "gapless len m"
  have srt: "om_sorted m" and pos: "0 < len v" and le: "k < k' \<Longrightarrow> k + len v \<le> k'"
    using inv v v' unfolding area_inv_def by blast+
  have n: "k < k'" "\<And>i. om_find m i \<noteq> None \<Longrightarrow> k < i \<Longrightarrow> k' \<le> i"
    using nxt om.succ_Some [OF srt] by blast+
  then have "om_find m (k + len v) \<noteq> None" using g v v' unfolding gapless_def by blast
  then show ?thesis using n pos le by fastforce
qed

definition same_links :: "'v omap \<Rightarrow> 'v omap \<Rightarrow> bool" where
  "same_links m m' \<longleftrightarrow> (keyed start m \<longrightarrow> keyed start m') \<and> (gapless len m \<longrightarrow> gapless len m') \<and>
     (\<forall>x y. in_area len m x y \<longrightarrow> in_area len m' x y)"

lemma map_MergeNext_result:
  assumes inv: "area_inv len good m" and link: "keyed start m \<or> gapless len m" and v: "om_find m k = Some v"
  obtains m' u where "map_MergeNext CanMergeWith join m k = Some m'" "area_inv len good m'"
    "view_at len view m' = view_at len view m" "same_links m m'"
    "om_find m' k = Some u" "len v \<le> len u"
proof (cases "om_next m k")
  case None
  then show ?thesis using that [of m v] inv v by (simp add: map_MergeNext_def same_links_def)
next
  case (Some k')
  have srt: "om_sorted m" using inv by (simp add: area_inv_def)
  obtain v' where v': "om_find m k' = Some v'" and lt: "k < k'"
    using Some om.succ_Some [OF srt, of k k'] by auto
  have ok: "0 < len v" "good v" "0 < len v'" "good v'" and sum: "k' + len v' \<le> UINT64_MAX"
    using inv v v' unfolding area_inv_def by blast+
  obtain b where b: "CanMergeWith v v' = Some b" using merge_defined [of v v'] ok by auto
  show ?thesis
  proof (cases b)
    case False
    then show ?thesis using that [of m v] inv v v' Some b by (simp add: map_MergeNext_def same_links_def)
  next
    case True
    then have can: "CanMergeWith v v' = Some True" using b by simp
    have adj: "k + len v = k'" by (rule merge_neighbours [OF inv link v v' Some can])
    note step = join_step [OF inv v v' adj can]
    have "len (join v v') = len v + len v'"
      using join_laws [OF ok(2) ok(4) ok(1) ok(3) _ can] sum adj by simp
    moreover have "map_MergeNext CanMergeWith join m k = Some (om_erase (om_set m k (join v v')) k')"
      using v v' Some can by (simp add: map_MergeNext_def)
    moreover have "om_find (om_erase (om_set m k (join v v')) k') k = Some (join v v')"
      using step(2) lt by simp
    moreover have "same_links m (om_erase (om_set m k (join v v')) k')"
      using step(4-6) by (simp add: same_links_def)
    ultimately show ?thesis using that step(1,3) by simp
  qed
qed

lemma map_MergePrev_result:
  assumes inv: "area_inv len good m" and link: "keyed start m \<or> gapless len m" and v: "om_find m k = Some v"
  obtains m' j u where "map_MergePrev CanMergeWith join m k = Some (m', j)" "area_inv len good m'"
    "view_at len view m' = view_at len view m" "same_links m m'"
    "om_find m' j = Some u" "j \<le> k" "k + len v \<le> j + len u"
proof (cases "om_prev m k")
  case None
  then show ?thesis using that [of m k v] inv v by (simp add: map_MergePrev_def same_links_def)
next
  case (Some p)
  have srt: "om_sorted m" using inv by (simp add: area_inv_def)
  obtain w where w: "om_find m p = Some w" and lt: "p < k" and nxt: "om_next m p = Some k"
    using Some om.pred_Some [OF srt, of k p] om.succ_Some [OF srt, of p k] v by (auto simp: not_less)
  have ok: "0 < len w" "good w" "0 < len v" "good v" and sum: "k + len v \<le> UINT64_MAX"
    using inv v w unfolding area_inv_def by blast+
  obtain b where b: "CanMergeWith w v = Some b" using merge_defined [of w v] ok by auto
  show ?thesis
  proof (cases b)
    case False
    then show ?thesis using that [of m k v] inv v w Some b by (simp add: map_MergePrev_def same_links_def)
  next
    case True
    then have can: "CanMergeWith w v = Some True" using b by simp
    have adj: "p + len w = k" by (rule merge_neighbours [OF inv link w v nxt can])
    note step = join_step [OF inv w v adj can]
    have "len (join w v) = len w + len v"
      using join_laws [OF ok(2) ok(4) ok(1) ok(3) _ can] sum adj by simp
    moreover have "map_MergePrev CanMergeWith join m k = Some (om_erase (om_set m p (join w v)) k, p)"
      using v w Some can by (simp add: map_MergePrev_def)
    moreover have "om_find (om_erase (om_set m p (join w v)) k) p = Some (join w v)"
      using step(2) lt by simp
    moreover have "same_links m (om_erase (om_set m p (join w v)) k)"
      using step(4-6) by (simp add: same_links_def)
    ultimately show ?thesis using that step(1,3) lt adj by simp
  qed
qed

lemma map_MergeAdjacent_result:
  assumes inv: "area_inv len good m" and link: "keyed start m \<or> gapless len m" and v: "om_find m k = Some v"
  obtains m' j u where "map_MergeAdjacent CanMergeWith join m k = Some (m', j)" "area_inv len good m'"
    "view_at len view m' = view_at len view m"
    "keyed start m \<Longrightarrow> keyed start m'" "gapless len m \<Longrightarrow> gapless len m'"
    "om_find m' j = Some u" "j \<le> k" "k + len v \<le> j + len u"
    "\<And>x y. in_area len m x y \<Longrightarrow> in_area len m' x y"
proof -
  obtain m1 u1 where 1: "map_MergeNext CanMergeWith join m k = Some m1" "area_inv len good m1"
    "view_at len view m1 = view_at len view m" "same_links m m1" "om_find m1 k = Some u1" "len v \<le> len u1"
    using map_MergeNext_result [OF inv link v] by blast
  have l: "keyed start m1 \<or> gapless len m1" using link 1(4) by (auto simp: same_links_def)
  obtain m' j u where "map_MergePrev CanMergeWith join m1 k = Some (m', j)" "area_inv len good m'"
    "view_at len view m' = view_at len view m1" "same_links m1 m'"
    "om_find m' j = Some u" "j \<le> k" "k + len u1 \<le> j + len u"
    using map_MergePrev_result [OF 1(2) l 1(5)] by blast
  then show ?thesis using that [of m' j u] 1 by (auto simp: map_MergeAdjacent_def same_links_def)
qed

text \<open>Carving a range out of one element.\<close>

lemma map_CarveSplits_result:
  assumes inv: "area_inv len good m" and keyed: "keyed start m" and v: "om_find m k = Some v"
    and n: "0 < n" "s + n \<le> len v"
  obtains m' u where "map_CarveSplits start len halve m k (len v) s (s + n) = Some (m', k + s)"
    "area_inv len good m'" "keyed start m'" "view_at len view m' = view_at len view m"
    "om_find m' (k + s) = Some u" "len u = n" "\<And>i. i < n \<Longrightarrow> view u i = view v (s + i)"
    "om_find m' k \<noteq> None"
    "\<And>x y. in_area len m x y \<Longrightarrow> \<not> (x < k + s \<and> k + s < x + y) \<Longrightarrow> \<not> (x < k + s + n \<and> k + s + n < x + y) \<Longrightarrow>
       in_area len m' x y"
proof -
  have ok: "good v" "k + len v \<le> UINT64_MAX" "start v = k"
    using inv v keyed unfolding area_inv_def keyed_def by blast+
  obtain m1 v1 where 1: "(if s + n \<noteq> len v then do { (m, _) \<leftarrow> map_Split start len halve m k (s + n); Some m }
        else Some m) = Some m1" "area_inv len good m1" "keyed start m1" "view_at len view m1 = view_at len view m"
      "om_find m1 k = Some v1" "len v1 = s + n" "\<And>i. i < s + n \<Longrightarrow> view v1 i = view v i"
      "\<And>x y. in_area len m x y \<Longrightarrow> \<not> (x < k + (s + n) \<and> k + (s + n) < x + y) \<Longrightarrow> in_area len m1 x y"
  proof (cases "s + n = len v")
    case True
    show ?thesis by (rule that [of m v]) (use True inv keyed v in auto)
  next
    case False
    then have c: "0 < s + n" "s + n < len v" using n by auto
    obtain m' a b where "map_Split start len halve m k (s + n) = Some (m', k + (s + n))"
      "halve (s + n) v = (a, b)" "om_find m' = (om_find m)(k \<mapsto> a, k + (s + n) \<mapsto> b)" "area_inv len good m'"
      "keyed start m'" "view_at len view m' = view_at len view m"
      "\<And>x y. in_area len m x y \<Longrightarrow> \<not> (x < k + (s + n) \<and> k + (s + n) < x + y) \<Longrightarrow> in_area len m' x y"
      using map_Split_result [OF inv keyed v c] by blast
    then show ?thesis by (intro that [of m' a]) (use halve_laws [OF ok(1) c, of a b] ok False n in auto)
  qed
  show ?thesis
  proof (cases "s = 0")
    case True
    have "map_CarveSplits start len halve m k (len v) s (s + n) = Some (m1, k + s)"
      unfolding map_CarveSplits_def 1(1) using True by simp
    then show ?thesis by (rule that [of m1 v1]) (use 1 True in \<open>auto simp: add.assoc\<close>)
  next
    case False
    have c: "0 < s" "s < len v1" using n 1(6) False by auto
    have ok1: "good v1" "k + len v1 \<le> UINT64_MAX" "start v1 = k"
      using 1(2,3,5) unfolding area_inv_def keyed_def by blast+
    obtain m' a b where 2: "map_Split start len halve m1 k s = Some (m', k + s)"
      "halve s v1 = (a, b)" "om_find m' = (om_find m1)(k \<mapsto> a, k + s \<mapsto> b)" "area_inv len good m'"
      "keyed start m'" "view_at len view m' = view_at len view m1"
      "\<And>x y. in_area len m1 x y \<Longrightarrow> \<not> (x < k + s \<and> k + s < x + y) \<Longrightarrow> in_area len m' x y"
      using map_Split_result [OF 1(2) 1(3) 1(5) c] by blast
    have b: "len b = n" "\<And>i. i < n \<Longrightarrow> view b i = view v (s + i)"
      using halve_laws [OF ok1(1) c, of a b] ok1 2(2) 1(6,7) by auto
    have "map_CarveSplits start len halve m k (len v) s (s + n) = Some (m', k + s)"
      unfolding map_CarveSplits_def 1(1) using 2(1) False by simp
    then show ?thesis by (intro that [of m' b]) (use 1(4,5,8) 2 b in \<open>auto simp: add.assoc\<close>)
  qed
qed

end

end
