(* ===== verification/Memory_Areas.thy ===== *)
theory Memory_Areas
  imports Area_Map
begin

text \<open>
  The data of \<^verbatim>\<open>src/src/core/memory.h\<close>: physical and virtual memory areas, their predicates, and
  how \<open>Split\<close> and \<open>MergeAdjacent\<close> (\<^verbatim>\<open>src/src/core/memory.cpp\<close>) cut and join them.  Both area
  types are shown to satisfy the contract \<open>area_kind\<close>; for a virtual area the observation at an
  offset includes the physical address that backs it, so the contract says that splitting and
  merging virtual areas never changes an address translation.
\<close>

section \<open>Enumerations\<close>

datatype PhysicalMemoryType = PhysFree | PhysAllocated | PhysMapped | PhysPooled | PhysCommitted | PhysFlexible

datatype VMAType = VMAFree | VMAReserved | VMADirect | VMAFlexible | VMAPooled | VMAPoolReserved
  | VMAStack | VMACode | VMAFile | VMASystem

type_synonym MemoryProt = u32
type_synonym MemoryMapFlags = u32

abbreviation (input) CpuRead :: MemoryProt where "CpuRead \<equiv> 1"
abbreviation (input) CpuWrite :: MemoryProt where "CpuWrite \<equiv> 2"
abbreviation (input) CpuReadWrite :: MemoryProt where "CpuReadWrite \<equiv> 3"
abbreviation (input) CpuExec :: MemoryProt where "CpuExec \<equiv> 4"
abbreviation (input) GpuRead :: MemoryProt where "GpuRead \<equiv> 16"
abbreviation (input) GpuWrite :: MemoryProt where "GpuWrite \<equiv> 32"
abbreviation (input) GpuReadWrite :: MemoryProt where "GpuReadWrite \<equiv> 48"

abbreviation (input) Map_Fixed :: MemoryMapFlags where "Map_Fixed \<equiv> 0x10"
abbreviation (input) Map_NoOverwrite :: MemoryMapFlags where "Map_NoOverwrite \<equiv> 0x80"
abbreviation (input) Map_NoCoalesce :: MemoryMapFlags where "Map_NoCoalesce \<equiv> 0x400000"

text \<open>\<open>True(flags & mask)\<close>, and clearing a bit mask of a 32-bit value.\<close>

definition has_flag :: "u32 \<Rightarrow> u32 \<Rightarrow> bool" where
  "has_flag flags bits \<longleftrightarrow> flags AND bits \<noteq> 0"

definition clear_flag :: "u32 \<Rightarrow> u32 \<Rightarrow> u32" where
  "clear_flag flags bits = flags AND (0xffffffff - bits)"

section \<open>Physical areas\<close>

record PhysicalMemoryArea =
  pa_base :: u64
  pa_size :: u64
  pa_memory_type :: int
  pa_dma_type :: PhysicalMemoryType

type_synonym PhysMap = "PhysicalMemoryArea omap"

definition phys_GetEnd :: "PhysicalMemoryArea \<Rightarrow> u64" where
  "phys_GetEnd area = add64 (pa_base area) (pa_size area)"

definition phys_CanMergeWith :: "PhysicalMemoryArea \<Rightarrow> PhysicalMemoryArea \<Rightarrow> bool option" where
  "phys_CanMergeWith area next_area = Some (
     if add64 (pa_base area) (pa_size area) \<noteq> pa_base next_area then False
     else if pa_memory_type area \<noteq> pa_memory_type next_area then False
     else if pa_dma_type area \<noteq> pa_dma_type next_area then False
     else True)"

definition phys_halve :: "u64 \<Rightarrow> PhysicalMemoryArea \<Rightarrow> PhysicalMemoryArea \<times> PhysicalMemoryArea" where
  "phys_halve offset_in_area old_area =
    (old_area\<lparr>pa_size := offset_in_area\<rparr>,
     old_area\<lparr>pa_base := add64 (pa_base old_area) offset_in_area,
              pa_size := sub64 (pa_size old_area) offset_in_area\<rparr>)"

definition phys_join :: "PhysicalMemoryArea \<Rightarrow> PhysicalMemoryArea \<Rightarrow> PhysicalMemoryArea" where
  "phys_join area next_area = area\<lparr>pa_size := add64 (pa_size area) (pa_size next_area)\<rparr>"

definition phys_Split :: "PhysMap \<Rightarrow> u64 \<Rightarrow> u64 \<Rightarrow> (PhysMap \<times> u64) option" where
  "phys_Split = map_Split pa_base pa_size phys_halve"

definition phys_MergeAdjacent :: "PhysMap \<Rightarrow> u64 \<Rightarrow> (PhysMap \<times> u64) option" where
  "phys_MergeAdjacent = map_MergeAdjacent phys_CanMergeWith phys_join"

definition CarvePhysArea :: "PhysMap \<Rightarrow> u64 \<Rightarrow> u64 \<Rightarrow> (PhysMap \<times> u64) option" where
  "CarvePhysArea m addr sz = do {
     pmem_handle \<leftarrow> om_floor m addr;
     area \<leftarrow> om_find m pmem_handle;
     if \<not> addr \<le> phys_GetEnd area then None
     else if \<not> pa_base area \<le> addr then None
     else do {
       let start_in_area = sub64 addr (pa_base area);
       let end_in_vma = add64 start_in_area sz;
       if \<not> end_in_vma \<le> pa_size area then None
       else map_CarveSplits pa_base pa_size phys_halve m pmem_handle (pa_size area) start_in_area end_in_vma
     }
   }"

text \<open>What is observed of a physical area at an offset: the physical address, the memory type
  and the allocation state.\<close>

definition phys_view :: "PhysicalMemoryArea \<Rightarrow> u64 \<Rightarrow> u64 \<times> int \<times> PhysicalMemoryType" where
  "phys_view area i = (pa_base area + i, pa_memory_type area, pa_dma_type area)"

definition phys_good :: "PhysicalMemoryArea \<Rightarrow> bool" where
  "phys_good area \<longleftrightarrow> pa_base area + pa_size area \<le> UINT64_MAX"

abbreviation phys_at :: "PhysMap \<Rightarrow> u64 \<Rightarrow> (u64 \<times> int \<times> PhysicalMemoryType) option" where
  "phys_at \<equiv> view_at pa_size phys_view"

abbreviation phys_inv :: "PhysMap \<Rightarrow> bool" where
  "phys_inv \<equiv> area_inv pa_size phys_good"

interpretation phys: area_kind pa_base pa_size phys_view phys_good phys_halve phys_CanMergeWith phys_join
proof
  fix v :: PhysicalMemoryArea and c a b
  assume "phys_good v" "0 < c" "c < pa_size v" "phys_halve c v = (a, b)"
  then show "pa_base a = pa_base v \<and> pa_size a = c \<and> phys_good a \<and> pa_base b = pa_base v + c \<and>
      pa_size b = pa_size v - c \<and> phys_good b \<and>
      (\<forall>i < c. phys_view a i = phys_view v i) \<and> (\<forall>i < pa_size v - c. phys_view b i = phys_view v (c + i))"
    by (auto simp: phys_halve_def phys_good_def phys_view_def u64_simps)
next
  fix a b :: PhysicalMemoryArea
  show "phys_CanMergeWith a b \<noteq> None" by (simp add: phys_CanMergeWith_def)
next
  fix a b :: PhysicalMemoryArea
  assume "phys_good a" "phys_CanMergeWith a b = Some True"
  then show "pa_base a + pa_size a = pa_base b \<or> UINT64_MAX < pa_base a + pa_size a"
    by (auto simp: phys_CanMergeWith_def phys_good_def u64_simps split: if_splits)
next
  fix a b :: PhysicalMemoryArea
  assume "phys_good a" "phys_good b" "pa_size a + pa_size b \<le> UINT64_MAX" "phys_CanMergeWith a b = Some True"
  then show "pa_base (phys_join a b) = pa_base a \<and> pa_size (phys_join a b) = pa_size a + pa_size b \<and>
      phys_good (phys_join a b) \<and>
      (\<forall>i < pa_size a + pa_size b. phys_view (phys_join a b) i =
         (if i < pa_size a then phys_view a i else phys_view b (i - pa_size a)))"
    by (auto simp: phys_CanMergeWith_def phys_join_def phys_good_def phys_view_def u64_simps split: if_splits)
qed

section \<open>Virtual areas\<close>

record VirtualMemoryArea =
  vma_base :: u64
  vma_size :: u64
  vma_phys_areas :: PhysMap
  vma_type :: VMAType
  vma_prot :: MemoryProt
  vma_name :: string
  vma_fd :: int
  vma_disallow_merge :: bool

type_synonym VMAMap = "VirtualMemoryArea omap"

definition vma_Contains :: "VirtualMemoryArea \<Rightarrow> u64 \<Rightarrow> u64 \<Rightarrow> bool" where
  "vma_Contains v addr sz \<longleftrightarrow> addr \<ge> vma_base v \<and> add64 addr sz \<le> add64 (vma_base v) (vma_size v)"

definition vma_Overlaps :: "VirtualMemoryArea \<Rightarrow> u64 \<Rightarrow> u64 \<Rightarrow> bool" where
  "vma_Overlaps v addr sz \<longleftrightarrow> addr < add64 (vma_base v) (vma_size v) \<and> add64 addr sz > vma_base v"

definition vma_IsFree :: "VirtualMemoryArea \<Rightarrow> bool" where
  "vma_IsFree v \<longleftrightarrow> vma_type v = VMAFree"

definition vma_IsMapped :: "VirtualMemoryArea \<Rightarrow> bool" where
  "vma_IsMapped v \<longleftrightarrow> vma_type v \<noteq> VMAFree \<and> vma_type v \<noteq> VMAReserved \<and> vma_type v \<noteq> VMAPoolReserved"

definition HasPhysicalBacking :: "VirtualMemoryArea \<Rightarrow> bool" where
  "HasPhysicalBacking v \<longleftrightarrow> vma_type v = VMADirect \<or> vma_type v = VMAFlexible \<or> vma_type v = VMAPooled"

text \<open>\<open>std::prev(phys_areas.end())\<close> and \<open>phys_areas.begin()\<close>, dereferenced: undefined for an empty
  map.\<close>

definition last_phys :: "PhysMap \<Rightarrow> PhysicalMemoryArea option" where
  "last_phys m = do { k \<leftarrow> om_last m; om_find m k }"

definition first_phys :: "PhysMap \<Rightarrow> PhysicalMemoryArea option" where
  "first_phys m = do { k \<leftarrow> om_begin m; om_find m k }"

definition vma_CanMergeWith :: "VirtualMemoryArea \<Rightarrow> VirtualMemoryArea \<Rightarrow> bool option" where
  "vma_CanMergeWith v next_vma =
    (if vma_disallow_merge v \<or> vma_disallow_merge next_vma then Some False
     else if add64 (vma_base v) (vma_size v) \<noteq> vma_base next_vma then Some False
     else do {
       apart \<leftarrow> (if vma_type v = VMADirect \<and> vma_type next_vma = VMADirect
                 then do {
                   last_area \<leftarrow> last_phys (vma_phys_areas v);
                   first_next \<leftarrow> first_phys (vma_phys_areas next_vma);
                   Some (add64 (pa_base last_area) (pa_size last_area) \<noteq> pa_base first_next \<or>
                         pa_memory_type last_area \<noteq> pa_memory_type first_next)
                 } else Some False);
       if apart then Some False
       else if vma_prot v \<noteq> vma_prot next_vma \<or> vma_type v \<noteq> vma_type next_vma then Some False
       else if vma_name v \<noteq> vma_name next_vma then Some False
       else Some True
     })"

text \<open>The loop of \<open>Split\<close> over the physical areas of the old area: one iteration, on the physical
  areas kept by the old area and those moved to the new one.\<close>

definition split_phys_step :: "u64 \<Rightarrow> PhysMap \<times> PhysMap \<Rightarrow> u64 \<times> PhysicalMemoryArea \<Rightarrow> PhysMap \<times> PhysMap" where
  "split_phys_step offset_in_vma st e = (case st of (old_areas, new_areas) \<Rightarrow> case e of (offset, region) \<Rightarrow>
     let old_areas = (if add64 offset (pa_size region) \<le> offset_in_vma
                      then om_set old_areas offset region else old_areas);
         straddles = (offset < offset_in_vma \<and> add64 offset (pa_size region) > offset_in_vma);
         size_in_old = sub64 offset_in_vma offset;
         old_areas = (if straddles then om_set old_areas offset (region\<lparr>pa_size := size_in_old\<rparr>) else old_areas);
         new_areas = (if straddles
                      then om_set new_areas 0 (region\<lparr>pa_base := add64 (pa_base region) size_in_old,
                             pa_size := sub64 (pa_size region) size_in_old\<rparr>)
                      else new_areas);
         new_areas = (if offset \<ge> offset_in_vma
                      then om_set new_areas (sub64 offset offset_in_vma) region else new_areas)
     in (old_areas, new_areas))"

definition vma_halve :: "u64 \<Rightarrow> VirtualMemoryArea \<Rightarrow> VirtualMemoryArea \<times> VirtualMemoryArea" where
  "vma_halve offset_in_vma old_vma =
    (let new_vma = old_vma\<lparr>vma_base := add64 (vma_base old_vma) offset_in_vma,
                           vma_size := sub64 (vma_size old_vma) offset_in_vma\<rparr>;
         first = old_vma\<lparr>vma_size := offset_in_vma\<rparr>
     in if HasPhysicalBacking new_vma
        then case foldl (split_phys_step offset_in_vma) ([], []) (vma_phys_areas old_vma) of
               (old_areas, new_areas) \<Rightarrow>
                 (first\<lparr>vma_phys_areas := old_areas\<rparr>, new_vma\<lparr>vma_phys_areas := new_areas\<rparr>)
        else (first, new_vma))"

definition vma_join :: "VirtualMemoryArea \<Rightarrow> VirtualMemoryArea \<Rightarrow> VirtualMemoryArea" where
  "vma_join v next_vma =
    (let base_offset = vma_size v in
     v\<lparr>vma_size := add64 (vma_size v) (vma_size next_vma),
       vma_phys_areas := foldl (\<lambda>m (k, area). om_set m (add64 base_offset k) area)
         (vma_phys_areas v) (vma_phys_areas next_vma)\<rparr>)"

definition vma_Split :: "VMAMap \<Rightarrow> u64 \<Rightarrow> u64 \<Rightarrow> (VMAMap \<times> u64) option" where
  "vma_Split = map_Split vma_base vma_size vma_halve"

definition vma_MergeAdjacent :: "VMAMap \<Rightarrow> u64 \<Rightarrow> (VMAMap \<times> u64) option" where
  "vma_MergeAdjacent = map_MergeAdjacent vma_CanMergeWith vma_join"

definition CarveVMA :: "VMAMap \<Rightarrow> u64 \<Rightarrow> u64 \<Rightarrow> (VMAMap \<times> u64) option" where
  "CarveVMA m virtual_addr sz = do {
     vma_handle \<leftarrow> om_floor m virtual_addr;
     v \<leftarrow> om_find m vma_handle;
     if \<not> vma_base v \<le> virtual_addr then None
     else do {
       let start_in_vma = sub64 virtual_addr (vma_base v);
       let end_in_vma = add64 start_in_vma sz;
       if start_in_vma = 0 \<and> sz = vma_size v then Some (m, vma_handle)
       else if \<not> end_in_vma \<le> vma_size v then None
       else map_CarveSplits vma_base vma_size vma_halve m vma_handle (vma_size v) start_in_vma end_in_vma
     }
   }"

section \<open>Well-formed virtual areas\<close>

text \<open>What is observed of a virtual area at an offset: its attributes and the physical memory
  behind the offset.  The file descriptor is not observed: \<open>MergeAdjacent\<close> joins file mappings of
  different descriptors and keeps the first one.\<close>

definition vma_view :: "VirtualMemoryArea \<Rightarrow> u64 \<Rightarrow>
    VMAType \<times> MemoryProt \<times> string \<times> bool \<times> (u64 \<times> int \<times> PhysicalMemoryType) option" where
  "vma_view v i = (vma_type v, vma_prot v, vma_name v, vma_disallow_merge v, phys_at (vma_phys_areas v) i)"

definition vma_good :: "VirtualMemoryArea \<Rightarrow> bool" where
  "vma_good v \<longleftrightarrow> phys_inv (vma_phys_areas v) \<and>
     (\<forall>k p. om_find (vma_phys_areas v) k = Some p \<longrightarrow> k + pa_size p \<le> vma_size v) \<and>
     (if HasPhysicalBacking v then \<forall>i < vma_size v. phys_at (vma_phys_areas v) i \<noteq> None
      else vma_phys_areas v = [])"

abbreviation vma_at where
  "vma_at \<equiv> view_at vma_size vma_view"

abbreviation vma_inv :: "VMAMap \<Rightarrow> bool" where
  "vma_inv \<equiv> area_inv vma_size vma_good"

lemma phys_inv_Nil: "phys_inv []"
  by (simp add: area_inv_def)

lemma phys_at_Nil [simp]: "phys_at [] i = None"
  by (simp add: view_at_def area_at_def)

lemma phys_at_Some:
  assumes "phys_inv m"
  shows "phys_at m i = Some w \<longleftrightarrow>
    (\<exists>k p. om_find m k = Some p \<and> k \<le> i \<and> i < k + pa_size p \<and> phys_view p (i - k) = w)"
  by (rule view_at_Some [OF assms])

text \<open>Two readings of a map agree when they have the same entries over the offset.\<close>

lemma phys_at_shift:
  assumes inv: "phys_inv m" "phys_inv m'"
    and ent: "\<And>w. (\<exists>k p. om_find m k = Some p \<and> k \<le> i \<and> i < k + pa_size p \<and> phys_view p (i - k) = w) \<longleftrightarrow>
      (\<exists>k p. om_find m' k = Some p \<and> k \<le> j \<and> j < k + pa_size p \<and> phys_view p (j - k) = w)"
  shows "phys_at m i = phys_at m' j"
proof -
  have "phys_at m i = Some w \<longleftrightarrow> phys_at m' j = Some w" for w
    unfolding phys_at_Some [OF inv(1)] phys_at_Some [OF inv(2)] by (rule ent)
  then show ?thesis by (metis option.exhaust)
qed

section \<open>Joining virtual areas\<close>

lemma joined_phys_find:
  assumes a: "phys_inv a" and b: "phys_inv b"
    and fit: "\<And>k p. om_find b k = Some p \<Longrightarrow> base + k \<le> UINT64_MAX"
    and low: "\<And>k p. om_find a k = Some p \<Longrightarrow> k < base"
  shows "om_find (foldl (\<lambda>m (k, x). om_set m (add64 base k) x) a b) j =
    (if j < base then om_find a j else om_find b (j - base))"
proof -
  let ?ys = "map (\<lambda>(k, x). (add64 base k, x)) b"
  have srt: "om_sorted a" "om_sorted b" using a b by (auto simp: area_inv_def)
  have mem: "(i, v) \<in> set (rev ?ys) \<longleftrightarrow> base \<le> i \<and> om_find b (i - base) = Some v" for i v
  proof -
    have "(i, v) \<in> set (rev ?ys) \<longleftrightarrow> (\<exists>k. om_find b k = Some v \<and> i = add64 base k)"
      unfolding om_find_mem [OF srt(2)] by auto
    also have "\<dots> \<longleftrightarrow> (\<exists>k. om_find b k = Some v \<and> i = base + k)" using fit add64_exact by metis
    also have "\<dots> \<longleftrightarrow> base \<le> i \<and> om_find b (i - base) = Some v" by (metis add_diff_cancel_left' le_Suc_ex le_add1)
    finally show ?thesis .
  qed
  have "map_of (rev ?ys) j = Some v \<longleftrightarrow> base \<le> j \<and> om_find b (j - base) = Some v" for v
    using map_of_single_valued [of j "rev ?ys" v] mem by auto
  then have "map_of (rev ?ys) j = (if j < base then None else om_find b (j - base))"
    by (metis not_le option.exhaust)
  moreover have "om_find a j = None" if "\<not> j < base" using low that by (cases "om_find a j") auto
  ultimately show ?thesis
    unfolding om_find_foldl_set [OF srt(1), where f = "add64 base"] by (auto simp: map_add_def split: option.split)
qed

lemma joined_phys:
  assumes a: "phys_inv a" and b: "phys_inv b"
    and low: "\<And>k p. om_find a k = Some p \<Longrightarrow> k + pa_size p \<le> base"
    and high: "\<And>k p. om_find b k = Some p \<Longrightarrow> k + pa_size p \<le> n" and fit: "base + n \<le> UINT64_MAX"
  defines "m \<equiv> foldl (\<lambda>m (k, x). om_set m (add64 base k) x) a b"
  shows "phys_inv m" "\<And>k p. om_find m k = Some p \<Longrightarrow> k + pa_size p \<le> base + n"
    "\<And>i. i < base \<Longrightarrow> phys_at m i = phys_at a i" "\<And>i. base \<le> i \<Longrightarrow> phys_at m i = phys_at b (i - base)"
proof -
  have pos: "0 < pa_size p" if "om_find a k = Some p \<or> om_find b k = Some p" for k p
    using that a b unfolding area_inv_def by blast
  have lt: "\<And>k p. om_find a k = Some p \<Longrightarrow> k < base" using low pos by fastforce
  have fnd: "om_find m j = (if j < base then om_find a j else om_find b (j - base))" for j
    unfolding m_def using high fit lt by (intro joined_phys_find [OF a b]) fastforce+
  show size: "\<And>k p. om_find m k = Some p \<Longrightarrow> k + pa_size p \<le> base + n"
    using low high fnd by (fastforce split: if_splits)
  show inv: "phys_inv m"
  proof -
    have "om_sorted m" unfolding m_def using a by (intro om_sorted_foldl_set) (simp add: area_inv_def)
    moreover have "0 < pa_size p \<and> k + pa_size p \<le> UINT64_MAX \<and> phys_good p" if "om_find m k = Some p" for k p
      using that size [OF that] fit a b unfolding fnd area_inv_def by (auto split: if_splits)
    moreover have "k + pa_size p \<le> k'" if fs: "om_find m k = Some p" "om_find m k' = Some p'" "k < k'" for k p k' p'
    proof (cases "k' < base \<or> base \<le> k")
      case True
      then consider "k' < base" "k < base" | "base \<le> k" "base \<le> k'" using fs(3) by (meson le_trans less_imp_le less_trans)
      then show ?thesis
      proof cases
        case 1
        then show ?thesis using fs a unfolding fnd area_inv_def by auto
      next
        case 2
        then have "k - base + pa_size p \<le> k' - base"
          using fs diff_less_mono [of k k' base] area_apart [OF b, of "k - base" p "k' - base" p'] by (auto simp: fnd)
        then show ?thesis using 2 by linarith
      qed
    next
      case False
      then show ?thesis using fs low [of k p] unfolding fnd by auto
    qed
    ultimately show ?thesis unfolding area_inv_def by blast
  qed
  show "phys_at m i = phys_at a i" if "i < base" for i
    by (rule phys_at_shift [OF inv a]) (use that lt in \<open>auto simp: fnd\<close>)
  show "phys_at m i = phys_at b (i - base)" if i: "base \<le> i" for i
  proof (rule phys_at_shift [OF inv b])
    fix w
    show "(\<exists>k p. om_find m k = Some p \<and> k \<le> i \<and> i < k + pa_size p \<and> phys_view p (i - k) = w) \<longleftrightarrow>
      (\<exists>k p. om_find b k = Some p \<and> k \<le> i - base \<and> i - base < k + pa_size p \<and> phys_view p (i - base - k) = w)"
      (is "?L \<longleftrightarrow> ?R")
    proof
      assume ?L
      then obtain k p where kp: "om_find m k = Some p" "k \<le> i" "i < k + pa_size p" "phys_view p (i - k) = w" by blast
      then have "base \<le> k" using low i by (fastforce simp: fnd split: if_splits)
      then have "om_find b (k - base) = Some p \<and> k - base \<le> i - base \<and> i - base < k - base + pa_size p \<and>
          phys_view p (i - base - (k - base)) = w" using kp by (auto simp: fnd)
      then show ?R by blast
    next
      assume ?R
      then obtain k p where "om_find b k = Some p" "k \<le> i - base" "i - base < k + pa_size p"
        "phys_view p (i - base - k) = w" by blast
      then have "om_find m (base + k) = Some p \<and> base + k \<le> i \<and> i < base + k + pa_size p \<and>
          phys_view p (i - (base + k)) = w" using i by (auto simp: fnd)
      then show ?L by blast
    qed
  qed
qed

section \<open>Splitting virtual areas\<close>

text \<open>What one iteration of the loop of \<open>Split\<close> adds to the old and to the new area.\<close>

definition kept_part :: "u64 \<Rightarrow> u64 \<times> PhysicalMemoryArea \<Rightarrow> (u64 \<times> PhysicalMemoryArea) list" where
  "kept_part c e = (case e of (k, p) \<Rightarrow>
     if k + pa_size p \<le> c then [(k, p)] else if k < c then [(k, p\<lparr>pa_size := c - k\<rparr>)] else [])"

definition moved_part :: "u64 \<Rightarrow> u64 \<times> PhysicalMemoryArea \<Rightarrow> (u64 \<times> PhysicalMemoryArea) list" where
  "moved_part c e = (case e of (k, p) \<Rightarrow>
     if k + pa_size p \<le> c then []
     else if k < c then [(0, p\<lparr>pa_base := pa_base p + (c - k), pa_size := pa_size p - (c - k)\<rparr>)]
     else [(k - c, p)])"

abbreviation insert_all :: "'v omap \<Rightarrow> (u64 \<times> 'v) list \<Rightarrow> 'v omap" where
  "insert_all \<equiv> foldl (\<lambda>m (k, x). om_set m k x)"

lemma split_phys_step_parts:
  assumes "0 < pa_size p" "k + pa_size p \<le> UINT64_MAX" "phys_good p"
  shows "split_phys_step c (old, new) (k, p) = (insert_all old (kept_part c (k, p)), insert_all new (moved_part c (k, p)))"
  using assms
  by (auto simp: split_phys_step_def kept_part_def moved_part_def Let_def u64_simps phys_good_def add64_exact)

lemma split_phys_parts:
  assumes "\<forall>(k, p) \<in> set xs. 0 < pa_size p \<and> k + pa_size p \<le> UINT64_MAX \<and> phys_good p"
  shows "foldl (split_phys_step c) (old, new) xs =
    (insert_all old (concat (map (kept_part c) xs)), insert_all new (concat (map (moved_part c) xs)))"
  using assms by (induction xs arbitrary: old new) (auto simp: split_phys_step_parts)

lemma insert_all_find:
  assumes "\<And>v w. (j, v) \<in> set ys \<Longrightarrow> (j, w) \<in> set ys \<Longrightarrow> v = w"
  shows "om_find (insert_all [] ys) j = Some v \<longleftrightarrow> (j, v) \<in> set ys"
proof -
  have "om_find (insert_all [] ys) = map_of (rev ys)"
    using om_find_foldl_set [of "[]" "\<lambda>k. k" ys] by (simp add: fun_eq_iff map_add_def split: option.split)
  then show ?thesis using map_of_single_valued [of j "rev ys" v] assms by auto
qed

lemma kept_find:
  assumes inv: "phys_inv m"
  shows "om_find (insert_all [] (concat (map (kept_part c) m))) j = Some q \<longleftrightarrow>
    (\<exists>p. om_find m j = Some p \<and> j < c \<and> q = p\<lparr>pa_size := min (pa_size p) (c - j)\<rparr>)"
proof -
  have srt: "om_sorted m" using inv by (simp add: area_inv_def)
  have pos: "0 < pa_size p" if "om_find m k = Some p" for k p using area_entry(1) [OF inv that] .
  have mem: "(j, q) \<in> set (concat (map (kept_part c) m)) \<longleftrightarrow>
      (\<exists>p. om_find m j = Some p \<and> j < c \<and> q = p\<lparr>pa_size := min (pa_size p) (c - j)\<rparr>)" for j q
  proof -
    have "(j, q) \<in> set (kept_part c (k, p)) \<longleftrightarrow> j = k \<and> j < c \<and> q = p\<lparr>pa_size := min (pa_size p) (c - j)\<rparr>"
      if "om_find m k = Some p" for k p
      using pos [OF that] by (cases p) (auto simp: kept_part_def min_def)
    then show ?thesis by (fastforce simp: om_find_mem [OF srt, symmetric])
  qed
  show ?thesis unfolding mem [symmetric] by (rule insert_all_find) (auto simp only: mem option.inject)
qed

lemma moved_find:
  assumes inv: "phys_inv m"
  shows "om_find (insert_all [] (concat (map (moved_part c) m))) j = Some q \<longleftrightarrow>
    (\<exists>k p. om_find m k = Some p \<and> c < k + pa_size p \<and> j = k - c \<and>
       q = p\<lparr>pa_base := pa_base p + (c - k), pa_size := pa_size p - (c - k)\<rparr>)"
proof -
  have srt: "om_sorted m" using inv by (simp add: area_inv_def)
  have mem: "(j, q) \<in> set (concat (map (moved_part c) m)) \<longleftrightarrow> (\<exists>k p. om_find m k = Some p \<and> c < k + pa_size p \<and>
      j = k - c \<and> q = p\<lparr>pa_base := pa_base p + (c - k), pa_size := pa_size p - (c - k)\<rparr>)" for j q
  proof -
    have "(j, q) \<in> set (moved_part c (k, p)) \<longleftrightarrow> c < k + pa_size p \<and> j = k - c \<and>
        q = p\<lparr>pa_base := pa_base p + (c - k), pa_size := pa_size p - (c - k)\<rparr>" for k p
      by (cases p) (auto simp: moved_part_def)
    then show ?thesis by (fastforce simp: om_find_mem [OF srt, symmetric])
  qed
  have uniq: "k = k'" if "om_find m k = Some p" "om_find m k' = Some p'" "c < k + pa_size p" "c < k' + pa_size p'"
      "k - c = k' - c" for k p k' p'
  proof (rule ccontr)
    assume "k \<noteq> k'"
    then consider "k < k'" | "k' < k" by linarith
    then show False
      using area_apart [OF inv that(1,2)] area_apart [OF inv that(2,1)] that by cases linarith+
  qed
  show ?thesis unfolding mem [symmetric]
  proof (rule insert_all_find)
    fix v w
    assume "(j, v) \<in> set (concat (map (moved_part c) m))" "(j, w) \<in> set (concat (map (moved_part c) m))"
    then obtain k p k' p' where kp: "om_find m k = Some p" "c < k + pa_size p" "j = k - c"
        "v = p\<lparr>pa_base := pa_base p + (c - k), pa_size := pa_size p - (c - k)\<rparr>"
      and kp': "om_find m k' = Some p'" "c < k' + pa_size p'" "j = k' - c"
        "w = p'\<lparr>pa_base := pa_base p' + (c - k'), pa_size := pa_size p' - (c - k')\<rparr>"
      unfolding mem by blast
    have "k = k'" by (rule uniq [OF kp(1) kp'(1)]) (use kp kp' in auto)
    then show "v = w" using kp kp' by simp
  qed
qed

lemma kept_phys:
  fixes c :: u64
  assumes inv: "phys_inv m"
  defines "m' \<equiv> insert_all [] (concat (map (kept_part c) m))"
  shows "phys_inv m'" "\<And>k p. om_find m' k = Some p \<Longrightarrow> k + pa_size p \<le> c"
    "\<And>i. i < c \<Longrightarrow> phys_at m' i = phys_at m i"
proof -
  note fnd = kept_find [OF inv, of c, folded m'_def]
  show size: "\<And>k p. om_find m' k = Some p \<Longrightarrow> k + pa_size p \<le> c" unfolding fnd by auto
  show inv': "phys_inv m'"
  proof -
    have "om_sorted m'" unfolding m'_def using om_sorted_foldl_set [of "[]" "\<lambda>k. k"] by simp
    moreover have "0 < pa_size p \<and> k + pa_size p \<le> UINT64_MAX \<and> phys_good p" if f: "om_find m' k = Some p" for k p
    proof -
      obtain q where q: "om_find m k = Some q" "k < c" "p = q\<lparr>pa_size := min (pa_size q) (c - k)\<rparr>"
        using f unfolding fnd by blast
      show ?thesis using area_entry(1-3) [OF inv q(1)] q(2,3) by (auto simp: phys_good_def)
    qed
    moreover have "k + pa_size p \<le> k'" if fs: "om_find m' k = Some p" "om_find m' k' = Some p'" "k < k'" for k p k' p'
    proof -
      obtain q q' where q: "om_find m k = Some q" "p = q\<lparr>pa_size := min (pa_size q) (c - k)\<rparr>"
        and q': "om_find m k' = Some q'" using fs(1,2) unfolding fnd by blast
      show ?thesis using area_apart [OF inv q(1) q' fs(3)] q(2) by simp
    qed
    ultimately show ?thesis unfolding area_inv_def by blast
  qed
  show "phys_at m' i = phys_at m i" if "i < c" for i
  proof (rule phys_at_shift [OF inv' inv])
    fix w
    show "(\<exists>k p. om_find m' k = Some p \<and> k \<le> i \<and> i < k + pa_size p \<and> phys_view p (i - k) = w) \<longleftrightarrow>
      (\<exists>k p. om_find m k = Some p \<and> k \<le> i \<and> i < k + pa_size p \<and> phys_view p (i - k) = w)"
      (is "?L \<longleftrightarrow> ?R")
    proof
      assume ?L
      then obtain k q p where "om_find m k = Some p" "q = p\<lparr>pa_size := min (pa_size p) (c - k)\<rparr>"
        "k \<le> i" "i < k + pa_size q" "phys_view q (i - k) = w" unfolding fnd by blast
      then show ?R by (intro exI [of _ k] exI [of _ p]) (simp add: phys_view_def)
    next
      assume ?R
      then obtain k p where kp: "om_find m k = Some p" "k \<le> i" "i < k + pa_size p" "phys_view p (i - k) = w" by blast
      then have "om_find m' k = Some (p\<lparr>pa_size := min (pa_size p) (c - k)\<rparr>)" unfolding fnd using that by simp
      then show ?L using kp that by (intro exI [of _ k]) (simp add: phys_view_def)
    qed
  qed
qed

lemma moved_phys:
  fixes c :: u64
  assumes inv: "phys_inv m" and fit: "\<And>k p. om_find m k = Some p \<Longrightarrow> k + pa_size p \<le> n"
  defines "m' \<equiv> insert_all [] (concat (map (moved_part c) m))"
  shows "phys_inv m'" "\<And>k p. om_find m' k = Some p \<Longrightarrow> k + pa_size p \<le> n - c"
    "\<And>i. phys_at m' i = phys_at m (c + i)"
proof -
  note fnd = moved_find [OF inv, of c, folded m'_def]
  show size: "\<And>k p. om_find m' k = Some p \<Longrightarrow> k + pa_size p \<le> n - c"
    unfolding fnd using fit by fastforce
  show inv': "phys_inv m'"
  proof -
    have "om_sorted m'" unfolding m'_def using om_sorted_foldl_set [of "[]" "\<lambda>k. k"] by simp
    moreover have "0 < pa_size p \<and> k + pa_size p \<le> UINT64_MAX \<and> phys_good p" if f: "om_find m' k = Some p" for k p
    proof -
      obtain j q where q: "om_find m j = Some q" "c < j + pa_size q" "k = j - c"
          "p = q\<lparr>pa_base := pa_base q + (c - j), pa_size := pa_size q - (c - j)\<rparr>"
        using f unfolding fnd by blast
      show ?thesis using area_entry(1-3) [OF inv q(1)] q(2-4) by (auto simp: phys_good_def)
    qed
    moreover have "k + pa_size p \<le> k'" if fs: "om_find m' k = Some p" "om_find m' k' = Some p'" "k < k'" for k p k' p'
    proof -
      obtain i q i' q' where q: "om_find m i = Some q" "c < i + pa_size q" "k = i - c" "pa_size p = pa_size q - (c - i)"
        and q': "om_find m i' = Some q'" "k' = i' - c" using fs(1,2) unfolding fnd by auto
      have "i < i'" using fs(3) q q' by linarith
      then have "i + pa_size q \<le> i'" by (rule area_apart [OF inv q(1) q'(1)])
      then show ?thesis using q q' by linarith
    qed
    ultimately show ?thesis unfolding area_inv_def by blast
  qed
  show "phys_at m' i = phys_at m (c + i)" for i
  proof (rule phys_at_shift [OF inv' inv])
    fix w
    show "(\<exists>k p. om_find m' k = Some p \<and> k \<le> i \<and> i < k + pa_size p \<and> phys_view p (i - k) = w) \<longleftrightarrow>
      (\<exists>k p. om_find m k = Some p \<and> k \<le> c + i \<and> c + i < k + pa_size p \<and> phys_view p (c + i - k) = w)" (is "?L \<longleftrightarrow> ?R")
    proof
      assume ?L
      then obtain j q k p where kp: "om_find m k = Some p" "c < k + pa_size p" "j = k - c"
          "q = p\<lparr>pa_base := pa_base p + (c - k), pa_size := pa_size p - (c - k)\<rparr>"
        and ji: "j \<le> i" "i < j + pa_size q" "phys_view q (i - j) = w" unfolding fnd by blast
      have "k \<le> c + i \<and> c + i < k + pa_size p \<and> phys_view p (c + i - k) = w"
        using kp ji by (cases "k \<le> c") (auto simp: phys_view_def)
      then show ?R using kp by blast
    next
      assume ?R
      then obtain k p where kp: "om_find m k = Some p" "k \<le> c + i" "c + i < k + pa_size p" "phys_view p (c + i - k) = w"
        by blast
      let ?q = "p\<lparr>pa_base := pa_base p + (c - k), pa_size := pa_size p - (c - k)\<rparr>"
      have "om_find m' (k - c) = Some ?q" unfolding fnd using kp by fastforce
      moreover have "k - c \<le> i \<and> i < k - c + pa_size ?q \<and> phys_view ?q (i - (k - c)) = w"
        using kp by (cases "k \<le> c") (auto simp: phys_view_def)
      ultimately show ?L by blast
    qed
  qed
qed

lemma vma_halve_backed:
  assumes "phys_inv (vma_phys_areas v)" and "HasPhysicalBacking v"
  shows "vma_halve c v =
    (v\<lparr>vma_size := c, vma_phys_areas := insert_all [] (concat (map (kept_part c) (vma_phys_areas v)))\<rparr>,
     v\<lparr>vma_base := add64 (vma_base v) c, vma_size := sub64 (vma_size v) c,
       vma_phys_areas := insert_all [] (concat (map (moved_part c) (vma_phys_areas v)))\<rparr>)"
proof -
  have "\<forall>(k, p) \<in> set (vma_phys_areas v). 0 < pa_size p \<and> k + pa_size p \<le> UINT64_MAX \<and> phys_good p"
    using assms(1) area_entry [OF assms(1)] om_find_mem [of "vma_phys_areas v"] by (auto simp: area_inv_def)
  then show ?thesis using assms(2)
    by (simp add: vma_halve_def split_phys_parts Let_def HasPhysicalBacking_def)
qed

lemma vma_halve_laws:
  assumes good: "vma_good v" and c: "0 < c" "c < vma_size v" and fit: "vma_base v + vma_size v \<le> UINT64_MAX"
    and h: "vma_halve c v = (a, b)"
  shows "vma_base a = vma_base v \<and> vma_size a = c \<and> vma_good a \<and> vma_base b = vma_base v + c \<and>
    vma_size b = vma_size v - c \<and> vma_good b \<and>
    (\<forall>i < c. vma_view a i = vma_view v i) \<and> (\<forall>i < vma_size v - c. vma_view b i = vma_view v (c + i))"
proof (cases "HasPhysicalBacking v")
  case False
  then have nil: "vma_phys_areas v = []" using good by (simp add: vma_good_def)
  have "a = v\<lparr>vma_size := c\<rparr>" "b = v\<lparr>vma_base := vma_base v + c, vma_size := vma_size v - c\<rparr>"
    using False h c fit by (auto simp: vma_halve_def Let_def HasPhysicalBacking_def u64_simps)
  then show ?thesis using False nil phys_inv_Nil
    by (simp add: vma_good_def vma_view_def HasPhysicalBacking_def)
next
  case True
  have inv: "phys_inv (vma_phys_areas v)"
    and full: "\<And>i. i < vma_size v \<Longrightarrow> phys_at (vma_phys_areas v) i \<noteq> None"
    and size: "\<And>k p. om_find (vma_phys_areas v) k = Some p \<Longrightarrow> k + pa_size p \<le> vma_size v"
    using good True by (auto simp: vma_good_def)
  note k = kept_phys [OF inv, where c = c]
  note m = moved_phys [OF inv size, where c = c]
  have ab: "a = v\<lparr>vma_size := c, vma_phys_areas := insert_all [] (concat (map (kept_part c) (vma_phys_areas v)))\<rparr>"
    "b = v\<lparr>vma_base := vma_base v + c, vma_size := vma_size v - c,
       vma_phys_areas := insert_all [] (concat (map (moved_part c) (vma_phys_areas v)))\<rparr>"
    using h c fit by (auto simp: vma_halve_backed [OF inv True] u64_simps)
  have "HasPhysicalBacking a" "HasPhysicalBacking b" using True by (simp_all add: ab HasPhysicalBacking_def)
  moreover have "\<forall>i < c. phys_at (vma_phys_areas a) i \<noteq> None" using k(3) full c by (simp add: ab)
  moreover have "\<forall>i < vma_size v - c. phys_at (vma_phys_areas b) i \<noteq> None" using m(3) full c by (simp add: ab)
  ultimately have "vma_good a" "vma_good b" using k(1,2) m(1,2) by (simp_all add: vma_good_def ab)
  moreover have "\<forall>i < c. vma_view a i = vma_view v i" "\<forall>i < vma_size v - c. vma_view b i = vma_view v (c + i)"
    using k(3) m(3) by (simp_all add: ab vma_view_def)
  ultimately show ?thesis by (simp add: ab)
qed

section \<open>Virtual areas satisfy the contract\<close>

lemma vma_CanMerge_True:
  assumes "vma_CanMergeWith a b = Some True"
  shows "\<not> vma_disallow_merge a" "\<not> vma_disallow_merge b" "add64 (vma_base a) (vma_size a) = vma_base b"
    "vma_prot a = vma_prot b" "vma_type a = vma_type b" "vma_name a = vma_name b"
  using assms by (auto simp: vma_CanMergeWith_def split: if_splits bind_splits)

lemma om_ends_find:
  assumes "om_sorted m" and "m \<noteq> []"
  shows "\<exists>p. (do { k \<leftarrow> om_last m; om_find m k }) = Some p" "\<exists>p. (do { k \<leftarrow> om_begin m; om_find m k }) = Some p"
proof -
  show "\<exists>p. (do { k \<leftarrow> om_last m; om_find m k }) = Some p"
    using assms om_find_mem [OF assms(1), of "fst (last m)" "snd (last m)"] by (auto simp: om_last_def)
  show "\<exists>p. (do { k \<leftarrow> om_begin m; om_find m k }) = Some p"
    using assms(2) by (cases m) (auto simp: om_begin_def)
qed

lemma direct_has_backing:
  assumes "vma_good v" "vma_type v = VMADirect" "0 < vma_size v"
  shows "om_sorted (vma_phys_areas v)" "vma_phys_areas v \<noteq> []"
  using assms by (auto simp: vma_good_def HasPhysicalBacking_def area_inv_def)

lemma vma_CanMerge_defined:
  assumes "vma_good a" "vma_good b" "0 < vma_size a" "0 < vma_size b"
  shows "vma_CanMergeWith a b \<noteq> None"
proof -
  have "\<exists>p. last_phys (vma_phys_areas a) = Some p" if "vma_type a = VMADirect"
    using om_ends_find(1) direct_has_backing [OF assms(1) that assms(3)] by (simp add: last_phys_def)
  moreover have "\<exists>p. first_phys (vma_phys_areas b) = Some p" if "vma_type b = VMADirect"
    using om_ends_find(2) direct_has_backing [OF assms(2) that assms(4)] by (simp add: first_phys_def)
  ultimately show ?thesis by (auto simp: vma_CanMergeWith_def ex_bool_eq split: if_splits)
qed

lemma vma_join_laws:
  assumes good: "vma_good a" "vma_good b" and fit: "vma_size a + vma_size b \<le> UINT64_MAX"
    and can: "vma_CanMergeWith a b = Some True"
  shows "vma_base (vma_join a b) = vma_base a \<and> vma_size (vma_join a b) = vma_size a + vma_size b \<and>
    vma_good (vma_join a b) \<and> (\<forall>i < vma_size a + vma_size b. vma_view (vma_join a b) i =
      (if i < vma_size a then vma_view a i else vma_view b (i - vma_size a)))"
proof -
  note eq = vma_CanMerge_True [OF can]
  have a: "phys_inv (vma_phys_areas a)" "\<And>k p. om_find (vma_phys_areas a) k = Some p \<Longrightarrow> k + pa_size p \<le> vma_size a"
    and b: "phys_inv (vma_phys_areas b)" "\<And>k p. om_find (vma_phys_areas b) k = Some p \<Longrightarrow> k + pa_size p \<le> vma_size b"
    using good by (auto simp: vma_good_def)
  note j = joined_phys [OF a(1) b(1) a(2) b(2) fit]
  have e: "vma_join a b = a\<lparr>vma_size := vma_size a + vma_size b, vma_phys_areas :=
      foldl (\<lambda>m (k, x). om_set m (add64 (vma_size a) k) x) (vma_phys_areas a) (vma_phys_areas b)\<rparr>"
    using fit by (simp add: vma_join_def Let_def u64_simps)
  have view: "vma_view (vma_join a b) i = (if i < vma_size a then vma_view a i else vma_view b (i - vma_size a))" for i
    using j(3,4) [of i] eq by (simp add: e vma_view_def not_less)
  have ty: "vma_type (vma_join a b) = vma_type a" by (simp add: e)
  have "vma_good (vma_join a b)"
  proof (cases "HasPhysicalBacking a")
    case True
    then have "HasPhysicalBacking b" "HasPhysicalBacking (vma_join a b)" using eq ty by (simp_all add: HasPhysicalBacking_def)
    moreover have "phys_at (vma_phys_areas (vma_join a b)) i \<noteq> None" if "i < vma_size a + vma_size b" for i
    proof (cases "i < vma_size a")
      case True
      then show ?thesis using j(3) [of i] good(1) \<open>HasPhysicalBacking a\<close> by (simp add: e vma_good_def)
    next
      case False
      then have "i - vma_size a < vma_size b" using that by linarith
      then show ?thesis using j(4) [of i] False good(2) \<open>HasPhysicalBacking b\<close> by (simp add: e vma_good_def)
    qed
    ultimately show ?thesis using j(1,2) by (simp add: vma_good_def e)
  next
    case False
    then have "vma_phys_areas a = []" "vma_phys_areas b = []" "\<not> HasPhysicalBacking (vma_join a b)"
      using good eq ty by (simp_all add: vma_good_def HasPhysicalBacking_def)
    then show ?thesis using phys_inv_Nil by (simp add: vma_good_def e)
  qed
  then show ?thesis using view by (simp add: e)
qed

interpretation vma: area_kind vma_base vma_size vma_view vma_good vma_halve vma_CanMergeWith vma_join
proof
  fix v c a b
  assume "vma_good v" "0 < c" "c < vma_size v" "vma_base v + vma_size v \<le> UINT64_MAX" "vma_halve c v = (a, b)"
  then show "vma_base a = vma_base v \<and> vma_size a = c \<and> vma_good a \<and> vma_base b = vma_base v + c \<and>
    vma_size b = vma_size v - c \<and> vma_good b \<and>
    (\<forall>i < c. vma_view a i = vma_view v i) \<and> (\<forall>i < vma_size v - c. vma_view b i = vma_view v (c + i))"
    by (rule vma_halve_laws)
next
  fix a b
  assume "vma_good a" "vma_good b" "0 < vma_size a" "0 < vma_size b"
  then show "vma_CanMergeWith a b \<noteq> None" by (rule vma_CanMerge_defined)
next
  fix a b
  assume "vma_CanMergeWith a b = Some True"
  then show "vma_base a + vma_size a = vma_base b \<or> UINT64_MAX < vma_base a + vma_size a"
    using vma_CanMerge_True(3) [of a b] by (cases "vma_base a + vma_size a \<le> UINT64_MAX") (auto simp: u64_simps)
next
  fix a b
  assume "vma_good a" "vma_good b" "vma_size a + vma_size b \<le> UINT64_MAX" "vma_CanMergeWith a b = Some True"
  then show "vma_base (vma_join a b) = vma_base a \<and> vma_size (vma_join a b) = vma_size a + vma_size b \<and>
    vma_good (vma_join a b) \<and> (\<forall>i < vma_size a + vma_size b. vma_view (vma_join a b) i =
      (if i < vma_size a then vma_view a i else vma_view b (i - vma_size a)))"
    by (rule vma_join_laws)
qed

section \<open>Carving\<close>

abbreviation phys_map_ok :: "PhysMap \<Rightarrow> bool" where
  "phys_map_ok m \<equiv> phys_inv m \<and> keyed pa_base m"

abbreviation vma_map_ok :: "VMAMap \<Rightarrow> bool" where
  "vma_map_ok m \<equiv> vma_inv m \<and> keyed vma_base m"

lemma CarvePhysArea_result:
  assumes ok: "phys_map_ok m" and area: "area_at pa_size m addr = Some (k, p)"
    and n: "0 < n" "addr + n \<le> k + pa_size p"
  obtains m' q where "CarvePhysArea m addr n = Some (m', addr)" "phys_map_ok m'" "phys_at m' = phys_at m"
    "om_find m' addr = Some q" "pa_base q = addr" "pa_size q = n"
    "pa_memory_type q = pa_memory_type p" "pa_dma_type q = pa_dma_type p" "om_find m' k \<noteq> None"
    "\<And>x y. in_area pa_size m x y \<Longrightarrow> x + y \<le> addr \<or> addr + n \<le> x \<Longrightarrow> in_area pa_size m' x y"
proof -
  have inv: "phys_inv m" and keyed: "keyed pa_base m" using ok by auto
  have kp: "om_find m k = Some p" "k \<le> addr" "addr < k + pa_size p"
    using area area_at_Some [OF inv] by auto
  have fl: "om_floor m addr = Some k" using area by (auto simp: area_at_def split: bind_splits if_splits)
  have e: "0 < pa_size p" "k + pa_size p \<le> UINT64_MAX" using area_entry(1,2) [OF inv kp(1)] by auto
  have b: "pa_base p = k" using keyed kp by (simp add: keyed_def)
  have fit: "addr - k + n \<le> pa_size p" using n kp by linarith
  obtain m' q where c: "map_CarveSplits pa_base pa_size phys_halve m k (pa_size p) (addr - k) (addr - k + n) =
      Some (m', k + (addr - k))" "phys_inv m'" "keyed pa_base m'" "phys_at m' = phys_at m"
    "om_find m' (k + (addr - k)) = Some q" "pa_size q = n" "\<And>i. i < n \<Longrightarrow> phys_view q i = phys_view p (addr - k + i)"
    "om_find m' k \<noteq> None" "\<And>x y. in_area pa_size m x y \<Longrightarrow> \<not> (x < k + (addr - k) \<and> k + (addr - k) < x + y) \<Longrightarrow>
      \<not> (x < k + (addr - k) + n \<and> k + (addr - k) + n < x + y) \<Longrightarrow> in_area pa_size m' x y"
    using phys.map_CarveSplits_result [OF inv keyed kp(1) n(1) fit] by blast
  have "sub64 addr k = addr - k" "add64 (addr - k) n = addr - k + n" "add64 k (pa_size p) = k + pa_size p"
    using kp e fit by (auto simp: u64_simps)
  then have "CarvePhysArea m addr n = Some (m', addr)"
    using c(1) fl kp b fit by (simp add: CarvePhysArea_def phys_GetEnd_def)
  moreover have "pa_base q = addr" "pa_memory_type q = pa_memory_type p" "pa_dma_type q = pa_dma_type p"
    using c(3,5) c(7) [of 0] n kp by (auto simp: keyed_def phys_view_def)
  ultimately show ?thesis by (intro that [of m' q]) (use c kp in auto)
qed

lemma CarveVMA_result:
  assumes ok: "vma_map_ok m" and area: "area_at vma_size m addr = Some (k, v)"
    and n: "0 < n" "addr + n \<le> k + vma_size v"
  obtains m' u where "CarveVMA m addr n = Some (m', addr)" "vma_map_ok m'" "vma_at m' = vma_at m"
    "om_find m' addr = Some u" "vma_base u = addr" "vma_size u = n"
    "\<And>i. i < n \<Longrightarrow> vma_view u i = vma_view v (addr - k + i)" "om_find m' k \<noteq> None"
    "\<And>x y. in_area vma_size m x y \<Longrightarrow> x + y \<le> addr \<or> addr + n \<le> x \<Longrightarrow> in_area vma_size m' x y"
proof -
  have inv: "vma_inv m" and keyed: "keyed vma_base m" using ok by auto
  have kp: "om_find m k = Some v" "k \<le> addr" "addr < k + vma_size v"
    using area area_at_Some [OF inv] by auto
  have fl: "om_floor m addr = Some k" using area by (auto simp: area_at_def split: bind_splits if_splits)
  have e: "0 < vma_size v" "k + vma_size v \<le> UINT64_MAX" using area_entry(1,2) [OF inv kp(1)] by auto
  have b: "vma_base v = k" using keyed kp by (simp add: keyed_def)
  have fit: "addr - k + n \<le> vma_size v" using n kp by linarith
  have arith: "sub64 addr k = addr - k" "add64 (addr - k) n = addr - k + n"
    using kp e fit by (auto simp: u64_simps)
  show ?thesis
  proof (cases "addr = k \<and> n = vma_size v")
    case True
    then have "CarveVMA m addr n = Some (m, addr)" using fl kp b by (simp add: CarveVMA_def u64_simps)
    then show ?thesis by (rule that [of m v]) (use True ok kp b in auto)
  next
    case False
    obtain m' u where c: "map_CarveSplits vma_base vma_size vma_halve m k (vma_size v) (addr - k) (addr - k + n) =
        Some (m', k + (addr - k))" "vma_inv m'" "keyed vma_base m'" "vma_at m' = vma_at m"
      "om_find m' (k + (addr - k)) = Some u" "vma_size u = n" "\<And>i. i < n \<Longrightarrow> vma_view u i = vma_view v (addr - k + i)"
      "om_find m' k \<noteq> None" "\<And>x y. in_area vma_size m x y \<Longrightarrow> \<not> (x < k + (addr - k) \<and> k + (addr - k) < x + y) \<Longrightarrow>
        \<not> (x < k + (addr - k) + n \<and> k + (addr - k) + n < x + y) \<Longrightarrow> in_area vma_size m' x y"
      using vma.map_CarveSplits_result [OF inv keyed kp(1) n(1) fit] by blast
    have "CarveVMA m addr n = Some (m', addr)"
      using c(1) fl kp b fit False by (auto simp: CarveVMA_def arith)
    moreover have "vma_base u = addr" using c(3,5) kp by (simp add: keyed_def)
    ultimately show ?thesis by (intro that [of m' u]) (use c kp in auto)
  qed
qed

end
