(* ===== verification/Kernel_Error.thy ===== *)
theory Kernel_Error
  imports Prelude
begin

text \<open>
  The error codes of the guest kernel that the modelled functions return
  (\<^verbatim>\<open>src/src/core/libraries/kernel/orbis_error.h\<close>), the POSIX error numbers they set
  (\<^verbatim>\<open>src/src/core/libraries/kernel/posix_error.h\<close>), and the translation between the two.
\<close>

datatype OrbisResult = ORBIS_OK | ORBIS_KERNEL_ERROR_EPERM | ORBIS_KERNEL_ERROR_ENOENT | ORBIS_KERNEL_ERROR_ESRCH
  | ORBIS_KERNEL_ERROR_EBADF | ORBIS_KERNEL_ERROR_EDEADLK | ORBIS_KERNEL_ERROR_ENOMEM | ORBIS_KERNEL_ERROR_EACCES | ORBIS_KERNEL_ERROR_EFAULT | ORBIS_KERNEL_ERROR_EBUSY
  | ORBIS_KERNEL_ERROR_EINVAL | ORBIS_KERNEL_ERROR_EAGAIN | ORBIS_KERNEL_ERROR_ENOTSUP | ORBIS_KERNEL_ERROR_ETIMEDOUT
  | ORBIS_KERNEL_ERROR_ENAMETOOLONG | ORBIS_KERNEL_ERROR_EOVERFLOW | ORBIS_KERNEL_ERROR_ECANCELED

text \<open>The code of an error as the unsigned value of its 32 bits.\<close>

fun orbis_code :: "OrbisResult \<Rightarrow> nat" where
  "orbis_code ORBIS_OK = 0"
| "orbis_code ORBIS_KERNEL_ERROR_EPERM = 0x80020001"
| "orbis_code ORBIS_KERNEL_ERROR_ENOENT = 0x80020002"
| "orbis_code ORBIS_KERNEL_ERROR_ESRCH = 0x80020003"
| "orbis_code ORBIS_KERNEL_ERROR_EBADF = 0x80020009"
| "orbis_code ORBIS_KERNEL_ERROR_EDEADLK = 0x8002000B"
| "orbis_code ORBIS_KERNEL_ERROR_ENOMEM = 0x8002000C"
| "orbis_code ORBIS_KERNEL_ERROR_EACCES = 0x8002000D"
| "orbis_code ORBIS_KERNEL_ERROR_EFAULT = 0x8002000E"
| "orbis_code ORBIS_KERNEL_ERROR_EBUSY = 0x80020010"
| "orbis_code ORBIS_KERNEL_ERROR_EINVAL = 0x80020016"
| "orbis_code ORBIS_KERNEL_ERROR_EAGAIN = 0x80020023"
| "orbis_code ORBIS_KERNEL_ERROR_ENOTSUP = 0x8002002D"
| "orbis_code ORBIS_KERNEL_ERROR_ETIMEDOUT = 0x8002003C"
| "orbis_code ORBIS_KERNEL_ERROR_ENAMETOOLONG = 0x8002003F"
| "orbis_code ORBIS_KERNEL_ERROR_EOVERFLOW = 0x80020054"
| "orbis_code ORBIS_KERNEL_ERROR_ECANCELED = 0x80020055"

datatype PosixErrno = POSIX_EPERM | POSIX_ENOENT | POSIX_ESRCH | POSIX_EBADF | POSIX_EDEADLK | POSIX_ENOMEM | POSIX_EBUSY | POSIX_EINVAL | POSIX_EAGAIN
  | POSIX_ENOTSUP | POSIX_ETIMEDOUT | POSIX_EOVERFLOW

fun posix_code :: "PosixErrno \<Rightarrow> nat" where
  "posix_code POSIX_EPERM = 1"
| "posix_code POSIX_ENOENT = 2"
| "posix_code POSIX_ESRCH = 3"
| "posix_code POSIX_EBADF = 9"
| "posix_code POSIX_EDEADLK = 11"
| "posix_code POSIX_ENOMEM = 12"
| "posix_code POSIX_EBUSY = 16"
| "posix_code POSIX_EINVAL = 22"
| "posix_code POSIX_EAGAIN = 35"
| "posix_code POSIX_ENOTSUP = 45"
| "posix_code POSIX_ETIMEDOUT = 60"
| "posix_code POSIX_EOVERFLOW = 84"

fun ErrnoToSceKernelError :: "PosixErrno \<Rightarrow> OrbisResult" where
  "ErrnoToSceKernelError POSIX_EPERM = ORBIS_KERNEL_ERROR_EPERM"
| "ErrnoToSceKernelError POSIX_ESRCH = ORBIS_KERNEL_ERROR_ESRCH"
| "ErrnoToSceKernelError POSIX_EDEADLK = ORBIS_KERNEL_ERROR_EDEADLK"
| "ErrnoToSceKernelError POSIX_ENOMEM = ORBIS_KERNEL_ERROR_ENOMEM"
| "ErrnoToSceKernelError POSIX_EBUSY = ORBIS_KERNEL_ERROR_EBUSY"
| "ErrnoToSceKernelError POSIX_EINVAL = ORBIS_KERNEL_ERROR_EINVAL"
| "ErrnoToSceKernelError POSIX_EAGAIN = ORBIS_KERNEL_ERROR_EAGAIN"
| "ErrnoToSceKernelError POSIX_ETIMEDOUT = ORBIS_KERNEL_ERROR_ETIMEDOUT"
| "ErrnoToSceKernelError POSIX_ENOENT = ORBIS_KERNEL_ERROR_ENOENT"
| "ErrnoToSceKernelError POSIX_EBADF = ORBIS_KERNEL_ERROR_EBADF"
| "ErrnoToSceKernelError POSIX_ENOTSUP = ORBIS_KERNEL_ERROR_ENOTSUP"
| "ErrnoToSceKernelError POSIX_EOVERFLOW = ORBIS_KERNEL_ERROR_EOVERFLOW"

text \<open>The translation is the addition of the source.\<close>

lemma ErrnoToSceKernelError_adds: "orbis_code (ErrnoToSceKernelError e) = posix_code e + 0x80020000"
  by (cases e) simp_all

lemma orbis_code_inj: "orbis_code a = orbis_code b \<Longrightarrow> a = b"
  by (cases a; cases b) simp_all

end
