(* ===== verification/Memory_Manager.thy ===== *)
theory Memory_Manager
  imports Memory_Areas Kernel_Error
begin

text \<open>
  The class \<open>MemoryManager\<close> of \<^verbatim>\<open>src/src/core/memory.h\<close> and \<^verbatim>\<open>src/src/core/memory.cpp\<close>: the state
  and every operation, callees before callers.  Locks are not modelled: an operation is one
  atomic step.  What the operations ask of the host (address space, GPU tracker, file backends)
  is recorded in order in \<open>mm_log\<close>; the bounds of the host address space are part of the state.
  A failed \<open>ASSERT\<close>, a dereferenced \<open>end()\<close> and a loop that never ends are \<open>None\<close>.
\<close>

section \<open>State\<close>

text \<open>Host effects: address, size and the further arguments of the call.\<close>

datatype HostOp =
    HostMap u64 u64 u64 bool
  | HostUnmap u64 u64
  | HostProtect u64 u64 u32
  | HostZeroBacking u64 u64
  | HostMapFile u64 u64 u64 u32
  | GpuMapMemory u64 u64
  | GpuUnmapMemory u64 u64
  | GpuInvalidateMemory u64 u64

record PrtArea =
  prt_start :: u64
  prt_end :: u64
  prt_mapped :: bool

record MemoryManager =
  mm_dmem :: PhysMap
  mm_fmem :: PhysMap
  mm_vma :: VMAMap
  mm_total_direct_size :: u64
  mm_total_flexible_size :: u64
  mm_flexible_usage :: u64
  mm_pool_budget :: u64
  mm_sdk_version :: int
  mm_prt_areas :: "PrtArea list"
  mm_system_managed_base :: u64
  mm_user_base :: u64
  mm_user_size :: u64
  mm_log :: "HostOp list"

abbreviation (input) SIZE_16KB :: u64 where "SIZE_16KB \<equiv> 0x4000"
abbreviation (input) SIZE_64KB :: u64 where "SIZE_64KB \<equiv> 0x10000"
abbreviation (input) SIZE_1MB :: u64 where "SIZE_1MB \<equiv> 0x100000"
abbreviation (input) SIZE_1GB :: u64 where "SIZE_1GB \<equiv> 0x40000000"
abbreviation (input) DEFAULT_MAPPING_BASE :: u64 where "DEFAULT_MAPPING_BASE \<equiv> 0x200000000"
abbreviation (input) INVALID_ADDR :: u64 where "INVALID_ADDR \<equiv> UINT64_MAX"

definition host_op :: "HostOp \<Rightarrow> MemoryManager \<Rightarrow> MemoryManager" where
  "host_op e s = s\<lparr>mm_log := mm_log s @ [e]\<rparr>"

text \<open>A signed 32-bit setting converted to \<open>u64\<close> and multiplied by \<open>1_MB\<close>.\<close>

definition setting_MB :: "int \<Rightarrow> u64" where
  "setting_MB x = mul64 (nat (x mod 18446744073709551616)) SIZE_1MB"

text \<open>The elements of a map from an iterator to \<open>end()\<close>.\<close>

definition elements_from :: "'v omap \<Rightarrow> u64 \<Rightarrow> (u64 \<times> 'v) list" where
  "elements_from m k = dropWhile (\<lambda>(j, _). j < k) m"

section \<open>Construction and configuration\<close>

text \<open>\<open>regions\<close> are the usable regions of the address space, \<open>extra_dmem\<close> and \<open>extra_fmem\<close> the
  settings, \<open>sdk\<close> the compiled SDK version.\<close>

definition free_vma :: "u64 \<Rightarrow> u64 \<Rightarrow> VirtualMemoryArea" where
  "free_vma base sz = \<lparr>vma_base = base, vma_size = sz, vma_phys_areas = [], vma_type = VMAFree,
     vma_prot = 0, vma_name = '''', vma_fd = 0, vma_disallow_merge = False\<rparr>"

definition free_phys :: "u64 \<Rightarrow> u64 \<Rightarrow> PhysicalMemoryArea" where
  "free_phys base sz = \<lparr>pa_base = base, pa_size = sz, pa_memory_type = 0, pa_dma_type = PhysFree\<rparr>"

definition MemoryManager_init :: "(u64 \<times> u64) list \<Rightarrow> int \<Rightarrow> int \<Rightarrow> int \<Rightarrow> u64 \<Rightarrow> u64 \<Rightarrow> u64 \<Rightarrow> MemoryManager" where
  "MemoryManager_init regions extra_dmem extra_fmem sdk system_base user_base user_size =
    (let total_size = 7936 * SIZE_1MB;
         total_size = (if extra_dmem \<noteq> 0 then add64 total_size (setting_MB extra_dmem) else total_size);
         total_size = (if extra_fmem \<noteq> 0 then add64 total_size (setting_MB extra_fmem) else total_size);
         total_flexible = add64 (512 * SIZE_1MB) (nat (extra_fmem mod 18446744073709551616))
     in \<lparr>mm_dmem = [(0, free_phys 0 total_size)],
         mm_fmem = [(total_size, free_phys total_size total_flexible)],
         mm_vma = foldl (\<lambda>m (lower, upper). om_emplace m lower (free_vma lower (sub64 upper lower))) [] regions,
         mm_total_direct_size = total_size, mm_total_flexible_size = total_flexible,
         mm_flexible_usage = 0, mm_pool_budget = 0, mm_sdk_version = sdk,
         mm_prt_areas = replicate 3 \<lparr>prt_start = 0, prt_end = 0, prt_mapped = False\<rparr>,
         mm_system_managed_base = system_base, mm_user_base = user_base, mm_user_size = user_size,
         mm_log = []\<rparr>)"

definition SetupMemoryRegions :: "bool \<Rightarrow> bool \<Rightarrow> int \<Rightarrow> int \<Rightarrow> u64 \<Rightarrow> bool \<Rightarrow> bool \<Rightarrow>
    MemoryManager \<Rightarrow> MemoryManager option" where
  "SetupMemoryRegions is_neo is_devkit extra_dmem extra_fmem flexible_size use_extended_mem1 use_extended_mem2 s = do {
     let total_size = (if is_neo then 5888 * SIZE_1MB else 5248 * SIZE_1MB);
     let total_size = (if is_devkit then (if is_neo then 7936 * SIZE_1MB else 6656 * SIZE_1MB) else total_size);
     let total_size = (if extra_dmem \<noteq> 0 then add64 total_size (setting_MB extra_dmem) else total_size);
     let (total_size, flexible_size) =
       (if extra_fmem \<noteq> 0 then (add64 total_size (setting_MB extra_fmem), add64 flexible_size (setting_MB extra_fmem))
        else (total_size, flexible_size));
     let total_size = (if \<not> use_extended_mem1 \<and> is_neo then sub64 total_size (256 * SIZE_1MB) else total_size);
     let total_size = (if \<not> use_extended_mem2 \<and> \<not> is_neo then sub64 total_size (128 * SIZE_1MB) else total_size);
     let total_flexible = sub64 flexible_size (64 * SIZE_1MB);
     if \<not> total_flexible \<ge> mm_flexible_usage s then None
     else do {
       let old_direct_size = mm_total_direct_size s;
       let total_direct = sub64 total_size flexible_size;
       last_dmem_area \<leftarrow> om_floor (mm_dmem s) total_direct;
       area \<leftarrow> om_find (mm_dmem s) last_dmem_area;
       if \<not> (pa_dma_type area = PhysFree \<and> pa_size area \<ge> sub64 old_direct_size total_direct) then None
       else Some (s\<lparr>mm_total_flexible_size := total_flexible, mm_total_direct_size := total_direct,
              mm_dmem := om_set (mm_dmem s) last_dmem_area
                (area\<lparr>pa_size := sub64 (pa_size area) (sub64 old_direct_size total_direct)\<rparr>)\<rparr>)
     }
   }"

section \<open>Address range checks (memory.h)\<close>

definition IsValidGpuMapping :: "u64 \<Rightarrow> u64 \<Rightarrow> bool" where
  "IsValidGpuMapping virtual_addr sz \<longleftrightarrow> add64 virtual_addr sz < 0x10000000000"

fun valid_mapping_loop :: "(u64 \<times> VirtualMemoryArea) list \<Rightarrow> u64 \<Rightarrow> u64 \<Rightarrow> bool" where
  "valid_mapping_loop [] addr_to_check size_to_validate = (size_to_validate \<le> 0)"
| "valid_mapping_loop ((k, v) # rest) addr_to_check size_to_validate =
    (if size_to_validate > 0
     then let offset_in_vma = sub64 addr_to_check (vma_base v);
              size_in_vma = min (sub64 (vma_size v) offset_in_vma) size_to_validate;
              size_to_validate = sub64 size_to_validate size_in_vma;
              addr_to_check = add64 addr_to_check size_in_vma
          in if size_to_validate > 0 \<and> rest \<noteq> [] \<and> addr_to_check \<noteq> vma_base (snd (hd rest)) then False
             else valid_mapping_loop rest addr_to_check size_to_validate
     else size_to_validate \<le> 0)"

definition IsValidMapping :: "MemoryManager \<Rightarrow> u64 \<Rightarrow> u64 \<Rightarrow> bool option" where
  "IsValidMapping s virtual_addr sz = do {
     end_it \<leftarrow> om_last (mm_vma s);
     end_vma \<leftarrow> om_find (mm_vma s) end_it;
     first \<leftarrow> om_begin (mm_vma s);
     let end_addr = add64 end_it (vma_size end_vma);
     if virtual_addr < first \<or> virtual_addr \<ge> end_addr then Some False
     else if sz = 0 then Some True
     else do {
       vma_handle \<leftarrow> om_floor (mm_vma s) virtual_addr;
       Some (valid_mapping_loop (elements_from (mm_vma s) vma_handle) virtual_addr sz)
     }
   }"

text \<open>\<open>ASSERT_MSG(IsValidMapping(...))\<close>.\<close>

definition assert_valid :: "MemoryManager \<Rightarrow> u64 \<Rightarrow> u64 \<Rightarrow> unit option" where
  "assert_valid s virtual_addr sz = do {
     ok \<leftarrow> IsValidMapping s virtual_addr sz;
     if ok then Some () else None
   }"

definition find_vma :: "MemoryManager \<Rightarrow> u64 \<Rightarrow> (u64 \<times> VirtualMemoryArea) option" where
  "find_vma s addr = do { k \<leftarrow> om_floor (mm_vma s) addr; v \<leftarrow> om_find (mm_vma s) k; Some (k, v) }"

definition find_dmem :: "MemoryManager \<Rightarrow> u64 \<Rightarrow> (u64 \<times> PhysicalMemoryArea) option" where
  "find_dmem s addr = do { k \<leftarrow> om_floor (mm_dmem s) addr; p \<leftarrow> om_find (mm_dmem s) k; Some (k, p) }"

section \<open>Reading and writing guest memory\<close>

fun clamp_loop :: "(u64 \<times> VirtualMemoryArea) list \<Rightarrow> u64 \<Rightarrow> u64 \<Rightarrow> u64" where
  "clamp_loop [] clamped_size sz = clamped_size"
| "clamp_loop ((k, v) # rest) clamped_size sz =
    (if vma_IsMapped v \<and> clamped_size < sz then clamp_loop rest (add64 clamped_size (vma_size v)) sz
     else clamped_size)"

definition ClampRangeSize :: "MemoryManager \<Rightarrow> u64 \<Rightarrow> u64 \<Rightarrow> u64 option" where
  "ClampRangeSize s virtual_addr sz =
    (if sz < SIZE_1GB then Some sz
     else do {
       assert_valid s virtual_addr 0;
       (k, v) \<leftarrow> find_vma s virtual_addr;
       let clamped_size = sub64 (add64 (vma_base v) (vma_size v)) virtual_addr;
       Some (min (clamp_loop (tl (elements_from (mm_vma s) k)) clamped_size sz) sz)
     })"

definition SetPrtArea :: "nat \<Rightarrow> u64 \<Rightarrow> u64 \<Rightarrow> MemoryManager \<Rightarrow> MemoryManager option" where
  "SetPrtArea area_id address sz s =
    (if area_id \<ge> length (mm_prt_areas s) then None
     else let area = mm_prt_areas s ! area_id;
              s = (if prt_mapped area
                   then host_op (GpuUnmapMemory (prt_start area) (sub64 (prt_end area) (prt_start area))) s else s);
              s = s\<lparr>mm_prt_areas := (mm_prt_areas s)[area_id := \<lparr>prt_start = address, prt_end = add64 address sz,
                     prt_mapped = True\<rparr>]\<rparr>
          in Some (host_op (GpuMapMemory address sz) s))"

text \<open>\<open>mem\<close> is the guest memory, read where a virtual area is mapped.  Incrementing past the last
  element and dereferencing is undefined.\<close>

fun copy_sparse_loop :: "(u64 \<Rightarrow> byte) \<Rightarrow> (u64 \<times> VirtualMemoryArea) list \<Rightarrow> u64 \<Rightarrow> u64 \<Rightarrow> byte list option" where
  "copy_sparse_loop mem [] virtual_addr sz = (if sz = 0 then Some [] else None)"
| "copy_sparse_loop mem ((k, v) # rest) virtual_addr sz =
    (if sz = 0 then Some []
     else do {
       let copy_size = min (sub64 (vma_size v) (sub64 virtual_addr k)) sz;
       let chunk = (if vma_IsMapped v then map (\<lambda>i. mem (virtual_addr + i)) [0..<copy_size]
                    else replicate copy_size 0);
       tail \<leftarrow> copy_sparse_loop mem rest (add64 virtual_addr copy_size) (sub64 sz copy_size);
       Some (chunk @ tail)
     })"

definition CopySparseMemory :: "(u64 \<Rightarrow> byte) \<Rightarrow> MemoryManager \<Rightarrow> u64 \<Rightarrow> u64 \<Rightarrow> byte list option" where
  "CopySparseMemory mem s virtual_addr sz = do {
     assert_valid s virtual_addr 0;
     (k, v) \<leftarrow> find_vma s virtual_addr;
     copy_sparse_loop mem (elements_from (mm_vma s) k) virtual_addr sz
   }"

fun vmas_to_write :: "(u64 \<times> VirtualMemoryArea) list \<Rightarrow> u64 \<Rightarrow> u64 \<Rightarrow> VirtualMemoryArea list option" where
  "vmas_to_write [] virtual_addr sz = None"
| "vmas_to_write ((k, v) # rest) virtual_addr sz =
    (if \<not> vma_Overlaps v virtual_addr sz \<or> \<not> HasPhysicalBacking v then Some []
     else do { vs \<leftarrow> vmas_to_write rest virtual_addr sz; Some (v # vs) })"

text \<open>A write to the backing is the backing offset and the bytes copied there.\<close>

type_synonym backing_write = "u64 \<times> byte list"

fun write_phys_loop :: "(u64 \<times> PhysicalMemoryArea) list \<Rightarrow> u64 \<Rightarrow> byte list \<Rightarrow> u64 \<Rightarrow>
    (backing_write list \<times> u64) option" where
  "write_phys_loop [] start_in_vma data sz = Some ([], sz)"
| "write_phys_loop ((k, p) # rest) start_in_vma data sz =
    (if sz = 0 then Some ([], sz)
     else do {
       let start_in_dma = sub64 (max start_in_vma k) k;
       let copy_size = min sz (sub64 (pa_size p) start_in_dma);
       if copy_size > length data then None
       else do {
         (ws, sz) \<leftarrow> write_phys_loop rest start_in_vma data (sub64 sz copy_size);
         Some ((add64 (pa_base p) start_in_dma, take copy_size data) # ws, sz)
       }
     })"

fun write_vmas_loop :: "VirtualMemoryArea list \<Rightarrow> u64 \<Rightarrow> byte list \<Rightarrow> u64 \<Rightarrow> backing_write list option" where
  "write_vmas_loop [] virtual_addr data sz = Some []"
| "write_vmas_loop (v # vs) virtual_addr data sz = do {
     let start_in_vma = sub64 (max virtual_addr (vma_base v)) (vma_base v);
     phys_handle \<leftarrow> om_floor (vma_phys_areas v) start_in_vma;
     (ws, sz) \<leftarrow> write_phys_loop (elements_from (vma_phys_areas v) phys_handle) start_in_vma data sz;
     rest \<leftarrow> write_vmas_loop vs virtual_addr data sz;
     Some (ws @ rest)
   }"

definition TryWriteBacking :: "MemoryManager \<Rightarrow> u64 \<Rightarrow> byte list \<Rightarrow> u64 \<Rightarrow> (bool \<times> backing_write list) option" where
  "TryWriteBacking s virtual_addr data sz = do {
     assert_valid s virtual_addr sz;
     (k, v) \<leftarrow> find_vma s virtual_addr;
     vs \<leftarrow> vmas_to_write (elements_from (mm_vma s) k) virtual_addr sz;
     if vs = [] then Some (False, [])
     else do { ws \<leftarrow> write_vmas_loop vs virtual_addr data sz; Some (True, ws) }
   }"

section \<open>Direct memory allocation\<close>

text \<open>The search loop of \<open>PoolExpand\<close> and \<open>Allocate\<close>: the first free area, from the given iterator
  on, that holds the aligned range.  The result is the iterator, the start and the end.\<close>

fun dmem_search :: "(u64 \<times> PhysicalMemoryArea) list \<Rightarrow> u64 \<Rightarrow> u64 \<Rightarrow> u64 \<Rightarrow> (u64 \<times> u64 \<times> u64) option" where
  "dmem_search [] sz alignment mapping_start = None"
| "dmem_search ((k, area) # rest) sz alignment mapping_start =
    (let mapping_end = add64 mapping_start sz in
     if pa_dma_type area \<noteq> PhysFree \<or> phys_GetEnd area < mapping_end
     then (case rest of [] \<Rightarrow> None
           | (k', area') # _ \<Rightarrow> dmem_search rest sz alignment (AlignUp (pa_base area') alignment))
     else Some (k, mapping_start, mapping_end))"

definition PoolExpand :: "u64 \<Rightarrow> u64 \<Rightarrow> u64 \<Rightarrow> u64 \<Rightarrow> MemoryManager \<Rightarrow> (MemoryManager \<times> u64) option" where
  "PoolExpand search_start search_end sz alignment s = do {
     let alignment = (if alignment > 0 then alignment else SIZE_64KB);
     (k, area) \<leftarrow> find_dmem s search_start;
     let mapping_start = (if search_start > pa_base area then AlignUp search_start alignment
                          else AlignUp (pa_base area) alignment);
     case dmem_search (elements_from (mm_dmem s) k) sz alignment mapping_start of
       None \<Rightarrow> Some (s, INVALID_ADDR)
     | Some (dmem_area, mapping_start, mapping_end) \<Rightarrow> do {
         (dmem, h) \<leftarrow> CarvePhysArea (mm_dmem s) mapping_start sz;
         area \<leftarrow> om_find dmem h;
         Some (s\<lparr>mm_dmem := om_set dmem h (area\<lparr>pa_dma_type := PhysPooled, pa_memory_type := 3\<rparr>),
                 mm_pool_budget := add64 (mm_pool_budget s) sz\<rparr>, mapping_start)
       }
   }"

definition Allocate :: "u64 \<Rightarrow> u64 \<Rightarrow> u64 \<Rightarrow> u64 \<Rightarrow> int \<Rightarrow> MemoryManager \<Rightarrow> (MemoryManager \<times> u64) option" where
  "Allocate search_start search_end sz alignment memory_type s = do {
     let alignment = (if alignment > 0 then alignment else SIZE_16KB);
     (k, area) \<leftarrow> find_dmem s search_start;
     let mapping_start = AlignUp (max search_start (pa_base area)) alignment;
     case dmem_search (elements_from (mm_dmem s) k) sz alignment mapping_start of
       None \<Rightarrow> Some (s, INVALID_ADDR)
     | Some (dmem_area, mapping_start, mapping_end) \<Rightarrow>
         if mapping_end > search_end then Some (s, INVALID_ADDR)
         else do {
           (dmem, h) \<leftarrow> CarvePhysArea (mm_dmem s) mapping_start sz;
           area \<leftarrow> om_find dmem h;
           let dmem = om_set dmem h (area\<lparr>pa_memory_type := memory_type, pa_dma_type := PhysAllocated\<rparr>);
           (dmem, _) \<leftarrow> phys_MergeAdjacent dmem dmem_area;
           Some (s\<lparr>mm_dmem := dmem\<rparr>, mapping_start)
         }
   }"

section \<open>Unmapping\<close>

text \<open>\<open>UnmapBytesFromEntry\<close> releases the physical areas of the copied virtual area one after the
  other, in the order of their offsets.\<close>

definition unmap_phys_area :: "VMAType \<Rightarrow> u64 \<Rightarrow> u64 \<Rightarrow> MemoryManager \<Rightarrow> MemoryManager option" where
  "unmap_phys_area ty phys_addr size_in_dma s =
    (if ty = VMADirect then do {
       (dmem, h) \<leftarrow> CarvePhysArea (mm_dmem s) phys_addr size_in_dma;
       area \<leftarrow> om_find dmem h;
       (dmem, _) \<leftarrow> phys_MergeAdjacent (om_set dmem h (area\<lparr>pa_dma_type := PhysAllocated\<rparr>)) h;
       Some (s\<lparr>mm_dmem := dmem\<rparr>)
     } else if ty = VMAFlexible then do {
       (fmem, h) \<leftarrow> CarvePhysArea (mm_fmem s) phys_addr size_in_dma;
       area \<leftarrow> om_find fmem h;
       (fmem, _) \<leftarrow> phys_MergeAdjacent (om_set fmem h (area\<lparr>pa_dma_type := PhysFree\<rparr>)) h;
       Some (host_op (HostZeroBacking phys_addr size_in_dma)
         (s\<lparr>mm_fmem := fmem, mm_flexible_usage := sub64 (mm_flexible_usage s) size_in_dma\<rparr>))
     } else Some s)"

fun unmap_phys_loop :: "VMAType \<Rightarrow> u64 \<Rightarrow> (u64 \<times> PhysicalMemoryArea) list \<Rightarrow> u64 \<Rightarrow> MemoryManager \<Rightarrow>
    MemoryManager option" where
  "unmap_phys_loop ty start_in_vma [] size_to_free s = (if size_to_free = 0 then Some s else None)"
| "unmap_phys_loop ty start_in_vma ((k, p) # rest) size_to_free s =
    (if size_to_free = 0 then Some s
     else do {
       let dma_offset = sub64 (max k start_in_vma) k;
       let phys_addr = add64 (pa_base p) dma_offset;
       let size_in_dma = min size_to_free (sub64 (pa_size p) dma_offset);
       s \<leftarrow> unmap_phys_area ty phys_addr size_in_dma s;
       unmap_phys_loop ty start_in_vma rest (sub64 size_to_free size_in_dma) s
     })"

definition UnmapBytesFromEntry :: "u64 \<Rightarrow> VirtualMemoryArea \<Rightarrow> u64 \<Rightarrow> MemoryManager \<Rightarrow> (MemoryManager \<times> u64) option" where
  "UnmapBytesFromEntry virtual_addr vma_entry sz s = do {
     let start_in_vma = sub64 virtual_addr (vma_base vma_entry);
     let size_in_vma = min (sub64 (vma_size vma_entry) start_in_vma) sz;
     let ty = vma_type vma_entry;
     if ty = VMAFree \<or> ty = VMAPooled then Some (s, size_in_vma)
     else do {
       s \<leftarrow> (if length (vma_phys_areas vma_entry) > 0 then do {
               phys_handle \<leftarrow> om_floor (vma_phys_areas vma_entry) start_in_vma;
               unmap_phys_loop ty start_in_vma (elements_from (vma_phys_areas vma_entry) phys_handle) size_in_vma s
             } else Some s);
       (vmas, new_it) \<leftarrow> CarveVMA (mm_vma s) virtual_addr size_in_vma;
       v \<leftarrow> om_find vmas new_it;
       let v = v\<lparr>vma_type := VMAFree, vma_prot := 0, vma_phys_areas := [], vma_disallow_merge := False,
                 vma_name := ''''\<rparr>;
       (vmas, _) \<leftarrow> vma_MergeAdjacent (om_set vmas new_it v) new_it;
       let s = s\<lparr>mm_vma := vmas\<rparr>;
       let s = (if ty \<noteq> VMAReserved \<and> ty \<noteq> VMAPoolReserved then host_op (HostUnmap virtual_addr size_in_vma) s else s);
       Some (s, size_in_vma)
     }
   }"

text \<open>The \<open>do\<close>-\<open>while\<close> loop; \<open>ASSERT(unmapped > 0)\<close> bounds the number of iterations by the size.
  Loop variables: the state, \<open>unmapped_bytes\<close> and whether the loop goes on.\<close>

definition unmap_impl_step :: "u64 \<Rightarrow> u64 \<Rightarrow> MemoryManager \<times> u64 \<times> bool \<Rightarrow> (MemoryManager \<times> u64 \<times> bool) option" where
  "unmap_impl_step virtual_addr sz st = (case st of (s, unmapped_bytes, _) \<Rightarrow> do {
     (k, v) \<leftarrow> find_vma s (add64 virtual_addr unmapped_bytes);
     (s, unmapped) \<leftarrow> UnmapBytesFromEntry (add64 virtual_addr unmapped_bytes) v (sub64 sz unmapped_bytes) s;
     if \<not> unmapped > 0 then None
     else Some (s, add64 unmapped_bytes unmapped, add64 unmapped_bytes unmapped < sz)
   })"

definition UnmapMemoryImpl :: "u64 \<Rightarrow> u64 \<Rightarrow> MemoryManager \<Rightarrow> (MemoryManager \<times> OrbisResult) option" where
  "UnmapMemoryImpl virtual_addr sz s = do {
     (s, _) \<leftarrow> while_opt (Suc sz) (\<lambda>(_, _, more). more) (unmap_impl_step virtual_addr sz) (s, 0, True);
     Some (s, ORBIS_OK)
   }"

definition gpu_unmap :: "u64 \<Rightarrow> u64 \<Rightarrow> MemoryManager \<Rightarrow> MemoryManager" where
  "gpu_unmap addr sz s = (if IsValidGpuMapping addr sz then host_op (GpuUnmapMemory addr sz) s else s)"

definition gpu_map :: "u64 \<Rightarrow> u64 \<Rightarrow> MemoryManager \<Rightarrow> MemoryManager" where
  "gpu_map addr sz s = (if IsValidGpuMapping addr sz then host_op (GpuMapMemory addr sz) s else s)"

definition UnmapMemory :: "u64 \<Rightarrow> u64 \<Rightarrow> MemoryManager \<Rightarrow> (MemoryManager \<times> OrbisResult) option" where
  "UnmapMemory virtual_addr sz s =
    (if sz = 0 then Some (s, ORBIS_OK)
     else do {
       let virtual_addr = AlignDown virtual_addr SIZE_16KB;
       let sz = AlignUp sz SIZE_16KB;
       valid \<leftarrow> IsValidMapping s virtual_addr sz;
       if \<not> valid then Some (s, ORBIS_KERNEL_ERROR_EINVAL)
       else UnmapMemoryImpl virtual_addr sz (gpu_unmap virtual_addr sz s)
     })"

section \<open>Releasing direct memory\<close>

text \<open>The first loop of \<open>Free\<close>: what to release.  \<open>Inl\<close> is the early error return.\<close>

fun free_list_loop :: "(u64 \<times> PhysicalMemoryArea) list \<Rightarrow> u64 \<Rightarrow> bool \<Rightarrow> u64 \<Rightarrow> (OrbisResult + (u64 \<times> u64) list)" where
  "free_list_loop [] phys_addr is_checked remaining_size = Inr []"
| "free_list_loop ((k, area) # rest) phys_addr is_checked remaining_size =
    (if remaining_size = 0 then Inr []
     else if pa_dma_type area = PhysFree
     then (if is_checked then Inl ORBIS_KERNEL_ERROR_ENOENT else free_list_loop rest phys_addr is_checked remaining_size)
     else let current_phys_addr = max phys_addr k;
              start_in_dma = sub64 current_phys_addr k;
              size_in_dma = min remaining_size (sub64 (pa_size area) start_in_dma)
          in case free_list_loop rest phys_addr is_checked (sub64 remaining_size size_in_dma) of
               Inl e \<Rightarrow> Inl e | Inr l \<Rightarrow> Inr ((current_phys_addr, size_in_dma) # l))"

definition free_remove_list :: "u64 \<Rightarrow> u64 \<Rightarrow> VMAMap \<Rightarrow> (u64 \<times> u64) list" where
  "free_remove_list phys_addr sz vmas = concat (map (\<lambda>(addr, mapping).
     if vma_type mapping \<noteq> VMADirect then []
     else concat (map (\<lambda>(offset_in_vma, phys_mapping).
       if add64 phys_addr sz > pa_base phys_mapping \<and> phys_addr < add64 (pa_base phys_mapping) (pa_size phys_mapping)
       then let phys_offset = sub64 (max (pa_base phys_mapping) phys_addr) (pa_base phys_mapping);
                addr_in_vma = add64 (add64 (vma_base mapping) offset_in_vma) phys_offset;
                unmap_size = min (sub64 (pa_size phys_mapping) phys_offset) sz
            in [(addr_in_vma, unmap_size)]
       else []) (vma_phys_areas mapping))) vmas)"

fun unmap_all :: "(u64 \<times> u64) list \<Rightarrow> MemoryManager \<Rightarrow> MemoryManager option" where
  "unmap_all [] s = Some s"
| "unmap_all ((addr, sz) # rest) s = do { (s, _) \<leftarrow> UnmapMemoryImpl addr sz s; unmap_all rest s }"

fun release_all :: "(u64 \<times> u64) list \<Rightarrow> PhysMap \<Rightarrow> PhysMap option" where
  "release_all [] dmem = Some dmem"
| "release_all ((phys_addr, sz) # rest) dmem = do {
     (dmem, h) \<leftarrow> CarvePhysArea dmem phys_addr sz;
     area \<leftarrow> om_find dmem h;
     (dmem, _) \<leftarrow> phys_MergeAdjacent (om_set dmem h (area\<lparr>pa_dma_type := PhysFree, pa_memory_type := 0\<rparr>)) h;
     release_all rest dmem
   }"

definition Free :: "u64 \<Rightarrow> u64 \<Rightarrow> bool \<Rightarrow> MemoryManager \<Rightarrow> (MemoryManager \<times> OrbisResult) option" where
  "Free phys_addr sz is_checked s =
    (if phys_addr > mm_total_direct_size s \<or> is_checked \<and> add64 phys_addr sz > mm_total_direct_size s
     then Some (s, if is_checked then ORBIS_KERNEL_ERROR_ENOENT else ORBIS_OK)
     else do {
       phys_handle \<leftarrow> om_floor (mm_dmem s) phys_addr;
       case free_list_loop (elements_from (mm_dmem s) phys_handle) phys_addr is_checked sz of
         Inl e \<Rightarrow> Some (s, e)
       | Inr free_list \<Rightarrow> do {
           let remove_list = free_remove_list phys_addr sz (mm_vma s);
           let s = foldl (\<lambda>s (addr, unmap_size). gpu_unmap addr unmap_size s) s remove_list;
           s \<leftarrow> unmap_all remove_list s;
           dmem \<leftarrow> release_all free_list (mm_dmem s);
           Some (s\<lparr>mm_dmem := dmem\<rparr>, ORBIS_OK)
         }
     })"

section \<open>Searching and mapping\<close>

fun search_free_loop :: "(u64 \<times> VirtualMemoryArea) list \<Rightarrow> u64 \<Rightarrow> u64 \<Rightarrow> u64 \<Rightarrow> u64" where
  "search_free_loop [] max_search_address sz alignment = INVALID_ADDR"
| "search_free_loop ((k, v) # rest) max_search_address sz alignment =
    (if \<not> vma_IsFree v then search_free_loop rest max_search_address sz alignment
     else let virtual_addr = AlignUp (vma_base v) alignment in
       if virtual_addr > add64 (vma_base v) (vma_size v) then search_free_loop rest max_search_address sz alignment
       else if virtual_addr \<ge> max_search_address then INVALID_ADDR
       else let remaining_size = sub64 (add64 (vma_base v) (vma_size v)) virtual_addr in
         if remaining_size \<ge> sz then virtual_addr else search_free_loop rest max_search_address sz alignment)"

text \<open>The parameter \<open>alignment\<close> of the source is 32 bits wide; aligning to zero divides by zero.\<close>

definition SearchFree :: "MemoryManager \<Rightarrow> u64 \<Rightarrow> u64 \<Rightarrow> u64 \<Rightarrow> u64 option" where
  "SearchFree s virtual_addr sz alignment = do {
     let alignment = alignment mod 4294967296;
     let min_search_address = mm_system_managed_base s;
     let max_search_address = add64 (mm_user_base s) (mm_user_size s);
     let virtual_addr = (if virtual_addr < min_search_address then min_search_address else virtual_addr);
     valid \<leftarrow> IsValidMapping s virtual_addr 0;
     if \<not> valid then Some INVALID_ADDR
     else if alignment = 0 then None
     else do {
       let virtual_addr = AlignUp virtual_addr alignment;
       (k, v) \<leftarrow> find_vma s virtual_addr;
       if vma_IsFree v \<and> vma_Contains v virtual_addr sz then Some virtual_addr
       else Some (search_free_loop (tl (elements_from (mm_vma s) k)) max_search_address sz alignment)
     }
   }"

text \<open>The loop of \<open>CreateArea\<close> that frees the range of a fixed mapping.  Loop variables: the state,
  \<open>unmap_addr\<close>, \<open>unmap_size\<close> and the copied area \<open>vma\<close>.\<close>

definition create_unmap_step :: "MemoryManager \<times> u64 \<times> u64 \<times> VirtualMemoryArea \<Rightarrow>
    (MemoryManager \<times> u64 \<times> u64 \<times> VirtualMemoryArea) option" where
  "create_unmap_step st = (case st of (s, unmap_addr, unmap_size, v) \<Rightarrow> do {
     (s, unmapped) \<leftarrow> UnmapBytesFromEntry unmap_addr v unmap_size s;
     let unmap_addr = add64 unmap_addr unmapped;
     let unmap_size = sub64 unmap_size unmapped;
     (_, v) \<leftarrow> find_vma s unmap_addr;
     Some (s, unmap_addr, unmap_size, v)
   })"

definition CreateArea :: "u64 \<Rightarrow> u64 \<Rightarrow> MemoryProt \<Rightarrow> MemoryMapFlags \<Rightarrow> VMAType \<Rightarrow> string \<Rightarrow> MemoryManager \<Rightarrow>
    (MemoryManager \<times> u64) option" where
  "CreateArea virtual_addr sz prot flags ty name s = do {
     (_, v) \<leftarrow> find_vma s virtual_addr;
     s \<leftarrow> (if has_flag flags Map_Fixed
           then do {
             (s, _) \<leftarrow> while_opt (Suc sz) (\<lambda>(_, _, unmap_size, _). unmap_size > 0) create_unmap_step
                        (s, virtual_addr, sz, v);
             Some s
           } else Some s);
     (_, v) \<leftarrow> find_vma s virtual_addr;
     if \<not> vma_IsFree v then None
     else do {
       (vmas, new_vma_handle) \<leftarrow> CarveVMA (mm_vma s) virtual_addr sz;
       new_vma \<leftarrow> om_find vmas new_vma_handle;
       let prot = (if has_flag prot CpuWrite then prot OR CpuRead else prot);
       let new_vma = new_vma\<lparr>vma_disallow_merge := has_flag flags Map_NoCoalesce, vma_prot := prot,
             vma_name := name, vma_type := ty, vma_phys_areas := []\<rparr>;
       Some (s\<lparr>mm_vma := om_set vmas new_vma_handle new_vma\<rparr>, new_vma_handle)
     }
   }"

text \<open>Recording a physical area in the area \<open>new_vma\<close> and merging it with its neighbours there.\<close>

definition add_phys_area :: "u64 \<Rightarrow> u64 \<Rightarrow> PhysicalMemoryArea \<Rightarrow> VMAMap \<Rightarrow> VMAMap option" where
  "add_phys_area new_vma_handle offset area vmas = do {
     new_vma \<leftarrow> om_find vmas new_vma_handle;
     (areas, _) \<leftarrow> phys_MergeAdjacent (om_set (vma_phys_areas new_vma) offset area) offset;
     Some (om_set vmas new_vma_handle (new_vma\<lparr>vma_phys_areas := areas\<rparr>))
   }"

text \<open>Loop variables of the physical search: the state, the iterator (\<open>None\<close> is \<open>end()\<close>),
  \<open>remaining_size\<close> and \<open>current_addr\<close>.\<close>

type_synonym phys_loop = "MemoryManager \<times> u64 option \<times> u64 \<times> u64"

definition phys_loop_more :: "phys_loop \<Rightarrow> bool" where
  "phys_loop_more st = (case st of (_, handle, remaining_size, _) \<Rightarrow> handle \<noteq> None \<and> remaining_size > 0)"

definition map_flexible_step :: "u64 \<Rightarrow> u64 \<Rightarrow> bool \<Rightarrow> phys_loop \<Rightarrow> phys_loop option" where
  "map_flexible_step new_vma_handle mapped_addr is_exec st = (case st of (s, it, remaining_size, current_addr) \<Rightarrow> do {
     handle \<leftarrow> it;
     area \<leftarrow> om_find (mm_fmem s) handle;
     if pa_dma_type area \<noteq> PhysFree then Some (s, om_next (mm_fmem s) handle, remaining_size, current_addr)
     else do {
       let size_to_map = min remaining_size (pa_size area);
       (fmem, h) \<leftarrow> CarvePhysArea (mm_fmem s) (pa_base area) size_to_map;
       new_area \<leftarrow> om_find fmem h;
       let new_area = new_area\<lparr>pa_dma_type := PhysFlexible\<rparr>;
       let fmem = om_set fmem h new_area;
       vmas \<leftarrow> add_phys_area new_vma_handle (sub64 current_addr mapped_addr) new_area (mm_vma s);
       (fmem, h) \<leftarrow> phys_MergeAdjacent fmem h;
       let s = host_op (HostMap current_addr size_to_map (pa_base new_area) is_exec) (s\<lparr>mm_fmem := fmem, mm_vma := vmas,
             mm_flexible_usage := add64 (mm_flexible_usage s) size_to_map\<rparr>);
       Some (s, om_next fmem h, sub64 remaining_size size_to_map, add64 current_addr size_to_map)
     }
   })"

definition map_flexible :: "u64 \<Rightarrow> u64 \<Rightarrow> u64 \<Rightarrow> bool \<Rightarrow> MemoryManager \<Rightarrow> MemoryManager option" where
  "map_flexible new_vma_handle mapped_addr sz is_exec s = do {
     (s, _, remaining_size, _) \<leftarrow> while_opt (Suc (length (mm_fmem s))) phys_loop_more
        (map_flexible_step new_vma_handle mapped_addr is_exec) (s, om_begin (mm_fmem s), sz, mapped_addr);
     if remaining_size = 0 then Some s else None
   }"

text \<open>The direct mapping loop.  Loop variables: the state, \<open>dmem_area\<close>, \<open>current_phys_addr\<close> and
  \<open>remaining_size\<close>.\<close>

definition map_direct_step :: "u64 \<Rightarrow> u64 \<Rightarrow> MemoryManager \<times> u64 \<times> u64 \<times> u64 \<Rightarrow>
    (MemoryManager \<times> u64 \<times> u64 \<times> u64) option" where
  "map_direct_step new_vma_handle phys_addr st = (case st of (s, dmem_area, current_phys_addr, remaining_size) \<Rightarrow> do {
     area \<leftarrow> om_find (mm_dmem s) dmem_area;
     let start_phys_addr = max current_phys_addr (pa_base area);
     let offset_in_dma = sub64 start_phys_addr (pa_base area);
     let size_in_dma = min (sub64 (pa_size area) offset_in_dma) remaining_size;
     (dmem, h) \<leftarrow> CarvePhysArea (mm_dmem s) start_phys_addr size_in_dma;
     new_area \<leftarrow> om_find dmem h;
     let new_area = new_area\<lparr>pa_dma_type := PhysMapped\<rparr>;
     let dmem = om_set dmem h new_area;
     vmas \<leftarrow> add_phys_area new_vma_handle (sub64 current_phys_addr phys_addr) new_area (mm_vma s);
     (dmem, _) \<leftarrow> phys_MergeAdjacent dmem h;
     let current_phys_addr = add64 current_phys_addr size_in_dma;
     dmem_area \<leftarrow> om_floor dmem current_phys_addr;
     Some (s\<lparr>mm_dmem := dmem, mm_vma := vmas\<rparr>, dmem_area, current_phys_addr, sub64 remaining_size size_in_dma)
   })"

definition map_direct :: "u64 \<Rightarrow> u64 \<Rightarrow> u64 \<Rightarrow> MemoryManager \<Rightarrow> MemoryManager option" where
  "map_direct new_vma_handle phys_addr sz s = do {
     dmem_area \<leftarrow> om_floor (mm_dmem s) phys_addr;
     (s, _, _, remaining_size) \<leftarrow> while_opt (Suc sz) (\<lambda>(_, _, _, remaining_size). remaining_size > 0)
        (map_direct_step new_vma_handle phys_addr) (s, dmem_area, phys_addr, sz);
     if remaining_size = 0 then Some s else None
   }"

text \<open>The validation of the requested physical range at the start of \<open>MapMemory\<close>.\<close>

fun dmem_mappable :: "(u64 \<times> PhysicalMemoryArea) list \<Rightarrow> u64 \<Rightarrow> bool \<Rightarrow> OrbisResult" where
  "dmem_mappable [] phys_end validate_dmem = ORBIS_OK"
| "dmem_mappable ((k, area) # rest) phys_end validate_dmem =
    (if pa_base area < phys_end
     then if pa_dma_type area \<noteq> PhysAllocated \<and> pa_dma_type area \<noteq> PhysMapped then ORBIS_KERNEL_ERROR_ENOMEM
          else if validate_dmem \<and> pa_dma_type area = PhysMapped then ORBIS_KERNEL_ERROR_EBUSY
          else dmem_mappable rest phys_end validate_dmem
     else ORBIS_OK)"

definition check_phys_range :: "MemoryManager \<Rightarrow> u64 \<Rightarrow> u64 \<Rightarrow> bool \<Rightarrow> OrbisResult option" where
  "check_phys_range s phys_addr sz validate_dmem =
    (if phys_addr = INVALID_ADDR then Some ORBIS_OK
     else if mm_total_direct_size s < add64 phys_addr sz then Some ORBIS_KERNEL_ERROR_ENOMEM
     else do {
       k \<leftarrow> om_floor (mm_dmem s) phys_addr;
       Some (dmem_mappable (elements_from (mm_dmem s) k) (add64 phys_addr sz) validate_dmem)
     })"

text \<open>Choosing the virtual address, common to \<open>MapMemory\<close> and \<open>MapFile\<close>.\<close>

definition choose_address :: "MemoryManager \<Rightarrow> u64 \<Rightarrow> u64 \<Rightarrow> MemoryMapFlags \<Rightarrow> u64 \<Rightarrow> (OrbisResult + u64) option" where
  "choose_address s virtual_addr sz flags alignment =
    (if has_flag flags Map_Fixed \<and> has_flag flags Map_NoOverwrite
     then do {
       valid \<leftarrow> IsValidMapping s virtual_addr sz;
       if \<not> valid then Some (Inl ORBIS_KERNEL_ERROR_ENOMEM)
       else do {
         (_, v) \<leftarrow> find_vma s virtual_addr;
         let remaining_size = sub64 (add64 (vma_base v) (vma_size v)) virtual_addr;
         if \<not> vma_IsFree v \<or> remaining_size < sz then Some (Inl ORBIS_KERNEL_ERROR_ENOMEM)
         else Some (Inr virtual_addr)
       }
     } else if \<not> has_flag flags Map_Fixed
     then do {
       let virtual_addr = (if virtual_addr = 0 then DEFAULT_MAPPING_BASE else virtual_addr);
       virtual_addr \<leftarrow> SearchFree s virtual_addr sz alignment;
       if virtual_addr = INVALID_ADDR then Some (Inl ORBIS_KERNEL_ERROR_ENOMEM) else Some (Inr virtual_addr)
     } else Some (Inr virtual_addr))"

abbreviation (input) FW_200 :: int where "FW_200 \<equiv> 0x2000000"

text \<open>The part of \<open>MapMemory\<close> after the address is chosen.  The value written to \<open>*out_addr\<close> is
  the second component.\<close>

definition map_at :: "u64 \<Rightarrow> u64 \<Rightarrow> MemoryProt \<Rightarrow> MemoryMapFlags \<Rightarrow> VMAType \<Rightarrow> string \<Rightarrow> u64 \<Rightarrow> MemoryManager \<Rightarrow>
    (MemoryManager \<times> u64) option" where
  "map_at virtual_addr sz prot flags ty name phys_addr s = do {
     let s = gpu_unmap virtual_addr sz s;
     (s, h) \<leftarrow> CreateArea virtual_addr sz prot flags ty name s;
     new_vma \<leftarrow> om_find (mm_vma s) h;
     let mapped_addr = vma_base new_vma;
     let is_exec = has_flag prot CpuExec;
     s \<leftarrow> (if ty = VMAFlexible then map_flexible h mapped_addr sz is_exec s
           else if ty = VMADirect then map_direct h phys_addr sz s
           else Some s);
     s \<leftarrow> (if ty \<noteq> VMADirect \<or> mm_sdk_version s \<ge> FW_200
           then do { (vmas, _) \<leftarrow> vma_MergeAdjacent (mm_vma s) h; Some (s\<lparr>mm_vma := vmas\<rparr>) }
           else Some s);
     if ty \<noteq> VMAReserved \<and> ty \<noteq> VMAPoolReserved
     then Some (gpu_map mapped_addr sz
            (if ty \<noteq> VMAFlexible then host_op (HostMap mapped_addr sz phys_addr is_exec) s else s), mapped_addr)
     else Some (s, mapped_addr)
   }"

definition MapMemory :: "u64 \<Rightarrow> u64 \<Rightarrow> MemoryProt \<Rightarrow> MemoryMapFlags \<Rightarrow> VMAType \<Rightarrow> string \<Rightarrow> bool \<Rightarrow> u64 \<Rightarrow> u64 \<Rightarrow>
    MemoryManager \<Rightarrow> (MemoryManager \<times> (OrbisResult + u64)) option" where
  "MapMemory virtual_addr sz prot flags ty name validate_dmem phys_addr alignment s =
    (if ty = VMAFlexible \<and> add64 (mm_flexible_usage s) sz > mm_total_flexible_size s
     then Some (s, Inl ORBIS_KERNEL_ERROR_EINVAL)
     else do {
       dmem_check \<leftarrow> check_phys_range s phys_addr sz validate_dmem;
       if dmem_check \<noteq> ORBIS_OK then Some (s, Inl dmem_check)
       else do {
         target \<leftarrow> choose_address s virtual_addr sz flags (if alignment > 0 then alignment else SIZE_16KB);
         case target of
           Inl e \<Rightarrow> Some (s, Inl e)
         | Inr virtual_addr \<Rightarrow> do {
             (s, mapped_addr) \<leftarrow> map_at virtual_addr sz prot flags ty name phys_addr s;
             Some (s, Inr mapped_addr)
           }
       }
     })"

text \<open>What \<open>MapFile\<close> reads of an entry of the handle table; \<open>file_host\<close> is \<open>Some w\<close> for a host file,
  with \<open>w\<close> when it is open for writing or appending.\<close>

record FileEntry =
  file_regular :: bool
  file_has_handle :: bool
  file_host :: "bool option"

definition file_prot :: "FileEntry \<Rightarrow> MemoryProt \<Rightarrow> MemoryProt option" where
  "file_prot f prot = do {
     let prot = (if has_flag prot CpuWrite then prot OR CpuRead else prot);
     let host_file = (if file_has_handle f then file_host f else None);
     prot \<leftarrow> (if file_has_handle f \<and> host_file = None then Some (clear_flag prot CpuWrite)
              else do {
                writable \<leftarrow> host_file;
                Some (if \<not> writable then clear_flag prot CpuWrite else prot)
              });
     if prot \<ge> GpuRead then None
     else Some (if has_flag prot CpuExec then clear_flag prot CpuExec else prot)
   }"

definition MapFile :: "(int \<Rightarrow> FileEntry option) \<Rightarrow> u64 \<Rightarrow> u64 \<Rightarrow> MemoryProt \<Rightarrow> MemoryMapFlags \<Rightarrow> int \<Rightarrow> u64 \<Rightarrow>
    MemoryManager \<Rightarrow> (MemoryManager \<times> (OrbisResult + u64)) option" where
  "MapFile GetFile virtual_addr sz prot flags fd phys_addr s =
    (case GetFile fd of
       None \<Rightarrow> Some (s, Inl ORBIS_KERNEL_ERROR_EBADF)
     | Some f \<Rightarrow>
         if \<not> file_regular f then Some (s, Inl ORBIS_KERNEL_ERROR_EBADF)
         else do {
           prot \<leftarrow> file_prot f prot;
           target \<leftarrow> choose_address s virtual_addr sz flags SIZE_16KB;
           case target of
             Inl e \<Rightarrow> Some (s, Inl e)
           | Inr virtual_addr \<Rightarrow> do {
               (s, h) \<leftarrow> CreateArea virtual_addr sz prot flags VMAFile ''anon'' (gpu_unmap virtual_addr sz s);
               new_vma \<leftarrow> om_find (mm_vma s) h;
               let mapped_addr = vma_base new_vma;
               let s = s\<lparr>mm_vma := om_set (mm_vma s) h (new_vma\<lparr>vma_fd := fd\<rparr>)\<rparr>;
               Some (host_op (HostMapFile mapped_addr sz phys_addr prot) s, Inr mapped_addr)
             }
         })"

section \<open>Pooled memory\<close>

definition pool_commit_step :: "u64 \<Rightarrow> u64 \<Rightarrow> int \<Rightarrow> phys_loop \<Rightarrow> phys_loop option" where
  "pool_commit_step new_vma_handle mapped_addr mtype st = (case st of (s, it, remaining_size, current_addr) \<Rightarrow> do {
     handle \<leftarrow> it;
     area \<leftarrow> om_find (mm_dmem s) handle;
     if pa_dma_type area \<noteq> PhysPooled then Some (s, om_next (mm_dmem s) handle, remaining_size, current_addr)
     else do {
       let size_to_map = min remaining_size (pa_size area);
       (dmem, h) \<leftarrow> CarvePhysArea (mm_dmem s) (pa_base area) size_to_map;
       new_area \<leftarrow> om_find dmem h;
       let new_area = new_area\<lparr>pa_dma_type := PhysCommitted, pa_memory_type := mtype\<rparr>;
       let dmem = om_set dmem h new_area;
       vmas \<leftarrow> add_phys_area new_vma_handle (sub64 current_addr mapped_addr) new_area (mm_vma s);
       (dmem, h) \<leftarrow> phys_MergeAdjacent dmem h;
       let s = host_op (HostMap current_addr size_to_map (pa_base new_area) False) (s\<lparr>mm_dmem := dmem, mm_vma := vmas\<rparr>);
       Some (s, om_next dmem h, sub64 remaining_size size_to_map, add64 current_addr size_to_map)
     }
   })"

definition PoolCommit :: "u64 \<Rightarrow> u64 \<Rightarrow> MemoryProt \<Rightarrow> int \<Rightarrow> MemoryManager \<Rightarrow> (MemoryManager \<times> OrbisResult) option" where
  "PoolCommit virtual_addr sz prot mtype s = do {
     assert_valid s virtual_addr sz;
     let mapped_addr = AlignUp virtual_addr SIZE_64KB;
     (_, v) \<leftarrow> find_vma s mapped_addr;
     if vma_type v \<noteq> VMAPoolReserved then Some (s, ORBIS_KERNEL_ERROR_EINVAL)
     else if \<not> vma_Contains v mapped_addr sz then Some (s, ORBIS_KERNEL_ERROR_EINVAL)
     else if mm_pool_budget s \<le> sz then Some (s, ORBIS_KERNEL_ERROR_ENOMEM)
     else do {
       let s = s\<lparr>mm_pool_budget := sub64 (mm_pool_budget s) sz\<rparr>;
       let prot = (if has_flag prot CpuWrite then prot OR CpuRead else prot);
       (vmas, h) \<leftarrow> CarveVMA (mm_vma s) virtual_addr sz;
       new_vma \<leftarrow> om_find vmas h;
       let new_vma = new_vma\<lparr>vma_disallow_merge := False, vma_prot := prot, vma_name := ''anon'',
             vma_type := VMAPooled, vma_phys_areas := []\<rparr>;
       let s = s\<lparr>mm_vma := om_set vmas h new_vma\<rparr>;
       (s, _, remaining_size, _) \<leftarrow> while_opt (Suc (length (mm_dmem s))) phys_loop_more
          (pool_commit_step h mapped_addr mtype) (s, om_begin (mm_dmem s), sz, mapped_addr);
       if remaining_size \<noteq> 0 then None
       else do {
         (vmas, _) \<leftarrow> vma_MergeAdjacent (mm_vma s) h;
         Some (gpu_map mapped_addr sz (s\<lparr>mm_vma := vmas\<rparr>), ORBIS_OK)
       }
     }
   }"

fun decommit_check :: "(u64 \<times> VirtualMemoryArea) list \<Rightarrow> u64 \<Rightarrow> bool" where
  "decommit_check [] range_end = True"
| "decommit_check ((k, v) # rest) range_end =
    (if add64 (vma_base v) (vma_size v) \<le> range_end
     then if vma_type v \<noteq> VMAPoolReserved \<and> vma_type v \<noteq> VMAPooled then False else decommit_check rest range_end
     else True)"

fun repool_loop :: "u64 \<Rightarrow> (u64 \<times> PhysicalMemoryArea) list \<Rightarrow> u64 \<Rightarrow> PhysMap \<Rightarrow> PhysMap option" where
  "repool_loop start_in_vma [] size_to_free dmem = (if size_to_free = 0 then Some dmem else None)"
| "repool_loop start_in_vma ((k, p) # rest) size_to_free dmem =
    (if size_to_free = 0 then Some dmem
     else do {
       let dma_offset = sub64 (max k start_in_vma) k;
       let phys_addr = add64 (pa_base p) dma_offset;
       let size_in_dma = min size_to_free (sub64 (pa_size p) dma_offset);
       (dmem, h) \<leftarrow> CarvePhysArea dmem phys_addr size_in_dma;
       area \<leftarrow> om_find dmem h;
       (dmem, _) \<leftarrow> phys_MergeAdjacent (om_set dmem h (area\<lparr>pa_dma_type := PhysPooled\<rparr>)) h;
       repool_loop start_in_vma rest (sub64 size_to_free size_in_dma) dmem
     })"

text \<open>Loop variables: the state, \<open>current_addr\<close> and \<open>remaining_size\<close>.\<close>

definition pool_decommit_step :: "MemoryManager \<times> u64 \<times> u64 \<Rightarrow> (MemoryManager \<times> u64 \<times> u64) option" where
  "pool_decommit_step st = (case st of (s, current_addr, remaining_size) \<Rightarrow> do {
     (_, v) \<leftarrow> find_vma s current_addr;
     let start_in_vma = sub64 current_addr (vma_base v);
     let size_in_vma = min remaining_size (sub64 (vma_size v) start_in_vma);
     s \<leftarrow> (if vma_type v = VMAPooled
           then do {
             phys_handle \<leftarrow> om_floor (vma_phys_areas v) start_in_vma;
             dmem \<leftarrow> repool_loop start_in_vma (elements_from (vma_phys_areas v) phys_handle) size_in_vma (mm_dmem s);
             Some (s\<lparr>mm_pool_budget := add64 (mm_pool_budget s) size_in_vma, mm_dmem := dmem\<rparr>)
           } else Some s);
     (vmas, new_it) \<leftarrow> CarveVMA (mm_vma s) current_addr size_in_vma;
     v \<leftarrow> om_find vmas new_it;
     let v = v\<lparr>vma_type := VMAPoolReserved, vma_prot := 0, vma_disallow_merge := False, vma_name := ''anon'',
               vma_phys_areas := []\<rparr>;
     (vmas, _) \<leftarrow> vma_MergeAdjacent (om_set vmas new_it v) new_it;
     Some (s\<lparr>mm_vma := vmas\<rparr>, add64 current_addr size_in_vma, sub64 remaining_size size_in_vma)
   })"

definition PoolDecommit :: "u64 \<Rightarrow> u64 \<Rightarrow> MemoryManager \<Rightarrow> (MemoryManager \<times> OrbisResult) option" where
  "PoolDecommit virtual_addr sz s = do {
     assert_valid s virtual_addr sz;
     (k, _) \<leftarrow> find_vma s virtual_addr;
     if \<not> decommit_check (elements_from (mm_vma s) k) (add64 virtual_addr sz)
     then Some (s, ORBIS_KERNEL_ERROR_EINVAL)
     else do {
       let s = gpu_unmap virtual_addr sz s;
       (s, _) \<leftarrow> while_opt (Suc sz) (\<lambda>(_, _, remaining_size). remaining_size \<noteq> 0) pool_decommit_step
                  (s, virtual_addr, sz);
       Some (host_op (HostUnmap virtual_addr sz) s, ORBIS_OK)
     }
   }"

section \<open>Protection\<close>

abbreviation (input) Perm_Read :: u32 where "Perm_Read \<equiv> 1"
abbreviation (input) Perm_Write :: u32 where "Perm_Write \<equiv> 2"
abbreviation (input) Perm_ReadWrite :: u32 where "Perm_ReadWrite \<equiv> 3"
abbreviation (input) Perm_Execute :: u32 where "Perm_Execute \<equiv> 4"

definition host_perms :: "MemoryProt \<Rightarrow> u32" where
  "host_perms prot =
    (let perms = 0;
         perms = (if has_flag prot CpuRead then perms OR Perm_Read else perms);
         perms = (if has_flag prot CpuReadWrite then perms OR Perm_ReadWrite else perms);
         perms = (if has_flag prot CpuExec then perms OR Perm_Execute else perms);
         perms = (if has_flag prot GpuRead then perms OR Perm_Read else perms);
         perms = (if has_flag prot GpuWrite then perms OR Perm_Write else perms);
         perms = (if has_flag prot GpuReadWrite then perms OR Perm_ReadWrite else perms)
     in perms)"

text \<open>The reference \<open>vma_base\<close> of the source is the iterator \<open>it\<close>; it is read again after
  \<open>MergeAdjacent\<close>, which may have erased the element.\<close>

definition ProtectBytes :: "u64 \<Rightarrow> u64 \<Rightarrow> u64 \<Rightarrow> MemoryProt \<Rightarrow> MemoryManager \<Rightarrow> (MemoryManager \<times> u64) option" where
  "ProtectBytes addr it sz prot s = do {
     v \<leftarrow> om_find (mm_vma s) it;
     let start_in_vma = sub64 addr (vma_base v);
     let adjusted_size = min (sub64 (vma_size v) start_in_vma) sz;
     let old_prot = vma_prot v;
     let new_prot = prot;
     if vma_type v = VMAFree \<or> vma_type v = VMAPoolReserved then Some (s, adjusted_size)
     else do {
       let prot = (if has_flag prot CpuWrite then prot OR CpuRead else prot);
       let perms = host_perms prot;
       let prot = (if vma_type v = VMADirect \<or> vma_type v = VMAPooled \<or> vma_type v = VMAFile
                   then clear_flag prot CpuExec else prot);
       (vmas, new_it) \<leftarrow> CarveVMA (mm_vma s) addr adjusted_size;
       new_vma \<leftarrow> om_find vmas new_it;
       (vmas, _) \<leftarrow> vma_MergeAdjacent (om_set vmas new_it (new_vma\<lparr>vma_prot := prot\<rparr>)) new_it;
       let s = s\<lparr>mm_vma := vmas\<rparr>;
       v \<leftarrow> om_find (mm_vma s) it;
       if vma_type v = VMAReserved then Some (s, adjusted_size)
       else if new_prot \<noteq> old_prot then Some (host_op (HostProtect addr adjusted_size perms) s, adjusted_size)
       else Some (s, adjusted_size)
     }
   }"

text \<open>Loop variables: the state and \<open>protected_bytes\<close>.  A gap before the area that \<open>FindVMA\<close> finds is
  skipped; \<open>FindVMA\<close> never returns an area that starts later, so that branch is dead.  A negative
  result of \<open>ProtectBytes\<close>, which returns an \<open>s64\<close>, would need an area of 2^63 bytes and is left out.\<close>

definition protect_step :: "u64 \<Rightarrow> u64 \<Rightarrow> MemoryProt \<Rightarrow> MemoryManager \<times> u64 \<Rightarrow> (MemoryManager \<times> u64) option" where
  "protect_step addr sz prot st = (case st of (s, protected_bytes) \<Rightarrow> do {
     (it, v) \<leftarrow> find_vma s (add64 addr protected_bytes);
     let protected_bytes = (if vma_base v > add64 addr protected_bytes
           then add64 protected_bytes (sub64 (vma_base v) (add64 addr protected_bytes)) else protected_bytes);
     (s, result) \<leftarrow> ProtectBytes (add64 addr protected_bytes) it (sub64 sz protected_bytes) prot s;
     Some (s, add64 protected_bytes result)
   })"

definition Protect :: "u64 \<Rightarrow> u64 \<Rightarrow> MemoryProt \<Rightarrow> MemoryManager \<Rightarrow> (MemoryManager \<times> OrbisResult) option" where
  "Protect addr sz prot s =
    (if sz = 0 then Some (s, ORBIS_OK)
     else do {
       assert_valid s addr sz;
       (s, _) \<leftarrow> while_opt (Suc sz) (\<lambda>(_, protected_bytes). protected_bytes < sz) (protect_step addr sz prot) (s, 0);
       Some (s, ORBIS_OK)
     })"

section \<open>Queries\<close>

definition QueryProtection :: "MemoryManager \<Rightarrow> u64 \<Rightarrow> (OrbisResult + u64 \<times> u64 \<times> u32) option" where
  "QueryProtection s addr =
    (if addr < mm_system_managed_base s then Some (Inl ORBIS_KERNEL_ERROR_EACCES)
     else do {
       (_, v) \<leftarrow> find_vma s addr;
       if vma_IsFree v then Some (Inl ORBIS_KERNEL_ERROR_EACCES)
       else Some (Inr (vma_base v, add64 (vma_base v) (vma_size v), vma_prot v))
     })"

record OrbisVirtualQueryInfo =
  vq_start :: u64
  vq_end :: u64
  vq_offset :: u64
  vq_protection :: u32
  vq_memory_type :: int
  vq_is_flexible :: bool
  vq_is_direct :: bool
  vq_is_stack :: bool
  vq_is_pooled :: bool
  vq_is_committed :: bool
  vq_name :: string

definition VirtualQuery :: "MemoryManager \<Rightarrow> u64 \<Rightarrow> int \<Rightarrow> (OrbisResult + OrbisVirtualQueryInfo) option" where
  "VirtualQuery s addr flags = do {
     let query_addr = (if addr < mm_system_managed_base s then mm_system_managed_base s else addr);
     if addr < query_addr \<and> flags = 0 then Some (Inl ORBIS_KERNEL_ERROR_EACCES)
     else do {
       (k, _) \<leftarrow> find_vma s query_addr;
       let rest = elements_from (mm_vma s) k;
       let rest = (if flags = 1 then dropWhile (\<lambda>(_, v). vma_type v = VMAFree) rest else rest);
       case rest of
         [] \<Rightarrow> Some (Inl ORBIS_KERNEL_ERROR_EACCES)
       | (_, v) # _ \<Rightarrow>
           if vma_type v = VMAFree then Some (Inl ORBIS_KERNEL_ERROR_EACCES)
           else do {
             (offset, memory_type) \<leftarrow> (if vma_type v = VMADirect
               then do { p \<leftarrow> first_phys (vma_phys_areas v); Some (pa_base p, pa_memory_type p) } else Some (0, 0));
             Some (Inr \<lparr>vq_start = vma_base v, vq_end = add64 (vma_base v) (vma_size v), vq_offset = offset,
               vq_protection = (if vma_type v = VMAReserved \<or> vma_type v = VMAPoolReserved then 0 else vma_prot v),
               vq_memory_type = memory_type, vq_is_flexible = (vma_type v = VMAFlexible),
               vq_is_direct = (vma_type v = VMADirect), vq_is_stack = (vma_type v = VMAStack),
               vq_is_pooled = (vma_type v = VMAPoolReserved \<or> vma_type v = VMAPooled),
               vq_is_committed = vma_IsMapped v, vq_name = take 32 (vma_name v)\<rparr>)
           }
     }
   }"

text \<open>The end found by \<open>DirectMemoryQuery\<close>; without an allocated or mapped area it keeps the value
  \<open>*out_info\<close> had before (\<open>end0\<close>).\<close>

fun query_end :: "(u64 \<times> PhysicalMemoryArea) list \<Rightarrow> int \<Rightarrow> u64 \<Rightarrow> u64" where
  "query_end [] memory_type end0 = end0"
| "query_end ((k, p) # rest) memory_type end0 =
    (if pa_memory_type p = memory_type \<and> (pa_dma_type p = PhysMapped \<or> pa_dma_type p = PhysAllocated)
     then query_end rest memory_type (phys_GetEnd p) else end0)"

definition DirectMemoryQuery :: "MemoryManager \<Rightarrow> u64 \<Rightarrow> bool \<Rightarrow> u64 \<Rightarrow> (OrbisResult + u64 \<times> u64 \<times> int) option" where
  "DirectMemoryQuery s addr find_next end0 =
    (if addr \<ge> mm_total_direct_size s then Some (Inl ORBIS_KERNEL_ERROR_EACCES)
     else do {
       (k, _) \<leftarrow> find_dmem s addr;
       let rest = elements_from (mm_dmem s) k;
       let rest = (if find_next then dropWhile (\<lambda>(_, p). pa_dma_type p = PhysFree) rest else rest);
       case rest of
         [] \<Rightarrow> Some (Inl ORBIS_KERNEL_ERROR_EACCES)
       | (_, p) # _ \<Rightarrow>
           if pa_dma_type p = PhysFree then Some (Inl ORBIS_KERNEL_ERROR_EACCES)
           else Some (Inr (pa_base p, query_end rest (pa_memory_type p) end0, pa_memory_type p))
     })"

definition query_available_step :: "u64 \<Rightarrow> u64 \<Rightarrow> u64 \<Rightarrow> u64 \<times> u64 \<Rightarrow> u64 \<times> PhysicalMemoryArea \<Rightarrow> u64 \<times> u64" where
  "query_available_step search_start search_end alignment st e = (case st of (paddr, max_size) \<Rightarrow> case e of (_, p) \<Rightarrow>
     if pa_dma_type p \<noteq> PhysFree then st
     else let aligned_base = (if alignment > 0 then AlignUp (pa_base p) alignment else pa_base p);
              alignment_size = sub64 aligned_base (pa_base p);
              remaining_size = (if pa_size p \<ge> alignment_size then sub64 (pa_size p) alignment_size else 0);
              (remaining_size, aligned_base) =
                (if pa_base p < search_start
                 then (if remaining_size > sub64 search_start (pa_base p)
                       then sub64 remaining_size (sub64 search_start (pa_base p)) else 0,
                       if alignment > 0 then AlignUp search_start alignment else search_start)
                 else (remaining_size, aligned_base));
              remaining_size =
                (if phys_GetEnd p > search_end
                 then (if remaining_size > sub64 (phys_GetEnd p) search_end
                       then sub64 remaining_size (sub64 (phys_GetEnd p) search_end) else 0)
                 else remaining_size)
          in if remaining_size > max_size then (aligned_base, remaining_size) else st)"

definition DirectQueryAvailable :: "MemoryManager \<Rightarrow> u64 \<Rightarrow> u64 \<Rightarrow> u64 \<Rightarrow> (u64 \<times> u64) option" where
  "DirectQueryAvailable s search_start search_end alignment = do {
     (k, _) \<leftarrow> find_dmem s search_start;
     Some (foldl (query_available_step search_start search_end alignment) (0, 0) (elements_from (mm_dmem s) k))
   }"

definition GetDirectMemoryType :: "MemoryManager \<Rightarrow> u64 \<Rightarrow> (OrbisResult + u64 \<times> u64 \<times> int) option" where
  "GetDirectMemoryType s addr =
    (if addr \<ge> mm_total_direct_size s then Some (Inl ORBIS_KERNEL_ERROR_ENOENT)
     else do {
       (_, p) \<leftarrow> find_dmem s addr;
       if pa_dma_type p = PhysFree then Some (Inl ORBIS_KERNEL_ERROR_ENOENT)
       else Some (Inr (pa_base p, phys_GetEnd p, pa_memory_type p))
     })"

definition IsStack :: "MemoryManager \<Rightarrow> u64 \<Rightarrow> (OrbisResult + u64 \<times> u64) option" where
  "IsStack s addr = do {
     assert_valid s addr 0;
     (_, v) \<leftarrow> find_vma s addr;
     if vma_IsFree v then Some (Inl ORBIS_KERNEL_ERROR_EACCES)
     else Some (Inr (if vma_type v = VMAStack then (vma_base v, add64 (vma_base v) (vma_size v)) else (0, 0)))
   }"

definition GetMemoryPoolStats :: "MemoryManager \<Rightarrow> nat \<times> nat \<times> nat \<times> nat" where
  "GetMemoryPoolStats s =
    (let committed_size = foldl (\<lambda>n (_, p). if pa_dma_type p = PhysCommitted then add64 n (pa_size p) else n) 0 (mm_dmem s)
     in (committed_size div SIZE_64KB, committed_size div SIZE_64KB, 0, 0))"

section \<open>Memory types and names\<close>

text \<open>The inner loop of \<open>SetDirectMemoryType\<close> over the physical areas of the carved area.\<close>

fun set_type_loop :: "int \<Rightarrow> PhysMap \<Rightarrow> PhysMap \<Rightarrow> (PhysMap \<times> PhysMap) option" where
  "set_type_loop memory_type [] dmem = Some ([], dmem)"
| "set_type_loop memory_type ((k, p) # rest) dmem = do {
     (dmem, h) \<leftarrow> CarvePhysArea dmem (pa_base p) (pa_size p);
     area \<leftarrow> om_find dmem h;
     let dmem = om_set dmem h (area\<lparr>pa_memory_type := memory_type\<rparr>);
     (areas, dmem) \<leftarrow> set_type_loop memory_type rest dmem;
     Some ((k, p\<lparr>pa_memory_type := memory_type\<rparr>) # areas, dmem)
   }"

text \<open>The iterator after a step: the next element when the merged area ends at or before
  \<open>current_addr\<close>.\<close>

definition step_handle :: "VMAMap \<Rightarrow> u64 \<Rightarrow> u64 \<Rightarrow> u64 option option" where
  "step_handle vmas h current_addr = do {
     v \<leftarrow> om_find vmas h;
     Some (if add64 (vma_base v) (vma_size v) \<le> current_addr then om_next vmas h else Some h)
   }"

definition set_direct_type_step :: "int \<Rightarrow> MemoryManager \<times> u64 option \<times> u64 \<times> u64 \<Rightarrow>
    (MemoryManager \<times> u64 option \<times> u64 \<times> u64) option" where
  "set_direct_type_step memory_type st = (case st of (s, it, current_addr, remaining_size) \<Rightarrow> do {
     h \<leftarrow> it;
     v \<leftarrow> om_find (mm_vma s) h;
     let start_in_vma = sub64 current_addr (vma_base v);
     let size_in_vma = min remaining_size (sub64 (vma_size v) start_in_vma);
     (s, h) \<leftarrow> (if vma_type v = VMADirect \<or> vma_type v = VMAPooled
       then do {
         (vmas, h) \<leftarrow> CarveVMA (mm_vma s) current_addr size_in_vma;
         v \<leftarrow> om_find vmas h;
         (areas, dmem) \<leftarrow> set_type_loop memory_type (vma_phys_areas v) (mm_dmem s);
         Some (s\<lparr>mm_vma := om_set vmas h (v\<lparr>vma_phys_areas := areas\<rparr>), mm_dmem := dmem\<rparr>, h)
       } else Some (s, h));
     let current_addr = add64 current_addr size_in_vma;
     (vmas, h) \<leftarrow> vma_MergeAdjacent (mm_vma s) h;
     it \<leftarrow> step_handle vmas h current_addr;
     Some (s\<lparr>mm_vma := vmas\<rparr>, it, current_addr, sub64 remaining_size size_in_vma)
   })"

definition SetDirectMemoryType :: "u64 \<Rightarrow> u64 \<Rightarrow> int \<Rightarrow> MemoryManager \<Rightarrow> (MemoryManager \<times> OrbisResult) option" where
  "SetDirectMemoryType addr sz memory_type s = do {
     assert_valid s addr sz;
     h \<leftarrow> om_floor (mm_vma s) addr;
     (s, _) \<leftarrow> while_opt (Suc sz) (\<lambda>(_, it, _, remaining_size). it \<noteq> None \<and> remaining_size > 0)
        (set_direct_type_step memory_type) (s, Some h, addr, sz);
     Some (s, ORBIS_OK)
   }"

definition name_range_step :: "string \<Rightarrow> MemoryManager \<times> u64 option \<times> u64 \<times> u64 \<Rightarrow>
    (MemoryManager \<times> u64 option \<times> u64 \<times> u64) option" where
  "name_range_step name st = (case st of (s, it, current_addr, remaining_size) \<Rightarrow> do {
     h \<leftarrow> it;
     v \<leftarrow> om_find (mm_vma s) h;
     let start_in_vma = sub64 current_addr (vma_base v);
     let size_in_vma = min remaining_size (sub64 (vma_size v) start_in_vma);
     (vmas, h) \<leftarrow> (if \<not> vma_IsFree v
       then if size_in_vma < vma_size v
         then do {
           (vmas, h) \<leftarrow> CarveVMA (mm_vma s) current_addr size_in_vma;
           new_vma \<leftarrow> om_find vmas h;
           Some (om_set vmas h (new_vma\<lparr>vma_name := name\<rparr>), h)
         } else Some (om_set (mm_vma s) h (v\<lparr>vma_name := name\<rparr>), h)
       else Some (mm_vma s, h));
     let remaining_size = sub64 remaining_size size_in_vma;
     let current_addr = add64 current_addr size_in_vma;
     (vmas, h) \<leftarrow> vma_MergeAdjacent vmas h;
     it \<leftarrow> step_handle vmas h current_addr;
     Some (s\<lparr>mm_vma := vmas\<rparr>, it, current_addr, remaining_size)
   })"

definition NameVirtualRange :: "u64 \<Rightarrow> u64 \<Rightarrow> string \<Rightarrow> MemoryManager \<Rightarrow> MemoryManager option" where
  "NameVirtualRange virtual_addr sz name s = do {
     let aligned_size = AlignUp sz SIZE_16KB;
     let aligned_addr = AlignDown virtual_addr SIZE_16KB;
     assert_valid s aligned_addr aligned_size;
     h \<leftarrow> om_floor (mm_vma s) aligned_addr;
     (s, _) \<leftarrow> while_opt (Suc aligned_size) (\<lambda>(_, it, _, remaining_size). remaining_size > 0 \<and> it \<noteq> None)
        (name_range_step name) (s, Some h, aligned_addr, aligned_size);
     Some s
   }"

definition InvalidateMemory :: "u64 \<Rightarrow> u64 \<Rightarrow> MemoryManager \<Rightarrow> MemoryManager" where
  "InvalidateMemory addr sz s = host_op (GpuInvalidateMemory addr sz) s"

end
