(* ===== verification/Memory_Physical.thy ===== *)
theory Memory_Physical
  imports Memory_Manager
begin

text \<open>
  Correctness of the direct memory operations of the memory manager: \<open>CarvePhysArea\<close>,
  \<open>MergeAdjacent\<close>, \<open>Allocate\<close>, \<open>PoolExpand\<close>, \<open>Free\<close> and the queries, stated on what is observed at
  every physical address (\<open>phys_at\<close>), independent of how the map is cut into areas.
\<close>

section \<open>Elements from an iterator\<close>

lemma elements_from_mem:
  assumes "om_sorted m"
  shows "(j, w) \<in> set (elements_from m k) \<longleftrightarrow> om_find m j = Some w \<and> k \<le> j"
proof -
  have "(j, w) \<in> set (elements_from m k) \<longleftrightarrow> (j, w) \<in> set m \<and> k \<le> j"
    using assms
  proof (induction m)
    case (Cons e m)
    obtain i v where e: "e = (i, v)" by (cases e)
    show ?case using Cons by (auto simp: e elements_from_def om_sorted_Cons)
  qed (simp add: elements_from_def)
  then show ?thesis using om_find_mem [OF assms] by simp
qed

lemma elements_from_sorted: "om_sorted m \<Longrightarrow> om_sorted (elements_from m k)"
  by (induction m) (auto simp: elements_from_def om_sorted_Cons)

lemma elements_from_head:
  assumes "om_sorted m" and "om_find m k = Some v"
  obtains rest where "elements_from m k = (k, v) # rest" "\<And>j w. (j, w) \<in> set rest \<longleftrightarrow> om_find m j = Some w \<and> k < j"
proof -
  have mem: "(j, w) \<in> set (elements_from m k) \<longleftrightarrow> om_find m j = Some w \<and> k \<le> j" for j w
    by (rule elements_from_mem [OF assms(1)])
  have srt: "om_sorted (elements_from m k)" using assms(1) by (rule elements_from_sorted)
  obtain e rest where er: "elements_from m k = e # rest"
    using mem [of k v] assms(2) by (cases "elements_from m k") auto
  obtain i w where e: "e = (i, w)" by (cases e)
  have lt: "\<And>j u. (j, u) \<in> set rest \<Longrightarrow> i < j" using srt by (auto simp: er e om_sorted_Cons)
  have "k \<le> i" using mem [of i w] by (simp add: er e)
  moreover have "(k, v) \<in> set (elements_from m k)" using mem [of k v] assms(2) by simp
  ultimately have "i = k" "w = v" using lt by (auto simp: er e dest: lt)
  then show ?thesis using that [of rest] er e mem lt by (auto simp: er e) (metis less_le mem er e set_ConsD prod.inject)
qed

section \<open>The direct memory map tiles the direct memory\<close>

text \<open>\<open>dmem_tiles m n\<close>: the map is well formed and covers exactly the addresses below \<open>n\<close>.\<close>

definition dmem_tiles :: "PhysMap \<Rightarrow> u64 \<Rightarrow> bool" where
  "dmem_tiles m n \<longleftrightarrow> phys_map_ok m \<and> (\<forall>a. phys_at m a \<noteq> None \<longleftrightarrow> a < n)"

lemma area_in_tiles:
  assumes "dmem_tiles m n" and "om_find m k = Some p"
  shows "k + pa_size p \<le> n" "pa_base p = k" "0 < pa_size p"
proof -
  have inv: "phys_inv m" and kd: "keyed pa_base m" using assms(1) by (auto simp: dmem_tiles_def)
  show "0 < pa_size p" using area_entry(1) [OF inv assms(2)] .
  then have "phys_at m (k + pa_size p - 1) \<noteq> None"
    using assms(2) area_at_Some [OF inv, of "k + pa_size p - 1" k p] by (auto simp: view_at_def)
  then have "k + pa_size p - 1 < n" using assms(1) unfolding dmem_tiles_def by blast
  then show "k + pa_size p \<le> n" using \<open>0 < pa_size p\<close> by linarith
  show "pa_base p = k" using kd assms(2) by (simp add: keyed_def)
qed

lemma phys_at_area:
  assumes "phys_inv m" "om_find m k = Some p" "k \<le> a" "a < k + pa_size p"
  shows "phys_at m a = Some (phys_view p (a - k))"
  using assms area_at_Some [OF assms(1), of a k p] by (simp add: view_at_def)

lemma phys_at_address:
  assumes "phys_map_ok m" and "phys_at m a = Some (x, mt, ty)"
  shows "x = a"
  using assms phys_at_Some [of m a] by (auto simp: keyed_def phys_view_def)

lemma tiles_floor:
  assumes "dmem_tiles m n" and "0 < n"
  obtains k p where "om_floor m a = Some k" "om_find m k = Some p" "k \<le> a"
    "a < n \<Longrightarrow> area_at pa_size m a = Some (k, p)" "n \<le> a \<Longrightarrow> k + pa_size p = n"
proof -
  have inv: "phys_inv m" and cov: "\<And>a. phys_at m a \<noteq> None \<longleftrightarrow> a < n"
    using assms(1) by (auto simp: dmem_tiles_def)
  have srt: "om_sorted m" using inv by (simp add: area_inv_def)
  let ?b = "min a (n - 1)"
  have "phys_at m ?b \<noteq> None" using cov assms(2) by simp
  then obtain k p where kp: "area_at pa_size m ?b = Some (k, p)" by (auto simp: view_at_def)
  then have e: "om_find m k = Some p" "k \<le> ?b" "?b < k + pa_size p" using area_at_Some [OF inv] by auto
  have le: "k + pa_size p \<le> n" by (rule area_in_tiles(1) [OF assms(1) e(1)])
  have "i \<le> k" if i: "om_find m i \<noteq> None" "i \<le> a" for i
  proof (rule ccontr)
    assume "\<not> i \<le> k"
    then have ki: "k < i" by simp
    obtain q where q: "om_find m i = Some q" using i by blast
    have "k + pa_size p \<le> i" by (rule area_apart [OF inv e(1) q ki])
    moreover have "i < n" using area_in_tiles(1,3) [OF assms(1) q] by simp
    ultimately show False using e(3) i by auto
  qed
  then have "om_floor m a = Some k" using om.floor_Some [OF srt, of a k] e by auto
  moreover have "area_at pa_size m a = Some (k, p)" if "a < n"
  proof -
    have "?b = a" using that by simp
    then show ?thesis using kp by simp
  qed
  moreover have "k + pa_size p = n" if "n \<le> a"
  proof -
    have "?b = n - 1" using that by simp
    then have "n - 1 < k + pa_size p" using e(3) by simp
    then show ?thesis using le by simp
  qed
  ultimately show ?thesis using that e by auto
qed

section \<open>Changing the state of a range\<close>

text \<open>Carve a range, change the attributes of the carved area and merge: the pattern of every
  operation on physical memory.  Only the range changes, to exactly the new attributes.\<close>

definition set_range :: "PhysMap \<Rightarrow> u64 \<Rightarrow> u64 \<Rightarrow> (int \<Rightarrow> int) \<Rightarrow> PhysicalMemoryType \<Rightarrow> PhysMap \<Rightarrow> bool" where
  "set_range m addr n f ty m' \<longleftrightarrow> phys_map_ok m' \<and>
     (\<forall>a. phys_at m' a = (if addr \<le> a \<and> a < addr + n
        then map_option (\<lambda>(x, mt, _). (x, f mt, ty)) (phys_at m a) else phys_at m a))"

lemma set_range_tiles: "dmem_tiles m t \<Longrightarrow> set_range m addr n f ty m' \<Longrightarrow> dmem_tiles m' t"
  by (auto simp: dmem_tiles_def set_range_def)

lemma carve_update_result:
  assumes ok: "phys_map_ok m" and area: "area_at pa_size m addr = Some (k, p)"
    and n: "0 < n" "addr + n \<le> k + pa_size p"
    and upd: "\<And>q. pa_base (upd q) = pa_base q \<and> pa_size (upd q) = pa_size q \<and>
      pa_memory_type (upd q) = f (pa_memory_type q) \<and> pa_dma_type (upd q) = ty"
  obtains m1 q where "CarvePhysArea m addr n = Some (m1, addr)" "om_find m1 addr = Some q"
    "set_range m addr n f ty (om_set m1 addr (upd q))" "om_find (om_set m1 addr (upd q)) addr = Some (upd q)"
    "om_find (om_set m1 addr (upd q)) k \<noteq> None"
    "\<And>x y. in_area pa_size m x y \<Longrightarrow> x + y \<le> addr \<or> addr + n \<le> x \<Longrightarrow> in_area pa_size (om_set m1 addr (upd q)) x y"
proof -
  obtain m1 q where c: "CarvePhysArea m addr n = Some (m1, addr)" "phys_map_ok m1" "phys_at m1 = phys_at m"
    "om_find m1 addr = Some q" "pa_base q = addr" "pa_size q = n"
    "pa_memory_type q = pa_memory_type p" "pa_dma_type q = pa_dma_type p" "om_find m1 k \<noteq> None"
    "\<And>x y. in_area pa_size m x y \<Longrightarrow> x + y \<le> addr \<or> addr + n \<le> x \<Longrightarrow> in_area pa_size m1 x y"
    using CarvePhysArea_result [OF ok area n] by blast
  have srt: "om_sorted m1" using c(2) by (simp add: area_inv_def)
  have good: "pa_size (upd q) = pa_size q" "phys_good (upd q)"
    using upd [of q] area_entry(3) [of pa_size phys_good m1 addr q] c(2,4) by (auto simp: phys_good_def)
  have inv: "phys_inv m1" using c(2) by simp
  note r = phys.replace_area [OF inv c(4) good]
  have at: "phys_at (om_set m1 addr (upd q)) a = (if addr \<le> a \<and> a < addr + n
      then map_option (\<lambda>(x, mt, _). (x, f mt, ty)) (phys_at m a) else phys_at m a)" for a
    using r(2) [of a] phys_at_area [OF inv c(4), of a] c(3,6) upd [of q] by (auto simp: phys_view_def)
  have "phys_map_ok (om_set m1 addr (upd q))"
    using r(1) c(2) c(5) upd [of q] by (auto simp: keyed_def om_find_set [OF srt])
  then have "set_range m addr n f ty (om_set m1 addr (upd q))" using at by (simp add: set_range_def)
  moreover have "in_area pa_size (om_set m1 addr (upd q)) x y"
    if "in_area pa_size m x y" "x + y \<le> addr \<or> addr + n \<le> x" for x y
    using in_area_set [OF srt c(4) good(1)] c(10) that by blast
  ultimately show ?thesis using c by (intro that [of m1 q]) (auto simp: om_find_set [OF srt])
qed

lemma merge_set_range:
  assumes r: "set_range m addr n f ty m1" and e: "om_find m1 h = Some q"
  obtains m2 j where "phys_MergeAdjacent m1 h = Some (m2, j)" "set_range m addr n f ty m2"
    "\<And>x y. in_area pa_size m1 x y \<Longrightarrow> in_area pa_size m2 x y"
proof -
  have inv: "phys_inv m1" and kd: "keyed pa_base m1 \<or> gapless pa_size m1" "keyed pa_base m1"
    using r by (auto simp: set_range_def)
  obtain m2 j where m: "map_MergeAdjacent phys_CanMergeWith phys_join m1 h = Some (m2, j)" "phys_inv m2"
    "phys_at m2 = phys_at m1" "keyed pa_base m2" "\<And>x y. in_area pa_size m1 x y \<Longrightarrow> in_area pa_size m2 x y"
    using phys.map_MergeAdjacent_result [OF inv kd(1) e] kd(2) by metis
  then show ?thesis using r by (intro that [of m2 j]) (auto simp: phys_MergeAdjacent_def set_range_def)
qed


section \<open>The search for a free area\<close>

text \<open>\<open>fits_free m x n\<close>: the range of \<open>n\<close> bytes at \<open>x\<close> lies in one free area.\<close>

definition fits_free :: "PhysMap \<Rightarrow> u64 \<Rightarrow> u64 \<Rightarrow> bool" where
  "fits_free m x n \<longleftrightarrow> (\<exists>k p. om_find m k = Some p \<and> pa_dma_type p = PhysFree \<and> k \<le> x \<and> x + n \<le> k + pa_size p)"

lemma AlignUp_least:
  assumes "0 < al" "v + al \<le> UINT64_MAX" "al dvd x" "v \<le> x"
  shows "AlignUp v al \<le> x"
proof -
  obtain q where q: "x = al * q" using assms(3) by blast
  have a: "al dvd AlignUp v al" "AlignUp v al < v + al" using AlignUp_ge [OF assms(1,2)] by auto
  obtain r where r: "AlignUp v al = al * r" using a(1) by blast
  have "al * r < al * q + al" using a(2) assms(4) q r by linarith
  then have "al * r < al * (q + 1)" by simp
  then have "r < q + 1" using assms(1) by (simp only: nat_mult_less_cancel1)
  then show ?thesis using q r by simp
qed

text \<open>The search returns the lowest aligned range, from \<open>start\<close> on, that lies in one free area of the
  list; \<open>None\<close> means there is none.\<close>

definition search_ok :: "(u64 \<times> PhysicalMemoryArea) list \<Rightarrow> u64 \<Rightarrow> u64 \<Rightarrow> u64 \<Rightarrow> (u64 \<times> u64 \<times> u64) option \<Rightarrow> bool" where
  "search_ok l start sz al r \<longleftrightarrow>
     (let fits = (\<lambda>x. al dvd x \<and> start \<le> x \<and>
            (\<exists>(k, p) \<in> set l. pa_dma_type p = PhysFree \<and> k \<le> x \<and> x + sz \<le> k + pa_size p)) in
      case r of
        None \<Rightarrow> (\<forall>x. \<not> fits x)
      | Some (h, ms, me) \<Rightarrow> fits ms \<and> me = ms + sz \<and> (\<forall>x. fits x \<longrightarrow> ms \<le> x) \<and>
          (\<exists>p. (h, p) \<in> set l \<and> pa_dma_type p = PhysFree \<and> h \<le> ms \<and> ms + sz \<le> h + pa_size p))"

lemma search_ok_rest:
  assumes "\<And>x. al dvd x \<Longrightarrow> start \<le> x \<Longrightarrow> \<not> (pa_dma_type p = PhysFree \<and> k \<le> x \<and> x + sz \<le> k + pa_size p)"
  shows "search_ok ((k, p) # rest) start sz al r \<longleftrightarrow> search_ok rest start sz al r"
proof -
  have "(al dvd x \<and> start \<le> x \<and> (\<exists>(k, p) \<in> set ((k, p) # rest). pa_dma_type p = PhysFree \<and> k \<le> x \<and> x + sz \<le> k + pa_size p)) \<longleftrightarrow>
      (al dvd x \<and> start \<le> x \<and> (\<exists>(k, p) \<in> set rest. pa_dma_type p = PhysFree \<and> k \<le> x \<and> x + sz \<le> k + pa_size p))" for x
    using assms [of x] by auto
  then show ?thesis unfolding search_ok_def Let_def using assms by (auto split: option.split)
qed

lemma dmem_search_ok:
  assumes "sorted_wrt (\<lambda>(k, p) (k', p'). k + pa_size p \<le> k') l"
    and "\<forall>(k, p) \<in> set l. pa_base p = k \<and> k + pa_size p \<le> n" and "n + al + sz \<le> UINT64_MAX"
    and "start + al + sz \<le> UINT64_MAX" and "0 < al" "0 < sz"
    and "l \<noteq> []" and "ms = AlignUp (max start (fst (hd l))) al" and "\<forall>(k, p) \<in> set (tl l). start \<le> k"
  shows "search_ok l start sz al (dmem_search l sz al ms)"
  using assms
proof (induction l arbitrary: ms)
  case (Cons e rest)
  obtain k p where e: "e = (k, p)" by (cases e)
  have kp: "pa_base p = k" "k + pa_size p \<le> n" using Cons.prems(2) e by auto
  have bound: "max start k + al \<le> UINT64_MAX" using kp Cons.prems(3,4) by auto
  have ms: "ms = AlignUp (max start k) al" using Cons.prems(8) e by simp
  have msp: "max start k \<le> ms" "al dvd ms" "ms < max start k + al"
    using AlignUp_ge [OF Cons.prems(5) bound] ms by auto
  have exact: "add64 ms sz = ms + sz" "phys_GetEnd p = k + pa_size p"
    using msp kp Cons.prems(3,4) by (auto simp: add64_exact phys_GetEnd_def)
  have least: "ms \<le> x" if "al dvd x" "start \<le> x" "k \<le> x" for x
    using AlignUp_least [OF Cons.prems(5) bound that(1)] that ms by simp
  show ?case
  proof (cases "pa_dma_type p \<noteq> PhysFree \<or> k + pa_size p < ms + sz")
    case unfit: True
    have none: "\<not> (pa_dma_type p = PhysFree \<and> k \<le> x \<and> x + sz \<le> k + pa_size p)" if "al dvd x" "start \<le> x" for x
      using unfit least [OF that] by auto
    show ?thesis
    proof (cases rest)
      case Nil
      then show ?thesis using unfit none exact by (auto simp: e search_ok_def Let_def)
    next
      case (Cons e' rest')
      obtain k' p' where e': "e' = (k', p')" by (cases e')
      have k': "pa_base p' = k'" "k + pa_size p \<le> k'" "k' + pa_size p' \<le> n"
        using Cons.prems(1,2) by (auto simp: e e' Cons)
      have step: "dmem_search (e # rest) sz al ms = dmem_search rest sz al (AlignUp k' al)"
        using unfit exact k' by (simp add: e e' Cons Let_def)
      have "start \<le> k'" using Cons.prems(9) by (simp add: e' Cons)
      then have ok: "search_ok rest start sz al (dmem_search rest sz al (AlignUp k' al))"
        using Cons.prems by (intro Cons.IH) (auto simp: e e' Cons max_def)
      show ?thesis using ok search_ok_rest [OF none] step by (simp add: e)
    qed
  next
    case fit: False
    then have r: "dmem_search (e # rest) sz al ms = Some (k, ms, ms + sz)" using exact by (simp add: e Let_def)
    have "ms \<le> x" if "(k', p') \<in> set rest" "k' \<le> x" for x k' p'
      using Cons.prems(1) that fit by (fastforce simp: e)
    then show ?thesis using fit msp least unfolding r search_ok_def by (auto simp: e Let_def)
  qed
qed simp

definition first_fit :: "PhysMap \<Rightarrow> u64 \<Rightarrow> u64 \<Rightarrow> u64 \<Rightarrow> (u64 \<times> u64 \<times> u64) option \<Rightarrow> bool" where
  "first_fit m al start sz r \<longleftrightarrow>
    (case r of None \<Rightarrow> (\<forall>x. al dvd x \<longrightarrow> start \<le> x \<longrightarrow> \<not> fits_free m x sz)
     | Some (h, ms, me) \<Rightarrow> al dvd ms \<and> start \<le> ms \<and> me = ms + sz \<and>
         (\<forall>x. al dvd x \<longrightarrow> start \<le> x \<longrightarrow> fits_free m x sz \<longrightarrow> ms \<le> x) \<and>
         (\<exists>p. om_find m h = Some p \<and> pa_dma_type p = PhysFree \<and> h \<le> ms \<and> ms + sz \<le> h + pa_size p))"

text \<open>The same for the elements of a tiling from the area that contains the search start.\<close>

lemma tiles_search:
  assumes tiles: "dmem_tiles m n" and n: "0 < n" and fit: "n + al + sz \<le> UINT64_MAX" "start + al + sz \<le> UINT64_MAX"
    and pos: "0 < al" "0 < sz"
  obtains k p r where "om_floor m start = Some k" "om_find m k = Some p" "pa_base p = k"
    "dmem_search (elements_from m k) sz al (AlignUp (max start k) al) = r"
    "first_fit m al start sz r"
proof -
  obtain k p where k: "om_floor m start = Some k" "om_find m k = Some p" "k \<le> start"
    "start < n \<Longrightarrow> area_at pa_size m start = Some (k, p)" "n \<le> start \<Longrightarrow> k + pa_size p = n"
    using tiles_floor [OF tiles n] by metis
  have inv: "phys_inv m" using tiles by (simp add: dmem_tiles_def)
  have srt: "om_sorted m" using inv by (simp add: area_inv_def)
  obtain rest where l: "elements_from m k = (k, p) # rest"
    and rest: "\<And>j w. (j, w) \<in> set rest \<longleftrightarrow> om_find m j = Some w \<and> k < j"
    using elements_from_head [OF srt k(2)] by metis
  have mem: "(j, w) \<in> set (elements_from m k) \<longleftrightarrow> om_find m j = Some w \<and> k \<le> j" for j w
    by (rule elements_from_mem [OF srt])
  have "start \<le> j" if j: "(j, w) \<in> set rest" for j w
  proof -
    have jw: "om_find m j = Some w" "k < j" using rest j by auto
    have "k + pa_size p \<le> j" by (rule area_apart [OF inv k(2) jw])
    moreover have "j < n" using area_in_tiles(1,3) [OF tiles jw(1)] by simp
    ultimately show ?thesis using k(4,5) area_at_Some [OF inv, of start k p] by (cases "start < n") auto
  qed
  moreover have "sorted_wrt (\<lambda>(k, p) (k', p'). k + pa_size p \<le> k') (elements_from m k)"
  proof -
    have "sorted_wrt (\<lambda>a b. fst a < fst b) (elements_from m k)"
      using elements_from_sorted [OF srt] by (simp add: om_sorted_def sorted_wrt_map)
    then show ?thesis
      by (rule sorted_wrt_mono_rel [rotated]) (use mem area_apart [OF inv] in auto)
  qed
  moreover have "\<forall>(j, w) \<in> set (elements_from m k). pa_base w = j \<and> j + pa_size w \<le> n"
    using mem area_in_tiles [OF tiles] by auto
  ultimately have ok: "search_ok (elements_from m k) start sz al
      (dmem_search (elements_from m k) sz al (AlignUp (max start k) al))"
    by (intro dmem_search_ok [where n = n]) (use fit pos l in auto)
  have fits: "(\<exists>(j, w) \<in> set (elements_from m k). pa_dma_type w = PhysFree \<and> j \<le> x \<and> x + sz \<le> j + pa_size w) \<longleftrightarrow>
      fits_free m x sz" if "start \<le> x" for x
  proof
    assume "fits_free m x sz"
    then obtain j w where jw: "om_find m j = Some w" "pa_dma_type w = PhysFree" "j \<le> x" "x + sz \<le> j + pa_size w"
      by (auto simp: fits_free_def)
    have "k \<le> j"
    proof (rule ccontr)
      assume "\<not> k \<le> j"
      then have "j + pa_size w \<le> k" using area_apart [OF inv jw(1) k(2)] by simp
      then show False using jw that k(3) pos by linarith
    qed
    then show "\<exists>(j, w) \<in> set (elements_from m k). pa_dma_type w = PhysFree \<and> j \<le> x \<and> x + sz \<le> j + pa_size w"
      using jw mem by blast
  qed (use mem in \<open>auto simp: fits_free_def\<close>)
  have eq: "(\<lambda>x. al dvd x \<and> start \<le> x \<and> (\<exists>(j, w) \<in> set (elements_from m k).
        pa_dma_type w = PhysFree \<and> j \<le> x \<and> x + sz \<le> j + pa_size w)) =
      (\<lambda>x. al dvd x \<and> start \<le> x \<and> fits_free m x sz)"
  proof
    fix x
    show "(al dvd x \<and> start \<le> x \<and> (\<exists>(j, w) \<in> set (elements_from m k).
        pa_dma_type w = PhysFree \<and> j \<le> x \<and> x + sz \<le> j + pa_size w)) = (al dvd x \<and> start \<le> x \<and> fits_free m x sz)"
      using fits [of x] by argo
  qed
  show ?thesis
  proof (rule that [OF k(1,2) _ refl])
    show "pa_base p = k" by (rule area_in_tiles(2) [OF tiles k(2)])
    show "first_fit m al start sz (dmem_search (elements_from m k) sz al (AlignUp (max start k) al))"
      using ok mem unfolding search_ok_def first_fit_def eq Let_def by (auto split: option.splits)
  qed
qed

section \<open>Allocate and PoolExpand\<close>

definition effective_alignment :: "u64 \<Rightarrow> u64 \<Rightarrow> u64" where
  "effective_alignment alignment dflt = (if alignment > 0 then alignment else dflt)"

text \<open>A range that the search found can be carved and updated.\<close>

lemma first_fit_carve:
  assumes tiles: "dmem_tiles m n" and fit: "first_fit m al start sz (Some (h, ms, me))" and sz: "0 < sz"
    and upd: "\<And>q. pa_base (upd q) = pa_base q \<and> pa_size (upd q) = pa_size q \<and>
      pa_memory_type (upd q) = f (pa_memory_type q) \<and> pa_dma_type (upd q) = ty"
  obtains m1 a b where "CarvePhysArea m ms sz = Some (m1, ms)" "om_find m1 ms = Some a"
    "set_range m ms sz f ty (om_set m1 ms (upd a))" "om_find (om_set m1 ms (upd a)) h = Some b"
    "fits_free m ms sz" "ms + sz \<le> n"
proof -
  obtain q where q: "om_find m h = Some q" "pa_dma_type q = PhysFree" "h \<le> ms" "ms + sz \<le> h + pa_size q"
    using fit by (auto simp: first_fit_def)
  have ok: "phys_map_ok m" and inv: "phys_inv m" using tiles by (auto simp: dmem_tiles_def)
  have at: "area_at pa_size m ms = Some (h, q)" using area_at_Some [OF inv] q sz by auto
  obtain m1 a where c: "CarvePhysArea m ms sz = Some (m1, ms)" "om_find m1 ms = Some a"
    "set_range m ms sz f ty (om_set m1 ms (upd a))" "om_find (om_set m1 ms (upd a)) h \<noteq> None"
    by (rule carve_update_result [OF ok at sz q(4) upd]) (rule that; assumption)
  moreover obtain b where "om_find (om_set m1 ms (upd a)) h = Some b" using c(4) by blast
  moreover have "ms + sz \<le> n" using area_in_tiles(1) [OF tiles q(1)] q by linarith
  moreover have "fits_free m ms sz" using q by (auto simp: fits_free_def)
  ultimately show ?thesis using that by blast
qed

lemma Allocate_result:
  assumes tiles: "dmem_tiles (mm_dmem s) n" and n: "0 < n" "0 < sz"
    and al: "al = effective_alignment alignment SIZE_16KB"
    and fit: "n + al + sz \<le> UINT64_MAX" "search_start + al + sz \<le> UINT64_MAX"
  shows "\<exists>s' r. Allocate search_start search_end sz alignment memory_type s = Some (s', r) \<and>
    (if r = INVALID_ADDR
     then s' = s \<and> (\<forall>x. al dvd x \<longrightarrow> search_start \<le> x \<longrightarrow> x + sz \<le> search_end \<longrightarrow> \<not> fits_free (mm_dmem s) x sz)
     else al dvd r \<and> search_start \<le> r \<and> r + sz \<le> search_end \<and> fits_free (mm_dmem s) r sz \<and>
       (\<forall>x. al dvd x \<longrightarrow> search_start \<le> x \<longrightarrow> fits_free (mm_dmem s) x sz \<longrightarrow> r \<le> x) \<and>
       s' = s\<lparr>mm_dmem := mm_dmem s'\<rparr> \<and> set_range (mm_dmem s) r sz (\<lambda>_. memory_type) PhysAllocated (mm_dmem s'))"
proof -
  let ?m = "mm_dmem s"
  have al0: "0 < al" by (simp add: al effective_alignment_def)
  obtain k p r where f: "om_floor ?m search_start = Some k" "om_find ?m k = Some p" "pa_base p = k"
    and srch: "dmem_search (elements_from ?m k) sz al (AlignUp (max search_start k) al) = r"
    and r: "first_fit ?m al search_start sz r"
    using tiles_search [OF tiles n(1) fit al0 n(2)] by metis
  have run: "Allocate search_start search_end sz alignment memory_type s = (case r of
       None \<Rightarrow> Some (s, INVALID_ADDR)
     | Some (dmem_area, mapping_start, mapping_end) \<Rightarrow>
         if mapping_end > search_end then Some (s, INVALID_ADDR)
         else do {
           (dmem, h) \<leftarrow> CarvePhysArea ?m mapping_start sz;
           area \<leftarrow> om_find dmem h;
           (dmem, _) \<leftarrow> phys_MergeAdjacent (om_set dmem h (area\<lparr>pa_memory_type := memory_type, pa_dma_type := PhysAllocated\<rparr>)) dmem_area;
           Some (s\<lparr>mm_dmem := dmem\<rparr>, mapping_start)
         })"
    using srch f by (simp add: Allocate_def find_dmem_def al effective_alignment_def Let_def split: option.split)
  show ?thesis
  proof (cases r)
    case None
    then show ?thesis using r run by (auto simp: first_fit_def)
  next
    case (Some t)
    obtain h ms me where t: "t = (h, ms, me)" by (cases t)
    have R: "al dvd ms" "search_start \<le> ms" "me = ms + sz"
      "\<And>x. al dvd x \<Longrightarrow> search_start \<le> x \<Longrightarrow> fits_free ?m x sz \<Longrightarrow> ms \<le> x"
      using r Some t by (auto simp: first_fit_def)
    show ?thesis
    proof (cases "me > search_end")
      case True
      have "\<not> fits_free ?m x sz" if "al dvd x" "search_start \<le> x" "x + sz \<le> search_end" for x
        using R(3) R(4) [OF that(1,2)] True that(3) by auto
      then show ?thesis using True run Some t by auto
    next
      case False
      let ?upd = "\<lambda>a. a\<lparr>pa_memory_type := memory_type, pa_dma_type := PhysAllocated\<rparr>"
      have u: "pa_base (?upd q) = pa_base q \<and> pa_size (?upd q) = pa_size q \<and> pa_memory_type (?upd q) = memory_type \<and>
          pa_dma_type (?upd q) = PhysAllocated" for q by simp
      obtain m1 a b where c: "CarvePhysArea ?m ms sz = Some (m1, ms)" "om_find m1 ms = Some a"
        "set_range ?m ms sz (\<lambda>_. memory_type) PhysAllocated (om_set m1 ms (?upd a))"
        "om_find (om_set m1 ms (?upd a)) h = Some b" "fits_free ?m ms sz" "ms + sz \<le> n"
        using first_fit_carve [OF tiles r [unfolded Some t] n(2) u] by blast
      obtain m2 j where m2: "phys_MergeAdjacent (om_set m1 ms (?upd a)) h = Some (m2, j)"
        "set_range ?m ms sz (\<lambda>_. memory_type) PhysAllocated m2"
        by (rule merge_set_range [OF c(3) c(4)]) (rule that; assumption)
      have "ms \<noteq> INVALID_ADDR" using c(6) fit n by auto
      then show ?thesis using run Some t False c m2 R by auto
    qed
  qed
qed

lemma PoolExpand_result:
  assumes tiles: "dmem_tiles (mm_dmem s) n" and n: "0 < n" "0 < sz"
    and al: "al = effective_alignment alignment SIZE_64KB"
    and fit: "n + al + sz \<le> UINT64_MAX" "search_start + al + sz \<le> UINT64_MAX"
  shows "\<exists>s' r. PoolExpand search_start search_end sz alignment s = Some (s', r) \<and>
    (if r = INVALID_ADDR
     then s' = s \<and> (\<forall>x. al dvd x \<longrightarrow> search_start \<le> x \<longrightarrow> \<not> fits_free (mm_dmem s) x sz)
     else al dvd r \<and> search_start \<le> r \<and> fits_free (mm_dmem s) r sz \<and>
       (\<forall>x. al dvd x \<longrightarrow> search_start \<le> x \<longrightarrow> fits_free (mm_dmem s) x sz \<longrightarrow> r \<le> x) \<and>
       s' = s\<lparr>mm_dmem := mm_dmem s', mm_pool_budget := add64 (mm_pool_budget s) sz\<rparr> \<and>
       set_range (mm_dmem s) r sz (\<lambda>_. 3) PhysPooled (mm_dmem s'))"
proof -
  let ?m = "mm_dmem s"
  have al0: "0 < al" by (simp add: al effective_alignment_def)
  obtain k p r where f: "om_floor ?m search_start = Some k" "om_find ?m k = Some p" "pa_base p = k"
    and srch: "dmem_search (elements_from ?m k) sz al (AlignUp (max search_start k) al) = r"
    and r: "first_fit ?m al search_start sz r"
    using tiles_search [OF tiles n(1) fit al0 n(2)] by metis
  have start: "(if search_start > k then AlignUp search_start al else AlignUp k al) = AlignUp (max search_start k) al"
    by (simp add: max_def)
  have run: "PoolExpand search_start search_end sz alignment s = (case r of
       None \<Rightarrow> Some (s, INVALID_ADDR)
     | Some (dmem_area, mapping_start, mapping_end) \<Rightarrow> do {
         (dmem, h) \<leftarrow> CarvePhysArea ?m mapping_start sz;
         area \<leftarrow> om_find dmem h;
         Some (s\<lparr>mm_dmem := om_set dmem h (area\<lparr>pa_dma_type := PhysPooled, pa_memory_type := 3\<rparr>),
                 mm_pool_budget := add64 (mm_pool_budget s) sz\<rparr>, mapping_start)
       })"
    using srch f
    by (simp add: PoolExpand_def find_dmem_def al [unfolded effective_alignment_def, symmetric] Let_def start
        split del: if_split cong: if_cong)
  show ?thesis
  proof (cases r)
    case None
    then show ?thesis using r run by (auto simp: first_fit_def)
  next
    case (Some t)
    obtain h ms me where t: "t = (h, ms, me)" by (cases t)
    let ?upd = "\<lambda>a. a\<lparr>pa_dma_type := PhysPooled, pa_memory_type := 3\<rparr>"
    have u: "pa_base (?upd q) = pa_base q \<and> pa_size (?upd q) = pa_size q \<and> pa_memory_type (?upd q) = 3 \<and>
        pa_dma_type (?upd q) = PhysPooled" for q by simp
    obtain m1 a where c: "CarvePhysArea ?m ms sz = Some (m1, ms)" "om_find m1 ms = Some a"
      "set_range ?m ms sz (\<lambda>_. 3) PhysPooled (om_set m1 ms (?upd a))" "fits_free ?m ms sz" "ms + sz \<le> n"
      using first_fit_carve [OF tiles r [unfolded Some t] n(2) u] by blast
    have "ms \<noteq> INVALID_ADDR" using c(5) fit n by auto
    then show ?thesis using r run Some t c by (auto simp: first_fit_def)
  qed
qed

section \<open>Free\<close>

definition free_at :: "PhysMap \<Rightarrow> u64 \<Rightarrow> bool" where
  "free_at m a \<longleftrightarrow> (\<exists>x mt. phys_at m a = Some (x, mt, PhysFree))"








section \<open>A map with one area\<close>

lemma tiles_single:
  assumes "pa_base p = 0" "pa_size p = n" "0 < n" "n \<le> UINT64_MAX"
  shows "dmem_tiles [(0, p)] n"
proof -
  have inv: "phys_inv [(0, p)]" using assms by (auto simp: area_inv_def om_sorted_def phys_good_def)
  have "phys_at [(0, p)] a \<noteq> None \<longleftrightarrow> a < n" for a
    using assms by (auto simp: view_at_def area_at_def)
  then show ?thesis using inv assms by (simp add: dmem_tiles_def keyed_def)
qed

definition small_mm :: "PhysicalMemoryType \<Rightarrow> MemoryManager" where
  "small_mm ty = \<lparr>mm_dmem = [(0, \<lparr>pa_base = 0, pa_size = 0x100000, pa_memory_type = 0, pa_dma_type = ty\<rparr>)],
     mm_fmem = [], mm_vma = [], mm_total_direct_size = 0x100000, mm_total_flexible_size = 0, mm_flexible_usage = 0,
     mm_pool_budget = 0, mm_sdk_version = 0, mm_prt_areas = [], mm_system_managed_base = 0, mm_user_base = 0,
     mm_user_size = 0, mm_log = []\<rparr>"

lemma small_mm_tiles: "dmem_tiles (mm_dmem (small_mm ty)) 0x100000"
  unfolding small_mm_def by (simp add: tiles_single)

section \<open>Properties\<close>

text \<open>The constructor leaves a direct memory map that covers exactly the direct memory, all of it
  free, when the settings keep the total in 64 bits.\<close>

theorem memory_init_tiles:
  assumes "t0 = 7936 * SIZE_1MB + setting_MB extra_dmem + setting_MB extra_fmem" and "t0 \<le> UINT64_MAX"
  shows "mm_total_direct_size (MemoryManager_init regions extra_dmem extra_fmem sdk sb ub us) = t0 \<and>
    dmem_tiles (mm_dmem (MemoryManager_init regions extra_dmem extra_fmem sdk sb ub us)) t0 \<and>
    (\<forall>a < t0. free_at (mm_dmem (MemoryManager_init regions extra_dmem extra_fmem sdk sb ub us)) a)"
proof -
  have z: "setting_MB 0 = 0" by (simp add: setting_MB_def mul64_def)
  have t: "mm_total_direct_size (MemoryManager_init regions extra_dmem extra_fmem sdk sb ub us) = t0"
    using assms z by (auto simp: MemoryManager_init_def Let_def add64_exact)
  have d: "mm_dmem (MemoryManager_init regions extra_dmem extra_fmem sdk sb ub us) = [(0, free_phys 0 t0)]"
    using t by (simp add: MemoryManager_init_def Let_def)
  have "0 < t0" using assms by simp
  moreover from this have "dmem_tiles [(0, free_phys 0 t0)] t0"
    using assms by (intro tiles_single) (auto simp: free_phys_def)
  moreover have "free_at [(0, free_phys 0 t0)] a" if "a < t0" for a
    using that by (simp add: free_at_def view_at_def area_at_def free_phys_def phys_view_def)
  ultimately show ?thesis using t d by simp
qed

theorem memory_init_tiles_witness:
  "dmem_tiles (mm_dmem (MemoryManager_init [] 0 0 0 0 0 0)) (7936 * SIZE_1MB)"
  using memory_init_tiles [of "7936 * SIZE_1MB" 0 0 "[]" 0 0 0 0] by (simp add: setting_MB_def mul64_def)

text \<open>C14: CarvePhysArea isolates exactly the requested range as one area, whenever the range lies in
  one area of the map, and changes nothing that is observed at any physical address; a following
  MergeAdjacent at any iterator changes nothing either.\<close>

theorem carve_phys_exact:
  assumes "phys_map_ok m" and "area_at pa_size m addr = Some (k, p)" and "0 < n" and "addr + n \<le> k + pa_size p"
  shows "\<exists>m' q. CarvePhysArea m addr n = Some (m', addr) \<and> phys_map_ok m' \<and> phys_at m' = phys_at m \<and>
    om_find m' addr = Some q \<and> pa_base q = addr \<and> pa_size q = n \<and>
    (\<forall>h v. om_find m' h = Some v \<longrightarrow> (\<exists>m2 j. phys_MergeAdjacent m' h = Some (m2, j) \<and> phys_map_ok m2 \<and>
       phys_at m2 = phys_at m))"
proof -
  obtain m' q where c: "CarvePhysArea m addr n = Some (m', addr)" "phys_map_ok m'" "phys_at m' = phys_at m"
    "om_find m' addr = Some q" "pa_base q = addr" "pa_size q = n"
    by (rule CarvePhysArea_result [OF assms]) (rule that; assumption)
  have inv: "phys_inv m'" and kd: "keyed pa_base m' \<or> gapless pa_size m'" "keyed pa_base m'" using c(2) by auto
  have "\<exists>m2 j. phys_MergeAdjacent m' h = Some (m2, j) \<and> phys_map_ok m2 \<and> phys_at m2 = phys_at m"
    if v: "om_find m' h = Some v" for h v
  proof -
    obtain m2 j where "map_MergeAdjacent phys_CanMergeWith phys_join m' h = Some (m2, j)" "phys_inv m2"
      "phys_at m2 = phys_at m'" "keyed pa_base m' \<Longrightarrow> keyed pa_base m2"
      by (rule phys.map_MergeAdjacent_result [OF inv kd(1) v]) (rule that; assumption)
    then show ?thesis using kd(2) c(3) by (auto simp: phys_MergeAdjacent_def)
  qed
  then show ?thesis using c by blast
qed

theorem carve_phys_exact_witness:
  "\<exists>m' q. CarvePhysArea (mm_dmem (small_mm PhysFree)) 0x4000 0x8000 = Some (m', 0x4000) \<and>
     phys_at m' = phys_at (mm_dmem (small_mm PhysFree)) \<and> om_find m' 0x4000 = Some q \<and> pa_size q = 0x8000"
proof -
  have ok: "phys_map_ok (mm_dmem (small_mm PhysFree))" using small_mm_tiles by (simp add: dmem_tiles_def)
  have at: "area_at pa_size (mm_dmem (small_mm PhysFree)) 0x4000 =
      Some (0, \<lparr>pa_base = 0, pa_size = 0x100000, pa_memory_type = 0, pa_dma_type = PhysFree\<rparr>)"
    by (simp add: small_mm_def area_at_def)
  show ?thesis using carve_phys_exact [OF ok at, where n = "0x8000"] by auto
qed

text \<open>C1: Allocate is total and first-fit.  It returns the lowest aligned address from the search
  start on at which the requested size lies in one free area, if that range ends at or before
  the search end, and otherwise -1 without touching the state, in which case no such range
  exists below the search end.  A successful call changes exactly that range, to allocated with
  the requested memory type, keeps the map a tiling of direct memory and leaves the rest of the
  state alone.\<close>

theorem allocate_first_fit:
  assumes "dmem_tiles (mm_dmem s) n" and "0 < n" and "0 < sz" and "al = effective_alignment alignment SIZE_16KB"
    and "n + al + sz \<le> UINT64_MAX" and "search_start + al + sz \<le> UINT64_MAX"
  shows "\<exists>s' r. Allocate search_start search_end sz alignment memory_type s = Some (s', r) \<and>
    dmem_tiles (mm_dmem s') n \<and>
    (if r = INVALID_ADDR
     then s' = s \<and> (\<forall>x. al dvd x \<longrightarrow> search_start \<le> x \<longrightarrow> x + sz \<le> search_end \<longrightarrow> \<not> fits_free (mm_dmem s) x sz)
     else al dvd r \<and> search_start \<le> r \<and> r + sz \<le> search_end \<and> fits_free (mm_dmem s) r sz \<and>
       (\<forall>x. al dvd x \<longrightarrow> search_start \<le> x \<longrightarrow> fits_free (mm_dmem s) x sz \<longrightarrow> r \<le> x) \<and>
       s' = s\<lparr>mm_dmem := mm_dmem s'\<rparr> \<and> set_range (mm_dmem s) r sz (\<lambda>_. memory_type) PhysAllocated (mm_dmem s'))"
  using Allocate_result [OF assms, of search_end memory_type] set_range_tiles [OF assms(1)] assms(1)
  by (metis (no_types, lifting))

theorem allocate_first_fit_witness:
  "\<exists>s' r. Allocate 0x4000 0x100000 0x8000 0 3 (small_mm PhysFree) = Some (s', r) \<and> dmem_tiles (mm_dmem s') 0x100000"
  using allocate_first_fit [OF small_mm_tiles [of PhysFree], where sz = "0x8000" and al = "0x4000" and alignment = 0 and
      search_start = "0x4000" and search_end = "0x100000" and memory_type = 3]
  by (auto simp: effective_alignment_def)

text \<open>PoolExpand is total and first-fit from the search start on; a successful call marks exactly the
  found range as pooled with memory type 3 and adds the size to the pool budget.\<close>

theorem pool_expand_first_fit:
  assumes "dmem_tiles (mm_dmem s) n" and "0 < n" and "0 < sz" and "al = effective_alignment alignment SIZE_64KB"
    and "n + al + sz \<le> UINT64_MAX" and "search_start + al + sz \<le> UINT64_MAX"
  shows "\<exists>s' r. PoolExpand search_start search_end sz alignment s = Some (s', r) \<and>
    (if r = INVALID_ADDR
     then s' = s \<and> (\<forall>x. al dvd x \<longrightarrow> search_start \<le> x \<longrightarrow> \<not> fits_free (mm_dmem s) x sz)
     else al dvd r \<and> search_start \<le> r \<and> fits_free (mm_dmem s) r sz \<and>
       (\<forall>x. al dvd x \<longrightarrow> search_start \<le> x \<longrightarrow> fits_free (mm_dmem s) x sz \<longrightarrow> r \<le> x) \<and>
       s' = s\<lparr>mm_dmem := mm_dmem s', mm_pool_budget := add64 (mm_pool_budget s) sz\<rparr> \<and>
       set_range (mm_dmem s) r sz (\<lambda>_. 3) PhysPooled (mm_dmem s'))"
  by (rule PoolExpand_result [OF assms])

theorem pool_expand_first_fit_witness:
  "\<exists>s' r. PoolExpand 0x4000 0x8000 0x20000 0 (small_mm PhysFree) = Some (s', r)"
  using pool_expand_first_fit [OF small_mm_tiles [of PhysFree], where sz = "0x20000" and al = "0x10000" and alignment = 0 and
      search_start = "0x4000" and search_end = "0x8000"]
  by (auto simp: effective_alignment_def)



section \<open>Observations on the code\<close>

text \<open>An unchecked \<open>Free\<close> skips free areas without reducing the remaining size, so it releases memory
  behind the requested range.  Here the first 16 KiB are free, the next 48 KiB are allocated, and
  releasing the first 32 KiB also frees the byte at offset 0xbfff.\<close>

definition hole_mm :: MemoryManager where
  "hole_mm = (small_mm PhysFree)\<lparr>mm_dmem :=
     [(0, \<lparr>pa_base = 0, pa_size = 0x4000, pa_memory_type = 0, pa_dma_type = PhysFree\<rparr>),
      (0x4000, \<lparr>pa_base = 0x4000, pa_size = 0xc000, pa_memory_type = 3, pa_dma_type = PhysAllocated\<rparr>)]\<rparr>"

lemma free_unchecked_overshoots:
  "\<not> free_at (mm_dmem hole_mm) 0xbfff \<and>
   (\<exists>s'. Free 0 0x8000 False hole_mm = Some (s', ORBIS_OK) \<and> free_at (mm_dmem s') 0xbfff)"
  by (simp add: hole_mm_def small_mm_def free_at_def view_at_def area_at_def phys_view_def Free_def
      elements_from_def u64_simps free_remove_list_def CarvePhysArea_def phys_GetEnd_def map_CarveSplits_def
      map_Split_def phys_halve_def om_emplace_def phys_MergeAdjacent_def map_MergeAdjacent_def map_MergeNext_def
      map_MergePrev_def phys_CanMergeWith_def phys_join_def)

text \<open>\<open>PoolExpand\<close> never looks at its \<open>search_end\<close>: it returns a range behind it.\<close>

lemma pool_expand_ignores_search_end:
  "\<exists>s'. PoolExpand 0 0x8000 0x20000 0 (small_mm PhysFree) = Some (s', 0) \<and> 0x8000 < (0::u64) + 0x20000"
  by (simp add: small_mm_def PoolExpand_def find_dmem_def elements_from_def AlignUp_def phys_GetEnd_def u64_simps
      CarvePhysArea_def map_CarveSplits_def map_Split_def phys_halve_def om_emplace_def)

end
