(* ===== verification/Memory_Virtual.thy ===== *)
theory Memory_Virtual
  imports Memory_Physical
begin

text \<open>
  Correctness of the virtual memory operations of the memory manager, stated on what is observed
  at every virtual address (\<open>vma_at\<close>: type, protection, name, merge flag and physical backing).
\<close>

section \<open>Changing the attributes of a range\<close>

type_synonym vma_obs = "VMAType \<times> MemoryProt \<times> string \<times> bool \<times> (u64 \<times> int \<times> PhysicalMemoryType) option"

definition set_vrange :: "VMAMap \<Rightarrow> u64 \<Rightarrow> u64 \<Rightarrow> vma_obs \<Rightarrow> VMAMap \<Rightarrow> bool" where
  "set_vrange m addr n w m' \<longleftrightarrow> vma_map_ok m' \<and>
     (\<forall>a. vma_at m' a = (if addr \<le> a \<and> a < addr + n then Some w else vma_at m a))"

definition backed_type :: "VMAType \<Rightarrow> bool" where
  "backed_type ty \<longleftrightarrow> ty = VMADirect \<or> ty = VMAFlexible \<or> ty = VMAPooled"

definition plain_update :: "VMAType \<Rightarrow> MemoryProt \<Rightarrow> string \<Rightarrow> bool \<Rightarrow> (VirtualMemoryArea \<Rightarrow> VirtualMemoryArea) \<Rightarrow> bool" where
  "plain_update ty prot name dis upd \<longleftrightarrow> (\<forall>u. vma_base (upd u) = vma_base u \<and> vma_size (upd u) = vma_size u \<and>
     vma_phys_areas (upd u) = [] \<and> vma_type (upd u) = ty \<and> vma_prot (upd u) = prot \<and> vma_name (upd u) = name \<and>
     vma_disallow_merge (upd u) = dis)"

lemma vma_carve_update:
  assumes ok: "vma_map_ok m" and area: "area_at vma_size m addr = Some (k, v)"
    and n: "0 < n" "addr + n \<le> k + vma_size v"
    and upd: "plain_update ty prot name dis upd" and plain: "\<not> backed_type ty"
  obtains m1 u where "CarveVMA m addr n = Some (m1, addr)" "om_find m1 addr = Some u"
    "set_vrange m addr n (ty, prot, name, dis, None) (om_set m1 addr (upd u))"
    "om_find (om_set m1 addr (upd u)) addr = Some (upd u)" "vma_base u = addr"
proof -
  obtain m1 u where c: "CarveVMA m addr n = Some (m1, addr)" "vma_map_ok m1" "vma_at m1 = vma_at m"
    "om_find m1 addr = Some u" "vma_base u = addr" "vma_size u = n"
    by (rule CarveVMA_result [OF ok area n]) (rule that; assumption)
  have inv: "vma_inv m1" and srt: "om_sorted m1" using c(2) by (auto simp: area_inv_def)
  have u: "vma_size (upd u) = vma_size u" "vma_good (upd u)"
    using upd plain phys_inv_Nil
    by (auto simp: plain_update_def vma_good_def HasPhysicalBacking_def backed_type_def)
  note r = vma.replace_area [OF inv c(4) u]
  have "vma_at (om_set m1 addr (upd u)) a =
      (if addr \<le> a \<and> a < addr + n then Some (ty, prot, name, dis, None) else vma_at m a)" for a
    using r(2) [of a] c(3,6) upd by (auto simp: vma_view_def plain_update_def)
  moreover have "vma_map_ok (om_set m1 addr (upd u))"
    using r(1) c(2,5) upd by (auto simp: keyed_def om_find_set [OF srt] plain_update_def)
  ultimately have "set_vrange m addr n (ty, prot, name, dis, None) (om_set m1 addr (upd u))"
    by (simp add: set_vrange_def)
  then show ?thesis using c by (intro that [of m1 u]) (auto simp: om_find_set [OF srt])
qed

lemma vma_merge_range:
  assumes r: "set_vrange m addr n w m1" and e: "om_find m1 h = Some u"
  obtains m2 j where "vma_MergeAdjacent m1 h = Some (m2, j)" "set_vrange m addr n w m2"
proof -
  have inv: "vma_inv m1" and kd: "keyed vma_base m1 \<or> gapless vma_size m1" "keyed vma_base m1"
    using r by (auto simp: set_vrange_def)
  obtain m2 j where "map_MergeAdjacent vma_CanMergeWith vma_join m1 h = Some (m2, j)" "vma_inv m2"
    "vma_at m2 = vma_at m1" "keyed vma_base m1 \<Longrightarrow> keyed vma_base m2"
    by (rule vma.map_MergeAdjacent_result [OF inv kd(1) e]) (rule that; assumption)
  then show ?thesis using r kd(2) by (intro that [of m2 j]) (auto simp: vma_MergeAdjacent_def set_vrange_def)
qed

section \<open>Covered ranges\<close>



section \<open>UnmapMemoryImpl\<close>







section \<open>IsValidMapping\<close>







section \<open>SearchFree and MapMemory\<close>

definition free_vrange :: "VMAMap \<Rightarrow> u64 \<Rightarrow> u64 \<Rightarrow> bool" where
  "free_vrange m a n \<longleftrightarrow> (\<exists>k v. om_find m k = Some v \<and> vma_IsFree v \<and> k \<le> a \<and> a + n \<le> k + vma_size v)"

text \<open>No sum of the search leaves 64 bits.\<close>

definition vma_room :: "VMAMap \<Rightarrow> u64 \<Rightarrow> bool" where
  "vma_room m n \<longleftrightarrow> (\<forall>k v. om_find m k = Some v \<longrightarrow> k + vma_size v + n \<le> UINT64_MAX)"

lemma search_free_loop_sound:
  assumes "\<forall>(k, v) \<in> set l. om_find m k = Some v \<and> vma_base v = k" and "vma_room m (al + sz)" and "0 < al"
  shows "search_free_loop l lim sz al = INVALID_ADDR \<or>
    al dvd search_free_loop l lim sz al \<and> free_vrange m (search_free_loop l lim sz al) sz"
  using assms(1)
proof (induction l)
  case (Cons e rest)
  obtain k v where e: "e = (k, v)" by (cases e)
  have kv: "om_find m k = Some v" "vma_base v = k" using Cons.prems by (auto simp: e)
  have room: "k + vma_size v + (al + sz) \<le> UINT64_MAX" using assms(2) kv by (simp add: vma_room_def)
  have up: "k \<le> AlignUp k al" "al dvd AlignUp k al" using AlignUp_ge [OF assms(3), of k] room by auto
  have ends: "add64 k (vma_size v) = k + vma_size v" using room by (simp add: add64_exact)
  have "free_vrange m (AlignUp k al) sz"
    if "vma_IsFree v" "AlignUp k al \<le> k + vma_size v" "sz \<le> sub64 (k + vma_size v) (AlignUp k al)"
    using that up kv unfolding free_vrange_def by (intro exI [of _ k] exI [of _ v]) (simp add: sub64_exact)
  then show ?case using Cons kv up by (auto simp: e Let_def ends not_less)
qed simp

lemma SearchFree_result:
  assumes ok: "vma_map_ok (mm_vma s)" and ne: "mm_vma s \<noteq> []" and al: "0 < al" "al < 4294967296"
    and room: "vma_room (mm_vma s) (al + sz)" and fit: "max addr (mm_system_managed_base s) + al + sz \<le> UINT64_MAX"
  shows "\<exists>r. SearchFree s addr sz al = Some r \<and> (r = INVALID_ADDR \<or> al dvd r \<and> free_vrange (mm_vma s) r sz)"
proof -
  let ?m = "mm_vma s" and ?a = "if addr < mm_system_managed_base s then mm_system_managed_base s else addr"
  have inv: "vma_inv ?m" and srt: "om_sorted ?m" using ok by (auto simp: area_inv_def)
  have aeq: "?a = max addr (mm_system_managed_base s)" by (simp add: max_def)
  have up: "?a \<le> AlignUp ?a al" "al dvd AlignUp ?a al" "AlignUp ?a al + sz \<le> UINT64_MAX"
    using AlignUp_ge [OF al(1), of ?a] fit unfolding aeq by auto
  obtain l lv where l: "om_last ?m = Some l" "om_find ?m l = Some lv"
    using om_ends_find(1) [OF srt ne] by (auto split: bind_splits)
  obtain f fv where f: "om_begin ?m = Some f" "om_find ?m f = Some fv"
    using om_ends_find(2) [OF srt ne] by (auto split: bind_splits)
  let ?valid = "\<not> (?a < f \<or> ?a \<ge> add64 l (vma_size lv))"
  have valid: "IsValidMapping s ?a 0 = Some ?valid" using l f by (simp add: IsValidMapping_def Let_def)
  show ?thesis
  proof (cases ?valid)
    case False
    then show ?thesis using valid by (simp add: SearchFree_def Let_def al)
  next
    case True
    then have "f \<le> AlignUp ?a al" using up by linarith
    then obtain k where k: "om_floor ?m (AlignUp ?a al) = Some k"
      using om.floor_None [OF srt, of "AlignUp ?a al"] f(2) by (metis not_less option.distinct(1) option.exhaust)
    obtain v where v: "om_find ?m k = Some v" "k \<le> AlignUp ?a al" using k om.floor_Some [OF srt] by blast
    have base: "vma_base v = k" using ok v by (simp add: keyed_def)
    have run: "SearchFree s addr sz al = Some (if vma_IsFree v \<and> vma_Contains v (AlignUp ?a al) sz then AlignUp ?a al
        else search_free_loop (tl (elements_from ?m k)) (add64 (mm_user_base s) (mm_user_size s)) sz al)"
      using valid True k v al by (simp add: SearchFree_def Let_def find_vma_def)
    have "free_vrange ?m (AlignUp ?a al) sz" if "vma_IsFree v" "vma_Contains v (AlignUp ?a al) sz"
      using that v base up(3) area_entry(2) [OF inv v(1)] unfolding free_vrange_def vma_Contains_def
      by (intro exI [of _ k] exI [of _ v]) (simp add: add64_exact)
    moreover have "\<forall>(j, w) \<in> set (tl (elements_from ?m k)). om_find ?m j = Some w \<and> vma_base w = j"
    proof -
      have "set (tl (elements_from ?m k)) \<subseteq> set (elements_from ?m k)" by (cases "elements_from ?m k") auto
      then show ?thesis using elements_from_mem [OF srt, of _ _ k] ok by (auto simp: keyed_def)
    qed
    ultimately show ?thesis using run search_free_loop_sound [OF _ room al(1)] up by auto
  qed
qed

definition effective_prot :: "MemoryProt \<Rightarrow> MemoryProt" where
  "effective_prot prot = (if has_flag prot CpuWrite then prot OR CpuRead else prot)"

text \<open>\<open>CreateArea\<close> at an address that the caller knows to be free.\<close>

lemma CreateArea_free:
  assumes ok: "vma_map_ok (mm_vma s)" and free: "free_vrange (mm_vma s) addr sz" and sz: "0 < sz"
    and flags: "\<not> has_flag flags Map_Fixed" and ty: "\<not> backed_type ty"
  obtains s' u where "CreateArea addr sz prot flags ty name s = Some (s', addr)"
    "om_find (mm_vma s') addr = Some u" "vma_base u = addr" "s' = s\<lparr>mm_vma := mm_vma s'\<rparr>"
    "set_vrange (mm_vma s) addr sz (ty, effective_prot prot, name, has_flag flags Map_NoCoalesce, None) (mm_vma s')"
proof -
  have inv: "vma_inv (mm_vma s)" using ok by simp
  obtain k v where kv: "om_find (mm_vma s) k = Some v" "vma_IsFree v" "k \<le> addr" "addr + sz \<le> k + vma_size v"
    using free by (auto simp: free_vrange_def)
  have at: "area_at vma_size (mm_vma s) addr = Some (k, v)" using area_at_Some [OF inv] kv sz by auto
  then have f: "find_vma s addr = Some (k, v)"
    using kv by (auto simp: find_vma_def area_at_def split: bind_splits if_splits)
  let ?upd = "\<lambda>u. u\<lparr>vma_disallow_merge := has_flag flags Map_NoCoalesce, vma_prot := effective_prot prot,
             vma_name := name, vma_type := ty, vma_phys_areas := []\<rparr>"
  have u: "plain_update ty (effective_prot prot) name (has_flag flags Map_NoCoalesce) ?upd"
    by (simp add: plain_update_def)
  obtain m1 u where c: "CarveVMA (mm_vma s) addr sz = Some (m1, addr)" "om_find m1 addr = Some u"
    "set_vrange (mm_vma s) addr sz (ty, effective_prot prot, name, has_flag flags Map_NoCoalesce, None) (om_set m1 addr (?upd u))"
    "om_find (om_set m1 addr (?upd u)) addr = Some (?upd u)" "vma_base u = addr"
    by (rule vma_carve_update [OF ok at sz kv(4) u ty]) (rule that; assumption)
  have "CreateArea addr sz prot flags ty name s = Some (s\<lparr>mm_vma := om_set m1 addr (?upd u)\<rparr>, addr)"
    using f flags kv(2) c(1,2) by (simp add: CreateArea_def Let_def effective_prot_def)
  then show ?thesis using c by (intro that [of "s\<lparr>mm_vma := om_set m1 addr (?upd u)\<rparr>" "?upd u"]) auto
qed

lemma map_at_free:
  assumes ok: "vma_map_ok (mm_vma s)" and free: "free_vrange (mm_vma s) addr sz" and sz: "0 < sz"
    and flags: "\<not> has_flag flags Map_Fixed" and ty: "\<not> backed_type ty"
  shows "\<exists>s'. map_at addr sz prot flags ty name phys s = Some (s', addr) \<and>
    set_vrange (mm_vma s) addr sz (ty, effective_prot prot, name, has_flag flags Map_NoCoalesce, None) (mm_vma s') \<and>
    mm_dmem s' = mm_dmem s \<and> mm_fmem s' = mm_fmem s \<and> mm_flexible_usage s' = mm_flexible_usage s"
proof -
  let ?s = "gpu_unmap addr sz s"
  have g: "mm_vma ?s = mm_vma s" "mm_dmem ?s = mm_dmem s" "mm_fmem ?s = mm_fmem s" "mm_flexible_usage ?s = mm_flexible_usage s"
    by (simp_all add: gpu_unmap_def host_op_def)
  have ok': "vma_map_ok (mm_vma ?s)" "free_vrange (mm_vma ?s) addr sz" using ok free by (simp_all add: g)
  obtain s1 u where c: "CreateArea addr sz prot flags ty name ?s = Some (s1, addr)"
    "om_find (mm_vma s1) addr = Some u" "vma_base u = addr" "s1 = ?s\<lparr>mm_vma := mm_vma s1\<rparr>"
    "set_vrange (mm_vma ?s) addr sz (ty, effective_prot prot, name, has_flag flags Map_NoCoalesce, None) (mm_vma s1)"
    by (rule CreateArea_free [OF ok' sz flags ty]) (rule that; assumption)
  obtain m2 j where m2: "vma_MergeAdjacent (mm_vma s1) addr = Some (m2, j)"
    "set_vrange (mm_vma ?s) addr sz (ty, effective_prot prot, name, has_flag flags Map_NoCoalesce, None) m2"
    by (rule vma_merge_range [OF c(5) c(2)]) (rule that; assumption)
  have same: "mm_dmem s1 = mm_dmem s" "mm_fmem s1 = mm_fmem s" "mm_flexible_usage s1 = mm_flexible_usage s"
    using c(4) g by (metis MemoryManager.select_convs(1) MemoryManager.select_convs(2) MemoryManager.select_convs(6)
        MemoryManager.surjective MemoryManager.update_convs(3))+
  have nt: "ty \<noteq> VMAFlexible" "ty \<noteq> VMADirect" using ty by (auto simp: backed_type_def)
  show ?thesis using c(1-3) m2 same nt
    by (auto simp: map_at_def Let_def gpu_map_def host_op_def g)
qed

lemma MapMemory_plain:
  assumes ok: "vma_map_ok (mm_vma s)" and ne: "mm_vma s \<noteq> []" and sz: "0 < sz"
    and flags: "\<not> has_flag flags Map_Fixed" and ty: "\<not> backed_type ty"
    and al: "al = effective_alignment alignment SIZE_16KB" "al < 4294967296"
    and room: "vma_room (mm_vma s) (al + sz)"
    and fit: "max (if addr = 0 then DEFAULT_MAPPING_BASE else addr) (mm_system_managed_base s) + al + sz \<le> UINT64_MAX"
  shows "\<exists>s' r. MapMemory addr sz prot flags ty name validate INVALID_ADDR alignment s = Some (s', r) \<and>
    (case r of Inl e \<Rightarrow> e = ORBIS_KERNEL_ERROR_ENOMEM \<and> s' = s
     | Inr a \<Rightarrow> al dvd a \<and> free_vrange (mm_vma s) a sz \<and>
         set_vrange (mm_vma s) a sz (ty, effective_prot prot, name, has_flag flags Map_NoCoalesce, None) (mm_vma s') \<and>
         mm_dmem s' = mm_dmem s \<and> mm_fmem s' = mm_fmem s \<and> mm_flexible_usage s' = mm_flexible_usage s)"
proof -
  let ?a = "if addr = 0 then DEFAULT_MAPPING_BASE else addr"
  have al0: "0 < al" using al(1) by (simp add: effective_alignment_def)
  obtain r where r: "SearchFree s ?a sz al = Some r" "r = INVALID_ADDR \<or> al dvd r \<and> free_vrange (mm_vma s) r sz"
    using SearchFree_result [OF ok ne al0 al(2) room fit] by blast
  have nt: "ty \<noteq> VMAFlexible" using ty by (auto simp: backed_type_def)
  have choose: "choose_address s addr sz flags al =
      Some (if r = INVALID_ADDR then Inl ORBIS_KERNEL_ERROR_ENOMEM else Inr r)"
    using r(1) flags by (simp add: choose_address_def Let_def)
  have run: "MapMemory addr sz prot flags ty name validate INVALID_ADDR alignment s =
      (if r = INVALID_ADDR then Some (s, Inl ORBIS_KERNEL_ERROR_ENOMEM)
       else do { (s, m) \<leftarrow> map_at r sz prot flags ty name INVALID_ADDR s; Some (s, Inr m) })"
    using nt choose by (simp add: MapMemory_def check_phys_range_def al(1) effective_alignment_def)
  show ?thesis
  proof (cases "r = INVALID_ADDR")
    case True
    then show ?thesis using run by auto
  next
    case False
    then show ?thesis using run r(2) map_at_free [OF ok _ sz flags ty, of r prot name INVALID_ADDR] by auto
  qed
qed

section \<open>A map with one area\<close>

lemma free_vma_good: "vma_good (free_vma base sz)"
  using phys_inv_Nil by (simp add: vma_good_def free_vma_def HasPhysicalBacking_def)

lemma vma_single_ok:
  assumes "vma_good v" "0 < vma_size v" "vma_base v + vma_size v \<le> UINT64_MAX"
  shows "vma_map_ok [(vma_base v, v)]"
  using assms by (auto simp: area_inv_def keyed_def om_sorted_def)

definition small_vm :: "VMAType \<Rightarrow> MemoryManager" where
  "small_vm ty = (small_mm PhysFree)\<lparr>mm_vma := [(0x100000, (free_vma 0x100000 0x100000)\<lparr>vma_type := ty\<rparr>)],
     mm_system_managed_base := 0x100000, mm_user_base := 0x100000, mm_user_size := 0x100000\<rparr>"

lemma small_vm_ok: "\<not> backed_type ty \<Longrightarrow> vma_map_ok (mm_vma (small_vm ty))"
  using vma_single_ok [of "(free_vma 0x100000 0x100000)\<lparr>vma_type := ty\<rparr>"] phys_inv_Nil
  by (simp add: small_vm_def free_vma_def vma_good_def HasPhysicalBacking_def backed_type_def)


section \<open>Properties\<close>

text \<open>C13: CarveVMA isolates exactly the requested range of an area and changes nothing that is observed
  at any virtual address: type, protection, name and the physical address behind it; a following
  MergeAdjacent at any iterator changes nothing either.\<close>

theorem carve_vma_translation:
  assumes "vma_map_ok m" and "area_at vma_size m addr = Some (k, v)" and "0 < n" and "addr + n \<le> k + vma_size v"
  shows "\<exists>m' u. CarveVMA m addr n = Some (m', addr) \<and> vma_map_ok m' \<and> vma_at m' = vma_at m \<and>
    om_find m' addr = Some u \<and> vma_base u = addr \<and> vma_size u = n \<and>
    (\<forall>h w. om_find m' h = Some w \<longrightarrow> (\<exists>m2 j. vma_MergeAdjacent m' h = Some (m2, j) \<and> vma_map_ok m2 \<and>
       vma_at m2 = vma_at m))"
proof -
  obtain m' u where c: "CarveVMA m addr n = Some (m', addr)" "vma_map_ok m'" "vma_at m' = vma_at m"
    "om_find m' addr = Some u" "vma_base u = addr" "vma_size u = n"
    by (rule CarveVMA_result [OF assms]) (rule that; assumption)
  have inv: "vma_inv m'" and kd: "keyed vma_base m' \<or> gapless vma_size m'" "keyed vma_base m'" using c(2) by auto
  have "\<exists>m2 j. vma_MergeAdjacent m' h = Some (m2, j) \<and> vma_map_ok m2 \<and> vma_at m2 = vma_at m"
    if w: "om_find m' h = Some w" for h w
  proof -
    obtain m2 j where "map_MergeAdjacent vma_CanMergeWith vma_join m' h = Some (m2, j)" "vma_inv m2"
      "vma_at m2 = vma_at m'" "keyed vma_base m' \<Longrightarrow> keyed vma_base m2"
      by (rule vma.map_MergeAdjacent_result [OF inv kd(1) w]) (rule that; assumption)
    then show ?thesis using kd(2) c(3) by (auto simp: vma_MergeAdjacent_def)
  qed
  then show ?thesis using c by blast
qed

theorem carve_vma_translation_witness:
  "\<exists>m' u. CarveVMA (mm_vma (small_vm VMAFree)) 0x104000 0x8000 = Some (m', 0x104000) \<and>
     vma_at m' = vma_at (mm_vma (small_vm VMAFree)) \<and> om_find m' 0x104000 = Some u \<and> vma_size u = 0x8000"
proof -
  have ok: "vma_map_ok (mm_vma (small_vm VMAFree))" using small_vm_ok by (simp add: backed_type_def)
  have at: "area_at vma_size (mm_vma (small_vm VMAFree)) 0x104000 =
      Some (0x100000, (free_vma 0x100000 0x100000)\<lparr>vma_type := VMAFree\<rparr>)"
    by (simp add: small_vm_def area_at_def free_vma_def)
  show ?thesis using carve_vma_translation [OF ok at, where n = "0x8000"] by (auto simp: free_vma_def)
qed





text \<open>C2: MapMemory of a type without physical backing, at an address of its choice, is total.  It fails
  only with ENOMEM, without touching the state; on success the returned address is aligned, the whole
  range was free, exactly that range gets the requested type, protection (reading added to
  writing), name and merge flag, and the physical maps and the flexible usage stay as they are.\<close>

theorem map_memory_exact:
  assumes "vma_map_ok (mm_vma s)" and "mm_vma s \<noteq> []" and "0 < sz"
    and "\<not> has_flag flags Map_Fixed" and "\<not> backed_type ty"
    and "al = effective_alignment alignment SIZE_16KB" and "al < 4294967296" and "vma_room (mm_vma s) (al + sz)"
    and "max (if addr = 0 then DEFAULT_MAPPING_BASE else addr) (mm_system_managed_base s) + al + sz \<le> UINT64_MAX"
  shows "\<exists>s' r. MapMemory addr sz prot flags ty name validate INVALID_ADDR alignment s = Some (s', r) \<and>
    (case r of Inl e \<Rightarrow> e = ORBIS_KERNEL_ERROR_ENOMEM \<and> s' = s
     | Inr a \<Rightarrow> al dvd a \<and> free_vrange (mm_vma s) a sz \<and>
         set_vrange (mm_vma s) a sz (ty, effective_prot prot, name, has_flag flags Map_NoCoalesce, None) (mm_vma s') \<and>
         mm_dmem s' = mm_dmem s \<and> mm_fmem s' = mm_fmem s \<and> mm_flexible_usage s' = mm_flexible_usage s)"
  by (rule MapMemory_plain [OF assms])

lemma small_vm_room: "vma_room (mm_vma (small_vm VMAFree)) (0x4000 + 0x8000)"
  by (auto simp: vma_room_def small_vm_def free_vma_def split: if_splits)

theorem map_memory_exact_witness:
  "\<exists>s' r. MapMemory 0x104000 0x8000 2 0 VMAReserved ''stack'' False INVALID_ADDR 0 (small_vm VMAFree) = Some (s', r)"
proof -
  have ok: "vma_map_ok (mm_vma (small_vm VMAFree))" using small_vm_ok by (simp add: backed_type_def)
  have ne: "mm_vma (small_vm VMAFree) \<noteq> []" and base: "mm_system_managed_base (small_vm VMAFree) = 0x100000"
    by (simp_all add: small_vm_def)
  have h: "(0::nat) < 0x8000" "\<not> has_flag 0 Map_Fixed" "\<not> backed_type VMAReserved"
    "0x4000 = effective_alignment 0 SIZE_16KB" "(0x4000::nat) < 4294967296"
    by (simp_all add: has_flag_def backed_type_def effective_alignment_def)
  have fit: "max (if 0x104000 = 0 then DEFAULT_MAPPING_BASE else 0x104000) (mm_system_managed_base (small_vm VMAFree))
      + 0x4000 + 0x8000 \<le> UINT64_MAX"
    by (simp add: base)
  show ?thesis
    using map_memory_exact [OF ok ne h small_vm_room fit, of 2 "''stack''" False] by blast
qed


section \<open>Observations\<close>

text \<open>A protection of a readable area alone asks the host for write permission too.\<close>

lemma host_perms_read_only: "host_perms CpuRead = Perm_ReadWrite"
  by (simp add: host_perms_def has_flag_def)

text \<open>Two adjacent areas that differ in their protection only.\<close>

definition two_prots :: MemoryManager where
  "two_prots = (small_mm PhysFree)\<lparr>mm_vma :=
     [(0x4000, (free_vma 0x4000 0x4000)\<lparr>vma_type := VMACode, vma_prot := 1\<rparr>),
      (0x8000, (free_vma 0x8000 0x4000)\<lparr>vma_type := VMACode, vma_prot := 3\<rparr>)]\<rparr>"

text \<open>\<open>ProtectBytes\<close> reads its area again after \<open>MergeAdjacent\<close> erased it: giving the second area the
  protection of the first has no defined result.\<close>

lemma protect_reads_erased_area:
  "CarveVMA (mm_vma two_prots) 0x8000 0x4000 = Some (mm_vma two_prots, 0x8000) \<and>
   ProtectBytes 0x8000 0x8000 0x4000 1 two_prots = None"
  by (simp add: two_prots_def small_mm_def free_vma_def ProtectBytes_def CarveVMA_def map_CarveSplits_def has_flag_def
      u64_simps vma_MergeAdjacent_def map_MergeAdjacent_def map_MergeNext_def map_MergePrev_def vma_CanMergeWith_def
      vma_join_def HasPhysicalBacking_def)

text \<open>A range that starts in the gap behind an area is accepted: the size left is computed by a
  subtraction that wraps around.\<close>

definition gap_vm :: MemoryManager where
  "gap_vm = (small_mm PhysFree)\<lparr>mm_vma :=
     [(0x4000, free_vma 0x4000 0x4000), (0x10000, free_vma 0x10000 0x4000)]\<rparr>"

lemma valid_mapping_in_gap: "vma_at (mm_vma gap_vm) 0x9000 = None \<and> IsValidMapping gap_vm 0x9000 0x1000 = Some True"
  by (simp add: gap_vm_def small_mm_def free_vma_def view_at_def area_at_def IsValidMapping_def om_last_def om_begin_def
      elements_from_def u64_simps sub64_def)

end
