(* ===== verification/Wait_Queue.thy ===== *)
theory Wait_Queue
  imports Prelude
begin

text \<open>
  The wait lists of the kernel objects.  \<open>queue_insert\<close> is the loop with which every \<open>AddWaiter\<close>
  finds the place of a new waiter: it walks over the waiters that stay ahead of the newcomer and inserts
  before the first that does not.  The locale \<open>wait_order\<close> states what a queue discipline must
  promise, a total preorder, and proves once what the clients rely on: the queue stays
  ordered and the insertion is stable.
\<close>

fun queue_insert :: "('w \<Rightarrow> bool) \<Rightarrow> 'w \<Rightarrow> 'w list \<Rightarrow> 'w list" where
  "queue_insert keep x [] = [x]"
| "queue_insert keep x (w # ws) = (if keep w then w # queue_insert keep x ws else x # w # ws)"

lemma queue_insert_split: "queue_insert keep x ws = takeWhile keep ws @ x # dropWhile keep ws"
  by (induction ws) auto

lemma queue_insert_set [simp]: "set (queue_insert keep x ws) = insert x (set ws)"
  by (induction ws) auto

lemma queue_insert_length [simp]: "length (queue_insert keep x ws) = Suc (length ws)"
  by (induction ws) auto

lemma queue_insert_always: "(\<And>w. w \<in> set ws \<Longrightarrow> keep w) \<Longrightarrow> queue_insert keep x ws = ws @ [x]"
  by (induction ws) auto

lemma queue_insert_distinct:
  "distinct (map f (queue_insert keep x ws)) \<longleftrightarrow> f x \<notin> f ` set ws \<and> distinct (map f ws)"
  by (induction ws) auto

locale wait_order =
  fixes ahead :: "'w \<Rightarrow> 'w \<Rightarrow> bool"
  assumes ahead_total: "ahead u v \<or> ahead v u"
    and ahead_trans: "ahead u v \<Longrightarrow> ahead v w \<Longrightarrow> ahead u w"
begin

lemma ahead_refl: "ahead u u"
  using ahead_total [of u u] by simp

lemma ahead_linear: "\<not> ahead u v \<Longrightarrow> ahead v u"
  using ahead_total by blast

lemma insert_sorted:
  "sorted_wrt ahead ws \<Longrightarrow> sorted_wrt ahead (queue_insert (\<lambda>w. ahead w x) x ws)"
  by (induction ws) (auto dest: ahead_linear intro: ahead_trans)

text \<open>In an ordered queue everyone the newcomer is inserted behind stays ahead of it, and it is
  strictly ahead of everyone else; the waiters before it keep their order.\<close>

lemma insert_position:
  assumes "sorted_wrt ahead ws"
  shows "\<exists>us vs. ws = us @ vs \<and> queue_insert (\<lambda>w. ahead w x) x ws = us @ x # vs \<and>
    (\<forall>u\<in>set us. ahead u x) \<and> (\<forall>v\<in>set vs. ahead x v \<and> \<not> ahead v x)"
  using assms
proof (induction ws)
  case (Cons w ws)
  show ?case
  proof (cases "ahead w x")
    case True
    obtain us vs where "ws = us @ vs" "queue_insert (\<lambda>w. ahead w x) x ws = us @ x # vs"
      "\<forall>u\<in>set us. ahead u x" "\<forall>v\<in>set vs. ahead x v \<and> \<not> ahead v x"
      using Cons by auto
    then show ?thesis using True by (intro exI [of _ "w # us"] exI [of _ vs]) simp
  next
    case False
    then have "ahead x w" using ahead_total by blast
    then have "ahead x v \<and> \<not> ahead v x" if "v \<in> set (w # ws)" for v
      using that False Cons.prems ahead_trans by auto
    then show ?thesis using False by (intro exI [of _ "[]"] exI [of _ "w # ws"]) simp
  qed
qed simp

text \<open>Waiters of equal rank are served in the order of their arrival.\<close>

lemma insert_stable:
  assumes "sorted_wrt ahead ws"
  shows "filter (\<lambda>w. ahead w x \<and> ahead x w) (queue_insert (\<lambda>w. ahead w x) x ws) =
    filter (\<lambda>w. ahead w x \<and> ahead x w) ws @ [x]"
proof -
  obtain us vs where s: "ws = us @ vs" "queue_insert (\<lambda>w. ahead w x) x ws = us @ x # vs"
    "\<forall>v\<in>set vs. ahead x v \<and> \<not> ahead v x"
    using insert_position [OF assms] by blast
  have "filter (\<lambda>w. ahead w x \<and> ahead x w) vs = []" using s(3) by (simp add: filter_empty_conv)
  then show ?thesis unfolding s(2) by (simp add: s(1) ahead_refl)
qed

end

end
