(* ===== verification/Event_Flag.thy ===== *)
theory Event_Flag
  imports Wait_Queue Kernel_Error
begin

text \<open>
  The event flags of \<^verbatim>\<open>src/src/core/libraries/kernel/threads/event_flag.cpp\<close>: the monitor
  \<open>EventFlagInternal\<close> and the guest functions around it.  Every member function holds \<open>m_mutex\<close>
  from its start to its end, apart from \<open>Wait\<close>, which gives it up while it sleeps on the condition
  variable of its waiter: it is split there into \<open>Wait_enter\<close>, \<open>Wait_timeout\<close> and \<open>Wait_resume\<close>, each one
  atomic step.  A waiter is identified by the thread on whose stack it lives.  The step relation
  \<open>evf_step\<close> interleaves the calls of all threads in any order; the pattern written through the
  \<open>result\<close> pointer is part of a return.
\<close>

section \<open>The monitor\<close>

type_synonym pattern = "64 word"
type_synonym thread = nat

datatype ClearMode = ClearNone | ClearAll | ClearBits
datatype WaitMode = WaitAnd | WaitOr
datatype ThreadMode = ThreadSingle | ThreadMulti
datatype QueueMode = QueueFifo | QueueThreadPrio

record Waiter =
  w_thread :: thread
  w_timed :: bool
  w_bits :: pattern
  w_wait_mode :: WaitMode
  w_clear_mode :: ClearMode
  w_result :: pattern
  w_ready :: bool
  w_canceled :: bool
  w_deleted :: bool
  w_timed_out :: bool
  w_priority :: int

record EventFlagInternal =
  ef_name :: string
  ef_thread_mode :: ThreadMode
  ef_queue_mode :: QueueMode
  ef_deleted :: bool
  ef_bits :: pattern
  ef_waiters :: "Waiter list"

definition EventFlagInternal_init :: "string \<Rightarrow> ThreadMode \<Rightarrow> QueueMode \<Rightarrow> pattern \<Rightarrow> EventFlagInternal" where
  "EventFlagInternal_init name thread_mode queue_mode bits =
    \<lparr>ef_name = name, ef_thread_mode = thread_mode, ef_queue_mode = queue_mode, ef_deleted = False, ef_bits = bits,
     ef_waiters = []\<rparr>"

definition ConditionMet :: "pattern \<Rightarrow> Waiter \<Rightarrow> bool" where
  "ConditionMet m_bits w =
    (if w_wait_mode w = WaitAnd then m_bits AND w_bits w = w_bits w else m_bits AND w_bits w \<noteq> 0)"

definition ApplyClear :: "Waiter \<Rightarrow> pattern \<Rightarrow> pattern" where
  "ApplyClear w m_bits =
    (case w_clear_mode w of ClearNone \<Rightarrow> m_bits | ClearAll \<Rightarrow> 0 | ClearBits \<Rightarrow> m_bits AND NOT (w_bits w))"

definition evf_AddWaiter :: "Waiter \<Rightarrow> EventFlagInternal \<Rightarrow> EventFlagInternal" where
  "evf_AddWaiter w s =
    (if ef_queue_mode s = QueueFifo then s\<lparr>ef_waiters := ef_waiters s @ [w]\<rparr>
     else s\<lparr>ef_waiters := queue_insert (\<lambda>x. w_priority x \<ge> w_priority w) w (ef_waiters s)\<rparr>)"

definition evf_RemoveWaiter :: "thread \<Rightarrow> EventFlagInternal \<Rightarrow> EventFlagInternal" where
  "evf_RemoveWaiter t s = s\<lparr>ef_waiters := filter (\<lambda>w. w_thread w \<noteq> t) (ef_waiters s)\<rparr>"

text \<open>The condition \<open>wake\<close> a waiter sleeps for.\<close>

definition waiter_wake :: "Waiter \<Rightarrow> bool" where
  "waiter_wake w \<longleftrightarrow> w_ready w \<or> w_canceled w \<or> w_deleted w \<or> w_timed_out w"

text \<open>A call of \<open>Wait\<close> returns at once, with a code and the pattern for \<open>result\<close> if it is written, or
  goes to sleep.\<close>

datatype WaitOutcome = WaitReturns OrbisResult "pattern option" | WaitSleeps

definition evf_Wait_enter ::
  "thread \<Rightarrow> int \<Rightarrow> pattern \<Rightarrow> WaitMode \<Rightarrow> ClearMode \<Rightarrow> bool \<Rightarrow> EventFlagInternal \<Rightarrow> EventFlagInternal \<times> WaitOutcome" where
  "evf_Wait_enter t prio bits wait_mode clear_mode timed s =
    (if ef_deleted s then (s, WaitReturns ORBIS_KERNEL_ERROR_EACCES None)
     else if ef_thread_mode s = ThreadSingle \<and> ef_waiters s \<noteq> []
     then (s, WaitReturns ORBIS_KERNEL_ERROR_EPERM None)
     else
       let waiter = \<lparr>w_thread = t, w_timed = timed, w_bits = bits, w_wait_mode = wait_mode, w_clear_mode = clear_mode,
             w_result = 0, w_ready = False, w_canceled = False, w_deleted = False, w_timed_out = False,
             w_priority = prio\<rparr>
       in if ConditionMet (ef_bits s) waiter
          then (s\<lparr>ef_bits := ApplyClear waiter (ef_bits s)\<rparr>, WaitReturns ORBIS_OK (Some (ef_bits s)))
          else (evf_AddWaiter waiter s, WaitSleeps))"

text \<open>\<open>wait_for\<close> returns false: the time is over and \<open>wake\<close> does not hold.\<close>

definition evf_Wait_timeout :: "thread \<Rightarrow> EventFlagInternal \<Rightarrow> EventFlagInternal \<times> WaitOutcome" where
  "evf_Wait_timeout t s =
    (let s = evf_RemoveWaiter t s in (s, WaitReturns ORBIS_KERNEL_ERROR_ETIMEDOUT (Some (ef_bits s))))"

text \<open>The wait ends because \<open>wake\<close> holds.\<close>

definition evf_Wait_resume :: "Waiter \<Rightarrow> EventFlagInternal \<Rightarrow> EventFlagInternal \<times> WaitOutcome" where
  "evf_Wait_resume waiter s =
    (let s = evf_RemoveWaiter (w_thread waiter) s
     in (s, WaitReturns
          (if w_canceled waiter then ORBIS_KERNEL_ERROR_ECANCELED
           else if w_deleted waiter then ORBIS_KERNEL_ERROR_EACCES
           else if w_timed_out waiter then ORBIS_KERNEL_ERROR_ETIMEDOUT
           else ORBIS_OK) (Some (w_result waiter))))"

definition evf_Poll_result :: "OrbisResult \<Rightarrow> OrbisResult" where
  "evf_Poll_result ret = (if ret = ORBIS_KERNEL_ERROR_ETIMEDOUT then ORBIS_KERNEL_ERROR_EBUSY else ret)"

text \<open>The loop of \<open>Set\<close> over the waiters.\<close>

fun set_loop :: "pattern \<Rightarrow> Waiter list \<Rightarrow> pattern \<times> Waiter list" where
  "set_loop m_bits [] = (m_bits, [])"
| "set_loop m_bits (w # ws) =
    (if \<not> ConditionMet m_bits w then (let (b, ws') = set_loop m_bits ws in (b, w # ws'))
     else
       let w = w\<lparr>w_result := m_bits\<rparr>;
           (b, ws') = set_loop (ApplyClear w m_bits) ws
       in (b, w\<lparr>w_ready := True\<rparr> # ws'))"

definition evf_Set :: "pattern \<Rightarrow> EventFlagInternal \<Rightarrow> EventFlagInternal" where
  "evf_Set bits s = (let (b, ws) = set_loop (ef_bits s OR bits) (ef_waiters s) in s\<lparr>ef_bits := b, ef_waiters := ws\<rparr>)"

definition evf_Clear :: "pattern \<Rightarrow> EventFlagInternal \<Rightarrow> EventFlagInternal" where
  "evf_Clear bits s = s\<lparr>ef_bits := ef_bits s AND bits\<rparr>"

text \<open>\<open>Cancel\<close> returns the number of waiters through \<open>num_waiters\<close>.\<close>

definition evf_Cancel :: "pattern \<Rightarrow> EventFlagInternal \<Rightarrow> EventFlagInternal \<times> nat" where
  "evf_Cancel pat s =
    (s\<lparr>ef_bits := pat, ef_waiters := map (\<lambda>w. w\<lparr>w_result := pat, w_canceled := True\<rparr>) (ef_waiters s)\<rparr>,
     length (ef_waiters s))"

text \<open>The destructor up to its wait; it ends when the last waiter has left.\<close>

definition evf_destroy :: "EventFlagInternal \<Rightarrow> EventFlagInternal" where
  "evf_destroy s = s\<lparr>ef_deleted := True, ef_waiters := map (\<lambda>w. w\<lparr>w_deleted := True\<rparr>) (ef_waiters s)\<rparr>"

section \<open>Guest functions\<close>

text \<open>A handle is a pointer: \<open>None\<close> is the null pointer.  \<open>UNREACHABLE()\<close> is \<open>None\<close> of the result.\<close>

definition queue_mode_of :: "u32 \<Rightarrow> QueueMode option" where
  "queue_mode_of attr =
    (let a = attr AND 0xf in if a = 1 then Some QueueFifo else if a = 2 then Some QueueThreadPrio
     else if a = 0 then Some QueueFifo else None)"

definition thread_mode_of :: "u32 \<Rightarrow> ThreadMode option" where
  "thread_mode_of attr =
    (let a = attr AND 0xf0 in if a = 0x10 then Some ThreadSingle else if a = 0x20 then Some ThreadMulti
     else if a = 0 then Some ThreadSingle else None)"

definition sceKernelCreateEventFlag ::
  "bool \<Rightarrow> string option \<Rightarrow> u32 \<Rightarrow> pattern \<Rightarrow> bool \<Rightarrow> (OrbisResult + EventFlagInternal) option" where
  "sceKernelCreateEventFlag has_ef pName attr initPattern has_opt =
    (case pName of
       None \<Rightarrow> Some (Inl ORBIS_KERNEL_ERROR_EINVAL)
     | Some name \<Rightarrow>
       if \<not> has_ef then Some (Inl ORBIS_KERNEL_ERROR_EINVAL)
       else if has_opt \<or> attr > (0x20 OR 0x02) then Some (Inl ORBIS_KERNEL_ERROR_EINVAL)
       else if length name \<ge> 32 then Some (Inl ORBIS_KERNEL_ERROR_ENAMETOOLONG)
       else do {
         queue_mode \<leftarrow> queue_mode_of attr;
         thread_mode \<leftarrow> thread_mode_of attr;
         Some (Inr (EventFlagInternal_init name thread_mode queue_mode initPattern))
       })"

definition sceKernelDeleteEventFlag :: "EventFlagInternal option \<Rightarrow> EventFlagInternal option \<times> OrbisResult" where
  "sceKernelDeleteEventFlag ef =
    (case ef of None \<Rightarrow> (None, ORBIS_KERNEL_ERROR_ESRCH) | Some s \<Rightarrow> (Some (evf_destroy s), ORBIS_OK))"

definition sceKernelClearEventFlag ::
  "EventFlagInternal option \<Rightarrow> pattern \<Rightarrow> EventFlagInternal option \<times> OrbisResult" where
  "sceKernelClearEventFlag ef bitPattern =
    (case ef of None \<Rightarrow> (None, ORBIS_KERNEL_ERROR_ESRCH) | Some s \<Rightarrow> (Some (evf_Clear bitPattern s), ORBIS_OK))"

definition sceKernelCancelEventFlag ::
  "EventFlagInternal option \<Rightarrow> pattern \<Rightarrow> EventFlagInternal option \<times> OrbisResult \<times> nat option" where
  "sceKernelCancelEventFlag ef setPattern =
    (case ef of None \<Rightarrow> (None, ORBIS_KERNEL_ERROR_ESRCH, None)
     | Some s \<Rightarrow> (let (s, n) = evf_Cancel setPattern s in (Some s, ORBIS_OK, Some n)))"

definition sceKernelSetEventFlag ::
  "EventFlagInternal option \<Rightarrow> pattern \<Rightarrow> EventFlagInternal option \<times> OrbisResult" where
  "sceKernelSetEventFlag ef bitPattern =
    (case ef of None \<Rightarrow> (None, ORBIS_KERNEL_ERROR_ESRCH) | Some s \<Rightarrow> (Some (evf_Set bitPattern s), ORBIS_OK))"

definition wait_mode_of :: "u32 \<Rightarrow> WaitMode option" where
  "wait_mode_of waitMode =
    (let a = waitMode AND 0xf in if a = 1 then Some WaitAnd else if a = 2 then Some WaitOr else None)"

definition clear_mode_of :: "u32 \<Rightarrow> ClearMode option" where
  "clear_mode_of waitMode =
    (let a = waitMode AND 0xf0 in if a = 0 then Some ClearNone else if a = 0x10 then Some ClearAll
     else if a = 0x20 then Some ClearBits else None)"

text \<open>The entry of \<open>sceKernelWaitEventFlag\<close> and of \<open>sceKernelPollEventFlag\<close>, which differ in what they do
  with the code that \<open>Wait\<close> returns: \<open>Poll\<close> is a wait with a timeout of zero whose \<open>ETIMEDOUT\<close>
  becomes \<open>EBUSY\<close>.\<close>

definition sceKernelWaitEventFlag ::
  "EventFlagInternal option \<Rightarrow> thread \<Rightarrow> int \<Rightarrow> pattern \<Rightarrow> u32 \<Rightarrow> bool \<Rightarrow>
     (EventFlagInternal option \<times> WaitOutcome) option" where
  "sceKernelWaitEventFlag ef t prio bitPattern waitMode timed =
    (case ef of
       None \<Rightarrow> Some (None, WaitReturns ORBIS_KERNEL_ERROR_ESRCH None)
     | Some s \<Rightarrow>
       if bitPattern = 0 then Some (ef, WaitReturns ORBIS_KERNEL_ERROR_EINVAL None)
       else do {
         wait \<leftarrow> wait_mode_of waitMode;
         clear \<leftarrow> clear_mode_of waitMode;
         let (s, out) = evf_Wait_enter t prio bitPattern wait clear timed s;
         Some (Some s, out)
       })"

definition map_code :: "(OrbisResult \<Rightarrow> OrbisResult) \<Rightarrow> WaitOutcome \<Rightarrow> WaitOutcome" where
  "map_code f out = (case out of WaitReturns r p \<Rightarrow> WaitReturns (f r) p | WaitSleeps \<Rightarrow> WaitSleeps)"

definition sceKernelPollEventFlag ::
  "EventFlagInternal option \<Rightarrow> thread \<Rightarrow> int \<Rightarrow> pattern \<Rightarrow> u32 \<Rightarrow> (EventFlagInternal option \<times> WaitOutcome) option" where
  "sceKernelPollEventFlag ef t prio bitPattern waitMode = do {
     (ef, out) \<leftarrow> sceKernelWaitEventFlag ef t prio bitPattern waitMode True;
     Some (ef, map_code evf_Poll_result out)
   }"

section \<open>Interleavings\<close>

datatype EvfCall = CallWait thread int pattern WaitMode ClearMode bool | CallSet pattern | CallClear pattern
  | CallCancel pattern | CallDelete | WakeUp thread | TimeOut thread

text \<open>The object exists until its destructor has returned, which it does when no waiter is left.\<close>

definition evf_alive :: "EventFlagInternal \<Rightarrow> bool" where
  "evf_alive s \<longleftrightarrow> \<not> ef_deleted s \<or> ef_waiters s \<noteq> []"

inductive evf_step :: "EventFlagInternal \<Rightarrow> EvfCall \<Rightarrow> EventFlagInternal \<Rightarrow> WaitOutcome option \<Rightarrow> bool" where
  step_wait: "evf_alive s \<Longrightarrow> t \<notin> w_thread ` set (ef_waiters s) \<Longrightarrow> evf_Wait_enter t prio bits wm cm timed s = (s', out) \<Longrightarrow>
     evf_step s (CallWait t prio bits wm cm timed) s' (Some out)"
| step_set: "evf_alive s \<Longrightarrow> evf_step s (CallSet bits) (evf_Set bits s) None"
| step_clear: "evf_alive s \<Longrightarrow> evf_step s (CallClear bits) (evf_Clear bits s) None"
| step_cancel: "evf_alive s \<Longrightarrow> evf_step s (CallCancel pat) (fst (evf_Cancel pat s)) None"
| step_delete: "\<not> ef_deleted s \<Longrightarrow> evf_step s CallDelete (evf_destroy s) None"
| step_wake: "w \<in> set (ef_waiters s) \<Longrightarrow> waiter_wake w \<Longrightarrow> evf_Wait_resume w s = (s', out) \<Longrightarrow>
     evf_step s (WakeUp (w_thread w)) s' (Some out)"
| step_timeout: "w \<in> set (ef_waiters s) \<Longrightarrow> w_timed w \<Longrightarrow> \<not> waiter_wake w \<Longrightarrow> evf_Wait_timeout (w_thread w) s = (s', out) \<Longrightarrow>
     evf_step s (TimeOut (w_thread w)) s' (Some out)"

inductive evf_reachable :: "EventFlagInternal \<Rightarrow> bool" where
  reach_init: "evf_reachable (EventFlagInternal_init name tm qm bits)"
| reach_step: "evf_reachable s \<Longrightarrow> evf_step s c s' out \<Longrightarrow> evf_reachable s'"

inductive_cases evf_step_elim: "evf_step s c s' out"


section \<open>Clearing never satisfies a condition\<close>

definition ef_ahead :: "QueueMode \<Rightarrow> Waiter \<Rightarrow> Waiter \<Rightarrow> bool" where
  "ef_ahead qm u w \<longleftrightarrow> qm = QueueFifo \<or> w_priority u \<ge> w_priority w"

interpretation evf: wait_order "ef_ahead qm" for qm
  by unfold_locales (auto simp: ef_ahead_def)

lemma AddWaiter_queue:
  "evf_AddWaiter w s = s\<lparr>ef_waiters := queue_insert (\<lambda>x. ef_ahead (ef_queue_mode s) x w) w (ef_waiters s)\<rparr>"
  by (cases "ef_queue_mode s") (simp_all add: evf_AddWaiter_def ef_ahead_def queue_insert_always)

lemma ConditionMet_anti: "ConditionMet (b AND m) w \<Longrightarrow> ConditionMet b w"
proof (cases "w_wait_mode w")
  case WaitAnd
  assume "ConditionMet (b AND m) w"
  then have "b AND m AND w_bits w = w_bits w" using WaitAnd by (simp add: ConditionMet_def and.assoc)
  then have "b AND w_bits w = w_bits w" by (metis and.left_commute and.left_idem)
  then show ?thesis using WaitAnd by (simp add: ConditionMet_def)
next
  case WaitOr
  assume "ConditionMet (b AND m) w"
  then have "m AND (b AND w_bits w) \<noteq> 0" using WaitOr by (simp add: ConditionMet_def ac_simps)
  then show ?thesis using WaitOr by (auto simp: ConditionMet_def)
qed

lemma ApplyClear_mask: "\<exists>m. ApplyClear w b = b AND m"
proof (cases "w_clear_mode w")
  case ClearNone
  then show ?thesis by (intro exI [of _ "-1"]) (simp add: ApplyClear_def)
next
  case ClearAll
  then show ?thesis by (intro exI [of _ 0]) (simp add: ApplyClear_def)
qed (auto simp: ApplyClear_def)

lemma ConditionMet_cong:
  "ConditionMet b (w\<lparr>w_result := r\<rparr>) = ConditionMet b w" "ConditionMet b (w\<lparr>w_ready := x\<rparr>) = ConditionMet b w"
  "ConditionMet b (w\<lparr>w_canceled := x\<rparr>) = ConditionMet b w" "ConditionMet b (w\<lparr>w_deleted := x\<rparr>) = ConditionMet b w"
  by (simp_all add: ConditionMet_def)

section \<open>What one run of Set does\<close>

text \<open>The pattern that is left is a part of the pattern before; each waiter is either untouched, with its
  condition not met by what is left, or ready with a result that meets its condition.\<close>

definition set_waiter :: "pattern \<Rightarrow> Waiter \<Rightarrow> Waiter \<Rightarrow> bool" where
  "set_waiter b w w' \<longleftrightarrow>
    (w' = w \<and> \<not> ConditionMet b w) \<or>
    (\<exists>r. w' = w\<lparr>w_result := r, w_ready := True\<rparr> \<and> ConditionMet r w)"

lemma set_waiter_anti: "set_waiter b w w' \<Longrightarrow> set_waiter (b AND m) w w'"
  using ConditionMet_anti by (auto simp: set_waiter_def)

lemma set_loop_result:
  assumes "set_loop b ws = (b', ws')"
  shows "(\<exists>m. b' = b AND m) \<and> list_all2 (set_waiter b') ws ws'"
  using assms
proof (induction ws arbitrary: b b' ws')
  case Nil
  then show ?case by (auto intro: exI [of _ "-1"])
next
  case (Cons w ws)
  show ?case
  proof (cases "ConditionMet b w")
    case False
    obtain vs where vs: "set_loop b ws = (b', vs)" "ws' = w # vs"
      using Cons.prems False by (auto split: prod.splits)
    obtain m where m: "b' = b AND m" "list_all2 (set_waiter b') ws vs" using Cons.IH [OF vs(1)] by blast
    have "set_waiter b' w w" using False ConditionMet_anti m(1) by (auto simp: set_waiter_def)
    then show ?thesis using m vs(2) by auto
  next
    case True
    obtain vs where vs: "set_loop (ApplyClear (w\<lparr>w_result := b\<rparr>) b) ws = (b', vs)"
      "ws' = w\<lparr>w_result := b, w_ready := True\<rparr> # vs"
      using Cons.prems True by (auto simp: Let_def split: prod.splits)
    obtain m where m: "b' = ApplyClear (w\<lparr>w_result := b\<rparr>) b AND m" "list_all2 (set_waiter b') ws vs"
      using Cons.IH [OF vs(1)] by blast
    obtain k where "ApplyClear (w\<lparr>w_result := b\<rparr>) b = b AND k" using ApplyClear_mask by blast
    then have "b' = b AND (k AND m)" using m(1) by (simp add: and.assoc)
    moreover have "set_waiter b' w (w\<lparr>w_result := b, w_ready := True\<rparr>)" using True by (auto simp: set_waiter_def)
    ultimately show ?thesis using m(2) vs(2) by blast
  qed
qed

text \<open>Without clearing waiters, the pattern keeps every bit and exactly the waiters whose condition it
  meets become ready, each with the whole pattern.\<close>

lemma set_loop_no_clear:
  "list_all (\<lambda>w. w_clear_mode w = ClearNone) ws \<Longrightarrow>
     set_loop b ws = (b, map (\<lambda>w. if ConditionMet b w then w\<lparr>w_result := b, w_ready := True\<rparr> else w) ws)"
  by (induction ws) (auto simp: Let_def ApplyClear_def)


section \<open>The invariant\<close>

definition waiter_ok :: "pattern \<Rightarrow> Waiter \<Rightarrow> bool" where
  "waiter_ok b w \<longleftrightarrow> \<not> w_timed_out w \<and> (waiter_wake w \<or> \<not> ConditionMet b w) \<and>
    (w_ready w \<and> \<not> w_canceled w \<longrightarrow> ConditionMet (w_result w) w)"

definition evf_inv :: "EventFlagInternal \<Rightarrow> bool" where
  "evf_inv s \<longleftrightarrow> distinct (map w_thread (ef_waiters s)) \<and> sorted_wrt (ef_ahead (ef_queue_mode s)) (ef_waiters s) \<and>
    (ef_thread_mode s = ThreadSingle \<longrightarrow> length (ef_waiters s) \<le> 1) \<and>
    (\<forall>w\<in>set (ef_waiters s). waiter_ok (ef_bits s) w \<and> (ef_deleted s \<longrightarrow> w_deleted w))"

lemma ef_ahead_sorted: "sorted_wrt (ef_ahead qm) ws = sorted_wrt (\<lambda>p q. qm = QueueFifo \<or> q \<le> p) (map w_priority ws)"
  by (simp add: sorted_wrt_map ef_ahead_def [abs_def])

text \<open>An update of the waiters that keeps threads and priorities keeps the shape of the queue.\<close>

lemma evf_inv_update:
  assumes "evf_inv s" and "list_all2 R (ef_waiters s) ws" and "\<And>w w'. R w w' \<Longrightarrow> w_thread w' = w_thread w \<and> w_priority w' = w_priority w"
    and "\<And>w w'. w \<in> set (ef_waiters s) \<Longrightarrow> R w w' \<Longrightarrow> waiter_ok (ef_bits s) w \<Longrightarrow> waiter_ok b w'"
    and "\<And>w w'. w \<in> set (ef_waiters s) \<Longrightarrow> R w w' \<Longrightarrow> d \<Longrightarrow> (ef_deleted s \<longrightarrow> w_deleted w) \<Longrightarrow> w_deleted w'"
  shows "evf_inv (s\<lparr>ef_bits := b, ef_deleted := d, ef_waiters := ws\<rparr>)"
proof -
  have "map w_thread ws = map w_thread (ef_waiters s) \<and> map w_priority ws = map w_priority (ef_waiters s)"
    using assms(2) by (induction rule: list_all2_induct) (auto dest: assms(3))
  moreover have "\<exists>w\<in>set (ef_waiters s). R w w'" if "w' \<in> set ws" for w'
    using that assms(2) by (metis in_set_conv_nth list_all2_conv_all_nth)
  ultimately show ?thesis
    using assms(1,4,5) unfolding evf_inv_def ef_ahead_sorted
    by (auto dest: map_eq_imp_length_eq) (metis)+
qed

lemma evf_Set_inv:
  assumes "evf_inv s"
  shows "evf_inv (evf_Set bits s)"
proof -
  obtain b ws where b: "set_loop (ef_bits s OR bits) (ef_waiters s) = (b, ws)" by fastforce
  then have l: "list_all2 (set_waiter b) (ef_waiters s) ws" using set_loop_result by blast
  have ok: "waiter_ok b w'" if "set_waiter b w w'" "waiter_ok (ef_bits s) w" for w w'
    using that by (auto simp: set_waiter_def waiter_ok_def waiter_wake_def ConditionMet_cong)
  have "evf_inv (s\<lparr>ef_bits := b, ef_deleted := ef_deleted s, ef_waiters := ws\<rparr>)"
    by (rule evf_inv_update [OF assms l]) (auto simp: set_waiter_def intro: ok [unfolded set_waiter_def])
  then show ?thesis by (simp add: evf_Set_def b)
qed

lemma evf_Clear_inv: "evf_inv s \<Longrightarrow> evf_inv (evf_Clear bits s)"
  using ConditionMet_anti by (fastforce simp: evf_inv_def evf_Clear_def waiter_ok_def)

lemma evf_Cancel_inv:
  assumes "evf_inv s"
  shows "evf_inv (fst (evf_Cancel pat s))"
proof -
  have "list_all2 (\<lambda>w w'. w' = w\<lparr>w_result := pat, w_canceled := True\<rparr>) (ef_waiters s)
      (map (\<lambda>w. w\<lparr>w_result := pat, w_canceled := True\<rparr>) (ef_waiters s))"
    by (simp add: list_all2_conv_all_nth)
  from evf_inv_update [OF assms this, of pat "ef_deleted s"] show ?thesis
    by (auto simp: evf_Cancel_def waiter_ok_def waiter_wake_def)
qed

lemma evf_destroy_inv:
  assumes "evf_inv s"
  shows "evf_inv (evf_destroy s)"
proof -
  have "list_all2 (\<lambda>w w'. w' = w\<lparr>w_deleted := True\<rparr>) (ef_waiters s) (map (\<lambda>w. w\<lparr>w_deleted := True\<rparr>) (ef_waiters s))"
    by (simp add: list_all2_conv_all_nth)
  then have "evf_inv (s\<lparr>ef_bits := ef_bits s, ef_deleted := True, ef_waiters := map (\<lambda>w. w\<lparr>w_deleted := True\<rparr>) (ef_waiters s)\<rparr>)"
    by (rule evf_inv_update [OF assms]) (auto simp: waiter_ok_def waiter_wake_def ConditionMet_cong)
  then show ?thesis by (simp add: evf_destroy_def)
qed

lemma evf_RemoveWaiter_inv: "evf_inv s \<Longrightarrow> evf_inv (evf_RemoveWaiter t s)"
  by (auto simp: evf_inv_def evf_RemoveWaiter_def sorted_wrt_filter distinct_map inj_on_def
      intro: order_trans [OF length_filter_le])

lemma evf_Wait_enter_inv:
  assumes "evf_inv s" and "t \<notin> w_thread ` set (ef_waiters s)" and "evf_Wait_enter t prio bits wm cm timed s = (s', out)"
  shows "evf_inv s'"
proof -
  have add: "evf_inv (evf_AddWaiter w s)"
    if "w_thread w = t" "ef_waiters s = [] \<or> ef_thread_mode s \<noteq> ThreadSingle" "waiter_ok (ef_bits s) w" "\<not> ef_deleted s" for w
    using assms(1,2) that evf.insert_sorted [of "ef_queue_mode s" "ef_waiters s" w]
    by (auto simp: evf_inv_def AddWaiter_queue queue_insert_distinct)
  have clear: "evf_inv (s\<lparr>ef_bits := ApplyClear w (ef_bits s)\<rparr>)" for w
    using evf_Clear_inv [OF assms(1)] ApplyClear_mask [of w "ef_bits s"] by (auto simp: evf_Clear_def)
  show ?thesis
    using assms(1,3) add clear
    by (auto simp: evf_Wait_enter_def Let_def waiter_ok_def split: if_splits)
qed

lemma evf_step_inv: "evf_step s c s' out \<Longrightarrow> evf_inv s \<Longrightarrow> evf_inv s'"
  by (induction rule: evf_step.induct)
     (auto intro: evf_Wait_enter_inv evf_Set_inv evf_Clear_inv evf_Cancel_inv evf_destroy_inv evf_RemoveWaiter_inv
       simp: evf_Wait_resume_def evf_Wait_timeout_def Let_def)

lemma evf_init_inv: "evf_inv (EventFlagInternal_init name tm qm bits)"
  by (simp add: evf_inv_def EventFlagInternal_init_def)

lemma evf_reachable_ok: "evf_reachable s \<Longrightarrow> evf_inv s"
  by (induction rule: evf_reachable.induct) (auto intro: evf_step_inv evf_init_inv)


section \<open>The length of the queue\<close>

lemma set_loop_length: "length (snd (set_loop b ws)) = length ws"
  by (induction b ws rule: set_loop.induct) (auto simp: Let_def split: prod.splits)

lemma remove_waiter_length:
  "distinct (map w_thread ws) \<Longrightarrow> w \<in> set ws \<Longrightarrow> Suc (length (filter (\<lambda>x. w_thread x \<noteq> w_thread w) ws)) = length ws"
proof (induction ws)
  case (Cons v ws)
  show ?case
  proof (cases "w_thread v = w_thread w")
    case True
    then have "\<forall>x\<in>set ws. w_thread x \<noteq> w_thread w" using Cons.prems(1) by (metis distinct.simps(2) image_eqI list.simps(9) set_map)
    then show ?thesis using True by (simp add: filter_True)
  qed (use Cons in auto)
qed simp

lemma evf_step_deleted:
  "evf_step s c s' out \<Longrightarrow> ef_deleted s \<Longrightarrow> ef_deleted s' \<and> length (ef_waiters s') \<le> length (ef_waiters s)"
proof (induction rule: evf_step.induct)
  case (step_set s bits)
  then show ?case using set_loop_length [of "ef_bits s OR bits" "ef_waiters s"]
    by (auto simp: evf_Set_def split: prod.splits)
qed (auto simp: evf_Wait_enter_def evf_Clear_def evf_Cancel_def evf_Wait_resume_def evf_Wait_timeout_def
    evf_RemoveWaiter_def Let_def)

section \<open>Creation\<close>

text \<open>A created flag has no waiter; the attributes 0x03 to 0x0f and 0x13 to 0x1f are not refused with
  \<open>EINVAL\<close> but hit \<open>UNREACHABLE()\<close>.\<close>

lemma create_reachable:
  "sceKernelCreateEventFlag has_ef pName attr pat has_opt = Some (Inr s) \<Longrightarrow> evf_reachable s \<and> ef_bits s = pat \<and> ef_waiters s = []"
  by (auto simp: sceKernelCreateEventFlag_def EventFlagInternal_init_def [symmetric] intro: reach_init
      split: option.splits if_splits bind_splits) (simp_all add: EventFlagInternal_init_def)

lemma create_unreachable: "sceKernelCreateEventFlag True (Some name) 3 pat False = None \<longleftrightarrow> length name < 32"
  by (simp add: sceKernelCreateEventFlag_def queue_mode_of_def)

section \<open>A sample run\<close>

definition sample_flag :: EventFlagInternal where
  "sample_flag = EventFlagInternal_init ''ef'' ThreadMulti QueueThreadPrio 0"

definition sample_waiting :: EventFlagInternal where
  "sample_waiting = fst (evf_Wait_enter 1 700 1 WaitAnd ClearBits False sample_flag)"

lemma sample_waiting_waiters: "ef_waiters sample_waiting = [\<lparr>w_thread = 1, w_timed = False, w_bits = 1, w_wait_mode = WaitAnd,
    w_clear_mode = ClearBits, w_result = 0, w_ready = False, w_canceled = False, w_deleted = False, w_timed_out = False,
    w_priority = 700\<rparr>]"
  and sample_waiting_state: "ef_bits sample_waiting = 0" "\<not> ef_deleted sample_waiting"
  by (simp_all add: sample_waiting_def sample_flag_def EventFlagInternal_init_def evf_Wait_enter_def ConditionMet_def
      evf_AddWaiter_def Let_def)

lemma sample_waiting_reachable: "evf_reachable sample_waiting"
proof -
  have "evf_step sample_flag (CallWait 1 700 1 WaitAnd ClearBits False) sample_waiting
      (Some (snd (evf_Wait_enter 1 700 1 WaitAnd ClearBits False sample_flag)))"
    unfolding sample_waiting_def
    by (rule step_wait) (simp_all add: sample_flag_def EventFlagInternal_init_def evf_alive_def)
  then show ?thesis using reach_init reach_step unfolding sample_flag_def by blast
qed

lemma sample_set_reachable: "evf_reachable (evf_Set 1 sample_waiting)"
  using sample_waiting_reachable sample_waiting_state by (blast intro: reach_step step_set [unfolded evf_alive_def])

lemma sample_set_state: "ef_bits (evf_Set 1 sample_waiting) = 0"
  "ef_waiters (evf_Set 1 sample_waiting) = [\<lparr>w_thread = 1, w_timed = False, w_bits = 1, w_wait_mode = WaitAnd,
    w_clear_mode = ClearBits, w_result = 1, w_ready = True, w_canceled = False, w_deleted = False, w_timed_out = False,
    w_priority = 700\<rparr>]"
  by (simp_all add: evf_Set_def sample_waiting_waiters sample_waiting_state ConditionMet_def ApplyClear_def)

text \<open>A second \<open>Set\<close> before the woken thread runs is consumed by the same waiter once more: the
  event is lost.\<close>

lemma set_twice_loses_event: "evf_Set 1 (evf_Set 1 sample_waiting) = evf_Set 1 sample_waiting"
proof -
  have "evf_Set 1 s = s" if "ef_bits s = 0" "ef_waiters s = ef_waiters (evf_Set 1 sample_waiting)" for s
    using that unfolding sample_set_state(2) by (simp add: evf_Set_def ConditionMet_def ApplyClear_def)
  then show ?thesis using sample_set_state(1) by blast
qed

section \<open>Properties\<close>



text \<open>A wait returns ORBIS_OK only with a pattern that meets the condition of the call: the pattern
  at the call if it returns at once, and otherwise the pattern that some Set produced for it.\<close>

theorem evf_wait_ok_pattern:
  assumes "evf_reachable s" and "evf_step s c s' (Some (WaitReturns ORBIS_OK p))"
  shows "\<exists>pat w. p = Some pat \<and> ConditionMet pat w \<and>
    (case c of CallWait t prio bits wm cm timed \<Rightarrow> w_bits w = bits \<and> w_wait_mode w = wm \<and> pat = ef_bits s
     | WakeUp t \<Rightarrow> w \<in> set (ef_waiters s) \<and> w_thread w = t
     | _ \<Rightarrow> False)"
  using assms(2)
proof (cases rule: evf_step.cases)
  case (step_wait t prio bits wm cm timed)
  then show ?thesis by (fastforce simp: evf_Wait_enter_def Let_def split: if_splits)
next
  case (step_wake w)
  then have ok: "waiter_ok (ef_bits s) w" using evf_reachable_ok [OF assms(1)] by (simp add: evf_inv_def)
  moreover have "p = Some (w_result w)" "\<not> w_canceled w" "\<not> w_deleted w"
    using step_wake by (auto simp: evf_Wait_resume_def Let_def split: if_splits)
  ultimately show ?thesis using step_wake by (auto simp: waiter_ok_def waiter_wake_def)
qed (auto simp: evf_Wait_timeout_def Let_def)

theorem evf_wait_ok_pattern_witness:
  "\<exists>s' p w. evf_step (evf_Set 1 sample_waiting) (WakeUp 1) s' (Some (WaitReturns ORBIS_OK p)) \<and>
     (\<exists>pat. p = Some pat \<and> ConditionMet pat w)"
proof -
  have "evf_step (evf_Set 1 sample_waiting) (WakeUp (w_thread (hd (ef_waiters (evf_Set 1 sample_waiting)))))
      (evf_RemoveWaiter 1 (evf_Set 1 sample_waiting)) (Some (WaitReturns ORBIS_OK (Some 1)))"
    by (rule step_wake) (simp_all add: sample_set_state waiter_wake_def evf_Wait_resume_def)
  then have st: "evf_step (evf_Set 1 sample_waiting) (WakeUp 1)
      (evf_RemoveWaiter 1 (evf_Set 1 sample_waiting)) (Some (WaitReturns ORBIS_OK (Some 1)))"
    by (simp add: sample_set_state)
  show ?thesis using evf_wait_ok_pattern [OF sample_set_reachable st] st by blast
qed

text \<open>Set leaves a part of the old pattern with the new bits, keeps the queue, and treats each
  waiter in one of two ways: it is untouched and its condition does not hold for the pattern that is left,
  or it is ready with a result that meets its condition.  Where no waiter clears bits, the pattern keeps all bits
  and exactly the waiters whose condition it meets become ready, with the whole pattern as result.\<close>

theorem evf_set_exact:
  "let s' = evf_Set bits s; b = ef_bits s OR bits in
     (\<exists>m. ef_bits s' = b AND m) \<and> list_all2 (set_waiter (ef_bits s')) (ef_waiters s) (ef_waiters s') \<and>
     (if list_all (\<lambda>w. w_clear_mode w = ClearNone) (ef_waiters s)
      then ef_bits s' = b \<and>
        ef_waiters s' = map (\<lambda>w. if ConditionMet b w then w\<lparr>w_result := b, w_ready := True\<rparr> else w) (ef_waiters s)
      else True)"
proof -
  obtain b' ws where b: "set_loop (ef_bits s OR bits) (ef_waiters s) = (b', ws)" by fastforce
  then show ?thesis
    using set_loop_result [OF b] set_loop_no_clear [of "ef_waiters s" "ef_bits s OR bits"]
    by (auto simp: evf_Set_def Let_def)
qed

text \<open>C36: Once deletion has begun no step adds a waiter or takes the deletion back, and every waiter can
  return, with ECANCELED or EACCES, which shortens the queue by one: the destructor's wait for an
  empty queue ends.\<close>

theorem evf_delete_drains:
  assumes "evf_reachable s" and "ef_deleted s"
  shows "(\<forall>c s' out. evf_step s c s' out \<longrightarrow> ef_deleted s' \<and> length (ef_waiters s') \<le> length (ef_waiters s)) \<and>
    (\<forall>w\<in>set (ef_waiters s). \<exists>s' r p. evf_step s (WakeUp (w_thread w)) s' (Some (WaitReturns r p)) \<and>
       r \<in> {ORBIS_KERNEL_ERROR_ECANCELED, ORBIS_KERNEL_ERROR_EACCES} \<and>
       Suc (length (ef_waiters s')) = length (ef_waiters s))"
proof (intro conjI allI impI ballI)
  fix w assume w: "w \<in> set (ef_waiters s)"
  have inv: "distinct (map w_thread (ef_waiters s))" "w_deleted w"
    using evf_reachable_ok [OF assms(1)] w assms(2) by (auto simp: evf_inv_def)
  let ?r = "if w_canceled w then ORBIS_KERNEL_ERROR_ECANCELED else ORBIS_KERNEL_ERROR_EACCES"
  have "evf_step s (WakeUp (w_thread w)) (evf_RemoveWaiter (w_thread w) s) (Some (WaitReturns ?r (Some (w_result w))))"
    by (rule step_wake [OF w]) (simp_all add: inv(2) waiter_wake_def evf_Wait_resume_def)
  moreover have "Suc (length (ef_waiters (evf_RemoveWaiter (w_thread w) s))) = length (ef_waiters s)"
    using remove_waiter_length [OF inv(1) w] by (simp add: evf_RemoveWaiter_def)
  ultimately show "\<exists>s' r p. evf_step s (WakeUp (w_thread w)) s' (Some (WaitReturns r p)) \<and>
      r \<in> {ORBIS_KERNEL_ERROR_ECANCELED, ORBIS_KERNEL_ERROR_EACCES} \<and> Suc (length (ef_waiters s')) = length (ef_waiters s)"
    by (intro exI conjI; assumption?) (auto split: if_splits)
qed (use evf_step_deleted assms(2) in auto)

theorem evf_delete_drains_witness:
  "\<exists>s' r p. evf_step (evf_destroy sample_waiting) (WakeUp 1) s' (Some (WaitReturns r p)) \<and>
     Suc (length (ef_waiters s')) = length (ef_waiters (evf_destroy sample_waiting))"
proof -
  have r: "evf_reachable (evf_destroy sample_waiting)"
    using sample_waiting_reachable sample_waiting_state(2) by (blast intro: reach_step step_delete)
  have d: "ef_deleted (evf_destroy sample_waiting)" by (simp add: evf_destroy_def)
  have w: "hd (ef_waiters (evf_destroy sample_waiting)) \<in> set (ef_waiters (evf_destroy sample_waiting))"
    "w_thread (hd (ef_waiters (evf_destroy sample_waiting))) = 1"
    by (simp_all add: evf_destroy_def sample_waiting_waiters)
  show ?thesis using evf_delete_drains [OF r d] w by metis
qed

end
