(* ===== verification/Slot_Vector.thy ===== *)
theory Slot_Vector
  imports Prelude
begin

text \<open>
  \<open>Common::SlotVector\<close> of \<^verbatim>\<open>src/src/common/slot_vector.h\<close>: a growing array whose free slots are kept in a
  stack and whose occupied slots are marked in a bit set of 64-bit words.  An entry of \<open>values\<close> is
  \<open>None\<close> while no object lives in it.  A read of a word outside the bit set is the value \<open>None\<close> of the result.
  Indices are natural numbers: the \<open>u32\<close> of the source does not wrap while the capacity stays
  below 2^32.  The locale \<open>slot_pool\<close> is what the clients rely on.
\<close>

record 'a SlotVector =
  sv_values :: "'a option list"
  sv_capacity :: nat
  sv_bitset :: "64 word list"
  sv_free_list :: "nat list"

definition word_SetBit :: "nat \<Rightarrow> 64 word list \<Rightarrow> 64 word list" where
  "word_SetBit index bs = bs[index div 64 := bs ! (index div 64) OR push_bit (index mod 64) 1]"

definition word_ResetBit :: "nat \<Rightarrow> 64 word list \<Rightarrow> 64 word list" where
  "word_ResetBit index bs = bs[index div 64 := bs ! (index div 64) AND NOT (push_bit (index mod 64) 1)]"

definition word_ReadBit :: "nat \<Rightarrow> 64 word list \<Rightarrow> bool" where
  "word_ReadBit index bs \<longleftrightarrow> drop_bit (index mod 64) (bs ! (index div 64)) AND 1 \<noteq> 0"

definition SetStorageBit :: "nat \<Rightarrow> 'a SlotVector \<Rightarrow> 'a SlotVector" where
  "SetStorageBit index v = v\<lparr>sv_bitset := word_SetBit index (sv_bitset v)\<rparr>"

definition ResetStorageBit :: "nat \<Rightarrow> 'a SlotVector \<Rightarrow> 'a SlotVector" where
  "ResetStorageBit index v = v\<lparr>sv_bitset := word_ResetBit index (sv_bitset v)\<rparr>"

definition ReadStorageBit :: "nat \<Rightarrow> 'a SlotVector \<Rightarrow> bool option" where
  "ReadStorageBit index v =
    (if index div 64 < length (sv_bitset v) then Some (word_ReadBit index (sv_bitset v)) else None)"

text \<open>The loops over the bits of all words move the living objects; the new indices go onto the free
  stack with the lowest on top.\<close>

definition Reserve :: "nat \<Rightarrow> 'a SlotVector \<Rightarrow> 'a SlotVector" where
  "Reserve new_capacity v =
    v\<lparr>sv_values := fold (\<lambda>i new_values. if word_ReadBit i (sv_bitset v) then new_values[i := sv_values v ! i] else new_values)
        [0..<64 * length (sv_bitset v)] (replicate new_capacity None),
      sv_bitset := take ((new_capacity + 63) div 64) (sv_bitset v) @
        replicate ((new_capacity + 63) div 64 - length (sv_bitset v)) 0,
      sv_free_list := sv_free_list v @ rev [sv_capacity v..<new_capacity],
      sv_capacity := new_capacity\<rparr>"

definition SlotVector_init :: "'a SlotVector" where
  "SlotVector_init = Reserve 2048 \<lparr>sv_values = [], sv_capacity = 0, sv_bitset = [], sv_free_list = []\<rparr>"

definition FreeValueIndex :: "'a SlotVector \<Rightarrow> 'a SlotVector \<times> nat" where
  "FreeValueIndex v =
    (let v = (if sv_free_list v = [] then Reserve (if sv_capacity v \<noteq> 0 then 2 * sv_capacity v else 1) v else v)
     in (v\<lparr>sv_free_list := butlast (sv_free_list v)\<rparr>, last (sv_free_list v)))"

definition sv_insert :: "'a \<Rightarrow> 'a SlotVector \<Rightarrow> 'a SlotVector \<times> nat" where
  "sv_insert x v =
    (let (v, index) = FreeValueIndex v
     in (SetStorageBit index (v\<lparr>sv_values := (sv_values v)[index := Some x]\<rparr>), index))"

definition sv_erase :: "nat \<Rightarrow> 'a SlotVector \<Rightarrow> 'a SlotVector" where
  "sv_erase index v =
    ResetStorageBit index (v\<lparr>sv_values := (sv_values v)[index := None], sv_free_list := sv_free_list v @ [index]\<rparr>)"

definition sv_is_allocated :: "nat \<Rightarrow> 'a SlotVector \<Rightarrow> bool option" where
  "sv_is_allocated index v = ReadStorageBit index v"

text \<open>\<open>operator[]\<close>: the object in the slot.\<close>

definition sv_at :: "'a SlotVector \<Rightarrow> nat \<Rightarrow> 'a option" where
  "sv_at v index = (if index < length (sv_values v) then sv_values v ! index else None)"

definition sv_update :: "nat \<Rightarrow> 'a \<Rightarrow> 'a SlotVector \<Rightarrow> 'a SlotVector" where
  "sv_update index x v = v\<lparr>sv_values := (sv_values v)[index := Some x]\<rparr>"

definition sv_size :: "'a SlotVector \<Rightarrow> nat" where
  "sv_size v = sv_capacity v - length (sv_free_list v)"

section \<open>Bits\<close>

lemma word_ReadBit_bit: "word_ReadBit i bs = bit (bs ! (i div 64)) (i mod 64)"
  by (simp add: word_ReadBit_def bit_iff_odd_drop_bit and_one_eq odd_iff_mod_2_eq_one)

lemma div_mod_inj: "i div 64 = j div 64 \<Longrightarrow> i mod 64 = j mod 64 \<Longrightarrow> i = (j::nat)"
  by (metis div_mult_mod_eq)

lemma word_ReadBit_Set:
  assumes "i div 64 < length bs"
  shows "word_ReadBit j (word_SetBit i bs) = (j = i \<or> word_ReadBit j bs)"
proof (cases "j div 64 = i div 64")
  case True
  have "j mod 64 < 64" by simp
  then show ?thesis using True assms div_mod_inj [of j i]
    by (auto simp: word_ReadBit_bit word_SetBit_def bit_simps)
qed (auto simp: word_ReadBit_bit word_SetBit_def)

lemma word_ReadBit_Reset:
  assumes "i div 64 < length bs"
  shows "word_ReadBit j (word_ResetBit i bs) = (j \<noteq> i \<and> word_ReadBit j bs)"
proof (cases "j div 64 = i div 64")
  case True
  have "j mod 64 < 64" by simp
  then show ?thesis using True assms div_mod_inj [of j i]
    by (auto simp: word_ReadBit_bit word_ResetBit_def bit_simps)
qed (auto simp: word_ReadBit_bit word_ResetBit_def)


section \<open>The invariant\<close>

definition sv_inv :: "'a SlotVector \<Rightarrow> bool" where
  "sv_inv v \<longleftrightarrow> 0 < sv_capacity v \<and> 64 dvd sv_capacity v \<and> length (sv_values v) = sv_capacity v \<and>
    64 * length (sv_bitset v) = sv_capacity v \<and> distinct (sv_free_list v) \<and>
    set (sv_free_list v) = {i. i < sv_capacity v \<and> \<not> word_ReadBit i (sv_bitset v)} \<and>
    (\<forall>i < sv_capacity v. (sv_values v ! i \<noteq> None) = word_ReadBit i (sv_bitset v))"

lemma fold_move_length: "length (fold (\<lambda>i new. if P i then new[i := f i] else new) is ns) = length ns"
  by (induction "is" arbitrary: ns) auto

lemma fold_move_nth:
  "distinct is \<Longrightarrow> j < length ns \<Longrightarrow>
     fold (\<lambda>i new. if P i then new[i := f i] else new) is ns ! j = (if j \<in> set is \<and> P j then f j else ns ! j)"
  by (induction "is" arbitrary: ns) (auto, metis nth_list_update_neq)

lemma resize_words:
  assumes "64 dvd c" "64 * length bs \<le> c"
  shows "take ((c + 63) div 64) bs @ replicate ((c + 63) div 64 - length bs) 0 = bs @ replicate (c div 64 - length bs) (0::64 word)"
proof -
  obtain k where "c = 64 * k" using assms(1) by (rule dvdE)
  then have "(c + 63) div 64 = c div 64" by simp
  moreover have "length bs \<le> c div 64" using assms(2) by linarith
  ultimately show ?thesis by simp
qed

lemma word_ReadBit_append:
  "word_ReadBit i (bs @ replicate n 0) = (i < 64 * length bs \<and> word_ReadBit i bs)" if "i < 64 * (length bs + n)"
proof (cases "i < 64 * length bs")
  case True
  then have "i div 64 < length bs" by linarith
  then show ?thesis using True by (simp add: word_ReadBit_bit nth_append)
next
  case False
  then have "\<not> i div 64 < length bs" by linarith
  moreover have "i div 64 < length bs + n" using that by (simp add: less_mult_imp_div_less mult.commute)
  ultimately have "\<not> i div 64 < length bs" "i div 64 - length bs < n" by linarith+
  then show ?thesis using False by (simp add: word_ReadBit_bit nth_append)
qed

lemma Reserve_inv:
  assumes "sv_inv v \<or> v = \<lparr>sv_values = [], sv_capacity = 0, sv_bitset = [], sv_free_list = []\<rparr>"
    and "64 dvd c" "sv_capacity v \<le> c" "0 < c" "sv_free_list v = []"
  shows "sv_inv (Reserve c v)" "sv_at (Reserve c v) = sv_at v" "sv_capacity v < c \<Longrightarrow> sv_free_list (Reserve c v) \<noteq> []"
proof -
  have len: "64 * length (sv_bitset v) = sv_capacity v" "length (sv_values v) = sv_capacity v"
    and full: "i < sv_capacity v \<Longrightarrow> word_ReadBit i (sv_bitset v)" and val: "i < sv_capacity v \<Longrightarrow> sv_values v ! i \<noteq> None" for i
    using assms(1,5) by (auto simp: sv_inv_def)
  have bs: "sv_bitset (Reserve c v) = sv_bitset v @ replicate (c div 64 - length (sv_bitset v)) 0"
    using resize_words [OF assms(2), of "sv_bitset v"] assms(3) len(1) by (simp add: Reserve_def)
  have words: "64 * (length (sv_bitset v) + (c div 64 - length (sv_bitset v))) = c"
    using assms(2,3) len(1) by auto
  have bit: "word_ReadBit i (sv_bitset (Reserve c v)) = (i < sv_capacity v)" if "i < c" for i
    using word_ReadBit_append [of i "sv_bitset v" "c div 64 - length (sv_bitset v)"] that words full len(1)
    unfolding bs by auto
  have vals: "sv_values (Reserve c v) ! i = (if i < sv_capacity v then sv_values v ! i else None)" if "i < c" for i
    using that fold_move_nth [of "[0..<64 * length (sv_bitset v)]" i "replicate c None"
        "\<lambda>i. word_ReadBit i (sv_bitset v)" "\<lambda>i. sv_values v ! i"] full
    by (auto simp: Reserve_def len(1))
  have flds: "length (sv_values (Reserve c v)) = c" "sv_capacity (Reserve c v) = c"
    "sv_free_list (Reserve c v) = rev [sv_capacity v..<c]"
    using assms(5) by (simp_all add: Reserve_def fold_move_length)
  show "sv_inv (Reserve c v)"
    using assms(2,4) words flds bit vals val by (auto simp: sv_inv_def bs)
  show "sv_at (Reserve c v) = sv_at v"
    using assms(3) vals flds(1) len(2) by (auto simp: sv_at_def fun_eq_iff)
  show "sv_capacity v < c \<Longrightarrow> sv_free_list (Reserve c v) \<noteq> []" using flds(3) by simp
qed

lemma SlotVector_init_inv: "sv_inv (SlotVector_init :: 'a SlotVector)"
  and SlotVector_init_at: "sv_at (SlotVector_init :: 'a SlotVector) = (\<lambda>_. None)"
  using Reserve_inv(1,2) [of "\<lparr>sv_values = [], sv_capacity = 0, sv_bitset = [], sv_free_list = []\<rparr> :: 'a SlotVector" 2048]
  by (auto simp: SlotVector_init_def sv_at_def fun_eq_iff)

lemma FreeValueIndex_result:
  assumes "sv_inv v"
  obtains v' where "sv_inv v'" "sv_at v' = sv_at v" "sv_free_list v' \<noteq> []"
    "FreeValueIndex v = (v'\<lparr>sv_free_list := butlast (sv_free_list v')\<rparr>, last (sv_free_list v'))"
proof (cases "sv_free_list v = []")
  case True
  have c: "0 < sv_capacity v" "64 dvd sv_capacity v" using assms by (auto simp: sv_inv_def)
  then have "64 dvd 2 * sv_capacity v" "sv_capacity v \<le> 2 * sv_capacity v" "0 < 2 * sv_capacity v" "sv_capacity v < 2 * sv_capacity v"
    by auto
  note r = Reserve_inv [OF disjI1 [OF assms] this(1-3) True] and lt = this(4)
  show ?thesis
    by (rule that [OF r(1,2) r(3) [OF lt]]) (use c True in \<open>simp add: FreeValueIndex_def Let_def\<close>)
next
  case False
  then show ?thesis using that [OF assms] by (simp add: FreeValueIndex_def)
qed


section \<open>The contract\<close>

lemma last_butlast_set:
  assumes "xs \<noteq> []" "distinct xs"
  shows "set (butlast xs) = set xs - {last xs}"
proof -
  have "distinct (butlast xs @ [last xs])" "set (butlast xs @ [last xs]) = set xs" using assms by simp_all
  then show ?thesis by auto
qed

lemma sv_insert_result:
  assumes "sv_inv v" "sv_insert x v = (v', i)"
  shows "sv_inv v' \<and> sv_at v i = None \<and> sv_at v' = (sv_at v)(i \<mapsto> x)"
proof -
  obtain u where u: "sv_inv u" "sv_at u = sv_at v" "sv_free_list u \<noteq> []"
    "FreeValueIndex v = (u\<lparr>sv_free_list := butlast (sv_free_list u)\<rparr>, last (sv_free_list u))"
    by (rule FreeValueIndex_result [OF assms(1)]) (rule that; assumption)
  have i: "i = last (sv_free_list u)" and v': "v' = u\<lparr>sv_free_list := butlast (sv_free_list u),
      sv_values := (sv_values u)[i := Some x], sv_bitset := word_SetBit i (sv_bitset u)\<rparr>"
    using assms(2) u(4) by (auto simp: sv_insert_def SetStorageBit_def Let_def)
  have "i \<in> set (sv_free_list u)" using i u(3) by simp
  then have cap: "i < sv_capacity u" "\<not> word_ReadBit i (sv_bitset u)" "i div 64 < length (sv_bitset u)"
    using u(1) by (auto simp: sv_inv_def)
  have "length (word_SetBit i (sv_bitset u)) = length (sv_bitset u)" by (simp add: word_SetBit_def)
  moreover have "set (butlast (sv_free_list u)) = set (sv_free_list u) - {i}" "distinct (butlast (sv_free_list u))"
    using u(1,3) i last_butlast_set by (auto simp: sv_inv_def distinct_butlast)
  ultimately have "sv_inv v'"
    using u(1) cap word_ReadBit_Set [OF cap(3)] unfolding v' sv_inv_def by (auto simp: nth_list_update)
  moreover have "sv_at u i = None" "sv_at v' = (sv_at u)(i \<mapsto> x)"
    using u(1) cap unfolding v' by (auto simp: sv_inv_def sv_at_def fun_eq_iff nth_list_update)
  ultimately show ?thesis using u(2) by simp
qed

lemma sv_erase_result:
  assumes "sv_inv v" "sv_at v i = Some x"
  shows "sv_inv (sv_erase i v) \<and> sv_at (sv_erase i v) = (sv_at v)(i := None)"
proof -
  have cap: "i < sv_capacity v" "word_ReadBit i (sv_bitset v)" "i div 64 < length (sv_bitset v)"
    using assms by (auto simp: sv_inv_def sv_at_def split: if_splits)
  have "length (word_ResetBit i (sv_bitset v)) = length (sv_bitset v)" by (simp add: word_ResetBit_def)
  then show ?thesis
    using assms(1) cap word_ReadBit_Reset [OF cap(3)]
    by (auto simp: sv_inv_def sv_erase_def ResetStorageBit_def sv_at_def fun_eq_iff nth_list_update)
qed

lemma sv_update_result:
  assumes "sv_inv v" "sv_at v i = Some y"
  shows "sv_inv (sv_update i x v) \<and> sv_at (sv_update i x v) = (sv_at v)(i \<mapsto> x)"
  using assms by (auto simp: sv_inv_def sv_update_def sv_at_def fun_eq_iff nth_list_update split: if_splits)

text \<open>\<open>is_allocated\<close> answers correctly inside the capacity and reads outside the bit set beyond it.\<close>

lemma sv_is_allocated_result:
  assumes "sv_inv v"
  shows "sv_is_allocated i v = (if i < sv_capacity v then Some (sv_at v i \<noteq> None) else None)"
  using assms by (auto simp: sv_inv_def sv_is_allocated_def ReadStorageBit_def sv_at_def)

locale slot_pool =
  fixes inv :: "'s \<Rightarrow> bool" and look :: "'s \<Rightarrow> nat \<Rightarrow> 'a option"
    and add :: "'a \<Rightarrow> 's \<Rightarrow> 's \<times> nat" and del :: "nat \<Rightarrow> 's \<Rightarrow> 's" and upd :: "nat \<Rightarrow> 'a \<Rightarrow> 's \<Rightarrow> 's"
  assumes add_law: "inv s \<Longrightarrow> add x s = (s', i) \<Longrightarrow> inv s' \<and> look s i = None \<and> look s' = (look s)(i \<mapsto> x)"
    and del_law: "inv s \<Longrightarrow> look s i = Some x \<Longrightarrow> inv (del i s) \<and> look (del i s) = (look s)(i := None)"
    and upd_law: "inv s \<Longrightarrow> look s i = Some y \<Longrightarrow> inv (upd i x s) \<and> look (upd i x s) = (look s)(i \<mapsto> x)"
begin

lemma add_fresh: "inv s \<Longrightarrow> add x s = (s', i) \<Longrightarrow> look s j = Some y \<Longrightarrow> j \<noteq> i \<and> look s' j = Some y"
  using add_law by fastforce

lemma add_twice:
  assumes "inv s" "add x s = (s1, i)" "add y s1 = (s2, j)"
  shows "i \<noteq> j \<and> look s2 = (look s)(i \<mapsto> x, j \<mapsto> y)"
  using add_law [OF assms(1,2)] add_law [OF _ assms(3)] by auto

lemma add_del: "inv s \<Longrightarrow> add x s = (s', i) \<Longrightarrow> inv (del i s') \<and> look (del i s') = look s"
  using add_law del_law [of s' i x] by (auto simp: fun_eq_iff)

end

interpretation slots: slot_pool sv_inv sv_at sv_insert sv_erase sv_update
  by unfold_locales (rule sv_insert_result sv_erase_result sv_update_result; assumption)+

end
