(* ===== verification/Kernel_Semaphore.thy ===== *)
theory Kernel_Semaphore
  imports Wait_Queue Slot_Vector Kernel_Error
begin

text \<open>
  The kernel semaphores of \<^verbatim>\<open>src/src/core/libraries/kernel/threads/semaphore.cpp\<close>: \<open>OrbisSem\<close>, its waiting
  threads, and the guest functions on the table \<open>orbis_sems\<close>.  Every member function runs under the
  mutex of the semaphore; \<open>Wait\<close> gives it up while it waits for its own binary semaphore and is split
  there.  Counts are \<open>s32\<close>: the addition in \<open>Signal\<close> is undefined when it overflows (\<open>None\<close>), the
  subtractions work on a \<open>std::atomic\<close> and wrap.  A waiting thread that was taken from the wait list and
  has not run yet is kept in the list of woken threads of the system state.
\<close>

section \<open>Signed 32-bit counts\<close>

definition in_s32 :: "int \<Rightarrow> bool" where
  "in_s32 x \<longleftrightarrow> -2147483648 \<le> x \<and> x \<le> 2147483647"

definition wrap_s32 :: "int \<Rightarrow> int" where
  "wrap_s32 x = (x + 2147483648) mod 4294967296 - 2147483648"

lemma wrap_s32_exact: "in_s32 x \<Longrightarrow> wrap_s32 x = x"
  by (simp add: in_s32_def wrap_s32_def)

definition add_s32 :: "int \<Rightarrow> int \<Rightarrow> int option" where
  "add_s32 a b = (if in_s32 (a + b) then Some (a + b) else None)"

section \<open>The semaphore\<close>

type_synonym thread = nat

record WaitingThread =
  wt_thread :: thread
  wt_timed :: bool
  wt_priority :: u32
  wt_need_count :: int
  wt_was_signaled :: bool
  wt_was_deleted :: bool
  wt_was_canceled :: bool

record OrbisSem =
  os_name :: string
  os_token_count :: int
  os_max_count :: int
  os_init_count :: int
  os_is_fifo :: bool
  os_wait_list :: "WaitingThread list"

definition OrbisSem_init :: "int \<Rightarrow> int \<Rightarrow> string \<Rightarrow> bool \<Rightarrow> OrbisSem" where
  "OrbisSem_init init_count max_count name is_fifo =
    \<lparr>os_name = name, os_token_count = init_count, os_max_count = max_count, os_init_count = init_count,
     os_is_fifo = is_fifo, os_wait_list = []\<rparr>"

definition WaitingThread_init :: "thread \<Rightarrow> bool \<Rightarrow> u32 \<Rightarrow> int \<Rightarrow> bool \<Rightarrow> WaitingThread" where
  "WaitingThread_init t timed prio need_count is_fifo =
    \<lparr>wt_thread = t, wt_timed = timed, wt_priority = (if \<not> is_fifo then prio else 0), wt_need_count = need_count,
     wt_was_signaled = False, wt_was_deleted = False, wt_was_canceled = False\<rparr>"

definition GetResult :: "WaitingThread \<Rightarrow> OrbisResult" where
  "GetResult w =
    (if wt_was_signaled w then ORBIS_OK
     else if wt_was_deleted w then ORBIS_KERNEL_ERROR_EACCES
     else if wt_was_canceled w then ORBIS_KERNEL_ERROR_ECANCELED
     else ORBIS_KERNEL_ERROR_ETIMEDOUT)"

text \<open>What \<open>WaitingThread::Wait\<close> leaves in \<open>*timeout\<close>, given the microseconds that passed.\<close>

definition timeout_left :: "WaitingThread \<Rightarrow> u32 \<Rightarrow> int \<Rightarrow> u32" where
  "timeout_left w timeout time = (if wt_was_signaled w then nat ((int timeout - time) mod 4294967296) else 0)"

definition sem_AddWaiter :: "WaitingThread \<Rightarrow> OrbisSem \<Rightarrow> OrbisSem" where
  "sem_AddWaiter w s =
    (if os_is_fifo s then s\<lparr>os_wait_list := os_wait_list s @ [w]\<rparr>
     else s\<lparr>os_wait_list := queue_insert (\<lambda>x. wt_priority x \<le> wt_priority w) w (os_wait_list s)\<rparr>)"

datatype SemOutcome = SemReturns OrbisResult | SemSleeps

definition sem_Wait_enter :: "thread \<Rightarrow> u32 \<Rightarrow> bool \<Rightarrow> int \<Rightarrow> u32 option \<Rightarrow> OrbisSem \<Rightarrow> OrbisSem \<times> SemOutcome" where
  "sem_Wait_enter t prio can_block need_count timeout s =
    (if os_token_count s \<ge> need_count
     then (s\<lparr>os_token_count := wrap_s32 (os_token_count s - need_count)\<rparr>, SemReturns ORBIS_OK)
     else if \<not> can_block then (s, SemReturns ORBIS_KERNEL_ERROR_EBUSY)
     else if timeout = Some 0 then (s, SemReturns ORBIS_KERNEL_ERROR_ETIMEDOUT)
     else (sem_AddWaiter (WaitingThread_init t (timeout \<noteq> None) prio need_count (os_is_fifo s)) s, SemSleeps))"

text \<open>The rest of \<open>Wait\<close> once the thread runs again: a timed out waiter leaves the list.\<close>

definition sem_Wait_finish :: "WaitingThread \<Rightarrow> OrbisSem \<Rightarrow> OrbisSem \<times> OrbisResult" where
  "sem_Wait_finish w s =
    (let result = GetResult w
     in if result = ORBIS_KERNEL_ERROR_ETIMEDOUT
        then (s\<lparr>os_wait_list := filter (\<lambda>x. wt_thread x \<noteq> wt_thread w) (os_wait_list s)\<rparr>, result)
        else (s, result))"

text \<open>The loop of \<open>Signal\<close>: tokens, waiters that stay and waiters that are released, both in order.\<close>

fun signal_loop :: "int \<Rightarrow> WaitingThread list \<Rightarrow> int \<times> WaitingThread list \<times> WaitingThread list" where
  "signal_loop tokens [] = (tokens, [], [])"
| "signal_loop tokens (w # ws) =
    (if wt_need_count w > tokens then (let (n, stay, woken) = signal_loop tokens ws in (n, w # stay, woken))
     else (let (n, stay, woken) = signal_loop (wrap_s32 (tokens - wt_need_count w)) ws
           in (n, stay, w\<lparr>wt_was_signaled := True\<rparr> # woken)))"

definition sem_Signal :: "int \<Rightarrow> OrbisSem \<Rightarrow> (OrbisSem \<times> bool \<times> WaitingThread list) option" where
  "sem_Signal signal_count s = do {
     n \<leftarrow> add_s32 (os_token_count s) signal_count;
     if n > os_max_count s then Some (s, False, [])
     else let (n, stay, woken) = signal_loop (wrap_s32 (os_token_count s + signal_count)) (os_wait_list s)
          in Some (s\<lparr>os_token_count := n, os_wait_list := stay\<rparr>, True, woken)
   }"

definition sem_Cancel :: "int \<Rightarrow> OrbisSem \<Rightarrow> OrbisSem \<times> nat \<times> WaitingThread list" where
  "sem_Cancel set_count s =
    (s\<lparr>os_wait_list := [], os_token_count := (if set_count < 0 then os_init_count s else set_count)\<rparr>,
     length (os_wait_list s), map (\<lambda>w. w\<lparr>wt_was_canceled := True\<rparr>) (os_wait_list s))"

definition sem_Delete :: "OrbisSem \<Rightarrow> OrbisSem \<times> WaitingThread list" where
  "sem_Delete s = (s\<lparr>os_wait_list := []\<rparr>, map (\<lambda>w. w\<lparr>wt_was_deleted := True\<rparr>) (os_wait_list s))"

section \<open>Guest functions\<close>

text \<open>The table \<open>orbis_sems\<close>.  A handle outside the bit set of the table is read out of bounds (\<open>None\<close>).\<close>

type_synonym sem_table = "OrbisSem SlotVector"

definition sem_lookup :: "nat \<Rightarrow> sem_table \<Rightarrow> OrbisSem option option" where
  "sem_lookup sem tab = do {
     ok \<leftarrow> sv_is_allocated sem tab;
     if ok then do { s \<leftarrow> sv_at tab sem; Some (Some s) } else Some None
   }"

definition sceKernelCreateSema ::
  "string option \<Rightarrow> u32 \<Rightarrow> int \<Rightarrow> int \<Rightarrow> sem_table \<Rightarrow> sem_table \<times> (OrbisResult + nat)" where
  "sceKernelCreateSema pName attr initCount maxCount tab =
    (case pName of
       None \<Rightarrow> (tab, Inl ORBIS_KERNEL_ERROR_EINVAL)
     | Some name \<Rightarrow>
       if attr > 2 \<or> initCount < 0 \<or> maxCount \<le> 0 \<or> initCount > maxCount then (tab, Inl ORBIS_KERNEL_ERROR_EINVAL)
       else (let (tab, sem) = sv_insert (OrbisSem_init initCount maxCount name (attr = 1)) tab in (tab, Inr sem)))"

definition sceKernelWaitSema ::
  "thread \<Rightarrow> u32 \<Rightarrow> nat \<Rightarrow> int \<Rightarrow> u32 option \<Rightarrow> sem_table \<Rightarrow> (sem_table \<times> SemOutcome) option" where
  "sceKernelWaitSema t prio sem needCount pTimeout tab = do {
     found \<leftarrow> sem_lookup sem tab;
     case found of
       None \<Rightarrow> Some (tab, SemReturns ORBIS_KERNEL_ERROR_ESRCH)
     | Some s \<Rightarrow> let (s, out) = sem_Wait_enter t prio True needCount pTimeout s in Some (sv_update sem s tab, out)
   }"

definition sceKernelSignalSema ::
  "nat \<Rightarrow> int \<Rightarrow> sem_table \<Rightarrow> (sem_table \<times> OrbisResult \<times> WaitingThread list) option" where
  "sceKernelSignalSema sem signalCount tab = do {
     found \<leftarrow> sem_lookup sem tab;
     case found of
       None \<Rightarrow> Some (tab, ORBIS_KERNEL_ERROR_ESRCH, [])
     | Some s \<Rightarrow> do {
         (s, ok, woken) \<leftarrow> sem_Signal signalCount s;
         Some (sv_update sem s tab, if \<not> ok then ORBIS_KERNEL_ERROR_EINVAL else ORBIS_OK, woken)
       }
   }"

definition sceKernelPollSema ::
  "thread \<Rightarrow> u32 \<Rightarrow> nat \<Rightarrow> int \<Rightarrow> sem_table \<Rightarrow> (sem_table \<times> SemOutcome) option" where
  "sceKernelPollSema t prio sem needCount tab = do {
     found \<leftarrow> sem_lookup sem tab;
     case found of
       None \<Rightarrow> Some (tab, SemReturns ORBIS_KERNEL_ERROR_ESRCH)
     | Some s \<Rightarrow> let (s, out) = sem_Wait_enter t prio False needCount None s in Some (sv_update sem s tab, out)
   }"

definition sceKernelCancelSema ::
  "nat \<Rightarrow> int \<Rightarrow> sem_table \<Rightarrow> (sem_table \<times> OrbisResult \<times> nat option \<times> WaitingThread list) option" where
  "sceKernelCancelSema sem setCount tab = do {
     found \<leftarrow> sem_lookup sem tab;
     case found of
       None \<Rightarrow> Some (tab, ORBIS_KERNEL_ERROR_ESRCH, None, [])
     | Some s \<Rightarrow> let (s, n, woken) = sem_Cancel setCount s in Some (sv_update sem s tab, ORBIS_OK, Some n, woken)
   }"

definition sceKernelDeleteSema :: "nat \<Rightarrow> sem_table \<Rightarrow> (sem_table \<times> OrbisResult \<times> WaitingThread list) option" where
  "sceKernelDeleteSema sem tab = do {
     found \<leftarrow> sem_lookup sem tab;
     case found of
       None \<Rightarrow> Some (tab, ORBIS_KERNEL_ERROR_ESRCH, [])
     | Some s \<Rightarrow> let (s, woken) = sem_Delete s in Some (sv_erase sem (sv_update sem s tab), ORBIS_OK, woken)
   }"

section \<open>Interleavings\<close>

record SemSystem =
  sys_sem :: OrbisSem
  sys_woken :: "WaitingThread list"

datatype SemCall = SemWait thread u32 bool int "u32 option" | SemSignal int | SemCancel int
  | SemResume thread | SemTimeOut thread

text \<open>\<open>SemResume\<close> is a released thread that runs again, \<open>SemTimeOut\<close> one whose time is over while it is
  still in the list.  A blocked thread makes no call.\<close>

inductive sem_step :: "SemSystem \<Rightarrow> SemCall \<Rightarrow> SemSystem \<Rightarrow> SemOutcome option \<Rightarrow> bool" where
  step_wait: "t \<notin> wt_thread ` set (os_wait_list (sys_sem s) @ sys_woken s) \<Longrightarrow>
     sem_Wait_enter t prio can_block need timeout (sys_sem s) = (m, out) \<Longrightarrow>
     sem_step s (SemWait t prio can_block need timeout) (s\<lparr>sys_sem := m\<rparr>) (Some out)"
| step_signal: "sem_Signal n (sys_sem s) = Some (m, ok, woken) \<Longrightarrow>
     sem_step s (SemSignal n) (s\<lparr>sys_sem := m, sys_woken := sys_woken s @ woken\<rparr>) None"
| step_cancel: "sem_Cancel n (sys_sem s) = (m, k, woken) \<Longrightarrow>
     sem_step s (SemCancel n) (s\<lparr>sys_sem := m, sys_woken := sys_woken s @ woken\<rparr>) None"
| step_resume: "w \<in> set (sys_woken s) \<Longrightarrow> sem_Wait_finish w (sys_sem s) = (m, r) \<Longrightarrow>
     sem_step s (SemResume (wt_thread w))
       (s\<lparr>sys_sem := m, sys_woken := filter (\<lambda>x. wt_thread x \<noteq> wt_thread w) (sys_woken s)\<rparr>) (Some (SemReturns r))"
| step_timeout: "w \<in> set (os_wait_list (sys_sem s)) \<Longrightarrow> wt_timed w \<Longrightarrow> sem_Wait_finish w (sys_sem s) = (m, r) \<Longrightarrow>
     sem_step s (SemTimeOut (wt_thread w)) (s\<lparr>sys_sem := m\<rparr>) (Some (SemReturns r))"

text \<open>Calls with counts that make sense for the semaphore; the guest functions do not check them.\<close>

definition call_ok :: "OrbisSem \<Rightarrow> SemCall \<Rightarrow> bool" where
  "call_ok s c = (case c of
     SemWait t prio can_block need timeout \<Rightarrow> 0 < need
   | SemSignal n \<Rightarrow> 0 \<le> n
   | SemCancel n \<Rightarrow> n \<le> os_max_count s
   | _ \<Rightarrow> True)"

inductive sem_reachable :: "SemSystem \<Rightarrow> bool" where
  reach_init: "0 \<le> i \<Longrightarrow> i \<le> m \<Longrightarrow> in_s32 m \<Longrightarrow> sem_reachable \<lparr>sys_sem = OrbisSem_init i m name fifo, sys_woken = []\<rparr>"
| reach_step: "sem_reachable s \<Longrightarrow> call_ok (sys_sem s) c \<Longrightarrow> sem_step s c s' out \<Longrightarrow> sem_reachable s'"


section \<open>The loop of Signal\<close>

text \<open>The waiters that are served, as a list of flags: \<open>granted ws bs k\<close> is what the served ones among
  the first \<open>k\<close> take.\<close>

definition granted :: "WaitingThread list \<Rightarrow> bool list \<Rightarrow> nat \<Rightarrow> int" where
  "granted ws bs k = sum_list (map (\<lambda>(w, b). if b then wt_need_count w else 0) (take k (zip ws bs)))"

definition greedy :: "int \<Rightarrow> WaitingThread list \<Rightarrow> bool list \<Rightarrow> bool" where
  "greedy tokens ws bs \<longleftrightarrow> length bs = length ws \<and>
    (\<forall>k < length ws. bs ! k \<longleftrightarrow> wt_need_count (ws ! k) \<le> tokens - granted ws bs k)"

lemma granted_Cons: "granted (w # ws) (b # bs) (Suc k) = (if b then wt_need_count w else 0) + granted ws bs k"
  by (simp add: granted_def)

lemma granted_0 [simp]: "granted ws bs 0 = 0"
  by (simp add: granted_def)

lemma greedy_Cons:
  "greedy n (w # ws) (b # bs) \<longleftrightarrow>
     b = (wt_need_count w \<le> n) \<and> greedy (n - (if b then wt_need_count w else 0)) ws bs"
  by (auto simp: greedy_def All_less_Suc2 granted_Cons algebra_simps)

definition marked :: "('w \<times> bool) list \<Rightarrow> 'w list" where
  "marked ps = map fst (filter snd ps)"

definition unmarked :: "('w \<times> bool) list \<Rightarrow> 'w list" where
  "unmarked ps = map fst (filter (\<lambda>p. \<not> snd p) ps)"

lemma marked_simps [simp]: "marked [] = []" "marked ((w, b) # ps) = (if b then w # marked ps else marked ps)"
  "unmarked [] = []" "unmarked ((w, b) # ps) = (if b then unmarked ps else w # unmarked ps)"
  by (simp_all add: marked_def unmarked_def)

lemma marked_zip_set: "set (marked (zip ws bs)) \<subseteq> set ws" "set (unmarked (zip ws bs)) \<subseteq> set ws"
  by (auto simp: marked_def unmarked_def dest: set_zip_leftD)

lemma unmarked_zip_sorted: "length bs = length ws \<Longrightarrow> sorted_wrt R ws \<Longrightarrow> sorted_wrt R (unmarked (zip ws bs))"
  by (induction bs ws rule: list_induct2) (use marked_zip_set(2) in fastforce)+

lemma signal_loop_result:
  assumes "0 \<le> n" "in_s32 n" "\<forall>w\<in>set ws. 0 < wt_need_count w"
  shows "\<exists>bs. greedy n ws bs \<and> 0 \<le> n - granted ws bs (length ws) \<and>
    signal_loop n ws = (n - granted ws bs (length ws), unmarked (zip ws bs),
      map (\<lambda>w. w\<lparr>wt_was_signaled := True\<rparr>) (marked (zip ws bs)))"
  using assms
proof (induction ws arbitrary: n)
  case Nil
  then show ?case by (intro exI [of _ "[]"]) (simp add: greedy_def)
next
  case (Cons w ws)
  let ?b = "wt_need_count w \<le> n" and ?m = "n - (if wt_need_count w \<le> n then wt_need_count w else 0)"
  have "0 \<le> ?m" "in_s32 ?m" using Cons.prems by (auto simp: in_s32_def)
  then obtain bs where bs: "greedy ?m ws bs" "0 \<le> ?m - granted ws bs (length ws)"
    "signal_loop ?m ws = (?m - granted ws bs (length ws), unmarked (zip ws bs),
      map (\<lambda>w. w\<lparr>wt_was_signaled := True\<rparr>) (marked (zip ws bs)))"
    using Cons.IH [of ?m] Cons.prems(3) by auto
  show ?case
    using bs wrap_s32_exact [OF \<open>in_s32 ?m\<close>]
    by (intro exI [of _ "?b # bs"]) (auto simp: greedy_Cons granted_Cons)
qed

lemma granted_nonneg: "\<forall>w\<in>set ws. 0 < wt_need_count w \<Longrightarrow> 0 \<le> granted ws bs k"
  by (auto simp: granted_def intro!: sum_list_nonneg dest!: in_set_takeD set_zip_leftD split: if_splits)
     (meson order_less_imp_le)

text \<open>Whoever stays needs more than what is left.\<close>

lemma greedy_stay:
  assumes "greedy n ws bs" "\<forall>w\<in>set ws. 0 < wt_need_count w" "w \<in> set (unmarked (zip ws bs))"
  shows "n - granted ws bs (length ws) < wt_need_count w"
  using assms
proof (induction ws arbitrary: n bs)
  case (Cons v ws)
  obtain b bs' where b: "bs = b # bs'" using Cons.prems(1) by (cases bs) (auto simp: greedy_def)
  have g: "b = (wt_need_count v \<le> n)" "greedy (n - (if b then wt_need_count v else 0)) ws bs'"
    using Cons.prems(1) unfolding b greedy_Cons by auto
  show ?case
  proof (cases "w = v \<and> \<not> b")
    case True
    then show ?thesis using g(1) granted_nonneg [of ws bs' "length ws"] Cons.prems(2) by (simp add: b granted_Cons)
  next
    case False
    then have "w \<in> set (unmarked (zip ws bs'))" using Cons.prems(3) by (auto simp: b split: if_splits)
    then show ?thesis using Cons.IH [OF g(2)] Cons.prems(2) by (simp add: b granted_Cons algebra_simps)
  qed
qed (simp add: greedy_def)


section \<open>The invariant\<close>

definition sem_ahead :: "bool \<Rightarrow> WaitingThread \<Rightarrow> WaitingThread \<Rightarrow> bool" where
  "sem_ahead fifo u w \<longleftrightarrow> fifo \<or> wt_priority u \<le> wt_priority w"

interpretation sema: wait_order "sem_ahead fifo" for fifo
  by unfold_locales (auto simp: sem_ahead_def)

lemma sem_AddWaiter_queue:
  "sem_AddWaiter w s = s\<lparr>os_wait_list := queue_insert (\<lambda>x. sem_ahead (os_is_fifo s) x w) w (os_wait_list s)\<rparr>"
  by (cases "os_is_fifo s") (simp_all add: sem_AddWaiter_def sem_ahead_def queue_insert_always)

definition sem_ok :: "OrbisSem \<Rightarrow> bool" where
  "sem_ok m \<longleftrightarrow> 0 \<le> os_token_count m \<and> os_token_count m \<le> os_max_count m \<and> in_s32 (os_max_count m) \<and>
    0 \<le> os_init_count m \<and> os_init_count m \<le> os_max_count m \<and>
    sorted_wrt (sem_ahead (os_is_fifo m)) (os_wait_list m) \<and>
    (\<forall>w\<in>set (os_wait_list m). os_token_count m < wt_need_count w \<and> GetResult w = ORBIS_KERNEL_ERROR_ETIMEDOUT)"

definition sem_inv :: "SemSystem \<Rightarrow> bool" where
  "sem_inv s \<longleftrightarrow> sem_ok (sys_sem s) \<and> distinct (map wt_thread (os_wait_list (sys_sem s) @ sys_woken s)) \<and>
    (\<forall>w\<in>set (sys_woken s). GetResult w \<in> {ORBIS_OK, ORBIS_KERNEL_ERROR_ECANCELED})"

lemma sem_ok_need: "sem_ok m \<Longrightarrow> w \<in> set (os_wait_list m) \<Longrightarrow> 0 < wt_need_count w"
  by (auto simp: sem_ok_def)

lemma sem_ok_token: "sem_ok m \<Longrightarrow> in_s32 (os_token_count m)"
  by (auto simp: sem_ok_def in_s32_def)

lemma WaitingThread_init_simps:
  "wt_thread (WaitingThread_init t timed prio need fifo) = t"
  "wt_need_count (WaitingThread_init t timed prio need fifo) = need"
  by (simp_all add: WaitingThread_init_def)

lemma GetResult_fresh: "GetResult (WaitingThread_init t timed prio need fifo) = ORBIS_KERNEL_ERROR_ETIMEDOUT"
  by (simp add: GetResult_def WaitingThread_init_def)

lemma GetResult_signaled: "GetResult (w\<lparr>wt_was_signaled := True\<rparr>) = ORBIS_OK"
  by (simp add: GetResult_def)

lemma GetResult_canceled:
  "GetResult w = ORBIS_KERNEL_ERROR_ETIMEDOUT \<Longrightarrow> GetResult (w\<lparr>wt_was_canceled := True\<rparr>) = ORBIS_KERNEL_ERROR_ECANCELED"
  by (simp add: GetResult_def split: if_splits)

lemma sem_Wait_enter_ok:
  assumes "sem_ok m" "0 < need" "sem_Wait_enter t prio can_block need timeout m = (m', out)"
  shows "sem_ok m' \<and>
    (os_wait_list m' = os_wait_list m \<or> (\<exists>w. wt_thread w = t \<and> m' = sem_AddWaiter w m))"
proof -
  have take: "wrap_s32 (os_token_count m - need) = os_token_count m - need"
    "sem_ok (m\<lparr>os_token_count := os_token_count m - need\<rparr>)" if "need \<le> os_token_count m"
    using wrap_s32_exact [of "os_token_count m - need"] assms(1,2) that by (auto simp: in_s32_def sem_ok_def)
  have add: "sem_ok (sem_AddWaiter w m)"
    if "os_token_count m < wt_need_count w" "GetResult w = ORBIS_KERNEL_ERROR_ETIMEDOUT" for w
    using assms(1) that sema.insert_sorted [of "os_is_fifo m" "os_wait_list m" w]
    by (auto simp: sem_ok_def sem_AddWaiter_queue)
  show ?thesis
    using assms(1,3) take add [OF _ GetResult_fresh] WaitingThread_init_simps(1) [of t _ prio need "os_is_fifo m"]
    by (auto simp: sem_Wait_enter_def WaitingThread_init_simps split: if_splits; blast)
qed

lemma sem_Signal_result:
  assumes "sem_ok m" "0 \<le> n" "in_s32 (os_token_count m + n)"
  shows "if os_token_count m + n > os_max_count m then sem_Signal n m = Some (m, False, [])
    else (\<exists>bs. greedy (os_token_count m + n) (os_wait_list m) bs \<and>
      0 \<le> os_token_count m + n - granted (os_wait_list m) bs (length (os_wait_list m)) \<and>
      sem_Signal n m = Some (m\<lparr>os_token_count := os_token_count m + n - granted (os_wait_list m) bs (length (os_wait_list m)),
          os_wait_list := unmarked (zip (os_wait_list m) bs)\<rparr>, True,
        map (\<lambda>w. w\<lparr>wt_was_signaled := True\<rparr>) (marked (zip (os_wait_list m) bs))))"
proof -
  have "0 \<le> os_token_count m + n" "\<forall>w\<in>set (os_wait_list m). 0 < wt_need_count w"
    using assms sem_ok_need by (auto simp: sem_ok_def)
  then show ?thesis
    using signal_loop_result [OF _ assms(3)] assms(3) wrap_s32_exact
    by (fastforce simp: sem_Signal_def add_s32_def)
qed

lemma marked_zip_distinct:
  "length bs = length ws \<Longrightarrow> distinct (map f ws) \<Longrightarrow> distinct (map f (unmarked (zip ws bs)) @ map f (marked (zip ws bs)))"
proof (induction bs ws rule: list_induct2)
  case (Cons b bs w ws)
  have "f w \<notin> f ` set (marked (zip ws bs))" "f w \<notin> f ` set (unmarked (zip ws bs))"
    using Cons.prems marked_zip_set by fastforce+
  then show ?case using Cons by auto
qed simp

lemma sem_Signal_ok:
  assumes "sem_ok m" "0 \<le> n" "sem_Signal n m = Some (m', ok, woken)"
  shows "sem_ok m' \<and> (\<exists>bs. length bs = length (os_wait_list m) \<and> os_wait_list m' = unmarked (zip (os_wait_list m) bs) \<and>
    woken = map (\<lambda>w. w\<lparr>wt_was_signaled := True\<rparr>) (marked (zip (os_wait_list m) bs)))"
proof -
  have s32: "in_s32 (os_token_count m + n)" using assms(3) by (auto simp: sem_Signal_def add_s32_def split: if_splits)
  note r = sem_Signal_result [OF assms(1,2) s32]
  show ?thesis
  proof (cases "os_token_count m + n > os_max_count m")
    case True
    have "unmarked (zip ws (replicate (length ws) False)) = ws \<and> marked (zip ws (replicate (length ws) False)) = []"
      for ws :: "WaitingThread list"
      by (induction ws) auto
    then show ?thesis
      using r True assms by (intro conjI exI [of _ "replicate (length (os_wait_list m)) False"]) auto
  next
    case False
    then obtain bs where bs: "greedy (os_token_count m + n) (os_wait_list m) bs"
      "0 \<le> os_token_count m + n - granted (os_wait_list m) bs (length (os_wait_list m))"
      "m' = m\<lparr>os_token_count := os_token_count m + n - granted (os_wait_list m) bs (length (os_wait_list m)),
          os_wait_list := unmarked (zip (os_wait_list m) bs)\<rparr>"
      "woken = map (\<lambda>w. w\<lparr>wt_was_signaled := True\<rparr>) (marked (zip (os_wait_list m) bs))"
      using r assms(3) by auto
    have pos: "\<forall>w\<in>set (os_wait_list m). 0 < wt_need_count w" using sem_ok_need [OF assms(1)] by blast
    have len: "length bs = length (os_wait_list m)" using bs(1) by (simp add: greedy_def)
    have "sorted_wrt (sem_ahead (os_is_fifo m)) (unmarked (zip (os_wait_list m) bs))"
      using assms(1) unmarked_zip_sorted [OF len] by (simp add: sem_ok_def)
    then have "sem_ok m'"
      using assms(1) bs(2) False granted_nonneg [OF pos, of bs "length (os_wait_list m)"] greedy_stay [OF bs(1) pos]
        marked_zip_set(2) [of "os_wait_list m" bs]
      unfolding bs(3) by (auto simp: sem_ok_def)
    then show ?thesis using bs(3,4) len by auto
  qed
qed


lemma sem_Wait_finish_ok: "sem_ok m \<Longrightarrow> sem_Wait_finish w m = (m', r) \<Longrightarrow> sem_ok m'"
  by (auto simp: sem_Wait_finish_def Let_def sem_ok_def sorted_wrt_filter split: if_splits)

lemma sem_Cancel_ok: "sem_ok m \<Longrightarrow> n \<le> os_max_count m \<Longrightarrow> sem_Cancel n m = (m', k, woken) \<Longrightarrow> sem_ok m'"
  by (auto simp: sem_Cancel_def sem_ok_def)

lemma sem_Wait_finish_list: "sem_Wait_finish w m = (m', r) \<Longrightarrow> \<exists>P. os_wait_list m' = filter P (os_wait_list m)"
  by (auto simp: sem_Wait_finish_def Let_def intro: exI [of _ "\<lambda>_. True"] split: if_splits)

lemma distinct_drop_waiters:
  "distinct (map wt_thread (us @ vs)) \<Longrightarrow> distinct (map wt_thread (filter P us @ filter Q vs))"
  by (auto simp: distinct_map_filter)

lemma sem_step_inv:
  assumes "sem_step s c s' out" "call_ok (sys_sem s) c" "sem_inv s"
  shows "sem_inv s'"
  using assms(1)
proof cases
  case (step_wait t prio can_block need timeout m out)
  have ok: "sem_ok (sys_sem s)" and need: "0 < need" using assms(2,3) step_wait by (simp_all add: sem_inv_def call_ok_def)
  from sem_Wait_enter_ok [OF ok need step_wait(5)] show ?thesis
    using assms(3) step_wait by (auto simp: sem_inv_def sem_AddWaiter_queue queue_insert_distinct) (metis IntI empty_iff imageI)+
next
  case (step_signal n m ok woken)
  have ok': "sem_ok (sys_sem s)" "0 \<le> n" using assms(2,3) step_signal by (simp_all add: sem_inv_def call_ok_def)
  let ?ws = "os_wait_list (sys_sem s)"
  obtain bs where bs: "sem_ok m" "length bs = length ?ws" "os_wait_list m = unmarked (zip ?ws bs)"
    "woken = map (\<lambda>w. w\<lparr>wt_was_signaled := True\<rparr>) (marked (zip ?ws bs))"
    using sem_Signal_ok [OF ok' step_signal(4)] by blast
  have "map wt_thread woken = map wt_thread (marked (zip ?ws bs))" by (simp add: bs(4))
  then have "distinct (map wt_thread (os_wait_list m @ sys_woken s @ woken))"
    using assms(3) marked_zip_distinct [OF bs(2), of wt_thread] marked_zip_set [of ?ws bs]
    by (auto simp: sem_inv_def bs(3)) (metis IntI empty_iff imageI subsetD)+
  then show ?thesis using assms(3) bs(1,4) step_signal by (auto simp: sem_inv_def GetResult_signaled)
next
  case (step_cancel n m k woken)
  let ?ws = "os_wait_list (sys_sem s)"
  have ok: "sem_ok m" using sem_Cancel_ok [OF _ _ step_cancel(4)] assms(2,3) step_cancel by (simp add: sem_inv_def call_ok_def)
  have m: "os_wait_list m = []" "woken = map (\<lambda>w. w\<lparr>wt_was_canceled := True\<rparr>) ?ws"
    using step_cancel(4) by (auto simp: sem_Cancel_def)
  have res: "\<forall>w\<in>set ?ws. GetResult w = ORBIS_KERNEL_ERROR_ETIMEDOUT" using assms(3) by (simp add: sem_inv_def sem_ok_def)
  have "map wt_thread woken = map wt_thread ?ws" unfolding m(2) by simp
  then have "distinct (map wt_thread (sys_woken s @ woken))"
    using assms(3) by (simp add: sem_inv_def Int_commute flip: set_map)
  moreover have "\<forall>w\<in>set woken. GetResult w = ORBIS_KERNEL_ERROR_ECANCELED"
    using res GetResult_canceled unfolding m(2) by auto
  ultimately show ?thesis using ok m(1) assms(3) step_cancel(2) by (auto simp: sem_inv_def)
next
  case (step_resume w m r)
  obtain P where "os_wait_list m = filter P (os_wait_list (sys_sem s))"
    using sem_Wait_finish_list [OF step_resume(5)] by blast
  then show ?thesis using assms(3) sem_Wait_finish_ok [OF _ step_resume(5)] step_resume(2)
      distinct_drop_waiters [of "os_wait_list (sys_sem s)" "sys_woken s" P "\<lambda>x. wt_thread x \<noteq> wt_thread w"]
    by (simp add: sem_inv_def)
next
  case (step_timeout w m r)
  obtain P where "os_wait_list m = filter P (os_wait_list (sys_sem s))"
    using sem_Wait_finish_list [OF step_timeout(6)] by blast
  then show ?thesis using assms(3) sem_Wait_finish_ok [OF _ step_timeout(6)] step_timeout(2)
      distinct_drop_waiters [of "os_wait_list (sys_sem s)" "sys_woken s" P "\<lambda>_. True"]
    by (simp add: sem_inv_def)
qed

lemma sem_reachable_inv: "sem_reachable s \<Longrightarrow> sem_inv s"
proof (induction rule: sem_reachable.induct)
  case (reach_init i m name fifo)
  then show ?case by (simp add: sem_inv_def sem_ok_def OrbisSem_init_def)
qed (rule sem_step_inv)


section \<open>Handles\<close>

lemma sem_lookup_result:
  assumes "sv_inv tab" "sem < sv_capacity tab"
  shows "sem_lookup sem tab = Some (sv_at tab sem)"
  using assms by (cases "sv_at tab sem") (simp_all add: sem_lookup_def sv_is_allocated_result)

lemma sv_at_capacity: "sv_inv tab \<Longrightarrow> sv_at tab i = Some x \<Longrightarrow> i < sv_capacity tab"
  by (auto simp: sv_at_def sv_inv_def split: if_splits)

lemma sceKernelDeleteSema_result:
  assumes inv: "sv_inv tab" and at: "sv_at tab h = Some s"
  shows "\<exists>tab' woken. sceKernelDeleteSema h tab = Some (tab', ORBIS_OK, woken) \<and> sv_inv tab' \<and>
    sv_at tab' = (sv_at tab)(h := None) \<and> sem_lookup h tab' = Some None"
proof -
  let ?s = "fst (sem_Delete s)"
  have upd: "sv_inv (sv_update h ?s tab)" "sv_at (sv_update h ?s tab) = (sv_at tab)(h \<mapsto> ?s)"
    using slots.upd_law [OF inv at] by auto
  then have er: "sv_inv (sv_erase h (sv_update h ?s tab))" "sv_at (sv_erase h (sv_update h ?s tab)) = (sv_at tab)(h := None)"
    using slots.del_law [of "sv_update h ?s tab" h ?s] by (auto simp: fun_eq_iff)
  have "h < sv_capacity (sv_erase h (sv_update h ?s tab))"
    using sv_at_capacity [OF inv at] by (simp add: sv_erase_def sv_update_def ResetStorageBit_def)
  then show ?thesis
    using er sem_lookup_result [OF inv sv_at_capacity [OF inv at]] sem_lookup_result [OF er(1)] at
    by (auto simp: sceKernelDeleteSema_def split: prod.splits)
qed

section \<open>A sample run\<close>

definition sample_sem :: SemSystem where
  "sample_sem = \<lparr>sys_sem = OrbisSem_init 0 4 ''s'' False, sys_woken = []\<rparr>"

definition sample_queue :: SemSystem where
  "sample_queue = sample_sem\<lparr>sys_sem := fst (sem_Wait_enter 1 700 True 2 None (sys_sem sample_sem))\<rparr>"

lemma sample_queue_reachable: "sem_reachable sample_queue"
proof -
  have r: "sem_reachable sample_sem" unfolding sample_sem_def by (rule reach_init) (simp_all add: in_s32_def)
  have "sem_step sample_sem (SemWait 1 700 True 2 None) sample_queue
      (Some (snd (sem_Wait_enter 1 700 True 2 None (sys_sem sample_sem))))"
    unfolding sample_queue_def by (rule step_wait) (simp_all add: sample_sem_def OrbisSem_init_def)
  then show ?thesis by (rule reach_step [OF r, rotated]) (simp add: call_ok_def)
qed

lemma sample_queue_sem: "sys_sem sample_queue = (OrbisSem_init 0 4 ''s'' False)\<lparr>os_wait_list := [WaitingThread_init 1 False 700 2 False]\<rparr>"
  by (simp add: sample_queue_def sample_sem_def OrbisSem_init_def sem_Wait_enter_def sem_AddWaiter_def)

text \<open>A wait for a negative count is granted and raises the count above its maximum.\<close>

lemma wait_negative_exceeds_max:
  "os_token_count (fst (sem_Wait_enter t prio True (-1) None (OrbisSem_init 4 4 name fifo))) = 5"
  by (simp add: sem_Wait_enter_def OrbisSem_init_def wrap_s32_def)

text \<open>The check of \<open>Signal\<close> itself overflows for a large count.\<close>

lemma signal_overflow: "sem_Signal 2147483647 (OrbisSem_init 1 4 name fifo) = None"
  by (simp add: sem_Signal_def OrbisSem_init_def add_s32_def in_s32_def)

section \<open>Properties\<close>



text \<open>C25: Signal of a non-negative count refuses, without any effect, when the tokens would exceed the
  maximum.  Otherwise it serves the wait list greedily in queue order: a thread is released exactly when its
  need fits into the tokens that those served before it leave; the rest stays in order, and no token is
  lost: the new count is the old one plus the signalled count less what the released threads take.\<close>

theorem sem_signal_exact:
  assumes "sem_reachable s" and "m = sys_sem s" and "ws = os_wait_list m" and "0 \<le> n" and "in_s32 (os_token_count m + n)"
  shows "if os_token_count m + n > os_max_count m then sem_Signal n m = Some (m, False, [])
    else (\<exists>bs. length bs = length ws \<and>
      (\<forall>k < length ws. bs ! k \<longleftrightarrow> wt_need_count (ws ! k) \<le> os_token_count m + n - granted ws bs k) \<and>
      0 \<le> os_token_count m + n - granted ws bs (length ws) \<and>
      sem_Signal n m = Some (m\<lparr>os_token_count := os_token_count m + n - granted ws bs (length ws),
          os_wait_list := unmarked (zip ws bs)\<rparr>, True,
        map (\<lambda>w. w\<lparr>wt_was_signaled := True\<rparr>) (marked (zip ws bs))))"
proof -
  have "sem_ok m" using sem_reachable_inv [OF assms(1)] assms(2) by (simp add: sem_inv_def)
  from sem_Signal_result [OF this assms(4,5)] show ?thesis
    unfolding greedy_def assms(3) conj_assoc .
qed

theorem sem_signal_exact_witness:
  "\<exists>bs. length bs = 1 \<and> bs ! 0 \<and>
     sem_Signal 3 (sys_sem sample_queue) = Some (sys_sem sample_queue\<lparr>os_token_count := 1, os_wait_list := []\<rparr>, True,
       map (\<lambda>w. w\<lparr>wt_was_signaled := True\<rparr>) (marked (zip (os_wait_list (sys_sem sample_queue)) bs)))"
proof -
  let ?m = "sys_sem sample_queue"
  have m: "os_token_count ?m = 0" "os_max_count ?m = 4" "os_wait_list ?m = [WaitingThread_init 1 False 700 2 False]"
    by (simp_all add: sample_queue_sem OrbisSem_init_def)
  have h: "(0::int) \<le> 3" "in_s32 (os_token_count ?m + 3)" by (simp_all add: m in_s32_def)
  obtain bs where bs: "length bs = length (os_wait_list ?m)"
    "\<forall>k < length (os_wait_list ?m). bs ! k \<longleftrightarrow>
       wt_need_count (os_wait_list ?m ! k) \<le> os_token_count ?m + 3 - granted (os_wait_list ?m) bs k"
    "sem_Signal 3 ?m = Some (?m\<lparr>os_token_count := os_token_count ?m + 3 - granted (os_wait_list ?m) bs (length (os_wait_list ?m)),
          os_wait_list := unmarked (zip (os_wait_list ?m) bs)\<rparr>, True,
        map (\<lambda>w. w\<lparr>wt_was_signaled := True\<rparr>) (marked (zip (os_wait_list ?m) bs)))"
    using sem_signal_exact [OF sample_queue_reachable refl refl h] unfolding m(1,2) by auto
  have "bs = [True]" using bs(1,2) unfolding m by (auto simp: length_Suc_conv WaitingThread_init_simps)
  then show ?thesis using bs(3) by (intro exI [of _ "[True]"]) (simp add: m granted_def WaitingThread_init_simps)
qed

text \<open>A created semaphore gets a handle that no live semaphore has; it is found under it with the
  initial count and no waiter, and every other semaphore is untouched.  Deleting it makes the handle unknown
  again, so that later calls return ESRCH, and leaves every other semaphore as it was before.\<close>

theorem sem_create_delete_roundtrip:
  assumes "sv_inv tab" and "sceKernelCreateSema (Some name) attr i m tab = (tab1, Inr h)"
  shows "sv_at tab h = None \<and> 0 \<le> i \<and> i \<le> m \<and> sv_inv tab1 \<and>
    sem_lookup h tab1 = Some (Some (OrbisSem_init i m name (attr = 1))) \<and> (\<forall>k. k \<noteq> h \<longrightarrow> sv_at tab1 k = sv_at tab k) \<and>
    (\<exists>tab2 woken. sceKernelDeleteSema h tab1 = Some (tab2, ORBIS_OK, woken) \<and> sv_inv tab2 \<and> sv_at tab2 = sv_at tab \<and>
       sceKernelPollSema t prio h need tab2 = Some (tab2, SemReturns ORBIS_KERNEL_ERROR_ESRCH))"
proof -
  let ?s = "OrbisSem_init i m name (attr = 1)"
  have ins: "sv_insert ?s tab = (tab1, h)" and cnt: "0 \<le> i" "i \<le> m"
    using assms(2) by (auto simp: sceKernelCreateSema_def split: if_splits prod.splits)
  have add: "sv_inv tab1" "sv_at tab h = None" "sv_at tab1 = (sv_at tab)(h \<mapsto> ?s)"
    using slots.add_law [OF assms(1) ins] by auto
  then have at: "sv_at tab1 h = Some ?s" by simp
  obtain tab2 woken where d: "sceKernelDeleteSema h tab1 = Some (tab2, ORBIS_OK, woken)" "sv_inv tab2"
    "sv_at tab2 = (sv_at tab1)(h := None)" "sem_lookup h tab2 = Some None"
    using sceKernelDeleteSema_result [OF add(1) at] by blast
  have "sv_at tab2 = sv_at tab" using d(3) add(2,3) by (auto simp: fun_eq_iff)
  moreover have "sceKernelPollSema t prio h need tab2 = Some (tab2, SemReturns ORBIS_KERNEL_ERROR_ESRCH)"
    using d(4) by (simp add: sceKernelPollSema_def)
  ultimately show ?thesis
    using add d(1,2) cnt sem_lookup_result [OF add(1) sv_at_capacity [OF add(1) at]] by auto
qed

theorem sem_create_delete_roundtrip_witness:
  "\<exists>tab1 h. sceKernelCreateSema (Some ''s'') 1 2 4 SlotVector_init = (tab1, Inr h) \<and>
     sem_lookup h tab1 = Some (Some (OrbisSem_init 2 4 ''s'' True))"
proof -
  obtain tab1 h where c: "sceKernelCreateSema (Some ''s'') 1 2 4 SlotVector_init = (tab1, Inr h)"
    by (cases "sv_insert (OrbisSem_init 2 4 ''s'' True) SlotVector_init") (simp add: sceKernelCreateSema_def)
  show ?thesis using sem_create_delete_roundtrip [OF SlotVector_init_inv c] c by auto
qed

end
