(* ===== verification/Posix_Semaphore.thy ===== *)
theory Posix_Semaphore
  imports Kernel_Error
begin

text \<open>
  The POSIX semaphores of \<^verbatim>\<open>src/src/core/libraries/kernel/threads/semaphore.cpp\<close>.  Their value is an
  atomic integer that threads change without a lock; \<open>wait_mutex\<close> only guards the list of waiters.  The
  functions are therefore split at every shared access into the steps of a thread with a control
  state: a compare-and-exchange loop is one step, a section under \<open>wait_mutex\<close> is one step where it
  touches only what the mutex guards, and two where \<open>PthreadSemWait\<close> reads the value inside it.
  \<open>ps_wake\<close> counts the permits of the \<open>wake_sema\<close> of each thread.  Cancellation of a waiting thread
  is not modelled: \<open>PthreadTestCancel\<close> returns.
\<close>

section \<open>State\<close>

type_synonym thread = nat

abbreviation (input) ORBIS_KERNEL_SEM_VALUE_MAX :: int where "ORBIS_KERNEL_SEM_VALUE_MAX \<equiv> 0x7FFFFFFF"

text \<open>The deadline of a wait: none, one that can pass, or an absolute time with an invalid
  nanosecond part.\<close>

datatype Deadline = Forever | Timed | BadTime

datatype SemPc = Idle | TryFirst Deadline | WantLock Deadline | TryLocked Deadline | Publish Deadline
  | Sleeping Deadline | Awake Deadline bool | TryLast Deadline bool | Posted

record PthreadSem =
  ps_value :: int
  ps_waiters :: "thread list"
  ps_lock :: "thread option"
  ps_pc :: "thread \<Rightarrow> SemPc"
  ps_wake :: "thread \<Rightarrow> nat"

definition PthreadSem_init :: "int \<Rightarrow> PthreadSem" where
  "PthreadSem_init v = \<lparr>ps_value = v, ps_waiters = [], ps_lock = None, ps_pc = (\<lambda>_. Idle), ps_wake = (\<lambda>_. 0)\<rparr>"

section \<open>Atomic pieces\<close>

definition PthreadSemTryAcquire :: "PthreadSem \<Rightarrow> PthreadSem option" where
  "PthreadSemTryAcquire s = (if ps_value s > 0 then Some (s\<lparr>ps_value := ps_value s - 1\<rparr>) else None)"

definition at_pc :: "thread \<Rightarrow> SemPc \<Rightarrow> PthreadSem \<Rightarrow> PthreadSem" where
  "at_pc t pc s = s\<lparr>ps_pc := (ps_pc s)(t := pc)\<rparr>"

text \<open>The end of the locked section of \<open>PthreadSemWait\<close>: clear old permits and join the waiters.\<close>

definition sem_publish :: "thread \<Rightarrow> PthreadSem \<Rightarrow> PthreadSem" where
  "sem_publish t s = s\<lparr>ps_wake := (ps_wake s)(t := 0), ps_waiters := ps_waiters s @ [t], ps_lock := None\<rparr>"

definition sem_unlist :: "thread \<Rightarrow> PthreadSem \<Rightarrow> PthreadSem" where
  "sem_unlist t s = s\<lparr>ps_waiters := filter (\<lambda>u. u \<noteq> t) (ps_waiters s)\<rparr>"

text \<open>The two halves of \<open>posix_sem_post\<close>.\<close>

definition sem_post_value :: "PthreadSem \<Rightarrow> PthreadSem option" where
  "sem_post_value s = (if ps_value s = ORBIS_KERNEL_SEM_VALUE_MAX then None else Some (s\<lparr>ps_value := ps_value s + 1\<rparr>))"

definition sem_wake_all :: "PthreadSem \<Rightarrow> PthreadSem" where
  "sem_wake_all s = s\<lparr>ps_wake := (\<lambda>t. if t \<in> set (ps_waiters s) then Suc (ps_wake s t) else ps_wake s t), ps_waiters := []\<rparr>"

section \<open>Steps\<close>

text \<open>A label says which thread moves and what it returns to the guest, if it does: success or an error
  number.\<close>

datatype SemEvent = SemGo | SemTaken | SemPosted | SemFails PosixErrno

inductive psem_step :: "PthreadSem \<Rightarrow> thread \<Rightarrow> SemEvent \<Rightarrow> PthreadSem \<Rightarrow> bool" where
  call_wait: "ps_pc s t = Idle \<Longrightarrow> psem_step s t SemGo (at_pc t (TryFirst d) s)"
| first_ok: "ps_pc s t = TryFirst d \<Longrightarrow> PthreadSemTryAcquire s = Some s' \<Longrightarrow> psem_step s t SemTaken (at_pc t Idle s')"
| first_bad: "ps_pc s t = TryFirst BadTime \<Longrightarrow> PthreadSemTryAcquire s = None \<Longrightarrow>
    psem_step s t (SemFails POSIX_EINVAL) (at_pc t Idle s)"
| first_fail: "ps_pc s t = TryFirst d \<Longrightarrow> d \<noteq> BadTime \<Longrightarrow> PthreadSemTryAcquire s = None \<Longrightarrow>
    psem_step s t SemGo (at_pc t (WantLock d) s)"
| take_lock: "ps_pc s t = WantLock d \<Longrightarrow> ps_lock s = None \<Longrightarrow>
    psem_step s t SemGo (at_pc t (TryLocked d) (s\<lparr>ps_lock := Some t\<rparr>))"
| locked_ok: "ps_pc s t = TryLocked d \<Longrightarrow> PthreadSemTryAcquire s = Some s' \<Longrightarrow>
    psem_step s t SemTaken (at_pc t Idle (s'\<lparr>ps_lock := None\<rparr>))"
| locked_fail: "ps_pc s t = TryLocked d \<Longrightarrow> PthreadSemTryAcquire s = None \<Longrightarrow> psem_step s t SemGo (at_pc t (Publish d) s)"
| publish: "ps_pc s t = Publish d \<Longrightarrow> psem_step s t SemGo (at_pc t (Sleeping d) (sem_publish t s))"
| woken: "ps_pc s t = Sleeping d \<Longrightarrow> ps_wake s t > 0 \<Longrightarrow>
    psem_step s t SemGo (at_pc t (Awake d True) (s\<lparr>ps_wake := (ps_wake s)(t := ps_wake s t - 1)\<rparr>))"
| timed_out: "ps_pc s t = Sleeping Timed \<Longrightarrow> psem_step s t SemGo (at_pc t (Awake Timed False) s)"
| unlist: "ps_pc s t = Awake d w \<Longrightarrow> ps_lock s = None \<Longrightarrow> psem_step s t SemGo (at_pc t (TryLast d w) (sem_unlist t s))"
| last_ok: "ps_pc s t = TryLast d w \<Longrightarrow> PthreadSemTryAcquire s = Some s' \<Longrightarrow> psem_step s t SemTaken (at_pc t Idle s')"
| last_timeout: "ps_pc s t = TryLast d False \<Longrightarrow> PthreadSemTryAcquire s = None \<Longrightarrow>
    psem_step s t (SemFails POSIX_ETIMEDOUT) (at_pc t Idle s)"
| last_again: "ps_pc s t = TryLast d True \<Longrightarrow> PthreadSemTryAcquire s = None \<Longrightarrow> psem_step s t SemGo (at_pc t (TryFirst d) s)"
| try_ok: "ps_pc s t = Idle \<Longrightarrow> PthreadSemTryAcquire s = Some s' \<Longrightarrow> psem_step s t SemTaken s'"
| try_fail: "ps_pc s t = Idle \<Longrightarrow> PthreadSemTryAcquire s = None \<Longrightarrow> psem_step s t (SemFails POSIX_EAGAIN) s"
| post_full: "ps_pc s t = Idle \<Longrightarrow> sem_post_value s = None \<Longrightarrow> psem_step s t (SemFails POSIX_EOVERFLOW) s"
| post_value: "ps_pc s t = Idle \<Longrightarrow> sem_post_value s = Some s' \<Longrightarrow> psem_step s t SemPosted (at_pc t Posted s')"
| post_wake: "ps_pc s t = Posted \<Longrightarrow> ps_lock s = None \<Longrightarrow> psem_step s t SemGo (at_pc t Idle (sem_wake_all s))"

text \<open>Runs from an initial value, with the number of posts and of successful waits so far.\<close>

inductive psem_run :: "int \<Rightarrow> nat \<Rightarrow> nat \<Rightarrow> PthreadSem \<Rightarrow> bool" for v where
  run_init: "0 \<le> v \<Longrightarrow> v \<le> ORBIS_KERNEL_SEM_VALUE_MAX \<Longrightarrow> psem_run v 0 0 (PthreadSem_init v)"
| run_step: "psem_run v p a s \<Longrightarrow> psem_step s t e s' \<Longrightarrow>
    psem_run v (p + (if e = SemPosted then 1 else 0)) (a + (if e = SemTaken then 1 else 0)) s'"

section \<open>Guest functions\<close>

text \<open>A guest pointer to a semaphore pointer: \<open>None\<close> if either is null.\<close>

definition posix_sem_init :: "bool \<Rightarrow> u32 \<Rightarrow> PosixErrno + PthreadSem option" where
  "posix_sem_init has_sem v =
    (if int v > ORBIS_KERNEL_SEM_VALUE_MAX then Inl POSIX_EINVAL
     else Inr (if has_sem then Some (PthreadSem_init (int v)) else None))"

definition posix_sem_destroy :: "PthreadSem option \<Rightarrow> PosixErrno + PthreadSem option" where
  "posix_sem_destroy sem = (case sem of None \<Rightarrow> Inl POSIX_EINVAL | Some s \<Rightarrow> Inr None)"

definition posix_sem_wait_entry :: "Deadline \<Rightarrow> thread \<Rightarrow> PthreadSem option \<Rightarrow> PosixErrno + PthreadSem" where
  "posix_sem_wait_entry d t sem = (case sem of None \<Rightarrow> Inl POSIX_EINVAL | Some s \<Rightarrow> Inr (at_pc t (TryFirst d) s))"

definition posix_sem_trywait :: "PthreadSem option \<Rightarrow> PosixErrno + PthreadSem" where
  "posix_sem_trywait sem =
    (case sem of None \<Rightarrow> Inl POSIX_EINVAL
     | Some s \<Rightarrow> (case PthreadSemTryAcquire s of None \<Rightarrow> Inl POSIX_EAGAIN | Some s' \<Rightarrow> Inr s'))"

definition posix_sem_post_entry :: "thread \<Rightarrow> PthreadSem option \<Rightarrow> PosixErrno + PthreadSem" where
  "posix_sem_post_entry t sem =
    (case sem of None \<Rightarrow> Inl POSIX_EINVAL
     | Some s \<Rightarrow> (case sem_post_value s of None \<Rightarrow> Inl POSIX_EOVERFLOW | Some s' \<Rightarrow> Inr (at_pc t Posted s')))"

definition posix_sem_getvalue :: "PthreadSem option \<Rightarrow> PosixErrno + int" where
  "posix_sem_getvalue sem = (case sem of None \<Rightarrow> Inl POSIX_EINVAL | Some s \<Rightarrow> Inr (ps_value s))"

text \<open>The \<open>scePthreadSem*\<close> functions translate the error number.\<close>

definition sce_result :: "PosixErrno + 'a \<Rightarrow> OrbisResult + 'a" where
  "sce_result r = (case r of Inl e \<Rightarrow> Inl (ErrnoToSceKernelError e) | Inr x \<Rightarrow> Inr x)"

definition scePthreadSemInit :: "bool \<Rightarrow> int \<Rightarrow> u32 \<Rightarrow> OrbisResult + PthreadSem option" where
  "scePthreadSemInit has_sem flag v =
    (if flag \<noteq> 0 then Inl ORBIS_KERNEL_ERROR_EINVAL else sce_result (posix_sem_init has_sem v))"

definition scePthreadSemDestroy :: "PthreadSem option \<Rightarrow> OrbisResult + PthreadSem option" where
  "scePthreadSemDestroy sem = sce_result (posix_sem_destroy sem)"

definition scePthreadSemWait_entry :: "thread \<Rightarrow> PthreadSem option \<Rightarrow> OrbisResult + PthreadSem" where
  "scePthreadSemWait_entry t sem = sce_result (posix_sem_wait_entry Forever t sem)"

definition scePthreadSemTrywait :: "PthreadSem option \<Rightarrow> OrbisResult + PthreadSem" where
  "scePthreadSemTrywait sem = sce_result (posix_sem_trywait sem)"

definition scePthreadSemTimedwait_entry :: "thread \<Rightarrow> PthreadSem option \<Rightarrow> OrbisResult + PthreadSem" where
  "scePthreadSemTimedwait_entry t sem = sce_result (posix_sem_wait_entry Timed t sem)"

definition scePthreadSemPost_entry :: "thread \<Rightarrow> PthreadSem option \<Rightarrow> OrbisResult + PthreadSem" where
  "scePthreadSemPost_entry t sem = sce_result (posix_sem_post_entry t sem)"

definition scePthreadSemGetvalue :: "PthreadSem option \<Rightarrow> OrbisResult + int" where
  "scePthreadSemGetvalue sem = sce_result (posix_sem_getvalue sem)"

section \<open>The invariant\<close>

fun holds_lock :: "SemPc \<Rightarrow> bool" where
  "holds_lock (TryLocked d) = True"
| "holds_lock (Publish d) = True"
| "holds_lock _ = False"

fun publishing :: "SemPc \<Rightarrow> bool" where
  "publishing (Publish d) = True"
| "publishing _ = False"

fun asleep :: "SemPc \<Rightarrow> bool" where
  "asleep (Sleeping d) = True"
| "asleep _ = False"

fun parked :: "SemPc \<Rightarrow> bool" where
  "parked (Sleeping d) = True"
| "parked (Awake d w) = True"
| "parked _ = False"

text \<open>Who holds \<open>wait_mutex\<close>.\<close>

definition inv_lock :: "PthreadSem \<Rightarrow> bool" where
  "inv_lock s \<longleftrightarrow> (\<forall>t. holds_lock (ps_pc s t) \<longleftrightarrow> ps_lock s = Some t)"

text \<open>The waiters and their permits: a waiter has none, and a sleeper that is no waiter has one.\<close>

definition inv_queue :: "PthreadSem \<Rightarrow> bool" where
  "inv_queue s \<longleftrightarrow> distinct (ps_waiters s) \<and> (\<forall>t. ps_wake s t \<le> 1) \<and>
    (\<forall>t\<in>set (ps_waiters s). ps_wake s t = 0 \<and> parked (ps_pc s t)) \<and>
    (\<forall>t. asleep (ps_pc s t) \<longrightarrow> t \<in> set (ps_waiters s) \<or> ps_wake s t > 0)"

text \<open>A positive value with a waiter, or with a thread about to become one, is a post on its way.\<close>

definition inv_post :: "PthreadSem \<Rightarrow> bool" where
  "inv_post s \<longleftrightarrow> 0 \<le> ps_value s \<and> ps_value s \<le> ORBIS_KERNEL_SEM_VALUE_MAX \<and>
    (ps_value s > 0 \<longrightarrow> ps_waiters s = [] \<and> (\<forall>t. \<not> publishing (ps_pc s t)) \<or> (\<exists>t. ps_pc s t = Posted))"

definition psem_inv :: "PthreadSem \<Rightarrow> bool" where
  "psem_inv s \<longleftrightarrow> inv_lock s \<and> inv_queue s \<and> inv_post s"

lemma at_pc_simps [simp]: "ps_value (at_pc t pc s) = ps_value s" "ps_waiters (at_pc t pc s) = ps_waiters s"
  "ps_lock (at_pc t pc s) = ps_lock s" "ps_wake (at_pc t pc s) = ps_wake s" "ps_pc (at_pc t pc s) = (ps_pc s)(t := pc)"
  by (simp_all add: at_pc_def)

lemma TryAcquire_simps:
  "PthreadSemTryAcquire s = Some s' \<longleftrightarrow> 0 < ps_value s \<and> s' = s\<lparr>ps_value := ps_value s - 1\<rparr>"
  "PthreadSemTryAcquire s = None \<longleftrightarrow> ps_value s \<le> 0"
  by (auto simp: PthreadSemTryAcquire_def)

lemma post_value_simps:
  "sem_post_value s = Some s' \<longleftrightarrow> ps_value s \<noteq> ORBIS_KERNEL_SEM_VALUE_MAX \<and> s' = s\<lparr>ps_value := ps_value s + 1\<rparr>"
  "sem_post_value s = None \<longleftrightarrow> ps_value s = ORBIS_KERNEL_SEM_VALUE_MAX"
  by (auto simp: sem_post_value_def)

lemma inv_lock_at: "inv_lock s \<Longrightarrow> holds_lock pc = holds_lock (ps_pc s t) \<Longrightarrow> inv_lock (at_pc t pc s)"
  by (simp add: inv_lock_def)

lemma inv_lock_take: "inv_lock s \<Longrightarrow> ps_lock s = None \<Longrightarrow> holds_lock pc \<Longrightarrow> inv_lock (at_pc t pc (s\<lparr>ps_lock := Some t\<rparr>))"
  by (auto simp: inv_lock_def)

lemma inv_lock_drop: "inv_lock s \<Longrightarrow> holds_lock (ps_pc s t) \<Longrightarrow> \<not> holds_lock pc \<Longrightarrow> inv_lock (at_pc t pc (s\<lparr>ps_lock := None\<rparr>))"
  by (auto simp: inv_lock_def)

lemma inv_lock_fields [simp]: "inv_lock (s\<lparr>ps_value := v\<rparr>) = inv_lock s" "inv_lock (s\<lparr>ps_wake := k\<rparr>) = inv_lock s"
  "inv_lock (s\<lparr>ps_waiters := ws\<rparr>) = inv_lock s"
  by (simp_all add: inv_lock_def)

lemma lock_step: "psem_step s t e s' \<Longrightarrow> inv_lock s \<Longrightarrow> inv_lock s'"
proof (induction rule: psem_step.induct)
  case (publish s t d)
  then have "inv_lock (at_pc t (Sleeping d) ((s\<lparr>ps_wake := (ps_wake s)(t := 0), ps_waiters := ps_waiters s @ [t]\<rparr>)\<lparr>ps_lock := None\<rparr>))"
    by (intro inv_lock_drop) simp_all
  then show ?case by (simp add: sem_publish_def)
next
  case (take_lock s t d)
  then show ?case by (simp add: inv_lock_take)
next
  case (locked_ok s t d s')
  then show ?case by (simp add: TryAcquire_simps inv_lock_drop)
qed (auto simp: TryAcquire_simps post_value_simps sem_unlist_def sem_wake_all_def intro!: inv_lock_at)

lemma inv_queue_at:
  "inv_queue s \<Longrightarrow> (parked (ps_pc s t) \<Longrightarrow> parked pc) \<Longrightarrow> (asleep pc \<Longrightarrow> asleep (ps_pc s t)) \<Longrightarrow> inv_queue (at_pc t pc s)"
  by (auto simp: inv_queue_def)

lemma inv_queue_fields [simp]: "inv_queue (s\<lparr>ps_value := v\<rparr>) = inv_queue s" "inv_queue (s\<lparr>ps_lock := l\<rparr>) = inv_queue s"
  by (simp_all add: inv_queue_def)

lemma queue_step: "psem_step s t e s' \<Longrightarrow> inv_queue s \<Longrightarrow> inv_queue s'"
proof (induction rule: psem_step.induct)
  case (publish s t d)
  then have "t \<notin> set (ps_waiters s)" by (auto simp: inv_queue_def)
  with publish show ?case by (auto simp: inv_queue_def sem_publish_def)
next
  case (woken s t d)
  then have "t \<notin> set (ps_waiters s)" by (auto simp: inv_queue_def)
  with woken show ?case by (auto simp: inv_queue_def)
next
  case (unlist s t d w)
  then show ?case by (auto simp: inv_queue_def sem_unlist_def)
next
  case (post_wake s t)
  then show ?case by (auto simp: inv_queue_def sem_wake_all_def)
qed (auto simp: TryAcquire_simps post_value_simps intro!: inv_queue_at)

lemma inv_post_at:
  "inv_post s \<Longrightarrow> ps_pc s t \<noteq> Posted \<Longrightarrow> \<not> publishing pc \<or> ps_value s \<le> 0 \<Longrightarrow> inv_post (at_pc t pc s)"
  unfolding inv_post_def at_pc_simps by (metis fun_upd_other fun_upd_same leD)

lemma inv_post_take: "inv_post s \<Longrightarrow> 0 < ps_value s \<Longrightarrow> inv_post (s\<lparr>ps_value := ps_value s - 1\<rparr>)"
  by (auto simp: inv_post_def)

lemma inv_post_fields [simp]: "inv_post (s\<lparr>ps_lock := l\<rparr>) = inv_post s" "inv_post (s\<lparr>ps_wake := k\<rparr>) = inv_post s"
  by (simp_all add: inv_post_def)

lemma post_step: "psem_step s t e s' \<Longrightarrow> inv_lock s \<Longrightarrow> inv_post s \<Longrightarrow> inv_post s'"
proof (induction rule: psem_step.induct)
  case (publish s t d)
  then have "publishing (ps_pc s t)" by simp
  then have "0 < ps_value s \<longrightarrow> (\<exists>u. u \<noteq> t \<and> ps_pc s u = Posted)" using publish by (metis SemPc.distinct(59) inv_post_def)
  then show ?case using publish by (auto simp: inv_post_def sem_publish_def)
next
  case (unlist s t d w)
  then have "inv_post (sem_unlist t s)" by (auto simp: inv_post_def sem_unlist_def)
  then show ?case using unlist by (intro inv_post_at) (simp_all add: sem_unlist_def)
next
  case (post_value s t s')
  then show ?case by (auto simp: inv_post_def post_value_simps)
next
  case (post_wake s t)
  have "\<not> holds_lock (ps_pc s u)" for u using post_wake by (simp add: inv_lock_def)
  then have "\<not> publishing (ps_pc s u)" for u by (metis holds_lock.simps(2) publishing.elims(2))
  then show ?case using post_wake by (auto simp: inv_post_def sem_wake_all_def)
qed (auto simp: TryAcquire_simps post_value_simps intro!: inv_post_at inv_post_take)


lemma psem_run_inv: "psem_run v p a s \<Longrightarrow> psem_inv s"
proof (induction rule: psem_run.induct)
  case run_init
  then show ?case by (simp add: psem_inv_def inv_lock_def inv_queue_def inv_post_def PthreadSem_init_def)
next
  case (run_step p a s t e s')
  then show ?case using lock_step queue_step post_step unfolding psem_inv_def by blast
qed

text \<open>Only a post raises the value and only a successful wait lowers it.\<close>

lemma psem_step_value:
  "psem_step s t e s' \<Longrightarrow>
     ps_value s' = ps_value s + (if e = SemPosted then 1 else 0) - (if e = SemTaken then 1 else 0)"
  by (induction rule: psem_step.induct)
     (auto simp: TryAcquire_simps post_value_simps sem_publish_def sem_unlist_def sem_wake_all_def)

lemma psem_run_value: "psem_run v p a s \<Longrightarrow> ps_value s = v + int p - int a"
proof (induction rule: psem_run.induct)
  case (run_step p a s t e s')
  then show ?case using psem_step_value [OF run_step(2)] by auto
qed (simp add: PthreadSem_init_def)

section \<open>A sample run\<close>

text \<open>Thread 1 goes to sleep on an empty semaphore, then thread 2 posts.\<close>

definition sample_asleep :: PthreadSem where
  "sample_asleep = at_pc 1 (Sleeping Forever) (sem_publish 1 (at_pc 1 (Publish Forever)
     (at_pc 1 (TryLocked Forever) ((at_pc 1 (WantLock Forever) (at_pc 1 (TryFirst Forever) (PthreadSem_init 0)))\<lparr>ps_lock := Some 1\<rparr>))))"

lemma sample_asleep_run: "psem_run 0 0 0 sample_asleep"
proof -
  have go: "psem_run 0 0 0 s'" if "psem_run 0 0 0 s" "psem_step s 1 SemGo s'" for s s'
    using run_step [OF that] by simp
  have "psem_run 0 0 0 (PthreadSem_init 0)" by (rule run_init) simp_all
  then have "psem_run 0 0 0 (at_pc 1 (TryFirst Forever) (PthreadSem_init 0))"
    by (rule go) (rule call_wait, simp add: PthreadSem_init_def)
  then have "psem_run 0 0 0 (at_pc 1 (WantLock Forever) (at_pc 1 (TryFirst Forever) (PthreadSem_init 0)))"
    by (rule go) (rule first_fail, simp_all add: PthreadSem_init_def PthreadSemTryAcquire_def)
  then have "psem_run 0 0 0 (at_pc 1 (TryLocked Forever)
      ((at_pc 1 (WantLock Forever) (at_pc 1 (TryFirst Forever) (PthreadSem_init 0)))\<lparr>ps_lock := Some 1\<rparr>))"
    by (rule go) (rule take_lock, simp_all add: PthreadSem_init_def)
  then have "psem_run 0 0 0 (at_pc 1 (Publish Forever) (at_pc 1 (TryLocked Forever)
      ((at_pc 1 (WantLock Forever) (at_pc 1 (TryFirst Forever) (PthreadSem_init 0)))\<lparr>ps_lock := Some 1\<rparr>)))"
    by (rule go) (rule locked_fail, simp_all add: PthreadSem_init_def PthreadSemTryAcquire_def)
  then show ?thesis unfolding sample_asleep_def
    by (rule go) (rule publish, simp)
qed

definition sample_posted :: PthreadSem where
  "sample_posted = at_pc 2 Posted (sample_asleep\<lparr>ps_value := 1\<rparr>)"

lemma sample_posted_run: "psem_run 0 1 0 sample_posted"
proof -
  have "psem_step sample_asleep 2 SemPosted sample_posted"
    unfolding sample_posted_def
    by (rule post_value) (simp_all add: sample_asleep_def PthreadSem_init_def sem_publish_def sem_post_value_def)
  from run_step [OF sample_asleep_run this] show ?thesis by simp
qed

section \<open>Properties\<close>

text \<open>C34: Under every interleaving of the threads that use a POSIX semaphore, the value stays between
  zero and SEM_VALUE_MAX and equals the initial value plus the posts less the successful waits, so no token is
  ever taken twice.\<close>

theorem psem_tokens_conserved:
  assumes "psem_run v p a s"
  shows "ps_value s = v + int p - int a \<and> 0 \<le> ps_value s \<and> ps_value s \<le> 0x7FFFFFFF"
  using psem_run_value [OF assms] psem_run_inv [OF assms] by (auto simp: psem_inv_def inv_post_def)

theorem psem_tokens_conserved_witness: "ps_value sample_posted = 0 + int 1 - int 0"
  using psem_tokens_conserved [OF sample_posted_run] by blast

text \<open>C23: No wake-up of a POSIX semaphore is lost: whenever its value is positive while a thread sleeps
  without a permit to wake up, some thread is in the middle of a post and about to wake every waiter.  The
  waiters are distinct and parked, at most one thread holds the mutex, and no thread ever has
  more than one permit, so the wake semaphore never exceeds its maximum.\<close>

theorem psem_no_lost_wakeup:
  assumes "psem_run v p a s"
  shows "(0 < ps_value s \<and> ps_pc s t = Sleeping d \<and> ps_wake s t = 0 \<longrightarrow> (\<exists>u. ps_pc s u = Posted)) \<and>
    distinct (ps_waiters s) \<and> (\<forall>w\<in>set (ps_waiters s). parked (ps_pc s w)) \<and>
    (holds_lock (ps_pc s t) \<and> holds_lock (ps_pc s u) \<longrightarrow> t = u) \<and> ps_wake s t \<le> 1"
proof -
  have l: "inv_lock s" and q: "inv_queue s" and p: "inv_post s" using psem_run_inv [OF assms] by (auto simp: psem_inv_def)
  have "ps_waiters s \<noteq> []" if "ps_pc s t = Sleeping d" "ps_wake s t = 0"
    using q that unfolding inv_queue_def by (metis asleep.simps(1) empty_iff less_irrefl list.set(1))
  then show ?thesis using l q p unfolding inv_lock_def inv_queue_def inv_post_def by (metis option.inject)
qed

theorem psem_no_lost_wakeup_witness: "\<exists>u. ps_pc sample_posted u = Posted"
proof -
  have "0 < ps_value sample_posted \<and> ps_pc sample_posted 1 = Sleeping Forever \<and> ps_wake sample_posted 1 = 0"
    by (simp add: sample_posted_def sample_asleep_def sem_publish_def)
  then show ?thesis using psem_no_lost_wakeup [OF sample_posted_run, of 1 Forever] by blast
qed

end
