(* ===== verification/Exclusive_Lock.thy ===== *)
theory Exclusive_Lock
  imports Main
begin

text \<open>
  What a client of a lock relies on, as an interface: the lock has at most one holder, and only the holder itself can
  stop holding.  From these two laws follows what a lock is for: data that is only changed by the holder does not
  change under it.  The guest mutexes and the write side of the guest reader-writer locks both provide the interface.
\<close>

text \<open>Steps of the threads other than \<open>t\<close>, each of which changes the data only if its thread holds the lock.\<close>

inductive others :: "('s \<Rightarrow> nat \<Rightarrow> 's \<Rightarrow> bool) \<Rightarrow> ('s \<Rightarrow> nat \<Rightarrow> bool) \<Rightarrow> nat \<Rightarrow> 's \<times> 'd \<Rightarrow> 's \<times> 'd \<Rightarrow> bool"
  for step holds t x where
  others_none: "others step holds t x x"
| others_step: "others step holds t x (s, d) \<Longrightarrow> step s u s' \<Longrightarrow> u \<noteq> t \<Longrightarrow> d' = d \<or> holds s u \<Longrightarrow> others step holds t x (s', d')"

locale exclusive_lock =
  fixes reach :: "'s \<Rightarrow> bool" and step :: "'s \<Rightarrow> nat \<Rightarrow> 's \<Rightarrow> bool" and holds :: "'s \<Rightarrow> nat \<Rightarrow> bool"
  assumes reach_step: "reach s \<Longrightarrow> step s t s' \<Longrightarrow> reach s'"
    and one_holder: "reach s \<Longrightarrow> holds s t \<Longrightarrow> holds s u \<Longrightarrow> t = u"
    and holder_stays: "reach s \<Longrightarrow> holds s t \<Longrightarrow> step s u s' \<Longrightarrow> u \<noteq> t \<Longrightarrow> holds s' t"
begin

lemma protected_data:
  assumes "reach (fst x)" "holds (fst x) t" "others step holds t x y"
  shows "reach (fst y) \<and> holds (fst y) t \<and> snd y = snd x"
  using assms(3)
proof (induction rule: others.induct)
  case others_none
  then show ?case using assms by simp
next
  case (others_step s d u s' d')
  then show ?case using reach_step holder_stays one_holder by (metis fst_conv snd_conv)
qed

end

end
