(* ===== verification/Pthread_Mutex.thy ===== *)
theory Pthread_Mutex
  imports Posix_Semaphore Exclusive_Lock
begin

text \<open>
  The guest mutexes of \<^verbatim>\<open>src/src/core/libraries/kernel/threads/mutex.cpp\<close> with the types of
  \<^verbatim>\<open>threads/pthread.h\<close>.  A mutex is the host mutex \<open>m_lock\<close> (its holder) and the atomic
  \<open>m_owner\<close>, which \<open>Lock\<close> and \<open>Unlock\<close> change at different moments; the functions are therefore split at these
  accesses into the steps of a thread with a control state.  A host \<open>try_lock\<close> may fail although the
  mutex is free.  A result \<open>None\<close> is success, \<open>Some\<close> an error number; the outer \<open>None\<close> of a function is
  undefined behaviour (an \<open>int\<close> that overflows, or the \<open>UNREACHABLE\<close> of a self-deadlock).  The name of a
  mutex is only used in log messages and is left out.
\<close>

section \<open>Data\<close>

abbreviation (input) MutexErrorCheck :: u32 where "MutexErrorCheck \<equiv> 1"
abbreviation (input) MutexRecursive :: u32 where "MutexRecursive \<equiv> 2"
abbreviation (input) MutexNormal :: u32 where "MutexNormal \<equiv> 3"
abbreviation (input) MutexAdaptiveNp :: u32 where "MutexAdaptiveNp \<equiv> 4"
abbreviation (input) MutexTypeMax :: u32 where "MutexTypeMax \<equiv> 5"
abbreviation (input) MutexDeferred :: u32 where "MutexDeferred \<equiv> 0x200"
abbreviation (input) ProtNone :: u32 where "ProtNone \<equiv> 0"
abbreviation (input) ProtProtect :: u32 where "ProtProtect \<equiv> 2"
abbreviation (input) INT_MAX :: int where "INT_MAX \<equiv> 0x7FFFFFFF"
abbreviation (input) INT_MIN :: int where "INT_MIN \<equiv> - 0x80000000"

record PthreadMutex =
  m_owner :: "thread option"
  m_count :: int
  m_spinloops :: int
  m_yieldloops :: int
  m_protocol :: u32
  m_flags :: u32
  m_lock :: "thread option"

record PthreadMutexAttr =
  a_type :: u32
  a_protocol :: u32
  a_ceiling :: int

definition mutex_Type :: "PthreadMutex \<Rightarrow> u32" where
  "mutex_Type m = m_flags m AND 0xff"

text \<open>The time argument of \<open>Lock\<close>: none, \<open>THR_RELTIME\<close>, or seconds and nanoseconds.\<close>

datatype LockTime = NoTime | RelTime u64 | AbsTime int int

section \<open>Creation and destruction\<close>

definition PthreadMutexattrDefault :: PthreadMutexAttr where
  "PthreadMutexattrDefault = \<lparr>a_type = MutexErrorCheck, a_protocol = ProtNone, a_ceiling = 0\<rparr>"

definition PthreadMutexattrAdaptiveDefault :: PthreadMutexAttr where
  "PthreadMutexattrAdaptiveDefault = \<lparr>a_type = MutexAdaptiveNp, a_protocol = ProtNone, a_ceiling = 0\<rparr>"

text \<open>\<open>memory\<close> says whether the allocation succeeds.\<close>

definition MutexInit :: "bool \<Rightarrow> PthreadMutexAttr option \<Rightarrow> PosixErrno + PthreadMutex" where
  "MutexInit memory mutex_attr =
    (let attr = (case mutex_attr of None \<Rightarrow> PthreadMutexattrDefault | Some a \<Rightarrow> a) in
     if mutex_attr \<noteq> None \<and> (a_type attr < MutexErrorCheck \<or> a_type attr \<ge> MutexTypeMax) then Inl POSIX_EINVAL
     else if mutex_attr \<noteq> None \<and> a_protocol attr > ProtProtect then Inl POSIX_EINVAL
     else if \<not> memory then Inl POSIX_ENOMEM
     else Inr \<lparr>m_owner = None, m_count = 0, m_spinloops = (if a_type attr = MutexAdaptiveNp then 2000 else 0), m_yieldloops = 0,
       m_protocol = a_protocol attr, m_flags = a_type attr, m_lock = None\<rparr>)"

text \<open>A guest variable of type \<open>PthreadMutexT\<close>: one of the three reserved pointers or a mutex.\<close>

datatype MutexVar = MutexInitializer | AdaptiveInitializer | MutexDestroyed | MutexPtr PthreadMutex

definition mutex_InitStatic :: "bool \<Rightarrow> MutexVar \<Rightarrow> PosixErrno + MutexVar" where
  "mutex_InitStatic memory v = (case v of
     MutexInitializer \<Rightarrow> map_sum id MutexPtr (MutexInit memory (Some PthreadMutexattrDefault))
   | AdaptiveInitializer \<Rightarrow> map_sum id MutexPtr (MutexInit memory (Some PthreadMutexattrAdaptiveDefault))
   | _ \<Rightarrow> Inr v)"

definition CHECK_AND_INIT_MUTEX :: "bool \<Rightarrow> MutexVar \<Rightarrow> PosixErrno + MutexVar" where
  "CHECK_AND_INIT_MUTEX memory v = (case v of
     MutexPtr m \<Rightarrow> Inr v | MutexDestroyed \<Rightarrow> Inl POSIX_EINVAL | _ \<Rightarrow> mutex_InitStatic memory v)"

definition posix_pthread_mutex_init :: "bool \<Rightarrow> PthreadMutexAttr option option \<Rightarrow> MutexVar \<Rightarrow> PosixErrno option \<times> MutexVar" where
  "posix_pthread_mutex_init memory mutex_attr v =
    (case MutexInit memory (case mutex_attr of None \<Rightarrow> None | Some a \<Rightarrow> a) of Inl e \<Rightarrow> (Some e, v) | Inr m \<Rightarrow> (None, MutexPtr m))"

definition posix_pthread_mutex_destroy :: "MutexVar \<Rightarrow> PosixErrno option \<times> MutexVar" where
  "posix_pthread_mutex_destroy v = (case v of
     MutexDestroyed \<Rightarrow> (Some POSIX_EINVAL, v)
   | MutexPtr m \<Rightarrow> if m_owner m \<noteq> None then (Some POSIX_EBUSY, v) else (None, MutexDestroyed)
   | _ \<Rightarrow> (None, v))"

section \<open>Locking by the owner\<close>

definition add_count :: "PthreadMutex \<Rightarrow> (PosixErrno option \<times> PthreadMutex) option" where
  "add_count m = (if m_count m + 1 > INT_MAX then None
     else if m_count m + 1 > 0 then Some (None, m\<lparr>m_count := m_count m + 1\<rparr>) else Some (Some POSIX_EAGAIN, m))"

definition SelfTryLock :: "PthreadMutex \<Rightarrow> (PosixErrno option \<times> PthreadMutex) option" where
  "SelfTryLock m =
    (if mutex_Type m = MutexErrorCheck \<or> mutex_Type m = MutexNormal \<or> mutex_Type m = MutexAdaptiveNp then Some (Some POSIX_EBUSY, m)
     else if mutex_Type m = MutexRecursive then add_count m
     else Some (Some POSIX_EINVAL, m))"

definition DoSleep :: "LockTime \<Rightarrow> PosixErrno" where
  "DoSleep abstime = (case abstime of AbsTime sec nsec \<Rightarrow>
     if sec < 0 \<or> nsec < 0 \<or> nsec \<ge> 1000000000 then POSIX_EINVAL else POSIX_ETIMEDOUT | _ \<Rightarrow> POSIX_ETIMEDOUT)"

definition SelfLock :: "LockTime \<Rightarrow> PthreadMutex \<Rightarrow> (PosixErrno option \<times> PthreadMutex) option" where
  "SelfLock abstime m =
    (if mutex_Type m = MutexErrorCheck \<or> mutex_Type m = MutexAdaptiveNp
     then (if abstime \<noteq> NoTime then Some (Some (DoSleep abstime), m) else Some (Some POSIX_EDEADLK, m))
     else if mutex_Type m = MutexNormal then (if abstime \<noteq> NoTime then Some (Some (DoSleep abstime), m) else None)
     else if mutex_Type m = MutexRecursive then add_count m
     else Some (Some POSIX_EINVAL, m))"

section \<open>Steps of a thread\<close>

datatype MutexPc = MIdle | MSpin int int LockTime | MWait LockTime | MTry | MStore | MUnlock bool

text \<open>\<open>ms_held t\<close> counts the successful locks of \<open>t\<close> that it has not unlocked yet; \<open>ms_wakes t\<close> counts the calls of
  \<open>WakeAll\<close> that unlocking made.\<close>

record mutex_sys =
  ms_mutex :: PthreadMutex
  ms_pc :: "thread \<Rightarrow> MutexPc"
  ms_held :: "thread \<Rightarrow> nat"
  ms_wakes :: "thread \<Rightarrow> nat"
  ms_will_sleep :: "thread \<Rightarrow> bool"

definition mutex_at :: "thread \<Rightarrow> MutexPc \<Rightarrow> mutex_sys \<Rightarrow> mutex_sys" where
  "mutex_at t pc s = s\<lparr>ms_pc := (ms_pc s)(t := pc)\<rparr>"

definition set_mutex :: "PthreadMutex \<Rightarrow> mutex_sys \<Rightarrow> mutex_sys" where
  "set_mutex m s = s\<lparr>ms_mutex := m\<rparr>"

definition set_held :: "thread \<Rightarrow> nat \<Rightarrow> mutex_sys \<Rightarrow> mutex_sys" where
  "set_held t n s = s\<lparr>ms_held := (ms_held s)(t := n)\<rparr>"

text \<open>The entry of \<open>Lock\<close> for a thread that does not own the mutex: the spin and yield loops, unless the protocol is set.\<close>

definition lock_begin :: "LockTime \<Rightarrow> PthreadMutex \<Rightarrow> MutexPc" where
  "lock_begin abstime m = (if m_protocol m = ProtNone then MSpin (m_spinloops m) (m_yieldloops m) abstime else MWait abstime)"

definition bad_wait :: "LockTime \<Rightarrow> bool" where
  "bad_wait abstime = (case abstime of AbsTime sec nsec \<Rightarrow> nsec < 0 \<or> nsec \<ge> 1000000000 | _ \<Rightarrow> False)"

text \<open>One \<open>try_lock\<close> of the loops that failed.\<close>

definition spin_next :: "int \<Rightarrow> int \<Rightarrow> LockTime \<Rightarrow> MutexPc option" where
  "spin_next n y abstime =
    (if n \<noteq> 0 then (if n = INT_MIN then None else Some (MSpin (n - 1) y abstime))
     else if y \<noteq> 0 then (if y = INT_MIN then None else Some (MSpin 0 (y - 1) abstime))
     else Some (MWait abstime))"

definition unlock_begin :: "PthreadMutex \<Rightarrow> bool \<times> PthreadMutex" where
  "unlock_begin m = (m_flags m AND MutexDeferred \<noteq> 0, m\<lparr>m_flags := m_flags m AND (0xffffffff - MutexDeferred), m_owner := None\<rparr>)"

datatype MutexEvent = MGo | MLocked | MUnlocked | MFails PosixErrno

inductive mutex_step :: "mutex_sys \<Rightarrow> thread \<Rightarrow> MutexEvent \<Rightarrow> mutex_sys \<Rightarrow> bool" where
  self_ok: "ms_pc s t = MIdle \<Longrightarrow> m_owner (ms_mutex s) = Some t \<Longrightarrow> SelfLock a (ms_mutex s) = Some (None, m) \<or> SelfTryLock (ms_mutex s) = Some (None, m) \<Longrightarrow>
    mutex_step s t MLocked (set_held t (ms_held s t + 1) (set_mutex m s))"
| self_fail: "ms_pc s t = MIdle \<Longrightarrow> m_owner (ms_mutex s) = Some t \<Longrightarrow> SelfLock a (ms_mutex s) = Some (Some e, m) \<or> SelfTryLock (ms_mutex s) = Some (Some e, m) \<Longrightarrow>
    mutex_step s t (MFails e) (set_mutex m s)"
| call_lock: "ms_pc s t = MIdle \<Longrightarrow> m_owner (ms_mutex s) \<noteq> Some t \<Longrightarrow> mutex_step s t MGo (mutex_at t (lock_begin a (ms_mutex s)) s)"
| call_try: "ms_pc s t = MIdle \<Longrightarrow> m_owner (ms_mutex s) \<noteq> Some t \<Longrightarrow> mutex_step s t MGo (mutex_at t MTry s)"
| spin_take: "ms_pc s t = MSpin n y a \<Longrightarrow> n \<noteq> 0 \<or> y \<noteq> 0 \<Longrightarrow> m_lock (ms_mutex s) = None \<Longrightarrow>
    mutex_step s t MGo (mutex_at t MStore (set_mutex ((ms_mutex s)\<lparr>m_lock := Some t\<rparr>) s))"
| spin_fail: "ms_pc s t = MSpin n y a \<Longrightarrow> spin_next n y a = Some pc \<Longrightarrow> mutex_step s t MGo (mutex_at t pc s)"
| wait_bad: "ms_pc s t = MWait a \<Longrightarrow> bad_wait a \<Longrightarrow> mutex_step s t (MFails POSIX_EINVAL) (mutex_at t MIdle s)"
| wait_take: "ms_pc s t = MWait a \<Longrightarrow> \<not> bad_wait a \<Longrightarrow> m_lock (ms_mutex s) = None \<Longrightarrow>
    mutex_step s t MGo (mutex_at t MStore (set_mutex ((ms_mutex s)\<lparr>m_lock := Some t\<rparr>) s))"
| wait_timeout: "ms_pc s t = MWait a \<Longrightarrow> \<not> bad_wait a \<Longrightarrow> a \<noteq> NoTime \<Longrightarrow> mutex_step s t (MFails POSIX_ETIMEDOUT) (mutex_at t MIdle s)"
| try_take: "ms_pc s t = MTry \<Longrightarrow> m_lock (ms_mutex s) = None \<Longrightarrow>
    mutex_step s t MGo (mutex_at t MStore (set_mutex ((ms_mutex s)\<lparr>m_lock := Some t\<rparr>) s))"
| try_busy: "ms_pc s t = MTry \<Longrightarrow> mutex_step s t (MFails POSIX_EBUSY) (mutex_at t MIdle s)"
| store_owner: "ms_pc s t = MStore \<Longrightarrow>
    mutex_step s t MLocked (set_held t (ms_held s t + 1) (mutex_at t MIdle (set_mutex ((ms_mutex s)\<lparr>m_owner := Some t\<rparr>) s)))"
| unlock_perm: "ms_pc s t = MIdle \<Longrightarrow> m_owner (ms_mutex s) \<noteq> Some t \<Longrightarrow> mutex_step s t (MFails POSIX_EPERM) s"
| unlock_count: "ms_pc s t = MIdle \<Longrightarrow> m_owner (ms_mutex s) = Some t \<Longrightarrow> mutex_Type (ms_mutex s) = MutexRecursive \<Longrightarrow> m_count (ms_mutex s) > 0 \<Longrightarrow>
    mutex_step s t MUnlocked (set_held t (ms_held s t - 1) (set_mutex ((ms_mutex s)\<lparr>m_count := m_count (ms_mutex s) - 1\<rparr>) s))"
| unlock_owner: "ms_pc s t = MIdle \<Longrightarrow> m_owner (ms_mutex s) = Some t \<Longrightarrow> \<not> (mutex_Type (ms_mutex s) = MutexRecursive \<and> m_count (ms_mutex s) > 0) \<Longrightarrow>
    mutex_step s t MUnlocked (set_held t (ms_held s t - 1) (mutex_at t (MUnlock (fst (unlock_begin (ms_mutex s)))) (set_mutex (snd (unlock_begin (ms_mutex s))) s)))"
| unlock_host: "ms_pc s t = MUnlock deferred \<Longrightarrow>
    mutex_step s t MGo ((mutex_at t MIdle (set_mutex ((ms_mutex s)\<lparr>m_lock := None\<rparr>) s))\<lparr>ms_wakes := (ms_wakes s)(t := ms_wakes s t + (if \<not> ms_will_sleep s t \<and> deferred then 1 else 0))\<rparr>)"
| cond_defer: "m_owner (ms_mutex s) = Some t \<Longrightarrow> mutex_step s t MGo (set_mutex ((ms_mutex s)\<lparr>m_flags := m_flags (ms_mutex s) OR MutexDeferred\<rparr>) s)"
| cond_sleep: "mutex_step s t MGo (s\<lparr>ms_will_sleep := (ms_will_sleep s)(t := b)\<rparr>)"
| set_loops: "ms_pc s t = MIdle \<Longrightarrow> mutex_step s t MGo (set_mutex ((ms_mutex s)\<lparr>m_spinloops := n, m_yieldloops := y\<rparr>) s)"

text \<open>The last three steps are the accesses of other functions: \<open>PthreadCond::Signal\<close> defers a wake-up, \<open>PthreadCond::Wait\<close> and
  \<open>Sleep\<close> set \<open>will_sleep\<close>, and the setters change the loop counts.  A run starts with a new mutex.\<close>

inductive mutex_run :: "PthreadMutexAttr option \<Rightarrow> mutex_sys \<Rightarrow> bool" for attr where
  mutex_start: "MutexInit True attr = Inr m \<Longrightarrow>
    mutex_run attr \<lparr>ms_mutex = m, ms_pc = (\<lambda>_. MIdle), ms_held = (\<lambda>_. 0), ms_wakes = (\<lambda>_. 0), ms_will_sleep = (\<lambda>_. False)\<rparr>"
| mutex_next: "mutex_run attr s \<Longrightarrow> mutex_step s t e s' \<Longrightarrow> mutex_run attr s'"

section \<open>Guest functions\<close>

text \<open>The functions that do not wait, on a guest variable, for a thread that is not inside another call on the mutex.  \<open>busy\<close> is
  the result of the host \<open>try_lock\<close>.\<close>

definition TryLock :: "bool \<Rightarrow> thread \<Rightarrow> PthreadMutex \<Rightarrow> (PosixErrno option \<times> PthreadMutex) option" where
  "TryLock busy t m = (if m_owner m = Some t then SelfTryLock m
     else if busy \<or> m_lock m \<noteq> None then Some (Some POSIX_EBUSY, m)
     else Some (None, m\<lparr>m_lock := Some t, m_owner := Some t\<rparr>))"

definition mutex_Unlock :: "thread \<Rightarrow> PthreadMutex \<Rightarrow> PosixErrno option \<times> PthreadMutex" where
  "mutex_Unlock t m = (if m_owner m \<noteq> Some t then (Some POSIX_EPERM, m)
     else if mutex_Type m = MutexRecursive \<and> m_count m > 0 then (None, m\<lparr>m_count := m_count m - 1\<rparr>)
     else (None, (snd (unlock_begin m))\<lparr>m_lock := None\<rparr>))"

definition posix_pthread_mutex_trylock :: "bool \<Rightarrow> bool \<Rightarrow> thread \<Rightarrow> MutexVar \<Rightarrow> (PosixErrno option \<times> MutexVar) option" where
  "posix_pthread_mutex_trylock memory busy t v = (case CHECK_AND_INIT_MUTEX memory v of
     Inl e \<Rightarrow> Some (Some e, v)
   | Inr (MutexPtr m) \<Rightarrow> map_option (\<lambda>(r, m). (r, MutexPtr m)) (TryLock busy t m)
   | Inr v \<Rightarrow> Some (None, v))"

text \<open>The waiting functions differ in the time they hand to \<open>Lock\<close>; this is the mutex they lock.\<close>

definition posix_pthread_mutex_lock_entry :: "bool \<Rightarrow> MutexVar \<Rightarrow> PosixErrno + MutexVar" where
  "posix_pthread_mutex_lock_entry memory v = CHECK_AND_INIT_MUTEX memory v"

definition posix_pthread_mutex_unlock :: "thread \<Rightarrow> MutexVar \<Rightarrow> PosixErrno option \<times> MutexVar" where
  "posix_pthread_mutex_unlock t v = (case v of
     MutexDestroyed \<Rightarrow> (Some POSIX_EINVAL, v)
   | MutexPtr m \<Rightarrow> (case mutex_Unlock t m of (r, m) \<Rightarrow> (r, MutexPtr m))
   | _ \<Rightarrow> (Some POSIX_EPERM, v))"

definition mutex_IsOwned :: "thread \<Rightarrow> MutexVar \<Rightarrow> PosixErrno option" where
  "mutex_IsOwned t v = (case v of
     MutexDestroyed \<Rightarrow> Some POSIX_EINVAL | MutexPtr m \<Rightarrow> if m_owner m \<noteq> Some t then Some POSIX_EPERM else None | _ \<Rightarrow> Some POSIX_EPERM)"

definition posix_pthread_mutex_isowned_np :: "thread \<Rightarrow> MutexVar \<Rightarrow> bool" where
  "posix_pthread_mutex_isowned_np t v = (case v of MutexPtr m \<Rightarrow> m_owner m = Some t | _ \<Rightarrow> False)"

definition with_mutex :: "bool \<Rightarrow> (PthreadMutex \<Rightarrow> PthreadMutex) \<Rightarrow> MutexVar \<Rightarrow> PosixErrno option \<times> MutexVar" where
  "with_mutex memory f v = (case CHECK_AND_INIT_MUTEX memory v of
     Inl e \<Rightarrow> (Some e, v) | Inr (MutexPtr m) \<Rightarrow> (None, MutexPtr (f m)) | Inr v \<Rightarrow> (None, v))"

definition posix_pthread_mutex_setspinloops_np :: "bool \<Rightarrow> int \<Rightarrow> MutexVar \<Rightarrow> PosixErrno option \<times> MutexVar" where
  "posix_pthread_mutex_setspinloops_np memory n = with_mutex memory (\<lambda>m. m\<lparr>m_spinloops := n\<rparr>)"

definition posix_pthread_mutex_setyieldloops_np :: "bool \<Rightarrow> int \<Rightarrow> MutexVar \<Rightarrow> PosixErrno option \<times> MutexVar" where
  "posix_pthread_mutex_setyieldloops_np memory n = with_mutex memory (\<lambda>m. m\<lparr>m_yieldloops := n\<rparr>)"

definition mutex_query :: "bool \<Rightarrow> (PthreadMutex \<Rightarrow> int) \<Rightarrow> MutexVar \<Rightarrow> (PosixErrno + int) \<times> MutexVar" where
  "mutex_query memory f v = (case CHECK_AND_INIT_MUTEX memory v of
     Inl e \<Rightarrow> (Inl e, v) | Inr (MutexPtr m) \<Rightarrow> (Inr (f m), MutexPtr m) | Inr v \<Rightarrow> (Inl POSIX_EINVAL, v))"

definition posix_pthread_mutex_getspinloops_np :: "bool \<Rightarrow> MutexVar \<Rightarrow> (PosixErrno + int) \<times> MutexVar" where
  "posix_pthread_mutex_getspinloops_np memory = mutex_query memory m_spinloops"

definition posix_pthread_mutex_getyieldloops_np :: "bool \<Rightarrow> MutexVar \<Rightarrow> (PosixErrno + int) \<times> MutexVar" where
  "posix_pthread_mutex_getyieldloops_np memory = mutex_query memory m_yieldloops"

text \<open>After the check the variable always points to a mutex, so the last case of the functions above never applies.\<close>

lemma CHECK_AND_INIT_MUTEX_ptr: "CHECK_AND_INIT_MUTEX memory v = Inr w \<Longrightarrow> \<exists>m. w = MutexPtr m"
proof -
  have "\<exists>m. w = MutexPtr m" if "map_sum id MutexPtr r = Inr w" for r :: "PosixErrno + PthreadMutex" using that by (cases r) auto
  then show "CHECK_AND_INIT_MUTEX memory v = Inr w \<Longrightarrow> \<exists>m. w = MutexPtr m"
    by (cases v) (auto simp: CHECK_AND_INIT_MUTEX_def mutex_InitStatic_def)
qed

section \<open>Attributes\<close>

text \<open>A pointer to an attribute pointer: \<open>None\<close> if it is null, \<open>Some None\<close> if the attribute pointer is.  The two \<open>kind_np\<close>
  functions report their error through \<open>errno\<close> and return -1.\<close>

type_synonym attr_var = "PthreadMutexAttr option option"

definition attr_update :: "(PthreadMutexAttr \<Rightarrow> bool) \<Rightarrow> (PthreadMutexAttr \<Rightarrow> PthreadMutexAttr) \<Rightarrow> attr_var \<Rightarrow> PosixErrno option \<times> attr_var" where
  "attr_update bad f v = (case v of Some (Some a) \<Rightarrow> if bad a then (Some POSIX_EINVAL, v) else (None, Some (Some (f a))) | _ \<Rightarrow> (Some POSIX_EINVAL, v))"

definition attr_query :: "(PthreadMutexAttr \<Rightarrow> bool) \<Rightarrow> (PthreadMutexAttr \<Rightarrow> 'a) \<Rightarrow> attr_var \<Rightarrow> PosixErrno + 'a" where
  "attr_query bad f v = (case v of Some (Some a) \<Rightarrow> if bad a then Inl POSIX_EINVAL else Inr (f a) | _ \<Rightarrow> Inl POSIX_EINVAL)"

definition posix_pthread_mutexattr_init :: "bool \<Rightarrow> PosixErrno + PthreadMutexAttr" where
  "posix_pthread_mutexattr_init memory = (if memory then Inr PthreadMutexattrDefault else Inl POSIX_ENOMEM)"

definition posix_pthread_mutexattr_setkind_np :: "u32 \<Rightarrow> attr_var \<Rightarrow> PosixErrno option \<times> attr_var" where
  "posix_pthread_mutexattr_setkind_np kind = attr_update (\<lambda>_. False) (\<lambda>a. a\<lparr>a_type := kind\<rparr>)"

definition posix_pthread_mutexattr_getkind_np :: "PthreadMutexAttr option \<Rightarrow> PosixErrno + u32" where
  "posix_pthread_mutexattr_getkind_np v = (case v of None \<Rightarrow> Inl POSIX_EINVAL | Some a \<Rightarrow> Inr (a_type a))"

definition posix_pthread_mutexattr_setprioceiling :: "int \<Rightarrow> attr_var \<Rightarrow> PosixErrno option \<times> attr_var" where
  "posix_pthread_mutexattr_setprioceiling c = attr_update (\<lambda>a. a_protocol a \<noteq> ProtProtect \<or> c > 767 \<or> c < 256) (\<lambda>a. a\<lparr>a_ceiling := c\<rparr>)"

definition posix_pthread_mutexattr_getprioceiling :: "attr_var \<Rightarrow> PosixErrno + int" where
  "posix_pthread_mutexattr_getprioceiling = attr_query (\<lambda>a. a_protocol a \<noteq> ProtProtect) a_ceiling"

definition posix_pthread_mutexattr_setprotocol :: "u32 \<Rightarrow> attr_var \<Rightarrow> PosixErrno option \<times> attr_var" where
  "posix_pthread_mutexattr_setprotocol p = attr_update (\<lambda>_. p > ProtProtect) (\<lambda>a. a\<lparr>a_protocol := p, a_ceiling := 767\<rparr>)"

definition posix_pthread_mutexattr_getprotocol :: "attr_var \<Rightarrow> PosixErrno + u32" where
  "posix_pthread_mutexattr_getprotocol = attr_query (\<lambda>_. False) a_protocol"

definition posix_pthread_mutexattr_setpshared :: "int \<Rightarrow> attr_var \<Rightarrow> PosixErrno option \<times> attr_var" where
  "posix_pthread_mutexattr_setpshared pshared = attr_update (\<lambda>_. pshared \<noteq> 0) (\<lambda>a. a)"

definition posix_pthread_mutexattr_getpshared :: "attr_var \<Rightarrow> PosixErrno + int" where
  "posix_pthread_mutexattr_getpshared = attr_query (\<lambda>_. False) (\<lambda>_. 0)"

definition posix_pthread_mutexattr_settype :: "u32 \<Rightarrow> attr_var \<Rightarrow> PosixErrno option \<times> attr_var" where
  "posix_pthread_mutexattr_settype type = attr_update (\<lambda>_. type < MutexErrorCheck \<or> type \<ge> MutexTypeMax) (\<lambda>a. a\<lparr>a_type := type\<rparr>)"

definition posix_pthread_mutexattr_gettype :: "attr_var \<Rightarrow> PosixErrno + u32" where
  "posix_pthread_mutexattr_gettype = attr_query (\<lambda>a. a_type a \<ge> MutexTypeMax) a_type"

definition posix_pthread_mutexattr_destroy :: "attr_var \<Rightarrow> PosixErrno option \<times> attr_var" where
  "posix_pthread_mutexattr_destroy v = (case v of Some (Some a) \<Rightarrow> (None, Some None) | _ \<Rightarrow> (Some POSIX_EINVAL, v))"

section \<open>The invariant\<close>

fun holds_host :: "MutexPc \<Rightarrow> bool" where
  "holds_host MStore = True"
| "holds_host (MUnlock d) = True"
| "holds_host _ = False"

text \<open>The host mutex is held by the owner, and by a thread that is about to become or has just ceased to be the owner.\<close>

definition host_inv :: "mutex_sys \<Rightarrow> bool" where
  "host_inv s \<longleftrightarrow> (\<forall>t. m_lock (ms_mutex s) = Some t \<longleftrightarrow> holds_host (ms_pc s t) \<or> m_owner (ms_mutex s) = Some t) \<and>
     (\<forall>t. m_owner (ms_mutex s) = Some t \<longrightarrow> ms_pc s t = MIdle)"

definition count_inv :: "u32 \<Rightarrow> mutex_sys \<Rightarrow> bool" where
  "count_inv type s \<longleftrightarrow> mutex_Type (ms_mutex s) = type \<and> 0 \<le> m_count (ms_mutex s) \<and> m_count (ms_mutex s) \<le> INT_MAX \<and>
     (type \<noteq> MutexRecursive \<longrightarrow> m_count (ms_mutex s) = 0) \<and> (m_owner (ms_mutex s) = None \<longrightarrow> m_count (ms_mutex s) = 0) \<and>
     (\<forall>t. ms_held s t = (if m_owner (ms_mutex s) = Some t then nat (m_count (ms_mutex s)) + 1 else 0))"

lemma mutex_sys_simps [simp]:
  "ms_mutex (mutex_at t pc s) = ms_mutex s" "ms_pc (mutex_at t pc s) = (ms_pc s)(t := pc)" "ms_held (mutex_at t pc s) = ms_held s"
  "ms_mutex (set_mutex m s) = m" "ms_pc (set_mutex m s) = ms_pc s" "ms_held (set_mutex m s) = ms_held s"
  "ms_mutex (set_held t n s) = ms_mutex s" "ms_pc (set_held t n s) = ms_pc s" "ms_held (set_held t n s) = (ms_held s)(t := n)"
  "ms_will_sleep (mutex_at t pc s) = ms_will_sleep s" "ms_will_sleep (set_mutex m s) = ms_will_sleep s"
  "ms_wakes (mutex_at t pc s) = ms_wakes s" "ms_wakes (set_mutex m s) = ms_wakes s" "ms_wakes (set_held t n s) = ms_wakes s"
  by (simp_all add: mutex_at_def set_mutex_def set_held_def)

lemma add_count_cases:
  "add_count m = Some (r, m') \<longleftrightarrow> m_count m < INT_MAX \<and>
     (if m_count m \<ge> 0 then r = None \<and> m' = m\<lparr>m_count := m_count m + 1\<rparr> else r = Some POSIX_EAGAIN \<and> m' = m)"
  by (auto simp: add_count_def)

lemma self_ok_cases:
  assumes "SelfLock a m = Some (None, m') \<or> SelfTryLock m = Some (None, m')"
  shows "mutex_Type m = MutexRecursive" "0 \<le> m_count m" "m_count m < INT_MAX" "m' = m\<lparr>m_count := m_count m + 1\<rparr>"
  using assms by (auto simp: SelfLock_def SelfTryLock_def add_count_cases split: if_splits)

lemma self_fail_same: "SelfLock a m = Some (Some e, m') \<or> SelfTryLock m = Some (Some e, m') \<Longrightarrow> m' = m"
  by (auto simp: SelfLock_def SelfTryLock_def add_count_cases split: if_splits)

lemma mutex_Type_simps [simp]:
  "mutex_Type (m\<lparr>m_count := c\<rparr>) = mutex_Type m" "mutex_Type (m\<lparr>m_owner := x\<rparr>) = mutex_Type m" "mutex_Type (m\<lparr>m_lock := l\<rparr>) = mutex_Type m"
  "mutex_Type (m\<lparr>m_spinloops := n, m_yieldloops := y\<rparr>) = mutex_Type m"
  by (simp_all add: mutex_Type_def)

text \<open>The flag of deferred wake-ups and the type are disjoint bits.\<close>

lemma mutex_Type_flags [simp]:
  "mutex_Type (m\<lparr>m_flags := m_flags m OR MutexDeferred\<rparr>) = mutex_Type m"
  "mutex_Type (m\<lparr>m_flags := m_flags m AND (0xffffffff - MutexDeferred)\<rparr>) = mutex_Type m"
proof -
  have "(f OR MutexDeferred) AND 0xff = f AND 0xff" for f :: nat
  proof -
    have "(f OR MutexDeferred) AND 0xff = (f AND 0xff) OR (MutexDeferred AND 0xff)" by (rule bit_eqI) (auto simp only: bit_and_iff bit_or_iff)
    then show ?thesis by simp
  qed
  then show "mutex_Type (m\<lparr>m_flags := m_flags m OR MutexDeferred\<rparr>) = mutex_Type m" by (simp add: mutex_Type_def)
  show "mutex_Type (m\<lparr>m_flags := m_flags m AND (0xffffffff - MutexDeferred)\<rparr>) = mutex_Type m" by (simp add: mutex_Type_def and.assoc)
qed

lemma mutex_Type_unlock [simp]: "mutex_Type (snd (unlock_begin m)) = mutex_Type m"
  unfolding unlock_begin_def snd_conv using mutex_Type_flags(2) [of m] by (simp add: mutex_Type_def)

lemma unlock_begin_simps [simp]:
  "m_owner (snd (unlock_begin m)) = None" "m_lock (snd (unlock_begin m)) = m_lock m" "m_count (snd (unlock_begin m)) = m_count m"
  by (simp_all add: unlock_begin_def)

lemma lock_begin_pc [simp]: "\<not> holds_host (lock_begin a m)" "lock_begin a m \<noteq> MIdle"
  by (simp_all add: lock_begin_def)

lemma spin_next_pc: "spin_next n y a = Some pc \<Longrightarrow> \<not> holds_host pc"
  by (auto simp: spin_next_def split: if_splits)

lemma host_step: "mutex_step s t e s' \<Longrightarrow> host_inv s \<Longrightarrow> host_inv s'"
proof (induction rule: mutex_step.induct)
  case (self_ok s t a m)
  then show ?case using self_ok_cases(4) [OF self_ok(3)] by (simp add: host_inv_def)
next
  case (self_fail s t a e m)
  then show ?case using self_fail_same [OF self_fail(3)] by (simp add: host_inv_def)
next
  case (spin_fail s t n y a pc)
  then have "m_owner (ms_mutex s) \<noteq> Some t" by (auto simp: host_inv_def)
  then show ?case using spin_fail spin_next_pc by (auto simp: host_inv_def)
next
  case (store_owner s t)
  then have "m_lock (ms_mutex s) = Some t" by (simp add: host_inv_def)
  then show ?case using store_owner by (fastforce simp: host_inv_def)
next
  case (unlock_owner s t)
  then have "m_lock (ms_mutex s) = Some t" by (simp add: host_inv_def)
  then show ?case using unlock_owner by (fastforce simp: host_inv_def)
next
  case (unlock_host s t d)
  then have "m_lock (ms_mutex s) = Some t" by (simp add: host_inv_def)
  then show ?case using unlock_host by (fastforce simp: host_inv_def)
qed (fastforce simp: host_inv_def)+

lemma count_step: "mutex_step s t e s' \<Longrightarrow> host_inv s \<Longrightarrow> count_inv type s \<Longrightarrow> count_inv type s'"
proof (induction rule: mutex_step.induct)
  case (self_ok s t a m)
  then show ?case using self_ok_cases [OF self_ok(3)] by (auto simp: count_inv_def nat_add_distrib)
next
  case (self_fail s t a e m)
  then show ?case using self_fail_same [OF self_fail(3)] by (simp add: count_inv_def)
next
  case (store_owner s t)
  then have "m_owner (ms_mutex s) = None" by (metis MutexPc.distinct(7) holds_host.simps(1) host_inv_def not_Some_eq option.inject)
  then show ?case using store_owner by (auto simp: count_inv_def)
qed (auto simp: count_inv_def nat_diff_distrib)

definition attr_kind :: "PthreadMutexAttr option \<Rightarrow> u32" where
  "attr_kind attr = (case attr of None \<Rightarrow> MutexErrorCheck | Some a \<Rightarrow> a_type a)"

lemma MutexInit_result:
  "MutexInit memory attr = Inr m \<Longrightarrow> m_owner m = None \<and> m_lock m = None \<and> m_count m = 0 \<and> mutex_Type m = attr_kind attr \<and> attr_kind attr \<in> {1, 2, 3, 4}"
proof -
  assume init: "MutexInit memory attr = Inr m"
  then have m: "m_owner m = None" "m_lock m = None" "m_count m = 0" "m_flags m = attr_kind attr" "1 \<le> attr_kind attr" "attr_kind attr < 5"
    by (auto simp: MutexInit_def Let_def attr_kind_def PthreadMutexattrDefault_def split: if_splits option.splits)
  have "attr_kind attr \<in> {1, 2, 3, 4}" using m(5,6) by auto
  then show ?thesis using m by (auto simp: mutex_Type_def)
qed

lemma mutex_run_inv: "mutex_run attr s \<Longrightarrow> host_inv s \<and> count_inv (attr_kind attr) s"
proof (induction rule: mutex_run.induct)
  case (mutex_start m)
  then show ?case using MutexInit_result [OF mutex_start] by (auto simp: host_inv_def count_inv_def)
next
  case (mutex_next s t e s')
  then show ?case using host_step count_step by blast
qed

inductive_cases locked_step: "mutex_step s t MLocked s'"
inductive_cases unlocked_step: "mutex_step s t MUnlocked s'"
inductive_cases perm_step: "mutex_step s t (MFails POSIX_EPERM) s'"

lemma self_not_perm:
  assumes "SelfLock a m = Some (Some e, m') \<or> SelfTryLock m = Some (Some e, m')" shows "e \<noteq> POSIX_EPERM"
  using assms by (auto simp: SelfLock_def SelfTryLock_def DoSleep_def add_count_cases split: if_splits LockTime.splits)

text \<open>What a mutex promises in a state of a run.\<close>

definition mutex_exclusive :: "u32 \<Rightarrow> mutex_sys \<Rightarrow> bool" where
  "mutex_exclusive type s \<longleftrightarrow>
     (\<forall>t. ms_held s t = (if m_owner (ms_mutex s) = Some t then nat (m_count (ms_mutex s)) + 1 else 0)) \<and>
     (\<forall>t. 0 < ms_held s t \<longrightarrow> m_lock (ms_mutex s) = Some t \<and> ms_pc s t = MIdle) \<and>
     (\<forall>t u. 0 < ms_held s t \<longrightarrow> 0 < ms_held s u \<longrightarrow> t = u) \<and>
     (type \<noteq> MutexRecursive \<longrightarrow> (\<forall>t. ms_held s t \<le> 1)) \<and>
     (\<forall>t s'. mutex_step s t MLocked s' \<longrightarrow> (\<forall>u. u \<noteq> t \<longrightarrow> ms_held s u = 0) \<and> ms_held s' t = ms_held s t + 1) \<and>
     (\<forall>t s'. mutex_step s t MUnlocked s' \<longrightarrow> 0 < ms_held s t \<and> ms_held s' t = ms_held s t - 1) \<and>
     (\<forall>t s'. mutex_step s t (MFails POSIX_EPERM) s' \<longrightarrow> ms_held s t = 0)"

lemma mutex_run_exclusive:
  assumes "mutex_run attr s" shows "mutex_exclusive (attr_kind attr) s"
proof -
  have h: "host_inv s" and c: "count_inv (attr_kind attr) s" using mutex_run_inv [OF assms] by auto
  have held: "ms_held s t = (if m_owner (ms_mutex s) = Some t then nat (m_count (ms_mutex s)) + 1 else 0)" for t using c by (simp add: count_inv_def)
  have lock: "m_lock (ms_mutex s) = Some t \<longleftrightarrow> holds_host (ms_pc s t) \<or> m_owner (ms_mutex s) = Some t" for t using h by (simp add: host_inv_def)
  have "(\<forall>u. u \<noteq> t \<longrightarrow> ms_held s u = 0) \<and> ms_held s' t = ms_held s t + 1" if st: "mutex_step s t MLocked s'" for t s'
    using st
  proof (rule locked_step)
    fix a m assume "s' = set_held t (Suc (ms_held s t)) (set_mutex m s)" "m_owner (ms_mutex s) = Some t"
    then show ?thesis by (auto simp: held)
  next
    assume s': "s' = set_held t (Suc (ms_held s t)) (mutex_at t MIdle (set_mutex ((ms_mutex s)\<lparr>m_owner := Some t\<rparr>) s))" "ms_pc s t = MStore"
    then have "m_lock (ms_mutex s) = Some t" by (simp add: lock)
    then have "m_owner (ms_mutex s) \<noteq> Some u" if "u \<noteq> t" for u using that lock [of u] by auto
    then show ?thesis using s'(1) by (auto simp: held)
  qed
  moreover have "0 < ms_held s t \<and> ms_held s' t = ms_held s t - 1" if st: "mutex_step s t MUnlocked s'" for t s'
    using st by (rule unlocked_step) (auto simp: held)
  moreover have "ms_held s t = 0" if st: "mutex_step s t (MFails POSIX_EPERM) s'" for t s'
    using st by (rule perm_step) (use self_not_perm held in auto)
  moreover have "ms_held s t \<le> 1" if "attr_kind attr \<noteq> MutexRecursive" for t using that c by (auto simp: held count_inv_def)
  moreover have "m_lock (ms_mutex s) = Some t \<and> ms_pc s t = MIdle" if "0 < ms_held s t" for t
    using that h lock [of t] by (auto simp: held host_inv_def split: if_splits)
  moreover have "t = u" if "0 < ms_held s t" "0 < ms_held s u" for t u using that by (auto simp: held split: if_splits)
  ultimately show ?thesis unfolding mutex_exclusive_def using held by blast
qed

text \<open>A recursive mutex that thread 1 has locked twice.\<close>

definition recursive_attr :: "PthreadMutexAttr option" where
  "recursive_attr = Some \<lparr>a_type = MutexRecursive, a_protocol = ProtNone, a_ceiling = 0\<rparr>"

lemma sample_locked: "\<exists>s. mutex_run recursive_attr s \<and> ms_held s 1 = 2"
proof -
  obtain m where m: "MutexInit True recursive_attr = Inr m" by (simp add: MutexInit_def recursive_attr_def)
  define s0 where "s0 = \<lparr>ms_mutex = m, ms_pc = (\<lambda>_. MIdle), ms_held = (\<lambda>_. 0), ms_wakes = (\<lambda>_. 0), ms_will_sleep = (\<lambda>_. False)\<rparr>"
  define s1 where "s1 = mutex_at 1 MTry s0"
  define s2 where "s2 = mutex_at 1 MStore (set_mutex ((ms_mutex s1)\<lparr>m_lock := Some 1\<rparr>) s1)"
  define s3 where "s3 = set_held 1 (ms_held s2 1 + 1) (mutex_at 1 MIdle (set_mutex ((ms_mutex s2)\<lparr>m_owner := Some 1\<rparr>) s2))"
  define m' where "m' = (ms_mutex s3)\<lparr>m_count := m_count (ms_mutex s3) + 1\<rparr>"
  have 0: "mutex_run recursive_attr s0" unfolding s0_def by (rule mutex_start [OF m])
  note mi = MutexInit_result [OF m]
  have 1: "mutex_run recursive_attr s1" unfolding s1_def by (rule mutex_next [OF 0 call_try]) (simp_all add: s0_def mi)
  have 2: "mutex_run recursive_attr s2" unfolding s2_def by (rule mutex_next [OF 1 try_take]) (simp_all add: s1_def s0_def mi)
  have 3: "mutex_run recursive_attr s3" unfolding s3_def by (rule mutex_next [OF 2 store_owner]) (simp add: s2_def)
  have "SelfTryLock (ms_mutex s3) = Some (None, m')"
    using mi by (simp add: m'_def s3_def s2_def s1_def s0_def SelfTryLock_def add_count_def attr_kind_def recursive_attr_def)
  then have "mutex_run recursive_attr (set_held 1 (ms_held s3 1 + 1) (set_mutex m' s3))"
    by (intro mutex_next [OF 3 self_ok [where a = NoTime]]) (simp_all add: s3_def)
  moreover have "ms_held s3 1 = 1" by (simp add: s3_def s2_def s1_def s0_def)
  ultimately show ?thesis by (intro exI [of _ "set_held 1 (ms_held s3 1 + 1) (set_mutex m' s3)"]) simp
qed

text \<open>C28: In every state that the interleaved calls of any number of threads on a guest mutex can reach, at most one thread
  holds it; that thread is the recorded owner, holds the host mutex and is inside no other call, and the recursion
  count is exactly one less than its locks minus its unlocks, at most one lock unless the mutex is recursive.  A lock succeeds
  only while no other thread holds the mutex, an unlock succeeds only for the holder, and EPERM is reported only to
  a thread that does not hold it.\<close>

theorem mutex_exclusion:
  assumes "mutex_run attr s"
  shows "mutex_exclusive (attr_kind attr) s"
  by (rule mutex_run_exclusive [OF assms])

theorem mutex_exclusion_witness: "\<exists>s. ms_held s 1 = 2 \<and> mutex_exclusive 2 s"
proof -
  obtain s where "mutex_run recursive_attr s" "ms_held s 1 = 2" using sample_locked by blast
  then show ?thesis using mutex_exclusion [of recursive_attr s] by (auto simp: attr_kind_def recursive_attr_def)
qed

section \<open>Attributes and static initialisers\<close>

text \<open>The getters return what the setters stored.\<close>

lemma mutexattr_roundtrip:
  "posix_pthread_mutexattr_settype type v = (None, v') \<Longrightarrow> posix_pthread_mutexattr_gettype v' = Inr type"
  "posix_pthread_mutexattr_setprotocol p v = (None, v') \<Longrightarrow> posix_pthread_mutexattr_getprotocol v' = Inr p"
  "posix_pthread_mutexattr_setprioceiling c v = (None, v') \<Longrightarrow> posix_pthread_mutexattr_getprioceiling v' = Inr c"
  by (auto simp: posix_pthread_mutexattr_settype_def posix_pthread_mutexattr_gettype_def posix_pthread_mutexattr_setprotocol_def
      posix_pthread_mutexattr_getprotocol_def posix_pthread_mutexattr_setprioceiling_def posix_pthread_mutexattr_getprioceiling_def
      attr_update_def attr_query_def split: option.splits if_splits)

text \<open>A statically initialised mutex can be locked at once and destroyed after the unlock.\<close>

lemma static_mutex_cycle:
  assumes "v \<in> {MutexInitializer, AdaptiveInitializer}"
  shows "\<exists>w w'. posix_pthread_mutex_trylock True False t v = Some (None, w) \<and> posix_pthread_mutex_isowned_np t w \<and>
    posix_pthread_mutex_destroy w = (Some POSIX_EBUSY, w) \<and> posix_pthread_mutex_unlock t w = (None, w') \<and>
    posix_pthread_mutex_destroy w' = (None, MutexDestroyed)"
proof -
  have "\<exists>m. CHECK_AND_INIT_MUTEX True v = Inr (MutexPtr m) \<and> m_owner m = None \<and> m_lock m = None \<and> m_count m = 0"
    using assms by (auto simp: CHECK_AND_INIT_MUTEX_def mutex_InitStatic_def MutexInit_def PthreadMutexattrDefault_def
        PthreadMutexattrAdaptiveDefault_def)
  then show ?thesis
    by (auto simp: posix_pthread_mutex_trylock_def TryLock_def posix_pthread_mutex_isowned_np_def posix_pthread_mutex_destroy_def
        posix_pthread_mutex_unlock_def mutex_Unlock_def)
qed

section \<open>The mutex as a lock\<close>

lemma held_other: "mutex_step s u e s' \<Longrightarrow> u \<noteq> t \<Longrightarrow> ms_held s' t = ms_held s t"
  by (induction rule: mutex_step.induct) simp_all

interpretation mutex_lock: exclusive_lock "mutex_run attr" "\<lambda>s t s'. \<exists>e. mutex_step s t e s'" "\<lambda>s t. 0 < ms_held s t" for attr
proof
  show "mutex_run attr s'" if "mutex_run attr s" "\<exists>e. mutex_step s t e s'" for s t s' using that mutex_next by blast
  show "t = u" if "mutex_run attr s" "0 < ms_held s t" "0 < ms_held s u" for s t u
    using mutex_run_exclusive [OF that(1)] that(2,3) unfolding mutex_exclusive_def by blast
  show "0 < ms_held s' t" if "mutex_run attr s" "0 < ms_held s t" "\<exists>e. mutex_step s u e s'" "u \<noteq> t" for s t u s'
    using that held_other by metis
qed

text \<open>What the holder of a guest mutex knows about the data it protects, until its own next step.\<close>

lemmas mutex_protects = mutex_lock.protected_data

end
