(* ===== verification/Pthread_Rwlock.thy ===== *)
theory Pthread_Rwlock
  imports Pthread_Mutex "HOL-Library.Multiset"
begin

text \<open>
  The guest reader-writer locks of \<^verbatim>\<open>src/src/core/libraries/kernel/threads/rwlock.cpp\<close> on the reader-first mutex of
  \<^verbatim>\<open>src/src/common/shared_first_mutex.h\<close>.  Every function of the host mutex is one critical section, hence one
  step; the accesses to \<open>owner\<close> around it are steps of their own.  \<open>rdlock_count\<close> belongs to the thread that
  changes it and changes with the step of that thread.
\<close>

section \<open>SharedFirstMutex\<close>

record SharedFirstMutex =
  sf_readers :: int
  sf_writer_active :: bool

definition SharedFirstMutex_init :: SharedFirstMutex where
  "SharedFirstMutex_init = \<lparr>sf_readers = 0, sf_writer_active = False\<rparr>"

text \<open>The conditions under which the blocking functions stop waiting, and the section that follows.\<close>

definition sf_lock :: "SharedFirstMutex \<Rightarrow> SharedFirstMutex option" where
  "sf_lock x = (if \<not> sf_writer_active x \<and> sf_readers x = 0 then Some (x\<lparr>sf_writer_active := True\<rparr>) else None)"

definition sf_lock_shared :: "SharedFirstMutex \<Rightarrow> SharedFirstMutex option" where
  "sf_lock_shared x = (if \<not> sf_writer_active x then Some (x\<lparr>sf_readers := sf_readers x + 1\<rparr>) else None)"

definition sf_try_lock :: "SharedFirstMutex \<Rightarrow> bool \<times> SharedFirstMutex" where
  "sf_try_lock x = (if sf_writer_active x \<or> sf_readers x > 0 then (False, x) else (True, x\<lparr>sf_writer_active := True\<rparr>))"

definition sf_try_lock_shared :: "SharedFirstMutex \<Rightarrow> bool \<times> SharedFirstMutex" where
  "sf_try_lock_shared x = (if sf_writer_active x then (False, x) else (True, x\<lparr>sf_readers := sf_readers x + 1\<rparr>))"

definition sf_unlock :: "SharedFirstMutex \<Rightarrow> SharedFirstMutex" where
  "sf_unlock x = x\<lparr>sf_writer_active := False\<rparr>"

definition sf_unlock_shared :: "SharedFirstMutex \<Rightarrow> SharedFirstMutex" where
  "sf_unlock_shared x = x\<lparr>sf_readers := sf_readers x - 1\<rparr>"

section \<open>Locks, variables and attributes\<close>

record PthreadRwlock =
  rw_lock :: SharedFirstMutex
  rw_owner :: "thread option"

record PthreadRwlockAttr =
  ra_pshared :: int
  ra_type :: int

definition PthreadRwlock_init :: PthreadRwlock where
  "PthreadRwlock_init = \<lparr>rw_lock = SharedFirstMutex_init, rw_owner = None\<rparr>"

datatype RwlockVar = RwlockInitializer | RwlockDestroyed | RwlockPtr PthreadRwlock

text \<open>\<open>attr\<close> is the pointed-to attribute of a non-null pointer; \<open>sdk\<close> is the compiled SDK version of the game.\<close>

definition RwlockInit :: "bool \<Rightarrow> nat \<Rightarrow> PthreadRwlockAttr option \<Rightarrow> PosixErrno + PthreadRwlock" where
  "RwlockInit memory sdk attr =
    (if \<not> memory then Inl POSIX_ENOMEM
     else case attr of
       Some a \<Rightarrow> if sdk \<ge> 0x04500000 \<and> ra_type a > 2 then Inl POSIX_EINVAL else Inr PthreadRwlock_init
     | None \<Rightarrow> Inr PthreadRwlock_init)"

definition posix_pthread_rwlock_init :: "bool \<Rightarrow> nat \<Rightarrow> PthreadRwlockAttr option \<Rightarrow> PosixErrno option \<times> RwlockVar" where
  "posix_pthread_rwlock_init memory sdk attr =
    (case RwlockInit memory sdk attr of Inl e \<Rightarrow> (Some e, RwlockInitializer) | Inr l \<Rightarrow> (None, RwlockPtr l))"

definition posix_pthread_rwlock_destroy :: "RwlockVar \<Rightarrow> PosixErrno option \<times> RwlockVar" where
  "posix_pthread_rwlock_destroy v = (case v of
     RwlockInitializer \<Rightarrow> (None, v) | RwlockDestroyed \<Rightarrow> (Some POSIX_EINVAL, v) | RwlockPtr l \<Rightarrow> (None, RwlockDestroyed))"

definition rwlock_InitStatic :: "bool \<Rightarrow> RwlockVar \<Rightarrow> PosixErrno + RwlockVar" where
  "rwlock_InitStatic memory v = (case v of
     RwlockInitializer \<Rightarrow> if memory then Inr (RwlockPtr PthreadRwlock_init) else Inl POSIX_ENOMEM | _ \<Rightarrow> Inr v)"

definition CHECK_AND_INIT_RWLOCK :: "bool \<Rightarrow> RwlockVar \<Rightarrow> PosixErrno + RwlockVar" where
  "CHECK_AND_INIT_RWLOCK memory v = (case v of
     RwlockPtr l \<Rightarrow> Inr v | RwlockInitializer \<Rightarrow> rwlock_InitStatic memory v | RwlockDestroyed \<Rightarrow> Inl POSIX_EINVAL)"

text \<open>The lock that the locking functions (\<open>CHECK_AND_INIT_RWLOCK\<close>) and the unlocking function work on.\<close>

definition posix_pthread_rwlock_lock_entry :: "bool \<Rightarrow> RwlockVar \<Rightarrow> PosixErrno + RwlockVar" where
  "posix_pthread_rwlock_lock_entry memory v = CHECK_AND_INIT_RWLOCK memory v"

definition posix_pthread_rwlock_unlock_entry :: "RwlockVar \<Rightarrow> PosixErrno + PthreadRwlock" where
  "posix_pthread_rwlock_unlock_entry v = (case v of RwlockPtr l \<Rightarrow> Inr l | _ \<Rightarrow> Inl POSIX_EINVAL)"

type_synonym rwattr_var = "PthreadRwlockAttr option option"

definition posix_pthread_rwlockattr_init :: "bool \<Rightarrow> rwattr_var \<Rightarrow> PosixErrno option \<times> rwattr_var" where
  "posix_pthread_rwlockattr_init memory v = (case v of None \<Rightarrow> (Some POSIX_EINVAL, v)
     | Some _ \<Rightarrow> if memory then (None, Some (Some \<lparr>ra_pshared = 0, ra_type = 0\<rparr>)) else (Some POSIX_ENOMEM, v))"

definition posix_pthread_rwlockattr_destroy :: "rwattr_var \<Rightarrow> PosixErrno option" where
  "posix_pthread_rwlockattr_destroy v = (case v of Some (Some a) \<Rightarrow> None | _ \<Rightarrow> Some POSIX_EINVAL)"

definition posix_pthread_rwlockattr_gettype_np :: "rwattr_var \<Rightarrow> PosixErrno + int" where
  "posix_pthread_rwlockattr_gettype_np v = (case v of Some (Some a) \<Rightarrow> if ra_type a > 2 then Inl POSIX_EINVAL else Inr (ra_type a) | _ \<Rightarrow> Inl POSIX_EINVAL)"

definition posix_pthread_rwlockattr_settype_np :: "int \<Rightarrow> rwattr_var \<Rightarrow> PosixErrno option \<times> rwattr_var" where
  "posix_pthread_rwlockattr_settype_np type v = (case v of
     Some (Some a) \<Rightarrow> if ra_type a > 2 then (Some POSIX_EINVAL, v) else (None, Some (Some (a\<lparr>ra_type := type\<rparr>))) | _ \<Rightarrow> (Some POSIX_EINVAL, v))"

text \<open>The \<open>pshared\<close> functions do not test their pointers.\<close>

definition posix_pthread_rwlockattr_getpshared :: "rwattr_var \<Rightarrow> int option" where
  "posix_pthread_rwlockattr_getpshared v = (case v of Some (Some a) \<Rightarrow> Some (ra_pshared a) | _ \<Rightarrow> None)"

definition posix_pthread_rwlockattr_setpshared :: "int \<Rightarrow> rwattr_var \<Rightarrow> (PosixErrno option \<times> rwattr_var) option" where
  "posix_pthread_rwlockattr_setpshared pshared v =
    (if pshared \<noteq> 0 then Some (Some POSIX_EINVAL, v)
     else case v of Some (Some a) \<Rightarrow> Some (None, Some (Some (a\<lparr>ra_pshared := pshared\<rparr>))) | _ \<Rightarrow> None)"

section \<open>Steps of a thread\<close>

datatype RwPc = RwIdle | RwWaitRead LockTime | RwWaitWrite LockTime | RwStore | RwUnlockWrite | RwUnlockRead

text \<open>\<open>rs_shared\<close> records the threads that hold the host mutex shared, once for each time.\<close>

record rw_sys =
  rs_rwlock :: PthreadRwlock
  rs_pc :: "thread \<Rightarrow> RwPc"
  rs_rdlock_count :: "thread \<Rightarrow> int"
  rs_shared :: "thread multiset"

definition rw_at :: "thread \<Rightarrow> RwPc \<Rightarrow> rw_sys \<Rightarrow> rw_sys" where
  "rw_at t pc s = s\<lparr>rs_pc := (rs_pc s)(t := pc)\<rparr>"

definition set_lock :: "SharedFirstMutex \<Rightarrow> rw_sys \<Rightarrow> rw_sys" where
  "set_lock x s = s\<lparr>rs_rwlock := (rs_rwlock s)\<lparr>rw_lock := x\<rparr>\<rparr>"

definition set_owner :: "thread option \<Rightarrow> rw_sys \<Rightarrow> rw_sys" where
  "set_owner u s = s\<lparr>rs_rwlock := (rs_rwlock s)\<lparr>rw_owner := u\<rparr>\<rparr>"

definition add_rdlock :: "thread \<Rightarrow> int \<Rightarrow> rw_sys \<Rightarrow> rw_sys" where
  "add_rdlock t n s = s\<lparr>rs_rdlock_count := (rs_rdlock_count s)(t := rs_rdlock_count s t + n)\<rparr>"

definition join_shared :: "thread \<Rightarrow> SharedFirstMutex \<Rightarrow> rw_sys \<Rightarrow> rw_sys" where
  "join_shared t x s = add_rdlock t 1 (set_lock x s)\<lparr>rs_shared := add_mset t (rs_shared s)\<rparr>"

datatype RwEvent = RwGo | RwGotRead | RwGotWrite | RwUnlocked | RwFails PosixErrno

abbreviation the_lock :: "rw_sys \<Rightarrow> SharedFirstMutex" where
  "the_lock s \<equiv> rw_lock (rs_rwlock s)"

abbreviation the_owner :: "rw_sys \<Rightarrow> thread option" where
  "the_owner s \<equiv> rw_owner (rs_rwlock s)"

inductive rw_step :: "rw_sys \<Rightarrow> thread \<Rightarrow> RwEvent \<Rightarrow> rw_sys \<Rightarrow> bool" where
  read_now: "rs_pc s t = RwIdle \<Longrightarrow> sf_try_lock_shared (the_lock s) = (True, x) \<Longrightarrow> rw_step s t RwGotRead (join_shared t x s)"
| read_bad: "rs_pc s t = RwIdle \<Longrightarrow> sf_try_lock_shared (the_lock s) = (False, x) \<Longrightarrow> bad_wait a \<Longrightarrow> rw_step s t (RwFails POSIX_EINVAL) s"
| read_block: "rs_pc s t = RwIdle \<Longrightarrow> sf_try_lock_shared (the_lock s) = (False, x) \<Longrightarrow> \<not> bad_wait a \<Longrightarrow> rw_step s t RwGo (rw_at t (RwWaitRead a) s)"
| read_busy: "rs_pc s t = RwIdle \<Longrightarrow> sf_try_lock_shared (the_lock s) = (False, x) \<Longrightarrow> rw_step s t (RwFails POSIX_EBUSY) s"
| read_wake: "rs_pc s t = RwWaitRead a \<Longrightarrow> sf_lock_shared (the_lock s) = Some x \<Longrightarrow> rw_step s t RwGotRead (rw_at t RwIdle (join_shared t x s))"
| read_timeout: "rs_pc s t = RwWaitRead a \<Longrightarrow> a \<noteq> NoTime \<Longrightarrow> rw_step s t (RwFails POSIX_ETIMEDOUT) (rw_at t RwIdle s)"
| write_now: "rs_pc s t = RwIdle \<Longrightarrow> sf_try_lock (the_lock s) = (True, x) \<Longrightarrow> rw_step s t RwGo (rw_at t RwStore (set_lock x s))"
| write_bad: "rs_pc s t = RwIdle \<Longrightarrow> sf_try_lock (the_lock s) = (False, x) \<Longrightarrow> bad_wait a \<Longrightarrow> rw_step s t (RwFails POSIX_EINVAL) s"
| write_block: "rs_pc s t = RwIdle \<Longrightarrow> sf_try_lock (the_lock s) = (False, x) \<Longrightarrow> \<not> bad_wait a \<Longrightarrow> rw_step s t RwGo (rw_at t (RwWaitWrite a) s)"
| write_busy: "rs_pc s t = RwIdle \<Longrightarrow> sf_try_lock (the_lock s) = (False, x) \<Longrightarrow> rw_step s t (RwFails POSIX_EBUSY) s"
| write_wake: "rs_pc s t = RwWaitWrite a \<Longrightarrow> sf_lock (the_lock s) = Some x \<Longrightarrow> rw_step s t RwGo (rw_at t RwStore (set_lock x s))"
| write_timeout: "rs_pc s t = RwWaitWrite a \<Longrightarrow> a \<noteq> NoTime \<Longrightarrow> rw_step s t (RwFails POSIX_ETIMEDOUT) (rw_at t RwIdle s)"
| write_store: "rs_pc s t = RwStore \<Longrightarrow> rw_step s t RwGotWrite (rw_at t RwIdle (set_owner (Some t) s))"
| unlock_write: "rs_pc s t = RwIdle \<Longrightarrow> the_owner s = Some t \<Longrightarrow> rw_step s t RwUnlocked (rw_at t RwUnlockWrite (set_owner None s))"
| unlock_write_host: "rs_pc s t = RwUnlockWrite \<Longrightarrow> rw_step s t RwGo (rw_at t RwIdle (set_lock (sf_unlock (the_lock s)) s))"
| unlock_read: "rs_pc s t = RwIdle \<Longrightarrow> the_owner s \<noteq> Some t \<Longrightarrow>
    rw_step s t RwUnlocked (rw_at t RwUnlockRead (if the_owner s = None then add_rdlock t (-1) s else s))"
| unlock_read_host: "rs_pc s t = RwUnlockRead \<Longrightarrow>
    rw_step s t RwGo (rw_at t RwIdle (set_lock (sf_unlock_shared (the_lock s)) s\<lparr>rs_shared := rs_shared s - {#t#}\<rparr>))"

definition rw_start :: rw_sys where
  "rw_start = \<lparr>rs_rwlock = PthreadRwlock_init, rs_pc = (\<lambda>_. RwIdle), rs_rdlock_count = (\<lambda>_. 0), rs_shared = {#}\<rparr>"

text \<open>The code unlocks for every caller.  In a disciplined run a thread only unlocks what it holds, and the counter of the host
  mutex stays within its type.\<close>

definition disciplined :: "rw_sys \<Rightarrow> thread \<Rightarrow> RwEvent \<Rightarrow> bool" where
  "disciplined s t e \<longleftrightarrow> (e = RwUnlocked \<longrightarrow> the_owner s = Some t \<or> 0 < rs_rdlock_count s t) \<and> sf_readers (the_lock s) < INT_MAX"

inductive rw_run :: "rw_sys \<Rightarrow> bool" where
  rw_begin: "rw_run rw_start"
| rw_next: "rw_run s \<Longrightarrow> rw_step s t e s' \<Longrightarrow> disciplined s t e \<Longrightarrow> rw_run s'"

section \<open>The invariant\<close>

fun storing :: "RwPc \<Rightarrow> bool" where
  "storing RwStore = True"
| "storing RwUnlockWrite = True"
| "storing _ = False"

definition wholder :: "rw_sys \<Rightarrow> thread \<Rightarrow> bool" where
  "wholder s t \<longleftrightarrow> storing (rs_pc s t) \<or> the_owner s = Some t"

definition write_inv :: "rw_sys \<Rightarrow> bool" where
  "write_inv s \<longleftrightarrow> (\<forall>t u. wholder s t \<longrightarrow> wholder s u \<longrightarrow> t = u) \<and> (sf_writer_active (the_lock s) \<longleftrightarrow> (\<exists>t. wholder s t)) \<and>
     (\<forall>t. the_owner s = Some t \<longrightarrow> \<not> storing (rs_pc s t))"

definition read_inv :: "rw_sys \<Rightarrow> bool" where
  "read_inv s \<longleftrightarrow> sf_readers (the_lock s) = int (size (rs_shared s)) \<and> (sf_writer_active (the_lock s) \<longrightarrow> rs_shared s = {#}) \<and>
     (\<forall>t. rs_rdlock_count s t = int (count (rs_shared s) t) - (if rs_pc s t = RwUnlockRead then 1 else 0)) \<and>
     (\<forall>t. rs_pc s t = RwUnlockRead \<longrightarrow> t \<in># rs_shared s)"

lemma rw_sys_simps [simp]:
  "rs_rwlock (rw_at t pc s) = rs_rwlock s" "rs_pc (rw_at t pc s) = (rs_pc s)(t := pc)" "rs_rdlock_count (rw_at t pc s) = rs_rdlock_count s"
  "rs_shared (rw_at t pc s) = rs_shared s" "the_lock (set_lock x s) = x" "the_owner (set_lock x s) = the_owner s" "rs_pc (set_lock x s) = rs_pc s"
  "rs_rdlock_count (set_lock x s) = rs_rdlock_count s" "rs_shared (set_lock x s) = rs_shared s" "the_lock (set_owner u s) = the_lock s"
  "the_owner (set_owner u s) = u" "rs_pc (set_owner u s) = rs_pc s" "rs_rdlock_count (set_owner u s) = rs_rdlock_count s"
  "rs_shared (set_owner u s) = rs_shared s" "rs_rwlock (add_rdlock t n s) = rs_rwlock s" "rs_pc (add_rdlock t n s) = rs_pc s"
  "rs_rdlock_count (add_rdlock t n s) = (rs_rdlock_count s)(t := rs_rdlock_count s t + n)" "rs_shared (add_rdlock t n s) = rs_shared s"
  by (simp_all add: rw_at_def set_lock_def set_owner_def add_rdlock_def)

lemma join_shared_simps [simp]:
  "the_lock (join_shared t x s) = x" "the_owner (join_shared t x s) = the_owner s" "rs_pc (join_shared t x s) = rs_pc s"
  "rs_rdlock_count (join_shared t x s) = (rs_rdlock_count s)(t := rs_rdlock_count s t + 1)" "rs_shared (join_shared t x s) = add_mset t (rs_shared s)"
  by (simp_all add: join_shared_def)

lemmas sf_defs = sf_lock_def sf_lock_shared_def sf_try_lock_def sf_try_lock_shared_def sf_unlock_def sf_unlock_shared_def

lemma write_inv_single:
  "(\<And>u. wholder s u \<longleftrightarrow> u = t) \<Longrightarrow> sf_writer_active (the_lock s) \<Longrightarrow> (the_owner s = Some t \<Longrightarrow> \<not> storing (rs_pc s t)) \<Longrightarrow> write_inv s"
  unfolding write_inv_def by (metis wholder_def)

lemma write_inv_none: "(\<And>u. \<not> wholder s u) \<Longrightarrow> \<not> sf_writer_active (the_lock s) \<Longrightarrow> write_inv s"
  unfolding write_inv_def by (metis wholder_def)

lemma write_inv_only: "write_inv s \<Longrightarrow> wholder s t \<Longrightarrow> (wholder s u \<longleftrightarrow> u = t) \<and> sf_writer_active (the_lock s)"
  unfolding write_inv_def by blast

text \<open>The host mutex is taken for writing, from idle or after a wait.\<close>

lemma write_inv_take:
  assumes "write_inv s" "\<not> sf_writer_active (the_lock s)" "sf_writer_active x"
  shows "write_inv (rw_at t RwStore (set_lock x s))"
proof (rule write_inv_single [where t = t])
  have no: "\<not> wholder s u" for u using assms(1,2) by (auto simp: write_inv_def)
  then show "wholder (rw_at t RwStore (set_lock x s)) u \<longleftrightarrow> u = t" for u using no [of u] by (auto simp: wholder_def)
  show "\<not> storing (rs_pc (rw_at t RwStore (set_lock x s)) t)" if "the_owner (rw_at t RwStore (set_lock x s)) = Some t"
    using that no [of t] by (simp add: wholder_def)
qed (use assms in simp)

text \<open>Every other step leaves owner and writer alone and moves a thread that is not storing.\<close>

lemma write_inv_move:
  assumes "write_inv s" "the_owner s' = the_owner s" "sf_writer_active (the_lock s') = sf_writer_active (the_lock s)"
    and "\<And>u. storing (rs_pc s' u) = storing (rs_pc s u)"
  shows "write_inv s'"
  using assms unfolding write_inv_def wholder_def by simp

lemma write_step: "rw_step s t e s' \<Longrightarrow> write_inv s \<Longrightarrow> write_inv s'"
proof (induction rule: rw_step.induct)
  case (write_now s t x)
  then show ?case by (intro write_inv_take) (auto simp: sf_defs split: if_splits)
next
  case (write_wake s t a x)
  then show ?case by (intro write_inv_take) (auto simp: sf_defs split: if_splits)
next
  case (write_store s t)
  note only = write_inv_only [OF write_store(2), of t]
  have w: "wholder s u \<longleftrightarrow> u = t" "sf_writer_active (the_lock s)" for u using write_store(1) only by (auto simp: wholder_def)
  show ?case
  proof (rule write_inv_single [where t = t])
    show "wholder (rw_at t RwIdle (set_owner (Some t) s)) u \<longleftrightarrow> u = t" for u using w(1) [of u] by (auto simp: wholder_def)
  qed (use w in simp_all)
next
  case (unlock_write s t)
  note only = write_inv_only [OF unlock_write(3), of t]
  have w: "wholder s u \<longleftrightarrow> u = t" "sf_writer_active (the_lock s)" for u using unlock_write(2) only by (auto simp: wholder_def)
  show ?case
  proof (rule write_inv_single [where t = t])
    show "wholder (rw_at t RwUnlockWrite (set_owner None s)) u \<longleftrightarrow> u = t" for u using w(1) [of u] by (auto simp: wholder_def)
  qed (use w in simp_all)
next
  case (unlock_write_host s t)
  note only = write_inv_only [OF unlock_write_host(2), of t]
  have w: "wholder s u \<longleftrightarrow> u = t" for u using unlock_write_host(1) only by (auto simp: wholder_def)
  have "the_owner s \<noteq> Some t" using unlock_write_host by (auto simp: write_inv_def)
  then show ?case using w by (intro write_inv_none) (auto simp: wholder_def sf_defs)
qed (erule write_inv_move; auto simp: sf_defs split: if_splits)+

lemma read_step: "rw_step s t e s' \<Longrightarrow> disciplined s t e \<Longrightarrow> write_inv s \<Longrightarrow> read_inv s \<Longrightarrow> read_inv s'"
proof (induction rule: rw_step.induct)
  case (unlock_read s t)
  then have "0 < rs_rdlock_count s t" by (simp add: disciplined_def)
  then have "0 < count (rs_shared s) t" using unlock_read(1,5) by (simp add: read_inv_def)
  then have mem: "t \<in># rs_shared s" by simp
  then have "\<not> sf_writer_active (the_lock s)" using unlock_read(5) by (auto simp: read_inv_def)
  then have "the_owner s = None" using unlock_read(4) by (cases "the_owner s") (auto simp: write_inv_def wholder_def)
  then show ?case using unlock_read(1,5) mem by (simp add: read_inv_def)
next
  case (unlock_read_host s t)
  then have mem: "t \<in># rs_shared s" by (simp add: read_inv_def)
  then obtain M where "rs_shared s = add_mset t M" by (blast dest: multi_member_split)
  then have "int (size (rs_shared s - {#t#})) = int (size (rs_shared s)) - 1" "0 < count (rs_shared s) t" by simp_all
  then show ?case using unlock_read_host(1,4) by (auto simp: read_inv_def sf_defs in_diff_count)
qed (auto simp: read_inv_def sf_defs split: if_splits)

lemma rw_run_inv: "rw_run s \<Longrightarrow> write_inv s \<and> read_inv s"
proof (induction rule: rw_run.induct)
  case rw_begin
  then show ?case by (auto simp: rw_start_def write_inv_def wholder_def read_inv_def PthreadRwlock_init_def SharedFirstMutex_init_def)
next
  case (rw_next s t e s')
  then show ?case using write_step read_step by blast
qed

section \<open>Exclusion\<close>







text \<open>Without the discipline: unlocking a free lock reports success and leaves a reader count of -1, after which no waiting writer
  is ever admitted.\<close>

lemma unlock_unheld:
  "\<exists>s. rw_step rw_start t RwUnlocked s \<and> (\<exists>s'. rw_step s t RwGo s' \<and> sf_readers (the_lock s') = -1 \<and> sf_lock (the_lock s') = None)"
proof (intro exI conjI)
  show "rw_step rw_start t RwUnlocked (rw_at t RwUnlockRead (if the_owner rw_start = None then add_rdlock t (-1) rw_start else rw_start))"
    by (rule unlock_read) (simp_all add: rw_start_def PthreadRwlock_init_def)
  show "rw_step (rw_at t RwUnlockRead (if the_owner rw_start = None then add_rdlock t (-1) rw_start else rw_start)) t RwGo
     (rw_at t RwIdle (set_lock (sf_unlock_shared (the_lock (rw_at t RwUnlockRead (if the_owner rw_start = None then add_rdlock t (-1) rw_start else rw_start))))
       (rw_at t RwUnlockRead (if the_owner rw_start = None then add_rdlock t (-1) rw_start else rw_start))
       \<lparr>rs_shared := rs_shared (rw_at t RwUnlockRead (if the_owner rw_start = None then add_rdlock t (-1) rw_start else rw_start)) - {#t#}\<rparr>))"
    by (rule unlock_read_host) simp
qed (simp_all add: rw_start_def PthreadRwlock_init_def SharedFirstMutex_init_def sf_defs)

text \<open>Static initialisation, destruction, and use after it.\<close>

lemma rwlock_static_cycle:
  "posix_pthread_rwlock_destroy RwlockInitializer = (None, RwlockInitializer)"
  "CHECK_AND_INIT_RWLOCK True RwlockInitializer = Inr (RwlockPtr PthreadRwlock_init)"
  "CHECK_AND_INIT_RWLOCK memory RwlockDestroyed = Inl POSIX_EINVAL"
  "posix_pthread_rwlock_init True sdk attr = (None, v) \<Longrightarrow> v = RwlockPtr PthreadRwlock_init \<and> posix_pthread_rwlock_destroy v = (None, RwlockDestroyed)"
  by (auto simp: posix_pthread_rwlock_destroy_def CHECK_AND_INIT_RWLOCK_def rwlock_InitStatic_def posix_pthread_rwlock_init_def RwlockInit_def
      split: option.splits if_splits sum.splits)

text \<open>The attribute setter tests the old type instead of the new one: it stores any type once, and the attribute is then unusable.\<close>

lemma rwlockattr_settype_unchecked:
  "posix_pthread_rwlockattr_settype_np 7 (Some (Some \<lparr>ra_pshared = 0, ra_type = 0\<rparr>)) = (None, Some (Some \<lparr>ra_pshared = 0, ra_type = 7\<rparr>))"
  "posix_pthread_rwlockattr_gettype_np (Some (Some \<lparr>ra_pshared = 0, ra_type = 7\<rparr>)) = Inl POSIX_EINVAL"
  "posix_pthread_rwlockattr_settype_np 0 (Some (Some \<lparr>ra_pshared = 0, ra_type = 7\<rparr>)) = (Some POSIX_EINVAL, Some (Some \<lparr>ra_pshared = 0, ra_type = 7\<rparr>))"
  by (simp_all add: posix_pthread_rwlockattr_settype_np_def posix_pthread_rwlockattr_gettype_np_def)

section \<open>The write side as a lock\<close>

lemma owner_other:
  assumes "rw_step s u e s'" "rw_run s" "the_owner s = Some t" "u \<noteq> t"
  shows "the_owner s' = Some t"
proof -
  have w: "write_inv s" using rw_run_inv [OF assms(2)] by blast
  have "\<not> storing (rs_pc s u)" using write_inv_only [OF w, of t u] assms(3,4) by (auto simp: wholder_def)
  with assms(1,3,4) show ?thesis by (induction rule: rw_step.induct) (auto split: if_splits)
qed

interpretation rwlock_write: exclusive_lock rw_run "\<lambda>s t s'. \<exists>e. rw_step s t e s' \<and> disciplined s t e" "\<lambda>s t. the_owner s = Some t"
proof
  show "rw_run s'" if "rw_run s" "\<exists>e. rw_step s t e s' \<and> disciplined s t e" for s t s' using that rw_next by blast
  show "the_owner s' = Some t" if "rw_run s" "the_owner s = Some t" "\<exists>e. rw_step s u e s' \<and> disciplined s u e" "u \<noteq> t" for s t u s'
    using that owner_other by blast
qed simp

lemmas rwlock_write_protects = rwlock_write.protected_data

end
