(* ===== verification/Sleep_Queue.thy ===== *)
theory Sleep_Queue
  imports Prelude
begin

text \<open>
  The sleep queues of \<^verbatim>\<open>src/src/core/libraries/kernel/threads/sleepq.cpp\<close>.  Every thread brings one \<open>SleepQueue\<close>
  object along.  The first thread that sleeps on a channel links its object into the hash table; every later one donates its own
  to the free list of that object, and a thread that leaves takes some object of the free list with it, or the linked object if it
  is the last.  So the objects wander between threads and nothing is allocated.

  An object is a number, a channel is the address of a condition variable (0 is the null pointer).  The table and the fields of
  objects and threads are functions.  \<open>None\<close> is a failed assertion or a null or past-the-end dereference.  The locks of the chains belong
  to the callers.  The interface \<open>sleep_queues\<close> states what the condition variables use; \<open>sleepq_refinement\<close>
  shows that the wandering objects implement one queue per channel.
\<close>

type_synonym thread = nat
type_synonym wchan = nat

section \<open>State\<close>

record sleep_state =
  sc_queues :: "nat \<Rightarrow> nat list"
  sq_blocked :: "nat \<Rightarrow> thread list"
  sq_freeq :: "nat \<Rightarrow> nat list"
  sq_wchan :: "nat \<Rightarrow> wchan"
  td_sleepqueue :: "thread \<Rightarrow> nat option"
  td_wchan :: "thread \<Rightarrow> wchan"

text \<open>Thread \<open>t\<close> is created with the object \<open>t\<close>.\<close>

definition sleepq_init :: sleep_state where
  "sleepq_init = \<lparr>sc_queues = (\<lambda>_. []), sq_blocked = (\<lambda>_. []), sq_freeq = (\<lambda>_. []), sq_wchan = (\<lambda>_. 0),
     td_sleepqueue = Some, td_wchan = (\<lambda>_. 0)\<rparr>"

definition SC_HASH :: "wchan \<Rightarrow> nat" where
  "SC_HASH wchan = (drop_bit 3 wchan XOR drop_bit 12 wchan) AND 511"

text \<open>\<open>unlink\<close> of an intrusive list hook: the object leaves the list it is in.\<close>

definition sq_unlink :: "nat \<Rightarrow> sleep_state \<Rightarrow> sleep_state" where
  "sq_unlink q s = s\<lparr>sc_queues := (\<lambda>h. removeAll q (sc_queues s h)), sq_freeq := (\<lambda>r. removeAll q (sq_freeq s r))\<rparr>"

section \<open>Operations\<close>

definition SleepqLookup :: "wchan \<Rightarrow> sleep_state \<Rightarrow> nat option" where
  "SleepqLookup wchan s = find (\<lambda>q. sq_wchan s q = wchan) (sc_queues s (SC_HASH wchan))"

definition SleepqAdd :: "wchan \<Rightarrow> thread \<Rightarrow> sleep_state \<Rightarrow> sleep_state option" where
  "SleepqAdd wchan td s = do {
     own \<leftarrow> td_sleepqueue s td;
     let (sq, s) = (case SleepqLookup wchan s of
         Some sq \<Rightarrow> (sq, s\<lparr>sq_freeq := (sq_freeq s)(sq := own # sq_freeq s sq)\<rparr>)
       | None \<Rightarrow> (own, s\<lparr>sc_queues := (sc_queues s)(SC_HASH wchan := own # sc_queues s (SC_HASH wchan)), sq_wchan := (sq_wchan s)(own := wchan)\<rparr>));
     Some (s\<lparr>td_sleepqueue := (td_sleepqueue s)(td := None), td_wchan := (td_wchan s)(td := wchan),
       sq_blocked := (sq_blocked s)(sq := sq_blocked s sq @ [td])\<rparr>)
   }"

definition SleepqRemove :: "nat \<Rightarrow> thread \<Rightarrow> sleep_state \<Rightarrow> (bool \<times> sleep_state) option" where
  "SleepqRemove sq td s =
    (if count_list (sq_blocked s sq) td \<noteq> 1 then None
     else (let s = s\<lparr>sq_blocked := (sq_blocked s)(sq := removeAll td (sq_blocked s sq)), td_wchan := (td_wchan s)(td := 0)\<rparr> in
       if sq_blocked s sq = [] then Some (False, sq_unlink sq (s\<lparr>td_sleepqueue := (td_sleepqueue s)(td := Some sq)\<rparr>))
       else (case sq_freeq s sq of
           [] \<Rightarrow> None
         | q # qs \<Rightarrow> Some (True, s\<lparr>td_sleepqueue := (td_sleepqueue s)(td := Some q), sq_freeq := (sq_freeq s)(sq := qs)\<rparr>))))"

text \<open>The loop of \<open>SleepqDrop\<close> hands the objects of the free list out.  The function also returns the threads for which the callback is
  called, in that order.\<close>

fun drop_rest :: "thread list \<Rightarrow> nat list \<Rightarrow> sleep_state \<Rightarrow> sleep_state option" where
  "drop_rest [] qs s = Some s"
| "drop_rest (td # tds) [] s = None"
| "drop_rest (td # tds) (q # qs) s =
    drop_rest tds qs (s\<lparr>td_sleepqueue := (td_sleepqueue s)(td := Some q), td_wchan := (td_wchan s)(td := 0)\<rparr>)"

definition SleepqDrop :: "nat \<Rightarrow> sleep_state \<Rightarrow> (thread list \<times> sleep_state) option" where
  "SleepqDrop sq s = (case sq_blocked s sq of
     [] \<Rightarrow> Some ([], s)
   | td # tds \<Rightarrow> do {
       let s = sq_unlink sq s;
       let s = s\<lparr>td_sleepqueue := (td_sleepqueue s)(td := Some sq), td_wchan := (td_wchan s)(td := 0)\<rparr>;
       s \<leftarrow> drop_rest tds (sq_freeq s sq) s;
       Some (td # tds, s\<lparr>sq_blocked := (sq_blocked s)(sq := []), sq_freeq := (sq_freeq s)(sq := [])\<rparr>)
     })"

text \<open>The callers look the queue of their channel up first.\<close>

definition sleep_remove :: "wchan \<Rightarrow> thread \<Rightarrow> sleep_state \<Rightarrow> (bool \<times> sleep_state) option" where
  "sleep_remove w t s = do { sq \<leftarrow> SleepqLookup w s; SleepqRemove sq t s }"

definition sleep_drop :: "wchan \<Rightarrow> sleep_state \<Rightarrow> (thread list \<times> sleep_state) option" where
  "sleep_drop w s = (case SleepqLookup w s of None \<Rightarrow> Some ([], s) | Some sq \<Rightarrow> SleepqDrop sq s)"

text \<open>The threads asleep on a channel, oldest first.\<close>

definition sleepers :: "sleep_state \<Rightarrow> wchan \<Rightarrow> thread list" where
  "sleepers s wchan = (case SleepqLookup wchan s of None \<Rightarrow> [] | Some sq \<Rightarrow> sq_blocked s sq)"

section \<open>Invariant\<close>

text \<open>\<open>linked s q\<close>: the object is in the table.  Objects that are not linked are empty; a linked object has one free object less than it has
  sleepers; every object has one place, a thread or a list.\<close>

definition linked :: "sleep_state \<Rightarrow> nat \<Rightarrow> bool" where
  "linked s q \<longleftrightarrow> q \<in> set (sc_queues s (SC_HASH (sq_wchan s q)))"

definition chain_ok :: "sleep_state \<Rightarrow> bool" where
  "chain_ok s \<longleftrightarrow> (\<forall>h. distinct (map (sq_wchan s) (sc_queues s h)) \<and> (\<forall>q \<in> set (sc_queues s h). SC_HASH (sq_wchan s q) = h \<and> sq_wchan s q \<noteq> 0))"

definition object_ok :: "sleep_state \<Rightarrow> bool" where
  "object_ok s \<longleftrightarrow>
     (\<forall>q. if linked s q then length (sq_blocked s q) = Suc (length (sq_freeq s q)) \<and> distinct (sq_blocked s q) \<and> distinct (sq_freeq s q)
          else sq_blocked s q = [] \<and> sq_freeq s q = []) \<and>
     (\<forall>q t. t \<in> set (sq_blocked s q) \<longleftrightarrow> linked s q \<and> td_wchan s t = sq_wchan s q)"

fun home :: "sleep_state \<Rightarrow> nat \<Rightarrow> thread + nat \<Rightarrow> bool" where
  "home s q (Inl t) = (td_sleepqueue s t = Some q)"
| "home s q (Inr p) = (q \<in> set (sq_freeq s p))"

definition place_ok :: "sleep_state \<Rightarrow> bool" where
  "place_ok s \<longleftrightarrow>
     (\<forall>t. td_wchan s t = 0 \<longleftrightarrow> td_sleepqueue s t \<noteq> None) \<and>
     (\<forall>t. td_wchan s t \<noteq> 0 \<longrightarrow> (\<exists>q. linked s q \<and> sq_wchan s q = td_wchan s t)) \<and>
     (\<forall>q x. home s q x \<longrightarrow> \<not> linked s q) \<and> (\<forall>q x y. home s q x \<longrightarrow> home s q y \<longrightarrow> x = y)"

definition sleepq_inv :: "sleep_state \<Rightarrow> bool" where
  "sleepq_inv s \<longleftrightarrow> chain_ok s \<and> object_ok s \<and> place_ok s"

lemma sleepq_inv_init: "sleepq_inv sleepq_init"
proof -
  have "home sleepq_init q x \<longleftrightarrow> x = Inl q" for q x by (cases x) (auto simp: sleepq_init_def)
  then have "place_ok sleepq_init" unfolding place_ok_def by (auto simp: sleepq_init_def linked_def)
  then show ?thesis by (simp add: sleepq_inv_def chain_ok_def object_ok_def linked_def sleepq_init_def)
qed

lemma object_okI:
  assumes "\<And>q. linked s q \<Longrightarrow> length (sq_blocked s q) = Suc (length (sq_freeq s q)) \<and> distinct (sq_blocked s q) \<and> distinct (sq_freeq s q)"
    and "\<And>q. \<not> linked s q \<Longrightarrow> sq_blocked s q = [] \<and> sq_freeq s q = []"
    and "\<And>q t. linked s q \<Longrightarrow> t \<in> set (sq_blocked s q) \<longleftrightarrow> td_wchan s t = sq_wchan s q"
  shows "object_ok s"
  using assms unfolding object_ok_def by (metis empty_iff list.set(1))

lemma object_okD:
  assumes "object_ok s"
  shows "linked s q \<Longrightarrow> length (sq_blocked s q) = Suc (length (sq_freeq s q)) \<and> distinct (sq_blocked s q) \<and> distinct (sq_freeq s q)"
    and "\<not> linked s q \<Longrightarrow> sq_blocked s q = [] \<and> sq_freeq s q = []"
    and "linked s q \<Longrightarrow> t \<in> set (sq_blocked s q) \<longleftrightarrow> td_wchan s t = sq_wchan s q"
  using assms unfolding object_ok_def by presburger+

lemma place_okI:
  assumes "\<And>t. td_wchan s t = 0 \<longleftrightarrow> td_sleepqueue s t \<noteq> None"
    and "\<And>t. td_wchan s t \<noteq> 0 \<Longrightarrow> \<exists>q. linked s q \<and> sq_wchan s q = td_wchan s t"
    and "\<And>q x. home s q x \<Longrightarrow> \<not> linked s q" and "\<And>q x y. home s q x \<Longrightarrow> home s q y \<Longrightarrow> x = y"
  shows "place_ok s"
  using assms unfolding place_ok_def by blast

lemma place_okD:
  assumes "place_ok s"
  shows "td_wchan s t = 0 \<longleftrightarrow> td_sleepqueue s t \<noteq> None"
    and "td_wchan s t \<noteq> 0 \<Longrightarrow> \<exists>q. linked s q \<and> sq_wchan s q = td_wchan s t"
    and "home s q x \<Longrightarrow> \<not> linked s q" and "home s q x \<Longrightarrow> home s q y \<Longrightarrow> x = y"
  using assms unfolding place_ok_def by blast+

text \<open>Moving an object to one new home, or into the table.\<close>

lemma one_home:
  assumes "place_ok s" "\<And>r x. home s' r x \<longleftrightarrow> (if r = q then x = z else home s r x)"
  shows "home s' r x \<Longrightarrow> home s' r y \<Longrightarrow> x = y"
  using place_okD(4) [OF assms(1)] assms(2) by (auto split: if_splits)

section \<open>Lookup\<close>

lemma linked_chain: "chain_ok s \<Longrightarrow> q \<in> set (sc_queues s h) \<Longrightarrow> linked s q \<and> SC_HASH (sq_wchan s q) = h \<and> sq_wchan s q \<noteq> 0"
  by (auto simp: chain_ok_def linked_def)

lemma linked_nonzero: "chain_ok s \<Longrightarrow> linked s q \<Longrightarrow> sq_wchan s q \<noteq> 0"
  by (auto simp: chain_ok_def linked_def)

lemma linked_unique:
  assumes "chain_ok s" "linked s p" "linked s q" "sq_wchan s p = sq_wchan s q" shows "p = q"
proof -
  have "inj_on (sq_wchan s) (set (sc_queues s (SC_HASH (sq_wchan s q))))" using assms(1) by (simp add: chain_ok_def distinct_map)
  then show ?thesis using assms(2-4) by (auto simp: linked_def inj_on_def)
qed

lemma lookup_Some: "chain_ok s \<Longrightarrow> SleepqLookup w s = Some q \<longleftrightarrow> linked s q \<and> sq_wchan s q = w"
proof
  assume "chain_ok s" "SleepqLookup w s = Some q"
  then show "linked s q \<and> sq_wchan s q = w" by (auto simp: SleepqLookup_def linked_def find_Some_iff)
next
  assume c: "chain_ok s" "linked s q \<and> sq_wchan s q = w"
  then obtain p where "SleepqLookup w s = Some p" unfolding SleepqLookup_def linked_def by (cases "find (\<lambda>q. sq_wchan s q = w) (sc_queues s (SC_HASH w))") (auto simp: find_None_iff)
  moreover from this have "linked s p \<and> sq_wchan s p = w" by (auto simp: SleepqLookup_def linked_def find_Some_iff)
  ultimately show "SleepqLookup w s = Some q" using linked_unique [OF c(1)] c(2) by metis
qed

lemma lookup_None: "chain_ok s \<Longrightarrow> SleepqLookup w s = None \<longleftrightarrow> (\<forall>q. linked s q \<longrightarrow> sq_wchan s q \<noteq> w)"
  using lookup_Some [of s w] by (metis not_Some_eq)

lemma sleepers_linked: "chain_ok s \<Longrightarrow> linked s q \<Longrightarrow> sleepers s (sq_wchan s q) = sq_blocked s q"
  using lookup_Some [of s "sq_wchan s q" q] by (simp add: sleepers_def)

text \<open>Two states with the same channels and sleepers of linked objects have the same queues.\<close>

lemma sleepers_eqI:
  assumes "chain_ok s" "\<And>q. linked s q \<Longrightarrow> f (sq_wchan s q) = sq_blocked s q" "\<And>w. (\<forall>q. linked s q \<longrightarrow> sq_wchan s q \<noteq> w) \<Longrightarrow> f w = []"
  shows "sleepers s = f"
proof
  fix w
  show "sleepers s w = f w"
  proof (cases "SleepqLookup w s")
    case None
    then have "f w = []" using lookup_None [OF assms(1)] by (intro assms(3)) blast
    then show ?thesis using None by (simp add: sleepers_def)
  next
    case (Some q)
    then have "linked s q" "sq_wchan s q = w" using lookup_Some [OF assms(1)] by auto
    then show ?thesis using Some assms(2) [of q] by (simp add: sleepers_def)
  qed
qed

lemma inv_sleepers:
  assumes "sleepq_inv s"
  shows "t \<in> set (sleepers s w) \<longleftrightarrow> w \<noteq> 0 \<and> td_wchan s t = w" "distinct (sleepers s w)" "SleepqLookup w s = None \<longleftrightarrow> sleepers s w = []"
proof -
  have c: "chain_ok s" "object_ok s" "place_ok s" using assms by (auto simp: sleepq_inv_def)
  have all: "(t \<in> set (sleepers s w) \<longleftrightarrow> w \<noteq> 0 \<and> td_wchan s t = w) \<and> distinct (sleepers s w) \<and> (SleepqLookup w s = None \<longleftrightarrow> sleepers s w = [])"
  proof (cases "SleepqLookup w s")
    case None
    then have "td_wchan s t \<noteq> w \<or> w = 0" using lookup_None [OF c(1)] c(3) by (auto simp: place_ok_def)
    then show ?thesis using None by (auto simp: sleepers_def)
  next
    case (Some q)
    then have q: "linked s q" "sq_wchan s q = w" "w \<noteq> 0" using lookup_Some [OF c(1)] linked_nonzero [OF c(1)] by auto
    then have "length (sq_blocked s q) = Suc (length (sq_freeq s q)) \<and> distinct (sq_blocked s q)" using c(2) by (auto simp: object_ok_def)
    moreover from this have "sq_blocked s q \<noteq> []" by auto
    ultimately show ?thesis using Some q c(2) by (auto simp: sleepers_def object_ok_def)
  qed
  show "t \<in> set (sleepers s w) \<longleftrightarrow> w \<noteq> 0 \<and> td_wchan s t = w" "distinct (sleepers s w)" "SleepqLookup w s = None \<longleftrightarrow> sleepers s w = []"
    using all by auto
qed

lemma sleepers_none: "chain_ok s \<Longrightarrow> (\<And>q. linked s q \<Longrightarrow> sq_wchan s q \<noteq> w) \<Longrightarrow> sleepers s w = []"
  using lookup_None [of s w] by (simp add: sleepers_def)

section \<open>Adding a sleeper\<close>

lemma add_ok:
  assumes inv: "sleepq_inv s" and w: "w \<noteq> 0" and t: "td_wchan s t = 0"
  shows "\<exists>s'. SleepqAdd w t s = Some s' \<and> sleepq_inv s' \<and> td_wchan s' = (td_wchan s)(t := w) \<and> sleepers s' = (sleepers s)(w := sleepers s w @ [t])"
proof -
  have c: "chain_ok s" "object_ok s" "place_ok s" using inv by (auto simp: sleepq_inv_def)
  obtain own where own: "td_sleepqueue s t = Some own" using c(3) t by (auto simp: place_ok_def)
  have h: "home s own x \<longleftrightarrow> x = Inl t" for x using place_okD(4) [OF c(3), of own x "Inl t"] own by auto
  have fresh: "\<not> linked s own" using place_okD(3) [OF c(3), of own "Inl t"] own by simp
  have h': "home s p (Inl t) \<longleftrightarrow> p = own" for p using own by auto
  have empty: "sq_blocked s own = []" "sq_freeq s own = []" using c(2) fresh by (auto simp: object_ok_def)
  show ?thesis
  proof (cases "SleepqLookup w s")
    case (Some q)
    then have q: "linked s q" "sq_wchan s q = w" using lookup_Some [OF c(1)] by auto
    define s' where "s' = s\<lparr>sq_freeq := (sq_freeq s)(q := own # sq_freeq s q), td_sleepqueue := (td_sleepqueue s)(t := None),
      td_wchan := (td_wchan s)(t := w), sq_blocked := (sq_blocked s)(q := sq_blocked s q @ [t])\<rparr>"
    have l: "linked s' p = linked s p" for p by (simp add: s'_def linked_def)
    have nt: "t \<notin> set (sq_blocked s p)" for p using c(2) t linked_nonzero [OF c(1)] by (auto simp: object_ok_def)
    have wq: "sq_wchan s p = w \<longleftrightarrow> p = q" if "linked s p" for p using linked_unique [OF c(1) that q(1)] q(2) by auto
    have c': "chain_ok s'" using c(1) by (simp add: s'_def chain_ok_def)
    have nf: "own \<notin> set (sq_freeq s q)" using h [of "Inr q"] by simp
    have o': "object_ok s'" using c(2) q nt nf fresh wq unfolding object_ok_def l by (auto simp: s'_def)
    have hm: "home s' r x \<longleftrightarrow> (if r = own then x = Inr q else home s r x)" for r x
      using h [of x] h' [of r] by (cases x) (auto simp: s'_def)
    have p': "place_ok s'"
    proof (rule place_okI)
      show "\<exists>p. linked s' p \<and> sq_wchan s' p = td_wchan s' u" if "td_wchan s' u \<noteq> 0" for u
        using that place_okD(2) [OF c(3), of u] q unfolding l by (cases "u = t") (auto simp: s'_def)
      show "td_wchan s' u = 0 \<longleftrightarrow> td_sleepqueue s' u \<noteq> None" for u using place_okD(1) [OF c(3), of u] w by (simp add: s'_def)
      show "\<not> linked s' r" if "home s' r x" for r x using that place_okD(3) [OF c(3)] fresh unfolding l hm by (auto split: if_splits)
    qed (rule one_home [OF c(3) hm])
    have "sleepers s' = (sleepers s)(w := sleepers s w @ [t])"
    proof (rule sleepers_eqI [OF c'])
      show "((sleepers s)(w := sleepers s w @ [t])) (sq_wchan s' p) = sq_blocked s' p" if "linked s' p" for p
        using sleepers_linked [OF c(1), of p] wq [of p] that q(2) unfolding l by (auto simp: s'_def)
      show "((sleepers s)(w := sleepers s w @ [t])) v = []" if "\<forall>p. linked s' p \<longrightarrow> sq_wchan s' p \<noteq> v" for v
        using that q sleepers_none [OF c(1), of v] unfolding l by (auto simp: s'_def)
    qed
    moreover have "SleepqAdd w t s = Some s'" by (simp add: SleepqAdd_def own Some s'_def Let_def)
    ultimately show ?thesis using c' o' p' by (simp add: sleepq_inv_def s'_def)
  next
    case None
    then have no: "\<And>p. linked s p \<Longrightarrow> sq_wchan s p \<noteq> w" using lookup_None [OF c(1)] by blast
    define s' where "s' = s\<lparr>sc_queues := (sc_queues s)(SC_HASH w := own # sc_queues s (SC_HASH w)), sq_wchan := (sq_wchan s)(own := w),
      td_sleepqueue := (td_sleepqueue s)(t := None), td_wchan := (td_wchan s)(t := w), sq_blocked := (sq_blocked s)(own := sq_blocked s own @ [t])\<rparr>"
    have notin: "own \<notin> set (sc_queues s h)" for h using linked_chain [OF c(1)] fresh(1) by blast
    have l: "linked s' p \<longleftrightarrow> p = own \<or> linked s p" for p by (auto simp: s'_def linked_def)
    have map: "map ((sq_wchan s)(own := w)) (sc_queues s h) = map (sq_wchan s) (sc_queues s h)" for h using notin by (auto intro: map_cong)
    have nw: "w \<notin> sq_wchan s ` set (sc_queues s (SC_HASH w))" using no linked_chain [OF c(1)] by blast
    have c': "chain_ok s'" using c(1) nw w notin unfolding chain_ok_def by (auto simp: s'_def map)
    have ld: "linked s p \<Longrightarrow> p \<noteq> own" for p using fresh(1) by auto
    have nt: "td_wchan s u \<noteq> w" for u using c(3) no w unfolding place_ok_def by metis
    have tw: "td_wchan s t \<noteq> sq_wchan s p" if "linked s p" for p using linked_nonzero [OF c(1) that] t by simp
    have o': "object_ok s'" using c(2) empty ld fresh no nt tw unfolding object_ok_def l by (auto simp: s'_def)
    have hm: "home s' r x \<longleftrightarrow> r \<noteq> own \<and> home s r x" for r x
      using h [of x] h' [of r] by (cases x) (auto simp: s'_def)
    have p': "place_ok s'"
    proof (rule place_okI)
      show "\<exists>p. linked s' p \<and> sq_wchan s' p = td_wchan s' u" if "td_wchan s' u \<noteq> 0" for u
        using that place_okD(2) [OF c(3), of u] ld unfolding l by (cases "u = t") (auto simp: s'_def)
      show "td_wchan s' u = 0 \<longleftrightarrow> td_sleepqueue s' u \<noteq> None" for u using place_okD(1) [OF c(3), of u] w by (simp add: s'_def)
      show "\<not> linked s' r" if "home s' r x" for r x using that place_okD(3) [OF c(3)] unfolding l hm by auto
      show "x = y" if "home s' r x" "home s' r y" for r x y using that place_okD(4) [OF c(3)] unfolding hm by blast
    qed
    have "sleepers s' = (sleepers s)(w := sleepers s w @ [t])"
    proof (rule sleepers_eqI [OF c'])
      show "((sleepers s)(w := sleepers s w @ [t])) (sq_wchan s' p) = sq_blocked s' p" if "linked s' p" for p
        using sleepers_linked [OF c(1), of p] no [of p] ld [of p] that empty sleepers_none [OF c(1) no] unfolding l by (auto simp: s'_def)
      show "((sleepers s)(w := sleepers s w @ [t])) v = []" if "\<forall>p. linked s' p \<longrightarrow> sq_wchan s' p \<noteq> v" for v
        using that ld sleepers_none [OF c(1), of v] unfolding l by (auto simp: s'_def)
    qed
    moreover have "SleepqAdd w t s = Some s'" by (simp add: SleepqAdd_def own None s'_def Let_def)
    ultimately show ?thesis using c' o' p' by (simp add: sleepq_inv_def s'_def)
  qed
qed

section \<open>Removing a sleeper\<close>

lemma unlink_linked:
  assumes "chain_ok s" "place_ok s" "linked s q"
  shows "linked (sq_unlink q s) p \<longleftrightarrow> linked s p \<and> p \<noteq> q" "sq_freeq (sq_unlink q s) = sq_freeq s" "chain_ok (sq_unlink q s)"
proof -
  show "linked (sq_unlink q s) p \<longleftrightarrow> linked s p \<and> p \<noteq> q" by (auto simp: linked_def sq_unlink_def)
  have "q \<notin> set (sq_freeq s r)" for r using place_okD(3) [OF assms(2), of q "Inr r"] assms(3) by auto
  then show "sq_freeq (sq_unlink q s) = sq_freeq s" by (simp add: sq_unlink_def removeAll_id)
  have "distinct (map (sq_wchan s) (removeAll q (sc_queues s h)))" for h
    using assms(1) by (auto simp: chain_ok_def distinct_map distinct_removeAll intro: inj_on_subset)
  then show "chain_ok (sq_unlink q s)" using assms(1) unfolding chain_ok_def by (simp add: sq_unlink_def) blast
qed

lemma remove_ok:
  assumes inv: "sleepq_inv s" and q: "SleepqLookup w s = Some q" and t: "t \<in> set (sleepers s w)"
  shows "\<exists>s'. SleepqRemove q t s = Some (sleepers s' w \<noteq> [], s') \<and> sleepq_inv s' \<and> td_wchan s' = (td_wchan s)(t := 0) \<and>
    sleepers s' = (sleepers s)(w := removeAll t (sleepers s w))"
proof -
  have c: "chain_ok s" "object_ok s" "place_ok s" using inv by (auto simp: sleepq_inv_def)
  have l: "linked s q" "sq_wchan s q = w" using lookup_Some [OF c(1)] q by auto
  have tq: "t \<in> set (sq_blocked s q)" "distinct (sq_blocked s q)" "length (sq_blocked s q) = Suc (length (sq_freeq s q))" "distinct (sq_freeq s q)"
    using t l c(2) sleepers_linked [OF c(1) l(1)] by (auto simp: object_ok_def)
  have wt: "td_wchan s t = w" "w \<noteq> 0" using tq(1) l c(2) linked_nonzero [OF c(1) l(1)] by (auto simp: object_ok_def)
  have ns: "td_sleepqueue s t = None" using place_okD(1) [OF c(3), of t] wt by auto
  have nh: "\<not> home s q x" for x using place_okD(3) [OF c(3)] l(1) by blast
  have cnt: "count_list (sq_blocked s q) t = 1" using tq(1,2) by (simp add: count_list_distinct)
  have wq: "sq_wchan s p = w \<longleftrightarrow> p = q" if "linked s p" for p using linked_unique [OF c(1) that l(1)] l(2) by auto
  have wo: "td_wchan s t \<noteq> sq_wchan s p \<and> sq_wchan s p \<noteq> 0" if "linked s p" "p \<noteq> q" for p
    using wq [OF that(1)] that(2) wt linked_nonzero [OF c(1) that(1)] by auto
  have len: "length (removeAll t (sq_blocked s q)) = length (sq_freeq s q)"
    using tq(1-3) by (simp add: distinct_remove1_removeAll [symmetric] length_remove1)
  show ?thesis
  proof (cases "sq_freeq s q")
    case Nil
    then have r: "removeAll t (sq_blocked s q) = []" using len by simp
    define s' where "s' = sq_unlink q (s\<lparr>sq_blocked := (sq_blocked s)(q := []), td_wchan := (td_wchan s)(t := 0), td_sleepqueue := (td_sleepqueue s)(t := Some q)\<rparr>)"
    have fq: "q \<notin> set (sq_freeq s r)" for r using nh [of "Inr r"] by simp
    have l': "linked s' p \<longleftrightarrow> linked s p \<and> p \<noteq> q" for p by (auto simp: s'_def sq_unlink_def linked_def)
    have same: "sc_queues s' = sc_queues (sq_unlink q s)" "sq_wchan s' = sq_wchan (sq_unlink q s)" by (simp_all add: s'_def sq_unlink_def)
    have c': "chain_ok s'" using unlink_linked(3) [OF c(1,3) l(1)] unfolding chain_ok_def same .
    have only: "u = t" if "u \<in> set (sq_blocked s q)" for u using r that by (metis Diff_iff empty_iff list.set(1) set_removeAll singletonD)
    have o': "object_ok s'"
    proof (rule object_okI; unfold l')
      show "length (sq_blocked s' p) = Suc (length (sq_freeq s' p)) \<and> distinct (sq_blocked s' p) \<and> distinct (sq_freeq s' p)" if "linked s p \<and> p \<noteq> q" for p
        using that object_okD(1) [OF c(2), of p] by (simp add: s'_def sq_unlink_def fq removeAll_id)
      show "sq_blocked s' p = [] \<and> sq_freeq s' p = []" if "\<not> (linked s p \<and> p \<noteq> q)" for p
        using that object_okD(2) [OF c(2), of p] Nil by (cases "p = q") (auto simp: s'_def sq_unlink_def fq removeAll_id)
      show "u \<in> set (sq_blocked s' p) \<longleftrightarrow> td_wchan s' u = sq_wchan s' p" if "linked s p \<and> p \<noteq> q" for p u
        using that object_okD(3) [OF c(2), of p u] wo [of p] by (auto simp: s'_def sq_unlink_def)
    qed
    have hm: "home s' r x \<longleftrightarrow> (if r = q then x = Inl t else home s r x)" for r x
      using ns nh [of x] by (cases x) (auto simp: s'_def sq_unlink_def fq removeAll_id)
    have p': "place_ok s'"
    proof (rule place_okI)
      show "\<exists>p. linked s' p \<and> sq_wchan s' p = td_wchan s' u" if "td_wchan s' u \<noteq> 0" for u
      proof -
        have u: "u \<noteq> t" "td_wchan s u \<noteq> 0" using that by (auto simp: s'_def sq_unlink_def split: if_splits)
        then obtain p where "linked s p" "sq_wchan s p = td_wchan s u" using place_okD(2) [OF c(3)] by blast
        moreover from this have "p \<noteq> q" using only [of u] u(1) c(2) by (auto simp: object_ok_def)
        ultimately show ?thesis using u(1) unfolding l' by (auto simp: s'_def sq_unlink_def)
      qed
      show "td_wchan s' u = 0 \<longleftrightarrow> td_sleepqueue s' u \<noteq> None" for u using place_okD(1) [OF c(3), of u] by (simp add: s'_def sq_unlink_def)
      show "\<not> linked s' r" if "home s' r x" for r x using that place_okD(3) [OF c(3)] unfolding l' hm by (auto split: if_splits)
    qed (rule one_home [OF c(3) hm])
    have sl: "sleepers s' = (sleepers s)(w := removeAll t (sleepers s w))"
    proof (rule sleepers_eqI [OF c'])
      show "((sleepers s)(w := removeAll t (sleepers s w))) (sq_wchan s' p) = sq_blocked s' p" if "linked s' p" for p
        using sleepers_linked [OF c(1), of p] wq [of p] that unfolding l' by (auto simp: s'_def sq_unlink_def)
      show "((sleepers s)(w := removeAll t (sleepers s w))) v = []" if "\<forall>p. linked s' p \<longrightarrow> sq_wchan s' p \<noteq> v" for v
        using that l r sleepers_linked [OF c(1) l(1), unfolded l(2)] wq sleepers_none [OF c(1), of v] unfolding l' by (auto simp: s'_def sq_unlink_def)
    qed
    moreover have "SleepqRemove q t s = Some (sleepers s' w \<noteq> [], s')"
      using cnt r sleepers_linked [OF c(1) l(1)] l(2) unfolding sl by (simp add: SleepqRemove_def Let_def s'_def)
    ultimately show ?thesis using c' o' p' by (auto simp: sleepq_inv_def s'_def sq_unlink_def)
  next
    case (Cons p ps)
    then have r: "removeAll t (sq_blocked s q) \<noteq> []" using len by auto
    define s' where "s' = s\<lparr>sq_blocked := (sq_blocked s)(q := removeAll t (sq_blocked s q)), td_wchan := (td_wchan s)(t := 0),
      td_sleepqueue := (td_sleepqueue s)(t := Some p), sq_freeq := (sq_freeq s)(q := ps)\<rparr>"
    have l': "linked s' r = linked s r" for r by (simp add: s'_def linked_def)
    have hp: "home s p x \<longleftrightarrow> x = Inr q" for x using place_okD(4) [OF c(3), of p x "Inr q"] Cons by auto
    have lp: "\<not> linked s p" using hp place_okD(3) [OF c(3)] by blast
    have c': "chain_ok s'" using c(1) by (simp add: s'_def chain_ok_def)
    have o': "object_ok s'"
    proof (rule object_okI; unfold l')
      show "length (sq_blocked s' p) = Suc (length (sq_freeq s' p)) \<and> distinct (sq_blocked s' p) \<and> distinct (sq_freeq s' p)" if "linked s p" for p
        using object_okD(1) [OF c(2) that] Cons len tq by (auto simp: s'_def distinct_removeAll)
      show "sq_blocked s' p = [] \<and> sq_freeq s' p = []" if "\<not> linked s p" for p
        using object_okD(2) [OF c(2) that] l(1) that by (auto simp: s'_def)
      show "u \<in> set (sq_blocked s' p) \<longleftrightarrow> td_wchan s' u = sq_wchan s' p" if "linked s p" for p u
        using object_okD(3) [OF c(2) that, of u] wo [of p] that l(2) wt by (auto simp: s'_def)
    qed
    have hm: "home s' r x \<longleftrightarrow> (if r = p then x = Inl t else home s r x)" for r x
      using ns hp [of x] Cons tq(4) by (cases x) (auto simp: s'_def)
    have p': "place_ok s'"
    proof (rule place_okI)
      show "\<exists>p. linked s' p \<and> sq_wchan s' p = td_wchan s' u" if "td_wchan s' u \<noteq> 0" for u
        using that place_okD(2) [OF c(3), of u] unfolding l' by (cases "u = t") (auto simp: s'_def)
      show "td_wchan s' u = 0 \<longleftrightarrow> td_sleepqueue s' u \<noteq> None" for u using place_okD(1) [OF c(3), of u] by (simp add: s'_def)
      show "\<not> linked s' r" if "home s' r x" for r x using that place_okD(3) [OF c(3)] lp unfolding l' hm by (auto split: if_splits)
    qed (rule one_home [OF c(3) hm])
    have sl: "sleepers s' = (sleepers s)(w := removeAll t (sleepers s w))"
    proof (rule sleepers_eqI [OF c'])
      show "((sleepers s)(w := removeAll t (sleepers s w))) (sq_wchan s' p) = sq_blocked s' p" if "linked s' p" for p
        using sleepers_linked [OF c(1), of p] wq [of p] l(2) that unfolding l' by (auto simp: s'_def)
      show "((sleepers s)(w := removeAll t (sleepers s w))) v = []" if "\<forall>p. linked s' p \<longrightarrow> sq_wchan s' p \<noteq> v" for v
        using that l sleepers_none [OF c(1), of v] unfolding l' by (auto simp: s'_def)
    qed
    moreover have "SleepqRemove q t s = Some (sleepers s' w \<noteq> [], s')"
      using cnt r Cons sleepers_linked [OF c(1) l(1)] l(2) unfolding sl by (simp add: SleepqRemove_def Let_def s'_def)
    ultimately show ?thesis using c' o' p' by (auto simp: sleepq_inv_def s'_def)
  qed
qed

section \<open>Dropping a queue\<close>

lemma drop_rest_result:
  "length qs = length tds \<Longrightarrow> drop_rest tds qs s = Some (s\<lparr>td_sleepqueue := (td_sleepqueue s)(tds [\<mapsto>] qs),
     td_wchan := (\<lambda>t. if t \<in> set tds then 0 else td_wchan s t)\<rparr>)"
proof (induction tds qs s rule: drop_rest.induct)
  case (3 td tds q qs s)
  define s1 where "s1 = s\<lparr>td_sleepqueue := (td_sleepqueue s)(td := Some q), td_wchan := (td_wchan s)(td := 0)\<rparr>"
  have w: "(\<lambda>t. if t \<in> set tds then 0 else td_wchan s1 t) = (\<lambda>t. if t \<in> set (td # tds) then 0 else td_wchan s t)"
    by (auto simp: s1_def)
  have "drop_rest tds qs s1 = Some (s1\<lparr>td_sleepqueue := (td_sleepqueue s1)(tds [\<mapsto>] qs), td_wchan := (\<lambda>t. if t \<in> set (td # tds) then 0 else td_wchan s t)\<rparr>)"
    using 3 unfolding s1_def [symmetric] w by simp
  then show ?case by (simp add: s1_def [symmetric] del: set_simps) (simp add: s1_def)
qed auto

lemma map_upds_Some:
  "distinct ts \<Longrightarrow> length qs = length ts \<Longrightarrow>
    (m(ts [\<mapsto>] qs)) u = Some r \<longleftrightarrow> (u, r) \<in> set (zip ts qs) \<or> u \<notin> set ts \<and> m u = Some r"
proof (induction ts arbitrary: qs m)
  case (Cons t ts)
  then obtain q qs' where qs: "qs = q # qs'" by (cases qs) auto
  then show ?case using Cons by (auto dest: set_zip_leftD)
qed simp

lemma zip_second_unique: "distinct qs \<Longrightarrow> (t, q) \<in> set (zip ts qs) \<Longrightarrow> (u, q) \<in> set (zip ts qs) \<Longrightarrow> t = u"
  by (auto simp: set_zip nth_eq_iff_index_eq)

lemma drop_ok:
  assumes inv: "sleepq_inv s" and lk: "SleepqLookup w s = Some q"
  shows "\<exists>s'. SleepqDrop q s = Some (sleepers s w, s') \<and> sleepq_inv s' \<and>
    td_wchan s' = (\<lambda>t. if t \<in> set (sleepers s w) then 0 else td_wchan s t) \<and> sleepers s' = (sleepers s)(w := [])"
proof -
  have c: "chain_ok s" "object_ok s" "place_ok s" using inv by (auto simp: sleepq_inv_def)
  have l: "linked s q" "sq_wchan s q = w" using lookup_Some [OF c(1)] lk by auto
  have w: "w \<noteq> 0" using linked_nonzero [OF c(1) l(1)] l(2) by simp
  define ts where "ts = sq_blocked s q"
  define qs where "qs = q # sq_freeq s q"
  have sw: "sleepers s w = ts" using sleepers_linked [OF c(1) l(1)] l(2) by (simp add: ts_def)
  have nh: "\<not> home s q x" for x using place_okD(3) [OF c(3)] l(1) by blast
  have fq: "q \<notin> set (sq_freeq s r)" for r using nh [of "Inr r"] by simp
  have d: "length qs = length ts" "distinct ts" "distinct qs"
    using object_okD(1) [OF c(2) l(1)] fq by (auto simp: ts_def qs_def)
  have tw: "t \<in> set ts \<longleftrightarrow> td_wchan s t = w" for t using object_okD(3) [OF c(2) l(1)] l(2) by (simp add: ts_def)
  have wq: "sq_wchan s p = w \<longleftrightarrow> p = q" if "linked s p" for p using linked_unique [OF c(1) that l(1)] l(2) by auto
  define s' where "s' = (sq_unlink q s)\<lparr>td_sleepqueue := (td_sleepqueue s)(ts [\<mapsto>] qs),
    td_wchan := (\<lambda>t. if t \<in> set ts then 0 else td_wchan s t), sq_blocked := (sq_blocked s)(q := []), sq_freeq := (sq_freeq s)(q := [])\<rparr>"
  obtain t0 tl where ts: "ts = t0 # tl" using d(1) by (cases ts) (auto simp: qs_def)
  have drop: "SleepqDrop q s = Some (ts, s')"
  proof -
    define s1 where "s1 = (sq_unlink q s)\<lparr>td_sleepqueue := (td_sleepqueue s)(t0 := Some q), td_wchan := (td_wchan s)(t0 := 0)\<rparr>"
    have "drop_rest tl (sq_freeq s q) s1 = Some (s1\<lparr>td_sleepqueue := (td_sleepqueue s1)(tl [\<mapsto>] sq_freeq s q),
        td_wchan := (\<lambda>t. if t \<in> set tl then 0 else td_wchan s1 t)\<rparr>)"
      using d(1) by (intro drop_rest_result) (simp add: qs_def ts)
    moreover have "sq_freeq s1 q = sq_freeq s q" using fq by (simp add: s1_def sq_unlink_def removeAll_id)
    moreover have "sq_freeq s1 = sq_freeq s" "sq_blocked s1 = sq_blocked s" using fq by (auto simp: s1_def sq_unlink_def removeAll_id)
    ultimately show ?thesis using ts
      by (simp add: SleepqDrop_def ts_def [symmetric] Let_def sq_unlink_def s1_def s'_def qs_def fun_eq_iff)
  qed
  have l': "linked s' p \<longleftrightarrow> linked s p \<and> p \<noteq> q" for p by (auto simp: s'_def sq_unlink_def linked_def)
  have same: "sc_queues s' = sc_queues (sq_unlink q s)" "sq_wchan s' = sq_wchan (sq_unlink q s)" by (simp_all add: s'_def sq_unlink_def)
  have c': "chain_ok s'" using unlink_linked(3) [OF c(1,3) l(1)] unfolding chain_ok_def same .
  have wo: "sq_wchan s p \<noteq> w \<and> sq_wchan s p \<noteq> 0" if "linked s p" "p \<noteq> q" for p
    using wq [OF that(1)] that(2) linked_nonzero [OF c(1) that(1)] by auto
  have o': "object_ok s'"
  proof (rule object_okI; unfold l')
    show "length (sq_blocked s' p) = Suc (length (sq_freeq s' p)) \<and> distinct (sq_blocked s' p) \<and> distinct (sq_freeq s' p)" if "linked s p \<and> p \<noteq> q" for p
      using that object_okD(1) [OF c(2), of p] by (simp add: s'_def)
    show "sq_blocked s' p = [] \<and> sq_freeq s' p = []" if "\<not> (linked s p \<and> p \<noteq> q)" for p
      using that object_okD(2) [OF c(2), of p] by (cases "p = q") (auto simp: s'_def)
    show "u \<in> set (sq_blocked s' p) \<longleftrightarrow> td_wchan s' u = sq_wchan s' p" if "linked s p \<and> p \<noteq> q" for p u
      using that object_okD(3) [OF c(2), of p u] wo [of p] tw [of u] by (auto simp: s'_def sq_unlink_def)
  qed
  have hl: "home s' r (Inl u) \<longleftrightarrow> (u, r) \<in> set (zip ts qs) \<or> u \<notin> set ts \<and> home s r (Inl u)" for r u
    using map_upds_Some [OF d(2,1)] by (simp add: s'_def)
  have hr: "home s' r (Inr p) \<longleftrightarrow> p \<noteq> q \<and> home s r (Inr p)" for r p by (simp add: s'_def)
  have given: "r \<in> set qs \<and> (home s r x \<longrightarrow> x = Inr q)" if "(u, r) \<in> set (zip ts qs)" for u r x
  proof -
    have "r \<in> set qs" using that by (rule set_zip_rightD)
    moreover from this have "home s r x \<longrightarrow> x = Inr q"
      using nh [of x] place_okD(4) [OF c(3), of r x "Inr q"] by (auto simp: qs_def)
    ultimately show ?thesis by blast
  qed
  have p': "place_ok s'"
  proof (rule place_okI)
    show "\<exists>p. linked s' p \<and> sq_wchan s' p = td_wchan s' u" if "td_wchan s' u \<noteq> 0" for u
    proof -
      have u: "u \<notin> set ts" "td_wchan s u \<noteq> 0" using that by (auto simp: s'_def split: if_splits)
      then obtain p where "linked s p" "sq_wchan s p = td_wchan s u" using place_okD(2) [OF c(3)] by blast
      moreover from this have "p \<noteq> q" using u tw [of u] l(2) by auto
      ultimately show ?thesis using u(1) unfolding l' by (auto simp: s'_def sq_unlink_def)
    qed
    show "td_wchan s' u = 0 \<longleftrightarrow> td_sleepqueue s' u \<noteq> None" for u
    proof (cases "u \<in> set ts")
      case True
      then obtain r where "(u, r) \<in> set (zip ts qs)" using d(1) by (metis in_set_impl_in_set_zip1)
      then show ?thesis using True hl [of r u] by (simp add: s'_def)
    next
      case False
      then show ?thesis using place_okD(1) [OF c(3), of u] by (simp add: s'_def)
    qed
    have given_free: "\<not> linked s' r" if "r \<in> set qs" for r
      using that place_okD(3) [OF c(3), of r "Inr q"] by (auto simp: l' qs_def)
    show "\<not> linked s' r" if "home s' r x" for r x
    proof (cases x)
      case (Inl u)
      then show ?thesis using that hl [of r u] given [of u r] given_free [of r] place_okD(3) [OF c(3), of r "Inl u"] l' [of r] by auto
    next
      case (Inr p)
      then show ?thesis using that hr [of r p] place_okD(3) [OF c(3), of r "Inr p"] l' [of r] by auto
    qed
    show "x = y" if "home s' r x" "home s' r y" for r x y
    proof (cases x; cases y)
      fix u v assume "x = Inl u" "y = Inl v"
      then show ?thesis using that hl [of r u] hl [of r v] given [of u r "Inl v"] given [of v r "Inl u"] zip_second_unique [OF d(3), of u r ts v]
          place_okD(4) [OF c(3), of r "Inl u" "Inl v"] by auto
    next
      fix u p assume "x = Inl u" "y = Inr p"
      then show ?thesis using that hl [of r u] hr [of r p] given [of u r "Inr p"] place_okD(4) [OF c(3), of r "Inl u" "Inr p"] by auto
    next
      fix u p assume "x = Inr p" "y = Inl u"
      then show ?thesis using that hl [of r u] hr [of r p] given [of u r "Inr p"] place_okD(4) [OF c(3), of r "Inl u" "Inr p"] by auto
    next
      fix p p' assume "x = Inr p" "y = Inr p'"
      then show ?thesis using that hr [of r p] hr [of r p'] place_okD(4) [OF c(3), of r "Inr p" "Inr p'"] by auto
    qed
  qed
  have sl: "sleepers s' = (sleepers s)(w := [])"
  proof (rule sleepers_eqI [OF c'])
    show "((sleepers s)(w := [])) (sq_wchan s' p) = sq_blocked s' p" if "linked s' p" for p
      using sleepers_linked [OF c(1), of p] wq [of p] that unfolding l' by (auto simp: s'_def sq_unlink_def)
    show "((sleepers s)(w := [])) v = []" if "\<forall>p. linked s' p \<longrightarrow> sq_wchan s' p \<noteq> v" for v
      using that wq sleepers_none [OF c(1), of v] unfolding l' by (auto simp: s'_def sq_unlink_def)
  qed
  show ?thesis using drop c' o' p' sl sw by (simp add: sleepq_inv_def s'_def)
qed

section \<open>The interface\<close>

text \<open>What a client of the sleep queues relies on.  \<open>queue s w\<close> are the sleepers of channel \<open>w\<close> and \<open>place s t\<close> is the channel
  of thread \<open>t\<close>.\<close>

locale sleep_queues =
  fixes inv :: "'s \<Rightarrow> bool" and queue :: "'s \<Rightarrow> wchan \<Rightarrow> thread list" and place :: "'s \<Rightarrow> thread \<Rightarrow> wchan"
    and add :: "wchan \<Rightarrow> thread \<Rightarrow> 's \<Rightarrow> 's option" and remove :: "wchan \<Rightarrow> thread \<Rightarrow> 's \<Rightarrow> (bool \<times> 's) option"
    and drop_all :: "wchan \<Rightarrow> 's \<Rightarrow> (thread list \<times> 's) option"
  assumes queue_place: "inv s \<Longrightarrow> t \<in> set (queue s w) \<longleftrightarrow> w \<noteq> 0 \<and> place s t = w"
    and queue_distinct: "inv s \<Longrightarrow> distinct (queue s w)"
    and add_law: "inv s \<Longrightarrow> w \<noteq> 0 \<Longrightarrow> place s t = 0 \<Longrightarrow>
      \<exists>s'. add w t s = Some s' \<and> inv s' \<and> place s' = (place s)(t := w) \<and> queue s' = (queue s)(w := queue s w @ [t])"
    and remove_law: "inv s \<Longrightarrow> t \<in> set (queue s w) \<Longrightarrow>
      \<exists>s'. remove w t s = Some (queue s' w \<noteq> [], s') \<and> inv s' \<and> place s' = (place s)(t := 0) \<and> queue s' = (queue s)(w := removeAll t (queue s w))"
    and remove_fails: "inv s \<Longrightarrow> t \<notin> set (queue s w) \<Longrightarrow> remove w t s = None"
    and drop_law: "inv s \<Longrightarrow> \<exists>s'. drop_all w s = Some (queue s w, s') \<and> inv s' \<and>
      place s' = (\<lambda>t. if t \<in> set (queue s w) then 0 else place s t) \<and> queue s' = (queue s)(w := [])"
begin

lemma removed_front:
  assumes "inv s" "queue s w = t # ts"
  shows "\<exists>s'. remove w t s = Some (ts \<noteq> [], s') \<and> inv s' \<and> queue s' = (queue s)(w := ts)"
proof -
  have "t \<notin> set ts" using queue_distinct [OF assms(1), of w] assms(2) by simp
  then show ?thesis using remove_law [OF assms(1), of t w] assms(2) by (auto simp: removeAll_id)
qed

text \<open>Removing the front again and again serves the sleepers in the order of their arrival and disturbs no other channel.\<close>

lemma served_in_order:
  assumes "inv s" "queue s w = ts @ us"
  shows "\<exists>s'. inv s' \<and> queue s' = (queue s)(w := us) \<and> (\<lambda>s s'. \<exists>t b. queue s w \<noteq> [] \<and> t = hd (queue s w) \<and> remove w t s = Some (b, s'))\<^sup>*\<^sup>* s s'"
  using assms
proof (induction ts arbitrary: s)
  case Nil
  then show ?case by (intro exI [of _ s]) (auto simp: fun_upd_idem)
next
  case (Cons t ts)
  obtain s1 where s1: "remove w t s = Some (ts @ us \<noteq> [], s1)" "inv s1" "queue s1 = (queue s)(w := ts @ us)"
    using removed_front [OF Cons.prems(1), of w t "ts @ us"] Cons.prems(2) by auto
  have q1: "queue s1 w = ts @ us" by (simp add: s1(3))
  obtain s' where s': "inv s'" "queue s' = (queue s1)(w := us)"
    "(\<lambda>s s'. \<exists>t b. queue s w \<noteq> [] \<and> t = hd (queue s w) \<and> remove w t s = Some (b, s'))\<^sup>*\<^sup>* s1 s'"
    using Cons.IH [OF s1(2) q1] by blast
  show ?case using s' s1 Cons.prems(2) by (intro exI [of _ s']) (auto intro: converse_rtranclp_into_rtranclp)
qed

end

lemma remove_absent:
  assumes "sleepq_inv s" "t \<notin> set (sleepers s w)" shows "sleep_remove w t s = None"
proof (cases "SleepqLookup w s")
  case (Some q)
  then have "t \<notin> set (sq_blocked s q)" using assms(2) by (simp add: sleepers_def)
  then show ?thesis using Some by (simp add: sleep_remove_def SleepqRemove_def count_list_0_iff)
qed (simp add: sleep_remove_def)

interpretation sleepq: sleep_queues sleepq_inv sleepers td_wchan SleepqAdd sleep_remove sleep_drop
proof
  show "\<exists>s'. sleep_remove w t s = Some (sleepers s' w \<noteq> [], s') \<and> sleepq_inv s' \<and> td_wchan s' = (td_wchan s)(t := 0) \<and>
      sleepers s' = (sleepers s)(w := removeAll t (sleepers s w))" if i: "sleepq_inv s" and m: "t \<in> set (sleepers s w)" for s t w
  proof -
    obtain q where q: "SleepqLookup w s = Some q" using m by (cases "SleepqLookup w s") (auto simp: sleepers_def)
    show ?thesis using remove_ok [OF i q m] q by (simp add: sleep_remove_def)
  qed
  show "\<exists>s'. sleep_drop w s = Some (sleepers s w, s') \<and> sleepq_inv s' \<and>
      td_wchan s' = (\<lambda>t. if t \<in> set (sleepers s w) then 0 else td_wchan s t) \<and> sleepers s' = (sleepers s)(w := [])" if "sleepq_inv s" for s w
  proof (cases "SleepqLookup w s")
    case None
    then have "sleepers s w = []" by (simp add: sleepers_def)
    then show ?thesis using None that by (auto simp: sleep_drop_def fun_upd_idem)
  next
    case (Some q)
    then show ?thesis using drop_ok [OF that Some] by (simp add: sleep_drop_def)
  qed
qed (use inv_sleepers add_ok remove_absent in auto)

section \<open>Refinement\<close>

datatype sleep_op = SAdd wchan thread | SRemove wchan thread | SDrop wchan

text \<open>The results are the threads that leave and whether others stay.  Adding a thread that already sleeps is the failed assertion
  of \<open>PthreadCond::Wait\<close>.\<close>

fun do_sleep :: "sleep_op \<Rightarrow> sleep_state \<Rightarrow> ((thread list \<times> bool) \<times> sleep_state) option" where
  "do_sleep (SAdd w t) s = (if w = 0 \<or> td_wchan s t \<noteq> 0 then None else map_option (Pair ([], True)) (SleepqAdd w t s))"
| "do_sleep (SRemove w t) s = map_option (map_prod (Pair [t]) id) (sleep_remove w t s)"
| "do_sleep (SDrop w) s = map_option (map_prod (\<lambda>ts. (ts, False)) id) (sleep_drop w s)"

text \<open>The specification: one list per channel.\<close>

fun spec_sleep :: "sleep_op \<Rightarrow> (wchan \<Rightarrow> thread list) \<Rightarrow> ((thread list \<times> bool) \<times> (wchan \<Rightarrow> thread list)) option" where
  "spec_sleep (SAdd w t) Q = (if w = 0 \<or> (\<exists>v. t \<in> set (Q v)) then None else Some (([], True), Q(w := Q w @ [t])))"
| "spec_sleep (SRemove w t) Q = (if t \<in> set (Q w) then Some (([t], removeAll t (Q w) \<noteq> []), Q(w := removeAll t (Q w))) else None)"
| "spec_sleep (SDrop w) Q = Some ((Q w, False), Q(w := []))"

fun run_partial :: "('o \<Rightarrow> 's \<Rightarrow> ('r \<times> 's) option) \<Rightarrow> 'o list \<Rightarrow> 's \<Rightarrow> ('r list \<times> 's) option" where
  "run_partial f [] s = Some ([], s)"
| "run_partial f (x # xs) s = do { (r, s) \<leftarrow> f x s; (rs, s) \<leftarrow> run_partial f xs s; Some (r # rs, s) }"

lemma sleep_op_refines:
  assumes "sleepq_inv s"
  shows "map_option (map_prod id sleepers) (do_sleep x s) = spec_sleep x (sleepers s) \<and> (\<forall>r s'. do_sleep x s = Some (r, s') \<longrightarrow> sleepq_inv s')"
proof (cases x)
  case (SAdd w t)
  have "(\<exists>v. t \<in> set (sleepers s v)) \<longleftrightarrow> td_wchan s t \<noteq> 0" using sleepq.queue_place [OF assms] by auto
  then show ?thesis using sleepq.add_law [OF assms, of w t] unfolding SAdd by (cases "w = 0 \<or> td_wchan s t \<noteq> 0") auto
next
  case (SRemove w t)
  then show ?thesis using sleepq.remove_law [OF assms, of t w] sleepq.remove_fails [OF assms, of t w] by (cases "t \<in> set (sleepers s w)") auto
next
  case (SDrop w)
  then show ?thesis using sleepq.drop_law [OF assms, of w] by auto
qed

lemma sleep_run_refines:
  "sleepq_inv s \<Longrightarrow> map_option (map_prod id sleepers) (run_partial do_sleep xs s) = run_partial spec_sleep xs (sleepers s)"
proof (induction xs arbitrary: s)
  case (Cons x xs)
  show ?case
  proof (cases "do_sleep x s")
    case None
    then show ?thesis using sleep_op_refines [OF Cons.prems, of x] by auto
  next
    case (Some y)
    then obtain r s' where y: "do_sleep x s = Some (r, s')" by (cases y) auto
    then have "spec_sleep x (sleepers s) = Some (r, sleepers s')" "sleepq_inv s'" using sleep_op_refines [OF Cons.prems, of x] by auto
    then show ?thesis using Cons.IH [of s', symmetric] y by (cases "run_partial do_sleep xs s'") auto
  qed
qed simp

lemma sleepers_init: "sleepers sleepq_init = (\<lambda>_. [])"
  by (auto simp: sleepers_def SleepqLookup_def sleepq_init_def)

text \<open>C31: For any sequence of additions, removals and drops by any threads on any channels, the hash table of wandering queue objects
  behaves as one list of threads per channel: the same threads leave in the same order, the same has-waiters results are
  returned, the queues hold the same threads in the same order, and no assertion fails and no empty free list is read unless a
  thread is added twice or removed from a queue it is not in.\<close>

theorem sleepq_refinement:
  "map_option (map_prod id sleepers) (run_partial do_sleep xs sleepq_init) = run_partial spec_sleep xs (\<lambda>_. [])"
  using sleep_run_refines [OF sleepq_inv_init, of xs] unfolding sleepers_init .

end
