(* ===== verification/Pthread_Cond.thy ===== *)
theory Pthread_Cond
  imports Pthread_Mutex Sleep_Queue
begin

text \<open>
  The condition variables of \<^verbatim>\<open>src/src/core/libraries/kernel/threads/condvar.cpp\<close>, with \<open>CvLock\<close>, \<open>CvUnlock\<close>, \<open>Sleep\<close>,
  \<open>ClearWake\<close> and \<open>WakeAll\<close> of \<^verbatim>\<open>threads/pthread.h\<close>, on top of the sleep queues and the guest mutexes.

  A system has any number of condition variables (by address, which is the channel of their sleep queue), mutexes and threads.
  A thread has a wake semaphore and a list of deferred wake-ups: when \<open>Signal\<close> or \<open>Broadcast\<close> takes a waiter off
  the queue and the signalling thread owns the mutex of the waiter, the semaphore is not released; it goes to the list, the mutex is
  flagged, and the release follows when the thread unlocks the mutex or sleeps itself.

  A critical section under the lock of a hash chain is one step, except that \<open>Wait\<close> releases the mutex between two steps
  while it holds the chain (\<open>cs_chain\<close>).  Locking a mutex is one step here; \<open>Pthread_Mutex\<close> has the accesses inside it.
  Whether a timeout has passed is free.  A step is \<open>Blocked\<close> when the thread cannot take it in the state, \<open>Broken\<close>
  when an assertion fails.  The semaphore counts without a bound and the names of condition variables are left out.

  A pending cancellation is one flag, the value of \<open>ShouldCancel\<close>.  A thread with the flag may exit outside the calls, at the entry of
  \<open>Wait\<close> or at its end, whether it does depends on critical sections and the kind of cancellation, which are not modelled.
\<close>

section \<open>State\<close>

record PthreadCond =
  c_has_user_waiters :: bool
  c_clock_id :: u32

datatype CondPc = CIdle
  | CEnqueue wchan nat int bool
  | CAsleep wchan nat int bool bool bool
  | CSleep wchan nat int bool
  | CWoke wchan nat int bool "PosixErrno option"
  | CRelock nat int "PosixErrno option"
  | CFlush
  | CRelease "thread list"
  | CDead

text \<open>\<open>CEnqueue w m recurse timed\<close> is in \<open>Wait\<close> after \<open>CvUnlock\<close>; \<open>CAsleep w m recurse timed cancel first\<close> has released the
  chain and is about to sleep; \<open>CSleep\<close> waits for the semaphore; \<open>CWoke\<close> has the result of \<open>Sleep\<close>; \<open>CRelock\<close> is in
  \<open>CvLock\<close> with the result of \<open>Wait\<close>; \<open>CFlush\<close> is in \<open>Unlock\<close> before \<open>WakeAll\<close>; \<open>CRelease\<close> has semaphores to release.\<close>

record cond_sys =
  cs_sleep :: sleep_state
  cs_cond :: "wchan \<Rightarrow> PthreadCond"
  cs_mutex :: "nat \<Rightarrow> PthreadMutex"
  cs_chain :: "nat \<Rightarrow> thread option"
  cs_pc :: "thread \<Rightarrow> CondPc"
  cs_mutex_obj :: "thread \<Rightarrow> nat option"
  cs_will_sleep :: "thread \<Rightarrow> bool"
  cs_wake :: "thread \<Rightarrow> nat"
  cs_defer :: "thread \<Rightarrow> thread list"
  cs_cancel :: "thread \<Rightarrow> bool"
  cs_ret :: "thread \<Rightarrow> PosixErrno option"

abbreviation (input) MaxDeferWaiters :: nat where "MaxDeferWaiters \<equiv> 50"

datatype act_result = Blocked | Broken | Next cond_sys

definition checked :: "'a option \<Rightarrow> ('a \<Rightarrow> cond_sys) \<Rightarrow> act_result" where
  "checked x f = (case x of None \<Rightarrow> Broken | Some y \<Rightarrow> Next (f y))"

definition set_pc :: "thread \<Rightarrow> CondPc \<Rightarrow> cond_sys \<Rightarrow> cond_sys" where
  "set_pc t pc s = s\<lparr>cs_pc := (cs_pc s)(t := pc)\<rparr>"

definition set_ret :: "thread \<Rightarrow> PosixErrno option \<Rightarrow> cond_sys \<Rightarrow> cond_sys" where
  "set_ret t e s = s\<lparr>cs_ret := (cs_ret s)(t := e)\<rparr>"

definition put_mutex :: "nat \<Rightarrow> PthreadMutex \<Rightarrow> cond_sys \<Rightarrow> cond_sys" where
  "put_mutex m x s = s\<lparr>cs_mutex := (cs_mutex s)(m := x)\<rparr>"

definition set_waiters :: "wchan \<Rightarrow> bool \<Rightarrow> cond_sys \<Rightarrow> cond_sys" where
  "set_waiters w b s = s\<lparr>cs_cond := (cs_cond s)(w := (cs_cond s w)\<lparr>c_has_user_waiters := b\<rparr>)\<rparr>"

section \<open>Wake-ups\<close>

text \<open>One \<open>release\<close> for every entry of a list.\<close>

definition release_semas :: "thread list \<Rightarrow> cond_sys \<Rightarrow> cond_sys" where
  "release_semas ts s = s\<lparr>cs_wake := (\<lambda>u. cs_wake s u + count_list ts u)\<rparr>"

definition WakeAll :: "thread \<Rightarrow> cond_sys \<Rightarrow> cond_sys" where
  "WakeAll t s = (release_semas (cs_defer s t) s)\<lparr>cs_defer := (cs_defer s)(t := [])\<rparr>"

definition ClearWake :: "thread \<Rightarrow> cond_sys \<Rightarrow> cond_sys" where
  "ClearWake t s = s\<lparr>cs_wake := (cs_wake s)(t := 0)\<rparr>"

text \<open>The test and the deferral that \<open>Signal\<close> and \<open>Broadcast\<close> share.\<close>

definition must_defer :: "thread \<Rightarrow> thread \<Rightarrow> cond_sys \<Rightarrow> nat option" where
  "must_defer t td s = (case cs_mutex_obj s td of
     None \<Rightarrow> None | Some m \<Rightarrow> if m_owner (cs_mutex s m) = Some t then Some m else None)"

definition defer_wake :: "thread \<Rightarrow> thread \<Rightarrow> nat \<Rightarrow> cond_sys \<Rightarrow> cond_sys" where
  "defer_wake t td m s =
    (let s = (if length (cs_defer s t) \<ge> MaxDeferWaiters then WakeAll t s else s) in
     put_mutex m ((cs_mutex s m)\<lparr>m_flags := m_flags (cs_mutex s m) OR MutexDeferred\<rparr>)
       (s\<lparr>cs_defer := (cs_defer s)(t := cs_defer s t @ [td])\<rparr>))"

section \<open>Waiting\<close>

definition wait_begin :: "thread \<Rightarrow> wchan \<Rightarrow> nat \<Rightarrow> bool \<Rightarrow> cond_sys \<Rightarrow> act_result" where
  "wait_begin t w m timed s =
    (if m_owner (cs_mutex s m) \<noteq> Some t then Next (set_ret t (Some POSIX_EPERM) s)
     else if td_wchan (cs_sleep s) t \<noteq> 0 then Broken
     else if cs_chain s (SC_HASH w) \<noteq> None then Blocked
     else (let recurse = m_count (cs_mutex s m); unlocked = snd (mutex_Unlock t ((cs_mutex s m)\<lparr>m_count := 0\<rparr>)) in
       Next (set_pc t (CEnqueue w m recurse timed) (put_mutex m unlocked
         ((set_waiters w True s)\<lparr>cs_will_sleep := (cs_will_sleep s)(t := True), cs_chain := (cs_chain s)(SC_HASH w := Some t)\<rparr>)))))"

definition wait_enqueue :: "thread \<Rightarrow> wchan \<Rightarrow> nat \<Rightarrow> int \<Rightarrow> bool \<Rightarrow> cond_sys \<Rightarrow> act_result" where
  "wait_enqueue t w m recurse timed s = checked (SleepqAdd w t (cs_sleep s)) (\<lambda>q.
     set_pc t (CAsleep w m recurse timed (cs_cancel s t) True) (ClearWake t
       (s\<lparr>cs_sleep := q, cs_mutex_obj := (cs_mutex_obj s)(t := Some m), cs_chain := (cs_chain s)(SC_HASH w := None)\<rparr>)))"

definition sleep_enter :: "thread \<Rightarrow> cond_sys \<Rightarrow> cond_sys" where
  "sleep_enter t s = (let s = s\<lparr>cs_will_sleep := (cs_will_sleep s)(t := False)\<rparr> in
     if cs_defer s t \<noteq> [] then WakeAll t s else s)"

text \<open>The section after \<open>Sleep\<close>.\<close>

definition wait_leave :: "thread \<Rightarrow> wchan \<Rightarrow> nat \<Rightarrow> int \<Rightarrow> PosixErrno option \<Rightarrow> cond_sys \<Rightarrow> act_result" where
  "wait_leave t w m recurse e s = checked (sleep_remove w t (cs_sleep s)) (\<lambda>(b, q).
     set_pc t (CRelock m recurse e) (set_waiters w b (s\<lparr>cs_sleep := q, cs_mutex_obj := (cs_mutex_obj s)(t := None)\<rparr>)))"

definition wait_check :: "thread \<Rightarrow> wchan \<Rightarrow> nat \<Rightarrow> int \<Rightarrow> bool \<Rightarrow> PosixErrno option \<Rightarrow> cond_sys \<Rightarrow> act_result" where
  "wait_check t w m recurse timed e s =
    (if cs_chain s (SC_HASH w) \<noteq> None then Blocked
     else if td_wchan (cs_sleep s) t = 0
     then Next (set_pc t (CRelock m recurse None) (s\<lparr>cs_mutex_obj := (cs_mutex_obj s)(t := None)\<rparr>))
     else if cs_cancel s t then wait_leave t w m recurse None s
     else if e = Some POSIX_ETIMEDOUT then wait_leave t w m recurse e s
     else Next (set_pc t (CAsleep w m recurse timed (cs_cancel s t) False) (ClearWake t s)))"

definition cv_lock :: "thread \<Rightarrow> nat \<Rightarrow> int \<Rightarrow> cond_sys \<Rightarrow> act_result" where
  "cv_lock t m recurse s = (case TryLock False t (cs_mutex s m) of
     Some (None, x) \<Rightarrow> Next (put_mutex m (x\<lparr>m_count := recurse\<rparr>) s) | Some (Some e, x) \<Rightarrow> Blocked | None \<Rightarrow> Broken)"

section \<open>Signalling\<close>

definition cond_Signal :: "thread \<Rightarrow> wchan \<Rightarrow> thread option \<Rightarrow> cond_sys \<Rightarrow> act_result" where
  "cond_Signal t w target s =
    (if cs_chain s (SC_HASH w) \<noteq> None then Blocked
     else (case SleepqLookup w (cs_sleep s) of
       None \<Rightarrow> Next (set_ret t (if target \<noteq> None then Some POSIX_EPERM else None) s)
     | Some sq \<Rightarrow>
       (case (case target of None \<Rightarrow> Some (hd (sq_blocked (cs_sleep s) sq)) | Some u \<Rightarrow> find (\<lambda>v. v = u) (sq_blocked (cs_sleep s) sq)) of
         None \<Rightarrow> if sq_blocked (cs_sleep s) sq = [] then Broken else Next (set_ret t (Some POSIX_EPERM) s)
       | Some td \<Rightarrow>
         if sq_blocked (cs_sleep s) sq = [] then Broken
         else checked (SleepqRemove sq td (cs_sleep s)) (\<lambda>(b, q).
           let s = set_ret t None (set_waiters w b (s\<lparr>cs_sleep := q\<rparr>)) in
           case must_defer t td s of
             Some m \<Rightarrow> defer_wake t td m s
           | None \<Rightarrow> set_pc t (CRelease [td]) s))))"

text \<open>The callback of \<open>Broadcast\<close>; the first component are the \<open>immediate_wakes\<close>.\<close>

definition drop_cb :: "thread \<Rightarrow> thread \<Rightarrow> thread list \<times> cond_sys \<Rightarrow> thread list \<times> cond_sys" where
  "drop_cb t td x = (case x of (wakes, s) \<Rightarrow>
     (case must_defer t td s of
        Some m \<Rightarrow> (wakes, defer_wake t td m s)
      | None \<Rightarrow> if length wakes \<ge> MaxDeferWaiters then ([td], release_semas wakes s) else (wakes @ [td], s)))"

definition cond_Broadcast :: "thread \<Rightarrow> wchan \<Rightarrow> cond_sys \<Rightarrow> act_result" where
  "cond_Broadcast t w s =
    (if cs_chain s (SC_HASH w) \<noteq> None then Blocked
     else if SleepqLookup w (cs_sleep s) = None then Next (set_ret t None s)
     else checked (sleep_drop w (cs_sleep s)) (\<lambda>(tds, q).
       case fold (drop_cb t) tds ([], s\<lparr>cs_sleep := q\<rparr>) of (wakes, s) \<Rightarrow>
         set_pc t (if wakes = [] then CIdle else CRelease wakes) (set_ret t None (set_waiters w False s))))"

section \<open>Steps\<close>

text \<open>What a thread can do next.  \<open>ASignal w target\<close> has the result of \<open>FindThread\<close> when a target is given; \<open>ACancelState b\<close> is
  \<open>posix_pthread_setcancelstate\<close> with the value that \<open>ShouldCancel\<close> gets; \<open>ACancel u b\<close> is \<open>posix_pthread_cancel\<close> when nothing was pending and
  \<open>u\<close> has cancellation enabled if \<open>b\<close> holds.\<close>

datatype cond_act = ALock nat | AUnlock nat | AWait wchan nat bool | ASignal wchan "(thread \<times> PosixErrno option) option"
  | ABroadcast wchan | ACancelState bool | ACancel thread bool
  | AEnqueue | ASleep | AExpire | AToken | ATimeout | ACheck | ARelock | AExit | AFlush | ARelease

fun idle_act :: "thread \<Rightarrow> cond_act \<Rightarrow> cond_sys \<Rightarrow> act_result" where
  "idle_act t (ALock m) s = (case TryLock False t (cs_mutex s m) of
     Some (None, x) \<Rightarrow> Next (put_mutex m x s) | Some (Some e, x) \<Rightarrow> Next (set_ret t (Some e) s) | None \<Rightarrow> Blocked)"
| "idle_act t (AUnlock m) s = (case mutex_Unlock t (cs_mutex s m) of
     (Some e, x) \<Rightarrow> Next (set_ret t (Some e) s)
   | (None, x) \<Rightarrow> Next (set_pc t (if m_owner x = None \<and> m_flags (cs_mutex s m) AND MutexDeferred \<noteq> 0 \<and> \<not> cs_will_sleep s t then CFlush else CIdle)
       (put_mutex m x (set_ret t None s))))"
| "idle_act t (AWait w m timed) s = (if w = 0 then Blocked else wait_begin t w m timed s)"
| "idle_act t (ASignal w target) s = (if w = 0 then Blocked else (case target of
     Some (u, Some e) \<Rightarrow> Next (set_ret t (Some e) s)
   | Some (u, None) \<Rightarrow> cond_Signal t w (Some u) s
   | None \<Rightarrow> cond_Signal t w None s))"
| "idle_act t (ABroadcast w) s = (if w = 0 then Blocked else cond_Broadcast t w s)"
| "idle_act t (ACancelState b) s = Next (s\<lparr>cs_cancel := (cs_cancel s)(t := b)\<rparr>)"
| "idle_act t (ACancel u b) s = (if cs_pc s u = CDead then Blocked
     else Next (s\<lparr>cs_cancel := (cs_cancel s)(u := cs_cancel s u \<or> b), cs_wake := (cs_wake s)(u := cs_wake s u + 1)\<rparr>))"
| "idle_act t AExit s = (if cs_cancel s t then Next (set_pc t CDead s) else Blocked)"
| "idle_act t a s = Blocked"

definition busy_act :: "thread \<Rightarrow> cond_act \<Rightarrow> cond_sys \<Rightarrow> act_result" where
  "busy_act t a s = (case (cs_pc s t, a) of
     (CEnqueue w m recurse timed, AEnqueue) \<Rightarrow> wait_enqueue t w m recurse timed s
   | (CAsleep w m recurse timed cancel first, ASleep) \<Rightarrow>
       Next (if cancel then set_pc t (CWoke w m recurse timed None) s else set_pc t (CSleep w m recurse timed) (sleep_enter t s))
   | (CAsleep w m recurse timed cancel first, AExpire) \<Rightarrow>
       if timed \<and> \<not> first \<and> \<not> cancel then Next (set_pc t (CWoke w m recurse timed (Some POSIX_ETIMEDOUT)) s) else Blocked
   | (CSleep w m recurse timed, AToken) \<Rightarrow>
       if cs_wake s t > 0 then Next (set_pc t (CWoke w m recurse timed None) (s\<lparr>cs_wake := (cs_wake s)(t := cs_wake s t - 1)\<rparr>)) else Blocked
   | (CSleep w m recurse timed, ATimeout) \<Rightarrow>
       if timed then Next (set_pc t (CWoke w m recurse timed (Some POSIX_ETIMEDOUT)) s) else Blocked
   | (CWoke w m recurse timed e, ACheck) \<Rightarrow> wait_check t w m recurse timed e s
   | (CRelock m recurse e, ARelock) \<Rightarrow>
       (case cv_lock t m recurse s of Next s \<Rightarrow> Next (set_pc t CIdle (set_ret t e s)) | r \<Rightarrow> r)
   | (CRelock m recurse e, AExit) \<Rightarrow>
       if cs_cancel s t then (case cv_lock t m recurse s of Next s \<Rightarrow> Next (set_pc t CDead s) | r \<Rightarrow> r) else Blocked
   | (CFlush, AFlush) \<Rightarrow> Next (set_pc t CIdle (WakeAll t s))
   | (CRelease (td # tds), ARelease) \<Rightarrow> Next (set_pc t (if tds = [] then CIdle else CRelease tds) (release_semas [td] s))
   | _ \<Rightarrow> Blocked)"

definition do_act :: "thread \<Rightarrow> cond_act \<Rightarrow> cond_sys \<Rightarrow> act_result" where
  "do_act t a s = (if cs_pc s t = CIdle then idle_act t a s else busy_act t a s)"

text \<open>A schedule says which thread moves and what it does.  A step that is blocked is passed over.\<close>

fun run_schedule :: "(thread \<times> cond_act) list \<Rightarrow> cond_sys \<Rightarrow> cond_sys option" where
  "run_schedule [] s = Some s"
| "run_schedule ((t, a) # xs) s = (case do_act t a s of Next s' \<Rightarrow> run_schedule xs s' | Blocked \<Rightarrow> run_schedule xs s | Broken \<Rightarrow> None)"

text \<open>The mutexes of a system are made with the given attributes.\<close>

definition new_mutex :: "PthreadMutexAttr option \<Rightarrow> PthreadMutex" where
  "new_mutex attr = (case MutexInit True attr of Inr m \<Rightarrow> m | Inl e \<Rightarrow> (case MutexInit True None of Inr m \<Rightarrow> m | Inl e \<Rightarrow> undefined))"

definition cond_init :: "(nat \<Rightarrow> PthreadMutexAttr option) \<Rightarrow> cond_sys" where
  "cond_init attrs = \<lparr>cs_sleep = sleepq_init, cs_cond = (\<lambda>_. \<lparr>c_has_user_waiters = False, c_clock_id = 0\<rparr>),
     cs_mutex = (\<lambda>m. new_mutex (attrs m)), cs_chain = (\<lambda>_. None), cs_pc = (\<lambda>_. CIdle), cs_mutex_obj = (\<lambda>_. None),
     cs_will_sleep = (\<lambda>_. False), cs_wake = (\<lambda>_. 0), cs_defer = (\<lambda>_. []), cs_cancel = (\<lambda>_. False), cs_ret = (\<lambda>_. None)\<rparr>"

section \<open>Guest functions\<close>

text \<open>A guest variable of type \<open>PthreadCondT\<close> and the attribute objects.  \<open>memory\<close> says whether an allocation succeeds.\<close>

datatype CondVar = CondInitializer | CondDestroyed | CondPtr PthreadCond

record PthreadCondAttr =
  c_pshared :: int
  ca_clockid :: u32

abbreviation (input) ClockRealtime :: u32 where "ClockRealtime \<equiv> 0"

definition PthreadCondattrDefault :: PthreadCondAttr where
  "PthreadCondattrDefault = \<lparr>c_pshared = 0, ca_clockid = ClockRealtime\<rparr>"

definition CondInit :: "bool \<Rightarrow> PthreadCondAttr option option \<Rightarrow> PosixErrno + PthreadCond" where
  "CondInit memory cond_attr = (if \<not> memory then Inl POSIX_ENOMEM else Inr \<lparr>c_has_user_waiters = False,
     c_clock_id = (case cond_attr of Some (Some a) \<Rightarrow> ca_clockid a | _ \<Rightarrow> ClockRealtime)\<rparr>)"

definition cond_InitStatic :: "bool \<Rightarrow> CondVar \<Rightarrow> PosixErrno + CondVar" where
  "cond_InitStatic memory v = (case v of CondInitializer \<Rightarrow> map_sum id CondPtr (CondInit memory None) | _ \<Rightarrow> Inr v)"

definition CHECK_AND_INIT_COND :: "bool \<Rightarrow> CondVar \<Rightarrow> PosixErrno + CondVar" where
  "CHECK_AND_INIT_COND memory v = (case v of
     CondInitializer \<Rightarrow> cond_InitStatic memory v | CondDestroyed \<Rightarrow> Inl POSIX_EINVAL | CondPtr c \<Rightarrow> Inr v)"

text \<open>The variable is cleared before the initialisation, which can fail.\<close>

definition posix_pthread_cond_init :: "bool \<Rightarrow> PthreadCondAttr option option \<Rightarrow> PosixErrno option \<times> CondVar" where
  "posix_pthread_cond_init memory cond_attr =
    (case CondInit memory cond_attr of Inl e \<Rightarrow> (Some e, CondInitializer) | Inr c \<Rightarrow> (None, CondPtr c))"

definition posix_pthread_cond_destroy :: "CondVar \<Rightarrow> PosixErrno option \<times> CondVar" where
  "posix_pthread_cond_destroy v = (case v of
     CondInitializer \<Rightarrow> (None, v) | CondDestroyed \<Rightarrow> (Some POSIX_EINVAL, v) | CondPtr c \<Rightarrow> (None, CondDestroyed))"

text \<open>The checks before \<open>Wait\<close>, \<open>Signal\<close> and \<open>Broadcast\<close>.  \<open>posix_pthread_cond_timedwait\<close> tests the time first.\<close>

definition bad_abstime :: "LockTime \<Rightarrow> bool" where
  "bad_abstime abstime = (case abstime of AbsTime sec nsec \<Rightarrow> sec < 0 \<or> nsec < 0 \<or> nsec \<ge> 1000000000 | _ \<Rightarrow> True)"

definition posix_pthread_cond_timedwait_entry :: "bool \<Rightarrow> LockTime \<Rightarrow> CondVar \<Rightarrow> PosixErrno + CondVar" where
  "posix_pthread_cond_timedwait_entry memory abstime v =
    (if bad_abstime abstime then Inl POSIX_EINVAL else CHECK_AND_INIT_COND memory v)"

definition posix_pthread_cond_entry :: "bool \<Rightarrow> CondVar \<Rightarrow> PosixErrno + CondVar" where
  "posix_pthread_cond_entry memory v = CHECK_AND_INIT_COND memory v"

text \<open>Attributes: an attribute argument is \<open>None\<close> when it or the object it points to is null.\<close>

definition posix_pthread_condattr_init :: "bool \<Rightarrow> PosixErrno + PthreadCondAttr" where
  "posix_pthread_condattr_init memory = (if memory then Inr PthreadCondattrDefault else Inl POSIX_ENOMEM)"

definition posix_pthread_condattr_destroy :: "PthreadCondAttr option \<Rightarrow> PosixErrno option \<times> PthreadCondAttr option" where
  "posix_pthread_condattr_destroy attr = (case attr of None \<Rightarrow> (Some POSIX_EINVAL, None) | Some a \<Rightarrow> (None, None))"

definition posix_pthread_condattr_getclock :: "PthreadCondAttr option \<Rightarrow> PosixErrno + u32" where
  "posix_pthread_condattr_getclock attr = (case attr of None \<Rightarrow> Inl POSIX_EINVAL | Some a \<Rightarrow> Inr (ca_clockid a))"

definition posix_pthread_condattr_setclock :: "PthreadCondAttr option \<Rightarrow> u32 \<Rightarrow> PosixErrno option \<times> PthreadCondAttr option" where
  "posix_pthread_condattr_setclock attr clock_id = (case attr of
     None \<Rightarrow> (Some POSIX_EINVAL, None)
   | Some a \<Rightarrow> if clock_id \<noteq> 0 \<and> clock_id \<noteq> 1 \<and> clock_id \<noteq> 2 \<and> clock_id \<noteq> 4 then (Some POSIX_EINVAL, attr)
       else (None, Some (a\<lparr>ca_clockid := clock_id\<rparr>)))"

definition posix_pthread_condattr_getpshared :: "PthreadCondAttr option \<Rightarrow> PosixErrno + int" where
  "posix_pthread_condattr_getpshared attr = (case attr of None \<Rightarrow> Inl POSIX_EINVAL | Some a \<Rightarrow> Inr 0)"

definition posix_pthread_condattr_setpshared :: "PthreadCondAttr option \<Rightarrow> int \<Rightarrow> PosixErrno option" where
  "posix_pthread_condattr_setpshared attr pshared =
    (case attr of None \<Rightarrow> Some POSIX_EINVAL | Some a \<Rightarrow> if pshared \<noteq> 0 then Some POSIX_EINVAL else None)"

lemma condattr_clock_roundtrip:
  "posix_pthread_condattr_setclock attr c = (None, attr') \<Longrightarrow> posix_pthread_condattr_getclock attr' = Inr c"
  by (auto simp: posix_pthread_condattr_setclock_def posix_pthread_condattr_getclock_def split: option.splits if_splits)

text \<open>A statically initialised variable works like one initialised without attributes, and a destroyed one is refused.\<close>

lemma cond_static_entry:
  "posix_pthread_cond_entry memory CondInitializer = map_sum id CondPtr (CondInit memory None)"
  "posix_pthread_cond_init memory None = (None, v) \<Longrightarrow> posix_pthread_cond_entry memory CondInitializer = Inr v"
  "posix_pthread_cond_destroy (CondPtr c) = (None, v) \<Longrightarrow> posix_pthread_cond_entry memory v = Inl POSIX_EINVAL"
  by (auto simp: posix_pthread_cond_entry_def CHECK_AND_INIT_COND_def cond_InitStatic_def posix_pthread_cond_init_def CondInit_def
      posix_pthread_cond_destroy_def split: if_splits)

end
