(* ===== verification/Cond_Invariant.thy ===== *)
theory Cond_Invariant
  imports Pthread_Cond
begin

text \<open>
  What holds in every state that condition variables can reach.  \<open>cond_step\<close> restates one step of a thread as rules, over the interface of
  the sleep queues; each part of the invariant is preserved by every rule.  The promise is that no wake-up is lost: a
  thread that was taken off a queue has a token, or its token is owed by a thread that is going to release it.  With
  cancellation this fails, which the last section shows on a schedule.
\<close>

section \<open>Mutexes\<close>

definition deferred :: "PthreadMutex \<Rightarrow> bool" where
  "deferred m \<longleftrightarrow> m_flags m AND MutexDeferred \<noteq> 0"

lemma deferred_set [simp]: "deferred (m\<lparr>m_flags := m_flags m OR MutexDeferred\<rparr>)"
proof -
  have b: "bit (0x200 :: nat) 9" by (simp add: bit_nat_def)
  have "bit ((m_flags m OR 0x200) AND 0x200) 9" by (simp only: bit_and_iff bit_or_iff b simp_thms)
  then have "(m_flags m OR 0x200) AND 0x200 \<noteq> 0" by (metis bit_0_eq bot_apply bot_bool_def)
  then show ?thesis by (simp add: deferred_def)
qed

lemma trylock_ok:
  assumes "TryLock False t m = Some (None, x)" "m_lock m = m_owner m"
  shows "m_owner x = Some t" "m_lock x = Some t" "m_flags x = m_flags m" "m_owner m = None \<or> m_owner m = Some t"
  using assms by (auto simp: TryLock_def SelfTryLock_def add_count_def split: if_splits)

lemma unlock_ok:
  assumes "mutex_Unlock t m = (None, x)" "m_lock m = m_owner m"
  shows "m_owner m = Some t" "m_lock x = m_owner x" "m_owner x = None \<or> m_owner x = Some t \<and> m_flags x = m_flags m"
  using assms by (auto simp: mutex_Unlock_def unlock_begin_def split: if_splits)

lemma unlock_full:
  assumes "m_owner m = Some t"
  shows "m_owner (snd (mutex_Unlock t (m\<lparr>m_count := 0\<rparr>))) = None" "m_lock (snd (mutex_Unlock t (m\<lparr>m_count := 0\<rparr>))) = None"
  using assms by (simp_all add: mutex_Unlock_def unlock_begin_def mutex_Type_def)

section \<open>Deferred wake-ups\<close>

text \<open>The threads to whom \<open>u\<close> owes a release.\<close>

definition owed :: "cond_sys \<Rightarrow> thread \<Rightarrow> thread set" where
  "owed s u = set (cs_defer s u) \<union> (case cs_pc s u of CRelease ts \<Rightarrow> set ts | _ \<Rightarrow> {})"

definition owns_deferred :: "cond_sys \<Rightarrow> thread \<Rightarrow> bool" where
  "owns_deferred s u \<longleftrightarrow> (\<exists>m. m_owner (cs_mutex s m) = Some u \<and> deferred (cs_mutex s m))"

text \<open>What one call of \<open>Signal\<close> or \<open>Broadcast\<close> changes besides the sleep queues: it releases semaphores, defers wake-ups and flags mutexes
  that the thread owns.  \<open>tds\<close> are the woken threads and \<open>ws\<close> those left for release.\<close>

definition waking :: "thread \<Rightarrow> thread list \<Rightarrow> cond_sys \<Rightarrow> thread list \<Rightarrow> cond_sys \<Rightarrow> bool" where
  "waking t tds s ws s' \<longleftrightarrow>
     cs_sleep s' = cs_sleep s \<and> cs_cond s' = cs_cond s \<and> cs_chain s' = cs_chain s \<and> cs_pc s' = cs_pc s \<and>
     cs_mutex_obj s' = cs_mutex_obj s \<and> cs_will_sleep s' = cs_will_sleep s \<and> cs_cancel s' = cs_cancel s \<and>
     (\<forall>u. cs_wake s u \<le> cs_wake s' u) \<and> (\<forall>u. u \<noteq> t \<longrightarrow> cs_defer s' u = cs_defer s u) \<and>
     (\<forall>u \<in> set tds \<union> set (cs_defer s t). 0 < cs_wake s' u \<or> u \<in> set ws \<union> set (cs_defer s' t)) \<and>
     (\<forall>m. m_owner (cs_mutex s' m) = m_owner (cs_mutex s m) \<and> m_lock (cs_mutex s' m) = m_lock (cs_mutex s m) \<and>
        (deferred (cs_mutex s m) \<longrightarrow> deferred (cs_mutex s' m))) \<and>
     (cs_defer s' t = cs_defer s t \<or> owns_deferred s' t)"

lemma wakingD:
  assumes "waking t tds s ws s'"
  shows "cs_sleep s' = cs_sleep s" "cs_cond s' = cs_cond s" "cs_chain s' = cs_chain s" "cs_pc s' = cs_pc s"
    "cs_mutex_obj s' = cs_mutex_obj s" "cs_will_sleep s' = cs_will_sleep s" "cs_cancel s' = cs_cancel s"
    "cs_wake s u \<le> cs_wake s' u" "u \<noteq> t \<Longrightarrow> cs_defer s' u = cs_defer s u"
    "u \<in> set tds \<or> u \<in> set (cs_defer s t) \<Longrightarrow> 0 < cs_wake s' u \<or> u \<in> set ws \<or> u \<in> set (cs_defer s' t)"
    "m_owner (cs_mutex s' m) = m_owner (cs_mutex s m)" "m_lock (cs_mutex s' m) = m_lock (cs_mutex s m)"
    "deferred (cs_mutex s m) \<Longrightarrow> deferred (cs_mutex s' m)"
    "cs_defer s' t = cs_defer s t \<or> owns_deferred s' t"
  using assms by (auto simp: waking_def)

lemma owns_deferred_mono:
  "waking t tds s ws s' \<Longrightarrow> owns_deferred s u \<Longrightarrow> owns_deferred s' u"
  unfolding owns_deferred_def by (metis wakingD(11,13))

lemma count_list_pos [simp]: "0 < count_list xs x \<longleftrightarrow> x \<in> set xs"
  by (induction xs) auto

lemma waking_defer:
  assumes "m_owner (cs_mutex s m) = Some t"
  shows "waking t [td] s [] (defer_wake t td m s)"
  using assms by (auto simp: waking_def defer_wake_def WakeAll_def release_semas_def put_mutex_def Let_def owns_deferred_def)

lemma waking_append:
  assumes "waking t tds s ws s1" "waking t [td] s1 [] s'"
  shows "waking t (tds @ [td]) s ws s'"
proof -
  note a = wakingD [OF assms(1)] and b = wakingD [OF assms(2)]
  have "0 < cs_wake s' u \<or> u \<in> set ws \<or> u \<in> set (cs_defer s' t)" if "u \<in> set (tds @ [td]) \<or> u \<in> set (cs_defer s t)" for u
    using that a(10) [of u] b(10) [of u] b(8) [of u] by fastforce
  moreover have "cs_defer s' t = cs_defer s t \<or> owns_deferred s' t"
    using a(14) b(14) owns_deferred_mono [OF assms(2)] by metis
  ultimately show ?thesis using a b unfolding waking_def by (simp add: le_trans [OF a(8) b(8)])
qed

lemma drop_cb_waking:
  assumes "waking t tds s ws s1" "drop_cb t td (ws, s1) = (ws', s')"
  shows "waking t (tds @ [td]) s ws' s'"
proof (cases "must_defer t td s1")
  case None
  show ?thesis
  proof (cases "length ws \<ge> MaxDeferWaiters")
    case True
    then have e: "ws' = [td]" "s' = release_semas ws s1" using assms(2) None by (auto simp: drop_cb_def)
    have "0 < cs_wake s' u \<or> u \<in> set ws' \<or> u \<in> set (cs_defer s' t)" if "u \<in> set (tds @ [td]) \<or> u \<in> set (cs_defer s t)" for u
      using that wakingD(10) [OF assms(1), of u] by (auto simp: e release_semas_def)
    moreover have "owns_deferred s1 t \<Longrightarrow> owns_deferred s' t" by (simp add: e release_semas_def owns_deferred_def)
    ultimately show ?thesis using wakingD [OF assms(1)] unfolding waking_def by (auto simp: e release_semas_def intro: trans_le_add1)
  next
    case False
    then have e: "ws' = ws @ [td]" "s' = s1" using assms(2) None by (auto simp: drop_cb_def)
    have "0 < cs_wake s' u \<or> u \<in> set ws' \<or> u \<in> set (cs_defer s' t)" if "u \<in> set (tds @ [td]) \<or> u \<in> set (cs_defer s t)" for u
      using that wakingD(10) [OF assms(1), of u] by (auto simp: e)
    then show ?thesis using wakingD [OF assms(1)] unfolding waking_def by (auto simp: e)
  qed
next
  case (Some m)
  then have o: "m_owner (cs_mutex s1 m) = Some t" by (auto simp: must_defer_def split: option.splits if_splits)
  have "ws' = ws" "s' = defer_wake t td m s1" using assms(2) Some by (auto simp: drop_cb_def)
  then show ?thesis using waking_append [OF assms(1) waking_defer [OF o]] by simp
qed

lemma fold_drop_cb:
  "waking t tds s ws s1 \<Longrightarrow> fold (drop_cb t) us (ws, s1) = (ws', s') \<Longrightarrow> waking t (tds @ us) s ws' s'"
proof (induction us arbitrary: tds ws s1)
  case (Cons u us)
  obtain ws2 s2 where d: "drop_cb t u (ws, s1) = (ws2, s2)" by (cases "drop_cb t u (ws, s1)") auto
  show ?case using Cons.IH [OF drop_cb_waking [OF Cons.prems(1) d]] Cons.prems(2) d by simp
qed simp

lemma waking_none: "waking t [] s [] s"
  by (simp add: waking_def)

section \<open>Steps as rules\<close>

text \<open>One successful step of thread \<open>t\<close>.  \<open>c\<close> says whether it may make a cancellation effective.\<close>

inductive cond_step :: "thread \<Rightarrow> bool \<Rightarrow> cond_sys \<Rightarrow> cond_sys \<Rightarrow> bool" for t where
  c_ret: "cs_pc s t = CIdle \<Longrightarrow> cond_step t False s (set_ret t e s)"
| c_lock: "cs_pc s t = CIdle \<Longrightarrow> TryLock False t (cs_mutex s m) = Some (None, x) \<Longrightarrow> cond_step t False s (put_mutex m x s)"
| c_unlock: "cs_pc s t = CIdle \<Longrightarrow> mutex_Unlock t (cs_mutex s m) = (None, x) \<Longrightarrow>
    pc = (if m_owner x = None \<and> deferred (cs_mutex s m) \<and> \<not> cs_will_sleep s t then CFlush else CIdle) \<Longrightarrow>
    cond_step t False s (set_pc t pc (put_mutex m x (set_ret t None s)))"
| c_wait: "cs_pc s t = CIdle \<Longrightarrow> w \<noteq> 0 \<Longrightarrow> m_owner (cs_mutex s m) = Some t \<Longrightarrow> td_wchan (cs_sleep s) t = 0 \<Longrightarrow> cs_chain s (SC_HASH w) = None \<Longrightarrow>
    x = snd (mutex_Unlock t ((cs_mutex s m)\<lparr>m_count := 0\<rparr>)) \<Longrightarrow>
    cond_step t False s (set_pc t (CEnqueue w m r timed) (put_mutex m x
      ((set_waiters w True s)\<lparr>cs_will_sleep := (cs_will_sleep s)(t := True), cs_chain := (cs_chain s)(SC_HASH w := Some t)\<rparr>)))"
| c_enqueue: "cs_pc s t = CEnqueue w m r timed \<Longrightarrow> SleepqAdd w t (cs_sleep s) = Some q \<Longrightarrow>
    cond_step t False s (set_pc t (CAsleep w m r timed (cs_cancel s t) True) (ClearWake t
      (s\<lparr>cs_sleep := q, cs_mutex_obj := (cs_mutex_obj s)(t := Some m), cs_chain := (cs_chain s)(SC_HASH w := None)\<rparr>)))"
| c_sleep: "cs_pc s t = CAsleep w m r timed False first \<Longrightarrow> cond_step t False s (set_pc t (CSleep w m r timed) (sleep_enter t s))"
| c_skip: "cs_pc s t = CAsleep w m r timed True first \<Longrightarrow> cond_step t False s (set_pc t (CWoke w m r timed None) s)"
| c_expire: "cs_pc s t = CAsleep w m r timed False False \<Longrightarrow> cond_step t False s (set_pc t (CWoke w m r timed e) s)"
| c_token: "cs_pc s t = CSleep w m r timed \<Longrightarrow> cond_step t False s (set_pc t (CWoke w m r timed e) (s\<lparr>cs_wake := (cs_wake s)(t := n)\<rparr>))"
| c_signalled: "cs_pc s t = CWoke w m r timed e \<Longrightarrow> td_wchan (cs_sleep s) t = 0 \<Longrightarrow>
    cond_step t False s (set_pc t (CRelock m r None) (s\<lparr>cs_mutex_obj := (cs_mutex_obj s)(t := None)\<rparr>))"
| c_leave: "cs_pc s t = CWoke w m r timed e \<Longrightarrow> cs_chain s (SC_HASH w) = None \<Longrightarrow> sleep_remove w t (cs_sleep s) = Some (b, q) \<Longrightarrow>
    cond_step t False s (set_pc t (CRelock m r e') (set_waiters w b (s\<lparr>cs_sleep := q, cs_mutex_obj := (cs_mutex_obj s)(t := None)\<rparr>)))"
| c_again: "cs_pc s t = CWoke w m r timed e \<Longrightarrow> td_wchan (cs_sleep s) t \<noteq> 0 \<Longrightarrow>
    cond_step t False s (set_pc t (CAsleep w m r timed (cs_cancel s t) False) (ClearWake t s))"
| c_relock: "cs_pc s t = CRelock m r e \<Longrightarrow> TryLock False t (cs_mutex s m) = Some (None, x) \<Longrightarrow> pc = CIdle \<or> pc = CDead \<and> cs_cancel s t \<Longrightarrow>
    s' = set_pc t pc (put_mutex m (x\<lparr>m_count := r\<rparr>) s)\<lparr>cs_ret := rets\<rparr> \<Longrightarrow> cond_step t False s s'"
| c_wake: "cs_pc s t = CIdle \<Longrightarrow> cs_chain s (SC_HASH w) = None \<Longrightarrow> w \<noteq> 0 \<Longrightarrow> sleepq_inv q \<Longrightarrow>
    sleepers (cs_sleep s) w = us @ tds @ vs \<Longrightarrow> sleepers q = (sleepers (cs_sleep s))(w := us @ vs) \<Longrightarrow>
    td_wchan q = (\<lambda>u. if u \<in> set tds then 0 else td_wchan (cs_sleep s) u) \<Longrightarrow>
    s1 = set_waiters w (us @ vs \<noteq> []) (s\<lparr>cs_sleep := q\<rparr>) \<Longrightarrow> waking t tds s1 ws s2 \<Longrightarrow>
    s' = set_pc t (if ws = [] then CIdle else CRelease ws) s2\<lparr>cs_ret := rets\<rparr> \<Longrightarrow> cond_step t False s s'"
| c_flush: "cs_pc s t = CFlush \<Longrightarrow> cond_step t False s (set_pc t CIdle (WakeAll t s))"
| c_release: "cs_pc s t = CRelease (td # tds) \<Longrightarrow> cond_step t False s (set_pc t (if tds = [] then CIdle else CRelease tds) (release_semas [td] s))"
| c_cancel: "cs_pc s t = CIdle \<Longrightarrow> (\<And>u. cs_wake s u \<le> W u) \<Longrightarrow> c \<or> (\<forall>u. C u \<longrightarrow> cs_cancel s u) \<Longrightarrow>
    cond_step t c s (s\<lparr>cs_cancel := C, cs_wake := W\<rparr>)"
| c_exit: "cs_pc s t = CIdle \<Longrightarrow> cs_cancel s t \<Longrightarrow> cond_step t False s (set_pc t CDead s)"

section \<open>The invariant\<close>

fun sleeping :: "CondPc \<Rightarrow> (wchan \<times> nat) option" where
  "sleeping (CAsleep w m r timed cancel first) = Some (w, m)"
| "sleeping (CSleep w m r timed) = Some (w, m)"
| "sleeping (CWoke w m r timed e) = Some (w, m)"
| "sleeping pc = None"

fun in_wait :: "CondPc \<Rightarrow> nat option" where
  "in_wait (CEnqueue w m r timed) = Some m"
| "in_wait (CRelock m r e) = Some m"
| "in_wait pc = map_option snd (sleeping pc)"

fun enqueues :: "CondPc \<Rightarrow> wchan option" where
  "enqueues (CEnqueue w m r timed) = Some w"
| "enqueues pc = None"

text \<open>The sleep queues agree with the control points.\<close>

definition queue_inv :: "cond_sys \<Rightarrow> bool" where
  "queue_inv s \<longleftrightarrow> sleepq_inv (cs_sleep s) \<and>
     (\<forall>t. td_wchan (cs_sleep s) t \<noteq> 0 \<longrightarrow> map_option fst (sleeping (cs_pc s t)) = Some (td_wchan (cs_sleep s) t)) \<and>
     (\<forall>t. cs_mutex_obj s t = map_option snd (sleeping (cs_pc s t))) \<and>
     (\<forall>t. map_option fst (sleeping (cs_pc s t)) \<noteq> Some 0 \<and> enqueues (cs_pc s t) \<noteq> Some 0)"

definition mutex_inv :: "cond_sys \<Rightarrow> bool" where
  "mutex_inv s \<longleftrightarrow> (\<forall>m. m_lock (cs_mutex s m) = m_owner (cs_mutex s m)) \<and>
     (\<forall>t m. in_wait (cs_pc s t) = Some m \<longrightarrow> m_owner (cs_mutex s m) \<noteq> Some t)"

definition chain_inv :: "cond_sys \<Rightarrow> bool" where
  "chain_inv s \<longleftrightarrow> (\<forall>h t. cs_chain s h = Some t \<longleftrightarrow> (\<exists>w. enqueues (cs_pc s t) = Some w \<and> SC_HASH w = h)) \<and>
     (\<forall>w. w \<noteq> 0 \<longrightarrow> c_has_user_waiters (cs_cond s w) = (sleepers (cs_sleep s) w \<noteq> [] \<or> (\<exists>t. enqueues (cs_pc s t) = Some w)))"

text \<open>A thread that is going to wait for its semaphore and is in no queue has a token or is owed one.\<close>

fun needs_token :: "CondPc \<Rightarrow> bool" where
  "needs_token (CAsleep w m r timed cancel first) = (\<not> cancel)"
| "needs_token (CSleep w m r timed) = True"
| "needs_token pc = False"

definition token_inv :: "cond_sys \<Rightarrow> bool" where
  "token_inv s \<longleftrightarrow> (\<forall>t. needs_token (cs_pc s t) \<longrightarrow> td_wchan (cs_sleep s) t = 0 \<longrightarrow> 0 < cs_wake s t \<or> (\<exists>u. t \<in> owed s u))"

text \<open>Without cancellation, a thread with deferred wake-ups owns a flagged mutex, is about to sleep or is about to flush them, and it has
  none while it sleeps.\<close>

fun may_owe :: "CondPc \<Rightarrow> bool" where
  "may_owe (CAsleep w m r timed cancel first) = first"
| "may_owe (CSleep w m r timed) = False"
| "may_owe (CWoke w m r timed e) = False"
| "may_owe (CRelock m r e) = False"
| "may_owe pc = True"

fun before_sleep :: "CondPc \<Rightarrow> bool" where
  "before_sleep (CEnqueue w m r timed) = True"
| "before_sleep (CAsleep w m r timed cancel first) = first"
| "before_sleep pc = False"

fun cancelled :: "CondPc \<Rightarrow> bool" where
  "cancelled (CAsleep w m r timed cancel first) = cancel"
| "cancelled CDead = True"
| "cancelled pc = False"

definition debt_inv :: "cond_sys \<Rightarrow> bool" where
  "debt_inv s \<longleftrightarrow> (\<forall>t. (cs_defer s t \<noteq> [] \<longrightarrow> may_owe (cs_pc s t) \<and> (owns_deferred s t \<or> cs_will_sleep s t \<or> cs_pc s t = CFlush)) \<and>
     (cs_will_sleep s t \<longrightarrow> before_sleep (cs_pc s t)) \<and> \<not> cancelled (cs_pc s t) \<and> \<not> cs_cancel s t)"

lemma sleep_enter_eq:
  "sleep_enter t s = s\<lparr>cs_will_sleep := (cs_will_sleep s)(t := False), cs_defer := (cs_defer s)(t := []),
     cs_wake := (\<lambda>u. cs_wake s u + count_list (cs_defer s t) u)\<rparr>"
  by (simp add: sleep_enter_def WakeAll_def release_semas_def Let_def fun_upd_idem)

lemmas setter_defs = set_pc_def set_ret_def put_mutex_def set_waiters_def ClearWake_def release_semas_def WakeAll_def sleep_enter_eq

lemma queue_sleeper: "queue_inv s \<Longrightarrow> u \<in> set (sleepers (cs_sleep s) w) \<longleftrightarrow> w \<noteq> 0 \<and> td_wchan (cs_sleep s) u = w"
  using sleepq.queue_place by (simp add: queue_inv_def)

lemma not_sleeping_place: "queue_inv s \<Longrightarrow> sleeping (cs_pc s t) = None \<Longrightarrow> td_wchan (cs_sleep s) t = 0"
  unfolding queue_inv_def by (metis not_Some_eq option.simps(8))

lemma mutex_step: "cond_step t c s s' \<Longrightarrow> mutex_inv s \<Longrightarrow> mutex_inv s'"
proof (induction rule: cond_step.induct)
  case (c_lock s m x)
  note x = trylock_ok [OF c_lock(2)]
  show ?case using c_lock x by (auto simp: mutex_inv_def setter_defs)
next
  case (c_unlock s m x pc)
  note x = unlock_ok [OF c_unlock(2)]
  show ?case using c_unlock x by (auto simp: mutex_inv_def setter_defs)
next
  case (c_wait s w m x r timed)
  note x = unlock_full [OF c_wait(3)]
  show ?case using c_wait x by (auto simp: mutex_inv_def setter_defs)
next
  case (c_relock s m r e x pc s' rets)
  note x = trylock_ok [OF c_relock(2)]
  show ?case using c_relock x by (auto simp: mutex_inv_def setter_defs)
next
  case (c_wake s w q us tds vs s1 ws s2 s' rets)
  note k = wakingD [OF c_wake(9)]
  show ?case using c_wake k by (auto simp: mutex_inv_def setter_defs)
qed (auto simp: mutex_inv_def setter_defs)

lemma remove_view:
  assumes "queue_inv s" "sleep_remove w t (cs_sleep s) = Some (b, q)"
  shows "sleepq_inv q" "td_wchan q = (td_wchan (cs_sleep s))(t := 0)" "sleepers q = (sleepers (cs_sleep s))(w := removeAll t (sleepers (cs_sleep s) w))"
    "b \<longleftrightarrow> sleepers q w \<noteq> []" "td_wchan (cs_sleep s) t = w" "w \<noteq> 0"
proof -
  have i: "sleepq_inv (cs_sleep s)" using assms(1) by (simp add: queue_inv_def)
  have m: "t \<in> set (sleepers (cs_sleep s) w)" using sleepq.remove_fails [OF i] assms(2) by fastforce
  show "sleepq_inv q" "td_wchan q = (td_wchan (cs_sleep s))(t := 0)" "sleepers q = (sleepers (cs_sleep s))(w := removeAll t (sleepers (cs_sleep s) w))"
    "b \<longleftrightarrow> sleepers q w \<noteq> []" using sleepq.remove_law [OF i m] assms(2) by auto
  show "td_wchan (cs_sleep s) t = w" "w \<noteq> 0" using m queue_sleeper [OF assms(1)] by auto
qed

lemma add_view:
  assumes "queue_inv s" "SleepqAdd w t (cs_sleep s) = Some q" "w \<noteq> 0" "td_wchan (cs_sleep s) t = 0"
  shows "sleepq_inv q" "td_wchan q = (td_wchan (cs_sleep s))(t := w)" "sleepers q = (sleepers (cs_sleep s))(w := sleepers (cs_sleep s) w @ [t])"
proof -
  have i: "sleepq_inv (cs_sleep s)" using assms(1) by (simp add: queue_inv_def)
  show "sleepq_inv q" "td_wchan q = (td_wchan (cs_sleep s))(t := w)" "sleepers q = (sleepers (cs_sleep s))(w := sleepers (cs_sleep s) w @ [t])"
    using sleepq.add_law [OF i assms(3,4)] assms(2) by auto
qed

lemma queue_invD:
  assumes "queue_inv s"
  shows "sleepq_inv (cs_sleep s)" "td_wchan (cs_sleep s) t \<noteq> 0 \<Longrightarrow> map_option fst (sleeping (cs_pc s t)) = Some (td_wchan (cs_sleep s) t)"
    "cs_mutex_obj s t = map_option snd (sleeping (cs_pc s t))" "map_option fst (sleeping (cs_pc s t)) \<noteq> Some 0" "enqueues (cs_pc s t) \<noteq> Some 0"
  using assms unfolding queue_inv_def by blast+

lemma queue_inv_cong:
  assumes "queue_inv s" "cs_sleep s' = cs_sleep s" "cs_mutex_obj s' = cs_mutex_obj s"
    "\<And>u. sleeping (cs_pc s' u) = sleeping (cs_pc s u)" "\<And>u. enqueues (cs_pc s' u) = enqueues (cs_pc s u) \<or> enqueues (cs_pc s' u) \<noteq> Some 0"
  shows "queue_inv s'"
  using assms unfolding queue_inv_def by metis

lemma cond_queue_step: "cond_step t c s s' \<Longrightarrow> queue_inv s \<Longrightarrow> queue_inv s'"
proof (induction rule: cond_step.induct)
  case (c_enqueue s w m r timed q)
  have p: "td_wchan (cs_sleep s) t = 0" using not_sleeping_place [OF c_enqueue(3), of t] c_enqueue(1) by simp
  have w: "w \<noteq> 0" using queue_invD(5) [OF c_enqueue(3), of t] c_enqueue(1) by simp
  note v = add_view [OF c_enqueue(3,2) w p]
  show ?case using c_enqueue v w unfolding queue_inv_def by (auto simp: setter_defs)
next
  case (c_signalled s w m r timed e)
  show ?case using c_signalled unfolding queue_inv_def by (auto simp: setter_defs)
next
  case (c_leave s w m r timed e b q e')
  note v = remove_view [OF c_leave(4,3)]
  show ?case using c_leave v unfolding queue_inv_def by (auto simp: setter_defs)
next
  case (c_wake s w q us tds vs s1 ws s2 s' rets)
  note k = wakingD [OF c_wake(9)]
  show ?case using c_wake k unfolding queue_inv_def by (auto simp: setter_defs)
qed (erule queue_inv_cong; auto simp: setter_defs)+

lemma chain_inv_cong:
  assumes "chain_inv s" "cs_chain s' = cs_chain s" "cs_cond s' = cs_cond s" "cs_sleep s' = cs_sleep s"
    "\<And>u. enqueues (cs_pc s' u) = enqueues (cs_pc s u)"
  shows "chain_inv s'"
  using assms unfolding chain_inv_def by simp

lemma chain_invD:
  assumes "chain_inv s"
  shows "cs_chain s h = Some t \<longleftrightarrow> (\<exists>w. enqueues (cs_pc s t) = Some w \<and> SC_HASH w = h)"
    "w \<noteq> 0 \<Longrightarrow> c_has_user_waiters (cs_cond s w) = (sleepers (cs_sleep s) w \<noteq> [] \<or> (\<exists>t. enqueues (cs_pc s t) = Some w))"
    "cs_chain s (SC_HASH w) = None \<Longrightarrow> enqueues (cs_pc s t) \<noteq> Some w"
  using assms unfolding chain_inv_def by (blast, blast, metis option.distinct(1))

lemma chain_invI:
  assumes "\<And>h t. cs_chain s h = Some t \<longleftrightarrow> (\<exists>w. enqueues (cs_pc s t) = Some w \<and> SC_HASH w = h)"
    "\<And>w. w \<noteq> 0 \<Longrightarrow> c_has_user_waiters (cs_cond s w) = (sleepers (cs_sleep s) w \<noteq> [] \<or> (\<exists>t. enqueues (cs_pc s t) = Some w))"
  shows "chain_inv s"
  using assms unfolding chain_inv_def by blast

text \<open>An operation on the queue of \<open>w\<close> by a thread that is not enqueueing, while the chain is free.\<close>

lemma chain_queue_op:
  assumes "chain_inv s" "cs_chain s (SC_HASH w) = None" "cs_chain s' = cs_chain s" "\<And>u. enqueues (cs_pc s' u) = enqueues (cs_pc s u)"
    "\<And>v. v \<noteq> w \<Longrightarrow> sleepers (cs_sleep s') v = sleepers (cs_sleep s) v \<and> c_has_user_waiters (cs_cond s' v) = c_has_user_waiters (cs_cond s v)"
    "c_has_user_waiters (cs_cond s' w) = (sleepers (cs_sleep s') w \<noteq> [])"
  shows "chain_inv s'"
proof (rule chain_invI)
  show "cs_chain s' h = Some t \<longleftrightarrow> (\<exists>w. enqueues (cs_pc s' t) = Some w \<and> SC_HASH w = h)" for h t
    using chain_invD(1) [OF assms(1)] assms(3,4) by simp
  show "c_has_user_waiters (cs_cond s' v) = (sleepers (cs_sleep s') v \<noteq> [] \<or> (\<exists>t. enqueues (cs_pc s' t) = Some v))" if "v \<noteq> 0" for v
    using chain_invD(2) [OF assms(1) that] chain_invD(3) [OF assms(1,2)] assms(4-6) by (cases "v = w") auto
qed

lemma chain_step: "cond_step t c s s' \<Longrightarrow> queue_inv s \<Longrightarrow> chain_inv s \<Longrightarrow> chain_inv s'"
proof (induction rule: cond_step.induct)
  case (c_wait s w m x r timed)
  note i = chain_invD [OF c_wait(8)]
  show ?case
  proof (rule chain_invI, goal_cases)
    case (1 h u)
    then show ?case using c_wait(1,5) i(1) [of h u] i(1) [of "SC_HASH w" u] by (cases "u = t") (auto simp: setter_defs)
  next
    case (2 v)
    have nt: "u \<noteq> t" if "enqueues (cs_pc s u) = Some v" for u using that c_wait(1) by auto
    have "(\<exists>u. enqueues (((cs_pc s)(t := CEnqueue w m r timed)) u) = Some v) \<longleftrightarrow> v = w \<or> (\<exists>u. enqueues (cs_pc s u) = Some v)"
      using nt by (auto intro: exI [of _ t])
    then show ?case using i(2) [OF 2] by (simp add: setter_defs)
  qed
next
  case (c_enqueue s w m r timed q)
  note i = chain_invD [OF c_enqueue(4)]
  have p: "td_wchan (cs_sleep s) t = 0" using not_sleeping_place [OF c_enqueue(3), of t] c_enqueue(1) by simp
  have w: "w \<noteq> 0" using queue_invD(5) [OF c_enqueue(3), of t] c_enqueue(1) by simp
  note v = add_view [OF c_enqueue(3,2) w p]
  have own: "cs_chain s (SC_HASH w) = Some t" using i(1) [of "SC_HASH w" t] c_enqueue(1) by auto
  show ?case
  proof (rule chain_invI, goal_cases)
    case (1 h u)
    then show ?case using c_enqueue(1) own i(1) [of h u] i(1) [of "SC_HASH w" u] by (cases "u = t") (auto simp: setter_defs)
  next
    case (2 x)
    have tw: "enqueues (cs_pc s t) = Some w" using c_enqueue(1) by simp
    show ?case
    proof (cases "x = w")
      case True
      then show ?thesis using i(2) [OF 2] tw v by (auto simp: setter_defs)
    next
      case False
      have "(\<exists>u. enqueues (((cs_pc s)(t := CAsleep w m r timed (cs_cancel s t) True)) u) = Some x) \<longleftrightarrow> (\<exists>u. enqueues (cs_pc s u) = Some x)"
        using tw False by (auto, metis option.inject)
      then show ?thesis using False i(2) [OF 2] v by (simp add: setter_defs)
    qed
  qed
next
  case (c_leave s w m r timed e b q e')
  note v = remove_view [OF c_leave(4,3)]
  show ?case by (rule chain_queue_op [OF c_leave(5,2)]) (use c_leave(1) v in \<open>auto simp: setter_defs\<close>)
next
  case (c_wake s w q us tds vs s1 ws s2 s' rets)
  note k = wakingD [OF c_wake(9)]
  show ?case by (rule chain_queue_op [OF c_wake(12,2)]) (use c_wake k in \<open>auto simp: setter_defs\<close>)
qed (erule chain_inv_cong; auto simp: setter_defs)+

section \<open>No lost wake-up\<close>

lemma token_inv_mono:
  assumes "token_inv s"
    "\<And>u. needs_token (cs_pc s' u) \<Longrightarrow> td_wchan (cs_sleep s') u = 0 \<Longrightarrow> needs_token (cs_pc s u) \<and> td_wchan (cs_sleep s) u = 0 \<and> cs_wake s u \<le> cs_wake s' u"
    "\<And>u x. x \<in> owed s u \<Longrightarrow> 0 < cs_wake s' x \<or> x \<in> owed s' u"
  shows "token_inv s'"
proof -
  have "0 < cs_wake s' x \<or> (\<exists>u. x \<in> owed s' u)" if "needs_token (cs_pc s' x)" "td_wchan (cs_sleep s') x = 0" for x
  proof -
    note a = assms(2) [OF that]
    then have "0 < cs_wake s x \<or> (\<exists>u. x \<in> owed s u)" using assms(1) by (simp add: token_inv_def)
    then show ?thesis using a assms(3) [of x] by auto
  qed
  then show ?thesis by (simp add: token_inv_def)
qed

lemma token_step: "cond_step t c s s' \<Longrightarrow> queue_inv s \<Longrightarrow> token_inv s \<Longrightarrow> token_inv s'"
proof (induction rule: cond_step.induct)
  case (c_enqueue s w m r timed q)
  have p: "td_wchan (cs_sleep s) t = 0" using not_sleeping_place [OF c_enqueue(3), of t] c_enqueue(1) by simp
  have w: "w \<noteq> 0" using queue_invD(5) [OF c_enqueue(3), of t] c_enqueue(1) by simp
  note v = add_view [OF c_enqueue(3,2) w p]
  show ?case by (rule token_inv_mono [OF c_enqueue(4)]) (use c_enqueue(1) v w in \<open>auto simp: setter_defs owed_def split: if_splits\<close>)
next
  case (c_leave s w m r timed e b q e')
  note v = remove_view [OF c_leave(4,3)]
  show ?case by (rule token_inv_mono [OF c_leave(5)]) (use c_leave(1) v in \<open>auto simp: setter_defs owed_def split: if_splits\<close>)
next
  case (c_wake s w q us tds vs s1 ws s2 s' rets)
  note k = wakingD [OF c_wake(9)]
  have s1: "cs_sleep s1 = q" "cs_pc s1 = cs_pc s" "cs_wake s1 = cs_wake s" "cs_defer s1 = cs_defer s" by (simp_all add: c_wake(8) setter_defs)
  have s': "cs_sleep s' = q" "cs_pc s' = (cs_pc s)(t := if ws = [] then CIdle else CRelease ws)" "cs_wake s' = cs_wake s2" "cs_defer s' = cs_defer s2"
    using k s1 by (simp_all add: c_wake(10) setter_defs)
  have owed_t: "owed s t = set (cs_defer s t)" "owed s' t = set (cs_defer s2 t) \<union> set ws" using c_wake(1) s' by (auto simp: owed_def)
  have owed_u: "owed s' u = owed s u" if "u \<noteq> t" for u using that k(9) [of u] s' s1 by (simp add: owed_def)
  have paid: "0 < cs_wake s' x \<or> x \<in> owed s' u" if "x \<in> owed s u" for x u
    using that k(10) [of x] owed_u [of u] s1 s' owed_t by (cases "u = t") auto
  have "0 < cs_wake s' x \<or> (\<exists>u. x \<in> owed s' u)" if x: "needs_token (cs_pc s' x)" "td_wchan (cs_sleep s') x = 0" for x
  proof (cases "x \<in> set tds")
    case True
    then show ?thesis using k(10) [of x] owed_t s' by auto
  next
    case False
    have "needs_token (cs_pc s x)" "td_wchan (cs_sleep s) x = 0" using x False s' c_wake(7) by (auto split: if_splits)
    then have "0 < cs_wake s x \<or> (\<exists>u. x \<in> owed s u)" using c_wake(12) by (simp add: token_inv_def)
    then show ?thesis using paid k(8) [of x] s1 s' by auto
  qed
  then show ?case by (simp add: token_inv_def)
next
  case (c_sleep s w m r timed first)
  show ?case by (rule token_inv_mono [OF c_sleep(3)]) (use c_sleep(1) in \<open>auto simp: setter_defs owed_def split: if_splits\<close>)
next
  case (c_flush s)
  show ?case by (rule token_inv_mono [OF c_flush(3)]) (use c_flush(1) in \<open>auto simp: setter_defs owed_def split: if_splits\<close>)
next
  case (c_release s td tds)
  show ?case by (rule token_inv_mono [OF c_release(3)]) (use c_release(1) in \<open>auto simp: setter_defs owed_def split: if_splits\<close>)
next
  case (c_cancel s W c C)
  show ?case by (rule token_inv_mono [OF c_cancel(5)]) (use c_cancel(2) in \<open>auto simp: owed_def\<close>)
qed (erule token_inv_mono; auto simp: setter_defs owed_def split: if_splits)+

section \<open>No forgotten wake-up\<close>

lemma debt_invD:
  assumes "debt_inv s"
  shows "cs_defer s u \<noteq> [] \<Longrightarrow> may_owe (cs_pc s u)" "cs_defer s u \<noteq> [] \<Longrightarrow> owns_deferred s u \<or> cs_will_sleep s u \<or> cs_pc s u = CFlush"
    "cs_will_sleep s u \<Longrightarrow> before_sleep (cs_pc s u)" "\<not> cancelled (cs_pc s u)" "\<not> cs_cancel s u"
  using assms unfolding debt_inv_def by blast+

text \<open>Only thread \<open>t\<close> moved and no flag of a mutex of another thread was lost.\<close>

lemma debt_inv_move:
  assumes "debt_inv s" "\<And>u. u \<noteq> t \<Longrightarrow> cs_defer s' u = cs_defer s u \<and> cs_pc s' u = cs_pc s u \<and> cs_will_sleep s' u = cs_will_sleep s u"
    "\<And>u. u \<noteq> t \<Longrightarrow> owns_deferred s u \<Longrightarrow> owns_deferred s' u" "cs_cancel s' = cs_cancel s"
    "cs_defer s' t \<noteq> [] \<Longrightarrow> may_owe (cs_pc s' t) \<and> (owns_deferred s' t \<or> cs_will_sleep s' t \<or> cs_pc s' t = CFlush)"
    "cs_will_sleep s' t \<Longrightarrow> before_sleep (cs_pc s' t)" "\<not> cancelled (cs_pc s' t)"
  shows "debt_inv s'"
proof -
  have "(cs_defer s' u \<noteq> [] \<longrightarrow> may_owe (cs_pc s' u) \<and> (owns_deferred s' u \<or> cs_will_sleep s' u \<or> cs_pc s' u = CFlush)) \<and>
     (cs_will_sleep s' u \<longrightarrow> before_sleep (cs_pc s' u)) \<and> \<not> cancelled (cs_pc s' u) \<and> \<not> cs_cancel s' u" for u
  proof (cases "u = t")
    case True
    then show ?thesis using assms(4-7) debt_invD(5) [OF assms(1)] by auto
  next
    case False
    then show ?thesis using assms(2,3) [of u] debt_invD [OF assms(1), of u] assms(4) by auto
  qed
  then show ?thesis unfolding debt_inv_def by blast
qed

lemma owns_same: "cs_mutex s' = cs_mutex s \<Longrightarrow> owns_deferred s' u = owns_deferred s u"
  by (simp add: owns_deferred_def)

lemma owns_put:
  assumes "owns_deferred s u" "cs_mutex s' = (cs_mutex s)(m := x)"
    "m_owner (cs_mutex s m) = Some u \<Longrightarrow> deferred (cs_mutex s m) \<Longrightarrow> m_owner x = Some u \<and> deferred x"
  shows "owns_deferred s' u"
  using assms unfolding owns_deferred_def by (metis fun_upd_apply)

lemma debt_step: "cond_step t c s s' \<Longrightarrow> \<not> c \<Longrightarrow> mutex_inv s \<Longrightarrow> debt_inv s \<Longrightarrow> debt_inv s'"
proof (induction rule: cond_step.induct)
  case (c_lock s m x)
  have "m_lock (cs_mutex s m) = m_owner (cs_mutex s m)" using c_lock(4) by (simp add: mutex_inv_def)
  note x = trylock_ok [OF c_lock(2) this]
  have o: "owns_deferred (put_mutex m x s) u" if "owns_deferred s u" for u
    by (rule owns_put [OF that, of _ m x]) (use x in \<open>auto simp: setter_defs deferred_def\<close>)
  show ?case by (rule debt_inv_move [OF c_lock(5), of t]) (use o debt_invD [OF c_lock(5), of t] in \<open>auto simp: setter_defs\<close>)
next
  case (c_unlock s m x pc)
  have "m_lock (cs_mutex s m) = m_owner (cs_mutex s m)" using c_unlock(5) by (simp add: mutex_inv_def)
  note x = unlock_ok [OF c_unlock(2) this]
  define s' where "s' = set_pc t pc (put_mutex m x (set_ret t None s))"
  have mx: "cs_mutex s' = (cs_mutex s)(m := x)" by (simp add: s'_def setter_defs)
  have o: "owns_deferred s' u" if "owns_deferred s u" "u \<noteq> t" for u
    by (rule owns_put [OF that(1) mx]) (use that x(1) in auto)
  have ot: "owns_deferred s' t" if "owns_deferred s t" "pc \<noteq> CFlush" "\<not> cs_will_sleep s t"
    by (rule owns_put [OF that(1) mx]) (use that(2,3) x c_unlock(3) in \<open>auto simp: deferred_def split: if_splits\<close>)
  have ns: "\<not> cs_will_sleep s t" using debt_invD(3) [OF c_unlock(6), of t] c_unlock(1) by auto
  show ?case unfolding s'_def [symmetric]
    by (rule debt_inv_move [OF c_unlock(6), of t])
      (use o ot ns debt_invD [OF c_unlock(6), of t] c_unlock(1,3) in \<open>auto simp: s'_def setter_defs split: if_splits\<close>)
next
  case (c_wait s w m x r timed)
  define s' where "s' = set_pc t (CEnqueue w m r timed) (put_mutex m x
      ((set_waiters w True s)\<lparr>cs_will_sleep := (cs_will_sleep s)(t := True), cs_chain := (cs_chain s)(SC_HASH w := Some t)\<rparr>))"
  have o: "owns_deferred s' u" if "owns_deferred s u" "u \<noteq> t" for u
    by (rule owns_put [OF that(1), of _ m x]) (use that c_wait(3) in \<open>auto simp: s'_def setter_defs\<close>)
  show ?case unfolding s'_def [symmetric]
    by (rule debt_inv_move [OF c_wait(9), of t]) (use o in \<open>auto simp: s'_def setter_defs\<close>)
next
  case (c_relock s m r e x pc s' rets)
  have "m_lock (cs_mutex s m) = m_owner (cs_mutex s m)" using c_relock(6) by (simp add: mutex_inv_def)
  note x = trylock_ok [OF c_relock(2) this]
  have o: "owns_deferred s' u" if "owns_deferred s u" for u
    by (rule owns_put [OF that, of _ m "x\<lparr>m_count := r\<rparr>"]) (use x c_relock(4) in \<open>auto simp: setter_defs deferred_def\<close>)
  show ?case by (rule debt_inv_move [OF c_relock(7), of t])
      (use o debt_invD [OF c_relock(7), of t] c_relock(1,3,4) in \<open>auto simp: setter_defs\<close>)
next
  case (c_wake s w q us tds vs s1 ws s2 s' rets)
  note k = wakingD [OF c_wake(9)]
  have s1: "cs_pc s1 = cs_pc s" "cs_mutex s1 = cs_mutex s" "cs_defer s1 = cs_defer s" "cs_will_sleep s1 = cs_will_sleep s" "cs_cancel s1 = cs_cancel s"
    by (simp_all add: c_wake(8) setter_defs)
  have s': "cs_pc s' = (cs_pc s)(t := if ws = [] then CIdle else CRelease ws)" "cs_mutex s' = cs_mutex s2" "cs_defer s' = cs_defer s2"
    "cs_will_sleep s' = cs_will_sleep s" "cs_cancel s' = cs_cancel s"
    using k s1 by (simp_all add: c_wake(10) setter_defs)
  have o: "owns_deferred s' u" if "owns_deferred s u" for u
    using owns_deferred_mono [OF c_wake(9), of u] that owns_same [OF s1(2)] owns_same [OF s'(2)] by simp
  have ot: "cs_defer s' t = cs_defer s t \<or> owns_deferred s' t" using k(14) s1 s' owns_same [OF s'(2)] by simp
  show ?case by (rule debt_inv_move [OF c_wake(13), of t])
      (use o ot k(9) s1 s' debt_invD [OF c_wake(13), of t] c_wake(1) in \<open>auto split: if_splits\<close>)
next
  case (c_ret s e)
  show ?case by (rule debt_inv_move [OF c_ret(4), of t]) (use debt_invD [OF c_ret(4), of t] in \<open>auto simp: setter_defs owns_deferred_def\<close>)
next
  case (c_enqueue s w m r timed q)
  show ?case by (rule debt_inv_move [OF c_enqueue(5), of t]) (use debt_invD [OF c_enqueue(5), of t] c_enqueue(1) in \<open>auto simp: setter_defs owns_deferred_def\<close>)
next
  case (c_sleep s w m r timed first)
  show ?case by (rule debt_inv_move [OF c_sleep(4), of t]) (use debt_invD [OF c_sleep(4), of t] c_sleep(1) in \<open>auto simp: setter_defs owns_deferred_def\<close>)
next
  case (c_skip s w m r timed first)
  show ?case by (rule debt_inv_move [OF c_skip(4), of t]) (use debt_invD [OF c_skip(4), of t] c_skip(1) in \<open>auto simp: setter_defs owns_deferred_def\<close>)
next
  case (c_expire s w m r timed e)
  show ?case by (rule debt_inv_move [OF c_expire(4), of t]) (use debt_invD [OF c_expire(4), of t] c_expire(1) in \<open>auto simp: setter_defs owns_deferred_def\<close>)
next
  case (c_token s w m r timed e n)
  show ?case by (rule debt_inv_move [OF c_token(4), of t]) (use debt_invD [OF c_token(4), of t] c_token(1) in \<open>auto simp: setter_defs owns_deferred_def\<close>)
next
  case (c_signalled s w m r timed e)
  show ?case by (rule debt_inv_move [OF c_signalled(5), of t]) (use debt_invD [OF c_signalled(5), of t] c_signalled(1) in \<open>auto simp: setter_defs owns_deferred_def\<close>)
next
  case (c_leave s w m r timed e b q e')
  show ?case by (rule debt_inv_move [OF c_leave(6), of t]) (use debt_invD [OF c_leave(6), of t] c_leave(1) in \<open>auto simp: setter_defs owns_deferred_def\<close>)
next
  case (c_again s w m r timed e)
  show ?case by (rule debt_inv_move [OF c_again(5), of t]) (use debt_invD [OF c_again(5), of t] c_again(1) in \<open>auto simp: setter_defs owns_deferred_def\<close>)
next
  case (c_flush s)
  show ?case by (rule debt_inv_move [OF c_flush(4), of t]) (use debt_invD [OF c_flush(4), of t] c_flush(1) in \<open>auto simp: setter_defs owns_deferred_def\<close>)
next
  case (c_release s td tds)
  show ?case by (rule debt_inv_move [OF c_release(4), of t]) (use debt_invD [OF c_release(4), of t] c_release(1) in \<open>auto simp: setter_defs owns_deferred_def\<close>)
next
  case (c_cancel s W c C)
  show ?case using c_cancel(3,4) debt_invD [OF c_cancel(6)] unfolding debt_inv_def by (auto simp: owns_deferred_def)
next
  case (c_exit s)
  show ?case using debt_invD(5) [OF c_exit(5), of t] c_exit(2) by simp
qed

section \<open>Every step is a rule\<close>

lemma ret_id [simp]: "(set_pc t pc s)\<lparr>cs_ret := cs_ret s\<rparr> = set_pc t pc s"
  by (simp add: set_pc_def)

lemma waking_waiters: "waking t tds s ws s' \<Longrightarrow> waking t tds (set_waiters w b s) ws (set_waiters w b s')"
  using owns_same [of "set_waiters w b s'" s' t] by (simp add: waking_def set_waiters_def)

lemma waking_ret:
  "waking t tds (set_ret t e s) ws s' \<Longrightarrow> waking t tds s ws s'" "waking t tds s ws s' \<Longrightarrow> waking t tds s ws (set_ret t e s')"
  using owns_same [of "set_ret t e s'" s' t] by (simp_all add: waking_def set_ret_def)

text \<open>The thread that a signal selects.\<close>

definition signalled :: "wchan \<Rightarrow> thread option \<Rightarrow> cond_sys \<Rightarrow> thread option" where
  "signalled w target s = (case target of
     None \<Rightarrow> (case sleepers (cs_sleep s) w of [] \<Rightarrow> None | td # tds \<Rightarrow> Some td)
   | Some u \<Rightarrow> if u \<in> set (sleepers (cs_sleep s) w) then Some u else None)"

definition wake_one :: "thread \<Rightarrow> thread \<Rightarrow> cond_sys \<Rightarrow> cond_sys" where
  "wake_one t td s = (case must_defer t td s of Some m \<Rightarrow> defer_wake t td m s | None \<Rightarrow> set_pc t (CRelease [td]) s)"

lemma find_eq: "find (\<lambda>v. v = u) xs = (if u \<in> set xs then Some u else None)"
  by (induction xs) auto

lemma cond_Signal_view:
  assumes "queue_inv s" "cs_chain s (SC_HASH w) = None"
  shows "cond_Signal t w target s = (case signalled w target s of
      None \<Rightarrow> Next (set_ret t (if target \<noteq> None then Some POSIX_EPERM else None) s)
    | Some td \<Rightarrow> checked (sleep_remove w td (cs_sleep s)) (\<lambda>(b, q). wake_one t td (set_ret t None (set_waiters w b (s\<lparr>cs_sleep := q\<rparr>)))))"
proof (cases "SleepqLookup w (cs_sleep s)")
  case None
  then have "sleepers (cs_sleep s) w = []" by (simp add: sleepers_def)
  then show ?thesis using None assms(2) by (simp add: cond_Signal_def signalled_def split: option.splits)
next
  case (Some sq)
  have i: "sleepq_inv (cs_sleep s)" using assms(1) by (simp add: queue_inv_def)
  have sl: "sleepers (cs_sleep s) w = sq_blocked (cs_sleep s) sq" using Some by (simp add: sleepers_def)
  have ne: "sq_blocked (cs_sleep s) sq \<noteq> []" using inv_sleepers(3) [OF i, of w] Some sl by auto
  show ?thesis using Some ne assms(2)
    by (cases "sq_blocked (cs_sleep s) sq") (auto simp: cond_Signal_def signalled_def sl find_eq sleep_remove_def wake_one_def Let_def split: option.splits)
qed

lemma signalled_in: "signalled w target s = Some td \<Longrightarrow> td \<in> set (sleepers (cs_sleep s) w)"
  by (auto simp: signalled_def split: option.splits list.splits if_splits)

lemma wake_one_step:
  assumes inv: "queue_inv s" and idle: "cs_pc s t = CIdle" and chain: "cs_chain s (SC_HASH w) = None"
    and td: "td \<in> set (sleepers (cs_sleep s) w)" and r: "sleep_remove w td (cs_sleep s) = Some (b, q)"
  shows "cond_step t False s (wake_one t td (set_ret t e (set_waiters w b (s\<lparr>cs_sleep := q\<rparr>))))"
proof -
  note v = remove_view [OF inv r]
  have "distinct (sleepers (cs_sleep s) w)" using sleepq.queue_distinct inv by (simp add: queue_inv_def)
  then obtain us vs where sp: "sleepers (cs_sleep s) w = us @ [td] @ vs" "td \<notin> set us" "td \<notin> set vs"
    using td by (auto simp: in_set_conv_decomp)
  then have rm: "removeAll td (sleepers (cs_sleep s) w) = us @ vs" by (simp add: removeAll_id)
  have q: "sleepers q = (sleepers (cs_sleep s))(w := us @ vs)" "td_wchan q = (\<lambda>u. if u \<in> set [td] then 0 else td_wchan (cs_sleep s) u)"
    "b = (us @ vs \<noteq> [])" using v rm by (auto simp: fun_eq_iff)
  define s1 where "s1 = set_waiters w (us @ vs \<noteq> []) (s\<lparr>cs_sleep := q\<rparr>)"
  have s1r: "set_ret t e (set_waiters w b (s\<lparr>cs_sleep := q\<rparr>)) = set_ret t e s1" by (simp add: s1_def q(3))
  have p1: "cs_pc s1 t = CIdle" by (simp add: s1_def setter_defs idle)
  show ?thesis
  proof (cases "must_defer t td (set_ret t e s1)")
    case (Some m)
    then have o: "m_owner (cs_mutex (set_ret t e s1) m) = Some t" by (auto simp: must_defer_def split: option.splits if_splits)
    define s2 where "s2 = defer_wake t td m (set_ret t e s1)"
    have w: "waking t [td] s1 [] s2" unfolding s2_def by (rule waking_ret(1) [OF waking_defer [OF o]])
    have "cs_pc s2 = cs_pc s1" using wakingD(4) [OF w] .
    then have e2: "s2 = set_pc t CIdle s2" using p1 by (simp add: set_pc_def fun_upd_idem)
    have "cond_step t False s (set_pc t CIdle s2\<lparr>cs_ret := cs_ret s2\<rparr>)"
      using c_wake [OF idle chain v(6) v(1) sp(1) q(1,2) s1_def w refl, of "cs_ret s2"] by simp
    then have "cond_step t False s s2" using e2 by simp
    moreover have "wake_one t td (set_ret t e s1) = s2" using Some by (simp add: wake_one_def s2_def)
    ultimately show ?thesis unfolding s1r by simp
  next
    case None
    have w: "waking t [td] s1 [td] (set_ret t e s1)" by (auto simp: waking_def set_ret_def)
    have "cond_step t False s (set_pc t (CRelease [td]) (set_ret t e s1)\<lparr>cs_ret := cs_ret (set_ret t e s1)\<rparr>)"
      using c_wake [OF idle chain v(6) v(1) sp(1) q(1,2) s1_def w refl, of "cs_ret (set_ret t e s1)"] by simp
    then show ?thesis using None unfolding s1r wake_one_def by simp
  qed
qed

lemma signal_step:
  assumes "queue_inv s" "cs_pc s t = CIdle" "w \<noteq> 0"
  shows "cond_Signal t w target s \<noteq> Broken" "cond_Signal t w target s = Next s' \<Longrightarrow> cond_step t False s s'"
proof -
  have "cond_Signal t w target s \<noteq> Broken \<and> (cond_Signal t w target s = Next s' \<longrightarrow> cond_step t False s s')"
  proof (cases "cs_chain s (SC_HASH w) = None")
    case False
    then show ?thesis by (simp add: cond_Signal_def)
  next
    case True
    show ?thesis
    proof (cases "signalled w target s")
      case None
      then show ?thesis using cond_Signal_view [OF assms(1) True, of t target] c_ret [OF assms(2)] by auto
    next
      case (Some td)
      have i: "sleepq_inv (cs_sleep s)" using assms(1) by (simp add: queue_inv_def)
      note td = signalled_in [OF Some]
      obtain b q where r: "sleep_remove w td (cs_sleep s) = Some (b, q)" using sleepq.remove_law [OF i td] by auto
      show ?thesis using cond_Signal_view [OF assms(1) True, of t target] Some r wake_one_step [OF assms(1,2) True td r] by (auto simp: checked_def)
    qed
  qed
  then show "cond_Signal t w target s \<noteq> Broken" "cond_Signal t w target s = Next s' \<Longrightarrow> cond_step t False s s'" by auto
qed

lemma broadcast_step:
  assumes inv: "queue_inv s" and idle: "cs_pc s t = CIdle" and w: "w \<noteq> 0"
  shows "cond_Broadcast t w s \<noteq> Broken" "cond_Broadcast t w s = Next s' \<Longrightarrow> cond_step t False s s'"
proof -
  have i: "sleepq_inv (cs_sleep s)" using inv by (simp add: queue_inv_def)
  obtain q where q: "sleep_drop w (cs_sleep s) = Some (sleepers (cs_sleep s) w, q)" "sleepq_inv q"
    "td_wchan q = (\<lambda>u. if u \<in> set (sleepers (cs_sleep s) w) then 0 else td_wchan (cs_sleep s) u)" "sleepers q = (sleepers (cs_sleep s))(w := [])"
    using sleepq.drop_law [OF i, of w] by blast
  obtain ws s2 where f: "fold (drop_cb t) (sleepers (cs_sleep s) w) ([], s\<lparr>cs_sleep := q\<rparr>) = (ws, s2)" by fastforce
  have wk: "waking t (sleepers (cs_sleep s) w) (s\<lparr>cs_sleep := q\<rparr>) ws s2" using fold_drop_cb [OF waking_none f] by simp
  show "cond_Broadcast t w s \<noteq> Broken" using q(1) by (simp add: cond_Broadcast_def checked_def split: prod.splits)
  assume b: "cond_Broadcast t w s = Next s'"
  show "cond_step t False s s'"
  proof (cases "SleepqLookup w (cs_sleep s) = None")
    case True
    then show ?thesis using b c_ret [OF idle] by (auto simp: cond_Broadcast_def split: if_splits)
  next
    case False
    define s3 where "s3 = set_ret t None (set_waiters w False s2)"
    have s': "s' = set_pc t (if ws = [] then CIdle else CRelease ws) s3" and chain: "cs_chain s (SC_HASH w) = None"
      using b False q(1) f by (auto simp: cond_Broadcast_def checked_def s3_def split: if_splits)
    have sl: "sleepers (cs_sleep s) w = [] @ sleepers (cs_sleep s) w @ []" "sleepers q = (sleepers (cs_sleep s))(w := [] @ [])" using q(4) by simp_all
    have "waking t (sleepers (cs_sleep s) w) (set_waiters w ([] @ [] \<noteq> ([] :: thread list)) (s\<lparr>cs_sleep := q\<rparr>)) ws s3"
      unfolding s3_def by (simp, rule waking_ret(2) [OF waking_waiters [OF wk]])
    then have "cond_step t False s (set_pc t (if ws = [] then CIdle else CRelease ws) s3\<lparr>cs_ret := cs_ret s3\<rparr>)"
      by (intro c_wake [OF idle chain w q(2) sl q(3) refl _ refl])
    then show ?thesis by (simp add: s')
  qed
qed

text \<open>The actions that can make \<open>ShouldCancel\<close> true.\<close>

fun is_cancel :: "cond_act \<Rightarrow> bool" where
  "is_cancel (ACancel u b) = b"
| "is_cancel (ACancelState b) = b"
| "is_cancel a = False"

lemma idle_step:
  assumes "queue_inv s" "cs_pc s t = CIdle"
  shows "idle_act t a s \<noteq> Broken \<and> (idle_act t a s = Next s' \<longrightarrow> cond_step t (is_cancel a) s s')"
proof (cases a)
  case (ALock m)
  then show ?thesis using c_lock [OF assms(2)] c_ret [OF assms(2)] by (auto split: option.splits prod.splits)
next
  case (AUnlock m)
  obtain e x where x: "mutex_Unlock t (cs_mutex s m) = (e, x)" by fastforce
  show ?thesis
  proof (cases e)
    case None
    then show ?thesis using AUnlock x c_unlock [OF assms(2) _ refl, of m x]
      by (cases "deferred (cs_mutex s m)") (auto simp: deferred_def simp del: neq0_conv split: if_splits)
  qed (use AUnlock x c_ret [OF assms(2)] in auto)
next
  case (AWait w m timed)
  have "td_wchan (cs_sleep s) t = 0" using not_sleeping_place [OF assms(1), of t] assms(2) by simp
  then show ?thesis using AWait c_wait [OF assms(2), of w m] c_ret [OF assms(2)] by (auto simp: wait_begin_def Let_def)
next
  case (ASignal w target)
  then show ?thesis using signal_step [OF assms, of w] c_ret [OF assms(2)] by (auto split: option.splits)
next
  case (ABroadcast w)
  then show ?thesis using broadcast_step [OF assms, of w] by auto
next
  case (ACancelState b)
  then show ?thesis using c_cancel [OF assms(2), of "cs_wake s" b "(cs_cancel s)(t := b)"] by auto
next
  case (ACancel u b)
  then show ?thesis using c_cancel [OF assms(2), of "(cs_wake s)(u := cs_wake s u + 1)" b "(cs_cancel s)(u := cs_cancel s u \<or> b)"] by auto
next
  case AExit
  then show ?thesis using c_exit [OF assms(2)] by auto
qed auto

lemma cv_lock_ok:
  assumes "mutex_inv s" "in_wait (cs_pc s t) = Some m"
  shows "cv_lock t m r s \<noteq> Broken" "cv_lock t m r s = Next s' \<Longrightarrow> \<exists>x. TryLock False t (cs_mutex s m) = Some (None, x) \<and> s' = put_mutex m (x\<lparr>m_count := r\<rparr>) s"
proof -
  have "m_owner (cs_mutex s m) \<noteq> Some t" using assms by (simp add: mutex_inv_def)
  then show "cv_lock t m r s \<noteq> Broken" by (auto simp: cv_lock_def TryLock_def split: option.splits)
  show "cv_lock t m r s = Next s' \<Longrightarrow> \<exists>x. TryLock False t (cs_mutex s m) = Some (None, x) \<and> s' = put_mutex m (x\<lparr>m_count := r\<rparr>) s"
    by (auto simp: cv_lock_def split: option.splits prod.splits)
qed

lemma check_step:
  assumes "queue_inv s" "cs_pc s t = CWoke w m r timed e"
  shows "wait_check t w m r timed e s \<noteq> Broken \<and> (wait_check t w m r timed e s = Next s' \<longrightarrow> cond_step t False s s')"
proof -
  have i: "sleepq_inv (cs_sleep s)" using assms(1) by (simp add: queue_inv_def)
  have "\<exists>b q. sleep_remove w t (cs_sleep s) = Some (b, q)" if p: "td_wchan (cs_sleep s) t \<noteq> 0"
  proof -
    have "td_wchan (cs_sleep s) t = w" using queue_invD(2) [OF assms(1) p] assms(2) by simp
    then have "t \<in> set (sleepers (cs_sleep s) w)" using p queue_sleeper [OF assms(1)] by auto
    then show ?thesis using sleepq.remove_law [OF i] by blast
  qed
  then show ?thesis using c_signalled [OF assms(2)] c_leave [OF assms(2)] c_again [OF assms(2)]
    by (auto simp: wait_check_def wait_leave_def checked_def)
qed

lemma busy_step:
  assumes q: "queue_inv s" and m: "mutex_inv s"
  shows "busy_act t a s \<noteq> Broken \<and> (busy_act t a s = Next s' \<longrightarrow> cond_step t False s s')"
proof (cases "cs_pc s t")
  case (CEnqueue w mx r timed)
  have i: "sleepq_inv (cs_sleep s)" using q by (simp add: queue_inv_def)
  have "td_wchan (cs_sleep s) t = 0" "w \<noteq> 0" using not_sleeping_place [OF q, of t] queue_invD(5) [OF q, of t] CEnqueue by auto
  then obtain q' where "SleepqAdd w t (cs_sleep s) = Some q'" using sleepq.add_law [OF i] by blast
  then show ?thesis using CEnqueue c_enqueue [OF CEnqueue] by (cases a) (auto simp: busy_act_def wait_enqueue_def checked_def)
next
  case (CAsleep w mx r timed cancel first)
  then show ?thesis using c_sleep [of s t w mx r timed first] c_skip [of s t w mx r timed first] c_expire [of s t w mx r timed]
    by (cases a) (auto simp: busy_act_def)
next
  case (CSleep w mx r timed)
  show ?thesis using CSleep c_token [OF CSleep, where n = "cs_wake s t"] c_token [OF CSleep, where n = "cs_wake s t - 1"]
    by (cases a) (auto simp: busy_act_def)
next
  case (CWoke w mx r timed e)
  then show ?thesis using check_step [OF q CWoke] by (cases a) (auto simp: busy_act_def)
next
  case (CRelock mx r e)
  have w: "in_wait (cs_pc s t) = Some mx" using CRelock by simp
  note k = cv_lock_ok [OF m w, of r]
  have fin: "cond_step t False s (set_pc t CIdle (set_ret t e s1))" "cs_cancel s t \<Longrightarrow> cond_step t False s (set_pc t CDead s1)" if l: "cv_lock t mx r s = Next s1" for s1
  proof -
    obtain x where x: "TryLock False t (cs_mutex s mx) = Some (None, x)" "s1 = put_mutex mx (x\<lparr>m_count := r\<rparr>) s" using k(2) [OF l] by blast
    show "cond_step t False s (set_pc t CIdle (set_ret t e s1))"
      by (rule c_relock [OF CRelock x(1), of CIdle _ "(cs_ret s)(t := e)"]) (simp_all add: x(2) setter_defs)
    show "cond_step t False s (set_pc t CDead s1)" if "cs_cancel s t"
      by (rule c_relock [OF CRelock x(1), of CDead _ "cs_ret s"]) (simp_all add: that x(2) setter_defs)
  qed
  show ?thesis using CRelock k(1) fin by (cases a) (auto simp: busy_act_def split: act_result.splits)
next
  case CFlush
  then show ?thesis using c_flush [OF CFlush] by (cases a) (auto simp: busy_act_def)
next
  case (CRelease ts)
  show ?thesis
  proof (cases ts)
    case (Cons td tds)
    then show ?thesis using CRelease c_release [of s t td tds] by (cases a) (auto simp: busy_act_def)
  qed (use CRelease in \<open>cases a; simp add: busy_act_def\<close>)
qed (cases a; simp add: busy_act_def)+

lemma do_act_step:
  assumes "queue_inv s" "mutex_inv s"
  shows "do_act t a s \<noteq> Broken" "do_act t a s = Next s' \<Longrightarrow> \<exists>c. (c \<longrightarrow> is_cancel a) \<and> cond_step t c s s'"
proof -
  have "do_act t a s \<noteq> Broken \<and> (do_act t a s = Next s' \<longrightarrow> (\<exists>c. (c \<longrightarrow> is_cancel a) \<and> cond_step t c s s'))"
    using idle_step [OF assms(1), of t a s'] busy_step [OF assms, of t a s'] unfolding do_act_def by metis
  then show "do_act t a s \<noteq> Broken" "do_act t a s = Next s' \<Longrightarrow> \<exists>c. (c \<longrightarrow> is_cancel a) \<and> cond_step t c s s'" by blast+
qed

section \<open>Schedules\<close>

definition sys_inv :: "cond_sys \<Rightarrow> bool" where
  "sys_inv s \<longleftrightarrow> queue_inv s \<and> mutex_inv s \<and> chain_inv s \<and> token_inv s"

lemma sys_step: "cond_step t c s s' \<Longrightarrow> sys_inv s \<Longrightarrow> sys_inv s'"
  by (simp add: sys_inv_def cond_queue_step mutex_step chain_step token_step)

lemma new_mutex_free: "m_owner (new_mutex attr) = None \<and> m_lock (new_mutex attr) = None"
proof (cases "MutexInit True attr")
  case (Inl e)
  then show ?thesis by (simp add: new_mutex_def MutexInit_def)
qed (use MutexInit_result [of True attr] in \<open>simp add: new_mutex_def\<close>)

lemma cond_init_inv: "sys_inv (cond_init attrs)" "debt_inv (cond_init attrs)"
proof -
  have init: "cs_sleep (cond_init attrs) = sleepq_init" "cs_pc (cond_init attrs) = (\<lambda>_. CIdle)" "cs_mutex_obj (cond_init attrs) = (\<lambda>_. None)"
    "cs_mutex (cond_init attrs) = (\<lambda>m. new_mutex (attrs m))" "cs_chain (cond_init attrs) = (\<lambda>_. None)"
    "c_has_user_waiters (cs_cond (cond_init attrs) w) = False" for w by (simp_all add: cond_init_def)
  have "td_wchan sleepq_init t = 0" for t by (simp add: sleepq_init_def)
  then have "queue_inv (cond_init attrs)" unfolding queue_inv_def by (simp add: init sleepq_inv_init)
  moreover have "mutex_inv (cond_init attrs)" unfolding mutex_inv_def by (simp add: init new_mutex_free)
  moreover have "chain_inv (cond_init attrs)" unfolding chain_inv_def by (simp add: init sleepers_init)
  moreover have "token_inv (cond_init attrs)" unfolding token_inv_def by (simp add: init)
  ultimately show "sys_inv (cond_init attrs)" by (simp add: sys_inv_def)
  show "debt_inv (cond_init attrs)" by (simp add: debt_inv_def cond_init_def)
qed

lemma run_schedule_inv:
  "sys_inv s \<Longrightarrow> \<exists>s'. run_schedule xs s = Some s' \<and> sys_inv s' \<and> ((\<forall>x \<in> set xs. \<not> is_cancel (snd x)) \<longrightarrow> debt_inv s \<longrightarrow> debt_inv s')"
proof (induction xs arbitrary: s)
  case (Cons x xs)
  obtain t a where x: "x = (t, a)" by (cases x)
  have i: "queue_inv s" "mutex_inv s" using Cons.prems by (simp_all add: sys_inv_def)
  show ?case
  proof (cases "do_act t a s")
    case Blocked
    then show ?thesis using Cons.IH [OF Cons.prems] x by auto
  next
    case Broken
    then show ?thesis using do_act_step(1) [OF i] by simp
  next
    case (Next s1)
    obtain c where c: "c \<longrightarrow> is_cancel a" "cond_step t c s s1" using do_act_step(2) [OF i Next] by auto
    have d: "\<not> is_cancel a \<Longrightarrow> debt_inv s \<Longrightarrow> debt_inv s1" using debt_step [OF c(2)] c(1) i(2) by blast
    show ?thesis using Cons.IH [OF sys_step [OF c(2) Cons.prems]] x Next d by auto
  qed
qed simp

text \<open>What the waiters and the signallers can rely on.  A thread that is blocked in \<open>Sleep\<close> is in its queue, has a token, or some thread
  has its release still to do: at once, at the unlock of a mutex that it owns, or when it goes to sleep itself.\<close>

definition will_release :: "cond_sys \<Rightarrow> thread \<Rightarrow> thread \<Rightarrow> bool" where
  "will_release s u t \<longleftrightarrow> (\<exists>ts. cs_pc s u = CRelease ts \<and> t \<in> set ts) \<or>
     t \<in> set (cs_defer s u) \<and> sleeping (cs_pc s u) = None \<and> (owns_deferred s u \<or> cs_will_sleep s u \<and> before_sleep (cs_pc s u) \<or> cs_pc s u = CFlush) \<or>
     t \<in> set (cs_defer s u) \<and> (\<exists>w m r timed. cs_pc s u = CAsleep w m r timed False True)"

definition no_lost_wakeup :: "cond_sys \<Rightarrow> bool" where
  "no_lost_wakeup s \<longleftrightarrow> (\<forall>t w m r timed. cs_pc s t = CSleep w m r timed \<longrightarrow>
     t \<in> set (sleepers (cs_sleep s) w) \<or> 0 < cs_wake s t \<or> (\<exists>u. will_release s u t))"

definition queues_exact :: "cond_sys \<Rightarrow> bool" where
  "queues_exact s \<longleftrightarrow> (\<forall>t w. t \<in> set (sleepers (cs_sleep s) w) \<longrightarrow> map_option fst (sleeping (cs_pc s t)) = Some w) \<and>
     (\<forall>w. w \<noteq> 0 \<longrightarrow> c_has_user_waiters (cs_cond s w) = (sleepers (cs_sleep s) w \<noteq> [] \<or> (\<exists>t. enqueues (cs_pc s t) = Some w)))"



lemma queues_exact_inv: "sys_inv s \<Longrightarrow> queues_exact s"
  using queue_sleeper queue_invD(2) by (fastforce simp: queues_exact_def sys_inv_def chain_inv_def)

section \<open>Whom a call wakes\<close>

text \<open>The threads whose release has happened or is still to be done by \<open>t\<close>.\<close>

definition woken :: "cond_sys \<Rightarrow> thread \<Rightarrow> thread set" where
  "woken s t = {u. 0 < cs_wake s u \<or> u \<in> owed s t}"

lemma wake_one_effect: "cs_sleep (wake_one t td s) = cs_sleep s" "td \<in> woken (wake_one t td s) t"
proof -
  have "cs_sleep (wake_one t td s) = cs_sleep s \<and> td \<in> woken (wake_one t td s) t"
  proof (cases "must_defer t td s")
    case (Some m)
    then have "m_owner (cs_mutex s m) = Some t" by (auto simp: must_defer_def split: option.splits if_splits)
    then show ?thesis using Some wakingD(1) [OF waking_defer, of s m t td] wakingD(10) [OF waking_defer, of s m t td td] by (auto simp: wake_one_def woken_def owed_def)
  qed (simp add: wake_one_def set_pc_def woken_def owed_def)
  then show "cs_sleep (wake_one t td s) = cs_sleep s" "td \<in> woken (wake_one t td s) t" by auto
qed

lemma signal_effect:
  assumes inv: "queue_inv s" and chain: "cs_chain s (SC_HASH w) = None"
  shows "\<exists>s'. cond_Signal t w None s = Next s' \<and> sleepers (cs_sleep s') = (sleepers (cs_sleep s))(w := tl (sleepers (cs_sleep s) w)) \<and>
    set (take 1 (sleepers (cs_sleep s) w)) \<subseteq> woken s' t"
proof (cases "sleepers (cs_sleep s) w")
  case Nil
  then have "(sleepers (cs_sleep s))(w := tl (sleepers (cs_sleep s) w)) = sleepers (cs_sleep s)" by auto
  then show ?thesis using cond_Signal_view [OF inv chain, of t None] Nil by (simp add: signalled_def set_ret_def)
next
  case (Cons td tds)
  have i: "sleepq_inv (cs_sleep s)" using inv by (simp add: queue_inv_def)
  obtain b q where r: "sleep_remove w td (cs_sleep s) = Some (b, q)" using sleepq.remove_law [OF i, of td w] Cons by auto
  have "td \<notin> set tds" using sleepq.queue_distinct [OF i, of w] Cons by simp
  then have q: "sleepers q = (sleepers (cs_sleep s))(w := tds)" using remove_view(3) [OF inv r] Cons by (simp add: removeAll_id)
  let ?s' = "wake_one t td (set_ret t None (set_waiters w b (s\<lparr>cs_sleep := q\<rparr>)))"
  have "cond_Signal t w None s = Next ?s'" using cond_Signal_view [OF inv chain, of t None] Cons r by (simp add: signalled_def checked_def)
  moreover have "cs_sleep ?s' = q" by (simp add: wake_one_effect set_ret_def set_waiters_def)
  ultimately show ?thesis using q Cons wake_one_effect(2) by auto
qed

lemma broadcast_effect:
  assumes inv: "queue_inv s" and chain: "cs_chain s (SC_HASH w) = None"
  shows "\<exists>s'. cond_Broadcast t w s = Next s' \<and> sleepers (cs_sleep s') = (sleepers (cs_sleep s))(w := []) \<and>
    set (sleepers (cs_sleep s) w) \<subseteq> woken s' t"
proof (cases "SleepqLookup w (cs_sleep s) = None")
  case True
  then have e: "sleepers (cs_sleep s) w = []" by (simp add: sleepers_def)
  then have "(sleepers (cs_sleep s))(w := []) = sleepers (cs_sleep s)" by auto
  then show ?thesis using True chain e by (simp add: cond_Broadcast_def set_ret_def)
next
  case False
  have i: "sleepq_inv (cs_sleep s)" using inv by (simp add: queue_inv_def)
  obtain q where q: "sleep_drop w (cs_sleep s) = Some (sleepers (cs_sleep s) w, q)" "sleepers q = (sleepers (cs_sleep s))(w := [])"
    using sleepq.drop_law [OF i, of w] by blast
  obtain ws s2 where f: "fold (drop_cb t) (sleepers (cs_sleep s) w) ([], s\<lparr>cs_sleep := q\<rparr>) = (ws, s2)" by fastforce
  have k: "waking t (sleepers (cs_sleep s) w) (s\<lparr>cs_sleep := q\<rparr>) ws s2" using fold_drop_cb [OF waking_none f] by simp
  let ?s' = "set_pc t (if ws = [] then CIdle else CRelease ws) (set_ret t None (set_waiters w False s2))"
  have "cond_Broadcast t w s = Next ?s'" using chain False q(1) f by (simp add: cond_Broadcast_def checked_def del: not_None_eq)
  moreover have "cs_sleep ?s' = q" using wakingD(1) [OF k] by (simp add: set_pc_def set_ret_def set_waiters_def)
  moreover have "u \<in> woken ?s' t" if "u \<in> set (sleepers (cs_sleep s) w)" for u
    using wakingD(10) [OF k, of u] that by (auto simp: woken_def owed_def setter_defs)
  ultimately show ?thesis using q(2) by blast
qed

section \<open>Claims\<close>


definition wait_signal_schedule :: "(thread \<times> cond_act) list" where
  "wait_signal_schedule = [(1, ALock 0), (1, AWait 8 0 False), (1, AEnqueue), (1, ASleep), (2, ALock 0), (2, ASignal 8 None), (2, AUnlock 0),
     (2, AFlush), (1, AToken), (1, ACheck), (1, ARelock)]"


lemmas cond_eval = run_schedule.simps do_act_def idle_act.simps busy_act_def cond_init_def new_mutex_def MutexInit_def PthreadMutexattrDefault_def
  TryLock_def mutex_Unlock_def unlock_begin_def mutex_Type_def wait_begin_def wait_enqueue_def sleep_enter_def wait_leave_def wait_check_def cv_lock_def
  cond_Signal_def must_defer_def defer_wake_def checked_def set_pc_def set_ret_def put_mutex_def set_waiters_def release_semas_def WakeAll_def ClearWake_def
  SleepqAdd_def SleepqRemove_def SleepqLookup_def sleep_remove_def sleepq_init_def sq_unlink_def SC_HASH_def Let_def

lemma wait_signal_done:
  "map_option (\<lambda>s. (cs_pc s 1, cs_pc s 2, m_owner (cs_mutex s 0), cs_defer s 2)) (run_schedule wait_signal_schedule (cond_init (\<lambda>_. None)))
   = Some (CIdle, CIdle, Some 1, [])"
  unfolding wait_signal_schedule_def by (simp add: cond_eval)

text \<open>C30: In every state that a schedule reaches, cancellations included, a call of Signal by an idle thread that gets the chain
  takes the oldest waiter off the queue of the condition variable, Broadcast takes all, and every thread taken off has a token or is
  one whose release the caller has still to do; the other queues do not change and no assertion fails.\<close>

theorem cond_wakes_oldest:
  assumes "run_schedule xs (cond_init attrs) = Some s" "cs_chain s (SC_HASH w) = None"
  shows "(\<exists>s'. cond_Signal t w None s = Next s' \<and> sleepers (cs_sleep s') = (sleepers (cs_sleep s))(w := tl (sleepers (cs_sleep s) w)) \<and>
      set (take 1 (sleepers (cs_sleep s) w)) \<subseteq> woken s' t) \<and>
    (\<exists>s'. cond_Broadcast t w s = Next s' \<and> sleepers (cs_sleep s') = (sleepers (cs_sleep s))(w := []) \<and> set (sleepers (cs_sleep s) w) \<subseteq> woken s' t)"
proof -
  have "queue_inv s" using run_schedule_inv [OF cond_init_inv(1), of xs attrs] assms(1) by (auto simp: sys_inv_def)
  then show ?thesis using signal_effect [OF _ assms(2)] broadcast_effect [OF _ assms(2)] by blast
qed

definition two_waiters :: cond_sys where
  "two_waiters = the (run_schedule (concat [[(t, ALock 0), (t, AWait 8 0 False), (t, AEnqueue), (t, ASleep)]. t \<leftarrow> [1, 2]]) (cond_init (\<lambda>_. None)))"

lemma two_waiters_eval:
  "run_schedule (concat [[(t, ALock 0), (t, AWait 8 0 False), (t, AEnqueue), (t, ASleep)]. t \<leftarrow> [1, 2]]) (cond_init (\<lambda>_. None)) = Some two_waiters"
  "cs_chain two_waiters (SC_HASH 8) = None" "sleepers (cs_sleep two_waiters) 8 = [1, 2]"
  by (simp_all add: two_waiters_def cond_eval sleepers_def)

theorem cond_wakes_oldest_witness:
  "\<exists>s1 s2. cond_Signal 3 8 None two_waiters = Next s1 \<and> sleepers (cs_sleep s1) 8 = [2] \<and> 1 \<in> woken s1 3 \<and>
    cond_Broadcast 3 8 two_waiters = Next s2 \<and> sleepers (cs_sleep s2) 8 = [] \<and> {1, 2} \<subseteq> woken s2 3"
  using cond_wakes_oldest [OF two_waiters_eval(1,2), of 3] two_waiters_eval(3) by auto

section \<open>Cancellation\<close>

text \<open>A wake-up that is lost.  Thread 1 waits on the condition variable 8.  Thread 2 signals it with the mutex held, so that the release
  is deferred, and waits on the condition variable 16 with the same mutex.  \<open>CvUnlock\<close> leaves the deferred wake-up to \<open>Sleep\<close> but clears the flag
  of the mutex, a cancellation makes \<open>Wait\<close> skip \<open>Sleep\<close>, and thread 2 exits.  Nobody will ever release the semaphore of thread 1: it is in no
  queue, and its release is in the list of a thread that takes no further step.\<close>

definition lost_schedule :: "(thread \<times> cond_act) list" where
  "lost_schedule = [(1, ALock 0), (1, AWait 8 0 False), (1, AEnqueue), (1, ASleep), (2, ALock 0), (2, ASignal 8 None),
     (2, AWait 16 0 False), (3, ACancel 2 True), (2, AEnqueue), (2, ASleep), (2, ACheck), (2, AExit)]"

lemma lost_schedule_eval:
  "map_option cs_pc (run_schedule lost_schedule (cond_init (\<lambda>_. None))) = Some ((\<lambda>_. CIdle)(1 := CSleep 8 0 0 False, 2 := CDead))"
  "map_option cs_defer (run_schedule lost_schedule (cond_init (\<lambda>_. None))) = Some ((\<lambda>_. [])(2 := [1]))"
  "map_option (\<lambda>s. (td_wchan (cs_sleep s) 1, cs_wake s 1, owns_deferred s 2)) (run_schedule lost_schedule (cond_init (\<lambda>_. None))) = Some (0, 0, False)"
  unfolding lost_schedule_def by (simp_all add: cond_eval owns_deferred_def deferred_def fun_eq_iff)

lemma dead_blocked: "cs_pc s t = CDead \<Longrightarrow> do_act t a s = Blocked"
  by (cases a) (simp_all add: do_act_def busy_act_def)

lemma cancelled_wait_loses_wakeup:
  obtains s where "run_schedule lost_schedule (cond_init (\<lambda>_. None)) = Some s" "queues_exact s" "\<not> no_lost_wakeup s"
    "cs_pc s 1 = CSleep 8 0 0 False" "\<And>a. do_act 2 a s = Blocked" "\<And>u. u \<noteq> 2 \<Longrightarrow> 1 \<notin> owed s u"
proof -
  obtain s where s: "run_schedule lost_schedule (cond_init (\<lambda>_. None)) = Some s" "sys_inv s"
    using run_schedule_inv [OF cond_init_inv(1)] by blast
  have pc: "cs_pc s = (\<lambda>_. CIdle)(1 := CSleep 8 0 0 False, 2 := CDead)" and defers: "cs_defer s = (\<lambda>_. [])(2 := [1])"
    and t1: "td_wchan (cs_sleep s) 1 = 0" "cs_wake s 1 = 0" "\<not> owns_deferred s 2" using lost_schedule_eval s(1) by simp_all
  have q: "queue_inv s" using s(2) by (simp add: sys_inv_def)
  have pc1: "cs_pc s 1 = CSleep 8 0 0 False" and pc2: "cs_pc s 2 = CDead" by (simp_all add: pc)
  have "1 \<notin> set (sleepers (cs_sleep s) 8)" using queue_sleeper [OF q, of 1 8] t1(1) by simp
  moreover have "\<not> will_release s u 1" for u using t1(3) by (simp add: will_release_def pc defers)
  ultimately have "\<not> no_lost_wakeup s" using t1(2) pc1 unfolding no_lost_wakeup_def by (metis less_irrefl)
  moreover have "1 \<notin> owed s u" if "u \<noteq> 2" for u using that by (simp add: owed_def pc defers)
  ultimately show thesis by (rule that [OF s(1) queues_exact_inv [OF s(2)] _ pc1 dead_blocked [OF pc2]])
qed

end
