(* ===== verification/Pthread_Specific.thy ===== *)
theory Pthread_Specific
  imports Kernel_Error
begin

text \<open>
  Thread-specific data (\<^verbatim>\<open>src/src/core/libraries/kernel/threads/pthread_spec.cpp\<close>): the global table of keys and,
  in every thread, the array of values that \<open>setspecific\<close> allocates on first use.  A pointer is a number, 0 the null
  pointer; a key is the \<open>s32\<close> of the guest, given by its bits:
  \<open>key >= PthreadKeysMax\<close> compares it as a \<open>u32\<close>, so that a negative key is too large.  The generation number \<open>seqno\<close> is a 32-bit integer that wraps around.

  POSIX promises that a new key has the null value in every thread.  The code never touches the arrays of
  other threads to achieve this: it compares generation numbers.  The specification \<open>spec_op\<close> resets
  the values of a new key; the refinement theorem says that the generation numbers have exactly this effect.
\<close>

section \<open>Keys and values\<close>

type_synonym thread = nat

abbreviation (input) PthreadKeysMax :: nat where "PthreadKeysMax \<equiv> 256"
abbreviation (input) PthreadDestructorIterations :: nat where "PthreadDestructorIterations \<equiv> 4"

record PthreadKey =
  k_allocated :: int
  k_seqno :: int
  k_destructor :: nat

record PthreadSpecificElem =
  sp_data :: nat
  sp_seqno :: int

record key_state =
  ThreadKeytable :: "PthreadKey list"
  th_specific :: "thread \<Rightarrow> PthreadSpecificElem list option"
  th_count :: "thread \<Rightarrow> int"

definition key_init :: key_state where
  "key_init = \<lparr>ThreadKeytable = replicate PthreadKeysMax \<lparr>k_allocated = 0, k_seqno = 0, k_destructor = 0\<rparr>,
     th_specific = (\<lambda>_. None), th_count = (\<lambda>_. 0)\<rparr>"

text \<open>\<open>seqno++\<close> on an atomic \<open>int\<close>.\<close>

definition seqno_next :: "int \<Rightarrow> int" where
  "seqno_next n = (if n = 0x7FFFFFFF then - 0x80000000 else n + 1)"

definition posix_pthread_key_create :: "nat \<Rightarrow> key_state \<Rightarrow> (PosixErrno + nat) \<times> key_state" where
  "posix_pthread_key_create destructor s =
    (case find (\<lambda>i. k_allocated (ThreadKeytable s ! i) = 0) [0..<length (ThreadKeytable s)] of
       Some i \<Rightarrow> (Inr i, s\<lparr>ThreadKeytable := (ThreadKeytable s)[i :=
         \<lparr>k_allocated = 1, k_seqno = seqno_next (k_seqno (ThreadKeytable s ! i)), k_destructor = destructor\<rparr>]\<rparr>)
     | None \<Rightarrow> (Inl POSIX_EAGAIN, s))"

definition posix_pthread_key_delete :: "u32 \<Rightarrow> key_state \<Rightarrow> PosixErrno option \<times> key_state" where
  "posix_pthread_key_delete key s =
    (if key \<ge> PthreadKeysMax then (Some POSIX_EINVAL, s)
     else if k_allocated (ThreadKeytable s ! key) = 0 then (Some POSIX_EINVAL, s)
     else (None, s\<lparr>ThreadKeytable := (ThreadKeytable s)[key := (ThreadKeytable s ! key)\<lparr>k_allocated := 0\<rparr>]\<rparr>))"

text \<open>The allocation of the array on first use; \<open>memory\<close> says whether it succeeds.\<close>

definition specific_array :: "bool \<Rightarrow> thread \<Rightarrow> key_state \<Rightarrow> key_state option" where
  "specific_array memory t s = (case th_specific s t of
     Some sp \<Rightarrow> Some s
   | None \<Rightarrow> if memory then Some (s\<lparr>th_specific := (th_specific s)(t := Some (replicate PthreadKeysMax \<lparr>sp_data = 0, sp_seqno = 0\<rparr>))\<rparr>)
             else None)"

definition count_change :: "nat \<Rightarrow> nat \<Rightarrow> int" where
  "count_change old new = (if old = 0 then (if new \<noteq> 0 then 1 else 0) else if new = 0 then - 1 else 0)"

definition posix_pthread_setspecific :: "bool \<Rightarrow> thread \<Rightarrow> u32 \<Rightarrow> nat \<Rightarrow> key_state \<Rightarrow> PosixErrno option \<times> key_state" where
  "posix_pthread_setspecific memory t key v s = (case specific_array memory t s of
     None \<Rightarrow> (Some POSIX_ENOMEM, s)
   | Some s \<Rightarrow>
     if key \<ge> PthreadKeysMax then (Some POSIX_EINVAL, s)
     else if k_allocated (ThreadKeytable s ! key) = 0 then (Some POSIX_EINVAL, s)
     else (let sp = the (th_specific s t); e = sp ! key in
       (None, s\<lparr>th_specific := (th_specific s)(t := Some (sp[key := \<lparr>sp_data = v, sp_seqno = k_seqno (ThreadKeytable s ! key)\<rparr>])),
                th_count := (th_count s)(t := th_count s t + count_change (sp_data e) v)\<rparr>)))"

definition posix_pthread_getspecific :: "thread \<Rightarrow> u32 \<Rightarrow> key_state \<Rightarrow> nat" where
  "posix_pthread_getspecific t key s = (case th_specific s t of
     None \<Rightarrow> 0
   | Some sp \<Rightarrow> if key \<ge> PthreadKeysMax then 0
     else if k_allocated (ThreadKeytable s ! key) \<noteq> 0 \<and> sp_seqno (sp ! key) = k_seqno (ThreadKeytable s ! key)
     then sp_data (sp ! key) else 0)"

section \<open>Sequences of calls\<close>

datatype key_op = KCreate nat | KDelete u32 | KSet bool thread u32 nat | KGet thread u32

datatype key_result = KOk | KFails PosixErrno | KKey nat | KValue nat

definition errno_result :: "PosixErrno option \<Rightarrow> key_result" where
  "errno_result e = (case e of None \<Rightarrow> KOk | Some e \<Rightarrow> KFails e)"

fun do_op :: "key_op \<Rightarrow> key_state \<Rightarrow> key_result \<times> key_state" where
  "do_op (KCreate d) s = map_prod (case_sum KFails KKey) id (posix_pthread_key_create d s)"
| "do_op (KDelete key) s = map_prod errno_result id (posix_pthread_key_delete key s)"
| "do_op (KSet memory t key v) s = map_prod errno_result id (posix_pthread_setspecific memory t key v s)"
| "do_op (KGet t key) s = (KValue (posix_pthread_getspecific t key s), s)"

fun run_ops :: "('o \<Rightarrow> 's \<Rightarrow> 'r \<times> 's) \<Rightarrow> 'o list \<Rightarrow> 's \<Rightarrow> 'r list \<times> 's" where
  "run_ops f [] s = ([], s)"
| "run_ops f (x # xs) s = (case f x s of (r, s') \<Rightarrow> case run_ops f xs s' of (rs, s'') \<Rightarrow> (r # rs, s''))"

section \<open>Exit of a thread\<close>

text \<open>\<open>_thread_cleanupspecific\<close> calls destructors of the guest without holding the lock of the table.  \<open>call\<close> gives the calls of
  key functions, by any thread, that happen during one call of a destructor.  The log has the key, the
  destructor and the value of every call that was made.\<close>

type_synonym key_call = "nat \<Rightarrow> nat \<Rightarrow> key_state \<Rightarrow> key_op list"
type_synonym cleanup_log = "(nat \<times> nat \<times> nat) list"

definition clear_value :: "thread \<Rightarrow> nat \<Rightarrow> PthreadSpecificElem list \<Rightarrow> key_state \<Rightarrow> key_state" where
  "clear_value t key sp s = (if sp_data (sp ! key) \<noteq> 0
     then s\<lparr>th_specific := (th_specific s)(t := Some (sp[key := (sp ! key)\<lparr>sp_data := 0\<rparr>])), th_count := (th_count s)(t := th_count s t - 1)\<rparr>
     else s)"

definition value_destructor :: "PthreadKey \<Rightarrow> PthreadSpecificElem \<Rightarrow> nat" where
  "value_destructor k e = (if k_allocated k \<noteq> 0 \<and> sp_data e \<noteq> 0 \<and> sp_seqno e = k_seqno k then k_destructor k else 0)"

definition cleanup_key :: "key_call \<Rightarrow> thread \<Rightarrow> nat \<Rightarrow> cleanup_log \<times> key_state \<Rightarrow> (cleanup_log \<times> key_state) option" where
  "cleanup_key call t key x = (case x of (log, s) \<Rightarrow> do {
     sp \<leftarrow> th_specific s t;
     let destructor = value_destructor (ThreadKeytable s ! key) (sp ! key);
     let s = clear_value t key sp s;
     Some (if destructor \<noteq> 0 then (log @ [(key, destructor, sp_data (sp ! key))], snd (run_ops do_op (call destructor (sp_data (sp ! key)) s) s))
           else (log, s))
   })"

fun cleanup_keys :: "key_call \<Rightarrow> thread \<Rightarrow> nat \<Rightarrow> nat \<Rightarrow> cleanup_log \<times> key_state \<Rightarrow> (cleanup_log \<times> key_state) option" where
  "cleanup_keys call t key 0 x = Some x"
| "cleanup_keys call t key (Suc n) x =
    (if th_count (snd x) t > 0 then do { x \<leftarrow> cleanup_key call t key x; cleanup_keys call t (Suc key) n x } else Some x)"

fun cleanup_rounds :: "key_call \<Rightarrow> thread \<Rightarrow> nat \<Rightarrow> cleanup_log \<times> key_state \<Rightarrow> (cleanup_log \<times> key_state) option" where
  "cleanup_rounds call t 0 x = Some x"
| "cleanup_rounds call t (Suc i) x =
    (if th_count (snd x) t > 0 then do { x \<leftarrow> cleanup_keys call t 0 PthreadKeysMax x; cleanup_rounds call t i x } else Some x)"

definition thread_cleanupspecific :: "key_call \<Rightarrow> thread \<Rightarrow> key_state \<Rightarrow> (cleanup_log \<times> key_state) option" where
  "thread_cleanupspecific call t s = (case th_specific s t of
     None \<Rightarrow> Some ([], s)
   | Some _ \<Rightarrow> do {
       (log, s) \<leftarrow> cleanup_rounds call t PthreadDestructorIterations ([], s);
       Some (log, s\<lparr>th_specific := (th_specific s)(t := None)\<rparr>) })"

section \<open>Cleanup handlers\<close>

text \<open>The handlers of a thread (\<^verbatim>\<open>pthread_clean.cpp\<close> and the loop of \<open>posix_pthread_exit\<close>), newest first.  \<open>run\<close> gives what a
  routine does to the list.  \<open>pop\<close> also returns the handler it executed and the one it freed.  A handler can push new
  handlers for ever, so the loop of the exit is a partial function.\<close>

record PthreadCleanup =
  cl_routine :: nat
  cl_arg :: nat
  cl_onheap :: int

definition pthread_cleanup_push_imp :: "nat \<Rightarrow> nat \<Rightarrow> PthreadCleanup list \<Rightarrow> PthreadCleanup list" where
  "pthread_cleanup_push_imp routine arg cs = \<lparr>cl_routine = routine, cl_arg = arg, cl_onheap = 0\<rparr> # cs"

definition posix_pthread_cleanup_push :: "bool \<Rightarrow> nat \<Rightarrow> nat \<Rightarrow> PthreadCleanup list \<Rightarrow> PthreadCleanup list" where
  "posix_pthread_cleanup_push memory routine arg cs =
    (if memory then \<lparr>cl_routine = routine, cl_arg = arg, cl_onheap = 1\<rparr> # cs else cs)"

type_synonym cleanup_run = "nat \<Rightarrow> nat \<Rightarrow> PthreadCleanup list \<Rightarrow> PthreadCleanup list"

definition posix_pthread_cleanup_pop :: "cleanup_run \<Rightarrow> int \<Rightarrow> PthreadCleanup list \<Rightarrow>
    PthreadCleanup option \<times> PthreadCleanup option \<times> PthreadCleanup list" where
  "posix_pthread_cleanup_pop run execute cs = (case cs of
     [] \<Rightarrow> (None, None, [])
   | old # cs \<Rightarrow> (if execute \<noteq> 0 then Some old else None, if cl_onheap old \<noteq> 0 then Some old else None,
       if execute \<noteq> 0 then run (cl_routine old) (cl_arg old) cs else cs))"

partial_function (option) exit_handlers ::
  "cleanup_run \<Rightarrow> PthreadCleanup list \<Rightarrow> PthreadCleanup list \<Rightarrow> PthreadCleanup list option" where
  "exit_handlers run log cs = (case cs of
     [] \<Rightarrow> Some log
   | old # cs \<Rightarrow> exit_handlers run (log @ [old]) (run (cl_routine old) (cl_arg old) cs))"

section \<open>Specification\<close>

text \<open>The live keys with their destructors, the value of every live key in every thread, and which threads have an array (only
  they can no longer run out of memory).\<close>

record key_spec =
  live :: "nat \<Rightarrow> nat option"
  val :: "thread \<Rightarrow> nat \<Rightarrow> nat"
  arrays :: "thread \<Rightarrow> bool"

definition spec_init :: key_spec where
  "spec_init = \<lparr>live = (\<lambda>_. None), val = (\<lambda>_ _. 0), arrays = (\<lambda>_. False)\<rparr>"

definition spec_key :: "key_spec \<Rightarrow> u32 \<Rightarrow> bool" where
  "spec_key a key \<longleftrightarrow> key < PthreadKeysMax \<and> live a (key) \<noteq> None"

fun spec_op :: "key_op \<Rightarrow> key_spec \<Rightarrow> key_result \<times> key_spec" where
  "spec_op (KCreate d) a =
    (case find (\<lambda>i. live a i = None) [0..<PthreadKeysMax] of
       None \<Rightarrow> (KFails POSIX_EAGAIN, a)
     | Some i \<Rightarrow> (KKey i, a\<lparr>live := (live a)(i := Some d), val := (\<lambda>t. (val a t)(i := 0))\<rparr>))"
| "spec_op (KDelete key) a =
    (if spec_key a key then (KOk, a\<lparr>live := (live a)(key := None)\<rparr>) else (KFails POSIX_EINVAL, a))"
| "spec_op (KSet memory t key v) a =
    (if \<not> memory \<and> \<not> arrays a t then (KFails POSIX_ENOMEM, a)
     else (let a = a\<lparr>arrays := (arrays a)(t := True)\<rparr> in
       if spec_key a key then (KOk, a\<lparr>val := (val a)(t := (val a t)(key := v))\<rparr>) else (KFails POSIX_EINVAL, a)))"
| "spec_op (KGet t key) a = (KValue (if spec_key a key then val a t (key) else 0), a)"

fun is_create :: "key_op \<Rightarrow> bool" where
  "is_create (KCreate d) = True"
| "is_create _ = False"

section \<open>Generation numbers\<close>

text \<open>The generation number after \<open>n\<close> creations.\<close>

definition gen :: "nat \<Rightarrow> int" where
  "gen n = int ((n + 0x80000000) mod 0x100000000) - 0x80000000"

lemma gen_0 [simp]: "gen 0 = 0"
  by (simp add: gen_def)

lemma gen_Suc [simp]: "seqno_next (gen n) = gen (Suc n)"
proof -
  have "int (Suc m mod 0x100000000) = (if m mod 0x100000000 = 0xFFFFFFFF then 0 else int (m mod 0x100000000) + 1)" for m
    by (simp add: mod_Suc)
  from this [of "n + 0x80000000"] show ?thesis by (auto simp: gen_def seqno_next_def)
qed

lemma gen_inj:
  assumes "gen m = gen n" "m < 0x100000000" "n < 0x100000000" shows "m = n"
proof -
  have "(m + 0x80000000) mod 0x100000000 = (n + 0x80000000) mod 0x100000000" using assms(1) by (simp add: gen_def)
  moreover have "(x + 0x80000000) mod 0x100000000 = (if x < 0x80000000 then x + 0x80000000 else x - 0x80000000)" if "x < 0x100000000" for x :: nat
    using that by (auto simp: mod_if)
  ultimately show ?thesis using assms(2,3) by (auto split: if_splits)
qed

section \<open>Refinement\<close>

text \<open>A stored value counts when its generation \<open>j\<close> is the current one.\<close>

definition elem_rel :: "nat \<Rightarrow> nat option \<Rightarrow> nat \<Rightarrow> PthreadSpecificElem \<Rightarrow> bool" where
  "elem_rel c l v e \<longleftrightarrow> (\<exists>j \<le> c. sp_seqno e = gen j \<and> (l \<noteq> None \<longrightarrow> v = (if j = c then sp_data e else 0)))"

definition table_rel :: "(nat \<Rightarrow> nat) \<Rightarrow> PthreadKey list \<Rightarrow> (nat \<Rightarrow> nat option) \<Rightarrow> bool" where
  "table_rel c ks l \<longleftrightarrow> length ks = PthreadKeysMax \<and>
     (\<forall>i < PthreadKeysMax. (k_allocated (ks ! i) = 0 \<longleftrightarrow> l i = None) \<and> k_seqno (ks ! i) = gen (c i) \<and>
        (l i \<noteq> None \<longrightarrow> l i = Some (k_destructor (ks ! i))))"

definition array_rel :: "(nat \<Rightarrow> nat) \<Rightarrow> (nat \<Rightarrow> nat option) \<Rightarrow> (nat \<Rightarrow> nat) \<Rightarrow> PthreadSpecificElem list option \<Rightarrow> bool" where
  "array_rel c l v x = (case x of
     None \<Rightarrow> \<forall>i < PthreadKeysMax. l i \<noteq> None \<longrightarrow> v i = 0
   | Some sp \<Rightarrow> length sp = PthreadKeysMax \<and> (\<forall>i < PthreadKeysMax. elem_rel (c i) (l i) (v i) (sp ! i)))"

definition key_rel :: "(nat \<Rightarrow> nat) \<Rightarrow> key_state \<Rightarrow> key_spec \<Rightarrow> bool" where
  "key_rel c s a \<longleftrightarrow> table_rel c (ThreadKeytable s) (live a) \<and>
     (\<forall>t. array_rel c (live a) (val a t) (th_specific s t) \<and> arrays a t = (th_specific s t \<noteq> None))"

lemma key_rel_init: "key_rel (\<lambda>_. 0) key_init spec_init"
  by (simp add: key_rel_def key_init_def spec_init_def table_rel_def array_rel_def)

lemma find_cong_upt: "(\<And>i. i < n \<Longrightarrow> P i = Q i) \<Longrightarrow> find P [0..<n] = find Q [0..<n]"
  by (rule find_cong) auto

lemma array_rel_None: "array_rel c l v None \<longleftrightarrow> (\<forall>i < PthreadKeysMax. l i \<noteq> None \<longrightarrow> v i = 0)"
  by (simp add: array_rel_def)

lemma array_rel_Some:
  "array_rel c l v (Some sp) \<longleftrightarrow> length sp = PthreadKeysMax \<and> (\<forall>i < PthreadKeysMax. elem_rel (c i) (l i) (v i) (sp ! i))"
  by (simp add: array_rel_def)

lemma rel_array: "key_rel c s a \<Longrightarrow> array_rel c (live a) (val a t) (th_specific s t)"
  by (simp add: key_rel_def)

lemma rel_key:
  assumes "key_rel c s a"
  shows "spec_key a key \<longleftrightarrow> \<not> key \<ge> PthreadKeysMax \<and> k_allocated (ThreadKeytable s ! key) \<noteq> 0"
    and "key < PthreadKeysMax \<Longrightarrow> k_seqno (ThreadKeytable s ! key) = gen (c key)"
  using assms unfolding key_rel_def table_rel_def spec_key_def by (metis not_le)+

lemma elem_rel_new: "elem_rel c l v e \<Longrightarrow> elem_rel (Suc c) (Some d) 0 e"
  unfolding elem_rel_def by (metis Suc_n_not_le_n le_SucI)

lemma elem_rel_dead: "elem_rel c l v e \<Longrightarrow> elem_rel c None v e"
  unfolding elem_rel_def by blast

lemma array_rel_new:
  "array_rel c l v x \<Longrightarrow> array_rel (c(i := Suc (c i))) (l(i := Some d)) (v(i := 0)) x"
  by (auto simp: array_rel_def intro: elem_rel_new split: option.splits)

lemma array_rel_dead: "array_rel c l v x \<Longrightarrow> array_rel c (l(i := None)) v x"
  by (auto simp: array_rel_def intro: elem_rel_dead split: option.splits)

lemma create_refines:
  assumes r: "key_rel c s a"
  obtains c' where "key_rel c' (snd (do_op (KCreate d) s)) (snd (spec_op (KCreate d) a))" "\<And>i. c' i \<le> Suc (c i)"
    "fst (do_op (KCreate d) s) = fst (spec_op (KCreate d) a)"
proof -
  have t: "table_rel c (ThreadKeytable s) (live a)" using r by (simp add: key_rel_def)
  have f: "find (\<lambda>i. k_allocated (ThreadKeytable s ! i) = 0) [0..<length (ThreadKeytable s)] = find (\<lambda>i. live a i = None) [0..<256]"
    using t unfolding table_rel_def by (auto intro!: find_cong_upt)
  have same: "fst (do_op (KCreate d) s) = fst (spec_op (KCreate d) a)"
    by (simp add: posix_pthread_key_create_def f split: option.splits)
  show thesis
  proof (cases "find (\<lambda>i. live a i = None) [0..<256]")
    case None
    then show thesis using r same by (intro that [of c]) (simp_all add: posix_pthread_key_create_def f)
  next
    case (Some i)
    then have i: "i < 256" "live a i = None" by (auto simp: find_Some_iff)
    have "table_rel (c(i := Suc (c i))) ((ThreadKeytable s)[i := \<lparr>k_allocated = 1,
        k_seqno = seqno_next (k_seqno (ThreadKeytable s ! i)), k_destructor = d\<rparr>]) ((live a)(i := Some d))"
      using t i by (auto simp: table_rel_def nth_list_update)
    then have "key_rel (c(i := Suc (c i))) (snd (do_op (KCreate d) s)) (snd (spec_op (KCreate d) a))"
      using r Some array_rel_new by (simp add: posix_pthread_key_create_def f key_rel_def)
    then show thesis using same by (intro that) auto
  qed
qed

lemma delete_refines:
  assumes r: "key_rel c s a"
  shows "key_rel c (snd (do_op (KDelete key) s)) (snd (spec_op (KDelete key) a)) \<and> fst (do_op (KDelete key) s) = fst (spec_op (KDelete key) a)"
proof (cases "spec_key a key")
  case True
  then have "k_allocated (ThreadKeytable s ! key) \<noteq> 0" "key < 256" using rel_key [OF r, of key] by auto
  moreover have "table_rel c ((ThreadKeytable s)[key := (ThreadKeytable s ! key)\<lparr>k_allocated := 0\<rparr>]) ((live a)(key := None))"
    using r by (auto simp: key_rel_def table_rel_def nth_list_update)
  ultimately show ?thesis using r True array_rel_dead by (simp add: posix_pthread_key_delete_def errno_result_def key_rel_def)
next
  case False
  then have "key \<ge> 256 \<or> k_allocated (ThreadKeytable s ! key) = 0" using rel_key(1) [OF r] by blast
  then show ?thesis using r False by (auto simp: posix_pthread_key_delete_def errno_result_def)
qed

lemma set_refines:
  assumes r: "key_rel c s a"
  shows "key_rel c (snd (do_op (KSet memory t key v) s)) (snd (spec_op (KSet memory t key v) a)) \<and>
    fst (do_op (KSet memory t key v) s) = fst (spec_op (KSet memory t key v) a)"
proof (cases "specific_array memory t s")
  case None
  then have "\<not> memory \<and> th_specific s t = None" by (auto simp: specific_array_def split: option.splits if_splits)
  then show ?thesis using r None by (simp add: posix_pthread_setspecific_def errno_result_def key_rel_def)
next
  case (Some s1)
  define a1 where "a1 = a\<lparr>arrays := (arrays a)(t := True)\<rparr>"
  have ok: "\<not> (\<not> memory \<and> \<not> arrays a t)" using Some r by (auto simp: specific_array_def key_rel_def split: option.splits if_splits)
  have el: "elem_rel (c i) (live a i) (val a u i) \<lparr>sp_data = 0, sp_seqno = 0\<rparr>" if "th_specific s u = None" "i < 256" for u i
  proof -
    have "array_rel c (live a) (val a u) None" using rel_array [OF r, of u] that(1) by simp
    then show ?thesis using that(2) unfolding elem_rel_def array_rel_None by (intro exI [of _ 0]) simp
  qed
  then have fresh: "array_rel c (live a) (val a t) (Some (replicate 256 \<lparr>sp_data = 0, sp_seqno = 0\<rparr>))" if "th_specific s t = None"
    using that by (simp add: array_rel_Some)
  have r1: "key_rel c s1 a1"
  proof (cases "th_specific s t")
    case None
    then show ?thesis using Some r fresh unfolding a1_def key_rel_def by (auto simp: specific_array_def split: if_splits)
  next
    case (Some sp)
    then have "s1 = s" using \<open>specific_array memory t s = Some s1\<close> by (simp add: specific_array_def)
    moreover have "a1 = a" using Some r by (auto simp: a1_def key_rel_def fun_upd_idem)
    ultimately show ?thesis using r by simp
  qed
  have "arrays a1 t" by (simp add: a1_def)
  then obtain sp where sp: "th_specific s1 t = Some sp" using r1 unfolding key_rel_def by blast
  have sp': "length sp = 256" "\<And>i. i < 256 \<Longrightarrow> elem_rel (c i) (live a1 i) (val a1 t i) (sp ! i)"
    using rel_array [OF r1, of t] unfolding sp array_rel_Some by auto
  show ?thesis
  proof (cases "spec_key a1 key")
    case True
    then have k: "k_allocated (ThreadKeytable s1 ! key) \<noteq> 0" "key < 256" "k_seqno (ThreadKeytable s1 ! key) = gen (c key)"
      using rel_key [OF r1, of key] by auto
    have "elem_rel (c key) (live a1 key) v \<lparr>sp_data = v, sp_seqno = gen (c key)\<rparr>" by (auto simp: elem_rel_def)
    then have "array_rel c (live a1) ((val a1 t)(key := v)) (Some (sp[key := \<lparr>sp_data = v, sp_seqno = gen (c key)\<rparr>]))"
      using sp' k by (auto simp: array_rel_Some nth_list_update)
    then show ?thesis
      using r1 True k ok Some sp by (simp add: posix_pthread_setspecific_def errno_result_def Let_def a1_def [symmetric] key_rel_def)
  next
    case False
    then have "key \<ge> 256 \<or> k_allocated (ThreadKeytable s1 ! key) = 0" using rel_key(1) [OF r1] by blast
    then show ?thesis using r1 False ok Some by (auto simp: posix_pthread_setspecific_def errno_result_def Let_def a1_def [symmetric])
  qed
qed

lemma get_refines:
  assumes r: "key_rel c s a" and c: "\<And>i. c i < 0x100000000"
  shows "fst (do_op (KGet t key) s) = fst (spec_op (KGet t key) a)"
proof (cases "th_specific s t")
  case None
  then have "spec_key a key \<Longrightarrow> val a t key = 0" using rel_array [OF r, of t] by (auto simp: spec_key_def array_rel_None)
  then show ?thesis using None by (simp add: posix_pthread_getspecific_def)
next
  case (Some sp)
  then have el: "elem_rel (c i) (live a i) (val a t i) (sp ! i)" if "i < 256" for i
    using rel_array [OF r, of t] that by (simp add: array_rel_Some)
  show ?thesis
  proof (cases "spec_key a key")
    case True
    then have k: "k_allocated (ThreadKeytable s ! key) \<noteq> 0" "key < 256" "k_seqno (ThreadKeytable s ! key) = gen (c key)" "live a key \<noteq> None"
      using rel_key [OF r, of key] by (auto simp: spec_key_def)
    obtain j where j: "j \<le> c key" "sp_seqno (sp ! key) = gen j" "val a t key = (if j = c key then sp_data (sp ! key) else 0)"
      using el [OF k(2)] k(4) by (auto simp: elem_rel_def)
    have "gen j = gen (c key) \<longleftrightarrow> j = c key" using gen_inj j(1) c [of key] by fastforce
    then show ?thesis using Some True k j by (simp add: posix_pthread_getspecific_def)
  next
    case False
    then have "key \<ge> 256 \<or> k_allocated (ThreadKeytable s ! key) = 0" using rel_key(1) [OF r] by blast
    then show ?thesis using Some False by (auto simp: posix_pthread_getspecific_def)
  qed
qed

lemma op_refines:
  assumes "key_rel c s a" "\<And>i. c i < 0x100000000"
  obtains c' where "key_rel c' (snd (do_op x s)) (snd (spec_op x a))" "\<And>i. c' i \<le> (if is_create x then Suc (c i) else c i)"
    "fst (do_op x s) = fst (spec_op x a)"
proof (cases x)
  case (KCreate d)
  show thesis unfolding KCreate by (rule create_refines [OF assms(1), of d]) (rule that, simp_all only: KCreate is_create.simps if_True)
next
  case (KDelete key)
  then show thesis using delete_refines [OF assms(1), of key] that [of c] by (simp only: is_create.simps if_False order_refl simp_thms)
next
  case (KSet memory t key v)
  then show thesis using set_refines [OF assms(1), of memory t key v] that [of c] by (simp only: is_create.simps if_False order_refl simp_thms)
next
  case (KGet t key)
  then show thesis using get_refines [OF assms, of t key] assms(1) that [of c] by (simp del: do_op.simps spec_op.simps) simp
qed

lemma run_ops_split: "run_ops f (x # xs) s = (fst (f x s) # fst (run_ops f xs (snd (f x s))), snd (run_ops f xs (snd (f x s))))"
  by (simp split: prod.splits)

lemma run_refines:
  assumes "key_rel c s a" "\<And>i. c i \<le> n" "n + length (filter is_create ops) < 0x100000000"
  shows "fst (run_ops do_op ops s) = fst (run_ops spec_op ops a) \<and>
    (\<exists>c'. key_rel c' (snd (run_ops do_op ops s)) (snd (run_ops spec_op ops a)))"
  using assms
proof (induction ops arbitrary: c s a n)
  case (Cons x ops)
  have "\<And>i. c i < 0x100000000" using Cons.prems(2,3) by (meson add_lessD1 le_less_trans)
  then obtain c' where c': "key_rel c' (snd (do_op x s)) (snd (spec_op x a))" "\<And>i. c' i \<le> (if is_create x then Suc (c i) else c i)"
    "fst (do_op x s) = fst (spec_op x a)"
    using op_refines [OF Cons.prems(1), of x] by metis
  have "c' i \<le> (if is_create x then Suc n else n)" for i using c'(2) [of i] Cons.prems(2) [of i] by (auto split: if_splits)
  then show ?case using Cons.IH [OF c'(1), of "if is_create x then Suc n else n"] Cons.prems(3) c'(3)
    unfolding run_ops_split fst_conv snd_conv by (simp split: if_splits)
qed auto

section \<open>The count of values\<close>

definition nonnull :: "PthreadSpecificElem list \<Rightarrow> nat" where
  "nonnull sp = length (filter (\<lambda>e. sp_data e \<noteq> 0) sp)"

definition thread_count_ok :: "PthreadSpecificElem list option \<Rightarrow> int \<Rightarrow> bool" where
  "thread_count_ok x n = (case x of None \<Rightarrow> n = 0 | Some sp \<Rightarrow> length sp = PthreadKeysMax \<and> n = int (nonnull sp))"

definition count_ok :: "key_state \<Rightarrow> bool" where
  "count_ok s \<longleftrightarrow> length (ThreadKeytable s) = PthreadKeysMax \<and> (\<forall>t. thread_count_ok (th_specific s t) (th_count s t))"

lemma thread_count_ok_simps [simp]:
  "thread_count_ok None n \<longleftrightarrow> n = 0"
  "thread_count_ok (Some sp) n \<longleftrightarrow> length sp = PthreadKeysMax \<and> n = int (nonnull sp)"
  by (simp_all add: thread_count_ok_def)

lemma nonnull_update:
  assumes "i < length sp"
  shows "int (nonnull (sp[i := e])) = int (nonnull sp) + count_change (sp_data (sp ! i)) (sp_data e)"
proof -
  have "nonnull sp = nonnull (take i sp @ sp ! i # drop (Suc i) sp)" using assms by (simp add: id_take_nth_drop [symmetric])
  then show ?thesis using assms by (simp add: nonnull_def count_change_def upd_conv_take_nth_drop)
qed

lemma nonnull_le: "nonnull sp \<le> length sp"
  by (simp add: nonnull_def)

lemma nonnull_pos: "nonnull sp = 0 \<longleftrightarrow> (\<forall>i < length sp. sp_data (sp ! i) = 0)"
  by (auto simp: nonnull_def filter_empty_conv all_set_conv_all_nth)

lemma count_ok_init: "count_ok key_init"
  by (simp add: count_ok_def key_init_def)

lemma count_ok_None: "count_ok s \<Longrightarrow> th_specific s t = None \<Longrightarrow> th_count s t = 0"
  unfolding count_ok_def by (metis thread_count_ok_simps(1))

lemma count_ok_Some: "count_ok s \<Longrightarrow> th_specific s t = Some sp \<Longrightarrow> length sp = PthreadKeysMax \<and> th_count s t = int (nonnull sp)"
  unfolding count_ok_def by (metis thread_count_ok_simps(2))

lemma count_ok_upd:
  assumes "count_ok s" "length sp = PthreadKeysMax" "n = int (nonnull sp)"
  shows "count_ok (s\<lparr>th_specific := (th_specific s)(t := Some sp), th_count := (th_count s)(t := n)\<rparr>)"
  using assms by (simp add: count_ok_def)

lemma count_ok_array:
  assumes "count_ok s" "specific_array memory t s = Some s1"
  shows "count_ok s1 \<and> (\<exists>sp. th_specific s1 t = Some sp)"
proof (cases "th_specific s t")
  case None
  have "nonnull (replicate 256 \<lparr>sp_data = 0, sp_seqno = 0\<rparr>) = 0" by (simp add: nonnull_def)
  then show ?thesis using None assms count_ok_None [OF assms(1) None] by (auto simp: specific_array_def count_ok_def split: if_splits)
next
  case (Some sp)
  then show ?thesis using assms by (simp add: specific_array_def)
qed

lemma count_ok_set:
  assumes "count_ok s"
  shows "count_ok (snd (posix_pthread_setspecific memory t key v s))"
proof (cases "specific_array memory t s")
  case None
  then show ?thesis using assms by (simp add: posix_pthread_setspecific_def)
next
  case (Some s1)
  obtain sp where sp: "th_specific s1 t = Some sp" and ok: "count_ok s1" using count_ok_array [OF assms Some] by blast
  note len = count_ok_Some [OF ok sp]
  show ?thesis
    using Some sp ok len nonnull_update [of key sp] by (auto simp: posix_pthread_setspecific_def Let_def intro!: count_ok_upd)
qed

lemma count_ok_op: "count_ok s \<Longrightarrow> count_ok (snd (do_op x s))"
proof (cases x)
  case (KSet memory t key v)
  then show "count_ok s \<Longrightarrow> count_ok (snd (do_op x s))" using count_ok_set by (simp add: map_prod_def split: prod.splits) (metis snd_conv)
qed (auto simp: posix_pthread_key_create_def posix_pthread_key_delete_def count_ok_def split: option.splits)

lemma run_ops_inv: "(\<And>x s. I s \<Longrightarrow> I (snd (f x s))) \<Longrightarrow> I s \<Longrightarrow> I (snd (run_ops f xs s))"
  by (induction xs arbitrary: s) (auto simp: run_ops_split simp del: run_ops.simps(2))

lemma count_ok_run: "count_ok s \<Longrightarrow> count_ok (snd (run_ops do_op xs s))"
  by (rule run_ops_inv [where I = count_ok]) (rule count_ok_op)

section \<open>Destructors\<close>

declare upt_rec_numeral [simp del]

definition has_array :: "thread \<Rightarrow> key_state \<Rightarrow> bool" where
  "has_array t s \<longleftrightarrow> count_ok s \<and> th_specific s t \<noteq> None"

lemma has_array_op: "has_array t s \<Longrightarrow> has_array t (snd (do_op x s))"
  unfolding has_array_def using count_ok_op [of s x]
  by (cases x) (auto simp: posix_pthread_key_create_def posix_pthread_key_delete_def posix_pthread_setspecific_def
      specific_array_def Let_def split: option.splits if_splits)

lemma has_array_run: "has_array t s \<Longrightarrow> has_array t (snd (run_ops do_op xs s))"
  by (rule run_ops_inv [where I = "has_array t"]) (rule has_array_op)

lemma has_array_clear:
  assumes "has_array t s" "th_specific s t = Some sp" "key < PthreadKeysMax"
  shows "has_array t (clear_value t key sp s)"
proof (cases "sp_data (sp ! key) \<noteq> 0")
  case True
  note c = count_ok_Some [of s t sp]
  have "th_count s t - 1 = int (nonnull (sp[key := (sp ! key)\<lparr>sp_data := 0\<rparr>]))"
    using assms True c nonnull_update [of key sp] by (simp add: has_array_def count_change_def)
  then show ?thesis using assms True c unfolding clear_value_def has_array_def by (auto intro!: count_ok_upd)
next
  case False
  then show ?thesis using assms by (simp add: clear_value_def)
qed

definition call_ok :: "nat \<times> nat \<times> nat \<Rightarrow> bool" where
  "call_ok x = (case x of (key, d, v) \<Rightarrow> key < PthreadKeysMax \<and> d \<noteq> 0 \<and> v \<noteq> 0)"

definition cleanup_inv :: "thread \<Rightarrow> nat \<Rightarrow> cleanup_log \<times> key_state \<Rightarrow> bool" where
  "cleanup_inv t n x \<longleftrightarrow> has_array t (snd x) \<and> length (fst x) \<le> n \<and> (\<forall>c \<in> set (fst x). call_ok c)"

lemma cleanup_inv_mono: "cleanup_inv t m x \<Longrightarrow> m \<le> n \<Longrightarrow> cleanup_inv t n x"
  by (simp add: cleanup_inv_def)

lemma cleanup_key_ok:
  assumes "cleanup_inv t n x" "key < PthreadKeysMax"
  shows "\<exists>x'. cleanup_key call t key x = Some x' \<and> cleanup_inv t (Suc n) x'"
proof -
  obtain log s where x: "x = (log, s)" by (cases x)
  obtain sp where sp: "th_specific s t = Some sp" using assms(1) by (auto simp: x cleanup_inv_def has_array_def)
  have "has_array t (clear_value t key sp s)" using assms sp has_array_clear [of t s sp key] by (simp add: x cleanup_inv_def)
  moreover have "value_destructor k e \<noteq> 0 \<Longrightarrow> sp_data e \<noteq> 0" for k e by (auto simp: value_destructor_def split: if_splits)
  ultimately show ?thesis using assms sp has_array_run
    by (auto simp: cleanup_key_def x cleanup_inv_def call_ok_def Let_def)
qed

lemma cleanup_keys_ok:
  assumes "cleanup_inv t n x" "key + m \<le> PthreadKeysMax"
  shows "\<exists>x'. cleanup_keys call t key m x = Some x' \<and> cleanup_inv t (n + m) x'"
  using assms
proof (induction m arbitrary: key n x)
  case (Suc m)
  obtain x' where "cleanup_key call t key x = Some x'" "cleanup_inv t (Suc n) x'"
    using cleanup_key_ok [of t n x key call] Suc.prems by auto
  then show ?case using Suc.IH [of "Suc n" x' "Suc key"] Suc.prems cleanup_inv_mono [OF Suc.prems(1), of "n + Suc m"]
    by (cases "0 < th_count (snd x) t") auto
qed auto

lemma cleanup_rounds_ok:
  assumes "cleanup_inv t n x"
  shows "\<exists>x'. cleanup_rounds call t m x = Some x' \<and> cleanup_inv t (n + m * PthreadKeysMax) x'"
  using assms
proof (induction m arbitrary: n x)
  case (Suc m)
  obtain x' where "cleanup_keys call t 0 256 x = Some x'" "cleanup_inv t (n + 256) x'"
    using cleanup_keys_ok [OF Suc.prems, of 0 256 call] by auto
  then show ?case using Suc.IH [of "n + 256" x'] cleanup_inv_mono [OF Suc.prems, of "n + (256 + m * 256)"]
    by (cases "0 < th_count (snd x) t") (auto simp: add.assoc)
qed auto

text \<open>The calls that POSIX asks for when a thread exits: the destructor of every key whose value is not null, with that value.\<close>

definition due_call :: "thread \<Rightarrow> key_state \<Rightarrow> nat \<Rightarrow> cleanup_log" where
  "due_call t s key = (if posix_pthread_getspecific t key s \<noteq> 0 \<and> k_destructor (ThreadKeytable s ! key) \<noteq> 0
     then [(key, k_destructor (ThreadKeytable s ! key), posix_pthread_getspecific t key s)] else [])"

text \<open>Destructors during which no key is created or deleted and the exiting thread stores no value.\<close>

definition quiet_op :: "thread \<Rightarrow> key_op \<Rightarrow> bool" where
  "quiet_op t x = (case x of KGet u key \<Rightarrow> True | KSet memory u key v \<Rightarrow> u \<noteq> t | KCreate d \<Rightarrow> False | KDelete key \<Rightarrow> False)"

definition quiet :: "thread \<Rightarrow> key_call \<Rightarrow> bool" where
  "quiet t call \<longleftrightarrow> (\<forall>d v s x. x \<in> set (call d v s) \<longrightarrow> quiet_op t x)"

definition same_view :: "thread \<Rightarrow> key_state \<Rightarrow> key_state \<Rightarrow> bool" where
  "same_view t s s' \<longleftrightarrow> ThreadKeytable s' = ThreadKeytable s \<and> th_specific s' t = th_specific s t \<and> th_count s' t = th_count s t"

lemma quiet_op_view:
  assumes "quiet_op t x"
  shows "same_view t s (snd (do_op x s))"
  using assms by (cases x) (auto simp: quiet_op_def same_view_def posix_pthread_setspecific_def specific_array_def Let_def split: option.splits)

lemma quiet_run:
  assumes "\<forall>x \<in> set xs. quiet_op t x"
  shows "same_view t s (snd (run_ops do_op xs s))"
  using assms
proof (induction xs arbitrary: s)
  case (Cons x xs)
  then show ?case using quiet_op_view [of t x s] by (auto simp: run_ops_split same_view_def simp del: run_ops.simps(2))
qed (simp add: same_view_def)

text \<open>Before the index \<open>key\<close> the loop has cleared the values of \<open>s0\<close> and made the calls that are due for them.\<close>

definition cleared_to :: "thread \<Rightarrow> key_state \<Rightarrow> nat \<Rightarrow> cleanup_log \<times> key_state \<Rightarrow> bool" where
  "cleared_to t s0 key x \<longleftrightarrow> has_array t s0 \<and> has_array t (snd x) \<and> ThreadKeytable (snd x) = ThreadKeytable s0 \<and>
     (\<forall>i < PthreadKeysMax. the (th_specific (snd x) t) ! i =
        (if i < key then (the (th_specific s0 t) ! i)\<lparr>sp_data := 0\<rparr> else the (th_specific s0 t) ! i)) \<and>
     fst x = concat (map (due_call t s0) [0..<key])"

lemma cleared_step:
  assumes c: "cleared_to t s0 key x" and q: "quiet t call" and k: "key < PthreadKeysMax"
  shows "\<exists>x'. cleanup_key call t key x = Some x' \<and> cleared_to t s0 (Suc key) x'"
proof -
  obtain log s where x: "x = (log, s)" by (cases x)
  have ha: "has_array t s" "has_array t s0" using c by (auto simp: cleared_to_def x)
  obtain sp sp0 where sp: "th_specific s t = Some sp" "th_specific s0 t = Some sp0" using ha by (auto simp: has_array_def)
  have nth: "sp ! i = (if i < key then (sp0 ! i)\<lparr>sp_data := 0\<rparr> else sp0 ! i)" if "i < 256" for i
    using c that by (simp add: cleared_to_def x sp)
  have tab: "ThreadKeytable s = ThreadKeytable s0" and log: "log = concat (map (due_call t s0) [0..<key])" using c by (auto simp: cleared_to_def x)
  have len: "length sp = 256" "length sp0 = 256" using count_ok_Some sp ha by (auto simp: has_array_def)
  define s1 where "s1 = clear_value t key sp s"
  have ha1: "has_array t s1" using ha(1) sp(1) k has_array_clear [of t s sp key] by (simp add: s1_def)
  have tab1: "ThreadKeytable s1 = ThreadKeytable s0" using tab by (simp add: s1_def clear_value_def)
  have nth1: "the (th_specific s1 t) ! i = (if i < Suc key then (sp0 ! i)\<lparr>sp_data := 0\<rparr> else sp0 ! i)" if "i < 256" for i
    using that nth [of i] nth [of key] k len by (auto simp: s1_def clear_value_def sp nth_list_update less_Suc_eq)
  have done1: "cleared_to t s0 (Suc key) (log @ due_call t s0 key, s')" if "same_view t s1 s'" "has_array t s'" for s'
    using that nth1 tab1 ha(2) log by (simp add: cleared_to_def same_view_def sp)
  have key: "sp ! key = sp0 ! key" using nth [OF k] by simp
  define d where "d = value_destructor (ThreadKeytable s ! key) (sp ! key)"
  have due: "due_call t s0 key = (if d \<noteq> 0 then [(key, d, sp_data (sp ! key))] else [])"
    using k by (auto simp: due_call_def posix_pthread_getspecific_def sp tab key d_def value_destructor_def)
  have "same_view t s1 (snd (run_ops do_op (call d v s1) s1))" for d v
    using q by (intro quiet_run) (auto simp: quiet_def)
  moreover have "same_view t s1 s1" by (simp add: same_view_def)
  ultimately show ?thesis
    using done1 ha1 has_array_run [OF ha1] by (auto simp: cleanup_key_def x sp Let_def s1_def [symmetric] d_def [symmetric] due)
qed

lemma cleared_all_null:
  assumes c: "cleared_to t s0 key x" and n: "th_count (snd x) t \<le> 0" and k: "key \<le> PthreadKeysMax"
  shows "cleared_to t s0 PthreadKeysMax x"
proof -
  have ha: "has_array t (snd x)" "has_array t s0" using c by (auto simp: cleared_to_def)
  obtain sp sp0 where sp: "th_specific (snd x) t = Some sp" "th_specific s0 t = Some sp0" using ha by (auto simp: has_array_def)
  have len: "length sp = 256" "nonnull sp = 0" using count_ok_Some [OF _ sp(1)] n ha by (auto simp: has_array_def)
  then have null: "sp_data (sp ! i) = 0" if "i < 256" for i using that by (simp add: nonnull_pos)
  have nth: "sp ! i = (if i < key then (sp0 ! i)\<lparr>sp_data := 0\<rparr> else sp0 ! i)" if "i < 256" for i
    using c that by (simp add: cleared_to_def sp)
  have later: "sp_data (sp0 ! i) = 0" if "key \<le> i" "i < 256" for i using null [OF that(2)] nth [OF that(2)] that(1) by simp
  then have due: "due_call t s0 i = []" if "key \<le> i" "i < 256" for i using that by (simp add: due_call_def posix_pthread_getspecific_def sp)
  have split: "[0..<256] = [0..<key] @ [key..<256]" using upt_add_eq_append [of 0 key "256 - key"] k by simp
  have "concat (map (due_call t s0) [key..<256]) = []" using due by auto
  moreover have "fst x = concat (map (due_call t s0) [0..<key])" using c by (simp add: cleared_to_def)
  moreover have "concat (map (due_call t s0) [0..<256]) = concat (map (due_call t s0) [0..<key]) @ concat (map (due_call t s0) [key..<256])"
    by (simp only: split map_append concat_append)
  ultimately have "fst x = concat (map (due_call t s0) [0..<256])" by (simp only: append_Nil2)
  moreover have "\<forall>i < 256. sp ! i = (if i < 256 then (sp0 ! i)\<lparr>sp_data := 0\<rparr> else sp0 ! i)" using nth null by auto
  moreover have "ThreadKeytable (snd x) = ThreadKeytable s0" using c by (simp add: cleared_to_def)
  ultimately show ?thesis using ha unfolding cleared_to_def sp option.sel by blast
qed

lemma cleared_keys:
  assumes "cleared_to t s0 key x" "quiet t call" "key + m = PthreadKeysMax"
  shows "\<exists>x'. cleanup_keys call t key m x = Some x' \<and> cleared_to t s0 PthreadKeysMax x'"
  using assms
proof (induction m arbitrary: key x)
  case (Suc m)
  show ?case
  proof (cases "0 < th_count (snd x) t")
    case True
    obtain x' where "cleanup_key call t key x = Some x'" "cleared_to t s0 (Suc key) x'"
      using cleared_step [OF Suc.prems(1,2)] Suc.prems(3) by auto
    then show ?thesis using True Suc.IH [of "Suc key" x'] Suc.prems by auto
  next
    case False
    then show ?thesis using cleared_all_null [OF Suc.prems(1)] Suc.prems(3) by auto
  qed
qed auto

lemma cleared_count:
  assumes "cleared_to t s0 PthreadKeysMax x"
  shows "th_count (snd x) t = 0"
proof -
  have ha: "has_array t (snd x)" using assms by (simp add: cleared_to_def)
  then obtain sp where sp: "th_specific (snd x) t = Some sp" by (auto simp: has_array_def)
  have c: "length sp = 256 \<and> th_count (snd x) t = int (nonnull sp)" using count_ok_Some [OF _ sp] ha by (simp add: has_array_def)
  have "nonnull sp = 0" using assms c sp by (auto simp: nonnull_pos cleared_to_def)
  then show ?thesis using c by simp
qed

lemma cleanup_quiet:
  assumes "has_array t s" "quiet t call"
  shows "\<exists>s'. cleanup_rounds call t (Suc n) ([], s) = Some (concat (map (due_call t s) [0..<PthreadKeysMax]), s') \<and> th_count s' t = 0"
proof -
  have start: "cleared_to t s 0 ([], s)" using assms(1) by (simp add: cleared_to_def)
  have stop: "cleanup_rounds call t m x = Some x" if "th_count (snd x) t = 0" for m x using that by (cases m) auto
  have fst: "fst x = concat (map (due_call t s) [0..<PthreadKeysMax])" if "cleared_to t s PthreadKeysMax x" for x
    using that by (simp add: cleared_to_def)
  show ?thesis
  proof (cases "0 < th_count s t")
    case True
    obtain x where x: "cleanup_keys call t 0 256 ([], s) = Some x" "cleared_to t s 256 x" using cleared_keys [OF start assms(2)] by auto
    then show ?thesis using True stop [OF cleared_count [OF x(2)]] fst [OF x(2)] cleared_count [OF x(2)]
      by (auto intro!: exI [of _ "snd x"] simp: prod_eq_iff)
  next
    case False
    then have "cleared_to t s 256 ([], s)" using cleared_all_null [OF start] by simp
    then show ?thesis using False fst cleared_count by fastforce
  qed
qed

text \<open>Handlers that leave the list alone all run, newest first.\<close>

lemma exit_handlers_all: "(\<And>r a cs. run r a cs = cs) \<Longrightarrow> exit_handlers run log cs = Some (log @ cs)"
  by (induction cs arbitrary: log) (simp_all add: exit_handlers.simps)

text \<open>A pop undoes the matching push, frees exactly the handlers that \<open>push\<close> allocated, and runs the handler after taking it
  off the list.\<close>

lemma pop_push:
  "posix_pthread_cleanup_pop run 0 (posix_pthread_cleanup_push True r a cs) = (None, Some \<lparr>cl_routine = r, cl_arg = a, cl_onheap = 1\<rparr>, cs)"
  "posix_pthread_cleanup_pop run 0 (pthread_cleanup_push_imp r a cs) = (None, None, cs)"
  "e \<noteq> 0 \<Longrightarrow> snd (snd (posix_pthread_cleanup_pop run e (pthread_cleanup_push_imp r a cs))) = run r a cs"
  by (simp_all add: posix_pthread_cleanup_pop_def posix_pthread_cleanup_push_def pthread_cleanup_push_imp_def)

section \<open>Properties\<close>

text \<open>C32: Any sequence of calls of the key functions by any threads, with fewer than 2^32 creations, returns
  exactly the results of the POSIX specification, in which a created key has the null value in every thread, a value is what the
  thread stored last under the live key, and a deleted key is invalid; EAGAIN is reported exactly when all 256 keys are live.\<close>

theorem specific_refinement:
  assumes "length (filter is_create ops) < 0x100000000"
  shows "fst (run_ops do_op ops key_init) = fst (run_ops spec_op ops spec_init)"
  using run_refines [OF key_rel_init, of 0 ops] assms by simp

definition reuse_ops :: "key_op list" where
  "reuse_ops = [KCreate 7, KSet True 1 0 42, KGet 1 0, KDelete 0, KCreate 8, KGet 1 0, KSet True 1 0 43, KGet 1 0, KGet 2 0]"

theorem specific_refinement_witness:
  "length (filter is_create reuse_ops) = 2 \<and>
   fst (run_ops do_op reuse_ops key_init) = [KKey 0, KOk, KValue 42, KOk, KKey 0, KValue 0, KOk, KValue 43, KValue 0]"
proof -
  have n: "length (filter is_create reuse_ops) = 2" by (simp add: reuse_ops_def)
  have first: "P 0 \<Longrightarrow> find P [0..<256] = Some 0" for P by (simp add: upt_conv_Cons)
  have "fst (run_ops spec_op reuse_ops spec_init) = [KKey 0, KOk, KValue 42, KOk, KKey 0, KValue 0, KOk, KValue 43, KValue 0]"
    using first by (simp add: reuse_ops_def spec_init_def spec_key_def)
  then show ?thesis using n specific_refinement [of reuse_ops] by simp
qed

text \<open>What the cleanup of an exiting thread did.\<close>

definition cleanup_done :: "key_call \<Rightarrow> thread \<Rightarrow> key_state \<Rightarrow> cleanup_log \<Rightarrow> key_state \<Rightarrow> bool" where
  "cleanup_done call t s log s' \<longleftrightarrow> th_specific s' t = None \<and>
     length log \<le> PthreadDestructorIterations * PthreadKeysMax \<and> (\<forall>c \<in> set log. call_ok c) \<and>
     (quiet t call \<longrightarrow> log = concat (map (due_call t s) [0..<PthreadKeysMax]) \<and> th_count s' t = 0)"

text \<open>C33: After any calls of the key functions, the exit of a thread runs its destructors to the end without an access
  outside the arrays, whatever the destructors do to the keys: it frees the array after at most 1024 calls, none with a null value.
  If the destructors change no key and no value of the thread, every key with a value and a destructor is called
  exactly once, in the order of the keys, with that value, and no value is left over.\<close>

theorem cleanup_exact:
  "\<exists>log s'. thread_cleanupspecific call t (snd (run_ops do_op ops key_init)) = Some (log, s') \<and>
     cleanup_done call t (snd (run_ops do_op ops key_init)) log s'"
proof -
  define s where "s = snd (run_ops do_op ops key_init)"
  have ok: "count_ok s" unfolding s_def by (rule count_ok_run [OF count_ok_init])
  show ?thesis
  proof (cases "th_specific s t")
    case None
    then have "due_call t s k = []" for k by (simp add: due_call_def posix_pthread_getspecific_def)
    then show ?thesis using None count_ok_None [OF ok None] by (simp add: s_def [symmetric] thread_cleanupspecific_def cleanup_done_def)
  next
    case (Some sp)
    then have ha: "has_array t s" using ok by (simp add: has_array_def)
    then obtain log s1 where r: "cleanup_rounds call t 4 ([], s) = Some (log, s1)" "cleanup_inv t (4 * 256) (log, s1)"
      using cleanup_rounds_ok [of t 0 "([], s)" call 4] by (auto simp: cleanup_inv_def)
    have 4: "Suc 3 = 4" by simp
    have "log = concat (map (due_call t s) [0..<256]) \<and> th_count s1 t = 0" if "quiet t call"
      using cleanup_quiet [OF ha that, of 3] r(1) unfolding 4 by auto
    then show ?thesis using Some r by (simp add: s_def [symmetric] thread_cleanupspecific_def cleanup_done_def cleanup_inv_def)
  qed
qed

end
