(* ===== verification/Pthread_Once.thy ===== *)
theory Pthread_Once
  imports Kernel_Error
begin

text \<open>
  \<open>posix_pthread_once\<close> (\<^verbatim>\<open>src/src/core/libraries/kernel/threads/pthread.cpp\<close>): any number of threads call it on one control word, an
  atomic variable with the four states of \<open>PthreadOnceState\<close> (\<^verbatim>\<open>threads/pthread.h\<close>).  Each access to the word is a
  step of its own, and \<open>wait\<close> is the comparison and the sleep, from which a thread may wake up without a notification.  The init routine of the
  guest either returns or its thread is cancelled, which runs \<open>once_cancel_handler\<close>.

  The theorem says that the routine runs in one thread at a time and completes once, that every call that succeeds returns after
  its completion, and that no caller sleeps forever.
\<close>

type_synonym thread = nat

section \<open>State\<close>

abbreviation (input) OnceNeverDone :: u32 where "OnceNeverDone \<equiv> 0"
abbreviation (input) OnceDone :: u32 where "OnceDone \<equiv> 1"
abbreviation (input) OnceInProgress :: u32 where "OnceInProgress \<equiv> 2"
abbreviation (input) OnceWait :: u32 where "OnceWait \<equiv> 3"

text \<open>\<open>OLoop\<close> is about to load the word, \<open>OSaw v\<close> has seen \<open>v\<close> and is about to exchange it, \<open>OWait\<close> is about to compare in \<open>wait\<close> and \<open>OBlocked\<close>
  sleeps there.  \<open>OInit\<close> runs the routine, \<open>OFinish\<close> is after its return, \<open>OStoreDone\<close> after the exchange failed; \<open>OCancel\<close> and
  \<open>OStoreNever\<close> are the same in the handler.  \<open>ONotify back\<close> is about to notify and then returns if \<open>back\<close> holds.  \<open>OGone\<close> has exited.\<close>

datatype OncePc = OIdle "PosixErrno option option" | OLoop | OSaw u32 | OWait | OBlocked | OInit | OFinish | OStoreDone | OCancel | OStoreNever
  | ONotify bool | OGone

text \<open>A call that has returned left its result in \<open>OIdle\<close>, where \<open>Some None\<close> is success.  \<open>o_inits\<close> is the history: how many runs of the
  routine have returned.\<close>

record once_sys =
  o_state :: u32
  o_pc :: "thread \<Rightarrow> OncePc"
  o_inits :: nat

section \<open>Steps\<close>

text \<open>What a thread can do at a control point, with the new value of the word.\<close>

fun once_next :: "u32 \<Rightarrow> OncePc \<Rightarrow> (u32 \<times> OncePc) list" where
  "once_next v (OIdle r) = [(v, OLoop)]"
| "once_next v OLoop =
    (if v = OnceDone then [(v, OIdle (Some None))]
     else if v = OnceNeverDone then [(v, OSaw OnceNeverDone)]
     else if v = OnceInProgress then [(v, OSaw OnceInProgress)]
     else if v = OnceWait then [(v, OWait)]
     else [(v, OIdle (Some (Some POSIX_EINVAL)))])"
| "once_next v (OSaw seen) =
    (if v \<noteq> seen then [(v, OLoop)]
     else if seen = OnceNeverDone then [(OnceInProgress, OInit)] else [(OnceWait, OWait)])"
| "once_next v OWait = (if v = OnceWait then [(v, OBlocked)] else [(v, OLoop)])"
| "once_next v OBlocked = [(v, OWait)]"
| "once_next v OInit = [(v, OFinish), (v, OCancel)]"
| "once_next v OFinish = (if v = OnceInProgress then [(OnceDone, OIdle (Some None))] else [(v, OStoreDone)])"
| "once_next v OStoreDone = [(OnceDone, ONotify True)]"
| "once_next v OCancel = (if v = OnceInProgress then [(OnceNeverDone, OGone)] else [(v, OStoreNever)])"
| "once_next v OStoreNever = [(OnceNeverDone, ONotify False)]"
| "once_next v (ONotify back) = [(v, if back then OIdle (Some None) else OGone)]"
| "once_next v OGone = []"

text \<open>\<open>notify_all\<close> lets every sleeping thread compare again.\<close>

definition once_wake :: "OncePc \<Rightarrow> OncePc" where
  "once_wake pc = (if pc = OBlocked then OWait else pc)"

fun notifies :: "OncePc \<Rightarrow> bool" where
  "notifies (ONotify back) = True"
| "notifies pc = False"

inductive once_step :: "thread \<Rightarrow> once_sys \<Rightarrow> once_sys \<Rightarrow> bool" for t where
  once_move: "(v, pc) \<in> set (once_next (o_state s) (o_pc s t)) \<Longrightarrow> f = (if notifies (o_pc s t) then once_wake \<circ> o_pc s else o_pc s) \<Longrightarrow>
    once_step t s \<lparr>o_state = v, o_pc = f(t := pc), o_inits = o_inits s + (if o_pc s t = OInit \<and> pc = OFinish then 1 else 0)\<rparr>"

inductive once_run :: "once_sys \<Rightarrow> bool" where
  once_start: "once_run \<lparr>o_state = OnceNeverDone, o_pc = (\<lambda>_. OIdle None), o_inits = 0\<rparr>"
| once_then: "once_run s \<Longrightarrow> once_step t s s' \<Longrightarrow> once_run s'"

section \<open>The invariant\<close>

text \<open>The thread that took the word, and the one whose routine has returned.\<close>

fun owner :: "OncePc \<Rightarrow> bool" where
  "owner OInit = True"
| "owner OFinish = True"
| "owner OStoreDone = True"
| "owner OCancel = True"
| "owner OStoreNever = True"
| "owner pc = False"

fun finishing :: "OncePc \<Rightarrow> bool" where
  "finishing OFinish = True"
| "finishing OStoreDone = True"
| "finishing pc = False"

text \<open>Control points that are only reached after completion, and those at which the word has one value.\<close>

fun after_done :: "OncePc \<Rightarrow> bool" where
  "after_done (OIdle r) = (r \<noteq> None)"
| "after_done (ONotify back) = back"
| "after_done pc = False"

fun only_wait :: "OncePc \<Rightarrow> bool" where
  "only_wait OStoreDone = True"
| "only_wait OStoreNever = True"
| "only_wait pc = False"

fun saw_ok :: "OncePc \<Rightarrow> bool" where
  "saw_ok (OSaw v) = (v = OnceNeverDone \<or> v = OnceInProgress)"
| "saw_ok (OIdle r) = (r = None \<or> r = Some None)"
| "saw_ok pc = True"

definition once_inv :: "once_sys \<Rightarrow> bool" where
  "once_inv s \<longleftrightarrow> o_state s \<le> 3 \<and> (\<forall>t. saw_ok (o_pc s t)) \<and>
     (\<forall>t u. owner (o_pc s t) \<longrightarrow> owner (o_pc s u) \<longrightarrow> t = u) \<and>
     ((o_state s = OnceInProgress \<or> o_state s = OnceWait) = (\<exists>t. owner (o_pc s t))) \<and>
     (\<forall>t. only_wait (o_pc s t) \<longrightarrow> o_state s = OnceWait) \<and>
     ((\<exists>t. o_pc s t = OBlocked) \<longrightarrow> o_state s = OnceWait \<or> (\<exists>t. notifies (o_pc s t))) \<and>
     (\<forall>t. after_done (o_pc s t) \<longrightarrow> o_state s = OnceDone) \<and>
     o_inits s = (if o_state s = OnceDone \<or> (\<exists>t. finishing (o_pc s t)) then 1 else 0)"

lemma once_wake_simps [simp]:
  "saw_ok (once_wake pc) = saw_ok pc" "owner (once_wake pc) = owner pc" "only_wait (once_wake pc) = only_wait pc"
  "after_done (once_wake pc) = after_done pc" "finishing (once_wake pc) = finishing pc" "once_wake pc \<noteq> OBlocked" "notifies (once_wake pc) = notifies pc"
  by (auto simp: once_wake_def)

text \<open>The views of the threads other than \<open>t\<close> do not change in a step, but for those that are woken.\<close>

lemma once_step_view:
  assumes "once_step t s s'"
  obtains v pc where "(v, pc) \<in> set (once_next (o_state s) (o_pc s t))" "o_state s' = v" "o_pc s' t = pc"
    "o_inits s' = o_inits s + (if o_pc s t = OInit \<and> pc = OFinish then 1 else 0)"
    "\<And>u. u \<noteq> t \<Longrightarrow> o_pc s' u = (if notifies (o_pc s t) then once_wake (o_pc s u) else o_pc s u)"
  using assms by cases auto

text \<open>What a thread must satisfy by itself for the value of the word and the history.\<close>

definition pc_ok :: "u32 \<Rightarrow> OncePc \<Rightarrow> bool" where
  "pc_ok v pc \<longleftrightarrow> saw_ok pc \<and> (owner pc \<longrightarrow> v = OnceInProgress \<or> v = OnceWait) \<and> (only_wait pc \<longrightarrow> v = OnceWait) \<and> (after_done pc \<longrightarrow> v = OnceDone)"

lemma once_inv_alt:
  "once_inv s \<longleftrightarrow> o_state s \<le> 3 \<and> (\<forall>t. pc_ok (o_state s) (o_pc s t)) \<and>
     (\<forall>t u. owner (o_pc s t) \<longrightarrow> owner (o_pc s u) \<longrightarrow> t = u) \<and>
     (o_state s = OnceInProgress \<or> o_state s = OnceWait \<longrightarrow> (\<exists>t. owner (o_pc s t))) \<and>
     ((\<exists>t. o_pc s t = OBlocked) \<longrightarrow> o_state s = OnceWait \<or> (\<exists>t. notifies (o_pc s t))) \<and>
     o_inits s = (if o_state s = OnceDone \<or> (\<exists>t. finishing (o_pc s t)) then 1 else 0)"
  unfolding once_inv_def pc_ok_def by (rule iffI; elim conjE; intro conjI) blast+

text \<open>The effect of one step of one thread.\<close>

lemma once_next_ok:
  assumes "(v', pc') \<in> set (once_next v pc)" "v \<le> 3" "pc_ok v pc"
  shows "v' \<le> 3" "pc_ok v' pc'" "v' \<noteq> v \<Longrightarrow> owner pc \<or> v = OnceNeverDone \<and> owner pc' \<or> v = OnceInProgress \<and> v' = OnceWait"
    "owner pc' \<Longrightarrow> owner pc \<or> v = OnceNeverDone" "owner pc \<Longrightarrow> owner pc' \<or> v' = OnceNeverDone \<or> v' = OnceDone"
    "v = OnceWait \<Longrightarrow> v' \<noteq> OnceWait \<Longrightarrow> notifies pc'" "pc' = OBlocked \<Longrightarrow> v' = OnceWait"
    "finishing pc' \<Longrightarrow> finishing pc \<or> pc = OInit \<and> pc' = OFinish" "v' = OnceDone \<Longrightarrow> v = OnceDone \<or> finishing pc"
    "finishing pc \<Longrightarrow> finishing pc' \<or> v' = OnceDone" "pc = OInit \<Longrightarrow> v' = v"
  using assms by (cases pc; auto simp: pc_ok_def split: if_splits)+

lemma only_wait_owner: "only_wait pc \<Longrightarrow> owner pc" "finishing pc \<Longrightarrow> owner pc"
  by (cases pc; simp)+

lemma pc_ok_other:
  assumes "pc_ok v q" "\<not> owner q" "v' \<noteq> v" "v \<noteq> OnceDone"
  shows "pc_ok v' q"
  using assms only_wait_owner by (auto simp: pc_ok_def)

lemma once_step_inv:
  assumes step: "once_step t s s'" and inv: "once_inv s"
  shows "once_inv s'"
proof -
  obtain v' pc' where n: "(v', pc') \<in> set (once_next (o_state s) (o_pc s t))" and s': "o_state s' = v'" "o_pc s' t = pc'"
    "o_inits s' = o_inits s + (if o_pc s t = OInit \<and> pc' = OFinish then 1 else 0)"
    and other: "\<And>u. u \<noteq> t \<Longrightarrow> o_pc s' u = (if notifies (o_pc s t) then once_wake (o_pc s u) else o_pc s u)"
    using once_step_view [OF step] by metis
  define v where "v = o_state s"
  have i: "v \<le> 3" "\<And>u. pc_ok v (o_pc s u)" "\<And>u w. owner (o_pc s u) \<Longrightarrow> owner (o_pc s w) \<Longrightarrow> u = w"
    "v = OnceInProgress \<or> v = OnceWait \<Longrightarrow> \<exists>u. owner (o_pc s u)"
    "\<And>u. o_pc s u = OBlocked \<Longrightarrow> v = OnceWait \<or> (\<exists>w. notifies (o_pc s w))"
    "o_inits s = (if v = OnceDone \<or> (\<exists>u. finishing (o_pc s u)) then 1 else 0)"
    using inv unfolding once_inv_alt v_def by blast+
  note x = once_next_ok [OF n [folded v_def] i(1) i(2) [of t]]
  have same: "owner (o_pc s' u) = owner (o_pc s u)" "finishing (o_pc s' u) = finishing (o_pc s u)" "notifies (o_pc s' u) = notifies (o_pc s u)"
    "pc_ok w (o_pc s' u) = pc_ok w (o_pc s u)" if "u \<noteq> t" for u w
    using other [OF that] by (simp_all add: pc_ok_def)
  have vo: "v = OnceInProgress \<or> v = OnceWait" if "owner (o_pc s u)" for u using i(2) [of u] that by (simp add: pc_ok_def)
  have ok: "pc_ok v' (o_pc s' u)" for u
  proof (cases "u = t")
    case False
    have "pc_ok v' (o_pc s u)"
    proof (cases "v' = v")
      case changed: False
      show ?thesis
      proof (cases "owner (o_pc s u)")
        case True
        then have "\<not> owner (o_pc s t)" "v \<noteq> OnceNeverDone" using i(3) [of u t] False vo [of u] by auto
        then have "v = OnceInProgress" "v' = OnceWait" using x(3) [OF changed] by auto
        then show ?thesis using i(2) [of u] by (auto simp: pc_ok_def)
      next
        case notown: False
        have "v \<noteq> OnceDone" using x(3) [OF changed] vo [of t] by auto
        then show ?thesis using pc_ok_other [OF i(2) notown changed] by simp
      qed
    qed (use i(2) in simp)
    then show ?thesis using same(4) [OF False] by simp
  qed (use x(2) s'(2) in simp)
  have uniq: "u = w" if "owner (o_pc s' u)" "owner (o_pc s' w)" for u w
  proof -
    have one: "y = t" if "owner pc'" "owner (o_pc s y)" "y \<noteq> t" for y
      using x(4) [OF that(1)] vo [OF that(2)] i(3) [OF that(2), of t] by auto
    show ?thesis using that same(1) [of u] same(1) [of w] i(3) [of u w] one s'(2) by metis
  qed
  have exist: "\<exists>u. owner (o_pc s' u)" if v': "v' = OnceInProgress \<or> v' = OnceWait"
  proof (cases "owner pc'")
    case False
    have "v' = v \<or> v = OnceInProgress" using x(3) vo [of t] x(5) v' False by auto
    then have "v = OnceInProgress \<or> v = OnceWait" using v' by auto
    then obtain u where u: "owner (o_pc s u)" using i(4) by blast
    then have "u \<noteq> t" using x(5) v' False by auto
    then show ?thesis using u same(1) by blast
  qed (use s'(2) in blast)
  have blocked: "v' = OnceWait \<or> (\<exists>w. notifies (o_pc s' w))" if b: "o_pc s' u = OBlocked" for u
  proof (cases "u = t")
    case True
    then show ?thesis using x(7) b s'(2) by simp
  next
    case False
    then have nn: "\<not> notifies (o_pc s t)" "o_pc s u = OBlocked" using other b by (auto split: if_splits)
    then consider "v = OnceWait" | w where "notifies (o_pc s w)" using i(5) by blast
    then show ?thesis
    proof cases
      case 1
      then show ?thesis using x(6) s'(2) by (cases "v' = OnceWait") auto
    next
      case 2
      then have "w \<noteq> t" using nn(1) by auto
      then show ?thesis using same(3) 2 by blast
    qed
  qed
  have hist: "o_inits s' = (if v' = OnceDone \<or> (\<exists>u. finishing (o_pc s' u)) then 1 else 0)"
  proof (cases "o_pc s t = OInit \<and> pc' = OFinish")
    case True
    then have "owner (o_pc s t)" by simp
    then have "v \<noteq> OnceDone" using vo [of t] by auto
    moreover have "u = t" if "finishing (o_pc s u)" for u using i(3) [OF only_wait_owner(2) [OF that] \<open>owner (o_pc s t)\<close>] .
    moreover have "\<not> finishing (o_pc s t)" using True by simp
    ultimately have "o_inits s = 0" using i(6) by (metis (no_types))
    moreover have "finishing (o_pc s' t)" using True s'(2) by simp
    ultimately show ?thesis using True s'(3) by auto
  next
    case False
    have "(v' = OnceDone \<or> (\<exists>u. finishing (o_pc s' u))) = (v = OnceDone \<or> (\<exists>u. finishing (o_pc s u)))"
    proof
      assume "v' = OnceDone \<or> (\<exists>u. finishing (o_pc s' u))"
      then consider "v' = OnceDone" | u where "finishing (o_pc s' u)" by blast
      then show "v = OnceDone \<or> (\<exists>u. finishing (o_pc s u))"
      proof cases
        case (2 u)
        then show ?thesis using x(8) False s'(2) same(2) [of u] by (cases "u = t") auto
      qed (use x(9) in blast)
    next
      assume a: "v = OnceDone \<or> (\<exists>u. finishing (o_pc s u))"
      then consider "v = OnceDone" | u where "finishing (o_pc s u)" by blast
      then show "v' = OnceDone \<or> (\<exists>u. finishing (o_pc s' u))"
      proof cases
        case 1
        then show ?thesis using x(3) vo [of t] by (cases "v' = v") auto
      next
        case (2 u)
        then show ?thesis using x(10) s'(2) same(2) [of u] by (cases "u = t") auto
      qed
    qed
    then show ?thesis using False s'(3) i(6) by (simp only: if_False add_0_right)
  qed
  show ?thesis unfolding once_inv_alt s'(1) using x(1) ok uniq exist blocked hist by blast
qed

lemma once_run_inv: "once_run s \<Longrightarrow> once_inv s"
proof (induction rule: once_run.induct)
  case once_start
  show ?case by (simp add: once_inv_def)
qed (use once_step_inv in blast)

section \<open>Schedules\<close>

text \<open>A schedule gives the thread that moves and the number of its choice.\<close>

fun once_exec :: "(thread \<times> nat) list \<Rightarrow> once_sys \<Rightarrow> once_sys" where
  "once_exec [] s = s"
| "once_exec ((t, k) # xs) s =
    (if k < length (once_next (o_state s) (o_pc s t))
     then (case once_next (o_state s) (o_pc s t) ! k of (v, pc) \<Rightarrow> once_exec xs
       \<lparr>o_state = v, o_pc = (if notifies (o_pc s t) then once_wake \<circ> o_pc s else o_pc s)(t := pc),
        o_inits = o_inits s + (if o_pc s t = OInit \<and> pc = OFinish then 1 else 0)\<rparr>)
     else once_exec xs s)"

lemma once_exec_run: "once_run s \<Longrightarrow> once_run (once_exec xs s)"
proof (induction xs arbitrary: s)
  case (Cons x xs)
  obtain t k where x: "x = (t, k)" by (cases x)
  show ?case
  proof (cases "k < length (once_next (o_state s) (o_pc s t))")
    case True
    obtain v pc where n: "once_next (o_state s) (o_pc s t) ! k = (v, pc)" by fastforce
    then have "(v, pc) \<in> set (once_next (o_state s) (o_pc s t))" using True by (metis nth_mem)
    note once_then [OF Cons.prems once_move [OF this refl]]
    then show ?thesis using Cons.IH x True n by simp
  qed (use Cons x in simp)
qed simp

text \<open>Thread 1 takes the word, thread 2 waits, thread 1 is cancelled, thread 3 takes the word and completes while thread 2 waits again.\<close>

definition sample_once :: "(thread \<times> nat) list \<Rightarrow> once_sys" where
  "sample_once rest = once_exec ([(1, 0), (1, 0), (1, 0), (2, 0), (2, 0), (2, 0), (2, 0), (1, 1), (1, 0), (1, 0), (3, 0), (3, 0), (3, 0), (1, 0)] @ rest)
     \<lparr>o_state = OnceNeverDone, o_pc = (\<lambda>_. OIdle None), o_inits = 0\<rparr>"

lemma sample_once_run: "once_run (sample_once rest)"
  unfolding sample_once_def by (rule once_exec_run [OF once_start])

lemma sample_once_eval:
  "o_pc (sample_once [(2, 0), (2, 0), (2, 0), (2, 0)]) 2 = OBlocked" "o_pc (sample_once [(2, 0), (3, 0), (3, 0), (2, 0)]) 2 = OIdle (Some None)"
  by (simp_all add: sample_once_def once_wake_def)

section \<open>Claims\<close>

text \<open>C26: In every state that any number of callers reach in any interleaving, cancellations included, at most one thread runs the init
  routine, the routine has completed at most once, no call fails, a call that has succeeded returned after the completion and nobody runs the routine
  any more, and while a caller sleeps another thread runs the routine or is about to notify.\<close>

theorem once_exactly_once:
  assumes "once_run s"
  shows "(\<forall>t u. owner (o_pc s t) \<longrightarrow> owner (o_pc s u) \<longrightarrow> t = u) \<and> o_inits s \<le> 1 \<and> (\<forall>t e. o_pc s t \<noteq> OIdle (Some (Some e))) \<and>
    (\<forall>t. o_pc s t = OIdle (Some None) \<longrightarrow> o_inits s = 1 \<and> (\<forall>u. o_pc s u \<noteq> OInit)) \<and>
    (\<forall>t. o_pc s t = OBlocked \<longrightarrow> (\<exists>u. owner (o_pc s u) \<or> notifies (o_pc s u)))"
proof -
  note i = once_run_inv [OF assms]
  have ok: "saw_ok (o_pc s t)" for t using i by (simp add: once_inv_def)
  have done1: "o_state s = OnceDone" if "o_pc s t = OIdle (Some None)" for t
  proof -
    have "after_done (o_pc s t)" using that by simp
    then show ?thesis using i unfolding once_inv_def by blast
  qed
  have "o_pc s t \<noteq> OIdle (Some (Some e))" for t e using ok [of t] by auto
  moreover have "o_inits s = 1 \<and> (\<forall>u. o_pc s u \<noteq> OInit)" if "o_pc s t = OIdle (Some None)" for t
  proof -
    have "owner (o_pc s u) = False" for u using i done1 [OF that] unfolding once_inv_def by auto
    then have "o_pc s u \<noteq> OInit" for u by (metis owner.simps(1))
    then show ?thesis using i done1 [OF that] by (simp add: once_inv_def)
  qed
  moreover have "\<exists>u. owner (o_pc s u) \<or> notifies (o_pc s u)" if "o_pc s t = OBlocked" for t
    using i that unfolding once_inv_def by blast
  moreover have "o_inits s \<le> 1" using i by (simp add: once_inv_def)
  ultimately show ?thesis using i unfolding once_inv_def by blast
qed

theorem once_exactly_once_witness:
  "o_inits (sample_once [(2, 0), (3, 0), (3, 0), (2, 0)]) = 1 \<and>
    (\<exists>u. owner (o_pc (sample_once [(2, 0), (2, 0), (2, 0), (2, 0)]) u) \<or> notifies (o_pc (sample_once [(2, 0), (2, 0), (2, 0), (2, 0)]) u))"
  using once_exactly_once [OF sample_once_run] sample_once_eval by blast

end
