(* ===== verification/Pthread_Attr.thy ===== *)
theory Pthread_Attr
  imports Kernel_Error
begin

text \<open>
  The attributes of threads: \<^verbatim>\<open>src/src/core/libraries/kernel/threads/pthread_attr.cpp\<close>, with \<open>PthreadAttr\<close> of \<^verbatim>\<open>threads/pthread.h\<close>.  An
  attribute argument is \<open>None\<close> when it or the object it points to is null; a pointer is a number, 0 the null pointer.  \<open>out_null\<close> says whether
  the pointer for a result is null, where the code tests it.  A set of processors is the 16 bytes of a \<open>Cpuset\<close>; two attributes
  do not share one.  \<open>memory\<close> says whether an allocation succeeds.
\<close>

section \<open>Data\<close>

abbreviation (input) PolicyFifo :: u32 where "PolicyFifo \<equiv> 1"
abbreviation (input) PolicyOther :: u32 where "PolicyOther \<equiv> 2"
abbreviation (input) PolicyRoundRobin :: u32 where "PolicyRoundRobin \<equiv> 3"
abbreviation (input) AttrDetached :: u32 where "AttrDetached \<equiv> 1"
abbreviation (input) AttrScopeSystem :: u32 where "AttrScopeSystem \<equiv> 2"
abbreviation (input) AttrStackUser :: u32 where "AttrStackUser \<equiv> 0x100"
abbreviation (input) PthreadInheritSched :: int where "PthreadInheritSched \<equiv> 4"
abbreviation (input) PthreadStackMin :: u64 where "PthreadStackMin \<equiv> 0x4000"
abbreviation (input) ThrStackDefault :: u64 where "ThrStackDefault \<equiv> 0x100000"

record PthreadAttr =
  pa_sched_policy :: u32
  pa_sched_inherit :: int
  pa_prio :: int
  pa_suspend :: int
  pa_flags :: u32
  pa_stackaddr :: u64
  pa_stacksize :: u64
  pa_guardsize :: u64
  pa_cpusetsize :: u64
  pa_cpuset :: "byte list option"



definition PthreadAttrDefault :: PthreadAttr where
  "PthreadAttrDefault = \<lparr>pa_sched_policy = PolicyFifo, pa_sched_inherit = PthreadInheritSched, pa_prio = 700, pa_suspend = 0,
     pa_flags = AttrScopeSystem, pa_stackaddr = 0, pa_stacksize = ThrStackDefault, pa_guardsize = 0, pa_cpusetsize = 0, pa_cpuset = None\<rparr>"

section \<open>Functions\<close>

definition thread_attr_get :: "bool \<Rightarrow> (PthreadAttr \<Rightarrow> 'a) \<Rightarrow> PthreadAttr option \<Rightarrow> PosixErrno + 'a" where
  "thread_attr_get out_null f attr = (case attr of None \<Rightarrow> Inl POSIX_EINVAL | Some a \<Rightarrow> if out_null then Inl POSIX_EINVAL else Inr (f a))"

definition thread_attr_set :: "(PthreadAttr \<Rightarrow> PosixErrno + PthreadAttr) \<Rightarrow> PthreadAttr option \<Rightarrow> PosixErrno option \<times> PthreadAttr option" where
  "thread_attr_set f attr = (case attr of None \<Rightarrow> (Some POSIX_EINVAL, None)
     | Some a \<Rightarrow> (case f a of Inl e \<Rightarrow> (Some e, attr) | Inr b \<Rightarrow> (None, Some b)))"

definition posix_pthread_attr_init :: "bool \<Rightarrow> PosixErrno + PthreadAttr" where
  "posix_pthread_attr_init memory = (if memory then Inr PthreadAttrDefault else Inl POSIX_ENOMEM)"

definition posix_pthread_attr_destroy :: "PthreadAttr option \<Rightarrow> PosixErrno option \<times> PthreadAttr option" where
  "posix_pthread_attr_destroy attr = (case attr of None \<Rightarrow> (Some POSIX_EINVAL, None) | Some a \<Rightarrow> (None, None))"

definition posix_pthread_attr_getdetachstate :: "bool \<Rightarrow> PthreadAttr option \<Rightarrow> PosixErrno + int" where
  "posix_pthread_attr_getdetachstate n = thread_attr_get n (\<lambda>a. if pa_flags a AND AttrDetached \<noteq> 0 then 1 else 0)"

definition posix_pthread_attr_getguardsize :: "bool \<Rightarrow> PthreadAttr option \<Rightarrow> PosixErrno + u64" where
  "posix_pthread_attr_getguardsize n = thread_attr_get n pa_guardsize"

definition posix_pthread_attr_getinheritsched :: "PthreadAttr option \<Rightarrow> PosixErrno + int" where
  "posix_pthread_attr_getinheritsched = thread_attr_get False pa_sched_inherit"

definition posix_pthread_attr_getschedparam :: "bool \<Rightarrow> PthreadAttr option \<Rightarrow> PosixErrno + int" where
  "posix_pthread_attr_getschedparam n = thread_attr_get n pa_prio"

definition posix_pthread_attr_getschedpolicy :: "bool \<Rightarrow> PthreadAttr option \<Rightarrow> PosixErrno + u32" where
  "posix_pthread_attr_getschedpolicy n = thread_attr_get n pa_sched_policy"

definition posix_pthread_attr_getscope :: "bool \<Rightarrow> PthreadAttr option \<Rightarrow> PosixErrno + u32" where
  "posix_pthread_attr_getscope n = thread_attr_get n (\<lambda>a. if pa_flags a AND AttrScopeSystem \<noteq> 0 then AttrScopeSystem else 0)"

definition posix_pthread_attr_getstack :: "bool \<Rightarrow> PthreadAttr option \<Rightarrow> PosixErrno + u64 \<times> u64" where
  "posix_pthread_attr_getstack n = thread_attr_get n (\<lambda>a. (pa_stackaddr a, pa_stacksize a))"

definition posix_pthread_attr_getstackaddr :: "bool \<Rightarrow> PthreadAttr option \<Rightarrow> PosixErrno + u64" where
  "posix_pthread_attr_getstackaddr n = thread_attr_get n pa_stackaddr"

definition posix_pthread_attr_getstacksize :: "bool \<Rightarrow> PthreadAttr option \<Rightarrow> PosixErrno + u64" where
  "posix_pthread_attr_getstacksize n = thread_attr_get n pa_stacksize"



text \<open>The test joins two inequalities with an or, as the code does.\<close>

definition posix_pthread_attr_setscope :: "u32 \<Rightarrow> PthreadAttr option \<Rightarrow> PosixErrno option \<times> PthreadAttr option" where
  "posix_pthread_attr_setscope contentionscope = thread_attr_set (\<lambda>a.
     if contentionscope \<noteq> 0 \<or> contentionscope \<noteq> AttrScopeSystem then Inl POSIX_EINVAL
     else if contentionscope = AttrScopeSystem then Inr (a\<lparr>pa_flags := pa_flags a OR contentionscope\<rparr>)
     else Inr (a\<lparr>pa_flags := pa_flags a AND 0xfffffffd\<rparr>))"



definition posix_pthread_attr_setstacksize :: "u64 \<Rightarrow> PthreadAttr option \<Rightarrow> PosixErrno option \<times> PthreadAttr option" where
  "posix_pthread_attr_setstacksize stacksize = thread_attr_set (\<lambda>a.
     if stacksize < PthreadStackMin then Inl POSIX_EINVAL else Inr (a\<lparr>pa_stacksize := stacksize\<rparr>))"





text \<open>The attributes of another thread, copied into an existing object.  \<open>found\<close> is the result of \<open>FindThread\<close>, \<open>EINVAL\<close> for a null
  thread.  The code copies the pointer to the processor set; here the set is copied.\<close>

definition posix_pthread_attr_get_np :: "PosixErrno option \<Rightarrow> PthreadAttr \<Rightarrow> bool \<Rightarrow> PthreadAttr option \<Rightarrow> PosixErrno option \<times> PthreadAttr option" where
  "posix_pthread_attr_get_np found thread_attr detached dst = (case dst of None \<Rightarrow> (Some POSIX_EINVAL, None)
     | Some _ \<Rightarrow> (case found of Some e \<Rightarrow> (Some e, dst)
       | None \<Rightarrow> (None, Some (if detached then thread_attr\<lparr>pa_flags := pa_flags thread_attr OR AttrDetached\<rparr> else thread_attr))))"

text \<open>The attributes that \<open>posix_pthread_create_name_np\<close> gives to a new thread: those of the caller's object or the default,
  with the scheduling of the creating thread, if there is one and it is to be inherited, and additional stack space.\<close>

definition thread_create_attr :: "PthreadAttr option \<Rightarrow> PthreadAttr option \<Rightarrow> PthreadAttr" where
  "thread_create_attr curthread_attr attr = (
     let new = (case attr of None \<Rightarrow> PthreadAttrDefault | Some a \<Rightarrow> a\<lparr>pa_cpusetsize := 0\<rparr>);
         new = (case curthread_attr of
                  Some cur \<Rightarrow>
                    if pa_sched_inherit new = PthreadInheritSched
                    then new\<lparr>pa_flags := (if pa_flags cur AND AttrScopeSystem \<noteq> 0 then pa_flags new OR AttrScopeSystem else pa_flags new AND 0xfffffffd),
                             pa_prio := pa_prio cur, pa_sched_policy := pa_sched_policy cur\<rparr>
                    else new
                | None \<Rightarrow> new)
     in if pa_stackaddr new = 0 then new\<lparr>pa_stacksize := add64 (pa_stacksize new) 0x20000\<rparr> else new)"

section \<open>Processors\<close>

text \<open>The new contents of the buffer of the caller, whose first \<open>cpusetsize\<close> bytes the code may write.\<close>

definition posix_pthread_attr_getaffinity_np :: "u64 \<Rightarrow> byte list \<Rightarrow> PthreadAttr option \<Rightarrow> PosixErrno + byte list" where
  "posix_pthread_attr_getaffinity_np cpusetsize buffer = thread_attr_get False (\<lambda>a. case pa_cpuset a of
     Some cpuset \<Rightarrow> (let n = min cpusetsize (pa_cpusetsize a) in take n cpuset @ drop n buffer)
   | None \<Rightarrow> replicate cpusetsize 0xff @ drop cpusetsize buffer)"

text \<open>\<open>cpusetp\<close> is \<open>None\<close> for a null pointer.\<close>

definition posix_pthread_attr_setaffinity_np :: "u64 \<Rightarrow> byte list option \<Rightarrow> PthreadAttr option \<Rightarrow> PosixErrno option \<times> PthreadAttr option" where
  "posix_pthread_attr_setaffinity_np cpusetsize cpusetp = thread_attr_set (\<lambda>a.
     case cpusetp of
       None \<Rightarrow> Inr (if pa_cpuset a \<noteq> None then a\<lparr>pa_cpuset := None, pa_cpusetsize := 0\<rparr> else a)
     | Some bytes \<Rightarrow>
       if cpusetsize = 0 then Inr (if pa_cpuset a \<noteq> None then a\<lparr>pa_cpuset := None, pa_cpusetsize := 0\<rparr> else a)
       else (let a = (if pa_cpuset a = None then a\<lparr>pa_cpuset := Some (replicate 16 0), pa_cpusetsize := 16\<rparr> else a);
                 n = min cpusetsize 16 in
             Inr (a\<lparr>pa_cpuset := Some (take n bytes @ drop n (the (pa_cpuset a)))\<rparr>)))"

text \<open>A \<open>Cpuset\<close> with the given bits.\<close>

definition cpuset_bytes :: "u64 \<Rightarrow> byte list" where
  "cpuset_bytes bits = map (\<lambda>i. of_nat (bits div 256 ^ i)) [0..<8] @ replicate 8 0"

definition scePthreadAttrSetaffinity :: "u64 \<Rightarrow> PthreadAttr option \<Rightarrow> PosixErrno option \<times> PthreadAttr option" where
  "scePthreadAttrSetaffinity bits = posix_pthread_attr_setaffinity_np 16 (Some (cpuset_bytes bits))"

text \<open>\<open>garbage\<close> is the content of the local variable before the call.\<close>

definition scePthreadAttrGetaffinity :: "byte list \<Rightarrow> PthreadAttr option \<Rightarrow> PosixErrno + u64" where
  "scePthreadAttrGetaffinity garbage attr = map_sum id (\<lambda>bytes. le_value (take 8 bytes)) (posix_pthread_attr_getaffinity_np 16 garbage attr)"

section \<open>Well-formed attributes\<close>

definition cpuset_ok :: "byte list option \<Rightarrow> u64 \<Rightarrow> bool" where
  "cpuset_ok cpuset n \<longleftrightarrow> (case cpuset of None \<Rightarrow> n = 0 | Some bytes \<Rightarrow> length bytes = 16 \<and> n = 16)"

definition attr_ok :: "PthreadAttr \<Rightarrow> bool" where
  "attr_ok a \<longleftrightarrow> pa_sched_policy a \<in> {PolicyFifo, PolicyOther, PolicyRoundRobin} \<and> pa_sched_inherit a \<in> {0, PthreadInheritSched} \<and>
     (pa_sched_policy a = PolicyOther \<or> 0x100 \<le> pa_prio a \<and> pa_prio a \<le> 0x2FF) \<and> pa_suspend a \<in> {0, 1} \<and>
     pa_flags a \<in> {AttrScopeSystem, AttrScopeSystem OR AttrDetached} \<and> PthreadStackMin \<le> pa_stacksize a \<and>
     cpuset_ok (pa_cpuset a) (pa_cpusetsize a)"




lemma flag_values:
  "AttrScopeSystem OR AttrDetached = 3" "(2 :: nat) OR 1 = 3" "(3 :: nat) OR 1 = 3" "(2 :: nat) AND 0xfffffffe = 2" "(3 :: nat) AND 0xfffffffe = 2"
  by simp_all

lemma length_cpuset_bytes [simp]: "length (cpuset_bytes bits) = 16"
  by (simp add: cpuset_bytes_def)









text \<open>The test of \<open>setscope\<close> is never passed.\<close>

lemma setscope_fails: "fst (posix_pthread_attr_setscope scope attr) \<noteq> None"
  by (auto simp: posix_pthread_attr_setscope_def thread_attr_set_def split: option.splits)

section \<open>Affinity\<close>

lemma le_value_cpuset: "n < 2 ^ 64 \<Longrightarrow> le_value (take 8 (cpuset_bytes n)) = n"
proof -
  assume n: "n < 2 ^ 64"
  have digit: "le_value (map (\<lambda>i. of_nat (n div 256 ^ i)) [j..<j + k]) = n div 256 ^ j mod 256 ^ k" for j k
  proof (induction k arbitrary: j)
    case (Suc k)
    have "[j..<j + Suc k] = j # [Suc j..<Suc j + k]" using upt_conv_Cons [of j "j + Suc k"] by simp
    then have "le_value (map (\<lambda>i. of_nat (n div 256 ^ i)) [j..<j + Suc k]) = n div 256 ^ j mod 256 + 256 * (n div 256 ^ Suc j mod 256 ^ k)"
      using Suc.IH [of "Suc j"] by (simp add: unsigned_of_nat take_bit_eq_mod)
    also have "\<dots> = n div 256 ^ j mod (256 * 256 ^ k)"
      unfolding mod_mult2_eq power_Suc2 div_mult2_eq by simp
    finally show ?case by simp
  qed simp
  have "take 8 (cpuset_bytes n) = map (\<lambda>i. of_nat (n div 256 ^ i)) [0..<0 + 8]" by (simp add: cpuset_bytes_def)
  then show ?thesis using digit [of 0 8] n by simp
qed

lemma affinity_roundtrip:
  assumes "attr_ok a" "n < 2 ^ 64" "scePthreadAttrSetaffinity n (Some a) = (e, b)"
  shows "e = None" "scePthreadAttrGetaffinity garbage b = Inr n"
proof -
  have e: "e = None \<and> (\<exists>c. b = Some c \<and> pa_cpuset c = Some (cpuset_bytes n) \<and> pa_cpusetsize c = 16)"
    using assms(1,3) by (cases "pa_cpuset a") (auto simp: scePthreadAttrSetaffinity_def posix_pthread_attr_setaffinity_np_def thread_attr_set_def attr_ok_def cpuset_ok_def Let_def)
  then show "e = None" by simp
  show "scePthreadAttrGetaffinity garbage b = Inr n"
    using e le_value_cpuset [OF assms(2)] by (auto simp: scePthreadAttrGetaffinity_def posix_pthread_attr_getaffinity_np_def thread_attr_get_def)
qed

text \<open>Creation copies the pointer but clears the size.  A query of the affinity of such a thread succeeds and writes nothing.\<close>

lemma thread_affinity_unwritten:
  "pa_cpuset a = Some bytes \<Longrightarrow> posix_pthread_attr_getaffinity_np n buffer (Some (thread_create_attr cur (Some a))) = Inr buffer"
  by (auto simp: posix_pthread_attr_getaffinity_np_def thread_attr_get_def thread_create_attr_def Let_def split: option.splits)

section \<open>New threads\<close>

text \<open>A well-formed object gives a new thread well-formed attributes, up to the processor set, unless the additional stack space wraps around.\<close>

lemma thread_create_attr_ok:
  assumes "attr_ok a" "case cur of None \<Rightarrow> True | Some c \<Rightarrow> attr_ok c" "pa_stacksize a + 0x20000 \<le> UINT64_MAX"
  shows "attr_ok ((thread_create_attr cur (Some a))\<lparr>pa_cpuset := None, pa_cpusetsize := 0\<rparr>)"
proof -
  have flags: "f OR 2 = 2 \<or> f OR 2 = 3" if "f \<in> {2, 2 OR 1}" for f :: nat using that flag_values by auto
  have stack: "add64 (pa_stacksize a) 0x20000 = pa_stacksize a + 0x20000" using assms(3) by (rule add64_exact)
  show ?thesis
  proof (cases cur)
    case None
    then show ?thesis using assms(1) unfolding thread_create_attr_def Let_def attr_ok_def cpuset_ok_def by (simp add: stack)
  next
    case (Some c)
    have c: "pa_flags c AND 2 \<noteq> 0" using assms(2) Some by (auto simp: attr_ok_def flag_values)
    show ?thesis
      using assms(1,2) Some c flags [of "pa_flags a"] unfolding thread_create_attr_def Let_def attr_ok_def cpuset_ok_def
      by (cases "pa_sched_inherit a = 4") (simp_all add: stack flag_values)
  qed
qed

text \<open>A guest can make it wrap around: the stack of the largest size becomes smaller than the least.\<close>

lemma thread_create_stack_wraps:
  "\<exists>a. posix_pthread_attr_setstacksize UINT64_MAX (Some PthreadAttrDefault) = (None, Some a) \<and> pa_stacksize (thread_create_attr None (Some a)) = 0x1ffff"
  by (simp add: posix_pthread_attr_setstacksize_def thread_attr_set_def PthreadAttrDefault_def thread_create_attr_def add64_def)

section \<open>Claims\<close>


end
