(* ===== verification/Thread_Lifecycle.thy ===== *)
theory Thread_Lifecycle
  imports Kernel_Error
begin

text \<open>
  The life of the thread objects: \<open>ThreadState\<close> (\<^verbatim>\<open>src/src/core/libraries/kernel/threads/thread_state.cpp\<close>, \<^verbatim>\<open>thread_state.h\<close>) with creation,
  exit, join and detach of \<^verbatim>\<open>threads/pthread.cpp\<close>, for any number of host threads in any interleaving.

  A \<open>Pthread\<close> object is named by its address, 0 is the null pointer; a host thread runs on behalf of one object, \<open>g_curthread\<close>, or of none.
  A step runs from the acquisition of a lock to the next point where another thread can interfere; a step of a host that waits for a
  lock is not possible.  A step that unlocks a lock its host does not hold, or uses an object that has been constructed anew for
  another thread, has undefined behaviour and is not possible either (\<open>Thread_Safety\<close> names these states and shows that they are reached).

  Left out: the arguments of the timed join, the stack and the host thread of a new thread, whose creation succeeds or fails an assertion, the
  clean-up of an exiting thread (\<open>Pthread_Specific\<close>), and the creation that would make \<open>TidCounter\<close> wrap around.  The construction of
  the control block may fail.  When a wait times out or is cancelled is free; the comparison under \<open>join_wait_mutex\<close> is one step.
\<close>

type_synonym obj = nat
type_synonym host = nat

section \<open>State\<close>

abbreviation (input) TidTerminated :: int where "TidTerminated \<equiv> 1"
abbreviation (input) GcThreshold :: nat where "GcThreshold \<equiv> 5"
abbreviation (input) MaxThreads :: int where "MaxThreads \<equiv> 100000"
abbreviation (input) MaxCachedThreads :: nat where "MaxCachedThreads \<equiv> 100"
abbreviation (input) PTHREAD_CANCELED :: u64 where "PTHREAD_CANCELED \<equiv> 1"

text \<open>The fields of \<open>Pthread\<close> that decide its life.  \<open>td_lock\<close> is the host that holds \<open>lock\<close>; \<open>td_gen\<close> counts how often the object has been given away,
  which the code does not know.\<close>

record Pthread =
  td_tid :: int
  td_lock :: "host option"
  td_refcount :: int
  td_dead :: bool
  td_detached :: bool
  td_joiner :: "obj option"
  td_join_target :: "obj option"
  td_ret :: u64
  td_gen :: nat

text \<open>What a thread does with the object that \<open>FindThread\<close> has found and locked: \<open>KBrief\<close> reads or writes a field and unlocks it, \<open>KRef\<close> takes a
  reference (\<open>RefAdd\<close>).\<close>

datatype kont = KJoin bool | KDetach | KRef | KBrief

text \<open>What follows \<open>TryCollect\<close>: the call returns a result, or the thread goes on to exit.\<close>

type_synonym after = "(PosixErrno + u64) option"

datatype pc = PIdle after
  | PFind obj bool kont | PFound obj bool kont | PHave obj kont
  | PJoin1 obj bool | PJoinWait obj bool | PJoin3 obj bool | PJoin4 obj | PBack1 obj bool | PBack2 obj bool
  | PRef obj
  | PCollect0 obj after | PCollect1 obj after | PCollect2 obj after | PCollect3 obj after
  | PExit0 | PExit1 | PExit2 | PGone
  | PNewCollect bool | PNewFree "obj list" bool | PNewAlloc bool | PNewInit obj bool | PNewLink obj | PNewStart obj

record ThreadState =
  ts_obj :: "obj \<Rightarrow> Pthread"
  ts_heap :: "obj list"
  threads :: "obj set"
  free_threads :: "obj list"
  gc_list :: "obj list"
  total_threads :: int
  active_threads :: int
  thread_list_lock :: "host option"
  TidCounter :: int
  ts_hosts :: nat
  ts_cur :: "host \<Rightarrow> obj"
  ts_pc :: "host \<Rightarrow> pc"
  ts_gen :: "host \<Rightarrow> nat"

definition at :: "host \<Rightarrow> pc \<Rightarrow> ThreadState \<Rightarrow> ThreadState" where
  "at h x s = s\<lparr>ts_pc := (ts_pc s)(h := x)\<rparr>"

definition upd :: "obj \<Rightarrow> (Pthread \<Rightarrow> Pthread) \<Rightarrow> ThreadState \<Rightarrow> ThreadState" where
  "upd p f s = s\<lparr>ts_obj := (ts_obj s)(p := f (ts_obj s p))\<rparr>"

definition ShouldCollect :: "Pthread \<Rightarrow> bool" where
  "ShouldCollect td \<longleftrightarrow> td_refcount td = 0 \<and> td_dead td \<and> td_detached td"

text \<open>A new object, after \<open>memset\<close> and construction, with the fields that creation sets.\<close>

definition new_thread :: "int \<Rightarrow> bool \<Rightarrow> Pthread \<Rightarrow> Pthread" where
  "new_thread tid detached old = \<lparr>td_tid = tid, td_lock = None, td_refcount = 1, td_dead = False, td_detached = detached, td_joiner = None,
     td_join_target = None, td_ret = 0, td_gen = td_gen old + 1\<rparr>"

definition after_collect :: "host \<Rightarrow> after \<Rightarrow> ThreadState \<Rightarrow> ThreadState" where
  "after_collect h a = at h (case a of None \<Rightarrow> PExit1 | Some r \<Rightarrow> PIdle (Some r))"

section \<open>Steps\<close>

text \<open>The choices: which call an idle thread makes, whether a wait times out or is cancelled, whether a construction fails.\<close>

datatype choice = CNext | CCreate bool | CJoin obj bool | CDetach obj | CRef obj | CBrief obj | CExit u64 | CTimeout | CCancel | CFail

definition idle_step :: "host \<Rightarrow> choice \<Rightarrow> ThreadState \<Rightarrow> ThreadState option" where
  "idle_step h c s = (case c of
     CCreate detached \<Rightarrow> Some (at h (if ts_cur s h \<noteq> 0 \<and> length (gc_list s) \<ge> GcThreshold then PNewCollect detached else PNewAlloc detached) s)
   | CJoin p timed \<Rightarrow> if ts_cur s h = 0 then None else
       Some (at h (if p = 0 then PIdle (Some (Inl POSIX_EINVAL)) else if p = ts_cur s h then PIdle (Some (Inl POSIX_EDEADLK))
                   else PFind p True (KJoin timed)) s)
   | CDetach p \<Rightarrow> Some (at h (if p = 0 then PIdle (Some (Inl POSIX_EINVAL)) else PFind p True KDetach) s)
   | CRef p \<Rightarrow> Some (at h (if p = 0 then PIdle (Some (Inl POSIX_EINVAL)) else PFind p False KRef) s)
   | CBrief p \<Rightarrow> Some (at h (if p = 0 then PIdle (Some (Inl POSIX_EINVAL)) else PFind p False KBrief) s)
   | CExit v \<Rightarrow> if ts_cur s h = 0 then None else Some (at h PExit0 (upd (ts_cur s h) (td_ret_update (\<lambda>_. v)) s))
   | _ \<Rightarrow> None)"

text \<open>With the lock of the object held.\<close>

definition have_step :: "host \<Rightarrow> obj \<Rightarrow> kont \<Rightarrow> ThreadState \<Rightarrow> ThreadState" where
  "have_step h p k s = (let td = ts_obj s p; unlock = td_lock_update (\<lambda>_. None) in case k of
     KBrief \<Rightarrow> at h (PIdle (Some (Inr 0))) (upd p unlock s)
   | KRef \<Rightarrow> at h (PRef p) (upd p (unlock \<circ> td_refcount_update (\<lambda>n. n + 1)) s)
   | KDetach \<Rightarrow> if td_detached td \<or> td_joiner td \<noteq> None then at h (PIdle (Some (Inl POSIX_EINVAL))) (upd p unlock s)
       else at h (PCollect0 p (Some (Inr 0))) (upd p (td_detached_update (\<lambda>_. True)) s)
   | KJoin timed \<Rightarrow> if td_detached td then at h (PIdle (Some (Inl POSIX_EINVAL))) (upd p unlock s)
       else if td_joiner td \<noteq> None then at h (PIdle (Some (Inl POSIX_ENOTSUP))) (upd p unlock s)
       else at h (PJoin1 p timed) (upd p (td_joiner_update (\<lambda>_. Some (ts_cur s h))) s))"

text \<open>\<open>lock_td h p s\<close> is \<open>s\<close> with the lock of \<open>p\<close> taken by \<open>h\<close>, if it is free.\<close>

definition lock_td :: "host \<Rightarrow> obj \<Rightarrow> ThreadState \<Rightarrow> ThreadState option" where
  "lock_td h p s = (if td_lock (ts_obj s p) = None then Some (upd p (td_lock_update (\<lambda>_. Some h)) s) else None)"

definition unlock_td :: "host \<Rightarrow> obj \<Rightarrow> ThreadState \<Rightarrow> ThreadState option" where
  "unlock_td h p s = (if td_lock (ts_obj s p) = Some h then Some (upd p (td_lock_update (\<lambda>_. None)) s) else None)"

definition lock_list :: "host \<Rightarrow> ThreadState \<Rightarrow> ThreadState option" where
  "lock_list h s = (if thread_list_lock s = None then Some (s\<lparr>thread_list_lock := Some h\<rparr>) else None)"

text \<open>A thread sets or clears its own \<open>join_target\<close> under its own lock.\<close>

definition set_join_target :: "host \<Rightarrow> obj option \<Rightarrow> ThreadState \<Rightarrow> ThreadState option" where
  "set_join_target h t s = (if td_lock (ts_obj s (ts_cur s h)) = None then Some (upd (ts_cur s h) (td_join_target_update (\<lambda>_. t)) s) else None)"

text \<open>\<open>FindThread\<close>: the search under the lock of the list, then the lock of the object.\<close>

definition FindThread_search :: "host \<Rightarrow> obj \<Rightarrow> bool \<Rightarrow> kont \<Rightarrow> ThreadState \<Rightarrow> ThreadState option" where
  "FindThread_search h p dead k s =
    (if p \<in> threads s then map_option (at h (PFound p dead k)) (lock_list h s)
     else map_option (\<lambda>s'. at h (PIdle (Some (Inl POSIX_ESRCH))) s) (lock_list h s))"

definition FindThread_lock :: "host \<Rightarrow> obj \<Rightarrow> bool \<Rightarrow> kont \<Rightarrow> ThreadState \<Rightarrow> ThreadState option" where
  "FindThread_lock h p dead k s = do {
     s' \<leftarrow> lock_td h p s;
     Some (if \<not> dead \<and> td_dead (ts_obj s p) then at h (PIdle (Some (Inl POSIX_ESRCH))) (s\<lparr>thread_list_lock := None\<rparr>)
           else at h (PHave p k) (s'\<lparr>thread_list_lock := None\<rparr>))
   }"

text \<open>\<open>RefDelete\<close> up to \<open>TryCollect\<close>.\<close>

definition RefDelete :: "host \<Rightarrow> obj \<Rightarrow> ThreadState \<Rightarrow> ThreadState option" where
  "RefDelete h p s = map_option (\<lambda>s. at h (PCollect0 p (Some (Inr 0))) (upd p (td_refcount_update (\<lambda>n. n - 1)) s)) (lock_td h p s)"

text \<open>\<open>JoinThread\<close>: it records the target under its own lock, waits, forgets the target, and either takes the result or backs out.\<close>

definition JoinThread_record :: "host \<Rightarrow> obj \<Rightarrow> bool \<Rightarrow> ThreadState \<Rightarrow> ThreadState option" where
  "JoinThread_record h p timed s = do {
     s \<leftarrow> set_join_target h (Some p) s;
     s \<leftarrow> unlock_td h p s;
     Some (at h (PJoinWait p timed) s)
   }"

definition JoinThread_wait :: "host \<Rightarrow> choice \<Rightarrow> obj \<Rightarrow> bool \<Rightarrow> ThreadState \<Rightarrow> ThreadState option" where
  "JoinThread_wait h c p timed s =
    (if c = CCancel then Some (at h (PBack1 p True) (upd (ts_cur s h) (td_ret_update (\<lambda>_. PTHREAD_CANCELED)) s))
     else if td_tid (ts_obj s p) = TidTerminated then Some (at h (PJoin3 p False) s)
     else if timed \<and> c = CTimeout then Some (at h (PJoin3 p True) s)
     else None)"

definition JoinThread_forget :: "host \<Rightarrow> obj \<Rightarrow> bool \<Rightarrow> ThreadState \<Rightarrow> ThreadState option" where
  "JoinThread_forget h p timedout s = map_option (at h (if timedout then PBack1 p False else PJoin4 p)) (set_join_target h None s)"

definition backout_target :: "host \<Rightarrow> obj \<Rightarrow> bool \<Rightarrow> ThreadState \<Rightarrow> ThreadState option" where
  "backout_target h p cancelled s = map_option (at h (PBack2 p cancelled)) (set_join_target h None s)"

definition backout_joiner :: "host \<Rightarrow> obj \<Rightarrow> bool \<Rightarrow> ThreadState \<Rightarrow> ThreadState option" where
  "backout_joiner h p cancelled s = map_option (\<lambda>s'. at h (if cancelled then PExit0 else PIdle (Some (Inl POSIX_ETIMEDOUT)))
     (upd p (td_joiner_update (\<lambda>_. None)) s)) (lock_td h p s)"

definition JoinThread_finish :: "host \<Rightarrow> obj \<Rightarrow> ThreadState \<Rightarrow> ThreadState option" where
  "JoinThread_finish h p s = do {
     let ret = td_ret (ts_obj s p);
     s \<leftarrow> lock_td h p s;
     Some (at h (PCollect0 p (Some (Inr ret))) (upd p (td_detached_update (\<lambda>_. True) \<circ> td_joiner_update (\<lambda>_. None)) s))
   }"

text \<open>\<open>TryCollect\<close>: the first test, then the two locks with the second test, then the unlocking of the object, after that of the list.\<close>

definition TryCollect_test :: "host \<Rightarrow> obj \<Rightarrow> after \<Rightarrow> ThreadState \<Rightarrow> ThreadState option" where
  "TryCollect_test h p a s =
    (if \<not> ShouldCollect (ts_obj s p) then map_option (after_collect h a) (unlock_td h p s)
     else map_option (\<lambda>s. at h (PCollect1 p a) (upd p (td_refcount_update (\<lambda>n. n + 1)) s)) (unlock_td h p s))"

definition TryCollect_move :: "host \<Rightarrow> obj \<Rightarrow> after \<Rightarrow> ThreadState \<Rightarrow> ThreadState option" where
  "TryCollect_move h p a s = do {
     s \<leftarrow> lock_td h p s;
     let s = upd p (td_refcount_update (\<lambda>n. n - 1)) s;
     let s = (if ShouldCollect (ts_obj s p) then s\<lparr>threads := threads s - {p}, gc_list := gc_list s @ [p]\<rparr> else s);
     Some (at h (PCollect3 p a) (s\<lparr>thread_list_lock := None\<rparr>))
   }"

text \<open>\<open>ExitThread\<close>: the death of the thread, its termination, and the last use of its object.  The assertion fails for the last active thread.\<close>

definition ExitThread_dead :: "host \<Rightarrow> ThreadState \<Rightarrow> ThreadState option" where
  "ExitThread_dead h s =
    (if active_threads s = 1 then None
     else do {
       s \<leftarrow> lock_td h (ts_cur s h) s;
       Some (at h (PCollect0 (ts_cur s h) None)
         (upd (ts_cur s h) (td_dead_update (\<lambda>_. True) \<circ> td_refcount_update (\<lambda>n. n - 1)) (s\<lparr>active_threads := active_threads s - 1\<rparr>)))
     })"

definition ExitThread_terminate :: "host \<Rightarrow> ThreadState \<Rightarrow> ThreadState" where
  "ExitThread_terminate h s = at h PExit2 (upd (ts_cur s h) (td_tid_update (\<lambda>_. TidTerminated)) s)"

text \<open>\<open>Collect\<close> takes the terminated threads from the garbage list, \<open>FreeThread\<close> is \<open>Free\<close>.\<close>

definition Collect_list :: "host \<Rightarrow> bool \<Rightarrow> ThreadState \<Rightarrow> ThreadState option" where
  "Collect_list h detached s = map_option (\<lambda>s'.
     at h (PNewFree (filter (\<lambda>p. td_tid (ts_obj s p) = TidTerminated) (gc_list s)) detached)
       (s\<lparr>gc_list := filter (\<lambda>p. td_tid (ts_obj s p) \<noteq> TidTerminated) (gc_list s)\<rparr>)) (lock_list h s)"

definition FreeThread :: "obj \<Rightarrow> ThreadState \<Rightarrow> ThreadState" where
  "FreeThread p s =
    (if length (free_threads s) \<ge> MaxCachedThreads
     then upd p (td_gen_update Suc) (s\<lparr>ts_heap := p # ts_heap s, total_threads := total_threads s - 1\<rparr>)
     else s\<lparr>free_threads := free_threads s @ [p]\<rparr>)"

text \<open>\<open>Alloc\<close>: a cached object or one of the heap, and its construction with the fields that creation sets.\<close>

definition Alloc_object :: "host \<Rightarrow> bool \<Rightarrow> ThreadState \<Rightarrow> ThreadState" where
  "Alloc_object h detached s =
    (if ts_cur s h \<noteq> 0 \<and> free_threads s \<noteq> [] then at h (PNewInit (last (free_threads s)) detached) (s\<lparr>free_threads := butlast (free_threads s)\<rparr>)
     else if total_threads s > MaxThreads then at h (PIdle (Some (Inl POSIX_EAGAIN))) s
     else (case ts_heap s of [] \<Rightarrow> at h (PIdle (Some (Inl POSIX_EAGAIN))) s
       | p # ps \<Rightarrow> at h (PNewInit p detached) (s\<lparr>ts_heap := ps, total_threads := total_threads s + 1\<rparr>)))"

definition Alloc_construct :: "host \<Rightarrow> choice \<Rightarrow> obj \<Rightarrow> bool \<Rightarrow> ThreadState \<Rightarrow> ThreadState option" where
  "Alloc_construct h c p detached s =
    (if c = CFail then Some (at h (PIdle (Some (Inl POSIX_EAGAIN))) (s\<lparr>ts_heap := p # ts_heap s, total_threads := total_threads s - 1\<rparr>))
     else if TidCounter s = 0x7fffffff then None
     else Some (at h (PNewLink p) (upd p (new_thread (TidCounter s + 1) detached) (s\<lparr>TidCounter := TidCounter s + 1\<rparr>))))"

definition Link :: "host \<Rightarrow> obj \<Rightarrow> ThreadState \<Rightarrow> ThreadState option" where
  "Link h p s = map_option (\<lambda>s'. at h (PNewStart p) (s\<lparr>threads := insert p (threads s), active_threads := active_threads s + 1\<rparr>)) (lock_list h s)"

text \<open>The creating thread returns the object and a new host runs on behalf of it.\<close>

definition start_thread :: "host \<Rightarrow> obj \<Rightarrow> ThreadState \<Rightarrow> ThreadState" where
  "start_thread h p s = at h (PIdle (Some (Inr p))) (at (ts_hosts s) (PIdle None)
     (s\<lparr>ts_hosts := ts_hosts s + 1, ts_cur := (ts_cur s)(ts_hosts s := p), ts_gen := (ts_gen s)(ts_hosts s := td_gen (ts_obj s p))\<rparr>))"

lemmas operation_defs = FindThread_search_def FindThread_lock_def RefDelete_def JoinThread_record_def JoinThread_wait_def JoinThread_forget_def
  backout_target_def backout_joiner_def JoinThread_finish_def TryCollect_test_def TryCollect_move_def ExitThread_dead_def ExitThread_terminate_def
  Collect_list_def FreeThread_def Alloc_object_def Alloc_construct_def Link_def start_thread_def

declare operation_defs [simp]

fun move :: "pc \<Rightarrow> host \<Rightarrow> choice \<Rightarrow> ThreadState \<Rightarrow> ThreadState option" where
  "move (PIdle r) h c s = idle_step h c s"
| "move (PFind p dead k) h c s = FindThread_search h p dead k s"
| "move (PFound p dead k) h c s = FindThread_lock h p dead k s"
| "move (PHave p k) h c s = Some (have_step h p k s)"
| "move (PJoin1 p timed) h c s = JoinThread_record h p timed s"
| "move (PJoinWait p timed) h c s = JoinThread_wait h c p timed s"
| "move (PJoin3 p timedout) h c s = JoinThread_forget h p timedout s"
| "move (PBack1 p cancelled) h c s = backout_target h p cancelled s"
| "move (PBack2 p cancelled) h c s = backout_joiner h p cancelled s"
| "move (PJoin4 p) h c s = JoinThread_finish h p s"
| "move (PRef p) h c s = RefDelete h p s"
| "move (PCollect0 p a) h c s = TryCollect_test h p a s"
| "move (PCollect1 p a) h c s = map_option (at h (PCollect2 p a)) (lock_list h s)"
| "move (PCollect2 p a) h c s = TryCollect_move h p a s"
| "move (PCollect3 p a) h c s = map_option (after_collect h a) (unlock_td h p s)"
| "move PExit0 h c s = ExitThread_dead h s"
| "move PExit1 h c s = Some (ExitThread_terminate h s)"
| "move PExit2 h c s = (if td_gen (ts_obj s (ts_cur s h)) = ts_gen s h then Some (at h PGone s) else None)"
| "move PGone h c s = None"
| "move (PNewCollect detached) h c s = Collect_list h detached s"
| "move (PNewFree ps detached) h c s = Some (case ps of
     [] \<Rightarrow> at h (PNewAlloc detached) s
   | p # ps \<Rightarrow> at h (PNewFree ps detached) (FreeThread p s))"
| "move (PNewAlloc detached) h c s = Some (Alloc_object h detached s)"
| "move (PNewInit p detached) h c s = Alloc_construct h c p detached s"
| "move (PNewLink p) h c s = Link h p s"
| "move (PNewStart p) h c s = Some (start_thread h p s)"

section \<open>Reachable states\<close>

definition lc_init :: "obj list \<Rightarrow> (obj \<Rightarrow> Pthread) \<Rightarrow> ThreadState" where
  "lc_init hp objs = \<lparr>ts_obj = objs, ts_heap = hp, threads = {}, free_threads = [], gc_list = [], total_threads = 0, active_threads = 0,
     thread_list_lock = None, TidCounter = 1, ts_hosts = 1, ts_cur = (\<lambda>_. 0), ts_pc = (\<lambda>h. if h = 0 then PIdle None else PGone), ts_gen = (\<lambda>_. 0)\<rparr>"

inductive lc_run :: "obj list \<Rightarrow> ThreadState \<Rightarrow> bool" for hp where
  lc_start: "lc_run hp (lc_init hp objs)"
| lc_move: "lc_run hp s \<Longrightarrow> move (ts_pc s h) h c s = Some s' \<Longrightarrow> lc_run hp s'"

section \<open>Selectors\<close>

lemma at_simps [simp]:
  "ts_obj (at h x s) = ts_obj s" "ts_heap (at h x s) = ts_heap s" "threads (at h x s) = threads s" "free_threads (at h x s) = free_threads s"
  "gc_list (at h x s) = gc_list s" "total_threads (at h x s) = total_threads s" "active_threads (at h x s) = active_threads s"
  "thread_list_lock (at h x s) = thread_list_lock s" "TidCounter (at h x s) = TidCounter s" "ts_hosts (at h x s) = ts_hosts s"
  "ts_cur (at h x s) = ts_cur s" "ts_pc (at h x s) = (ts_pc s)(h := x)" "ts_gen (at h x s) = ts_gen s"
  by (simp_all add: at_def)

lemma upd_simps [simp]:
  "ts_obj (upd p f s) = (ts_obj s)(p := f (ts_obj s p))" "ts_heap (upd p f s) = ts_heap s" "threads (upd p f s) = threads s"
  "free_threads (upd p f s) = free_threads s" "gc_list (upd p f s) = gc_list s" "total_threads (upd p f s) = total_threads s"
  "active_threads (upd p f s) = active_threads s" "thread_list_lock (upd p f s) = thread_list_lock s" "TidCounter (upd p f s) = TidCounter s"
  "ts_hosts (upd p f s) = ts_hosts s" "ts_cur (upd p f s) = ts_cur s" "ts_pc (upd p f s) = ts_pc s" "ts_gen (upd p f s) = ts_gen s"
  by (simp_all add: upd_def)

text \<open>A step of a host whose control point is known.\<close>

lemmas lock_defs = lock_td_def unlock_td_def lock_list_def set_join_target_def after_collect_def

end
