(* ===== verification/Thread_Invariant.thy ===== *)
theory Thread_Invariant
  imports Thread_Lifecycle
begin

text \<open>
  What holds in every reachable state of \<open>Thread_Lifecycle\<close>: one named aspect of the invariant per question (in which list an object
  is, who owns it, who refers to it, who holds its lock, who joins it), with a lemma that every step preserves it.  References, owners and
  joiners are counted by sums over the host threads.
\<close>

section \<open>Counting over the hosts\<close>

definition tot :: "(obj \<Rightarrow> pc \<Rightarrow> obj \<Rightarrow> nat) \<Rightarrow> nat \<Rightarrow> (host \<Rightarrow> obj) \<Rightarrow> (host \<Rightarrow> pc) \<Rightarrow> obj \<Rightarrow> int" where
  "tot w n cur f p = (\<Sum>h<n. int (w (cur h) (f h) p))"

lemma tot_upd: "h < n \<Longrightarrow> tot w n cur (f(h := x)) p = tot w n cur f p + int (w (cur h) x p) - int (w (cur h) (f h) p)"
proof -
  assume h: "h < n"
  have "(\<Sum>i\<in>{..<n} - {h}. int (w (cur i) ((f(h := x)) i) p)) = (\<Sum>i\<in>{..<n} - {h}. int (w (cur i) (f i) p))"
    by (rule sum.cong) auto
  then show ?thesis
    using h unfolding tot_def by (simp add: sum.remove [of "{..<n}" h])
qed

lemma tot_new: "tot w (Suc n) (cur(n := p)) (f(n := x)) q = tot w n cur f q + int (w p x q)"
  by (simp add: tot_def)

lemma tot_ge: "h < n \<Longrightarrow> int (w (cur h) (f h) p) \<le> tot w n cur f p"
  unfolding tot_def by (rule member_le_sum [of h "{..<n}" "\<lambda>i. int (w (cur i) (f i) p)"]) simp_all

lemma tot_ge2: "h < n \<Longrightarrow> i < n \<Longrightarrow> h \<noteq> i \<Longrightarrow> int (w (cur h) (f h) p) + int (w (cur i) (f i) p) \<le> tot w n cur f p"
proof -
  assume a: "h < n" "i < n" "h \<noteq> i"
  have "int (w (cur i) (f i) p) \<le> (\<Sum>j\<in>{..<n} - {h}. int (w (cur j) (f j) p))"
    using a by (intro member_le_sum [of i "{..<n} - {h}" "\<lambda>j. int (w (cur j) (f j) p)"]) simp_all
  then show ?thesis using a(1) unfolding tot_def by (simp add: sum.remove [of "{..<n}" h])
qed

lemma tot_pos: "0 < tot w n cur f p \<Longrightarrow> \<exists>h<n. 0 < w (cur h) (f h) p"
proof (rule ccontr)
  assume "0 < tot w n cur f p" "\<not> (\<exists>h<n. 0 < w (cur h) (f h) p)"
  then show False unfolding tot_def by (simp add: sum.neutral)
qed

lemma tot_nonneg [simp]: "0 \<le> tot w n cur f p"
  unfolding tot_def by (simp add: sum_nonneg)

section \<open>The aspects of the invariant\<close>

text \<open>A thread is alive until its exit drops its reference, and attached to its object until it marks it as terminated.\<close>

fun exiting :: "pc \<Rightarrow> bool" where
  "exiting (PCollect0 p a) = (a = None)"
| "exiting (PCollect1 p a) = (a = None)"
| "exiting (PCollect2 p a) = (a = None)"
| "exiting (PCollect3 p a) = (a = None)"
| "exiting PExit1 = True"
| "exiting x = False"

fun alive :: "pc \<Rightarrow> bool" where
  "alive (PCollect0 p a) = (a \<noteq> None)"
| "alive (PCollect1 p a) = (a \<noteq> None)"
| "alive (PCollect2 p a) = (a \<noteq> None)"
| "alive (PCollect3 p a) = (a \<noteq> None)"
| "alive PExit1 = False"
| "alive PExit2 = False"
| "alive PGone = False"
| "alive x = True"

fun attached :: "pc \<Rightarrow> bool" where
  "attached PExit2 = False"
| "attached PGone = False"
| "attached x = True"

lemma attached_iff: "attached x \<longleftrightarrow> alive x \<or> exiting x"
  by (cases x) auto

text \<open>The object that the next steps of the host access.\<close>

fun uses :: "pc \<Rightarrow> obj set" where
  "uses (PFound p dead k) = {p}"
| "uses (PHave p k) = {p}"
| "uses (PJoin1 p t) = {p}"
| "uses (PJoinWait p t) = {p}"
| "uses (PJoin3 p t) = {p}"
| "uses (PJoin4 p) = {p}"
| "uses (PBack1 p c) = {p}"
| "uses (PBack2 p c) = {p}"
| "uses (PRef p) = {p}"
| "uses (PCollect0 p a) = {p}"
| "uses (PCollect1 p a) = {p}"
| "uses (PCollect2 p a) = {p}"
| "uses (PNewStart p) = {p}"
| "uses x = {}"

fun joining :: "pc \<Rightarrow> obj \<Rightarrow> bool" where
  "joining (PJoin1 p t) q = (p = q)"
| "joining (PJoinWait p t) q = (p = q)"
| "joining (PJoin3 p t) q = (p = q)"
| "joining (PJoin4 p) q = (p = q)"
| "joining (PBack1 p c) q = (p = q)"
| "joining (PBack2 p c) q = (p = q)"
| "joining x q = False"

fun holding :: "pc \<Rightarrow> obj \<Rightarrow> bool" where
  "holding (PHave p k) q = (p = q)"
| "holding (PJoin1 p t) q = (p = q)"
| "holding (PCollect0 p a) q = (p = q)"
| "holding x q = False"

fun in_list :: "pc \<Rightarrow> bool" where
  "in_list (PFound p d k) = True"
| "in_list (PCollect2 p a) = True"
| "in_list x = False"

text \<open>Objects that a creating thread has taken from the lists and not yet linked.\<close>

fun held :: "pc \<Rightarrow> obj list" where
  "held (PNewFree ps d) = ps"
| "held (PNewInit p d) = [p]"
| "held (PNewLink p) = [p]"
| "held x = []"

fun op_ref :: "pc \<Rightarrow> obj \<Rightarrow> bool" where
  "op_ref (PRef p) q = (p = q)"
| "op_ref (PCollect1 p a) q = (p = q)"
| "op_ref (PCollect2 p a) q = (p = q)"
| "op_ref (PNewStart p) q = (p = q)"
| "op_ref x q = False"

definition w_own :: "obj \<Rightarrow> pc \<Rightarrow> obj \<Rightarrow> nat" where
  "w_own c x p = (if attached x \<and> c = p \<and> p \<noteq> 0 then 1 else 0) + (if x = PNewStart p then 1 else 0)"

definition w_ref :: "obj \<Rightarrow> pc \<Rightarrow> obj \<Rightarrow> nat" where
  "w_ref c x p = (if alive x \<and> c = p \<and> p \<noteq> 0 then 1 else 0) + (if op_ref x p then 1 else 0)"

definition w_held :: "obj \<Rightarrow> pc \<Rightarrow> obj \<Rightarrow> nat" where
  "w_held c x p = count_list (held x) p"

definition w_join :: "obj \<Rightarrow> pc \<Rightarrow> obj \<Rightarrow> nat" where
  "w_join c x p = (if joining x p then 1 else 0)"

abbreviation hosts_tot :: "(obj \<Rightarrow> pc \<Rightarrow> obj \<Rightarrow> nat) \<Rightarrow> ThreadState \<Rightarrow> obj \<Rightarrow> int" where
  "hosts_tot w s \<equiv> tot w (ts_hosts s) (ts_cur s) (ts_pc s)"

definition inv_places :: "obj list \<Rightarrow> ThreadState \<Rightarrow> bool" where
  "inv_places hp s \<longleftrightarrow> (\<forall>p. int (count_list (ts_heap s) p) + int (count_list (free_threads s) p) + int (count_list (gc_list s) p) +
     hosts_tot w_held s p + (if p \<in> threads s then 1 else 0) = int (count_list hp p))"

definition inv_uses :: "ThreadState \<Rightarrow> bool" where
  "inv_uses s \<longleftrightarrow> (\<forall>h. uses (ts_pc s h) \<subseteq> threads s)"

definition inv_own :: "ThreadState \<Rightarrow> bool" where
  "inv_own s \<longleftrightarrow> (\<forall>p. hosts_tot w_own s p \<le> 1 \<and> (0 < hosts_tot w_own s p \<longrightarrow> (p \<in> threads s \<or> p \<in> set (gc_list s)) \<and> td_tid (ts_obj s p) \<noteq> TidTerminated))"

definition inv_ref :: "ThreadState \<Rightarrow> bool" where
  "inv_ref s \<longleftrightarrow> (\<forall>p\<in>threads s. td_refcount (ts_obj s p) = hosts_tot w_ref s p)"

definition inv_locks :: "ThreadState \<Rightarrow> bool" where
  "inv_locks s \<longleftrightarrow> (\<forall>h p. holding (ts_pc s h) p \<longrightarrow> td_lock (ts_obj s p) = Some h) \<and> (\<forall>h. in_list (ts_pc s h) \<longrightarrow> thread_list_lock s = Some h)"

definition inv_join :: "ThreadState \<Rightarrow> bool" where
  "inv_join s \<longleftrightarrow> (\<forall>p. hosts_tot w_join s p \<le> (if td_joiner (ts_obj s p) = None then 0 else 1) \<and> (0 < hosts_tot w_join s p \<longrightarrow> \<not> td_detached (ts_obj s p)))"

definition inv_gc :: "ThreadState \<Rightarrow> bool" where
  "inv_gc s \<longleftrightarrow> (\<forall>p\<in>set (gc_list s). td_dead (ts_obj s p) \<and> td_detached (ts_obj s p) \<and> td_refcount (ts_obj s p) = 0)"

fun needs_cur :: "pc \<Rightarrow> bool" where
  "needs_cur (PFind p d k) = (\<exists>t. k = KJoin t)"
| "needs_cur (PFound p d k) = (\<exists>t. k = KJoin t)"
| "needs_cur (PHave p k) = (\<exists>t. k = KJoin t)"
| "needs_cur (PJoin1 p t) = True"
| "needs_cur (PJoinWait p t) = True"
| "needs_cur (PJoin3 p t) = True"
| "needs_cur (PJoin4 p) = True"
| "needs_cur (PBack1 p c) = True"
| "needs_cur (PBack2 p c) = True"
| "needs_cur PExit0 = True"
| "needs_cur x = exiting x"

fun finished_join :: "pc \<Rightarrow> obj \<Rightarrow> bool" where
  "finished_join (PJoin3 p t) q = (p = q \<and> \<not> t)"
| "finished_join (PJoin4 p) q = (p = q)"
| "finished_join x q = False"

fun collects_self :: "pc \<Rightarrow> obj \<Rightarrow> bool" where
  "collects_self (PCollect0 p a) c = (a = None \<longrightarrow> p = c)"
| "collects_self (PCollect1 p a) c = (a = None \<longrightarrow> p = c)"
| "collects_self (PCollect2 p a) c = (a = None \<longrightarrow> p = c)"
| "collects_self (PCollect3 p a) c = (a = None \<longrightarrow> p = c)"
| "collects_self x c = True"

definition inv_host :: "ThreadState \<Rightarrow> bool" where
  "inv_host s \<longleftrightarrow> 1 \<le> TidCounter s \<and> (\<forall>h. ts_hosts s \<le> h \<longrightarrow> ts_pc s h = PGone) \<and>
     (\<forall>h. (needs_cur (ts_pc s h) \<longrightarrow> ts_cur s h \<noteq> 0) \<and> collects_self (ts_pc s h) (ts_cur s h))"

text \<open>Which threads are dead or terminated.\<close>

definition inv_dead :: "ThreadState \<Rightarrow> bool" where
  "inv_dead s \<longleftrightarrow> (\<forall>h. (alive (ts_pc s h) \<and> ts_cur s h \<noteq> 0 \<longrightarrow> \<not> td_dead (ts_obj s (ts_cur s h))) \<and>
     (exiting (ts_pc s h) \<longrightarrow> td_dead (ts_obj s (ts_cur s h))) \<and>
     (\<forall>p. ts_pc s h = PNewStart p \<or> ts_pc s h = PNewLink p \<longrightarrow> \<not> td_dead (ts_obj s p)) \<and>
     (\<forall>p. ts_pc s h = PNewLink p \<longrightarrow> td_tid (ts_obj s p) \<noteq> TidTerminated \<and> td_refcount (ts_obj s p) = 1) \<and>
     (\<forall>p. finished_join (ts_pc s h) p \<longrightarrow> td_tid (ts_obj s p) = TidTerminated)) \<and>
     (\<forall>p\<in>threads s. td_tid (ts_obj s p) = TidTerminated \<longrightarrow> td_dead (ts_obj s p))"

definition lc_inv :: "obj list \<Rightarrow> ThreadState \<Rightarrow> bool" where
  "lc_inv hp s \<longleftrightarrow> inv_places hp s \<and> inv_uses s \<and> inv_own s \<and> inv_ref s \<and> inv_locks s \<and> inv_join s \<and> inv_gc s \<and> inv_host s \<and> inv_dead s"

lemma lc_invD:
  assumes "lc_inv hp s"
  shows "inv_places hp s" "inv_uses s" "inv_own s" "inv_ref s" "inv_locks s" "inv_join s" "inv_gc s" "inv_host s" "inv_dead s"
  using assms by (simp_all add: lc_inv_def)

text \<open>The heap of thread objects has no object twice and not the null pointer.\<close>

definition heap_ok :: "obj list \<Rightarrow> bool" where
  "heap_ok hp \<longleftrightarrow> distinct hp \<and> 0 \<notin> set hp"

section \<open>Consequences\<close>

lemma move_host: "inv_host s \<Longrightarrow> move (ts_pc s h) h c s = Some s' \<Longrightarrow> h < ts_hosts s"
proof (rule ccontr)
  assume a: "inv_host s" "move (ts_pc s h) h c s = Some s'" "\<not> h < ts_hosts s"
  then have "ts_pc s h = PGone" unfolding inv_host_def by simp
  then show False using a(2) by simp
qed

lemma host_bound: "inv_host s \<Longrightarrow> ts_pc s h \<noteq> PGone \<Longrightarrow> h < ts_hosts s"
  unfolding inv_host_def by (meson linorder_not_less)

lemma place_once:
  assumes "inv_places hp s" "heap_ok hp" "p \<in> threads s"
  shows "p \<noteq> 0" "p \<notin> set (ts_heap s)" "p \<notin> set (free_threads s)" "p \<notin> set (gc_list s)" "hosts_tot w_held s p = 0"
proof -
  have le: "int (count_list (ts_heap s) p) + int (count_list (free_threads s) p) + int (count_list (gc_list s) p) + hosts_tot w_held s p + 1
      = int (count_list hp p)"
    using assms(1,3) unfolding inv_places_def by (metis (full_types))
  moreover have "count_list hp p \<le> 1" using assms(2) by (simp add: heap_ok_def count_list_distinct)
  moreover have "0 \<le> hosts_tot w_held s p" by simp
  ultimately have z: "count_list (ts_heap s) p = 0" "count_list (free_threads s) p = 0" "count_list (gc_list s) p = 0" "hosts_tot w_held s p = 0" "count_list hp p = 1"
    by linarith+
  then show "p \<notin> set (ts_heap s)" "p \<notin> set (free_threads s)" "p \<notin> set (gc_list s)" "hosts_tot w_held s p = 0"
    by (simp_all add: count_list_0_iff)
  show "p \<noteq> 0" using z(5) assms(2) unfolding heap_ok_def by (metis count_notin zero_neq_one)
qed

lemma uses_cases: "p \<in> uses x \<Longrightarrow> holding x p \<or> joining x p \<or> op_ref x p \<or> in_list x"
  by (cases x) auto

lemma no_ref_outside:
  assumes "inv_uses s" "inv_own s" "inv_gc s" "inv_dead s" "p \<notin> threads s"
  shows "hosts_tot w_ref s p = 0"
proof (rule ccontr)
  assume "hosts_tot w_ref s p \<noteq> 0"
  then have "0 < hosts_tot w_ref s p" using tot_nonneg [of w_ref "ts_hosts s" "ts_cur s" "ts_pc s" p] by linarith
  then obtain h where h: "h < ts_hosts s" "0 < w_ref (ts_cur s h) (ts_pc s h) p" using tot_pos by blast
  have "\<not> op_ref (ts_pc s h) p"
  proof
    assume "op_ref (ts_pc s h) p"
    then have "p \<in> uses (ts_pc s h)" by (cases "ts_pc s h") auto
    then show False using assms(1,5) unfolding inv_uses_def by blast
  qed
  then have a: "alive (ts_pc s h)" "ts_cur s h = p" "p \<noteq> 0" using h(2) by (auto simp: w_ref_def split: if_splits)
  then have "0 < w_own (ts_cur s h) (ts_pc s h) p" by (simp add: w_own_def attached_iff)
  then have "0 < hosts_tot w_own s p" using tot_ge [OF h(1), of w_own "ts_cur s" "ts_pc s" p] by linarith
  then have "p \<in> set (gc_list s)" using assms(2,5) unfolding inv_own_def by blast
  then have "td_dead (ts_obj s p)" using assms(3) unfolding inv_gc_def by blast
  then show False using assms(4) a unfolding inv_dead_def by blast
qed

lemma no_join_outside: "inv_uses s \<Longrightarrow> p \<notin> threads s \<Longrightarrow> hosts_tot w_join s p = 0"
proof (rule ccontr)
  assume a: "inv_uses s" "p \<notin> threads s" "hosts_tot w_join s p \<noteq> 0"
  then have "0 < hosts_tot w_join s p" using tot_nonneg [of w_join "ts_hosts s" "ts_cur s" "ts_pc s" p] by linarith
  then obtain h where "0 < w_join (ts_cur s h) (ts_pc s h) p" using tot_pos by blast
  then have "p \<in> uses (ts_pc s h)" by (cases "ts_pc s h") (auto simp: w_join_def split: if_splits)
  then show False using a(1,2) unfolding inv_uses_def by blast
qed

lemma inv_own_split:
  "inv_own s \<Longrightarrow> inv_gc s \<Longrightarrow> inv_dead s \<Longrightarrow> h < ts_hosts s \<Longrightarrow> alive (ts_pc s h) \<Longrightarrow> ts_cur s h \<noteq> 0 \<Longrightarrow>
    ts_cur s h \<in> threads s \<and> \<not> td_dead (ts_obj s (ts_cur s h))"
proof -
  assume a: "inv_own s" "inv_gc s" "inv_dead s" "h < ts_hosts s" "alive (ts_pc s h)" "ts_cur s h \<noteq> 0"
  have "0 < w_own (ts_cur s h) (ts_pc s h) (ts_cur s h)" using a(5,6) by (simp add: w_own_def attached_iff)
  then have "0 < hosts_tot w_own s (ts_cur s h)" using tot_ge [OF a(4), of w_own "ts_cur s" "ts_pc s" "ts_cur s h"] by linarith
  then have "ts_cur s h \<in> threads s \<or> ts_cur s h \<in> set (gc_list s)" using a(1) unfolding inv_own_def by blast
  then show ?thesis using a(2,3,5,6) unfolding inv_gc_def inv_dead_def by blast
qed

text \<open>An object that is collected is used by no other host.\<close>

lemma collect_alone:
  assumes inv: "lc_inv hp s" and pc: "ts_pc s h = PCollect2 p a" and lock: "td_lock (ts_obj s p) = None"
    and dead: "td_refcount (ts_obj s p) = 1" "td_dead (ts_obj s p)" "td_detached (ts_obj s p)" and other: "h' \<noteq> h"
  shows "p \<notin> uses (ts_pc s h')"
proof
  assume u: "p \<in> uses (ts_pc s h')"
  note i = lc_invD [OF inv]
  have p: "p \<in> threads s" using i(2) u unfolding inv_uses_def by blast
  have "ts_pc s h' \<noteq> PGone" using u by auto
  then have h: "h < ts_hosts s" "h' < ts_hosts s" using host_bound [OF i(8)] pc by auto
  consider "holding (ts_pc s h') p" | "joining (ts_pc s h') p" | "op_ref (ts_pc s h') p" | "in_list (ts_pc s h')"
    using uses_cases [OF u] by blast
  then show False
  proof cases
    case 1
    then show False using i(5) lock unfolding inv_locks_def by (metis option.distinct(1))
  next
    case 2
    then have "0 < w_join (ts_cur s h') (ts_pc s h') p" by (simp add: w_join_def)
    then have "0 < hosts_tot w_join s p" using tot_ge [OF h(2), of w_join "ts_cur s" "ts_pc s" p] by linarith
    then show False using i(6) dead(3) unfolding inv_join_def by blast
  next
    case 3
    then have "1 \<le> w_ref (ts_cur s h') (ts_pc s h') p" by (simp add: w_ref_def)
    moreover have "1 \<le> w_ref (ts_cur s h) (ts_pc s h) p" using pc by (simp add: w_ref_def)
    ultimately have "2 \<le> hosts_tot w_ref s p" using tot_ge2 [OF h other [symmetric], of w_ref "ts_cur s" "ts_pc s" p] by linarith
    then show False using i(4) dead(1) p unfolding inv_ref_def by fastforce
  next
    case 4
    then show False using i(5) pc other unfolding inv_locks_def by (metis in_list.simps(2) option.inject)
  qed
qed

section \<open>Preservation\<close>

lemma guarded: "Option.bind (if b then Some x else None) f = (if b then f x else None)" "map_option g (if b then Some x else None) = (if b then Some (g x) else None)"
  by simp_all

lemmas step_simps = lock_defs idle_step_def have_step_def Let_def guarded

lemmas step_splits = if_splits option.splits list.splits choice.splits kont.splits

text \<open>A step changes the control point of its host only, but for the start of a new host.\<close>

lemma move_frame:
  assumes "move x h c s = Some s'" "\<And>p. x \<noteq> PNewStart p"
  shows "ts_hosts s' = ts_hosts s \<and> ts_cur s' = ts_cur s \<and> ts_gen s' = ts_gen s \<and> ts_pc s' = (ts_pc s)(h := ts_pc s' h)"
proof (cases x)
  case (PIdle r)
  then show ?thesis using assms(1) by (cases c) (auto simp: step_simps split: if_splits)
next
  case (PHave p k)
  then show ?thesis using assms(1) by (cases k) (auto simp: step_simps split: if_splits)
qed (use assms in \<open>auto simp: step_simps split: if_splits option.splits list.splits\<close>)

lemma move_start:
  assumes "move (PNewStart p) h c s = Some s'" "h < ts_hosts s"
  shows "ts_hosts s' = Suc (ts_hosts s)" "ts_cur s' = (ts_cur s)(ts_hosts s := p)"
    "ts_pc s' = (ts_pc s)(h := PIdle (Some (Inr p)), ts_hosts s := PIdle None)"
    "ts_obj s' = ts_obj s" "threads s' = threads s" "gc_list s' = gc_list s" "thread_list_lock s' = thread_list_lock s" "TidCounter s' = TidCounter s"
  using assms by (auto simp: fun_upd_twist)

lemma move_pc:
  assumes "move x h c s = Some s'" "needs_cur x \<longrightarrow> ts_cur s h \<noteq> 0" "collects_self x (ts_cur s h)"
  shows "(needs_cur (ts_pc s' h) \<longrightarrow> ts_cur s h \<noteq> 0) \<and> collects_self (ts_pc s' h) (ts_cur s h) \<and> TidCounter s \<le> TidCounter s'"
  using assms by (cases x) (auto simp: step_simps split: step_splits)

text \<open>What a step does to one object.\<close>

lemma step_tid: "move x h c s = Some s' \<Longrightarrow> p \<notin> set (held x) \<Longrightarrow>
    td_tid (ts_obj s' p) = (if x = PExit1 \<and> p = ts_cur s h then TidTerminated else td_tid (ts_obj s p))"
  by (cases x) (auto simp: step_simps split: step_splits)

lemma step_dead: "move x h c s = Some s' \<Longrightarrow> p \<notin> set (held x) \<Longrightarrow>
    td_dead (ts_obj s' p) = (td_dead (ts_obj s p) \<or> x = PExit0 \<and> p = ts_cur s h)"
  by (cases x) (auto simp: step_simps split: step_splits)

lemma step_ref: "move x h c s = Some s' \<Longrightarrow> p \<notin> set (held x) \<Longrightarrow> p \<noteq> 0 \<Longrightarrow> (\<And>p. x \<noteq> PNewStart p \<and> x \<noteq> PNewLink p) \<Longrightarrow>
    td_refcount (ts_obj s' p) = td_refcount (ts_obj s p) + int (w_ref (ts_cur s h) (ts_pc s' h) p) - int (w_ref (ts_cur s h) x p)"
  by (cases x) (simp_all add: step_simps w_ref_def split: step_splits, auto?)

lemma step_refcount_other: "move x h c s = Some s' \<Longrightarrow> p \<notin> set (held x) \<Longrightarrow> p \<notin> uses x \<Longrightarrow> \<not> (x = PExit0 \<and> p = ts_cur s h) \<Longrightarrow>
    td_refcount (ts_obj s' p) = td_refcount (ts_obj s p)"
  by (cases x) (auto simp: step_simps split: step_splits)

lemma step_threads: "move x h c s = Some s' \<Longrightarrow> p \<in> threads s' \<Longrightarrow> p \<in> threads s \<or> x = PNewLink p"
  by (cases x) (auto simp: step_simps split: step_splits)

lemma step_collected: "move x h c s = Some s' \<Longrightarrow> p \<in> set (gc_list s') \<Longrightarrow> p \<notin> set (gc_list s) \<Longrightarrow>
    td_dead (ts_obj s' p) \<and> td_detached (ts_obj s' p) \<and> td_refcount (ts_obj s' p) = 0"
  by (cases x) (auto simp: step_simps ShouldCollect_def split: step_splits)

lemma step_detached: "move x h c s = Some s' \<Longrightarrow> p \<notin> set (held x) \<Longrightarrow> p \<notin> uses x \<Longrightarrow> td_detached (ts_obj s' p) = td_detached (ts_obj s p)"
  by (cases x) (auto simp: step_simps split: step_splits)

lemma step_lock: "move x h c s = Some s' \<Longrightarrow> p \<notin> set (held x) \<Longrightarrow> td_lock (ts_obj s p) = Some i \<Longrightarrow> i \<noteq> h \<Longrightarrow>
    (\<forall>q. holding x q \<longrightarrow> td_lock (ts_obj s q) = Some h) \<Longrightarrow> td_lock (ts_obj s' p) = Some i"
  by (cases x) (auto simp: step_simps split: step_splits)

lemma step_holding: "move x h c s = Some s' \<Longrightarrow> (\<forall>q. holding x q \<longrightarrow> td_lock (ts_obj s q) = Some h) \<Longrightarrow> holding (ts_pc s' h) p \<Longrightarrow>
    td_lock (ts_obj s' p) = Some h"
  by (cases x) (auto simp: step_simps split: step_splits)

lemma step_list: "move x h c s = Some s' \<Longrightarrow> (in_list x \<longrightarrow> thread_list_lock s = Some h) \<Longrightarrow>
    (in_list (ts_pc s' h) \<longrightarrow> thread_list_lock s' = Some h) \<and> (\<forall>i. i \<noteq> h \<longrightarrow> thread_list_lock s = Some i \<longrightarrow> thread_list_lock s' = Some i)"
  by (cases x) (auto simp: step_simps split: step_splits)

lemma step_attached: "move x h c s = Some s' \<Longrightarrow> attached (ts_pc s' h) \<Longrightarrow> attached x"
  by (cases x) (auto split: if_splits)

lemma step_starting: "move x h c s = Some s' \<Longrightarrow> ts_pc s' h = PNewStart p \<Longrightarrow> x = PNewLink p"
  by (cases x) (auto simp: step_simps split: step_splits)

lemma step_own: "move x h c s = Some s' \<Longrightarrow> (\<And>p. x \<noteq> PNewStart p \<and> x \<noteq> PNewLink p) \<Longrightarrow>
    w_own (ts_cur s h) (ts_pc s' h) p \<le> w_own (ts_cur s h) x p"
  using step_attached [of x h c s s'] step_starting [of x h c s s' p] by (auto simp: w_own_def)

lemma step_registered: "move x h c s = Some s' \<Longrightarrow> p \<in> threads s \<or> p \<in> set (gc_list s) \<Longrightarrow> td_tid (ts_obj s p) \<noteq> TidTerminated \<Longrightarrow>
    p \<in> threads s' \<or> p \<in> set (gc_list s')"
  by (cases x) (auto simp: step_simps split: step_splits)

lemma step_new: "move x h c s = Some s' \<Longrightarrow> p \<in> set (held x) \<Longrightarrow> (\<And>d. x \<noteq> PNewInit p d) \<Longrightarrow> p \<noteq> ts_cur s h \<Longrightarrow>
    td_tid (ts_obj s' p) = td_tid (ts_obj s p) \<and> td_dead (ts_obj s' p) = td_dead (ts_obj s p) \<and> td_refcount (ts_obj s' p) = td_refcount (ts_obj s p)"
  by (cases x) (auto simp: step_simps split: step_splits)

lemma step_join: "move x h c s = Some s' \<Longrightarrow> p \<notin> set (held x) \<Longrightarrow>
    w_join (ts_cur s h) (ts_pc s' h) p = w_join (ts_cur s h) x p \<and> td_joiner (ts_obj s' p) = td_joiner (ts_obj s p) \<and>
      (td_detached (ts_obj s' p) = td_detached (ts_obj s p) \<or> td_joiner (ts_obj s p) = None) \<or>
    w_join (ts_cur s h) (ts_pc s' h) p = 1 \<and> w_join (ts_cur s h) x p = 0 \<and> td_joiner (ts_obj s p) = None \<and> td_joiner (ts_obj s' p) \<noteq> None \<and>
      \<not> td_detached (ts_obj s' p) \<or>
    w_join (ts_cur s h) (ts_pc s' h) p = 0 \<and> w_join (ts_cur s h) x p = 1"
  by (cases x) (auto simp: step_simps w_join_def split: step_splits)

lemma count_filter_split: "count_list (filter P xs) p + count_list (filter (\<lambda>x. \<not> P x) xs) p = count_list xs p"
  by (induction xs) auto

lemma count_butlast: "xs \<noteq> [] \<Longrightarrow> count_list (butlast xs) p + (if last xs = p then 1 else 0) = count_list xs p"
  by (induction xs rule: rev_induct) auto

text \<open>The steps that move objects between the lists.\<close>

fun moves_objects :: "pc \<Rightarrow> bool" where
  "moves_objects (PCollect2 p a) = True"
| "moves_objects (PNewCollect d) = True"
| "moves_objects (PNewFree ps d) = True"
| "moves_objects (PNewAlloc d) = True"
| "moves_objects (PNewInit p d) = True"
| "moves_objects (PNewLink p) = True"
| "moves_objects x = False"

lemma step_lists: "move x h c s = Some s' \<Longrightarrow> \<not> moves_objects x \<Longrightarrow>
    ts_heap s' = ts_heap s \<and> free_threads s' = free_threads s \<and> gc_list s' = gc_list s \<and> threads s' = threads s \<and> held (ts_pc s' h) = [] \<and> held x = []"
  by (cases x) (auto simp: step_simps split: step_splits)

definition place_count :: "ThreadState \<Rightarrow> pc \<Rightarrow> obj \<Rightarrow> nat" where
  "place_count s x p = count_list (ts_heap s) p + count_list (free_threads s) p + count_list (gc_list s) p + count_list (held x) p +
     (if p \<in> threads s then 1 else 0)"

lemma step_places:
  assumes move: "move x h c s = Some s'" and u: "uses x \<subseteq> threads s" and l: "\<forall>q. x = PNewLink q \<longrightarrow> q \<notin> threads s"
  shows "place_count s' (ts_pc s' h) p = place_count s x p"
proof (cases "moves_objects x")
  case False
  then show ?thesis using step_lists [OF move] by (simp add: place_count_def)
next
  case True
  then show ?thesis
  proof (cases x)
    case (PNewAlloc d)
    then show ?thesis using move count_butlast [of "free_threads s" p] by (auto simp: place_count_def split: if_splits list.splits)
  next
    case (PNewCollect d)
    then show ?thesis
      using move count_filter_split [of "\<lambda>q. td_tid (ts_obj s q) = TidTerminated" "gc_list s" p] by (auto simp: place_count_def step_simps split: if_splits)
  next
    case (PNewLink q)
    then show ?thesis using move l by (auto simp: place_count_def step_simps split: if_splits)
  next
    case (PCollect2 q a)
    then show ?thesis using move u by (auto simp: place_count_def step_simps split: if_splits)
  next
    case (PNewFree ps d)
    then show ?thesis using move by (auto simp: place_count_def split: if_splits list.splits)
  next
    case (PNewInit q d)
    then show ?thesis using move by (auto simp: place_count_def split: if_splits)
  qed simp_all
qed

end
