(* ===== verification/Thread_Safety.thy ===== *)
theory Thread_Safety
  imports Thread_Invariant
begin

text \<open>
  Every aspect of the invariant of \<open>Thread_Invariant\<close> is preserved by every step, and what follows for the threads: the theorems about the
  life of the thread objects, and the schedules on which the code fails.
\<close>

section \<open>Sums and objects after a step\<close>

text \<open>The sums over the hosts after a step.\<close>

lemma tot_step:
  assumes "move (ts_pc s h) h c s = Some s'" "h < ts_hosts s" "\<And>p. ts_pc s h \<noteq> PNewStart p"
  shows "hosts_tot w s' p = hosts_tot w s p + int (w (ts_cur s h) (ts_pc s' h) p) - int (w (ts_cur s h) (ts_pc s h) p)"
proof -
  note f = move_frame [OF assms(1,3)]
  have "hosts_tot w s' p = tot w (ts_hosts s) (ts_cur s) ((ts_pc s)(h := ts_pc s' h)) p" using f by metis
  then show ?thesis using tot_upd [OF assms(2)] by simp
qed

lemma tot_start:
  assumes "move (ts_pc s h) h c s = Some s'" "h < ts_hosts s" "ts_pc s h = PNewStart q"
  shows "hosts_tot w s' p = hosts_tot w s p + int (w (ts_cur s h) (PIdle (Some (Inr q))) p) - int (w (ts_cur s h) (PNewStart q) p) + int (w q (PIdle None) p)"
proof -
  note f = move_start [OF assms(1) [unfolded assms(3)] assms(2)]
  show ?thesis unfolding f(1-3) tot_new using tot_upd [OF assms(2)] assms(3) by simp
qed

lemma other_pc: "move (ts_pc s h) h c s = Some s' \<Longrightarrow> h < ts_hosts s \<Longrightarrow> i \<noteq> h \<Longrightarrow> i < ts_hosts s \<Longrightarrow> ts_pc s' i = ts_pc s i \<and> ts_cur s' i = ts_cur s i"
  using move_frame [of "ts_pc s h" h c s s'] move_start [of _ h c s s']
  by (cases "\<exists>p. ts_pc s h = PNewStart p") (metis fun_upd_apply order_less_irrefl)+

lemma fresh_pc: "inv_host s \<Longrightarrow> move (ts_pc s h) h c s = Some s' \<Longrightarrow> ts_hosts s \<le> i \<Longrightarrow> ts_pc s' i = PGone \<or> ts_pc s' i = PIdle None"
proof -
  assume a: "inv_host s" "move (ts_pc s h) h c s = Some s'" "ts_hosts s \<le> i"
  have h: "h < ts_hosts s" by (rule move_host [OF a(1,2)])
  have g: "ts_pc s i = PGone" "i \<noteq> h" using a(1,3) h unfolding inv_host_def by auto
  show ?thesis
  proof (cases "\<exists>p. ts_pc s h = PNewStart p")
    case True
    then obtain p where p: "ts_pc s h = PNewStart p" by blast
    show ?thesis using move_start(3) [OF a(2) [unfolded p] h] g by simp
  next
    case False
    then show ?thesis using move_frame [OF a(2)] g by (metis fun_upd_other)
  qed
qed

lemma holding_uses: "holding x p \<Longrightarrow> p \<in> uses x"
  by (cases x) auto

text \<open>An object that a creating thread holds is in no list and belongs to nobody.\<close>

lemma held_out:
  assumes inv: "lc_inv hp s" and hp: "heap_ok hp" and p: "p \<in> set (held (ts_pc s h))"
  shows "p \<notin> threads s" "p \<notin> set (gc_list s)" "p \<noteq> 0" "i \<noteq> h \<Longrightarrow> p \<notin> set (held (ts_pc s i))" "hosts_tot w_own s p = 0"
    "needs_cur (ts_pc s h) \<Longrightarrow> p \<noteq> ts_cur s h"
proof -
  note i = lc_invD [OF inv]
  have h: "h < ts_hosts s" by (rule host_bound [OF i(8)]) (use p in auto)
  have c: "0 < count_list (held (ts_pc s h)) p" using p by (metis count_list_0_iff gr0I)
  then have t: "1 \<le> hosts_tot w_held s p" using tot_ge [OF h, of w_held "ts_cur s" "ts_pc s" p] by (simp add: w_held_def)
  have sum: "int (count_list (ts_heap s) p) + int (count_list (free_threads s) p) + int (count_list (gc_list s) p) + hosts_tot w_held s p +
      (if p \<in> threads s then 1 else 0) = int (count_list hp p)"
    using i(1) unfolding inv_places_def by blast
  have le: "count_list hp p \<le> 1" "count_list hp p = 1 \<longrightarrow> p \<in> set hp" using hp by (auto simp: heap_ok_def count_list_distinct)
  show th: "p \<notin> threads s" using sum t le(1) by (auto split: if_splits)
  have "count_list (gc_list s) p = 0" using sum t le(1) by (auto split: if_splits)
  then show gc: "p \<notin> set (gc_list s)" by (simp add: count_list_0_iff)
  have "count_list hp p \<noteq> 0" using sum t by (auto split: if_splits)
  then show "p \<noteq> 0" using hp unfolding heap_ok_def by (metis count_notin)
  show "p \<notin> set (held (ts_pc s i))" if "i \<noteq> h"
  proof
    assume "p \<in> set (held (ts_pc s i))"
    then have "0 < count_list (held (ts_pc s i)) p" by (metis count_list_0_iff gr0I)
    moreover have "i < ts_hosts s" by (rule host_bound [OF i(8)]) (use \<open>p \<in> set (held (ts_pc s i))\<close> in auto)
    ultimately have "2 \<le> hosts_tot w_held s p" using c tot_ge2 [OF h _ that [symmetric], of w_held "ts_cur s" "ts_pc s" p] by (simp add: w_held_def)
    then show False using sum le(1) by (auto split: if_splits)
  qed
  show "hosts_tot w_own s p = 0" using i(3) th gc tot_nonneg [of w_own "ts_hosts s" "ts_cur s" "ts_pc s" p] unfolding inv_own_def by (metis order_le_less)
  show "p \<noteq> ts_cur s h" if "needs_cur (ts_pc s h)" using that p by (cases "ts_pc s h") auto
qed

lemma registered_not_held:
  assumes "lc_inv hp s" "heap_ok hp" "p \<in> threads s \<or> p \<in> set (gc_list s)"
  shows "p \<notin> set (held (ts_pc s h))"
  using held_out(1,2) [OF assms(1,2)] assms(3) by blast

section \<open>Preservation\<close>

lemma lc_host_step:
  assumes inv: "lc_inv hp s" and move: "move (ts_pc s h) h c s = Some s'"
  shows "inv_host s'"
proof -
  have i: "1 \<le> TidCounter s" "\<And>i. ts_hosts s \<le> i \<Longrightarrow> ts_pc s i = PGone"
    "\<And>i. (needs_cur (ts_pc s i) \<longrightarrow> ts_cur s i \<noteq> 0) \<and> collects_self (ts_pc s i) (ts_cur s i)"
    using lc_invD(8) [OF inv] unfolding inv_host_def by blast+
  have b: "h < ts_hosts s" by (rule move_host [OF lc_invD(8) [OF inv] move])
  show ?thesis
  proof (cases "\<exists>p. ts_pc s h = PNewStart p")
    case True
    then obtain p where p: "ts_pc s h = PNewStart p" by blast
    note f = move_start [OF move [unfolded p] b]
    show ?thesis unfolding inv_host_def f(1-3) f(8) using i b by auto
  next
    case False
    then have f: "ts_hosts s' = ts_hosts s \<and> ts_cur s' = ts_cur s \<and> ts_gen s' = ts_gen s \<and> ts_pc s' = (ts_pc s)(h := ts_pc s' h)"
      by (intro move_frame [OF move]) blast
    have x: "(needs_cur (ts_pc s' h) \<longrightarrow> ts_cur s h \<noteq> 0) \<and> collects_self (ts_pc s' h) (ts_cur s h) \<and> TidCounter s \<le> TidCounter s'"
      by (rule move_pc [OF move]) (use i(3) [of h] in blast)+
    have "(needs_cur (ts_pc s' j) \<longrightarrow> ts_cur s' j \<noteq> 0) \<and> collects_self (ts_pc s' j) (ts_cur s' j)" for j
    proof (cases "j = h")
      case False
      then have "ts_pc s' j = ts_pc s j" using f by (metis fun_upd_other)
      then show ?thesis using f i(3) [of j] by simp
    qed (use x f in simp)
    moreover have "ts_pc s' j = PGone" if "ts_hosts s' \<le> j" for j
    proof -
      have "j \<noteq> h" using that f b by auto
      then show ?thesis using f i(2) [of j] that by (metis fun_upd_other)
    qed
    ultimately show ?thesis unfolding inv_host_def using x i(1) by auto
  qed
qed

lemma own_registered:
  assumes inv: "lc_inv hp s" and "alive (ts_pc s h)" "ts_cur s h \<noteq> 0" "ts_pc s h \<noteq> PGone"
  shows "ts_cur s h \<in> threads s" "\<not> td_dead (ts_obj s (ts_cur s h))"
  using inv_own_split [OF lc_invD(3,7,9) [OF inv] host_bound [OF lc_invD(8) [OF inv] assms(4)] assms(2,3)] by simp_all

lemma lc_uses_step:
  assumes inv: "lc_inv hp s" and move: "move (ts_pc s h) h c s = Some s'"
  shows "inv_uses s'"
proof -
  have i: "\<forall>i x. x \<in> uses (ts_pc s i) \<longrightarrow> x \<in> threads s" using lc_invD(2) [OF inv] unfolding inv_uses_def by blast
  have "\<forall>i x. x \<in> uses (ts_pc s' i) \<longrightarrow> x \<in> threads s'"
  proof (cases "\<exists>p a. ts_pc s h = PCollect2 p a")
    case True
    then obtain p a where pc: "ts_pc s h = PCollect2 p a" by blast
    have "h' \<noteq> h \<Longrightarrow> ShouldCollect (td_refcount_update (\<lambda>n. n - 1) (ts_obj s p)) \<Longrightarrow> p \<notin> uses (ts_pc s h')" for h'
      using collect_alone [OF inv pc, of h'] move pc by (auto simp: ShouldCollect_def lock_td_def bind_eq_Some_conv split: if_splits)
    then show ?thesis using i move pc by (auto simp: step_simps ShouldCollect_def split: if_splits) 
  next
    case False
    have h: "uses (ts_pc s h) \<subseteq> threads s" using i by blast
    have own: "ts_pc s h = PExit0 \<Longrightarrow> ts_cur s h \<in> threads s"
      using own_registered(1) [OF inv, of h] lc_invD(8) [OF inv] unfolding inv_host_def by simp
    show ?thesis
      using i h own move False by (cases "ts_pc s h") (auto simp: step_simps split: step_splits)
  qed
  then show ?thesis unfolding inv_uses_def by blast
qed

lemma lc_lock_step:
  assumes inv: "lc_inv hp s" and hp: "heap_ok hp" and move: "move (ts_pc s h) h c s = Some s'"
  shows "inv_locks s'"
proof -
  have i: "\<And>i p. holding (ts_pc s i) p \<Longrightarrow> td_lock (ts_obj s p) = Some i" "\<And>i. in_list (ts_pc s i) \<Longrightarrow> thread_list_lock s = Some i"
    using lc_invD(5) [OF inv] unfolding inv_locks_def by blast+
  have b: "h < ts_hosts s" by (rule move_host [OF lc_invD(8) [OF inv] move])
  have hold: "\<forall>q. holding (ts_pc s h) q \<longrightarrow> td_lock (ts_obj s q) = Some h" using i(1) by blast
  have list: "in_list (ts_pc s h) \<longrightarrow> thread_list_lock s = Some h" using i(2) by blast
  note l = step_list [OF move list]
  show ?thesis
    unfolding inv_locks_def
  proof (intro conjI allI impI)
    fix j p
    assume a: "holding (ts_pc s' j) p"
    show "td_lock (ts_obj s' p) = Some j"
    proof (cases "j = h")
      case True
      then show ?thesis using step_holding [OF move hold] a by simp
    next
      case False
      then have "holding (ts_pc s j) p" using other_pc [OF move b False] fresh_pc [OF lc_invD(8) [OF inv] move, of j] a by fastforce
      then have "td_lock (ts_obj s p) = Some j" "p \<in> threads s" using i(1) lc_invD(2) [OF inv] holding_uses unfolding inv_uses_def by blast+
      then show ?thesis using step_lock [OF move registered_not_held [OF inv hp] _ False hold] by blast
    qed
  next
    fix j
    assume a: "in_list (ts_pc s' j)"
    show "thread_list_lock s' = Some j"
    proof (cases "j = h")
      case True
      then show ?thesis using l a by simp
    next
      case False
      then have "in_list (ts_pc s j)" using other_pc [OF move b False] fresh_pc [OF lc_invD(8) [OF inv] move, of j] a by fastforce
      then show ?thesis using l i(2) False by blast
    qed
  qed
qed

lemma lc_places_step:
  assumes inv: "lc_inv hp s" and hp: "heap_ok hp" and move: "move (ts_pc s h) h c s = Some s'"
  shows "inv_places hp s'"
  unfolding inv_places_def
proof
  fix p
  have i: "int (count_list (ts_heap s) p) + int (count_list (free_threads s) p) + int (count_list (gc_list s) p) + hosts_tot w_held s p +
      (if p \<in> threads s then 1 else 0) = int (count_list hp p)"
    using lc_invD(1) [OF inv] unfolding inv_places_def by blast
  have b: "h < ts_hosts s" by (rule move_host [OF lc_invD(8) [OF inv] move])
  show "int (count_list (ts_heap s') p) + int (count_list (free_threads s') p) + int (count_list (gc_list s') p) + hosts_tot w_held s' p +
      (if p \<in> threads s' then 1 else 0) = int (count_list hp p)"
  proof (cases "\<exists>q. ts_pc s h = PNewStart q")
    case True
    then obtain q where q: "ts_pc s h = PNewStart q" by blast
    have "hosts_tot w_held s' p = hosts_tot w_held s p" using tot_start [OF move b q, of w_held p] by (simp add: w_held_def)
    moreover have "ts_heap s' = ts_heap s" "free_threads s' = free_threads s" using move q by auto
    ultimately show ?thesis using i move_start(5,6) [OF move [unfolded q] b] by simp
  next
    case False
    have "uses (ts_pc s h) \<subseteq> threads s" using lc_invD(2) [OF inv] unfolding inv_uses_def by blast
    moreover have "\<forall>q. ts_pc s h = PNewLink q \<longrightarrow> q \<notin> threads s" using held_out(1) [OF inv hp, of _ h] by auto
    ultimately have "place_count s' (ts_pc s' h) p = place_count s (ts_pc s h) p" by (rule step_places [OF move])
    moreover have "hosts_tot w_held s' p = hosts_tot w_held s p + int (w_held (ts_cur s h) (ts_pc s' h) p) - int (w_held (ts_cur s h) (ts_pc s h) p)"
      by (rule tot_step [OF move b]) (use False in blast)
    ultimately show ?thesis using i unfolding place_count_def w_held_def by (auto split: if_splits)
  qed
qed

lemma cur_nonnull: "inv_host s \<Longrightarrow> needs_cur (ts_pc s h) \<Longrightarrow> ts_cur s h \<noteq> 0"
  unfolding inv_host_def by blast

lemma own_out: "inv_own s \<Longrightarrow> p \<notin> threads s \<Longrightarrow> p \<notin> set (gc_list s) \<Longrightarrow> hosts_tot w_own s p = 0"
  unfolding inv_own_def by (metis tot_nonneg order_le_less)

lemma own_attached: "h < ts_hosts s \<Longrightarrow> attached (ts_pc s h) \<Longrightarrow> ts_cur s h \<noteq> 0 \<Longrightarrow> 1 \<le> hosts_tot w_own s (ts_cur s h)"
  using tot_ge [of h "ts_hosts s" w_own "ts_cur s" "ts_pc s" "ts_cur s h"] by (simp add: w_own_def)

lemma lc_own_step:
  assumes inv: "lc_inv hp s" and hp: "heap_ok hp" and move: "move (ts_pc s h) h c s = Some s'"
  shows "inv_own s'"
  unfolding inv_own_def
proof
  fix p
  note i = lc_invD [OF inv]
  have own: "hosts_tot w_own s p \<le> 1" "0 < hosts_tot w_own s p \<Longrightarrow> (p \<in> threads s \<or> p \<in> set (gc_list s)) \<and> td_tid (ts_obj s p) \<noteq> TidTerminated"
    using i(3) unfolding inv_own_def by blast+
  have b: "h < ts_hosts s" by (rule move_host [OF i(8) move])
  show "hosts_tot w_own s' p \<le> 1 \<and> (0 < hosts_tot w_own s' p \<longrightarrow> (p \<in> threads s' \<or> p \<in> set (gc_list s')) \<and> td_tid (ts_obj s' p) \<noteq> TidTerminated)"
  proof (cases "\<exists>q. ts_pc s h = PNewStart q")
    case True
    then obtain q where q: "ts_pc s h = PNewStart q" by blast
    have "q \<in> threads s" using i(2) q unfolding inv_uses_def by (metis insertI1 subsetD uses.simps(13))
    then have "q \<noteq> 0" using place_once(1) [OF i(1) hp] by blast
    then have "hosts_tot w_own s' p = hosts_tot w_own s p" using tot_start [OF move b q, of w_own p] by (auto simp: w_own_def)
    then show ?thesis using own move_start(4-6) [OF move [unfolded q] b] by simp
  next
    case False
    then have t: "hosts_tot w_own s' p = hosts_tot w_own s p + int (w_own (ts_cur s h) (ts_pc s' h) p) - int (w_own (ts_cur s h) (ts_pc s h) p)"
      by (intro tot_step [OF move b]) blast
    show ?thesis
    proof (cases "ts_pc s h = PNewLink p")
      case True
      note o = held_out [OF inv hp, of p h]
      have "hosts_tot w_own s p = 0" "td_tid (ts_obj s p) \<noteq> TidTerminated" using o(5) True i(9) unfolding inv_dead_def by auto
      then show ?thesis using t move True by (auto simp: step_simps w_own_def split: if_splits)
    next
      case other: False
      have "w_own (ts_cur s h) (ts_pc s' h) p \<le> w_own (ts_cur s h) (ts_pc s h) p"
      proof (cases "\<exists>q. ts_pc s h = PNewLink q")
        case True
        then show ?thesis using move other by (auto simp: step_simps w_own_def split: if_splits)
      qed (use step_own [OF move] False in blast)
      then have le: "hosts_tot w_own s' p \<le> hosts_tot w_own s p" using t by linarith
      have "(p \<in> threads s' \<or> p \<in> set (gc_list s')) \<and> td_tid (ts_obj s' p) \<noteq> TidTerminated" if pos: "0 < hosts_tot w_own s' p"
      proof -
        have p: "p \<in> threads s \<or> p \<in> set (gc_list s)" "td_tid (ts_obj s p) \<noteq> TidTerminated" using own(2) pos le by auto
        have "\<not> (ts_pc s h = PExit1 \<and> p = ts_cur s h)"
        proof
          assume e: "ts_pc s h = PExit1 \<and> p = ts_cur s h"
          then have "ts_cur s h \<noteq> 0" by (intro cur_nonnull [OF i(8)]) simp
          then have "hosts_tot w_own s' p = hosts_tot w_own s p - 1" using t e move by (auto simp: w_own_def)
          then show False using pos own(1) by linarith
        qed
        then show ?thesis
          using step_registered [OF move p] step_tid [OF move registered_not_held [OF inv hp p(1)]] p(2) by auto
      qed
      then show ?thesis using le own(1) by linarith
    qed
  qed
qed

text \<open>The object of a thread that is attached is not one that is being created.\<close>

lemma cur_not_held:
  assumes "lc_inv hp s" "heap_ok hp" "attached (ts_pc s h)" "ts_cur s h \<noteq> 0"
  shows "ts_cur s h \<notin> set (held (ts_pc s i))"
proof
  assume a: "ts_cur s h \<in> set (held (ts_pc s i))"
  have "h < ts_hosts s" by (rule host_bound [OF lc_invD(8) [OF assms(1)]]) (use assms(3) in auto)
  then show False using held_out(5) [OF assms(1,2) a] own_attached [OF _ assms(3,4)] by simp
qed

lemma lc_ref_step:
  assumes inv: "lc_inv hp s" and hp: "heap_ok hp" and move: "move (ts_pc s h) h c s = Some s'"
  shows "inv_ref s'"
  unfolding inv_ref_def
proof
  fix p
  assume p': "p \<in> threads s'"
  note i = lc_invD [OF inv]
  have b: "h < ts_hosts s" by (rule move_host [OF i(8) move])
  consider q where "ts_pc s h = PNewStart q" | "ts_pc s h = PNewLink p" | "p \<in> threads s" "\<forall>q. ts_pc s h \<noteq> PNewStart q"
    using step_threads [OF move p'] by blast
  then show "td_refcount (ts_obj s' p) = hosts_tot w_ref s' p"
  proof cases
    case (1 q)
    have "q \<in> threads s" using i(2) 1 unfolding inv_uses_def by (metis insertI1 subsetD uses.simps(13))
    then have "q \<noteq> 0" using place_once(1) [OF i(1) hp] by blast
    then have "hosts_tot w_ref s' p = hosts_tot w_ref s p" using tot_start [OF move b 1, of w_ref p] by (auto simp: w_ref_def)
    then show ?thesis using i(4) p' move_start(4,5) [OF move [unfolded 1] b] unfolding inv_ref_def by simp
  next
    case 2
    have o: "p \<notin> threads s" "p \<noteq> 0" using held_out(1,3) [OF inv hp, of p h] 2 by simp_all
    have "hosts_tot w_ref s' p = hosts_tot w_ref s p + int (w_ref (ts_cur s h) (ts_pc s' h) p) - int (w_ref (ts_cur s h) (ts_pc s h) p)"
      by (rule tot_step [OF move b]) (simp add: 2)
    moreover have "hosts_tot w_ref s p = 0" by (rule no_ref_outside [OF i(2,3,7,9) o(1)])
    moreover have "td_refcount (ts_obj s p) = 1" using i(9) 2 unfolding inv_dead_def by blast
    ultimately show ?thesis using move 2 by (auto simp: step_simps w_ref_def split: if_splits)
  next
    case 3
    have t: "hosts_tot w_ref s' p = hosts_tot w_ref s p + int (w_ref (ts_cur s h) (ts_pc s' h) p) - int (w_ref (ts_cur s h) (ts_pc s h) p)"
      by (rule tot_step [OF move b]) (use 3 in blast)
    have r: "td_refcount (ts_obj s p) = hosts_tot w_ref s p" using i(4) 3 unfolding inv_ref_def by blast
    have p0: "p \<noteq> 0" by (rule place_once(1) [OF i(1) hp 3(1)])
    show ?thesis
    proof (cases "\<exists>q. ts_pc s h = PNewLink q")
      case True
      then obtain q where q: "ts_pc s h = PNewLink q" by blast
      then have "q \<noteq> p" using held_out(1) [OF inv hp, of q h] 3(1) by auto
      then show ?thesis using move q t r by (auto simp: step_simps w_ref_def split: if_splits)
    next
      case False
      then have "\<And>q. ts_pc s h \<noteq> PNewStart q \<and> ts_pc s h \<noteq> PNewLink q" using 3 by blast
      from step_ref [OF move registered_not_held [OF inv hp] p0 this] show ?thesis using t r 3(1) by simp
    qed
  qed
qed

lemma lc_gc_step:
  assumes inv: "lc_inv hp s" and hp: "heap_ok hp" and move: "move (ts_pc s h) h c s = Some s'"
  shows "inv_gc s'"
  unfolding inv_gc_def
proof
  fix p
  assume p': "p \<in> set (gc_list s')"
  note i = lc_invD [OF inv]
  show "td_dead (ts_obj s' p) \<and> td_detached (ts_obj s' p) \<and> td_refcount (ts_obj s' p) = 0"
  proof (cases "p \<in> set (gc_list s)")
    case True
    have gc: "td_dead (ts_obj s p) \<and> td_detached (ts_obj s p) \<and> td_refcount (ts_obj s p) = 0" using i(7) True unfolding inv_gc_def by blast
    have out: "p \<notin> threads s" using place_once(4) [OF i(1) hp, of p] True by blast
    have h: "p \<notin> set (held (ts_pc s h))" by (rule registered_not_held [OF inv hp]) (use True in blast)
    have u: "p \<notin> uses (ts_pc s h)" using i(2) out unfolding inv_uses_def by blast
    have e: "\<not> (ts_pc s h = PExit0 \<and> p = ts_cur s h)"
      using own_registered(1) [OF inv, of h] cur_nonnull [OF i(8), of h] out by auto
    show ?thesis
      using step_dead [OF move h] step_detached [OF move h u] step_refcount_other [OF move h u e] gc by simp
  next
    case False
    then show ?thesis using step_collected [OF move p'] by blast
  qed
qed

lemma lc_join_step:
  assumes inv: "lc_inv hp s" and hp: "heap_ok hp" and move: "move (ts_pc s h) h c s = Some s'"
  shows "inv_join s'"
  unfolding inv_join_def
proof
  fix p
  note i = lc_invD [OF inv]
  have join: "hosts_tot w_join s p \<le> (if td_joiner (ts_obj s p) = None then 0 else 1)" "0 < hosts_tot w_join s p \<Longrightarrow> \<not> td_detached (ts_obj s p)"
    using i(6) unfolding inv_join_def by blast+
  have b: "h < ts_hosts s" by (rule move_host [OF i(8) move])
  show "hosts_tot w_join s' p \<le> (if td_joiner (ts_obj s' p) = None then 0 else 1) \<and> (0 < hosts_tot w_join s' p \<longrightarrow> \<not> td_detached (ts_obj s' p))"
  proof (cases "\<exists>q. ts_pc s h = PNewStart q")
    case True
    then obtain q where q: "ts_pc s h = PNewStart q" by blast
    have "hosts_tot w_join s' p = hosts_tot w_join s p" using tot_start [OF move b q, of w_join p] by (simp add: w_join_def)
    then show ?thesis using join move_start(4) [OF move [unfolded q] b] by simp
  next
    case False
    have t: "hosts_tot w_join s' p = hosts_tot w_join s p + int (w_join (ts_cur s h) (ts_pc s' h) p) - int (w_join (ts_cur s h) (ts_pc s h) p)"
      by (rule tot_step [OF move b]) (use False in blast)
    have nn: "0 \<le> hosts_tot w_join s p" by simp
    show ?thesis
    proof (cases "p \<in> set (held (ts_pc s h))")
      case True
      then have "hosts_tot w_join s p = 0" using no_join_outside [OF i(2) held_out(1) [OF inv hp]] by blast
      moreover have "w_join (ts_cur s h) (ts_pc s' h) p = 0"
      proof -
        have "p \<notin> uses (ts_pc s' h) \<or> ts_pc s' h = PNewStart p" using True move by (cases "ts_pc s h") (auto simp: step_simps split: if_splits list.splits)
        moreover have "joining (ts_pc s' h) p \<Longrightarrow> p \<in> uses (ts_pc s' h)" by (cases "ts_pc s' h") auto
        ultimately show ?thesis by (auto simp: w_join_def)
      qed
      ultimately show ?thesis using t by simp
    next
      case out: False
      show ?thesis using step_join [OF move out] t join nn by (auto split: if_splits)
    qed
  qed
qed

lemma step_alive: "move x h c s = Some s' \<Longrightarrow> alive (ts_pc s' h) \<Longrightarrow> alive x \<and> x \<noteq> PExit0"
  by (cases x) (auto simp: step_simps split: step_splits)

lemma step_exiting: "move x h c s = Some s' \<Longrightarrow> exiting (ts_pc s' h) \<Longrightarrow> exiting x \<or> x = PExit0"
  by (cases x) (auto simp: step_simps split: step_splits)

lemma step_linking: "move x h c s = Some s' \<Longrightarrow> ts_pc s' h = PNewLink p \<Longrightarrow> \<exists>d. ts_obj s' p = new_thread (TidCounter s + 1) d (ts_obj s p)"
  by (cases x) (auto simp: step_simps split: step_splits)

lemma step_finished: "move x h c s = Some s' \<Longrightarrow> finished_join (ts_pc s' h) p \<Longrightarrow> p \<in> uses x \<and> (finished_join x p \<or> td_tid (ts_obj s p) = TidTerminated)"
  by (cases x) (auto simp: step_simps split: step_splits)

lemma finished_uses: "finished_join x p \<Longrightarrow> p \<in> uses x"
  by (cases x) auto

text \<open>What the hosts other than the one that moves do after the step.\<close>

lemma pc_after:
  assumes "inv_host s" "move (ts_pc s h) h c s = Some s'" "j \<noteq> h"
  obtains "ts_pc s' j = ts_pc s j" "ts_cur s' j = ts_cur s j"
  | q where "ts_pc s h = PNewStart q" "j = ts_hosts s" "ts_pc s' j = PIdle None" "ts_cur s' j = q"
proof (cases "\<exists>q. ts_pc s h = PNewStart q")
  case True
  then obtain q where q: "ts_pc s h = PNewStart q" by blast
  note f = move_start [OF assms(2) [unfolded q] move_host [OF assms(1,2)]]
  show ?thesis
  proof (cases "j = ts_hosts s")
    case True
    then show ?thesis using that(2) [OF q] f by simp
  next
    case False
    then show ?thesis using that(1) f assms(3) by simp
  qed
next
  case False
  then have f: "ts_cur s' = ts_cur s" "ts_pc s' = (ts_pc s)(h := ts_pc s' h)" using move_frame [OF assms(2)] by blast+
  then have "ts_pc s' j = ts_pc s j" using assms(3) by (metis fun_upd_other)
  then show ?thesis using that(1) f(1) by simp
qed

lemma cur_after: "inv_host s \<Longrightarrow> move (ts_pc s h) h c s = Some s' \<Longrightarrow> ts_cur s' h = ts_cur s h"
  using move_frame [of "ts_pc s h" h c s s'] move_start(2) [of _ h c s s'] move_host [of s h c s']
  by (cases "\<exists>q. ts_pc s h = PNewStart q") (metis fun_upd_other order_less_irrefl)+

lemma lc_dead_step:
  assumes inv: "lc_inv hp s" and hp: "heap_ok hp" and move: "move (ts_pc s h) h c s = Some s'"
  shows "inv_dead s'"
proof -
  note i = lc_invD [OF inv]
  have b: "h < ts_hosts s" by (rule move_host [OF i(8) move])
  have d: "\<And>j. alive (ts_pc s j) \<Longrightarrow> ts_cur s j \<noteq> 0 \<Longrightarrow> \<not> td_dead (ts_obj s (ts_cur s j))" "\<And>j. exiting (ts_pc s j) \<Longrightarrow> td_dead (ts_obj s (ts_cur s j))"
    "\<And>j p. ts_pc s j = PNewStart p \<or> ts_pc s j = PNewLink p \<Longrightarrow> \<not> td_dead (ts_obj s p)"
    "\<And>j p. ts_pc s j = PNewLink p \<Longrightarrow> td_tid (ts_obj s p) \<noteq> TidTerminated \<and> td_refcount (ts_obj s p) = 1"
    "\<And>j p. finished_join (ts_pc s j) p \<Longrightarrow> td_tid (ts_obj s p) = TidTerminated"
    "\<And>p. p \<in> threads s \<Longrightarrow> td_tid (ts_obj s p) = TidTerminated \<Longrightarrow> td_dead (ts_obj s p)"
    using i(9) unfolding inv_dead_def by blast+
  note dead = step_dead [OF move] and tid = step_tid [OF move]
  have exit0: "ts_pc s h = PExit0 \<Longrightarrow> ts_cur s h \<in> threads s" "ts_pc s h = PExit0 \<Longrightarrow> ts_cur s h \<noteq> 0"
    using own_registered(1) [OF inv, of h] cur_nonnull [OF i(8), of h] by simp_all
  text \<open>The exit of a thread kills no object that somebody else owns.\<close>
  have mine: "w_own (ts_cur s j) (ts_pc s j) (ts_cur s h) = 0" if "ts_pc s h = PExit0" "j \<noteq> h" "ts_pc s j \<noteq> PGone" for j
  proof -
    have "1 \<le> w_own (ts_cur s h) (ts_pc s h) (ts_cur s h)" using exit0(2) that(1) by (simp add: w_own_def)
    moreover have "hosts_tot w_own s (ts_cur s h) \<le> 1" using i(3) unfolding inv_own_def by blast
    ultimately show ?thesis using tot_ge2 [OF b host_bound [OF i(8) that(3)] that(2) [symmetric], of w_own "ts_cur s" "ts_pc s" "ts_cur s h"] by linarith
  qed
  have uses: "p \<in> uses (ts_pc s j) \<Longrightarrow> p \<in> threads s" for p j using i(2) unfolding inv_uses_def by blast
  have reg: "p \<in> threads s \<Longrightarrow> p \<notin> set (held (ts_pc s h))" for p by (rule registered_not_held [OF inv hp]) blast
  have cur: "attached (ts_pc s j) \<Longrightarrow> ts_cur s j \<noteq> 0 \<Longrightarrow> ts_cur s j \<notin> set (held (ts_pc s k))" for j k
    by (rule cur_not_held [OF inv hp])
  have lnk: "ts_pc s j = PNewLink p \<Longrightarrow> p \<notin> threads s \<and> (j \<noteq> h \<longrightarrow> p \<notin> set (held (ts_pc s h)))" for j p
    using held_out(1,4) [OF inv hp, of p j] by auto
  have a1: "\<not> td_dead (ts_obj s' (ts_cur s' j))" if "alive (ts_pc s' j)" "ts_cur s' j \<noteq> 0" for j
  proof (cases "j = h")
    case True
    have a: "alive (ts_pc s h)" "ts_pc s h \<noteq> PExit0" using step_alive [OF move] that(1) True by auto
    then show ?thesis using dead [OF cur [of h h]] d(1) [of h] that(2) True cur_after [OF i(8) move] attached_iff by auto
  next
    case False
    show ?thesis
    proof (cases rule: pc_after [OF i(8) move False])
      case 1
      have a: "attached (ts_pc s j)" using that(1) 1 attached_iff by simp
      have "\<not> (ts_pc s h = PExit0 \<and> ts_cur s j = ts_cur s h)"
      proof
        assume e: "ts_pc s h = PExit0 \<and> ts_cur s j = ts_cur s h"
        have "ts_pc s j \<noteq> PGone" using a by auto
        then show False using mine [OF _ False] e a exit0(2) by (auto simp: w_own_def)
      qed
      then show ?thesis using dead [OF cur [OF a, of h]] d(1) [of j] that 1 by auto
    next
      case (2 q)
      then show ?thesis using d(3) [of h q] move_start(4) [OF move [unfolded 2(1)] b] by simp
    qed
  qed
  have a2: "td_dead (ts_obj s' (ts_cur s' j))" if "exiting (ts_pc s' j)" for j
  proof (cases "j = h")
    case True
    then have "exiting (ts_pc s h) \<or> ts_pc s h = PExit0" using step_exiting [OF move] that by simp
    moreover have "exiting (ts_pc s h) \<Longrightarrow> needs_cur (ts_pc s h)" by (cases "ts_pc s h") auto
    ultimately show ?thesis
      using dead [OF cur [of h h]] d(2) [of h] cur_nonnull [OF i(8), of h] attached_iff exit0(2) True cur_after [OF i(8) move] by auto
  next
    case False
    show ?thesis
    proof (cases rule: pc_after [OF i(8) move False])
      case 1
      then have e: "exiting (ts_pc s j)" using that by simp
      then have "needs_cur (ts_pc s j)" by (cases "ts_pc s j") auto
      then show ?thesis using dead [OF cur [of j h]] d(2) [OF e] cur_nonnull [OF i(8), of j] attached_iff e 1 by auto
    qed (use that in simp)
  qed
  have out: "p \<noteq> ts_cur s h" if "ts_pc s h = PNewLink p" for p
    using cur [of h h] held_out(3) [OF inv hp, of p h] that by auto
  have a3: "\<not> td_dead (ts_obj s' p)" if "ts_pc s' j = PNewStart p \<or> ts_pc s' j = PNewLink p" for j p
  proof (cases "j = h")
    case True
    show ?thesis
    proof (cases "ts_pc s' h = PNewLink p")
      case True
      then show ?thesis using step_linking [OF move] by (auto simp: new_thread_def)
    next
      case False
      then have x: "ts_pc s h = PNewLink p" using step_starting [OF move] that True by simp
      then show ?thesis using step_new [OF move, of p] out [OF x] d(3) [of h p] by simp
    qed
  next
    case False
    show ?thesis
    proof (cases rule: pc_after [OF i(8) move False])
      case 1
      have nh: "p \<notin> set (held (ts_pc s h))" using that 1 lnk [of j p] reg uses [of p j] False by auto
      have "\<not> (ts_pc s h = PExit0 \<and> p = ts_cur s h)"
      proof
        assume e: "ts_pc s h = PExit0 \<and> p = ts_cur s h"
        then have "ts_pc s j = PNewStart p" using that 1 lnk [of j p] exit0(1) by auto
        then show False using mine [of j] e False by (auto simp: w_own_def)
      qed
      then show ?thesis using dead [OF nh] d(3) [of j p] that 1 by simp
    qed (use that in simp)
  qed
  have a4: "td_tid (ts_obj s' p) \<noteq> TidTerminated \<and> td_refcount (ts_obj s' p) = 1" if "ts_pc s' j = PNewLink p" for j p
  proof (cases "j = h")
    case True
    then show ?thesis using step_linking [OF move] that i(8) by (auto simp: new_thread_def inv_host_def)
  next
    case False
    show ?thesis
    proof (cases rule: pc_after [OF i(8) move False])
      case 1
      then have l: "ts_pc s j = PNewLink p" using that by simp
      have nh: "p \<notin> set (held (ts_pc s h))" "p \<notin> uses (ts_pc s h)" using lnk [OF l] False uses by blast+
      have nc: "\<not> (ts_pc s h = PExit0 \<and> p = ts_cur s h)" "\<not> (ts_pc s h = PExit1 \<and> p = ts_cur s h)"
        using cur [of h j] cur_nonnull [OF i(8), of h] l by auto
      show ?thesis using tid [OF nh(1)] step_refcount_other [OF move nh nc(1)] nc(2) d(4) [OF l] by simp
    qed (use that in simp)
  qed
  have a5: "td_tid (ts_obj s' p) = TidTerminated" if "finished_join (ts_pc s' j) p" for j p
  proof (cases "j = h")
    case True
    then have "p \<in> uses (ts_pc s h)" and t: "td_tid (ts_obj s p) = TidTerminated" using step_finished [OF move] that d(5) by blast+
    then have "p \<in> threads s" using uses by blast
    from tid [OF reg [OF this]] t show ?thesis by simp
  next
    case False
    show ?thesis
    proof (cases rule: pc_after [OF i(8) move False])
      case 1
      then have f: "finished_join (ts_pc s j) p" using that by simp
      from tid [OF reg [OF uses [OF finished_uses [OF f]]]] d(5) [OF f] show ?thesis by simp
    qed (use that in simp)
  qed
  have a6: "td_dead (ts_obj s' p)" if "p \<in> threads s'" "td_tid (ts_obj s' p) = TidTerminated" for p
    using step_threads [OF move that(1)]
  proof
    assume p: "p \<in> threads s"
    then show ?thesis using tid [OF reg [OF p]] dead [OF reg [OF p]] d(2) [of h] d(6) [OF p] that(2) by (auto split: if_splits)
  next
    assume x: "ts_pc s h = PNewLink p"
    then show ?thesis using step_new [OF move, of p] out [OF x] d(4) [OF x] that(2) by simp
  qed
  show ?thesis unfolding inv_dead_def using a1 a2 a3 a4 a5 a6 by blast
qed

lemma lc_run_inv: "lc_run hp s \<Longrightarrow> heap_ok hp \<Longrightarrow> lc_inv hp s"
proof (induction rule: lc_run.induct)
  case (lc_start objs)
  then show ?case
    by (auto simp: lc_inv_def lc_init_def inv_places_def inv_uses_def inv_own_def inv_ref_def inv_locks_def inv_join_def inv_gc_def inv_host_def
        inv_dead_def tot_def w_own_def w_held_def w_join_def w_ref_def)
next
  case (lc_move s h c s')
  then have i: "lc_inv hp s" "heap_ok hp" by simp_all
  note m = lc_move.hyps(2)
  show ?case
    unfolding lc_inv_def using lc_places_step [OF i m] lc_uses_step [OF i(1) m] lc_own_step [OF i m] lc_ref_step [OF i m] lc_lock_step [OF i m] lc_join_step [OF i m]
      lc_gc_step [OF i m] lc_host_step [OF i(1) m] lc_dead_step [OF i m] by blast
qed

section \<open>Schedules\<close>

fun lc_exec :: "(host \<times> choice) list \<Rightarrow> ThreadState \<Rightarrow> ThreadState option" where
  "lc_exec [] s = Some s"
| "lc_exec ((h, c) # xs) s = (case move (ts_pc s h) h c s of None \<Rightarrow> None | Some s' \<Rightarrow> lc_exec xs s')"

lemma lc_exec_run: "lc_run hp s \<Longrightarrow> lc_exec xs s = Some s' \<Longrightarrow> lc_run hp s'"
proof (induction xs arbitrary: s)
  case (Cons x xs)
  obtain h c where x: "x = (h, c)" by (cases x)
  then obtain t where "move (ts_pc s h) h c s = Some t" "lc_exec xs t = Some s'" using Cons.prems(2) by (auto split: option.splits)
  then show ?case using Cons.IH lc_move [OF Cons.prems(1)] by blast
qed simp

lemma lc_exec_append: "lc_exec (xs @ ys) s = Option.bind (lc_exec xs s) (lc_exec ys)"
  by (induction xs s rule: lc_exec.induct) (auto split: option.splits)

text \<open>\<open>create\<close> and \<open>leave\<close> are all steps of a creation and of an exit up to the last use of the object.\<close>

definition create :: "host \<Rightarrow> bool \<Rightarrow> (host \<times> choice) list" where
  "create h detached = (h, CCreate detached) # replicate 4 (h, CNext)"

definition leave :: "host \<Rightarrow> u64 \<Rightarrow> nat \<Rightarrow> (host \<times> choice) list" where
  "leave h v n = (h, CExit v) # replicate n (h, CNext)"

definition blank :: Pthread where
  "blank = \<lparr>td_tid = 0, td_lock = None, td_refcount = 0, td_dead = False, td_detached = False, td_joiner = None, td_join_target = None, td_ret = 0, td_gen = 0\<rparr>"

definition sample_heap :: "obj list" where
  "sample_heap = [1, 2, 3, 4, 5, 6, 7]"

definition sample_run :: "(host \<times> choice) list \<Rightarrow> ThreadState option" where
  "sample_run xs = lc_exec xs (lc_init sample_heap (\<lambda>_. blank))"

lemma sample_run_reachable: "sample_run xs = Some s \<Longrightarrow> lc_run sample_heap s"
  unfolding sample_run_def by (rule lc_exec_run [OF lc_start])

lemma sample_heap_ok: "heap_ok sample_heap"
  by (simp add: heap_ok_def sample_heap_def)

lemmas exec_simps = sample_run_def create_def leave_def lc_init_def at_def upd_def step_simps ShouldCollect_def new_thread_def blank_def sample_heap_def
  eval_nat_numeral

lemma sample_join:
  "\<exists>s. sample_run (create 0 False @ create 1 False @ leave 2 42 3 @ (1, CJoin 2 False) # replicate 6 (1, CNext)) = Some s \<and>
    ts_pc s 1 = PJoin4 2 \<and> td_ret (ts_obj s 2) = 42"
  by (simp add: exec_simps)

section \<open>Undefined behaviour\<close>

text \<open>A host is about to unlock a lock that it does not hold, or to use the object of its thread after it was given to another one.\<close>

definition stale :: "host \<Rightarrow> ThreadState \<Rightarrow> bool" where
  "stale h s \<longleftrightarrow> (case ts_pc s h of
     PCollect3 p a \<Rightarrow> td_lock (ts_obj s p) \<noteq> Some h
   | PExit2 \<Rightarrow> td_gen (ts_obj s (ts_cur s h)) \<noteq> ts_gen s h
   | _ \<Rightarrow> False)"

text \<open>Both can happen: \<open>TryCollect\<close> unlocks the object after it has released \<open>thread_list_lock\<close>, and a thread that has marked itself as
  terminated still notifies and exits on its object.  Threads 2 to 5 have exited; thread 1 joins thread 6, and before thread 1 unlocks the object of thread
  6 and thread 6 has exited, thread 7 creates a thread, which collects the object of thread 6 and constructs it anew.\<close>

definition recycling :: "(host \<times> choice) list" where
  "recycling = create 0 False @ concat (replicate 4 (create 1 True)) @ create 1 False @ create 1 True @
     leave 2 7 6 @ leave 3 7 6 @ leave 4 7 6 @ leave 5 7 6 @ leave 6 42 3 @
     (1, CJoin 6 False) # replicate 10 (1, CNext) @ (7, CCreate True) # replicate 9 (7, CNext)"

lemma recycled_object_used: "\<exists>s. sample_run recycling = Some s \<and> stale 1 s \<and> stale 6 s"
  by (simp add: recycling_def stale_def exec_simps)

section \<open>Mutual join\<close>

text \<open>Two threads that join each other: each holds the lock of the other one's object and waits for its own.\<close>

definition mutual_join :: "ThreadState \<Rightarrow> bool" where
  "mutual_join s \<longleftrightarrow> (\<exists>t u. ts_pc s 1 = PJoin1 2 t \<and> ts_pc s 2 = PJoin1 1 u) \<and> ts_cur s 1 = 1 \<and> ts_cur s 2 = 2"

lemma mutual_join_reached:
  "\<exists>s. sample_run (create 0 False @ create 1 False @ (1, CJoin 2 False) # replicate 3 (1, CNext) @ (2, CJoin 1 False) # replicate 3 (2, CNext)) = Some s \<and>
    mutual_join s"
  by (simp add: mutual_join_def exec_simps) blast

lemma mutual_join_deadlock:
  assumes run: "lc_run hp s" and hp: "heap_ok hp" and j: "mutual_join s" and move: "move (ts_pc s h) h c s = Some s'"
  shows "mutual_join s'"
proof -
  note inv = lc_run_inv [OF run hp]
  have l: "td_lock (ts_obj s 1) = Some 2" "td_lock (ts_obj s 2) = Some 1"
    using lc_invD(5) [OF inv] j unfolding inv_locks_def mutual_join_def by (metis holding.simps(2))+
  have "h \<noteq> 1" "h \<noteq> 2" using move j l by (auto simp: mutual_join_def step_simps)
  moreover have "ts_pc s i \<noteq> PGone \<Longrightarrow> i \<noteq> h \<Longrightarrow> ts_pc s' i = ts_pc s i \<and> ts_cur s' i = ts_cur s i" for i
    using other_pc [OF move move_host [OF lc_invD(8) [OF inv] move]] host_bound [OF lc_invD(8) [OF inv]] by blast
  ultimately show ?thesis using j unfolding mutual_join_def by fastforce
qed

section \<open>Join\<close>

lemma step_ret: "move x h c s = Some s' \<Longrightarrow> p \<notin> set (held x) \<Longrightarrow> p \<noteq> ts_cur s h \<or> \<not> alive x \<Longrightarrow> td_ret (ts_obj s' p) = td_ret (ts_obj s p)"
  by (cases x) (auto simp: step_simps split: step_splits)

lemma ret_stable:
  assumes inv: "lc_inv hp s" and hp: "heap_ok hp" and p: "p \<in> threads s" "td_dead (ts_obj s p)" and move: "move (ts_pc s i) i c s = Some s'"
  shows "td_ret (ts_obj s' p) = td_ret (ts_obj s p)"
proof (rule step_ret [OF move registered_not_held [OF inv hp]])
  show "p \<in> threads s \<or> p \<in> set (gc_list s)" using p by blast
  have "p \<noteq> 0" by (rule place_once(1) [OF lc_invD(1) [OF inv] hp p(1)])
  then show "p \<noteq> ts_cur s i \<or> \<not> alive (ts_pc s i)" using lc_invD(9) [OF inv] p(2) unfolding inv_dead_def by blast
qed

lemma one_joiner:
  assumes inv: "lc_inv hp s" and j: "joining (ts_pc s h) p" "joining (ts_pc s i) p"
  shows "h = i" "td_joiner (ts_obj s p) \<noteq> None" "\<not> td_detached (ts_obj s p)"
proof -
  have "ts_pc s h \<noteq> PGone" "ts_pc s i \<noteq> PGone" using j by auto
  then have b: "h < ts_hosts s" "i < ts_hosts s" using host_bound [OF lc_invD(8) [OF inv]] by blast+
  have w: "w_join (ts_cur s h) (ts_pc s h) p = 1" "w_join (ts_cur s i) (ts_pc s i) p = 1" using j by (simp_all add: w_join_def)
  have le: "hosts_tot w_join s p \<le> (if td_joiner (ts_obj s p) = None then 0 else 1)" "0 < hosts_tot w_join s p \<longrightarrow> \<not> td_detached (ts_obj s p)"
    using lc_invD(6) [OF inv] unfolding inv_join_def by blast+
  have pos: "1 \<le> hosts_tot w_join s p" using tot_ge [OF b(1), of w_join "ts_cur s" "ts_pc s" p] w(1) by simp
  then show "td_joiner (ts_obj s p) \<noteq> None" "\<not> td_detached (ts_obj s p)" using le by (auto split: if_splits)
  show "h = i"
  proof (rule ccontr)
    assume "h \<noteq> i"
    then have "2 \<le> hosts_tot w_join s p" using tot_ge2 [OF b, of w_join "ts_cur s" "ts_pc s" p] w by simp
    then show False using le(1) by (auto split: if_splits)
  qed
qed

section \<open>Claims\<close>


text \<open>C27: A thread that has waited for another one in a join, and was not cancelled and did not time out, finds it terminated and dead, is its only joiner,
  gets the value that the thread left, and no step of any thread changes that value before.\<close>

theorem join_after_exit:
  assumes "lc_run hp s" "heap_ok hp" "ts_pc s h = PJoin4 p"
  shows "td_tid (ts_obj s p) = TidTerminated \<and> td_dead (ts_obj s p) \<and> p \<in> threads s \<and> (\<forall>i. joining (ts_pc s i) p \<longrightarrow> i = h) \<and>
    (\<forall>c s'. move (PJoin4 p) h c s = Some s' \<longrightarrow> ts_pc s' h = PCollect0 p (Some (Inr (td_ret (ts_obj s p))))) \<and>
    (\<forall>i c s'. move (ts_pc s i) i c s = Some s' \<longrightarrow> td_ret (ts_obj s' p) = td_ret (ts_obj s p))"
proof -
  note inv = lc_run_inv [OF assms(1,2)]
  have j: "joining (ts_pc s h) p" "finished_join (ts_pc s h) p" "p \<in> uses (ts_pc s h)" using assms(3) by simp_all
  then have p: "p \<in> threads s" "td_tid (ts_obj s p) = TidTerminated" using lc_invD(2,9) [OF inv] unfolding inv_uses_def inv_dead_def by blast+
  then have d: "td_dead (ts_obj s p)" using lc_invD(9) [OF inv] unfolding inv_dead_def by blast
  have "move (PJoin4 p) h c s = Some s' \<Longrightarrow> ts_pc s' h = PCollect0 p (Some (Inr (td_ret (ts_obj s p))))" for c s' by (auto simp: step_simps split: if_splits)
  then show ?thesis using p d one_joiner(1) [OF inv _ j(1)] ret_stable [OF inv assms(2) p(1) d] by blast
qed

section \<open>Examples\<close>


theorem join_after_exit_witness:
  "\<exists>s. sample_run (create 0 False @ create 1 False @ leave 2 42 3 @ (1, CJoin 2 False) # replicate 6 (1, CNext)) = Some s \<and>
    td_dead (ts_obj s 2) \<and> td_ret (ts_obj s 2) = 42"
  using sample_join join_after_exit [OF sample_run_reachable sample_heap_ok] by blast

end
