(* ===== verification/Equeue.thy ===== *)
theory Equeue
  imports Kernel_Error "HOL-Library.AList"
begin

text \<open>
  The event queues of \<^verbatim>\<open>src/src/core/libraries/kernel/equeue.cpp\<close> and \<^verbatim>\<open>equeue.h\<close>: registration, triggering and retrieval of events, timers
  and the guest functions.  A queue keeps its events in the order of registration; an event is identified by
  its ident and filter.  A pointer is a number, 0 the null pointer.  Times are integers in nanoseconds of the steady clock and do not overflow; the
  arithmetic that computes an interval is kept in its 64 bits, and an overflow is \<open>None\<close>, like a failed assertion.

  Each function is a critical section of the code, or their composition when the code leaves the lock in between; \<open>Equeue_Wait\<close>
  interleaves them.  The host timers call \<open>TimerCallback\<close> and \<open>HrTimerCallback\<close>.  The map of small timers is an association list, whose order
  stands for the order in which the code iterates over its hash table.  The handle of a new queue comes from the table of files, and the
  field \<open>time_added\<close>, which is never read, is left out.
\<close>

section \<open>Data\<close>

abbreviation (input) FilterTimer :: int where "FilterTimer \<equiv> - 7"
abbreviation (input) FilterUser :: int where "FilterUser \<equiv> - 11"
abbreviation (input) FilterVideoOut :: int where "FilterVideoOut \<equiv> - 13"
abbreviation (input) FilterGraphicsCore :: int where "FilterGraphicsCore \<equiv> - 14"
abbreviation (input) FilterHrTimer :: int where "FilterHrTimer \<equiv> - 15"

abbreviation (input) FlagAdd :: u16 where "FlagAdd \<equiv> 1"
abbreviation (input) FlagDelete :: u16 where "FlagDelete \<equiv> 2"
abbreviation (input) FlagOneShot :: u16 where "FlagOneShot \<equiv> 0x10"
abbreviation (input) FlagClear :: u16 where "FlagClear \<equiv> 0x20"

record OrbisKernelEvent =
  ek_ident :: u64
  ek_filter :: int
  ek_flags :: u16
  ek_fflags :: u32
  ek_data :: u64
  ek_udata :: u64

record EqueueEvent =
  ee_event :: OrbisKernelEvent
  ee_timer_interval :: int
  ee_timer :: "int option"
  ee_is_triggered :: bool

record SmallTimer =
  st_event :: OrbisKernelEvent
  st_added :: int
  st_interval :: int

record EqueueInternal =
  m_events :: "EqueueEvent list"
  m_small_timers :: "(u64 \<times> SmallTimer) list"

definition equeue_init :: EqueueInternal where
  "equeue_init = \<lparr>m_events = [], m_small_timers = []\<rparr>"

section \<open>One event\<close>

definition event_Clear :: "EqueueEvent \<Rightarrow> EqueueEvent" where
  "event_Clear e = e\<lparr>ee_is_triggered := False, ee_event := (ee_event e)\<lparr>ek_fflags := 0, ek_data := 0\<rparr>\<rparr>"

definition event_Trigger :: "u64 \<Rightarrow> EqueueEvent \<Rightarrow> EqueueEvent" where
  "event_Trigger data e = e\<lparr>ee_is_triggered := True, ee_event := (ee_event e)\<lparr>ek_data := data\<rparr>\<rparr>"

definition event_TriggerUser :: "u64 \<Rightarrow> EqueueEvent \<Rightarrow> EqueueEvent" where
  "event_TriggerUser data e = e\<lparr>ee_is_triggered := True, ee_event := (ee_event e)\<lparr>ek_udata := data\<rparr>\<rparr>"

definition event_TriggerTimer :: "EqueueEvent \<Rightarrow> EqueueEvent" where
  "event_TriggerTimer e = e\<lparr>ee_is_triggered := True, ee_event := (ee_event e)\<lparr>ek_data := add64 (ek_data (ee_event e)) 1\<rparr>\<rparr>"

text \<open>The data of a display event is a bit field: 12 bits of the time, a count of 4 bits that saturates, and 48 bits of the argument.  \<open>now\<close>
  is the time stamp counter.\<close>

definition display_data :: "u64 \<Rightarrow> u64 \<Rightarrow> u64 \<Rightarrow> u64" where
  "display_data now hint old =
    (let count = drop_bit 12 old AND 0xf; counter = (if count \<noteq> 0xf then count + 1 else count) in
     (now AND 0xfff) OR push_bit 12 counter OR (hint AND 0xffffffffffff0000))"

definition event_TriggerDisplay :: "u64 \<Rightarrow> u64 \<Rightarrow> EqueueEvent \<Rightarrow> EqueueEvent" where
  "event_TriggerDisplay now data e =
    (let e = e\<lparr>ee_is_triggered := True\<rparr> in
     if data \<noteq> 0 \<and> data AND 0xff = ek_ident (ee_event e) \<and> ek_ident (ee_event e) \<noteq> 0xfe
     then e\<lparr>ee_event := (ee_event e)\<lparr>ek_data := display_data now data (ek_data (ee_event e))\<rparr>\<rparr> else e)"

definition trigger_event :: "u64 \<Rightarrow> int \<Rightarrow> u64 \<Rightarrow> EqueueEvent \<Rightarrow> EqueueEvent" where
  "trigger_event now flt data =
    (if flt = FilterVideoOut then event_TriggerDisplay now data
     else if flt = FilterUser then event_TriggerUser data
     else if flt = FilterTimer \<or> flt = FilterHrTimer then event_TriggerTimer
     else event_Trigger data)"

definition is_event :: "u64 \<Rightarrow> int \<Rightarrow> EqueueEvent \<Rightarrow> bool" where
  "is_event ident flt e \<longleftrightarrow> ek_ident (ee_event e) = ident \<and> ek_filter (ee_event e) = flt"

fun update_first :: "('a \<Rightarrow> bool) \<Rightarrow> ('a \<Rightarrow> 'a) \<Rightarrow> 'a list \<Rightarrow> 'a list" where
  "update_first p f [] = []"
| "update_first p f (x # xs) = (if p x then f x # xs else x # update_first p f xs)"

fun remove_first :: "('a \<Rightarrow> bool) \<Rightarrow> 'a list \<Rightarrow> 'a list" where
  "remove_first p [] = []"
| "remove_first p (x # xs) = (if p x then xs else x # remove_first p xs)"

section \<open>Intervals\<close>

definition s64_of_u64 :: "u64 \<Rightarrow> int" where
  "s64_of_u64 x = (if x < 0x8000000000000000 then int x else int x - 0x10000000000000000)"

definition u64_of_int :: "int \<Rightarrow> u64" where
  "u64_of_int x = nat (x mod 0x10000000000000000)"

text \<open>A bintime is a pair of seconds and a signed fraction in units of \<open>2^-64\<close> seconds.\<close>

definition bintime_interval :: "int \<times> int \<Rightarrow> int option" where
  "bintime_interval time =
    (let tv_nsec = (1000000000 * (snd time div 4294967296)) div 4294967296; sec = fst time * 1000000000 in
     if in_s64 sec \<and> in_s64 (tv_nsec + sec) then Some (tv_nsec + sec) else None)"

definition event_interval :: "int \<times> int \<Rightarrow> OrbisKernelEvent \<Rightarrow> int option" where
  "event_interval time ev =
    (if ek_filter ev = FilterTimer
     then (let ms = s64_of_u64 (ek_data ev) in if in_s64 (ms * 1000000) then Some (ms * 1000000) else None)
     else if ek_filter ev = FilterHrTimer then bintime_interval time
     else Some 0)"

section \<open>Operations of a queue\<close>

text \<open>\<open>time\<close> is the bintime that \<open>data\<close> points to in an event for a high-resolution timer.  The result says whether the event was there before.\<close>

definition AddEvent_insert :: "int \<times> int \<Rightarrow> OrbisKernelEvent \<Rightarrow> EqueueInternal \<Rightarrow> (bool \<times> EqueueInternal) option" where
  "AddEvent_insert time ev q = do {
     interval \<leftarrow> event_interval time ev;
     let same = is_event (ek_ident ev) (ek_filter ev);
     Some (if list_ex same (m_events q)
       then (True, q\<lparr>m_events := update_first same (\<lambda>e. e\<lparr>ee_timer_interval := interval,
              ee_event := (ee_event e)\<lparr>ek_udata := ek_udata ev\<rparr>\<rparr>) (m_events q)\<rparr>)
       else (let flags = ek_flags ev AND 0xfffe;
                 flags = (if ek_filter ev \<noteq> FilterUser then flags OR FlagClear else flags) in
             (False, q\<lparr>m_events := m_events q @ [\<lparr>ee_event = ev\<lparr>ek_data := 0, ek_flags := flags\<rparr>,
                ee_timer_interval = interval, ee_timer = None, ee_is_triggered = False\<rparr>]\<rparr>)))
   }"

definition ScheduleEvent :: "int \<Rightarrow> u64 \<Rightarrow> int \<Rightarrow> EqueueInternal \<Rightarrow> (bool \<times> EqueueInternal) option" where
  "ScheduleEvent now ident flt q =
    (if \<not> list_ex (is_event ident flt) (m_events q) then Some (False, q)
     else if flt \<noteq> FilterTimer \<and> flt \<noteq> FilterHrTimer then None
     else Some (True, q\<lparr>m_events := update_first (is_event ident flt) (\<lambda>e. e\<lparr>ee_timer := Some ((case ee_timer e of
            None \<Rightarrow> now | Some expiry \<Rightarrow> expiry) + ee_timer_interval e)\<rparr>) (m_events q)\<rparr>))"

definition AddEvent :: "int \<Rightarrow> int \<times> int \<Rightarrow> OrbisKernelEvent \<Rightarrow> EqueueInternal \<Rightarrow> (bool \<times> EqueueInternal) option" where
  "AddEvent now time ev q = do {
     (found, q) \<leftarrow> AddEvent_insert time ev q;
     if \<not> found \<and> (ek_filter ev = FilterTimer \<or> ek_filter ev = FilterHrTimer)
     then ScheduleEvent now (ek_ident ev) (ek_filter ev) q else Some (True, q)
   }"

definition RemoveEvent :: "u64 \<Rightarrow> int \<Rightarrow> EqueueInternal \<Rightarrow> bool \<times> EqueueInternal" where
  "RemoveEvent ident flt q =
    (list_ex (is_event ident flt) (m_events q), q\<lparr>m_events := remove_first (is_event ident flt) (m_events q)\<rparr>)"

definition TriggerEvent :: "u64 \<Rightarrow> u64 \<Rightarrow> int \<Rightarrow> u64 \<Rightarrow> EqueueInternal \<Rightarrow> bool \<times> EqueueInternal" where
  "TriggerEvent now ident flt data q =
    (list_ex (is_event ident flt) (m_events q),
     q\<lparr>m_events := map (\<lambda>e. if is_event ident flt e then trigger_event now flt data e else e) (m_events q)\<rparr>)"

definition EventExists :: "u64 \<Rightarrow> int \<Rightarrow> EqueueInternal \<Rightarrow> bool" where
  "EventExists ident flt q = list_ex (is_event ident flt) (m_events q)"

fun get_loop :: "int \<Rightarrow> int \<Rightarrow> EqueueEvent list \<Rightarrow> OrbisKernelEvent list \<times> EqueueEvent list" where
  "get_loop num count [] = ([], [])"
| "get_loop num count (e # es) =
    (if ee_is_triggered e
     then (let cleared = (if ek_flags (ee_event e) AND FlagClear \<noteq> 0 then event_Clear e else e);
               kept = (if ek_flags (ee_event cleared) AND FlagOneShot \<noteq> 0 then [] else [cleared]);
               (ev, rest) = (if count + 1 = num then ([], es) else get_loop num (count + 1) es) in
           (ee_event e # ev, kept @ rest))
     else (let (ev, rest) = get_loop num count es in (ev, e # rest)))"

definition GetTriggeredEvents :: "int \<Rightarrow> EqueueInternal \<Rightarrow> OrbisKernelEvent list \<times> EqueueInternal" where
  "GetTriggeredEvents num q = (case get_loop num 0 (m_events q) of (ev, es) \<Rightarrow> (ev, q\<lparr>m_events := es\<rparr>))"

section \<open>Small timers\<close>

definition AddSmallTimer :: "int \<Rightarrow> int \<times> int \<Rightarrow> OrbisKernelEvent \<Rightarrow> EqueueInternal \<Rightarrow> EqueueInternal option" where
  "AddSmallTimer now time ev q = map_option (\<lambda>interval.
     q\<lparr>m_small_timers := AList.update (ek_ident ev) \<lparr>st_event = ev, st_added = now, st_interval = interval\<rparr> (m_small_timers q)\<rparr>) (bintime_interval time)"

definition HasSmallTimer :: "EqueueInternal \<Rightarrow> bool" where
  "HasSmallTimer q = (m_small_timers q \<noteq> [])"

definition RemoveSmallTimer :: "u64 \<Rightarrow> EqueueInternal \<Rightarrow> bool \<times> EqueueInternal" where
  "RemoveSmallTimer ident q = (if HasSmallTimer q
     then (map_of (m_small_timers q) ident \<noteq> None, q\<lparr>m_small_timers := AList.delete ident (m_small_timers q)\<rparr>) else (False, q))"

text \<open>One pass of the loop of \<open>WaitForSmallTimer\<close>.\<close>

fun small_loop :: "int \<Rightarrow> int \<Rightarrow> int \<Rightarrow> (u64 \<times> SmallTimer) list \<Rightarrow> OrbisKernelEvent list \<times> (u64 \<times> SmallTimer) list" where
  "small_loop now num count [] = ([], [])"
| "small_loop now num count ((ident, st) # ts) =
    (if \<not> count < num then ([], (ident, st) # ts)
     else if now - st_added st \<ge> st_interval st
     then (case small_loop now num (count + 1) ts of (ev, rest) \<Rightarrow> (st_event st # ev, rest))
     else (case small_loop now num count ts of (ev, rest) \<Rightarrow> (ev, (ident, st) # rest)))"

definition small_pass :: "int \<Rightarrow> int \<Rightarrow> EqueueInternal \<Rightarrow> OrbisKernelEvent list \<times> EqueueInternal" where
  "small_pass now num q = (case small_loop now num 0 (m_small_timers q) of (ev, ts) \<Rightarrow> (ev, q\<lparr>m_small_timers := ts\<rparr>))"

section \<open>The table of queues\<close>

type_synonym kqueues = "int \<Rightarrow> EqueueInternal option"

definition HrTimerCallback :: "int \<Rightarrow> OrbisKernelEvent \<Rightarrow> kqueues \<Rightarrow> kqueues" where
  "HrTimerCallback eq kevent ks = (case ks eq of None \<Rightarrow> ks
     | Some q \<Rightarrow> ks(eq \<mapsto> snd (TriggerEvent 0 (ek_ident kevent) FilterHrTimer (ek_udata kevent) q)))"

definition TimerCallback :: "int \<Rightarrow> int \<Rightarrow> OrbisKernelEvent \<Rightarrow> kqueues \<Rightarrow> kqueues option" where
  "TimerCallback now eq kevent ks = (case ks eq of None \<Rightarrow> Some ks
     | Some q \<Rightarrow> if \<not> EventExists (ek_ident kevent) (ek_filter kevent) q then Some ks
       else (let q = snd (TriggerEvent 0 (ek_ident kevent) FilterTimer (ek_udata kevent) q) in
         if ek_flags kevent AND FlagOneShot = 0
         then map_option (\<lambda>r. ks(eq \<mapsto> snd r)) (ScheduleEvent now (ek_ident kevent) (ek_filter kevent) q)
         else Some (ks(eq \<mapsto> q))))"

text \<open>\<open>handle\<close> is the new handle of the table of files.\<close>

definition posix_kqueue :: "int \<Rightarrow> kqueues \<Rightarrow> int \<times> kqueues" where
  "posix_kqueue handle ks = (handle, ks(handle \<mapsto> equeue_init))"

definition sceKernelCreateEqueue :: "int \<Rightarrow> bool \<Rightarrow> string option \<Rightarrow> kqueues \<Rightarrow> (OrbisResult + int) \<times> kqueues" where
  "sceKernelCreateEqueue handle eq_null name ks =
    (if eq_null then (Inl ORBIS_KERNEL_ERROR_EINVAL, ks)
     else case name of None \<Rightarrow> (Inl ORBIS_KERNEL_ERROR_EINVAL, ks)
     | Some name \<Rightarrow> if length name > 32 then (Inl ORBIS_KERNEL_ERROR_ENAMETOOLONG, ks)
       else (Inr handle, ks(handle \<mapsto> equeue_init)))"

definition sceKernelDeleteEqueue :: "int \<Rightarrow> kqueues \<Rightarrow> OrbisResult \<times> kqueues" where
  "sceKernelDeleteEqueue eq ks = (if ks eq = None then (ORBIS_KERNEL_ERROR_EBADF, ks) else (ORBIS_OK, ks(eq := None)))"

text \<open>The checks of \<open>sceKernelWaitEqueue\<close> and its result for the number of events that \<open>WaitForEvents\<close> returns.\<close>

definition sceKernelWaitEqueue_entry :: "int \<Rightarrow> bool \<Rightarrow> int \<Rightarrow> kqueues \<Rightarrow> OrbisResult + EqueueInternal" where
  "sceKernelWaitEqueue_entry eq ev_null num ks = (case ks eq of None \<Rightarrow> Inl ORBIS_KERNEL_ERROR_EBADF
     | Some q \<Rightarrow> if ev_null then Inl ORBIS_KERNEL_ERROR_EFAULT else if num < 1 then Inl ORBIS_KERNEL_ERROR_EINVAL else Inr q)"

definition sceKernelWaitEqueue_result :: "int \<Rightarrow> OrbisResult" where
  "sceKernelWaitEqueue_result out = (if out = 0 then ORBIS_KERNEL_ERROR_ETIMEDOUT else ORBIS_OK)"

text \<open>An operation on an existing queue.\<close>

definition with_equeue :: "int \<Rightarrow> kqueues \<Rightarrow> (EqueueInternal \<Rightarrow> (OrbisResult \<times> EqueueInternal) option) \<Rightarrow> (OrbisResult \<times> kqueues) option" where
  "with_equeue eq ks f = (case ks eq of None \<Rightarrow> Some (ORBIS_KERNEL_ERROR_EBADF, ks)
     | Some q \<Rightarrow> map_option (\<lambda>(r, q). (r, ks(eq \<mapsto> q))) (f q))"

definition added :: "(bool \<times> EqueueInternal) option \<Rightarrow> (OrbisResult \<times> EqueueInternal) option" where
  "added = map_option (map_prod (\<lambda>b. if b then ORBIS_OK else ORBIS_KERNEL_ERROR_ENOMEM) id)"

definition found_event :: "bool \<times> EqueueInternal \<Rightarrow> (OrbisResult \<times> EqueueInternal) option" where
  "found_event r = Some (map_prod (\<lambda>b. if b then ORBIS_OK else ORBIS_KERNEL_ERROR_ENOENT) id r)"

definition hr_bintime :: "int \<Rightarrow> int \<Rightarrow> (int \<times> int) option" where
  "hr_bintime tv_sec tv_nsec = (if in_s64 (tv_nsec * 0x44b82fa09) then Some (tv_sec, tv_nsec * 0x44b82fa09) else None)"

definition sceKernelAddHRTimerEvent :: "int \<Rightarrow> int \<Rightarrow> int \<Rightarrow> int \<Rightarrow> int \<Rightarrow> u64 \<Rightarrow> kqueues \<Rightarrow> (OrbisResult \<times> kqueues) option" where
  "sceKernelAddHRTimerEvent now eq ident tv_sec tv_nsec udata ks = with_equeue eq ks (\<lambda>q.
     let total_ns = tv_sec * 1000000000 + tv_nsec;
         ev = \<lparr>ek_ident = u64_of_int ident, ek_filter = FilterHrTimer, ek_flags = FlagAdd OR FlagOneShot, ek_fflags = 0, ek_data = 0, ek_udata = udata\<rparr> in
     if \<not> (in_s64 (tv_sec * 1000000000) \<and> in_s64 total_ns) then None
     else do {
       time \<leftarrow> hr_bintime tv_sec tv_nsec;
       if total_ns < 1200000 then map_option (\<lambda>q. (ORBIS_OK, q)) (AddSmallTimer now time ev q) else added (AddEvent now time ev q)
     })"

definition sceKernelDeleteHRTimerEvent :: "int \<Rightarrow> int \<Rightarrow> kqueues \<Rightarrow> (OrbisResult \<times> kqueues) option" where
  "sceKernelDeleteHRTimerEvent eq ident ks = with_equeue eq ks (\<lambda>q.
     found_event (if HasSmallTimer q then RemoveSmallTimer (u64_of_int ident) q else RemoveEvent (u64_of_int ident) FilterHrTimer q))"

definition sceKernelAddTimerEvent :: "int \<Rightarrow> int \<Rightarrow> int \<Rightarrow> u32 \<Rightarrow> u64 \<Rightarrow> kqueues \<Rightarrow> (OrbisResult \<times> kqueues) option" where
  "sceKernelAddTimerEvent now eq ident usec udata ks = with_equeue eq ks (\<lambda>q. added (AddEvent now (0, 0)
     \<lparr>ek_ident = u64_of_int ident, ek_filter = FilterTimer, ek_flags = FlagAdd, ek_fflags = 0, ek_data = usec div 1000, ek_udata = udata\<rparr> q))"

definition sceKernelDeleteTimerEvent :: "int \<Rightarrow> int \<Rightarrow> kqueues \<Rightarrow> (OrbisResult \<times> kqueues) option" where
  "sceKernelDeleteTimerEvent eq ident ks = with_equeue eq ks (\<lambda>q. found_event (RemoveEvent (u64_of_int ident) FilterTimer q))"

definition user_event :: "int \<Rightarrow> u16 \<Rightarrow> OrbisKernelEvent" where
  "user_event ident flags = \<lparr>ek_ident = u64_of_int ident, ek_filter = FilterUser, ek_flags = flags, ek_fflags = 0, ek_data = 0, ek_udata = 0\<rparr>"

definition sceKernelAddUserEvent :: "int \<Rightarrow> int \<Rightarrow> kqueues \<Rightarrow> (OrbisResult \<times> kqueues) option" where
  "sceKernelAddUserEvent eq ident ks = with_equeue eq ks (\<lambda>q. added (AddEvent 0 (0, 0) (user_event ident FlagAdd) q))"

definition sceKernelAddUserEventEdge :: "int \<Rightarrow> int \<Rightarrow> kqueues \<Rightarrow> (OrbisResult \<times> kqueues) option" where
  "sceKernelAddUserEventEdge eq ident ks = with_equeue eq ks (\<lambda>q. added (AddEvent 0 (0, 0) (user_event ident (FlagAdd OR FlagClear)) q))"

definition sceKernelTriggerUserEvent :: "int \<Rightarrow> int \<Rightarrow> u64 \<Rightarrow> kqueues \<Rightarrow> (OrbisResult \<times> kqueues) option" where
  "sceKernelTriggerUserEvent eq ident udata ks = with_equeue eq ks (\<lambda>q. found_event (TriggerEvent 0 (u64_of_int ident) FilterUser udata q))"

definition sceKernelDeleteUserEvent :: "int \<Rightarrow> int \<Rightarrow> kqueues \<Rightarrow> (OrbisResult \<times> kqueues) option" where
  "sceKernelDeleteUserEvent eq ident ks = with_equeue eq ks (\<lambda>q. found_event (RemoveEvent (u64_of_int ident) FilterUser q))"

section \<open>Change lists\<close>

definition SupportedEqueueFilter :: "int \<Rightarrow> bool" where
  "SupportedEqueueFilter flt \<longleftrightarrow> flt = FilterGraphicsCore \<or> flt = FilterHrTimer \<or> flt = FilterTimer \<or>
     flt = FilterUser \<or> flt = FilterVideoOut"

text \<open>One change, with the bintime that its data points to.  An error ends the call.\<close>

definition kevent_change :: "int \<Rightarrow> OrbisKernelEvent \<times> int \<times> int \<Rightarrow> EqueueInternal \<Rightarrow> (PosixErrno option \<times> EqueueInternal) option" where
  "kevent_change now c q = (case c of (ev, time) \<Rightarrow>
     if \<not> SupportedEqueueFilter (ek_filter ev) then Some (None, q)
     else do {
       (ok, q) \<leftarrow> (if ek_flags ev AND FlagAdd \<noteq> 0 then AddEvent now time ev q else Some (True, q));
       if \<not> ok then Some (Some POSIX_ENOMEM, q)
       else (let (ok, q) = (if ek_flags ev AND FlagDelete \<noteq> 0 then RemoveEvent (ek_ident ev) (ek_filter ev) q else (True, q)) in
         if \<not> ok then Some (Some POSIX_ENOENT, q)
         else if ek_filter ev = FilterUser \<and> ek_fflags ev = 0x1000000
         then (let (ok, q) = TriggerEvent 0 (ek_ident ev) FilterUser (ek_udata ev) q in
           Some (if ok then None else Some POSIX_ENOENT, q))
         else Some (None, q))
     })"

fun kevent_changes :: "int \<Rightarrow> (OrbisKernelEvent \<times> int \<times> int) list \<Rightarrow> EqueueInternal \<Rightarrow> (PosixErrno option \<times> EqueueInternal) option" where
  "kevent_changes now [] q = Some (None, q)"
| "kevent_changes now (c # cs) q = do {
     (e, q) \<leftarrow> kevent_change now c q;
     case e of Some e \<Rightarrow> Some (Some e, q) | None \<Rightarrow> kevent_changes now cs q
   }"

text \<open>\<open>posix_kevent\<close> up to the wait.\<close>

definition posix_kevent_apply :: "int \<Rightarrow> int \<Rightarrow> (OrbisKernelEvent \<times> int \<times> int) list \<Rightarrow> kqueues \<Rightarrow> (PosixErrno option \<times> kqueues) option" where
  "posix_kevent_apply now handle changes ks = (case ks handle of None \<Rightarrow> Some (Some POSIX_EBADF, ks)
     | Some q \<Rightarrow> map_option (\<lambda>(e, q). (e, ks(handle \<mapsto> q))) (kevent_changes now changes q))"

text \<open>The timeout in microseconds, for a time that is not negative; the conversion to 32 bits drops the upper bits.\<close>

definition kevent_micros :: "int \<Rightarrow> int \<Rightarrow> u32 option" where
  "kevent_micros tv_sec tv_nsec = (let micros = tv_sec * 1000000 + tv_nsec div 1000 in
     if in_s64 (tv_sec * 1000000) \<and> in_s64 micros then Some (nat (micros mod 4294967296)) else None)"

section \<open>The invariant\<close>

definition event_key :: "EqueueEvent \<Rightarrow> u64 \<times> int" where
  "event_key e = (ek_ident (ee_event e), ek_filter (ee_event e))"

text \<open>Events have different keys, and every event that is not a user event is cleared when it is retrieved.\<close>

definition eq_inv :: "EqueueInternal \<Rightarrow> bool" where
  "eq_inv q \<longleftrightarrow> distinct (map event_key (m_events q)) \<and>
     (\<forall>e \<in> set (m_events q). ek_filter (ee_event e) \<noteq> FilterUser \<longrightarrow> ek_flags (ee_event e) AND FlagClear \<noteq> 0)"

lemma is_event_key: "is_event i f e \<longleftrightarrow> event_key e = (i, f)"
  by (simp add: is_event_def event_key_def)

definition event_ok :: "EqueueEvent \<Rightarrow> bool" where
  "event_ok e \<longleftrightarrow> (ek_filter (ee_event e) \<noteq> FilterUser \<longrightarrow> ek_flags (ee_event e) AND FlagClear \<noteq> 0)"

lemma eq_inv_ok: "eq_inv q \<longleftrightarrow> distinct (map event_key (m_events q)) \<and> list_all event_ok (m_events q)"
  by (simp add: eq_inv_def event_ok_def list_all_iff)

text \<open>A change of an event that keeps its key and its flags.\<close>

definition same_shape :: "EqueueEvent \<Rightarrow> EqueueEvent \<Rightarrow> bool" where
  "same_shape e e' \<longleftrightarrow> event_key e' = event_key e \<and> ek_flags (ee_event e') = ek_flags (ee_event e)"

lemma same_shape_ok: "same_shape e e' \<Longrightarrow> event_ok e' = event_ok e"
  by (simp add: same_shape_def event_ok_def event_key_def)

lemma trigger_shape: "same_shape e (trigger_event now f data e)"
  by (simp add: trigger_event_def same_shape_def event_key_def event_TriggerDisplay_def event_TriggerUser_def event_TriggerTimer_def event_Trigger_def Let_def)

lemma clear_shape: "same_shape e (event_Clear e)"
  by (simp add: same_shape_def event_key_def event_Clear_def)

lemma same_shape_if: "same_shape e e' \<Longrightarrow> same_shape e (if b then e' else e)"
  by (simp add: same_shape_def)

lemma map_shape:
  assumes "\<And>e. same_shape e (g e)"
  shows "map event_key (map g es) = map event_key es" "list_all event_ok (map g es) = list_all event_ok es"
proof -
  have k: "event_key (g e) = event_key e" "event_ok (g e) = event_ok e" for e
    using assms [of e] same_shape_ok [OF assms] by (simp_all add: same_shape_def)
  show "map event_key (map g es) = map event_key es" "list_all event_ok (map g es) = list_all event_ok es"
    by (induction es) (simp_all add: k)
qed

lemma update_shape:
  assumes "\<And>e. same_shape e (g e)"
  shows "map event_key (update_first p g es) = map event_key es" "list_all event_ok (update_first p g es) = list_all event_ok es"
proof -
  have k: "event_key (g e) = event_key e" "event_ok (g e) = event_ok e" for e
    using assms [of e] same_shape_ok [OF assms] by (simp_all add: same_shape_def)
  show "map event_key (update_first p g es) = map event_key es" "list_all event_ok (update_first p g es) = list_all event_ok es"
    by (induction es) (simp_all add: k)
qed

lemma set_remove_first: "set (remove_first p es) \<subseteq> set es"
  by (induction es) auto

lemma remove_first_distinct: "distinct (map f es) \<Longrightarrow> distinct (map f (remove_first p es))"
proof (induction es)
  case (Cons e es)
  then show ?case using set_remove_first [of p es] by auto
qed simp

lemma get_loop_shape:
  "get_loop num c es = (ev, es') \<Longrightarrow> event_key ` set es' \<subseteq> event_key ` set es \<and>
     (distinct (map event_key es) \<longrightarrow> distinct (map event_key es')) \<and> (list_all event_ok es \<longrightarrow> list_all event_ok es')"
proof (induction num c es arbitrary: ev es' rule: get_loop.induct)
  case (2 num c e es)
  have k: "event_key (event_Clear e) = event_key e" "event_ok (event_Clear e) = event_ok e"
    using clear_shape [of e] same_shape_ok [OF clear_shape] by (simp_all add: same_shape_def)
  define e1 where "e1 = (if ek_flags (ee_event e) AND FlagClear \<noteq> 0 then event_Clear e else e)"
  have e1: "event_key e1 = event_key e" "event_ok e1 = event_ok e" using k by (simp_all add: e1_def)
  show ?case
  proof (cases "ee_is_triggered e")
    case False
    obtain ev2 es2 where g: "get_loop num c es = (ev2, es2)" by fastforce
    then have "es' = e # es2" using "2.prems" False by simp
    then show ?thesis using "2.IH"(2) [OF False g] by auto
  next
    case True
    obtain ev2 es2 where g: "(if c + 1 = num then ([], es) else get_loop num (c + 1) es) = (ev2, es2)" by fastforce
    have sub: "event_key ` set es2 \<subseteq> event_key ` set es \<and> (distinct (map event_key es) \<longrightarrow> distinct (map event_key es2)) \<and>
      (list_all event_ok es \<longrightarrow> list_all event_ok es2)"
      using g "2.IH"(1) [OF True e1_def refl] by (cases "c + 1 = num") auto
    have "es' = (if ek_flags (ee_event e1) AND FlagOneShot \<noteq> 0 then [] else [e1]) @ es2"
      using "2.prems" True g unfolding e1_def by (simp add: Let_def split: if_splits prod.splits)
    then show ?thesis using sub e1 by auto
  qed
qed simp

lemma get_inv: "eq_inv q \<Longrightarrow> GetTriggeredEvents num q = (ev, q') \<Longrightarrow> eq_inv q'"
  using get_loop_shape [of num 0 "m_events q"] by (auto simp: eq_inv_ok GetTriggeredEvents_def split: prod.splits)

lemma clear_flag_set: "((n :: nat) OR FlagClear) AND FlagClear \<noteq> 0"
proof -
  have "bit (FlagClear :: nat) 5" by (simp add: bit_nat_def)
  then have "bit ((n OR FlagClear) AND FlagClear) 5" by (simp only: bit_and_iff bit_or_iff simp_thms)
  then show ?thesis by (metis bit_0_eq bot_apply bot_bool_def)
qed

lemma add_insert_inv:
  assumes "eq_inv q" "AddEvent_insert time ev q = Some (b, q')"
  shows "eq_inv q'"
proof (cases "list_ex (is_event (ek_ident ev) (ek_filter ev)) (m_events q)")
  case True
  then show ?thesis using assms by (auto simp: AddEvent_insert_def eq_inv_ok update_shape same_shape_def event_key_def Let_def split: bind_splits)
next
  case False
  then have "(ek_ident ev, ek_filter ev) \<notin> event_key ` set (m_events q)" by (auto simp: list_ex_iff is_event_key)
  then show ?thesis using assms False clear_flag_set
    by (auto simp: AddEvent_insert_def eq_inv_ok event_key_def event_ok_def Let_def simp del: neq0_conv split: bind_splits)
qed

lemma schedule_inv: "eq_inv q \<Longrightarrow> ScheduleEvent now i f q = Some (b, q') \<Longrightarrow> eq_inv q'"
  by (auto simp: ScheduleEvent_def eq_inv_ok update_shape same_shape_def event_key_def split: if_splits)

lemma add_inv:
  assumes "eq_inv q" "AddEvent now time ev q = Some (b, q')"
  shows "eq_inv q'"
proof -
  obtain d q1 where d: "AddEvent_insert time ev q = Some (d, q1)" using assms(2) by (auto simp: AddEvent_def split: bind_splits)
  note i = add_insert_inv [OF assms(1) d]
  then show ?thesis using assms(2) d schedule_inv [OF i] by (auto simp: AddEvent_def split: if_splits)
qed

lemma remove_inv: "eq_inv q \<Longrightarrow> eq_inv (snd (RemoveEvent i f q))"
  using set_remove_first [of "is_event i f" "m_events q"] remove_first_distinct by (auto simp: RemoveEvent_def eq_inv_ok list_all_iff)

lemma trigger_inv:
  assumes "eq_inv q"
  shows "eq_inv (snd (TriggerEvent now i f data q))"
proof -
  have "same_shape e (if is_event i f e then trigger_event now f data e else e)" for e by (rule same_shape_if [OF trigger_shape])
  note k = map_shape [OF this, of "m_events q"]
  have "m_events (snd (TriggerEvent now i f data q)) = map (\<lambda>e. if is_event i f e then trigger_event now f data e else e) (m_events q)"
    by (simp add: TriggerEvent_def)
  then show ?thesis using assms unfolding eq_inv_ok by (simp only: k)
qed

section \<open>Retrieval\<close>

text \<open>What retrieval leaves of an event that it returns.\<close>

definition deliver :: "EqueueEvent \<Rightarrow> EqueueEvent list" where
  "deliver e = (let cleared = (if ek_flags (ee_event e) AND FlagClear \<noteq> 0 then event_Clear e else e) in
     if ek_flags (ee_event e) AND FlagOneShot \<noteq> 0 then [] else [cleared])"

definition retrieved :: "EqueueEvent list \<Rightarrow> EqueueEvent list \<Rightarrow> EqueueEvent list" where
  "retrieved D es = concat (map (\<lambda>e. if e \<in> set D then deliver e else [e]) es)"

lemma retrieved_none: "set D \<inter> set es = {} \<Longrightarrow> retrieved D es = es"
  by (induction es) (auto simp: retrieved_def)

lemma clear_flags: "ek_flags (ee_event (event_Clear e)) = ek_flags (ee_event e)"
  by (simp add: event_Clear_def)

lemma get_loop_triggered:
  "ee_is_triggered e \<Longrightarrow> get_loop num c (e # es) =
    (case if c + 1 = num then ([], es) else get_loop num (c + 1) es of (ev, rest) \<Rightarrow> (ee_event e # ev, deliver e @ rest))"
  by (simp add: deliver_def clear_flags Let_def split: prod.split)

lemma get_loop_exact:
  "distinct es \<Longrightarrow> c < num \<Longrightarrow> D = take (nat (num - c)) (filter ee_is_triggered es) \<Longrightarrow> get_loop num c es = (map ee_event D, retrieved D es)"
proof (induction es arbitrary: c D)
  case (Cons e es)
  show ?case
  proof (cases "ee_is_triggered e")
    case False
    then have D: "D = take (nat (num - c)) (filter ee_is_triggered es)" "e \<notin> set D" using Cons.prems(3) by (auto dest: in_set_takeD)
    have "get_loop num c es = (map ee_event D, retrieved D es)" using Cons.IH [OF _ Cons.prems(2) D(1)] Cons.prems(1) by simp
    then show ?thesis using False D(2) by (simp add: retrieved_def)
  next
    case True
    define D' where "D' = take (nat (num - (c + 1))) (filter ee_is_triggered es)"
    have n: "nat (num - c) = Suc (nat (num - (c + 1)))" using Cons.prems(2) by simp
    have D: "D = e # D'" using Cons.prems(3) True n by (simp add: D'_def)
    have e: "e \<notin> set es" using Cons.prems(1) by simp
    then have "retrieved D es = retrieved D' es" by (auto simp: D retrieved_def intro!: arg_cong [where f = concat])
    then have r: "retrieved D (e # es) = deliver e @ retrieved D' es" by (simp add: D retrieved_def)
    show ?thesis
    proof (cases "c + 1 = num")
      case last: True
      then have "D' = []" by (auto simp: D'_def)
      then show ?thesis using r True last retrieved_none [of "[]" es] by (simp only: get_loop_triggered) (simp add: D)
    next
      case False
      have "get_loop num (c + 1) es = (map ee_event D', retrieved D' es)"
        by (rule Cons.IH) (use Cons.prems False in \<open>auto simp: D'_def\<close>)
      then show ?thesis using r True False by (simp only: get_loop_triggered) (simp add: D)
    qed
  qed
qed (simp add: retrieved_def)

section \<open>Sequences of operations\<close>

datatype eq_op = OpAdd int "int \<times> int" OrbisKernelEvent | OpSchedule int u64 int | OpRemove u64 int | OpTrigger u64 u64 int u64 | OpGet int

definition no_events :: "bool \<times> EqueueInternal \<Rightarrow> (bool \<times> OrbisKernelEvent list) \<times> EqueueInternal" where
  "no_events r = ((fst r, []), snd r)"

fun eq_do :: "eq_op \<Rightarrow> EqueueInternal \<Rightarrow> ((bool \<times> OrbisKernelEvent list) \<times> EqueueInternal) option" where
  "eq_do (OpAdd now time ev) q = map_option no_events (AddEvent now time ev q)"
| "eq_do (OpSchedule now i f) q = map_option no_events (ScheduleEvent now i f q)"
| "eq_do (OpRemove i f) q = Some (no_events (RemoveEvent i f q))"
| "eq_do (OpTrigger now i f data) q = Some (no_events (TriggerEvent now i f data q))"
| "eq_do (OpGet num) q = Some (case GetTriggeredEvents num q of (ev, q) \<Rightarrow> ((True, ev), q))"

fun eq_run :: "eq_op list \<Rightarrow> EqueueInternal \<Rightarrow> ((bool \<times> OrbisKernelEvent list) list \<times> EqueueInternal) option" where
  "eq_run [] q = Some ([], q)"
| "eq_run (x # xs) q = do { (r, q) \<leftarrow> eq_do x q; (rs, q) \<leftarrow> eq_run xs q; Some (r # rs, q) }"

lemma do_inv: "eq_inv q \<Longrightarrow> eq_do x q = Some (r, q') \<Longrightarrow> eq_inv q'"
  by (cases x) (auto simp: no_events_def intro: add_inv schedule_inv get_inv dest: remove_inv trigger_inv split: prod.splits)

lemma run_inv: "eq_inv q \<Longrightarrow> eq_run xs q = Some (rs, q') \<Longrightarrow> eq_inv q'"
  by (induction xs arbitrary: q rs) (auto split: bind_splits, metis do_inv)

lemma init_inv: "eq_inv equeue_init"
  by (simp add: eq_inv_def equeue_init_def)

section \<open>Counting ticks\<close>

text \<open>The count of expirations that an event of a timer still holds, the count that retrieval has returned, and the number of triggers that
  found the event.\<close>

definition held_ticks :: "u64 \<Rightarrow> int \<Rightarrow> EqueueEvent list \<Rightarrow> nat" where
  "held_ticks i f es = sum_list (map (\<lambda>e. ek_data (ee_event e)) (filter (is_event i f) es))"

definition returned_ticks :: "u64 \<Rightarrow> int \<Rightarrow> OrbisKernelEvent list \<Rightarrow> nat" where
  "returned_ticks i f evs = sum_list (map ek_data (filter (\<lambda>v. ek_ident v = i \<and> ek_filter v = f) evs))"

definition is_tick :: "u64 \<Rightarrow> int \<Rightarrow> eq_op \<times> bool \<times> OrbisKernelEvent list \<Rightarrow> bool" where
  "is_tick i f x \<longleftrightarrow> (\<exists>now data evs. x = (OpTrigger now i f data, True, evs))"

abbreviation (input) is_timer :: "int \<Rightarrow> bool" where "is_timer f \<equiv> f = FilterTimer \<or> f = FilterHrTimer"

lemma held_ticks_simps [simp]:
  "held_ticks i f [] = 0" "held_ticks i f (e # es) = (if is_event i f e then ek_data (ee_event e) else 0) + held_ticks i f es"
  "held_ticks i f (es @ es') = held_ticks i f es + held_ticks i f es'"
  by (simp_all add: held_ticks_def)

lemma held_ticks_none: "(i, f) \<notin> event_key ` set es \<Longrightarrow> held_ticks i f es = 0"
  by (induction es) (auto simp: is_event_key)

lemma held_ticks_update:
  "(\<And>e. event_key (g e) = event_key e \<and> ek_data (ee_event (g e)) = ek_data (ee_event e)) \<Longrightarrow> held_ticks i f (update_first p g es) = held_ticks i f es"
  by (induction es) (auto simp: is_event_key)

lemma held_ticks_remove: "(i, f) \<noteq> (j, h) \<Longrightarrow> held_ticks i f (remove_first (is_event j h) es) = held_ticks i f es"
  by (induction es) (auto simp: is_event_key)

lemma get_ticks:
  "is_timer f \<Longrightarrow> list_all event_ok es \<Longrightarrow> get_loop num c es = (ev, es') \<Longrightarrow> returned_ticks i f ev + held_ticks i f es' = held_ticks i f es"
proof (induction es arbitrary: c ev es')
  case (Cons e es)
  show ?case
  proof (cases "ee_is_triggered e")
    case False
    obtain ev2 es2 where g: "get_loop num c es = (ev2, es2)" by fastforce
    then show ?thesis using Cons.IH [OF Cons.prems(1) _ g] Cons.prems(2,3) False by auto
  next
    case True
    obtain ev2 es2 where g: "(if c + 1 = num then ([], es) else get_loop num (c + 1) es) = (ev2, es2)" by fastforce
    have ih: "returned_ticks i f ev2 + held_ticks i f es2 = held_ticks i f es"
      using g Cons.IH [OF Cons.prems(1), of "c + 1" ev2 es2] Cons.prems(2) by (auto simp: returned_ticks_def split: if_splits)
    have e: "ev = ee_event e # ev2" "es' = deliver e @ es2" using Cons.prems(3) g by (auto simp only: get_loop_triggered [OF True] prod.case prod.inject)
    have "held_ticks i f (deliver e) = 0"
      using Cons.prems(1,2) by (auto simp: deliver_def Let_def is_event_def event_Clear_def event_ok_def)
    then show ?thesis using ih e by (simp add: returned_ticks_def is_event_def)
  qed
qed (simp add: returned_ticks_def)

lemma trigger_ticks:
  assumes "is_timer f" "distinct (map event_key es)"
  shows "held_ticks i f (map (\<lambda>e. if is_event i f e then trigger_event now f data e else e) es) mod 18446744073709551616
    = (held_ticks i f es + (if list_ex (is_event i f) es then 1 else 0)) mod 18446744073709551616"
  using assms(2)
proof (induction es)
  case (Cons e es)
  let ?g = "\<lambda>e. if is_event i f e then trigger_event now f data e else e"
  show ?case
  proof (cases "is_event i f e")
    case True
    then have none: "(i, f) \<notin> event_key ` set es" using Cons.prems by (auto simp: is_event_key)
    have "map ?g es = es" by (rule map_idI) (use none in \<open>force simp: is_event_key\<close>)
    moreover have "is_event i f (trigger_event now f data e)" using True trigger_shape [of e] by (simp add: is_event_key same_shape_def)
    moreover have "ek_data (ee_event (trigger_event now f data e)) = add64 (ek_data (ee_event e)) 1"
      using assms(1) by (auto simp: trigger_event_def event_TriggerTimer_def)
    ultimately show ?thesis using True held_ticks_none [OF none] by (simp add: add64_def)
  next
    case False
    then show ?thesis using Cons by simp
  qed
qed simp

lemma trigger_other_ticks:
  "(i, f) \<noteq> (j, h) \<Longrightarrow> held_ticks i f (map (\<lambda>e. if is_event j h e then trigger_event now h data e else e) es) = held_ticks i f es"
proof (induction es)
  case (Cons e es)
  have "event_key (trigger_event now h data e) = event_key e" using trigger_shape [of e] by (simp add: same_shape_def)
  then show ?case using Cons by (auto simp: is_event_key)
qed simp

lemma schedule_ticks: "ScheduleEvent now j h q = Some (b, q') \<Longrightarrow> held_ticks i f (m_events q') = held_ticks i f (m_events q)"
  by (auto simp: ScheduleEvent_def event_key_def held_ticks_update split: if_splits)

lemma add_ticks:
  assumes "AddEvent now time ev q = Some (b, q')"
  shows "held_ticks i f (m_events q') = held_ticks i f (m_events q)"
proof -
  obtain d q1 where d: "AddEvent_insert time ev q = Some (d, q1)" using assms by (auto simp: AddEvent_def split: bind_splits)
  then have "held_ticks i f (m_events q1) = held_ticks i f (m_events q)"
    by (auto simp: AddEvent_insert_def event_key_def held_ticks_update Let_def split: bind_splits if_splits)
  then show ?thesis using assms d schedule_ticks [of now "ek_ident ev" "ek_filter ev" q1] by (auto simp: AddEvent_def split: if_splits)
qed

lemma do_ticks:
  assumes "eq_inv q" "eq_do x q = Some ((b, ev), q')" "is_timer f" "x \<noteq> OpRemove i f"
  shows "(returned_ticks i f ev + held_ticks i f (m_events q')) mod 18446744073709551616
    = (held_ticks i f (m_events q) + (if is_tick i f (x, b, ev) then 1 else 0)) mod 18446744073709551616"
proof -
  have nil: "returned_ticks i f [] = 0" by (simp add: returned_ticks_def)
  show ?thesis
  proof (cases x)
    case (OpAdd now time e)
    then show ?thesis using assms(2) add_ticks [of now time e q b q' i f] nil by (auto simp: no_events_def is_tick_def)
  next
    case (OpSchedule now j h)
    then show ?thesis using assms(2) schedule_ticks [of now j h q b q' i f] nil by (auto simp: no_events_def is_tick_def)
  next
    case (OpRemove j h)
    then show ?thesis using assms(2,4) held_ticks_remove [of i f j h] nil by (auto simp: no_events_def is_tick_def RemoveEvent_def)
  next
    case (OpTrigger now j h data)
    have d: "distinct (map event_key (m_events q))" using assms(1) by (simp add: eq_inv_ok)
    show ?thesis
    proof (cases "(i, f) = (j, h)")
      case True
      then show ?thesis using assms(2) OpTrigger trigger_ticks [OF assms(3) d, of i now data] nil by (auto simp: no_events_def is_tick_def TriggerEvent_def)
    next
      case False
      then show ?thesis using assms(2) OpTrigger trigger_other_ticks [OF False] nil by (auto simp: no_events_def is_tick_def TriggerEvent_def)
    qed
  next
    case (OpGet num)
    then show ?thesis using assms(1,2) get_ticks [OF assms(3), of "m_events q" num 0]
      by (auto simp: GetTriggeredEvents_def is_tick_def eq_inv_ok split: prod.splits)
  qed
qed

lemma mod_chain:
  fixes m :: nat
  assumes "(a + x) mod m = (b + y) mod m" "(r + b) mod m = (h + t) mod m"
  shows "(r + a + x) mod m = (h + (t + y)) mod m"
proof -
  have "(r + (a + x)) mod m = (r + (b + y)) mod m" by (rule mod_add_cong [OF refl assms(1)])
  moreover have "(r + b + y) mod m = (h + t + y) mod m" by (rule mod_add_cong [OF assms(2) refl])
  ultimately show ?thesis by (simp add: add.assoc)
qed

lemma run_ticks:
  "eq_inv q \<Longrightarrow> eq_run xs q = Some (rs, q') \<Longrightarrow> is_timer f \<Longrightarrow> OpRemove i f \<notin> set xs \<Longrightarrow>
   (returned_ticks i f (concat (map snd rs)) + held_ticks i f (m_events q')) mod 18446744073709551616
   = (held_ticks i f (m_events q) + length (filter (is_tick i f) (zip xs rs))) mod 18446744073709551616"
proof (induction xs arbitrary: q rs)
  case (Cons x xs)
  obtain b ev q1 rs1 where r: "eq_do x q = Some ((b, ev), q1)" "eq_run xs q1 = Some (rs1, q')" "rs = (b, ev) # rs1"
    using Cons.prems(2) by (auto split: bind_splits)
  have split: "returned_ticks i f (concat (map snd rs)) = returned_ticks i f ev + returned_ticks i f (concat (map snd rs1))"
    by (simp add: r(3) returned_ticks_def)
  have a: "(returned_ticks i f (concat (map snd rs1)) + held_ticks i f (m_events q')) mod 18446744073709551616
      = (held_ticks i f (m_events q1) + length (filter (is_tick i f) (zip xs rs1))) mod 18446744073709551616"
    using Cons.IH [OF do_inv [OF Cons.prems(1) r(1)] r(2) Cons.prems(3)] Cons.prems(4) by simp
  have b: "(returned_ticks i f ev + held_ticks i f (m_events q1)) mod 18446744073709551616
      = (held_ticks i f (m_events q) + (if is_tick i f (x, b, ev) then 1 else 0)) mod 18446744073709551616"
    by (rule do_ticks [OF Cons.prems(1) r(1) Cons.prems(3)]) (use Cons.prems(4) in auto)
  have c: "length (filter (is_tick i f) (zip (x # xs) rs)) = (if is_tick i f (x, b, ev) then 1 else 0) + length (filter (is_tick i f) (zip xs rs1))"
    by (simp add: r(3))
  show ?case unfolding split c by (rule mod_chain [OF a b])
qed (simp add: returned_ticks_def)

section \<open>Intervals and timeouts\<close>

text \<open>A high-resolution timer fires one nanosecond early, and a fraction of more than half a second overflows.\<close>

lemma hr_interval:
  assumes "0 < n" "n \<le> 500000000" "in_s64 (s * 1000000000)" "in_s64 (s * 1000000000 + n - 1)"
  shows "hr_bintime s n \<bind> bintime_interval = Some (s * 1000000000 + n - 1)"
proof -
  define a where "a = (n * 0x44b82fa09) div 4294967296"
  have "4294967296 * a + (n * 0x44b82fa09) mod 4294967296 = n * 0x44b82fa09" by (simp add: a_def)
  moreover have "0 \<le> (n * 0x44b82fa09) mod 4294967296" "(n * 0x44b82fa09) mod 4294967296 < 4294967296" by simp_all
  ultimately have a: "4294967296 * a \<le> n * 0x44b82fa09" "n * 0x44b82fa09 < 4294967296 * a + 4294967296" by linarith+
  have "(n - 1) * 4294967296 \<le> 1000000000 * a" using a assms(1,2) by (simp add: left_diff_distrib)
  moreover have "1000000000 * a < n * 4294967296" using a assms(1,2) by linarith
  ultimately have "1000000000 * a div 4294967296 = n - 1"
    by (intro int_div_pos_eq [where r = "1000000000 * a - (n - 1) * 4294967296"]) (simp_all add: algebra_simps)
  moreover have "in_s64 (n * 0x44b82fa09)" using assms(1,2) by (simp add: in_s64_def)
  ultimately show ?thesis using assms(3,4) by (simp add: hr_bintime_def bintime_interval_def Let_def flip: a_def) (simp add: algebra_simps)
qed

lemma hr_interval_overflow: "500000000 < n \<Longrightarrow> n < 1000000000 \<Longrightarrow> hr_bintime s n = None"
  by (simp add: hr_bintime_def in_s64_def)

text \<open>A timeout of \<open>2^32\<close> microseconds becomes a poll.\<close>

lemma kevent_timeout_wraps: "kevent_micros 4294 967296000 = Some 0"
  by (simp add: kevent_micros_def in_s64_def)

text \<open>A periodic timer does not drift: the next expiration is one interval after the last, whenever the callback runs.\<close>

lemma schedule_expiry:
  assumes "eq_inv q" "e \<in> set (m_events q)" "is_event i f e" "is_timer f" "ee_timer e = Some expiry"
  shows "\<exists>q'. ScheduleEvent now i f q = Some (True, q') \<and> e\<lparr>ee_timer := Some (expiry + ee_timer_interval e)\<rparr> \<in> set (m_events q')"
proof -
  let ?g = "\<lambda>e. e\<lparr>ee_timer := Some ((case ee_timer e of None \<Rightarrow> now | Some expiry \<Rightarrow> expiry) + ee_timer_interval e)\<rparr>"
  have "?g e \<in> set (update_first (is_event i f) ?g es)" if "e \<in> set es" "distinct (map event_key es)" for es
    using that by (induction es) (use assms(3) in \<open>force simp: is_event_key\<close>)+
  then have "?g e \<in> set (update_first (is_event i f) ?g (m_events q))" using assms(1,2) by (simp add: eq_inv_ok)
  moreover have "list_ex (is_event i f) (m_events q)" using assms(2,3) by (auto simp: list_ex_iff)
  ultimately show ?thesis using assms(4,5) by (auto simp: ScheduleEvent_def)
qed

section \<open>Claims\<close>

text \<open>C22: Whatever operations were made on a queue, retrieval of up to num events returns exactly the oldest triggered events, in the order of
  registration, and changes only these: one-shot events are removed, events with the clear flag are reset, and the others stay
  triggered.\<close>

theorem get_triggered_exact:
  assumes "eq_run ops equeue_init = Some (rs, q)" "0 < num"
  shows "let D = take (nat num) (filter ee_is_triggered (m_events q)) in
    GetTriggeredEvents num q = (map ee_event D, q\<lparr>m_events := retrieved D (m_events q)\<rparr>)"
proof -
  have "distinct (m_events q)" using run_inv [OF init_inv assms(1)] by (simp add: eq_inv_ok distinct_map)
  then show ?thesis using get_loop_exact [of "m_events q" 0 num] assms(2) by (simp add: GetTriggeredEvents_def Let_def)
qed

definition sample_ops :: "eq_op list" where
  "sample_ops = [OpAdd 0 (0, 0) (user_event 1 FlagAdd), OpAdd 0 (0, 0) (user_event 2 (FlagAdd OR FlagClear)),
     OpAdd 0 (0, 0) \<lparr>ek_ident = 3, ek_filter = FilterTimer, ek_flags = FlagAdd, ek_fflags = 0, ek_data = 5, ek_udata = 0\<rparr>,
     OpTrigger 0 3 FilterTimer 0, OpTrigger 0 2 FilterUser 7, OpTrigger 0 3 FilterTimer 0, OpGet 1, OpGet 5, OpTrigger 0 3 FilterTimer 0]"

definition sample_queue :: EqueueInternal where
  "sample_queue = snd (the (eq_run sample_ops equeue_init))"

lemmas eq_eval = sample_ops_def user_event_def u64_of_int_def no_events_def AddEvent_def AddEvent_insert_def event_interval_def
  s64_of_u64_def in_s64_def ScheduleEvent_def TriggerEvent_def trigger_event_def event_TriggerTimer_def event_TriggerUser_def add64_def
  GetTriggeredEvents_def event_Clear_def is_event_def equeue_init_def

lemma sample_run:
  "\<exists>rs. eq_run sample_ops equeue_init = Some (rs, sample_queue) \<and> returned_ticks 3 FilterTimer (concat (map snd rs)) = 2"
  "filter ee_is_triggered (m_events sample_queue) \<noteq> []" "held_ticks 3 FilterTimer (m_events sample_queue) = 1"
  by (simp_all add: sample_queue_def eq_eval returned_ticks_def)

theorem get_triggered_exact_witness:
  "\<exists>D. D = take (nat 1) (filter ee_is_triggered (m_events sample_queue)) \<and>
    GetTriggeredEvents 1 sample_queue = (map ee_event D, sample_queue\<lparr>m_events := retrieved D (m_events sample_queue)\<rparr>)"
proof -
  obtain rs where r: "eq_run sample_ops equeue_init = Some (rs, sample_queue)" using sample_run(1) by blast
  show ?thesis using get_triggered_exact [OF r, of 1] by (simp add: Let_def)
qed

text \<open>C21: No expiration of a timer is lost or counted twice: for any operations on a queue that do not remove the timer, the counts that
  retrieval returned and the count that the event still holds add up to the number of triggers that found the timer, modulo 2 to the 64.\<close>

theorem timer_ticks_conserved:
  assumes "eq_run ops equeue_init = Some (rs, q)" "f = FilterTimer \<or> f = FilterHrTimer" "OpRemove i f \<notin> set ops"
  shows "(returned_ticks i f (concat (map snd rs)) + held_ticks i f (m_events q)) mod 18446744073709551616
    = length (filter (is_tick i f) (zip ops rs)) mod 18446744073709551616"
  using run_ticks [OF init_inv assms(1,2,3)] by (simp add: equeue_init_def)

theorem timer_ticks_conserved_witness:
  "\<exists>rs. eq_run sample_ops equeue_init = Some (rs, sample_queue) \<and>
    3 = length (filter (is_tick 3 FilterTimer) (zip sample_ops rs)) mod 18446744073709551616"
proof -
  obtain rs where r: "eq_run sample_ops equeue_init = Some (rs, sample_queue)" "returned_ticks 3 FilterTimer (concat (map snd rs)) = 2"
    using sample_run(1) by blast
  have "OpRemove 3 FilterTimer \<notin> set sample_ops" by (simp add: sample_ops_def)
  then show ?thesis using timer_ticks_conserved [OF r(1), of FilterTimer 3] r sample_run(3) by simp
qed

end
