(* ===== verification/Equeue_Wait.thy ===== *)
theory Equeue_Wait
  imports Equeue
begin

text \<open>
  Threads that wait for the events of a queue: \<open>WaitForEvents\<close> and \<open>WaitForSmallTimer\<close> of \<^verbatim>\<open>src/src/core/libraries/kernel/equeue.cpp\<close> as steps of
  any number of threads, with the operations of \<open>Equeue\<close> as steps of their own.  The condition variable of the queue is the set of threads
  that sleep on it: \<open>notify_one\<close> moves any one of them, and a thread may wake up without a notification.  \<open>TriggerEvent\<close> notifies
  after it has released the lock.  When a timeout passes is free.  The poll, which the code makes without the lock, is one step here.

  The theorem says that no event is lost: while a triggered event and a sleeping thread exist, a thread is about to look at the
  queue or to notify.  It needs that every event is reset or removed by its retrieval; for level-triggered user events it fails.
\<close>

type_synonym thread = nat

section \<open>Steps\<close>

text \<open>\<open>WCheck num timed\<close> is about to evaluate the predicate of the wait, \<open>WAsleep\<close> sleeps, \<open>WReady\<close> has been woken, \<open>WSmall num deadline\<close> is in the
  loop of \<open>WaitForSmallTimer\<close>, \<open>WNotify\<close> is about to notify.\<close>

datatype EqPc = WIdle | WCheck int bool | WAsleep int bool | WReady int bool | WSmall int "int option" | WNotify

record eqw_sys =
  ew_queue :: EqueueInternal
  ew_pc :: "thread \<Rightarrow> EqPc"
  ew_out :: "thread \<Rightarrow> OrbisKernelEvent list"

definition ew_at :: "thread \<Rightarrow> EqPc \<Rightarrow> EqueueInternal \<Rightarrow> eqw_sys \<Rightarrow> eqw_sys" where
  "ew_at t pc q s = s\<lparr>ew_queue := q, ew_pc := (ew_pc s)(t := pc)\<rparr>"

definition ew_return :: "thread \<Rightarrow> OrbisKernelEvent list \<times> EqueueInternal \<Rightarrow> eqw_sys \<Rightarrow> eqw_sys" where
  "ew_return t r s = ew_at t WIdle (snd r) (s\<lparr>ew_out := (ew_out s)(t := fst r)\<rparr>)"

text \<open>The evaluation of the predicate by a thread that waits: it returns with the events or sleeps.\<close>

definition ew_look :: "thread \<Rightarrow> int \<Rightarrow> bool \<Rightarrow> eqw_sys \<Rightarrow> eqw_sys" where
  "ew_look t num timed s = (let r = GetTriggeredEvents num (ew_queue s) in
     if length (fst r) > 0 then ew_return t r s else ew_at t (WAsleep num timed) (snd r) s)"

definition ew_small :: "thread \<Rightarrow> int \<Rightarrow> int option \<Rightarrow> int \<Rightarrow> eqw_sys \<Rightarrow> eqw_sys" where
  "ew_small t num deadline now s = (let r = small_pass now num (ew_queue s) in
     if length (fst r) > 0 then ew_return t r s
     else if deadline = None \<or> now < the deadline then ew_at t (WSmall num deadline) (snd r) s
     else ew_return t ([], snd r) s)"

text \<open>An event that stays triggered when it is retrieved.\<close>

definition level_event :: "OrbisKernelEvent \<Rightarrow> bool" where
  "level_event ev \<longleftrightarrow> ek_filter ev = FilterUser \<and> ek_flags ev AND FlagClear = 0 \<and> ek_flags ev AND FlagOneShot = 0"

text \<open>One step of thread \<open>t\<close>.  The flag says whether it registers a level-triggered event.\<close>

inductive eqw_step :: "thread \<Rightarrow> bool \<Rightarrow> eqw_sys \<Rightarrow> eqw_sys \<Rightarrow> bool" for t where
  w_poll: "ew_pc s t = WIdle \<Longrightarrow> 1 \<le> num \<Longrightarrow> eqw_step t False s (ew_return t (GetTriggeredEvents num (ew_queue s)) s)"
| w_begin: "ew_pc s t = WIdle \<Longrightarrow> 1 \<le> num \<Longrightarrow>
    eqw_step t False s (ew_at t (if HasSmallTimer (ew_queue s) then WSmall num deadline else WCheck num (deadline \<noteq> None)) (ew_queue s) s)"
| w_check: "ew_pc s t = WCheck num timed \<Longrightarrow> eqw_step t False s (ew_look t num timed s)"
| w_ready: "ew_pc s t = WReady num timed \<Longrightarrow> eqw_step t False s (ew_look t num timed s)"
| w_timeout: "ew_pc s t = WAsleep num True \<or> ew_pc s t = WReady num True \<Longrightarrow>
    eqw_step t False s (ew_return t (GetTriggeredEvents num (ew_queue s)) s)"
| w_spurious: "ew_pc s t = WAsleep num timed \<Longrightarrow> eqw_step t False s (ew_at t (WReady num timed) (ew_queue s) s)"
| w_small: "ew_pc s t = WSmall num deadline \<Longrightarrow> eqw_step t False s (ew_small t num deadline now s)"
| w_trigger: "ew_pc s t = WIdle \<Longrightarrow> eqw_step t False s (ew_at t WNotify (snd (TriggerEvent now i f data (ew_queue s))) s)"
| w_notify: "ew_pc s t = WNotify \<Longrightarrow> ew_pc s u = WAsleep num timed \<Longrightarrow>
    eqw_step t False s (ew_at u (WReady num timed) (ew_queue s) (ew_at t WIdle (ew_queue s) s))"
| w_nobody: "ew_pc s t = WNotify \<Longrightarrow> (\<And>u num timed. ew_pc s u \<noteq> WAsleep num timed) \<Longrightarrow> eqw_step t False s (ew_at t WIdle (ew_queue s) s)"
| w_insert: "ew_pc s t = WIdle \<Longrightarrow> AddEvent_insert time ev (ew_queue s) = Some (b, q) \<Longrightarrow> eqw_step t (level_event ev) s (ew_at t WIdle q s)"
| w_schedule: "ew_pc s t = WIdle \<Longrightarrow> ScheduleEvent now i f (ew_queue s) = Some (b, q) \<Longrightarrow> eqw_step t False s (ew_at t WIdle q s)"
| w_remove: "ew_pc s t = WIdle \<Longrightarrow> eqw_step t False s (ew_at t WIdle (snd (RemoveEvent i f (ew_queue s))) s)"
| w_add_small: "ew_pc s t = WIdle \<Longrightarrow> AddSmallTimer now time ev (ew_queue s) = Some q \<Longrightarrow> eqw_step t False s (ew_at t WIdle q s)"
| w_remove_small: "ew_pc s t = WIdle \<Longrightarrow> eqw_step t False s (ew_at t WIdle (snd (RemoveSmallTimer i (ew_queue s))) s)"

definition eqw_init :: eqw_sys where
  "eqw_init = \<lparr>ew_queue = equeue_init, ew_pc = (\<lambda>_. WIdle), ew_out = (\<lambda>_. [])\<rparr>"

text \<open>The reachable states, without or with level-triggered events.\<close>

inductive eqw_run :: "bool \<Rightarrow> eqw_sys \<Rightarrow> bool" for level where
  run_start: "eqw_run level eqw_init"
| run_next: "eqw_run level s \<Longrightarrow> eqw_step t l s s' \<Longrightarrow> l \<longrightarrow> level \<Longrightarrow> eqw_run level s'"

section \<open>Triggered events\<close>

definition pending :: "EqueueEvent list \<Rightarrow> nat" where
  "pending es = length (filter ee_is_triggered es)"

lemma pending_simps [simp]:
  "pending [] = 0" "pending (e # es) = (if ee_is_triggered e then 1 else 0) + pending es" "pending (es @ es') = pending es + pending es'"
  by (simp_all add: pending_def)

definition edge :: "EqueueEvent \<Rightarrow> bool" where
  "edge e \<longleftrightarrow> ek_flags (ee_event e) AND FlagClear \<noteq> 0 \<or> ek_flags (ee_event e) AND FlagOneShot \<noteq> 0"

lemma edge_shape: "same_shape e e' \<Longrightarrow> edge e' = edge e"
  by (simp add: edge_def same_shape_def)

lemma pending_deliver: "edge e \<Longrightarrow> pending (deliver e) = 0"
  by (auto simp: edge_def deliver_def Let_def event_Clear_def)

lemma get_pending:
  "list_all edge es \<Longrightarrow> get_loop num c es = (ev, es') \<Longrightarrow> pending es' + length ev = pending es \<and> list_all edge es'"
proof (induction es arbitrary: c ev es')
  case (Cons e es)
  show ?case
  proof (cases "ee_is_triggered e")
    case False
    obtain ev2 es2 where "get_loop num c es = (ev2, es2)" by fastforce
    then show ?thesis using Cons.IH [of c ev2 es2] Cons.prems False by auto
  next
    case True
    obtain ev2 es2 where g: "(if c + 1 = num then ([], es) else get_loop num (c + 1) es) = (ev2, es2)" by fastforce
    have ih: "pending es2 + length ev2 = pending es \<and> list_all edge es2"
      using g Cons.IH [of "c + 1" ev2 es2] Cons.prems(1) by (auto split: if_splits)
    have e: "ev = ee_event e # ev2" "es' = deliver e @ es2" using Cons.prems(2) g by (auto simp only: get_loop_triggered [OF True] prod.case prod.inject)
    have "list_all edge (deliver e)" using Cons.prems(1) edge_shape [OF clear_shape] by (auto simp: deliver_def Let_def)
    then show ?thesis using ih e True pending_deliver [of e] Cons.prems(1) by simp
  qed
qed simp

lemma get_none: "c < num \<Longrightarrow> get_loop num c es = ([], es') \<Longrightarrow> pending es = 0"
proof (induction es arbitrary: es')
  case (Cons e es)
  show ?case
  proof (cases "ee_is_triggered e")
    case True
    then show ?thesis using Cons.prems(2) by (simp only: get_loop_triggered [OF True]) (simp split: prod.splits)
  next
    case False
    then show ?thesis using Cons by (auto split: prod.splits)
  qed
qed simp

lemma trigger_pending:
  assumes "distinct (map event_key es)"
  shows "pending (map (\<lambda>e. if is_event i f e then trigger_event now f data e else e) es) \<le> pending es + 1"
  using assms
proof (induction es)
  case (Cons e es)
  let ?g = "\<lambda>e. if is_event i f e then trigger_event now f data e else e"
  show ?case
  proof (cases "is_event i f e")
    case True
    then have "(i, f) \<notin> event_key ` set es" using Cons.prems by (auto simp: is_event_key)
    then have "map ?g es = es" by (intro map_idI) (force simp: is_event_key)
    then show ?thesis by simp
  qed (use Cons in simp)
qed simp

lemma pending_remove: "pending (remove_first p es) \<le> pending es"
  by (induction es) auto

lemma pending_update: "(\<And>e. ee_is_triggered (g e) = ee_is_triggered e) \<Longrightarrow> pending (update_first p g es) = pending es"
  by (induction es) auto

lemma edge_update: "(\<And>e. edge (g e) = edge e) \<Longrightarrow> list_all edge (update_first p g es) = list_all edge es"
  by (induction es) auto

lemma insert_edge:
  assumes "AddEvent_insert time ev q = Some (b, q')" "list_all edge (m_events q)" "\<not> level_event ev"
  shows "list_all edge (m_events q') \<and> pending (m_events q') = pending (m_events q)"
proof (cases "list_ex (is_event (ek_ident ev) (ek_filter ev)) (m_events q)")
  case True
  then show ?thesis using assms by (auto simp: AddEvent_insert_def edge_def pending_update edge_update Let_def split: bind_splits)
next
  case False
  have low: "(n AND 0xfffe) AND FlagClear = n AND FlagClear" "(n AND 0xfffe) AND FlagOneShot = n AND FlagOneShot" for n :: nat
    by (simp_all add: and.assoc)
  have user: "ek_flags ev AND FlagClear \<noteq> 0 \<or> ek_flags ev AND FlagOneShot \<noteq> 0" if "ek_filter ev = FilterUser"
    using that assms(3) by (auto simp: level_event_def)
  show ?thesis using assms(1,2) False clear_flag_set user low
    by (auto simp: AddEvent_insert_def edge_def Let_def simp del: neq0_conv split: bind_splits if_splits)
qed

section \<open>The invariant\<close>

fun wait_num :: "EqPc \<Rightarrow> int option" where
  "wait_num (WCheck num timed) = Some num"
| "wait_num (WAsleep num timed) = Some num"
| "wait_num (WReady num timed) = Some num"
| "wait_num pc = None"

fun asleep :: "EqPc \<Rightarrow> bool" where
  "asleep (WAsleep num timed) = True"
| "asleep pc = False"

text \<open>A thread that is about to look at the queue after a wake-up, or to notify.\<close>

fun active :: "EqPc \<Rightarrow> bool" where
  "active (WReady num timed) = True"
| "active WNotify = True"
| "active pc = False"

abbreviation (input) actives :: "eqw_sys \<Rightarrow> thread set" where "actives s \<equiv> {u. active (ew_pc s u)}"

text \<open>While a thread sleeps there are at most as many triggered events as active threads.\<close>

definition eqw_inv :: "eqw_sys \<Rightarrow> bool" where
  "eqw_inv s \<longleftrightarrow> eq_inv (ew_queue s) \<and> list_all edge (m_events (ew_queue s)) \<and> finite (actives s) \<and>
     (\<forall>t num. wait_num (ew_pc s t) = Some num \<longrightarrow> 1 \<le> num) \<and>
     ((\<exists>t. asleep (ew_pc s t)) \<longrightarrow> pending (m_events (ew_queue s)) \<le> card (actives s))"

lemma ew_at_simps [simp]:
  "ew_queue (ew_at t pc q s) = q" "ew_pc (ew_at t pc q s) = (ew_pc s)(t := pc)" "ew_queue (ew_return t r s) = snd r"
  "ew_pc (ew_return t r s) = (ew_pc s)(t := WIdle)"
  by (simp_all add: ew_at_def ew_return_def)

lemma actives_move:
  assumes "finite {u. active (f u)}"
  shows "finite {u. active ((f(t := p)) u)}"
    "card {u. active ((f(t := p)) u)} + (if active (f t) then 1 else 0) = card {u. active (f u)} + (if active p then 1 else 0)"
proof -
  let ?A = "{u. active (f u)} - {t}"
  have s: "{u. active ((f(t := p)) u)} = (if active p then insert t ?A else ?A)" "{u. active (f u)} = (if active (f t) then insert t ?A else ?A)" by auto
  have fin: "finite ?A" using assms by simp
  have ins: "card (insert t ?A) = Suc (card ?A)" using fin by (subst card_insert_disjoint) auto
  show "finite {u. active ((f(t := p)) u)}" using fin by (subst s(1)) simp
  have "card {u. active ((f(t := p)) u)} = card ?A + (if active p then 1 else 0)" using ins by (subst s(1)) simp
  moreover have "card {u. active (f u)} = card ?A + (if active (f t) then 1 else 0)" using ins arg_cong [OF s(2), of card] by (cases "active (f t)") (simp_all only: if_True if_False add_0_right)
  ultimately show "card {u. active ((f(t := p)) u)} + (if active (f t) then 1 else 0) = card {u. active (f u)} + (if active p then 1 else 0)"
    by linarith
qed

text \<open>A step that moves one thread to \<open>p\<close> and the queue to \<open>q\<close>.\<close>

lemma inv_move:
  assumes inv: "eqw_inv s" and s': "ew_queue s' = q" "ew_pc s' = (ew_pc s)(t := p)" and q: "eq_inv q" "list_all edge (m_events q)"
    and num: "\<And>n. wait_num p = Some n \<Longrightarrow> 1 \<le> n"
    and count: "asleep p \<or> pending (m_events (ew_queue s)) \<le> card (actives s) \<Longrightarrow>
      pending (m_events q) + (if active (ew_pc s t) then 1 else 0) \<le> card (actives s) + (if active p then 1 else 0)"
  shows "eqw_inv s'"
proof -
  have f: "finite {u. active (ew_pc s u)}" using inv by (simp add: eqw_inv_def)
  note a = actives_move [OF f, of t p]
  have "pending (m_events q) \<le> card (actives s')" if "asleep (ew_pc s' v)" for v
  proof -
    have "asleep p \<or> asleep (ew_pc s v)" using that s'(2) by (auto split: if_splits)
    then have "asleep p \<or> pending (m_events (ew_queue s)) \<le> card (actives s)" using inv unfolding eqw_inv_def by blast
    then show ?thesis using count a(2) by (simp add: s'(2))
  qed
  moreover have "1 \<le> n" if "wait_num (ew_pc s' v) = Some n" for v n
    using that num inv unfolding eqw_inv_def s'(2) by (auto split: if_splits)
  moreover have "finite (actives s')" using a(1) by (simp add: s'(2))
  ultimately show ?thesis using q s'(1) unfolding eqw_inv_def by blast
qed

lemma get_facts:
  assumes "eqw_inv s"
  shows "eq_inv (snd (GetTriggeredEvents num (ew_queue s)))" "list_all edge (m_events (snd (GetTriggeredEvents num (ew_queue s))))"
    "pending (m_events (snd (GetTriggeredEvents num (ew_queue s)))) + length (fst (GetTriggeredEvents num (ew_queue s))) = pending (m_events (ew_queue s))"
    "1 \<le> num \<Longrightarrow> length (fst (GetTriggeredEvents num (ew_queue s))) = 0 \<Longrightarrow> pending (m_events (ew_queue s)) = 0"
proof -
  have i: "eq_inv (ew_queue s)" "list_all edge (m_events (ew_queue s))" using assms by (simp_all add: eqw_inv_def)
  show "eq_inv (snd (GetTriggeredEvents num (ew_queue s)))" using get_inv [OF i(1)] by (metis prod.collapse)
  obtain ev es where g: "get_loop num 0 (m_events (ew_queue s)) = (ev, es)" by fastforce
  show "list_all edge (m_events (snd (GetTriggeredEvents num (ew_queue s))))"
    "pending (m_events (snd (GetTriggeredEvents num (ew_queue s)))) + length (fst (GetTriggeredEvents num (ew_queue s))) = pending (m_events (ew_queue s))"
    using get_pending [OF i(2) g] g by (simp_all add: GetTriggeredEvents_def)
  show "pending (m_events (ew_queue s)) = 0" if "1 \<le> num" "length (fst (GetTriggeredEvents num (ew_queue s))) = 0"
    using get_none [of 0 num "m_events (ew_queue s)" es] g that by (simp add: GetTriggeredEvents_def)
qed

lemma look_inv:
  assumes inv: "eqw_inv s" and t: "wait_num (ew_pc s t) = Some num"
  shows "eqw_inv (ew_look t num timed s)"
proof -
  note g = get_facts [OF inv, of num]
  have n: "1 \<le> num" using inv t by (auto simp: eqw_inv_def)
  show ?thesis
  proof (cases "length (fst (GetTriggeredEvents num (ew_queue s))) > 0")
    case True
    then have e: "ew_look t num timed s = ew_return t (GetTriggeredEvents num (ew_queue s)) s" by (simp add: ew_look_def Let_def)
    show ?thesis unfolding e by (rule inv_move [OF inv _ _ g(1,2), of _ t WIdle]) (use True g(3) in \<open>auto simp del: length_greater_0_conv\<close>)
  next
    case False
    then have e: "ew_look t num timed s = ew_at t (WAsleep num timed) (snd (GetTriggeredEvents num (ew_queue s))) s" by (simp add: ew_look_def Let_def)
    have fin: "finite {u. active (ew_pc s u)}" using inv by (simp add: eqw_inv_def)
    have p0: "pending (m_events (snd (GetTriggeredEvents num (ew_queue s)))) = 0" using g(3,4) False n by simp
    have "(if active (ew_pc s t) then 1 else 0) \<le> card (actives s)" using actives_move(2) [OF fin, of t WIdle] by (simp split: if_splits)
    then show ?thesis unfolding e by (intro inv_move [OF inv _ _ g(1,2), of _ t "WAsleep num timed"]) (use n p0 in auto)
  qed
qed

lemma return_inv:
  assumes inv: "eqw_inv s" and t: "1 \<le> num" "ew_pc s t \<noteq> WNotify"
  shows "eqw_inv (ew_return t (GetTriggeredEvents num (ew_queue s)) s)"
proof -
  note g = get_facts [OF inv, of num]
  have fin: "finite {u. active (ew_pc s u)}" using inv by (simp add: eqw_inv_def)
  have a: "(if active (ew_pc s t) then 1 else 0) \<le> card (actives s)" using actives_move(2) [OF fin, of t WIdle] by (simp split: if_splits)
  show ?thesis
  proof (rule inv_move [OF inv _ _ g(1,2), of _ t WIdle])
    assume "asleep WIdle \<or> pending (m_events (ew_queue s)) \<le> card (actives s)"
    then show "pending (m_events (snd (GetTriggeredEvents num (ew_queue s)))) + (if active (ew_pc s t) then 1 else 0)
        \<le> card (actives s) + (if active WIdle then 1 else 0)"
      using g(3,4) t(1) a by (cases "length (fst (GetTriggeredEvents num (ew_queue s)))") (auto simp del: length_0_conv)
  qed simp_all
qed

lemma queue_change_inv:
  assumes "eqw_inv s" "ew_pc s t = WIdle" "eq_inv q" "list_all edge (m_events q)" "pending (m_events q) \<le> pending (m_events (ew_queue s))"
  shows "eqw_inv (ew_at t WIdle q s)"
  by (rule inv_move [OF assms(1) _ _ assms(3,4), of _ t WIdle]) (use assms(2,5) in auto)

lemma small_events: "m_events (snd (small_pass now num q)) = m_events q" "eq_inv (snd (small_pass now num q)) = eq_inv q"
  by (simp_all add: small_pass_def eq_inv_def split: prod.split)

lemma notify_inv:
  assumes "eqw_inv s" "ew_pc s t = WNotify" "ew_pc s u = WAsleep num timed"
  shows "eqw_inv (ew_at u (WReady num timed) (ew_queue s) (ew_at t WIdle (ew_queue s) s))"
proof -
  let ?s' = "ew_at u (WReady num timed) (ew_queue s) (ew_at t WIdle (ew_queue s) s)"
  have f: "finite {v. active (ew_pc s v)}" using assms(1) by (simp add: eqw_inv_def)
  note a = actives_move [OF f, of t WIdle] and b = actives_move [OF actives_move(1) [OF f, of t WIdle], of u "WReady num timed"]
  have ut: "u \<noteq> t" using assms(2,3) by auto
  have pc: "ew_pc ?s' = (ew_pc s)(t := WIdle, u := WReady num timed)" by simp
  have u: "((ew_pc s)(t := WIdle)) u = WAsleep num timed" using ut assms(3) by simp
  have c: "card (actives ?s') = card (actives s)" "finite (actives ?s')" unfolding pc
    using a(2) b assms(2) u by (simp_all del: fun_upd_apply)
  have "asleep (ew_pc s u)" using assms(3) by simp
  then have "pending (m_events (ew_queue s)) \<le> card (actives s)" using assms(1) unfolding eqw_inv_def by blast
  moreover have "1 \<le> n" if "wait_num (ew_pc ?s' v) = Some n" for v n
  proof -
    have "wait_num (ew_pc s v) = Some n" using that assms(3) by (auto split: if_splits)
    then show ?thesis using assms(1) unfolding eqw_inv_def by blast
  qed
  ultimately show ?thesis using assms(1) c unfolding eqw_inv_def by simp
qed

lemma eqw_step_inv: "eqw_step t l s s' \<Longrightarrow> \<not> l \<Longrightarrow> eqw_inv s \<Longrightarrow> eqw_inv s'"
proof (induction rule: eqw_step.induct)
  case (w_poll s num)
  then show ?case by (intro return_inv) auto
next
  case (w_begin s num deadline)
  then have "eq_inv (ew_queue s)" "list_all edge (m_events (ew_queue s))" by (simp_all add: eqw_inv_def)
  then show ?case by (intro inv_move [OF w_begin(4), of _ "ew_queue s" t "if HasSmallTimer (ew_queue s) then WSmall num deadline else WCheck num (deadline \<noteq> None)"])
      (use w_begin(1,2) in \<open>auto split: if_splits\<close>)
next
  case (w_timeout s num)
  then have "wait_num (ew_pc s t) = Some num" "ew_pc s t \<noteq> WNotify" by auto
  then show ?case using w_timeout(3) by (intro return_inv) (auto simp: eqw_inv_def)
next
  case (w_spurious s num timed)
  then have "eq_inv (ew_queue s)" "list_all edge (m_events (ew_queue s))" "1 \<le> num" unfolding eqw_inv_def by (auto dest: spec [of _ t])
  moreover have "\<exists>t. asleep (ew_pc s t)" using w_spurious(1) by (intro exI [of _ t]) simp
  ultimately show ?case
    by (intro inv_move [OF w_spurious(3), of _ "ew_queue s" t "WReady num timed"]) (use w_spurious(1,3) in \<open>auto simp: eqw_inv_def\<close>)
next
  case (w_small s num deadline now)
  note q = small_events [of now num "ew_queue s"]
  have i: "eq_inv (ew_queue s)" "list_all edge (m_events (ew_queue s))" using w_small(3) by (simp_all add: eqw_inv_def)
  define p where "p = ew_pc (ew_small t num deadline now s) t"
  have p: "p = WIdle \<or> p = WSmall num deadline" by (simp add: p_def ew_small_def Let_def)
  show ?case by (rule inv_move [OF w_small(3), of _ "snd (small_pass now num (ew_queue s))" t p])
      (use p q i w_small(1) in \<open>auto simp: ew_small_def p_def Let_def\<close>)
next
  case (w_trigger s now i f data)
  have i: "eq_inv (ew_queue s)" "list_all edge (m_events (ew_queue s))" using w_trigger(3) by (simp_all add: eqw_inv_def)
  have ev: "m_events (snd (TriggerEvent now i f data (ew_queue s))) = map (\<lambda>e. if is_event i f e then trigger_event now f data e else e) (m_events (ew_queue s))"
    by (simp add: TriggerEvent_def)
  have "list_all edge (m_events (snd (TriggerEvent now i f data (ew_queue s))))"
    using i(2) edge_shape [OF trigger_shape] unfolding ev by (auto simp: list_all_iff)
  moreover have "pending (m_events (snd (TriggerEvent now i f data (ew_queue s)))) \<le> pending (m_events (ew_queue s)) + 1"
    unfolding ev using trigger_pending i(1) by (simp add: eq_inv_ok)
  ultimately show ?case by (intro inv_move [OF w_trigger(3), of _ "snd (TriggerEvent now i f data (ew_queue s))" t WNotify])
      (use w_trigger(1) trigger_inv [OF i(1)] in auto)
next
  case (w_nobody s)
  have i: "eq_inv (ew_queue s)" "list_all edge (m_events (ew_queue s))" using w_nobody(4) by (simp_all add: eqw_inv_def)
  have f: "finite {v. active (ew_pc s v)}" using w_nobody(4) by (simp add: eqw_inv_def)
  have none: "\<not> asleep (ew_pc s v)" for v using w_nobody(2) [of v] by (cases "ew_pc s v") auto
  have "\<not> asleep (((ew_pc s)(t := WIdle)) v)" for v using none by simp
  then show ?case using w_nobody(4) actives_move(1) [OF f, of t WIdle] unfolding eqw_inv_def ew_at_simps by auto
next
  case (w_insert s time ev b q)
  have i: "eq_inv (ew_queue s)" "list_all edge (m_events (ew_queue s))" using w_insert(4) by (simp_all add: eqw_inv_def)
  show ?case using insert_edge [OF w_insert(2) i(2) w_insert(3)] add_insert_inv [OF i(1) w_insert(2)]
    by (intro queue_change_inv [OF w_insert(4,1)]) auto
next
  case (w_schedule s now i f b q)
  have k: "eq_inv (ew_queue s)" "list_all edge (m_events (ew_queue s))" using w_schedule(4) by (simp_all add: eqw_inv_def)
  have "list_all edge (m_events q) \<and> pending (m_events q) = pending (m_events (ew_queue s))"
    using w_schedule(2) k(2) by (auto simp: ScheduleEvent_def edge_def pending_update edge_update split: if_splits)
  then show ?case using schedule_inv [OF k(1) w_schedule(2)] by (intro queue_change_inv [OF w_schedule(4,1)]) auto
next
  case (w_remove s i f)
  have k: "eq_inv (ew_queue s)" "list_all edge (m_events (ew_queue s))" using w_remove(3) by (simp_all add: eqw_inv_def)
  show ?case using remove_inv [OF k(1)] set_remove_first k(2)
    by (intro queue_change_inv [OF w_remove(3,1)]) (auto simp: RemoveEvent_def list_all_iff pending_remove dest: subsetD [OF set_remove_first])
next
  case (w_add_small s now time ev q)
  have "m_events q = m_events (ew_queue s)" using w_add_small(2) by (auto simp: AddSmallTimer_def)
  then show ?case using w_add_small(4) by (intro queue_change_inv [OF w_add_small(4,1)]) (simp_all add: eqw_inv_def eq_inv_def)
next
  case (w_remove_small s i)
  have "m_events (snd (RemoveSmallTimer i (ew_queue s))) = m_events (ew_queue s)" by (simp add: RemoveSmallTimer_def)
  then show ?case using w_remove_small(3) by (intro queue_change_inv [OF w_remove_small(3,1)]) (simp_all add: eqw_inv_def eq_inv_def)
next
  case (w_notify s u num timed)
  then show ?case by (intro notify_inv)
qed (rule look_inv; simp)+

lemma eqw_run_inv: "eqw_run False s \<Longrightarrow> eqw_inv s"
proof (induction rule: eqw_run.induct)
  case run_start
  show ?case by (simp add: eqw_inv_def eqw_init_def init_inv) (simp add: equeue_init_def)
qed (use eqw_step_inv in blast)

section \<open>Claims\<close>

text \<open>A thread that sleeps although an event is triggered has somebody who will look at the queue or notify.\<close>

definition no_lost_event :: "eqw_sys \<Rightarrow> bool" where
  "no_lost_event s \<longleftrightarrow> (\<forall>t num timed. ew_pc s t = WAsleep num timed \<longrightarrow>
     filter ee_is_triggered (m_events (ew_queue s)) = [] \<or> (\<exists>u. active (ew_pc s u)))"

lemma no_lost_event_inv:
  assumes "eqw_inv s"
  shows "no_lost_event s"
  unfolding no_lost_event_def
proof (intro allI impI)
  fix t num timed
  assume "ew_pc s t = WAsleep num timed"
  then have "asleep (ew_pc s t)" by simp
  then have p: "pending (m_events (ew_queue s)) \<le> card (actives s)" using assms unfolding eqw_inv_def by blast
  show "filter ee_is_triggered (m_events (ew_queue s)) = [] \<or> (\<exists>u. active (ew_pc s u))"
  proof (cases "actives s = {}")
    case True
    then show ?thesis using p by (simp add: pending_def)
  qed auto
qed

text \<open>C20: For any number of threads and any interleaving of waits, timeouts, triggers, registrations and removals, no triggered event is lost
  to a sleeping thread, as long as no level-triggered user event is registered: while a thread sleeps there are never more triggered
  events than threads that will look at the queue or notify, and no event is registered twice.\<close>

theorem equeue_no_lost_event:
  assumes "eqw_run False s" "ew_pc s t = WAsleep num timed"
  shows "no_lost_event s \<and> length (filter ee_is_triggered (m_events (ew_queue s))) \<le> card {u. active (ew_pc s u)} \<and>
    distinct (map event_key (m_events (ew_queue s)))"
proof -
  note i = eqw_run_inv [OF assms(1)]
  have "asleep (ew_pc s t)" using assms(2) by simp
  then have "pending (m_events (ew_queue s)) \<le> card (actives s)" using i unfolding eqw_inv_def by blast
  then show ?thesis using i no_lost_event_inv [OF i] by (simp add: eqw_inv_def eq_inv_def pending_def)
qed

text \<open>Two threads wait; an event of the given flags is registered by thread 3 and triggered, and one thread is notified.\<close>

definition two_asleep :: "u16 \<Rightarrow> eqw_sys" where
  "two_asleep flags = \<lparr>ew_queue = snd (the (AddEvent_insert (0, 0) (user_event 7 flags) equeue_init)),
     ew_pc = (\<lambda>_. WIdle)(1 := WAsleep 1 False, 2 := WAsleep 1 False), ew_out = (\<lambda>_. [])\<rparr>"

definition notified :: "u16 \<Rightarrow> eqw_sys" where
  "notified flags = (let s = two_asleep flags; s = ew_at 3 WNotify (snd (TriggerEvent 0 7 FilterUser 0 (ew_queue s))) s in
     ew_at 1 (WReady 1 False) (ew_queue s) (ew_at 3 WIdle (ew_queue s) s))"

lemma two_asleep_run:
  assumes "level_event (user_event 7 flags) \<longrightarrow> level"
  shows "eqw_run level (two_asleep flags)"
proof -
  obtain q where q: "AddEvent_insert (0, 0) (user_event 7 flags) equeue_init = Some (False, q)" "filter ee_is_triggered (m_events q) = []"
    by (simp add: AddEvent_insert_def event_interval_def user_event_def equeue_init_def Let_def)
  have m: "m_small_timers q = []" using q(1) by (auto simp: AddEvent_insert_def equeue_init_def Let_def split: bind_splits)
  let ?s0 = "ew_at 3 WIdle q eqw_init"
  have "eqw_step 3 (level_event (user_event 7 flags)) eqw_init ?s0"
    by (rule w_insert [where q = q, OF _]) (use q(1) in \<open>simp_all add: eqw_init_def\<close>)
  then have r0: "eqw_run level ?s0" using run_next [OF run_start] assms by blast
  have park: "eqw_run level (ew_at t (WAsleep 1 False) q (ew_at t (WCheck 1 False) q s))"
    if "eqw_run level s" "ew_pc s t = WIdle" "ew_queue s = q" for s t
  proof -
    have "eqw_step t False s (ew_at t (WCheck 1 False) q s)"
      using w_begin [of s t 1 None] that(2,3) m by (simp add: HasSmallTimer_def)
    then have r: "eqw_run level (ew_at t (WCheck 1 False) q s)" using run_next [OF that(1)] by blast
    have "GetTriggeredEvents 1 q = ([], q)"
    proof -
      have "get_loop 1 0 es = ([], es)" if "filter ee_is_triggered es = []" for es using that by (induction es) (auto split: if_splits)
      then show ?thesis using q(2) by (simp add: GetTriggeredEvents_def)
    qed
    then have "ew_look t 1 False (ew_at t (WCheck 1 False) q s) = ew_at t (WAsleep 1 False) q (ew_at t (WCheck 1 False) q s)"
      by (simp add: ew_look_def)
    then have "eqw_step t False (ew_at t (WCheck 1 False) q s) (ew_at t (WAsleep 1 False) q (ew_at t (WCheck 1 False) q s))"
      using w_check [of "ew_at t (WCheck 1 False) q s" t 1 False] by simp
    then show ?thesis using run_next [OF r] by blast
  qed
  let ?s1 = "ew_at 1 (WAsleep 1 False) q (ew_at 1 (WCheck 1 False) q ?s0)"
  have "eqw_run level ?s1" by (rule park [OF r0]) (simp_all add: eqw_init_def)
  then have "eqw_run level (ew_at 2 (WAsleep 1 False) q (ew_at 2 (WCheck 1 False) q ?s1))" by (rule park) (simp_all add: eqw_init_def)
  moreover have "ew_at 2 (WAsleep 1 False) q (ew_at 2 (WCheck 1 False) q ?s1) = two_asleep flags"
    using q(1) by (simp add: two_asleep_def ew_at_def eqw_init_def fun_eq_iff)
  ultimately show ?thesis by simp
qed

lemma notified_run:
  assumes "level_event (user_event 7 flags) \<longrightarrow> level"
  shows "eqw_run level (notified flags)"
proof -
  let ?s1 = "ew_at 3 WNotify (snd (TriggerEvent 0 7 FilterUser 0 (ew_queue (two_asleep flags)))) (two_asleep flags)"
  have "eqw_step 3 False (two_asleep flags) ?s1" by (rule w_trigger) (simp add: two_asleep_def)
  then have r: "eqw_run level ?s1" using run_next [OF two_asleep_run [OF assms]] by blast
  have "eqw_step 3 False ?s1 (notified flags)"
    using w_notify [of ?s1 3 1 1 False] by (simp add: notified_def two_asleep_def Let_def)
  then show ?thesis using run_next [OF r] by blast
qed

theorem equeue_no_lost_event_witness:
  "no_lost_event (notified (FlagAdd OR FlagClear)) \<and>
    length (filter ee_is_triggered (m_events (ew_queue (notified (FlagAdd OR FlagClear))))) \<le> card {u. active (ew_pc (notified (FlagAdd OR FlagClear)) u)}"
proof -
  have "\<not> level_event (user_event 7 (FlagAdd OR FlagClear))" by (simp add: level_event_def user_event_def)
  then have r: "eqw_run False (notified (FlagAdd OR FlagClear))" by (intro notified_run) simp
  have "ew_pc (notified (FlagAdd OR FlagClear)) 2 = WAsleep 1 False" by (simp add: notified_def two_asleep_def Let_def)
  then show ?thesis using equeue_no_lost_event [OF r] by blast
qed

section \<open>Lost events\<close>

text \<open>A level-triggered event wakes one of two waiting threads.  It stays triggered when that thread has retrieved it, but the other thread sleeps on.\<close>

lemma level_event_lost:
  obtains s where "eqw_run True s" "\<not> no_lost_event s" "ew_pc s 2 = WAsleep 1 False"
proof -
  let ?s = "ew_look 1 1 False (notified FlagAdd)"
  have "eqw_step 1 False (notified FlagAdd) ?s" by (rule w_ready) (simp add: notified_def two_asleep_def Let_def)
  then have r: "eqw_run True ?s" using run_next [OF notified_run [of FlagAdd True]] by blast
  have q: "filter ee_is_triggered (m_events (ew_queue ?s)) \<noteq> []"
    by (simp add: notified_def two_asleep_def ew_look_def Let_def eq_eval)
  have "ew_pc ?s = (\<lambda>_. WIdle)(2 := WAsleep 1 False)"
    by (simp add: notified_def two_asleep_def ew_look_def Let_def eq_eval fun_eq_iff)
  then have pc: "ew_pc ?s 2 = WAsleep 1 False" "\<not> active (ew_pc ?s u)" for u by simp_all
  have "\<not> no_lost_event ?s" unfolding no_lost_event_def using pc q by blast
  then show thesis using that r pc(1) by blast
qed

text \<open>A thread that already waits is not told of a small timer.  Nobody looks for it until another event happens.\<close>

lemma small_timer_unnoticed:
  obtains s where "eqw_run False s" "fst (small_pass 2000000 1 (ew_queue s)) \<noteq> []" "ew_pc s 1 = WAsleep 1 False" "\<And>u. \<not> active (ew_pc s u)"
    "\<And>u num deadline. ew_pc s u \<noteq> WSmall num deadline"
proof -
  let ?ev = "\<lparr>ek_ident = 9, ek_filter = FilterHrTimer, ek_flags = FlagAdd OR FlagOneShot, ek_fflags = 0, ek_data = 0, ek_udata = 0\<rparr>"
  let ?s0 = "two_asleep (FlagAdd OR FlagClear)"
  have r: "eqw_run False ?s0" by (rule two_asleep_run) (simp add: level_event_def user_event_def)
  obtain q where q: "AddSmallTimer 0 (0, 1000000 * 0x44b82fa09) ?ev (ew_queue ?s0) = Some q" "fst (small_pass 2000000 1 q) \<noteq> []"
    by (simp add: AddSmallTimer_def bintime_interval_def small_pass_def two_asleep_def eq_eval split: prod.splits)
  have "eqw_step 3 False ?s0 (ew_at 3 WIdle q ?s0)" by (rule w_add_small [OF _ q(1)]) (simp add: two_asleep_def)
  then have "eqw_run False (ew_at 3 WIdle q ?s0)" using run_next [OF r] by blast
  then show thesis by (rule that) (use q(2) in \<open>simp_all add: two_asleep_def\<close>)
qed

end
