(* ===== verification/Rtc_Calendar.thy ===== *)
theory Rtc_Calendar
  imports Prelude
begin

text \<open>
  The part of \<open>std::chrono\<close> that \<^verbatim>\<open>src/src/core/libraries/rtc/rtc.cpp\<close> uses (leap years, the last day of a
  month, the day number and the weekday of a date) and a reference calendar: the number of days
  before a date as a sum over the lengths of the years and months before it.
\<close>

section \<open>Leap years and months\<close>

definition is_leap :: "nat \<Rightarrow> bool" where
  "is_leap y \<longleftrightarrow> y mod 4 = 0 \<and> (y mod 100 \<noteq> 0 \<or> y mod 400 = 0)"

definition last_day :: "nat \<Rightarrow> nat \<Rightarrow> nat" where
  "last_day y m =
    (if m = 2 then (if is_leap y then 29 else 28) else if m = 4 \<or> m = 6 \<or> m = 9 \<or> m = 11 then 30 else 31)"

lemma last_day_range: "28 \<le> last_day y m" "last_day y m \<le> 31"
  by (simp_all add: last_day_def)

section \<open>Day numbers\<close>

definition days_before_month :: "nat \<Rightarrow> nat \<Rightarrow> nat" where
  "days_before_month y m = (\<Sum>k\<in>{1..<m}. last_day y k)"

definition days_before_year :: "nat \<Rightarrow> nat" where
  "days_before_year y = (\<Sum>k\<in>{1..<y}. 365 + (if is_leap k then 1 else 0))"

text \<open>The reference: days from 0001-01-01 to the date.\<close>

definition ref_days :: "nat \<Rightarrow> nat \<Rightarrow> nat \<Rightarrow> nat" where
  "ref_days y m d = days_before_year y + days_before_month y m + d - 1"

text \<open>The closed form.\<close>

definition month_offset :: "nat \<Rightarrow> nat \<Rightarrow> nat" where
  "month_offset y m = [0, 31, 59, 90, 120, 151, 181, 212, 243, 273, 304, 334] ! (m - 1) + (if m > 2 \<and> is_leap y then 1 else 0)"

definition year_offset :: "nat \<Rightarrow> nat" where
  "year_offset n = 365 * n + n div 4 - n div 100 + n div 400"

lemma year_offset_eq: "year_offset n + n div 100 = 365 * n + n div 4 + n div 400"
proof -
  have "n div 100 \<le> n div 4" by (simp add: div_le_mono2)
  then show ?thesis by (simp add: year_offset_def)
qed

lemma year_offset_step: "year_offset (Suc n) = year_offset n + 365 + (if is_leap (Suc n) then 1 else 0)"
proof -
  have d: "Suc n div k = n div k + (if Suc n mod k = 0 then 1 else 0)" for k by (simp add: div_Suc)
  have "(4::nat) dvd 100" "(100::nat) dvd 400" by simp_all
  then have "Suc n mod 100 = 0 \<Longrightarrow> Suc n mod 4 = 0" "Suc n mod 400 = 0 \<Longrightarrow> Suc n mod 100 = 0"
    unfolding mod_eq_0_iff_dvd by (meson dvd_trans)+
  then show ?thesis
    using year_offset_eq [of n] year_offset_eq [of "Suc n"] unfolding is_leap_def d by (auto split: if_splits)
qed

lemma days_before_year_closed: "days_before_year (Suc n) = year_offset n"
proof (induction n)
  case 0
  then show ?case by (simp add: days_before_year_def year_offset_def)
next
  case (Suc n)
  have "days_before_year (Suc (Suc n)) = days_before_year (Suc n) + (365 + (if is_leap (Suc n) then 1 else 0))"
    by (simp add: days_before_year_def)
  then show ?case using Suc year_offset_step by simp
qed

lemma month_cases: "1 \<le> m \<Longrightarrow> m \<le> 12 \<Longrightarrow>
  m = 1 \<or> m = 2 \<or> m = 3 \<or> m = 4 \<or> m = 5 \<or> m = 6 \<or> m = 7 \<or> m = 8 \<or> m = 9 \<or> m = 10 \<or> m = 11 \<or> m = (12::nat)"
  by presburger

lemma month_offset_step:
  assumes "1 \<le> m" "m \<le> 11"
  shows "month_offset y (Suc m) = month_offset y m + last_day y m"
proof -
  have "m = 1 \<or> m = 2 \<or> m = 3 \<or> m = 4 \<or> m = 5 \<or> m = 6 \<or> m = 7 \<or> m = 8 \<or> m = 9 \<or> m = 10 \<or> m = 11"
    using assms by presburger
  then show ?thesis by (auto simp: month_offset_def last_day_def)
qed

lemma days_before_month_closed: "1 \<le> m \<Longrightarrow> m \<le> 12 \<Longrightarrow> days_before_month y m = month_offset y m"
proof (induction m)
  case (Suc m)
  show ?case
  proof (cases "m = 0")
    case True
    then show ?thesis by (simp add: days_before_month_def month_offset_def)
  next
    case False
    then have "days_before_month y (Suc m) = days_before_month y m + last_day y m" by (simp add: days_before_month_def)
    then show ?thesis using Suc False month_offset_step [of m y] by simp
  qed
qed simp

definition day_number :: "nat \<Rightarrow> nat \<Rightarrow> nat \<Rightarrow> nat" where
  "day_number y m d = year_offset (y - 1) + month_offset y m + d - 1"

lemma day_number_ref: "1 \<le> y \<Longrightarrow> 1 \<le> m \<Longrightarrow> m \<le> 12 \<Longrightarrow> day_number y m d = ref_days y m d"
  using days_before_year_closed [of "y - 1"] days_before_month_closed by (simp add: day_number_def ref_days_def)

text \<open>\<open>weekday{sys_days}.c_encoding()\<close>: 0001-01-01 is a Monday.\<close>

definition chrono_weekday :: "nat \<Rightarrow> nat \<Rightarrow> nat \<Rightarrow> nat" where
  "chrono_weekday y m d = (day_number y m d + 1) mod 7"

section \<open>The next day\<close>

definition valid_date :: "nat \<Rightarrow> nat \<Rightarrow> nat \<Rightarrow> bool" where
  "valid_date y m d \<longleftrightarrow> 1 \<le> y \<and> 1 \<le> m \<and> m \<le> 12 \<and> 1 \<le> d \<and> d \<le> last_day y m"

definition next_date :: "nat \<times> nat \<times> nat \<Rightarrow> nat \<times> nat \<times> nat" where
  "next_date t = (case t of (y, m, d) \<Rightarrow>
     if d < last_day y m then (y, m, d + 1) else if m < 12 then (y, m + 1, 1) else (y + 1, 1, 1))"

lemma next_date_valid: "valid_date y m d \<Longrightarrow> next_date (y, m, d) = (y', m', d') \<Longrightarrow> valid_date y' m' d'"
  using last_day_range(1) by (auto simp: next_date_def valid_date_def intro: order_trans [OF _ last_day_range(1)] split: if_splits)

lemma next_date_number:
  assumes "valid_date y m d" "next_date (y, m, d) = (y', m', d')"
  shows "day_number y' m' d' = Suc (day_number y m d)"
proof -
  consider "d < last_day y m" | "d = last_day y m" "m < 12" | "d = last_day y m" "m = 12"
    using assms(1) by (force simp: valid_date_def)
  then show ?thesis
  proof cases
    case 1
    then show ?thesis using assms by (auto simp: next_date_def day_number_def valid_date_def)
  next
    case 2
    then show ?thesis using assms month_offset_step [of m y] last_day_range(1) [of y m]
      by (auto simp: next_date_def day_number_def valid_date_def)
  next
    case 3
    obtain n where n: "y = Suc n" using assms(1) by (cases y) (auto simp: valid_date_def)
    have "last_day y 12 = 31" by (simp add: last_day_def)
    then show ?thesis using assms 3 year_offset_step [of n]
      by (auto simp: next_date_def day_number_def month_offset_def n)
  qed
qed

text \<open>Every day has a date.\<close>

lemma day_number_surj: "\<exists>y m d. valid_date y m d \<and> day_number y m d = n"
proof (induction n)
  case 0
  have "valid_date 1 1 1 \<and> day_number 1 1 1 = 0"
    by (simp add: valid_date_def last_day_def day_number_def year_offset_def month_offset_def)
  then show ?case by blast
next
  case (Suc n)
  then obtain y m d where "valid_date y m d" "day_number y m d = n" by blast
  then show ?case using next_date_valid next_date_number by (metis prod_cases3)
qed

end
