(* ===== verification/Rtc_Tick.thy ===== *)
theory Rtc_Tick
  imports Rtc_Calendar "HOL-Library.Signed_Division"
begin

text \<open>
  The clock arithmetic of \<^verbatim>\<open>src/src/core/libraries/rtc/rtc.cpp\<close>: dates, ticks (microseconds since
  0001-01-01), the conversions between them and the other time formats.  A pointer argument is an
  option, null is \<open>None\<close>; an error code is \<open>Inl\<close>.  Intermediate values of an unsigned type are
  wrapped to its width where they are stored; a signed multiplication that overflows is the
  value \<open>None\<close> of the result.  What the host clock and the kernel's time zone functions return
  is an argument.
\<close>

section \<open>Data\<close>

datatype RtcError = ORBIS_RTC_ERROR_INVALID_POINTER | ORBIS_RTC_ERROR_INVALID_YEAR | ORBIS_RTC_ERROR_INVALID_MONTH
  | ORBIS_RTC_ERROR_INVALID_DAY | ORBIS_RTC_ERROR_INVALID_HOUR | ORBIS_RTC_ERROR_INVALID_MINUTE
  | ORBIS_RTC_ERROR_INVALID_SECOND | ORBIS_RTC_ERROR_INVALID_MICROSECOND | ORBIS_RTC_ERROR_INVALID_VALUE
  | ORBIS_RTC_ERROR_NOT_INITIALIZED | ORBIS_RTC_ERROR_DATETIME_UNINITIALIZED | KERNEL_ERROR int

record OrbisRtcDateTime =
  dt_year :: u16
  dt_month :: u16
  dt_day :: u16
  dt_hour :: u16
  dt_minute :: u16
  dt_second :: u16
  dt_microsecond :: u32

abbreviation (input) UNIX_EPOCH_TICKS :: u64 where "UNIX_EPOCH_TICKS \<equiv> 0xdcbffeff2bc000"
abbreviation (input) WIN32_FILETIME_EPOCH_TICKS :: u64 where "WIN32_FILETIME_EPOCH_TICKS \<equiv> 0xb36168b6a58000"

definition w16 :: "int \<Rightarrow> u16" where "w16 x = nat (x mod 65536)"
definition w32 :: "int \<Rightarrow> u32" where "w32 x = nat (x mod 4294967296)"
definition w64 :: "int \<Rightarrow> u64" where "w64 x = nat (x mod 18446744073709551616)"

section \<open>Validity\<close>

definition sceRtcCheckValid :: "OrbisRtcDateTime option \<Rightarrow> RtcError + unit" where
  "sceRtcCheckValid pTime = (case pTime of
     None \<Rightarrow> Inl ORBIS_RTC_ERROR_INVALID_POINTER
   | Some t \<Rightarrow>
     if dt_year t = 0 \<or> dt_year t > 9999 then Inl ORBIS_RTC_ERROR_INVALID_YEAR
     else if dt_month t = 0 \<or> dt_month t > 12 then Inl ORBIS_RTC_ERROR_INVALID_MONTH
     else if dt_day t = 0 then Inl ORBIS_RTC_ERROR_INVALID_DAY
     else if dt_day t > last_day (dt_year t) (dt_month t) then Inl ORBIS_RTC_ERROR_INVALID_DAY
     else if dt_hour t \<ge> 24 then Inl ORBIS_RTC_ERROR_INVALID_HOUR
     else if dt_minute t \<ge> 60 then Inl ORBIS_RTC_ERROR_INVALID_MINUTE
     else if dt_second t \<ge> 60 then Inl ORBIS_RTC_ERROR_INVALID_SECOND
     else if dt_microsecond t \<ge> 1000000 then Inl ORBIS_RTC_ERROR_INVALID_MICROSECOND
     else Inr ())"

definition sceRtcCompareTick :: "u64 option \<Rightarrow> u64 option \<Rightarrow> RtcError + int" where
  "sceRtcCompareTick pTick1 pTick2 = (case (pTick1, pTick2) of
     (Some a, Some b) \<Rightarrow> Inr (if a \<le> b then 1 else 0)
   | _ \<Rightarrow> Inl ORBIS_RTC_ERROR_INVALID_POINTER)"

text \<open>\<open>std::chrono::year\<close> holds an unspecified value above 32767.\<close>

definition sceRtcGetDaysInMonth :: "int \<Rightarrow> int \<Rightarrow> (RtcError + int) option" where
  "sceRtcGetDaysInMonth year month =
    (if year \<le> 0 then Some (Inl ORBIS_RTC_ERROR_INVALID_YEAR)
     else if month \<le> 0 \<or> month > 12 then Some (Inl ORBIS_RTC_ERROR_INVALID_MONTH)
     else if year > 32767 then None
     else Some (Inr (int (last_day (nat year) (nat month)))))"

definition sceRtcIsLeapYear :: "int \<Rightarrow> (RtcError + int) option" where
  "sceRtcIsLeapYear yearInt =
    (if yearInt < 1 then Some (Inl ORBIS_RTC_ERROR_INVALID_YEAR)
     else if yearInt > 32767 then None
     else Some (Inr (if last_day (nat yearInt) 2 = 29 then 1 else 0)))"

definition sceRtcGetDayOfWeek :: "int \<Rightarrow> int \<Rightarrow> int \<Rightarrow> int \<Rightarrow> (RtcError + int) option" where
  "sceRtcGetDayOfWeek sdk_version year month day =
    (if (if sdk_version < 0x3000000 then year < 1 else year > 9999 \<or> year < 1) then Some (Inl ORBIS_RTC_ERROR_INVALID_YEAR)
     else if month > 12 \<or> month \<le> 0 then Some (Inl ORBIS_RTC_ERROR_INVALID_MONTH)
     else (case sceRtcGetDaysInMonth year month of
         None \<Rightarrow> None
       | Some (Inl e) \<Rightarrow> Some (Inl e)
       | Some (Inr daysInMonth) \<Rightarrow>
         if day \<le> 0 \<or> day > daysInMonth then Some (Inl ORBIS_RTC_ERROR_INVALID_DAY)
         else Some (Inr (int (chrono_weekday (nat year) (nat month) (nat day))))))"

section \<open>Ticks\<close>

text \<open>The result of \<open>sceRtcGetTick\<close> is the changed date and the tick: the function shifts month and
  year of its argument in place.\<close>

definition shift_date :: "OrbisRtcDateTime \<Rightarrow> OrbisRtcDateTime" where
  "shift_date t =
    (if dt_month t > 2 then t\<lparr>dt_month := dt_month t - 3\<rparr>
     else t\<lparr>dt_month := dt_month t + 9, dt_year := w16 (int (dt_year t) - 1)\<rparr>)"

definition shifted_tick :: "OrbisRtcDateTime \<Rightarrow> u64" where
  "shifted_tick t =
    (let c = dt_year t div 100;
         ya = dt_year t - 100 * c;
         days = (146097 * c) div 4 + (1461 * ya) div 4 + (153 * dt_month t + 2) div 5 + dt_day t;
         days = sub64 days 307;
         days = mul64 days 86400000000;
         msec = dt_hour t * 3600000000 + dt_minute t * 60000000 + dt_second t * 1000000 + dt_microsecond t
     in add64 days msec)"

definition sceRtcGetTick :: "OrbisRtcDateTime option \<Rightarrow> bool \<Rightarrow> RtcError + OrbisRtcDateTime \<times> u64" where
  "sceRtcGetTick pTime has_tick = (case pTime of
     None \<Rightarrow> Inl ORBIS_RTC_ERROR_INVALID_POINTER
   | Some t \<Rightarrow>
     if \<not> has_tick then Inl ORBIS_RTC_ERROR_INVALID_POINTER
     else (case sceRtcCheckValid (Some t) of
         Inl e \<Rightarrow> Inl e
       | Inr _ \<Rightarrow> let t = shift_date t in Inr (t, shifted_tick t)))"

definition sceRtcGetTickResolution :: u32 where
  "sceRtcGetTickResolution = 1000000"

definition tick_date :: "u64 \<Rightarrow> OrbisRtcDateTime" where
  "tick_date tick =
    (let days = tick div 86400000000;
         msec = tick mod 86400000000;
         days = add64 days 307;
         j = w32 (4 * int days - 1);
         ly = j div 146097;
         j = w32 (int j - 146097 * int ly);
         ld = j div 4;
         j = w32 (4 * int ld + 3) div 1461;
         ld = w32 (4 * int ld + 7 - 1461 * int j) div 4;
         lm = w32 (5 * int ld - 3) div 153;
         ld = w32 (5 * int ld + 2 - 153 * int lm) div 5;
         ly = w32 (100 * int ly + int j);
         (lm, ly) = (if lm < 10 then (lm + 3, ly) else (lm - 9, w32 (int ly + 1)))
     in \<lparr>dt_year = w16 (int ly), dt_month = w16 (int lm), dt_day = w16 (int ld),
         dt_hour = msec div 3600000000, dt_minute = msec mod 3600000000 div 60000000,
         dt_second = msec mod 3600000000 mod 60000000 div 1000000,
         dt_microsecond = msec mod 3600000000 mod 60000000 mod 1000000\<rparr>)"

definition sceRtcSetTick :: "bool \<Rightarrow> u64 option \<Rightarrow> RtcError + OrbisRtcDateTime" where
  "sceRtcSetTick has_time pTick = (case pTick of
     None \<Rightarrow> Inl ORBIS_RTC_ERROR_INVALID_POINTER
   | Some tick \<Rightarrow> if \<not> has_time then Inl ORBIS_RTC_ERROR_INVALID_POINTER else Inr (tick_date tick))"

text \<open>The pattern of the functions that add a fixed unit: a signed 64-bit product, then an unsigned
  sum.\<close>

definition tick_add :: "int \<Rightarrow> u64 option \<Rightarrow> u64 option \<Rightarrow> int \<Rightarrow> (RtcError + u64) option" where
  "tick_add unit_ticks pTick1 pTick2 lAdd = (case (pTick1, pTick2) of
     (Some _, Some tick2) \<Rightarrow>
       if in_s64 (lAdd * unit_ticks) then Some (Inr (w64 (lAdd * unit_ticks + int tick2))) else None
   | _ \<Rightarrow> Some (Inl ORBIS_RTC_ERROR_INVALID_POINTER))"

definition sceRtcTickAddDays where "sceRtcTickAddDays = tick_add 86400000000"
definition sceRtcTickAddHours where "sceRtcTickAddHours = tick_add 3600000000"
definition sceRtcTickAddMicroseconds where "sceRtcTickAddMicroseconds = tick_add 1"
definition sceRtcTickAddMinutes where "sceRtcTickAddMinutes = tick_add 60000000"
definition sceRtcTickAddSeconds where "sceRtcTickAddSeconds = tick_add 1000000"
definition sceRtcTickAddTicks where "sceRtcTickAddTicks = tick_add 1"
definition sceRtcTickAddWeeks where "sceRtcTickAddWeeks = tick_add 604800000000"

text \<open>The date of the first tick is moved, not the one of the second.  The last day that \<open>std::chrono\<close> gives
  for a year above 32767 is unspecified; such a date is refused for its year.\<close>

definition month_shift :: "OrbisRtcDateTime \<Rightarrow> int \<Rightarrow> OrbisRtcDateTime" where
  "month_shift t lAdd =
    (let s = (if lAdd \<ge> 0 then 1 else -1);
         year = w16 (int (dt_year t) + lAdd sdiv 12);
         tempMonth = int (dt_month t) + lAdd smod 12 - 1;
         (tempMonth, year) =
           (if tempMonth > 11 \<or> tempMonth < 0 then (tempMonth - s * 12, w16 (int year + s)) else (tempMonth, year));
         month = w16 (tempMonth + 1);
         lastDay = last_day year month
     in t\<lparr>dt_year := year, dt_month := month, dt_day := (if dt_day t > lastDay then lastDay else dt_day t)\<rparr>)"

definition sceRtcTickAddMonths :: "u64 option \<Rightarrow> u64 option \<Rightarrow> int \<Rightarrow> RtcError + u64" where
  "sceRtcTickAddMonths pTick1 pTick2 lAdd = (case (pTick1, pTick2) of
     (Some tick1, Some tick2) \<Rightarrow>
       if lAdd = 0 then Inr tick2
       else (case sceRtcGetTick (Some (month_shift (tick_date tick1) lAdd)) True of
           Inl e \<Rightarrow> Inl e | Inr (_, tick) \<Rightarrow> Inr tick)
   | _ \<Rightarrow> Inl ORBIS_RTC_ERROR_INVALID_POINTER)"

definition sceRtcTickAddYears :: "u64 option \<Rightarrow> u64 option \<Rightarrow> int \<Rightarrow> RtcError + u64" where
  "sceRtcTickAddYears pTick1 pTick2 lAdd = (case (pTick1, pTick2) of
     (Some tick1, Some tick2) \<Rightarrow>
       if lAdd = 0 then Inr tick2
       else let t = tick_date tick1
            in (case sceRtcGetTick (Some (t\<lparr>dt_year := w16 (int (dt_year t) + lAdd)\<rparr>)) True of
                 Inl e \<Rightarrow> Inl e | Inr (_, tick) \<Rightarrow> Inr tick)
   | _ \<Rightarrow> Inl ORBIS_RTC_ERROR_INVALID_POINTER)"


section \<open>Other formats\<close>

definition sceRtcGetTime_t :: "OrbisRtcDateTime option \<Rightarrow> bool \<Rightarrow> RtcError + OrbisRtcDateTime \<times> u64" where
  "sceRtcGetTime_t pTime has_time = (case pTime of
     None \<Rightarrow> Inl ORBIS_RTC_ERROR_INVALID_POINTER
   | Some t \<Rightarrow>
     if \<not> has_time then Inl ORBIS_RTC_ERROR_INVALID_POINTER
     else (case sceRtcCheckValid (Some t) of
         Inl e \<Rightarrow> Inl e
       | Inr _ \<Rightarrow> (case sceRtcGetTick (Some t) True of
           Inl e \<Rightarrow> Inl e
         | Inr (t, tick) \<Rightarrow> Inr (t, if tick < UNIX_EPOCH_TICKS then 0 else (tick - UNIX_EPOCH_TICKS) div 1000000))))"

definition sceRtcGetWin32FileTime :: "OrbisRtcDateTime option \<Rightarrow> bool \<Rightarrow> RtcError + OrbisRtcDateTime \<times> u64" where
  "sceRtcGetWin32FileTime pTime has_time = (case pTime of
     None \<Rightarrow> Inl ORBIS_RTC_ERROR_INVALID_POINTER
   | Some t \<Rightarrow>
     if \<not> has_time then Inl ORBIS_RTC_ERROR_INVALID_POINTER
     else (case sceRtcCheckValid (Some t) of
         Inl e \<Rightarrow> Inl e
       | Inr _ \<Rightarrow> (case sceRtcGetTick (Some t) True of
           Inl e \<Rightarrow> Inl e
         | Inr (t, tick) \<Rightarrow>
           Inr (t, if tick < WIN32_FILETIME_EPOCH_TICKS then 0 else mul64 (tick - WIN32_FILETIME_EPOCH_TICKS) 10))))"

definition sceRtcSetTime_t :: "int \<Rightarrow> bool \<Rightarrow> int \<Rightarrow> (RtcError + OrbisRtcDateTime) option" where
  "sceRtcSetTime_t sdk_version has_time llTime =
    (if \<not> has_time then Some (Inl ORBIS_RTC_ERROR_INVALID_POINTER)
     else if sdk_version < 0x3000000
     then Some (Inr (tick_date (add64 (nat (llTime mod 4294967296) * 1000000) UNIX_EPOCH_TICKS)))
     else if llTime < 0 then Some (Inl ORBIS_RTC_ERROR_INVALID_VALUE)
     else if \<not> in_s64 (llTime * 1000000) then None
     else Some (Inr (tick_date (add64 (nat (llTime * 1000000)) UNIX_EPOCH_TICKS))))"

definition sceRtcSetWin32FileTime :: "bool \<Rightarrow> int \<Rightarrow> RtcError + OrbisRtcDateTime" where
  "sceRtcSetWin32FileTime has_time ulWin32Time =
    (if \<not> has_time then Inl ORBIS_RTC_ERROR_INVALID_POINTER
     else Inr (tick_date (w64 (ulWin32Time sdiv 10 + int WIN32_FILETIME_EPOCH_TICKS))))"

text \<open>The DOS time is merged into what \<open>*dosTime\<close> held before.\<close>

definition sceRtcGetDosTime :: "OrbisRtcDateTime option \<Rightarrow> u32 option \<Rightarrow> RtcError + u32" where
  "sceRtcGetDosTime pTime dosTime = (case (pTime, dosTime) of
     (Some t, Some d) \<Rightarrow>
       (case sceRtcCheckValid (Some t) of
          Inl e \<Rightarrow> Inl e
        | Inr _ \<Rightarrow>
          Inr (d OR ((dt_second t div 2) AND 0x1F) OR push_bit 5 (dt_minute t AND 0x3F) OR push_bit 11 (dt_hour t AND 0x1F)
            OR push_bit 16 (dt_day t AND 0x1F) OR push_bit 21 (dt_month t AND 0x0F)
            OR push_bit 25 (nat ((int (dt_year t) - 1980) mod 128))))
   | _ \<Rightarrow> Inl ORBIS_RTC_ERROR_INVALID_POINTER)"

text \<open>\<open>int16_t days\<close>: the upper half read as a signed number, shifted arithmetically.\<close>

definition dos_days :: "u32 \<Rightarrow> int" where
  "dos_days dosTime = (let h = int (drop_bit 16 dosTime) in if h < 32768 then h else h - 65536)"

definition sceRtcSetDosTime :: "bool \<Rightarrow> u32 \<Rightarrow> RtcError + OrbisRtcDateTime" where
  "sceRtcSetDosTime has_time dosTime =
    (if \<not> has_time then Inl ORBIS_RTC_ERROR_INVALID_POINTER
     else let days = dos_days dosTime in
       Inr \<lparr>dt_year = w16 (days div 512 + 1980), dt_month = nat ((days div 32) mod 16), dt_day = nat (days mod 32),
         dt_hour = (dosTime AND 0xf800) div 2048, dt_minute = (dosTime div 32) AND 0x3f,
         dt_second = (dosTime * 2) AND 0x3e, dt_microsecond = 0\<rparr>)"

section \<open>The current time\<close>

text \<open>\<open>clock\<close> is what \<open>sceKernelClockGettime\<close> returned: its code, seconds and nanoseconds (whose
  sum of microseconds fits 64 bits).\<close>

definition clock_tick :: "int \<times> int \<times> int \<Rightarrow> u64" where
  "clock_tick clock = (case clock of (_, sec, nsec) \<Rightarrow> w64 (nsec sdiv 1000 + sec * 1000000 + int UNIX_EPOCH_TICKS))"

text \<open>\<open>sceRtcGetCurrentNetworkTick\<close> and its debug, raw and ad variants have the same body.\<close>

definition sceRtcGetCurrentNetworkTick :: "int \<times> int \<times> int \<Rightarrow> bool \<Rightarrow> RtcError + u64" where
  "sceRtcGetCurrentNetworkTick clock has_tick =
    (if \<not> has_tick then Inl ORBIS_RTC_ERROR_INVALID_POINTER
     else if fst clock = 0 then Inr (clock_tick clock) else Inl ORBIS_RTC_ERROR_NOT_INITIALIZED)"

text \<open>\<open>Inr None\<close>: the function returns ORBIS_OK without writing a tick.\<close>

definition sceRtcGetCurrentTick :: "int \<times> int \<times> int \<Rightarrow> bool \<Rightarrow> RtcError + u64 option" where
  "sceRtcGetCurrentTick clock has_tick =
    (if \<not> has_tick then Inl ORBIS_RTC_ERROR_DATETIME_UNINITIALIZED
     else if fst clock \<ge> 0 then Inr (Some (clock_tick clock)) else Inr None)"

definition sceRtcGetCurrentClock :: "int \<times> int \<times> int \<Rightarrow> bool \<Rightarrow> int \<Rightarrow> (RtcError + OrbisRtcDateTime) option" where
  "sceRtcGetCurrentClock clock has_time timeZone =
    (if \<not> has_time then Some (Inl ORBIS_RTC_ERROR_DATETIME_UNINITIALIZED)
     else if fst clock = 0
     then (case sceRtcTickAddMinutes (Some (clock_tick clock)) (Some (clock_tick clock)) timeZone of
         Some (Inr tick) \<Rightarrow> Some (Inr (tick_date tick))
       | Some (Inl e) \<Rightarrow> Some (Inl e) | None \<Rightarrow> None)
     else Some (Inl (KERNEL_ERROR (fst clock))))"

text \<open>\<open>tz\<close> is what \<open>sceKernelGettimezone\<close> returned: minutes west and daylight saving hours.\<close>

definition tz_offset :: "int \<times> int \<Rightarrow> int" where
  "tz_offset tz = - (fst tz - snd tz * 60)"

definition sceRtcConvertUtcToLocalTime :: "int \<times> int \<Rightarrow> u64 option \<Rightarrow> u64 option \<Rightarrow> (RtcError + u64 option) option" where
  "sceRtcConvertUtcToLocalTime tz pTickUtc pTickLocal = (case pTickUtc of
     None \<Rightarrow> Some (Inl ORBIS_RTC_ERROR_INVALID_POINTER)
   | Some _ \<Rightarrow> (case sceRtcTickAddMinutes pTickLocal pTickUtc (tz_offset tz) of
       None \<Rightarrow> None | Some (Inl _) \<Rightarrow> Some (Inr None) | Some (Inr tick) \<Rightarrow> Some (Inr (Some tick))))"

text \<open>\<open>sceKernelConvertLocaltimeToUtc\<close> with a zone pointer: its code, the converted seconds and the zone.\<close>

definition sceKernelConvertLocaltimeToUtc :: "int \<times> int \<Rightarrow> int \<Rightarrow> int \<times> int \<times> int \<times> int" where
  "sceKernelConvertLocaltimeToUtc tz param_1 = (0, param_1 - (fst tz + snd tz) * 60, tz)"

definition sceRtcConvertLocalTimeToUtc :: "int \<times> int \<Rightarrow> u64 option \<Rightarrow> u64 option \<Rightarrow> (RtcError + u64) option" where
  "sceRtcConvertLocalTimeToUtc tz pTickLocal pTickUtc = (case pTickLocal of
     None \<Rightarrow> Some (Inl ORBIS_RTC_ERROR_INVALID_POINTER)
   | Some local \<Rightarrow>
     (case sceKernelConvertLocaltimeToUtc tz (int (sub64 local UNIX_EPOCH_TICKS div 1000000)) of
        (convertValue, seconds, timezone) \<Rightarrow>
          if convertValue \<ge> 0
          then sceRtcTickAddMinutes pTickUtc pTickLocal (- (snd timezone * 60 - fst timezone))
          else Some (Inl (KERNEL_ERROR convertValue))))"

definition sceRtcGetCurrentClockLocalTime ::
  "int \<times> int \<times> int \<Rightarrow> int \<times> int \<times> int \<Rightarrow> bool \<Rightarrow> (RtcError + OrbisRtcDateTime) option" where
  "sceRtcGetCurrentClockLocalTime clock tzres has_time =
    (if \<not> has_time then Some (Inl ORBIS_RTC_ERROR_DATETIME_UNINITIALIZED)
     else (case tzres of (ret, tz) \<Rightarrow>
       if ret \<ge> 0
       then (case sceRtcGetCurrentTick clock True of
           Inr (Some now) \<Rightarrow>
             (case sceRtcTickAddMinutes (Some now) (Some now) (tz_offset tz) of
                Some (Inr tick) \<Rightarrow> Some (Inr (tick_date tick)) | Some (Inl e) \<Rightarrow> Some (Inl e) | None \<Rightarrow> None)
         | _ \<Rightarrow> None)
       else Some (Inl (KERNEL_ERROR ret))))"

text \<open>The network, debug and ad clocks: the seconds and the value stored as nanoseconds that go to
  \<open>posix_clock_settime\<close>, which ignores them and returns ORBIS_OK.  The null pointer is dereferenced before
  it is tested.\<close>

definition sceRtcSetCurrentNetworkTick :: "u64 option \<Rightarrow> (RtcError + u64 \<times> u64) option" where
  "sceRtcSetCurrentNetworkTick pTick = (case pTick of
     None \<Rightarrow> None
   | Some tick \<Rightarrow>
     if UNIX_EPOCH_TICKS \<ge> tick then Some (Inl ORBIS_RTC_ERROR_INVALID_VALUE)
     else let temp = tick - UNIX_EPOCH_TICKS in Some (Inr (temp div 1000000, temp mod 1000000)))"

text \<open>The \<open>timeval\<close> that goes to \<open>sceKernelSettimeofday\<close>, which ignores it and returns ORBIS_OK.\<close>

definition sceRtcSetCurrentTick :: "u64 option \<Rightarrow> RtcError + int \<times> int" where
  "sceRtcSetCurrentTick pTick = (case pTick of
     None \<Rightarrow> Inl ORBIS_RTC_ERROR_INVALID_POINTER
   | Some tick \<Rightarrow>
     if UNIX_EPOCH_TICKS \<ge> tick then Inl ORBIS_RTC_ERROR_INVALID_VALUE
     else let d = int (tick - UNIX_EPOCH_TICKS);
              temp = (if d < 9223372036854775808 then d else d - 18446744073709551616)
          in Inr (temp sdiv 1000000, temp smod 1000000))"


section \<open>Dates and day numbers\<close>

text \<open>The year and month of the source's formula start in March.\<close>

lemma div_eq: "m = k * q + r \<Longrightarrow> r < k \<Longrightarrow> m div k = (q::nat)"
  by simp

lemma century_days: "(146097 * (n div 100)) div 4 + (1461 * (n mod 100)) div 4 = year_offset n"
proof -
  define c ya q r p s where "c = n div 100" "ya = n mod 100" "q = c div 4" "r = c mod 4" "p = ya div 4" "s = ya mod 4"
  have n: "n = 100 * c + ya" "c = 4 * q + r" "ya = 4 * p + s" "ya < 100" "r < 4" "s < 4"
    by (simp_all add: c_ya_q_r_p_s_def)
  have "n div 4 = 25 * c + p" by (rule div_eq [where r = s]) (use n in simp_all)
  moreover have "n div 100 = c" by (rule div_eq [where r = ya]) (use n in simp_all)
  moreover have "n div 400 = q" by (rule div_eq [where r = "100 * r + ya"]) (use n in simp_all)
  moreover have "(146097 * c) div 4 = 36524 * c + q" by (rule div_eq [where r = r]) (use n in simp_all)
  moreover have "(1461 * ya) div 4 = 365 * ya + p" by (rule div_eq [where r = s]) (use n in simp_all)
  ultimately have "(146097 * c) div 4 + (1461 * ya) div 4 = year_offset n"
    using year_offset_eq [of n] n(1) by linarith
  then show ?thesis unfolding c_ya_q_r_p_s_def .
qed

definition march_day :: "nat \<Rightarrow> nat \<Rightarrow> nat" where
  "march_day m d = (153 * m + 2) div 5 + d"

lemma march_number:
  assumes "valid_date y m d"
  shows "year_offset (if m > 2 then y else y - 1) + march_day (if m > 2 then m - 3 else m + 9) d = day_number y m d + 307"
proof -
  define K where "K = year_offset (y - 1)"
  have step: "year_offset y = K + 365 + (if is_leap y then 1 else 0)"
    using year_offset_step [of "y - 1"] assms by (simp add: K_def valid_date_def)
  have "1 \<le> m" "m \<le> 12" "1 \<le> d" using assms by (auto simp: valid_date_def)
  from month_cases [OF this(1,2)] this(3) show ?thesis
    unfolding day_number_def by (elim disjE) (simp_all add: march_day_def month_offset_def step K_def)
qed

lemma shifted_tick_number:
  assumes "valid_date (dt_year t) (dt_month t) (dt_day t)" "dt_year t \<le> 9999"
    and "dt_hour t < 24" "dt_minute t < 60" "dt_second t < 60" "dt_microsecond t < 1000000"
  shows "shifted_tick (shift_date t) = day_number (dt_year t) (dt_month t) (dt_day t) * 86400000000 +
    (dt_hour t * 3600000000 + dt_minute t * 60000000 + dt_second t * 1000000 + dt_microsecond t)"
proof -
  let ?y = "if dt_month t > 2 then dt_year t else dt_year t - 1" and ?m = "if dt_month t > 2 then dt_month t - 3 else dt_month t + 9"
  let ?N = "day_number (dt_year t) (dt_month t) (dt_day t)"
  have sh: "dt_year (shift_date t) = ?y" "dt_month (shift_date t) = ?m" "dt_day (shift_date t) = dt_day t"
    "dt_hour (shift_date t) = dt_hour t" "dt_minute (shift_date t) = dt_minute t" "dt_second (shift_date t) = dt_second t"
    "dt_microsecond (shift_date t) = dt_microsecond t"
    using assms(1,2) by (auto simp: shift_date_def w16_def valid_date_def)
  have "146097 * (?y div 100) div 4 + 1461 * (?y - 100 * (?y div 100)) div 4 + (153 * ?m + 2) div 5 + dt_day t = ?N + 307"
    using march_number [OF assms(1)] century_days [of ?y] by (simp add: march_day_def modulo_nat_def mult.commute)
  moreover have "?N \<le> 4000000"
  proof -
    have "month_offset (dt_year t) (dt_month t) \<le> 335" "dt_day t \<le> 31"
      using assms(1) month_cases [of "dt_month t"] last_day_range(2) [of "dt_year t" "dt_month t"]
      by (auto simp: month_offset_def valid_date_def)
    moreover have "year_offset (dt_year t - 1) \<le> 365 * 9998 + 9998 div 4 + 9998 div 400"
      using assms(2) year_offset_eq [of "dt_year t - 1"]
        div_le_mono [of "dt_year t - 1" 9998 4] div_le_mono [of "dt_year t - 1" 9998 400] by linarith
    ultimately show ?thesis by (simp add: day_number_def)
  qed
  ultimately show ?thesis
    using assms(3-6) unfolding shifted_tick_def Let_def sh by (simp add: u64_simps)
qed


section \<open>From a day number back to its date\<close>

lemma w32_exact: "0 \<le> x \<Longrightarrow> x < 4294967296 \<Longrightarrow> w32 x = nat x"
  by (simp add: w32_def)

lemma w16_exact: "0 \<le> x \<Longrightarrow> x < 65536 \<Longrightarrow> w16 x = nat x"
  by (simp add: w16_def)

text \<open>The day in the year that starts in March, and the leap day that may end it.\<close>

definition march_ok :: "nat \<Rightarrow> nat \<Rightarrow> nat \<Rightarrow> bool" where
  "march_ok c ya F \<longleftrightarrow> 1 \<le> F \<and> F \<le> 366 \<and> (F = 366 \<longrightarrow> ya mod 4 = 3 \<and> (ya = 99 \<longrightarrow> c mod 4 = 3))"

lemma century_inverse:
  assumes "ya < 100" "march_ok c ya F" "D = (146097 * c) div 4 + (1461 * ya) div 4 + F"
  shows "(4 * D - 1) div 146097 = c"
    and "(4 * D - 1 - 146097 * c) div 4 + 1 = (1461 * ya) div 4 + F"
    and "(4 * ((1461 * ya) div 4 + F) - 1) div 1461 = ya"
    and "(4 * ((1461 * ya) div 4 + F) + 3 - 1461 * ya) div 4 = F"
    and "146097 * c \<le> 4 * D - 1" "1461 * ya \<le> 4 * ((1461 * ya) div 4 + F) + 3"
proof -
  define q r p s where "q = c div 4" "r = c mod 4" "p = ya div 4" "s = ya mod 4"
  have n: "c = 4 * q + r" "ya = 4 * p + s" "r < 4" "s < 4" by (simp_all add: q_r_p_s_def)
  have F: "1 \<le> F" "F \<le> 366" "F = 366 \<Longrightarrow> s = 3 \<and> (ya = 99 \<longrightarrow> r = 3)"
    using assms(2) by (auto simp: march_ok_def q_r_p_s_def)
  have e1: "(146097 * c) div 4 = 36524 * c + q" by (rule div_eq [where r = r]) (use n in simp_all)
  have e2: "(1461 * ya) div 4 = 365 * ya + p" by (rule div_eq [where r = s]) (use n in simp_all)
  have D: "4 * D + r + s = 146097 * c + 1461 * ya + 4 * F" using assms(3) e1 e2 n(1,2) by linarith
  have rest2: "4 * F < 1462 + s" using F by (cases "F = 366") auto
  have rest1: "1461 * ya + 4 * F < 146098 + r + s"
  proof (cases "ya = 99")
    case True
    then have "s = 3" by (simp add: q_r_p_s_def)
    then show ?thesis using True F by (cases "F = 366") auto
  next
    case False
    then show ?thesis using assms(1) F(2) by linarith
  qed
  have k: "4 * D - 1 = 146097 * c + (1461 * ya + 4 * F - 1 - r - s)" using D F(1) n by linarith
  show "(4 * D - 1) div 146097 = c" by (rule div_eq [OF k]) (use rest1 F(1) n(3,4) in linarith)
  have "4 * D - 1 - 146097 * c = 4 * (365 * ya + p + F - 1) + (3 - r)" using D F(1) n by linarith
  then have "(4 * D - 1 - 146097 * c) div 4 = 365 * ya + p + F - 1" by (rule div_eq) linarith
  then show "(4 * D - 1 - 146097 * c) div 4 + 1 = (1461 * ya) div 4 + F" unfolding e2 using F(1) by linarith
  have "4 * ((1461 * ya) div 4 + F) - 1 = 1461 * ya + (4 * F - 1 - s)" unfolding e2 using F(1) n(2,4) by simp
  then show "(4 * ((1461 * ya) div 4 + F) - 1) div 1461 = ya" by (rule div_eq) (use rest2 F(1) n(4) in linarith)
  have "4 * ((1461 * ya) div 4 + F) + 3 - 1461 * ya = 4 * F + (3 - s)" unfolding e2 using n(2,4) by simp
  then show "(4 * ((1461 * ya) div 4 + F) + 3 - 1461 * ya) div 4 = F" by (rule div_eq) linarith
  show "146097 * c \<le> 4 * D - 1" unfolding k by simp
  show "1461 * ya \<le> 4 * ((1461 * ya) div 4 + F) + 3" unfolding e2 using n(2,4) by simp
qed

definition march_length :: "nat \<Rightarrow> nat" where
  "march_length m = [31, 30, 31, 30, 31, 31, 30, 31, 30, 31, 31, 29] ! m"

lemma month_inverse:
  assumes "m \<le> 11" "1 \<le> d" "d \<le> march_length m"
  shows "(5 * march_day m d - 3) div 153 = m" "(5 * march_day m d + 2 - 153 * m) div 5 = d"
    "153 * m \<le> 5 * march_day m d + 2" "1 \<le> march_day m d" "march_day m d \<le> 366"
proof -
  have m: "m = 0 \<or> m = 1 \<or> m = 2 \<or> m = 3 \<or> m = 4 \<or> m = 5 \<or> m = 6 \<or> m = 7 \<or> m = 8 \<or> m = 9 \<or> m = 10 \<or> m = 11"
    using assms(1) by presburger
  have div: "(5 * (k + d) - 3) div 153 = n" if "153 * n + 3 \<le> 5 * (k + 1)" "5 * (k + march_length m) < 153 * n + 156" for k n
    by (rule div_eq [where r = "5 * (k + d) - 3 - 153 * n"]) (use that assms(2,3) in simp_all)
  have div5: "(5 * (k + d) + 2 - 153 * n) div 5 = d" if "5 * k + 2 = 153 * n + e" "e < 5" for k n e
    by (rule div_eq [where r = e]) (use that in simp_all)
  show "(5 * march_day m d - 3) div 153 = m" unfolding march_day_def
    by (rule div) (use m in \<open>elim disjE; simp add: march_length_def\<close>)+
  show "(5 * march_day m d + 2 - 153 * m) div 5 = d" unfolding march_day_def
    by (rule div5 [where e = "5 * ((153 * m + 2) div 5) + 2 - 153 * m"]) (use m in \<open>elim disjE; simp\<close>)+
  show "153 * m \<le> 5 * march_day m d + 2" "1 \<le> march_day m d" "march_day m d \<le> 366"
    using m assms(2,3) by (elim disjE; simp add: march_day_def march_length_def)+
qed


text \<open>A valid date in the shifted calendar.\<close>

lemma march_date:
  assumes "valid_date y m d"
  defines "y' \<equiv> (if m > 2 then y else y - 1)" and "m' \<equiv> (if m > 2 then m - 3 else m + 9)"
  shows "m' \<le> 11" "1 \<le> d" "d \<le> march_length m'" "march_ok (y' div 100) (y' mod 100) (march_day m' d)"
proof -
  have m: "1 \<le> m" "m \<le> 12" "1 \<le> d" "d \<le> last_day y m" "1 \<le> y" using assms(1) by (auto simp: valid_date_def)
  show a: "m' \<le> 11" "1 \<le> d" "d \<le> march_length m'"
    using month_cases [OF m(1,2)] m(3,4) by (elim disjE; simp add: m'_def march_length_def last_day_def split: if_splits)+
  have leap: "y' mod 100 mod 4 = 3 \<and> (y' mod 100 = 99 \<longrightarrow> y' div 100 mod 4 = 3)" if "march_day m' d = 366"
  proof -
    have "m = 2 \<and> d = 29"
      using month_cases [OF m(1,2)] m(3,4) that
      by (elim disjE; simp add: m'_def march_day_def last_day_def split: if_splits)
    then have l: "is_leap (Suc y')" "y' = y - 1" using m(4,5) by (auto simp: last_day_def y'_def split: if_splits)
    have "Suc y' mod 4 = 0" using l(1) by (simp add: is_leap_def)
    then have "y' mod 4 = 3" by (simp add: mod_Suc split: if_splits)
    then have "y' mod 100 mod 4 = 3" by (simp add: mod_mod_cancel)
    moreover have "y' div 100 mod 4 = 3" if "y' mod 100 = 99"
    proof -
      have "Suc y' mod 100 = 0" using that by (simp add: mod_Suc)
      then have "Suc y' mod 400 = 0" using l(1) by (auto simp: is_leap_def)
      then obtain k where k: "Suc y' = 400 * k" by (auto simp: mod_eq_0_iff_dvd)
      have "y' div 100 = 4 * (k - 1) + 3" by (rule div_eq [where r = 99]) (use k in \<open>cases k; simp\<close>)+
      then show ?thesis by simp
    qed
    ultimately show ?thesis by blast
  qed
  show "march_ok (y' div 100) (y' mod 100) (march_day m' d)"
    using leap month_inverse(4,5) [OF a] by (auto simp: march_ok_def)
qed

lemma tick_date_inverse:
  assumes v: "valid_date y m d" and y: "y \<le> 9999" and ms: "ms < 86400000000"
  shows "tick_date (day_number y m d * 86400000000 + ms) =
    \<lparr>dt_year = y, dt_month = m, dt_day = d, dt_hour = ms div 3600000000, dt_minute = ms mod 3600000000 div 60000000,
     dt_second = ms mod 3600000000 mod 60000000 div 1000000, dt_microsecond = ms mod 3600000000 mod 60000000 mod 1000000\<rparr>"
proof -
  define y' m' where "y' = (if m > 2 then y else y - 1)" "m' = (if m > 2 then m - 3 else m + 9)"
  define c ya F D E where "c = y' div 100" "ya = y' mod 100" "F = march_day m' d" "D = day_number y m d + 307"
    "E = (1461 * ya) div 4 + F"
  note md = march_date [OF v, folded y'_m'_def] note inv = month_inverse [OF md(1-3), folded c_ya_F_D_E_def(3)]
  have ok: "march_ok c ya F" using md(4) by (simp add: c_ya_F_D_E_def)
  have D: "D = (146097 * c) div 4 + (1461 * ya) div 4 + F"
    using march_number [OF v] century_days [of y'] by (simp add: y'_m'_def c_ya_F_D_E_def)
  have ya: "ya < 100" by (simp add: c_ya_F_D_E_def)
  note ci = century_inverse [OF ya ok D, folded c_ya_F_D_E_def(5)]
  have c: "c \<le> 99" using y by (auto simp: c_ya_F_D_E_def y'_m'_def)
  have le: "(1461 * ya) div 4 \<le> 1461 * ya" "(146097 * c) div 4 \<le> 146097 * c" by (rule div_le_dividend)+
  have bounds: "1 \<le> F" "F \<le> 366" "1 \<le> E" "E \<le> 200000" using inv(4,5) ya le(1) by (simp_all add: c_ya_F_D_E_def(5))
  have bD: "307 \<le> D" by (simp add: c_ya_F_D_E_def(4))
  have bD': "D \<le> 20000000" using D le c ya bounds(2) by linarith
  have j1: "w32 (4 * int D - 1) = 4 * D - 1" using bD bD' by (simp add: w32_def of_nat_diff nat_eq_iff2)
  have j2: "w32 (int (4 * D - 1) - 146097 * int c) = 4 * D - 1 - 146097 * c"
    using bD' ci(5) by (simp add: w32_def of_nat_diff)
  have ld: "(4 * D - 1 - 146097 * c) div 4 = E - 1" using ci(2) by linarith
  have j3: "w32 (4 * int (E - 1) + 3) div 1461 = ya"
  proof -
    have "w32 (4 * int (E - 1) + 3) = 4 * E - 1" using bounds(3,4) by (simp add: w32_def of_nat_diff nat_eq_iff2)
    then show ?thesis using ci(3) by simp
  qed
  have F: "w32 (4 * int (E - 1) + 7 - 1461 * int ya) div 4 = F"
  proof -
    have "w32 (4 * int (E - 1) + 7 - 1461 * int ya) = 4 * E + 3 - 1461 * ya"
      using bounds(3,4) ci(6) by (simp add: w32_def of_nat_diff nat_eq_iff2)
    then show ?thesis using ci(4) by simp
  qed
  have lm: "w32 (5 * int F - 3) div 153 = m'"
  proof -
    have "w32 (5 * int F - 3) = 5 * F - 3" using bounds(1,2) by (simp add: w32_def of_nat_diff nat_eq_iff2)
    then show ?thesis using inv(1) by simp
  qed
  have d: "w32 (5 * int F + 2 - 153 * int m') div 5 = d"
  proof -
    have "w32 (5 * int F + 2 - 153 * int m') = 5 * F + 2 - 153 * m'"
      using bounds(1,2) inv(3) by (simp add: w32_def of_nat_diff nat_eq_iff2)
    then show ?thesis using inv(2) by simp
  qed
  have "100 * c + ya = y'" by (simp add: c_ya_F_D_E_def)
  then have ly: "w32 (100 * int c + int ya) = y'" using c ya by (simp add: w32_def flip: of_nat_mult of_nat_add)
  have day: "(day_number y m d * 86400000000 + ms) div 86400000000 = day_number y m d"
    "(day_number y m d * 86400000000 + ms) mod 86400000000 = ms" using ms by simp_all
  have days: "add64 (day_number y m d) 307 = D" using bD' by (simp add: add64_def c_ya_F_D_E_def(4))
  have fin: "(if m' < 10 then (m' + 3, y') else (m' - 9, w32 (int y' + 1))) = (m, y)"
    using v y by (auto simp: y'_m'_def w32_def valid_date_def)
  have "d \<le> 31" using v last_day_range(2) [of y m] by (simp add: valid_date_def)
  then have w: "w16 (int y) = y" "w16 (int m) = m" "w16 (int d) = d" using v y by (simp_all add: w16_exact valid_date_def)
  show ?thesis
    unfolding tick_date_def Let_def day days j1 ci(1) j2 ld j3 F lm d ly fin prod.case w ..
qed


section \<open>Valid dates and their ticks\<close>

definition date_tick :: "OrbisRtcDateTime \<Rightarrow> u64" where
  "date_tick t = ref_days (dt_year t) (dt_month t) (dt_day t) * 86400000000 +
    (dt_hour t * 3600000000 + dt_minute t * 60000000 + dt_second t * 1000000 + dt_microsecond t)"

lemma CheckValid_iff:
  "sceRtcCheckValid (Some t) = Inr () \<longleftrightarrow> valid_date (dt_year t) (dt_month t) (dt_day t) \<and> dt_year t \<le> 9999 \<and>
     dt_hour t < 24 \<and> dt_minute t < 60 \<and> dt_second t < 60 \<and> dt_microsecond t < 1000000"
  by (auto simp: sceRtcCheckValid_def valid_date_def)

lemma valid_number: "valid_date y m d \<Longrightarrow> day_number y m d = ref_days y m d"
  by (simp add: valid_date_def day_number_ref)

lemma GetTick_result:
  assumes "sceRtcCheckValid (Some t) = Inr ()"
  shows "sceRtcGetTick (Some t) True = Inr (shift_date t, date_tick t)"
proof -
  have v: "valid_date (dt_year t) (dt_month t) (dt_day t)" "dt_year t \<le> 9999" "dt_hour t < 24" "dt_minute t < 60"
    "dt_second t < 60" "dt_microsecond t < 1000000"
    using assms CheckValid_iff by auto
  show ?thesis
    using assms shifted_tick_number [OF v] valid_number [OF v(1)] by (simp add: sceRtcGetTick_def date_tick_def)
qed

lemma clock_parts:
  assumes "h < 24" "m < 60" "s < 60" "u < (1000000::nat)"
  defines "n \<equiv> h * 3600000000 + m * 60000000 + s * 1000000 + u"
  shows "n < 86400000000" "n div 3600000000 = h" "n mod 3600000000 = m * 60000000 + s * 1000000 + u"
    "(m * 60000000 + s * 1000000 + u) div 60000000 = m" "(m * 60000000 + s * 1000000 + u) mod 60000000 = s * 1000000 + u"
    "(s * 1000000 + u) div 1000000 = s" "(s * 1000000 + u) mod 1000000 = u"
proof -
  have b: "s * 1000000 + u < 60000000" "m * 60000000 + s * 1000000 + u < 3600000000" using assms(2-4) by linarith+
  then show "n < 86400000000" using assms(1) by (simp add: n_def)
  have "n = 3600000000 * h + (m * 60000000 + s * 1000000 + u)" by (simp add: n_def)
  then show "n div 3600000000 = h" "n mod 3600000000 = m * 60000000 + s * 1000000 + u" using b(2) by simp_all
  have "m * 60000000 + s * 1000000 + u = 60000000 * m + (s * 1000000 + u)" by simp
  then show "(m * 60000000 + s * 1000000 + u) div 60000000 = m" "(m * 60000000 + s * 1000000 + u) mod 60000000 = s * 1000000 + u"
    using b(1) by (metis div_eq, metis mod_mult_self4 mod_less)
  show "(s * 1000000 + u) div 1000000 = s" "(s * 1000000 + u) mod 1000000 = u" using assms(4) by simp_all
qed

lemma tick_date_date_tick:
  assumes "sceRtcCheckValid (Some t) = Inr ()"
  shows "tick_date (date_tick t) = t"
proof -
  have v: "valid_date (dt_year t) (dt_month t) (dt_day t)" "dt_year t \<le> 9999" "dt_hour t < 24" "dt_minute t < 60"
    "dt_second t < 60" "dt_microsecond t < 1000000"
    using assms CheckValid_iff by auto
  note p = clock_parts [OF v(3-6)]
  show ?thesis
    unfolding date_tick_def valid_number [OF v(1), symmetric] tick_date_inverse [OF v(1,2) p(1)] p(2-7) by simp
qed

lemma year_offset_mono: "m \<le> n \<Longrightarrow> year_offset m \<le> year_offset n"
proof (induction n)
  case (Suc n)
  then show ?case using year_offset_step [of n] by (cases "m = Suc n") auto
qed simp

text \<open>Every tick before the year 10000 belongs to a valid date.\<close>

lemma tick_has_date:
  assumes "tick < 315537897600000000"
  shows "\<exists>t. sceRtcCheckValid (Some t) = Inr () \<and> date_tick t = tick"
proof -
  define N ms where "N = tick div 86400000000" "ms = tick mod 86400000000"
  have tick: "tick = N * 86400000000 + ms" "ms < 86400000000" "N < 3652059"
    using assms by (simp_all add: N_ms_def less_mult_imp_div_less)
  obtain y m d where v: "valid_date y m d" "day_number y m d = N" using day_number_surj by blast
  have y: "y \<le> 9999"
  proof (rule ccontr)
    assume "\<not> y \<le> 9999"
    then have "year_offset 9999 \<le> year_offset (y - 1)" by (intro year_offset_mono) simp
    moreover have "year_offset 9999 = 3652059" by (simp add: year_offset_def)
    moreover have "year_offset (y - 1) \<le> day_number y m d"
      using v(1) unfolding day_number_def valid_date_def by linarith
    ultimately show False using v(2) tick(3) by linarith
  qed
  define a b where "a = ms mod 3600000000" "b = a mod 60000000"
  let ?t = "\<lparr>dt_year = y, dt_month = m, dt_day = d, dt_hour = ms div 3600000000, dt_minute = a div 60000000,
      dt_second = b div 1000000, dt_microsecond = b mod 1000000\<rparr>"
  have "a < 3600000000" "b < 60000000" by (simp_all add: a_b_def)
  then have lt: "ms div 3600000000 < 24" "a div 60000000 < 60" "b div 1000000 < 60" "b mod 1000000 < 1000000"
    using tick(2) by (simp_all add: less_mult_imp_div_less)
  have e: "ms = ms div 3600000000 * 3600000000 + a" "a = a div 60000000 * 60000000 + b" "b = b div 1000000 * 1000000 + b mod 1000000"
    by (simp_all add: a_b_def)
  have "date_tick ?t = N * 86400000000 + ms"
    using v(2) valid_number [OF v(1)] e by (simp add: date_tick_def)
  then show ?thesis using v(1) y lt tick(1) by (intro exI [of _ ?t]) (simp add: CheckValid_iff)
qed



section \<open>Correctness\<close>

text \<open>sceRtcGetTick computes the tick of every date by the calendar: the microseconds of all years, months
  and days before it, counted one by one with the leap year rule, plus the time of day; an invalid date
  gives the error of sceRtcCheckValid and no tick.  The date passed in comes back with its month and
  year shifted to a year that starts in March.\<close>

theorem rtc_get_tick_reference:
  "sceRtcGetTick (Some t) True = (case sceRtcCheckValid (Some t) of
     Inl e \<Rightarrow> Inl e
   | Inr _ \<Rightarrow> Inr (shift_date t,
       (days_before_year (dt_year t) + days_before_month (dt_year t) (dt_month t) + (dt_day t - 1)) * 86400000000 +
       dt_hour t * 3600000000 + dt_minute t * 60000000 + dt_second t * 1000000 + dt_microsecond t))"
proof (cases "sceRtcCheckValid (Some t)")
  case (Inl e)
  then show ?thesis by (simp add: sceRtcGetTick_def)
next
  case (Inr u)
  then have "sceRtcCheckValid (Some t) = Inr ()" by simp
  moreover from this have "1 \<le> dt_day t" by (simp add: CheckValid_iff valid_date_def)
  ultimately show ?thesis by (simp add: GetTick_result date_tick_def ref_days_def)
qed



section \<open>Adding months\<close>

lemma sdiv_smod_12:
  fixes l :: int
  shows "l = 12 * (l sdiv 12) + l smod 12" "0 \<le> l \<Longrightarrow> 0 \<le> l smod 12 \<and> l smod 12 < 12" "l < 0 \<Longrightarrow> -12 < l smod 12 \<and> l smod 12 \<le> 0"
proof -
  have "12 * (\<bar>l\<bar> div 12) + \<bar>l\<bar> mod 12 = \<bar>l\<bar>" by (rule mult_div_mod_eq)
  then show "l = 12 * (l sdiv 12) + l smod 12" using minus_mult_div_eq_mod [of "- l" 12]
    by (cases l "0::int" rule: linorder_cases) (auto simp: signed_modulo_int_def signed_divide_int_def)
qed (auto simp: signed_modulo_int_def sgn_if)

lemma int_div_mod_eq: "a = 12 * q + r \<Longrightarrow> 0 \<le> r \<Longrightarrow> r < 12 \<Longrightarrow> a div 12 = q \<and> a mod 12 = (r::int)"
  by simp

lemma w16_add: "w16 (int (w16 x) + y) = w16 (x + y)"
  by (simp add: w16_def mod_add_left_eq)

text \<open>The month count since the year 0 moves by \<open>lAdd\<close>; the year is its quotient by 12, wrapped to 16 bits.\<close>

lemma month_shift_count:
  fixes lAdd :: int
  assumes "1 \<le> dt_month t" "dt_month t \<le> 12"
  defines "M \<equiv> 12 * int (dt_year t) + int (dt_month t) - 1 + lAdd"
  shows "month_shift t lAdd = t\<lparr>dt_year := w16 (M div 12), dt_month := nat (M mod 12) + 1,
    dt_day := min (dt_day t) (last_day (w16 (M div 12)) (nat (M mod 12) + 1))\<rparr>"
proof -
  define q r tm where "q = lAdd sdiv 12" "r = lAdd smod 12" "tm = int (dt_month t) + r - 1"
  define s :: int where "s = (if lAdd \<ge> 0 then 1 else -1)"
  define out where "out \<longleftrightarrow> tm > 11 \<or> tm < 0"
  have M: "M = 12 * (int (dt_year t) + q) + tm"
    using sdiv_smod_12(1) [of lAdd] by (simp add: M_def q_r_tm_def)
  have range: "0 \<le> tm - s * 12 \<and> tm - s * 12 < 12" if out
    using that assms(1,2) sdiv_smod_12(2,3) [of lAdd] by (cases "lAdd \<ge> 0") (auto simp: out_def s_def q_r_tm_def)
  have e: "M div 12 = int (dt_year t) + q + (if out then s else 0) \<and> M mod 12 = (if out then tm - s * 12 else tm)"
    by (rule int_div_mod_eq) (use M range in \<open>auto simp: out_def\<close>)
  have month: "w16 (M mod 12 + 1) = nat (M mod 12) + 1"
    using pos_mod_bound [of 12 "M"] by (simp add: w16_exact nat_add_distrib)
  have "month_shift t lAdd =
      (let (tempMonth, year) = (M mod 12, w16 (M div 12)); month = w16 (tempMonth + 1); lastDay = last_day year month
       in t\<lparr>dt_year := year, dt_month := month, dt_day := (if dt_day t > lastDay then lastDay else dt_day t)\<rparr>)"
    unfolding month_shift_def s_def [symmetric] q_r_tm_def [symmetric] Let_def
    using e by (simp add: w16_add out_def add.assoc flip: q_r_tm_def s_def)
  then show ?thesis by (simp add: month min_def Let_def not_less)
qed

text \<open>sceRtcTickAddMonths moves the date of the tick by exactly lAdd months, for any sign and size of lAdd:
  counted in months since the year 0 the result is the old count plus lAdd, the day is cut to the last day of
  the new month and the time of day is kept.  It fails with the error for the year, and writes nothing,
  exactly when the new year (a 16-bit field) is outside 1 to 9999.\<close>

theorem rtc_add_months_exact:
  assumes "tick1 < 315537897600000000" "lAdd \<noteq> 0" "sceRtcSetTick True (Some tick1) = Inr t"
    and "M = 12 * int (dt_year t) + int (dt_month t) - 1 + lAdd"
    and "y = w16 (M div 12)" "m = nat (M mod 12) + 1" "t' = t\<lparr>dt_year := y, dt_month := m, dt_day := min (dt_day t) (last_day y m)\<rparr>"
  shows "if 1 \<le> y \<and> y \<le> 9999
    then \<exists>tick. sceRtcTickAddMonths (Some tick1) (Some tick2) lAdd = Inr tick \<and> sceRtcSetTick True (Some tick) = Inr t'
    else sceRtcTickAddMonths (Some tick1) (Some tick2) lAdd = Inl ORBIS_RTC_ERROR_INVALID_YEAR"
proof -
  obtain u where u: "sceRtcCheckValid (Some u) = Inr ()" "date_tick u = tick1" using tick_has_date [OF assms(1)] by blast
  then have t: "t = u" "tick_date tick1 = t" using assms(3) tick_date_date_tick by (auto simp: sceRtcSetTick_def)
  then have v: "valid_date (dt_year t) (dt_month t) (dt_day t)" "dt_hour t < 24" "dt_minute t < 60"
    "dt_second t < 60" "dt_microsecond t < 1000000" using u CheckValid_iff by auto
  have t': "month_shift t lAdd = t'"
    using month_shift_count [of t lAdd] v(1) by (simp add: assms(4-7) valid_date_def)
  have add: "sceRtcTickAddMonths (Some tick1) (Some tick2) lAdd =
      (case sceRtcGetTick (Some t') True of Inl e \<Rightarrow> Inl e | Inr (_, tick) \<Rightarrow> Inr tick)"
    by (simp add: sceRtcTickAddMonths_def assms(2) t(2) t')
  show ?thesis
  proof (cases "1 \<le> y \<and> y \<le> 9999")
    case True
    have "m \<le> 12" using pos_mod_bound [of 12 M] by (simp add: assms(6))
    then have "sceRtcCheckValid (Some t') = Inr ()"
      using True v last_day_range(1) [of y m] by (auto simp: CheckValid_iff valid_date_def assms(7)) (simp add: assms(6))
    then show ?thesis using True add GetTick_result tick_date_date_tick by (auto simp: sceRtcSetTick_def)
  next
    case False
    then have "sceRtcCheckValid (Some t') = Inl ORBIS_RTC_ERROR_INVALID_YEAR"
      by (auto simp: sceRtcCheckValid_def assms(7))
    then show ?thesis using False add by (auto simp: sceRtcGetTick_def)
  qed
qed

lemma tick_date_2024_01_31:
  "tick_date 63842256000000000 = \<lparr>dt_year = 2024, dt_month = 1, dt_day = 31, dt_hour = 0, dt_minute = 0,
    dt_second = 0, dt_microsecond = 0\<rparr>"
proof -
  have v: "valid_date 2024 1 31" by (simp add: valid_date_def last_day_def)
  have "day_number 2024 1 31 = 738915" by (simp add: day_number_def year_offset_def month_offset_def)
  then show ?thesis using tick_date_inverse [OF v, of 0] by simp
qed

theorem rtc_add_months_exact_witness:
  "\<exists>tick. sceRtcTickAddMonths (Some 63842256000000000) (Some 0) (-11) = Inr tick \<and>
    sceRtcSetTick True (Some tick) = Inr \<lparr>dt_year = 2023, dt_month = 2, dt_day = 28, dt_hour = 0, dt_minute = 0,
      dt_second = 0, dt_microsecond = 0\<rparr>"
proof -
  let ?t = "\<lparr>dt_year = 2024, dt_month = 1, dt_day = 31, dt_hour = 0, dt_minute = 0, dt_second = 0, dt_microsecond = 0\<rparr>"
  let ?t' = "\<lparr>dt_year = 2023, dt_month = 2, dt_day = 28, dt_hour = 0, dt_minute = 0, dt_second = 0, dt_microsecond = 0\<rparr>"
  have "if (1::nat) \<le> 2023 \<and> (2023::nat) \<le> 9999
    then \<exists>tick. sceRtcTickAddMonths (Some 63842256000000000) (Some 0) (-11) = Inr tick \<and> sceRtcSetTick True (Some tick) = Inr ?t'
    else sceRtcTickAddMonths (Some 63842256000000000) (Some 0) (-11) = Inl ORBIS_RTC_ERROR_INVALID_YEAR"
    by (rule rtc_add_months_exact [where t = ?t and M = 24277 and m = 2])
      (simp_all add: sceRtcSetTick_def tick_date_2024_01_31 w16_def last_day_def is_leap_def)
  then show ?thesis by simp
qed

section \<open>DOS time\<close>

lemma and_low_bits: "(x::nat) AND 0x1F = x mod 32" "x AND 0x3F = x mod 64" "x AND 0x0F = x mod 16"
  using take_bit_eq_mask [of 5 x] take_bit_eq_mask [of 6 x] take_bit_eq_mask [of 4 x]
  by (simp_all add: mask_eq_exp_minus_1 take_bit_eq_mod)

lemma dos_fields: "((x::nat) AND 0xf800) div 2048 = x div 2048 mod 32" "(x * 2) AND 0x3e = 2 * (x mod 32)"
proof -
  have "drop_bit 11 (x AND 0xf800) = drop_bit 11 x AND 0x1F" by (simp add: drop_bit_and)
  then show "(x AND 0xf800) div 2048 = x div 2048 mod 32" by (simp add: drop_bit_eq_div and_low_bits)
  have "push_bit 1 x AND push_bit 1 0x1F = push_bit 1 (x AND 0x1F)" by (simp only: push_bit_and)
  then show "(x * 2) AND 0x3e = 2 * (x mod 32)" by (simp add: push_bit_eq_mult and_low_bits mult.commute)
qed

lemma dos_pack:
  assumes "s < 32" "mi < 64" "h < 32" "d < 32" "mo < (16::nat)"
  shows "s OR push_bit 5 mi OR push_bit 11 h OR push_bit 16 d OR push_bit 21 mo OR push_bit 25 y =
    s + 32 * mi + 2048 * h + 65536 * (d + 32 * mo + 512 * y)"
proof -
  have "s OR push_bit 5 mi = s + 32 * mi" using assms by (simp add: or_disjoint_add)
  moreover have "(s + 32 * mi) OR push_bit 11 h = s + 32 * mi + 2048 * h" using assms by (simp add: or_disjoint_add)
  moreover have "(s + 32 * mi + 2048 * h) OR push_bit 16 d = s + 32 * mi + 2048 * h + 65536 * d"
    using assms by (simp add: or_disjoint_add)
  moreover have "(s + 32 * mi + 2048 * h + 65536 * d) OR push_bit 21 mo = s + 32 * mi + 2048 * h + 65536 * d + 2097152 * mo"
    using assms by (simp add: or_disjoint_add)
  moreover have "(s + 32 * mi + 2048 * h + 65536 * d + 2097152 * mo) OR push_bit 25 y =
      s + 32 * mi + 2048 * h + 65536 * d + 2097152 * mo + 33554432 * y"
    using assms by (simp add: or_disjoint_add)
  ultimately show ?thesis by (simp add: or.assoc [symmetric])
qed

lemma GetDosTime_sum:
  assumes v: "sceRtcCheckValid (Some t) = Inr ()" and "1980 \<le> dt_year t" "dt_year t \<le> 2107"
  shows "sceRtcGetDosTime (Some t) (Some 0) = Inr (dt_second t div 2 + 32 * dt_minute t + 2048 * dt_hour t +
    65536 * (dt_day t + 32 * dt_month t + 512 * (dt_year t - 1980)))"
proof -
  have b: "dt_second t div 2 < 32" "dt_minute t < 64" "dt_hour t < 32" "dt_day t < 32" "dt_month t < 16"
    using v last_day_range(2) [of "dt_year t" "dt_month t"] by (auto simp: CheckValid_iff valid_date_def)
  have y: "nat ((int (dt_year t) - 1980) mod 128) = dt_year t - 1980" using assms(2,3) by simp
  show ?thesis using v b dos_pack [OF b] by (simp add: sceRtcGetDosTime_def and_low_bits y)
qed

lemma mod_eq: "m = k * q + r \<Longrightarrow> r < k \<Longrightarrow> m mod k = (r::nat)"
  by simp

lemma dos_low_fields:
  assumes "s < 32" "mi < 64" "h < (32::nat)" and d: "d = s + 32 * mi + 2048 * h + 65536 * hi"
  shows "d mod 32 = s" "d div 32 mod 64 = mi" "d div 2048 mod 32 = h" "d div 65536 = hi"
proof -
  have e: "d = 32 * (mi + 64 * h + 2048 * hi) + s" using d by simp
  show "d mod 32 = s" by (rule mod_eq [OF e assms(1)])
  have "d div 32 = mi + 64 * h + 2048 * hi" by (rule div_eq [OF e assms(1)])
  then show "d div 32 mod 64 = mi" using assms(2) by (intro mod_eq [where q = "h + 32 * hi"]) simp_all
  have "d = 2048 * (h + 32 * hi) + (s + 32 * mi)" using d by simp
  then have "d div 2048 = h + 32 * hi" by (rule div_eq) (use assms(1,2) in linarith)
  then show "d div 2048 mod 32 = h" using assms(3) by simp
  have "d = 65536 * hi + (s + 32 * mi + 2048 * h)" using d by simp
  then show "d div 65536 = hi" by (rule div_eq) (use assms(1,2,3) in linarith)
qed

lemma dos_high_fields:
  fixes y :: int
  assumes "d < 32" "mo < 16" "h = 512 * y + (int d + 32 * int mo)"
  shows "h mod 32 = int d" "h div 32 mod 16 = int mo" "h div 512 = y"
proof -
  obtain z where z: "z = int mo + 16 * y" by blast
  have e: "h = 32 * z + int d" using assms(3) z by simp
  show "h mod 32 = int d" unfolding e using assms(1) by simp
  have "h div 32 = z" unfolding e using assms(1) by simp
  then show "h div 32 mod 16 = int mo" using assms(2) z by simp
  show "h div 512 = y" unfolding assms(3) using assms(1,2) by simp
qed

text \<open>A valid date of the years 1980 to 2107 packed into a cleared DOS word and unpacked again keeps its month, day,
  hour and minute, loses the odd second and the microseconds, and keeps its year up to 2043; a later year
  comes back 128 years too early, because the upper half of the word is read as a signed number.\<close>

theorem rtc_dos_roundtrip:
  assumes "sceRtcCheckValid (Some t) = Inr ()" "1980 \<le> dt_year t" "dt_year t \<le> 2107"
  shows "\<exists>d < 2 ^ 32. sceRtcGetDosTime (Some t) (Some 0) = Inr d \<and>
    sceRtcSetDosTime True d = Inr (t\<lparr>dt_year := (if dt_year t \<le> 2043 then dt_year t else dt_year t - 128),
      dt_second := 2 * (dt_second t div 2), dt_microsecond := 0\<rparr>)"
proof -
  define s hi d where "s = dt_second t div 2" "hi = dt_day t + 32 * dt_month t + 512 * (dt_year t - 1980)"
    "d = s + 32 * dt_minute t + 2048 * dt_hour t + 65536 * hi"
  have b: "s < 32" "dt_minute t < 64" "dt_hour t < 32" "dt_day t < 32" "dt_month t < 16" "dt_year t - 1980 < 128"
    using assms last_day_range(2) [of "dt_year t" "dt_month t"] by (auto simp: CheckValid_iff valid_date_def s_hi_d_def)
  note f = dos_low_fields [OF b(1-3) s_hi_d_def(3)]
  let ?Y = "if dt_year t \<le> 2043 then int (dt_year t) - 1980 else int (dt_year t) - 2108"
  have "hi < 32768 \<longleftrightarrow> dt_year t \<le> 2043" using b assms(2) by (auto simp: s_hi_d_def(2))
  then have "dos_days d = 512 * ?Y + (int (dt_day t) + 32 * int (dt_month t))"
    using assms(2) by (auto simp: dos_days_def Let_def drop_bit_eq_div f(4)) (simp_all add: s_hi_d_def(2) of_nat_diff)
  note q = dos_high_fields [OF b(4,5) this]
  have "sceRtcSetDosTime True d = Inr (t\<lparr>dt_year := (if dt_year t \<le> 2043 then dt_year t else dt_year t - 128),
      dt_second := 2 * s, dt_microsecond := 0\<rparr>)"
    unfolding sceRtcSetDosTime_def Let_def q dos_fields and_low_bits f(1-3) using assms(2,3)
    by (auto simp: w16_def intro!: OrbisRtcDateTime.equality)
  moreover have "d < 2 ^ 32" using b by (simp add: s_hi_d_def(2,3))
  moreover have "sceRtcGetDosTime (Some t) (Some 0) = Inr d" using GetDosTime_sum [OF assms] by (simp add: s_hi_d_def)
  ultimately show ?thesis by (auto simp: s_hi_d_def(1))
qed

theorem rtc_dos_roundtrip_witness:
  "\<exists>d < 2 ^ 32. sceRtcGetDosTime (Some \<lparr>dt_year = 2044, dt_month = 2, dt_day = 29, dt_hour = 23, dt_minute = 59,
      dt_second = 57, dt_microsecond = 5\<rparr>) (Some 0) = Inr d \<and>
    sceRtcSetDosTime True d = Inr \<lparr>dt_year = 1916, dt_month = 2, dt_day = 29, dt_hour = 23, dt_minute = 59,
      dt_second = 56, dt_microsecond = 0\<rparr>"
  using rtc_dos_roundtrip [of "\<lparr>dt_year = 2044, dt_month = 2, dt_day = 29, dt_hour = 23, dt_minute = 59,
      dt_second = 57, dt_microsecond = 5\<rparr>"]
  by (simp add: sceRtcCheckValid_def last_day_def is_leap_def)

end
