(* ===== verification/Rtc_Text.thy ===== *)
theory Rtc_Text
  imports Rtc_Tick "HOL-Library.Monad_Syntax"
begin

text \<open>
  The text formats of \<^verbatim>\<open>src/src/core/libraries/rtc/rtc.cpp\<close>: the RFC 2822 and RFC 3339 printers and parsers, with
  the \<open>std::string\<close> functions they use.  The value \<open>None\<close> of a result is an uncaught C++ exception
  (\<open>std::stoi\<close>, \<open>substr\<close>) or an access outside a string.
\<close>

section \<open>Strings\<close>

definition digit :: "nat \<Rightarrow> char" where
  "digit n = char_of (48 + n)"

fun to_string :: "nat \<Rightarrow> string" where
  "to_string n = (if n < 10 then [digit n] else to_string (n div 10) @ [digit (n mod 10)])"

declare to_string.simps [simp del]

definition substr :: "string \<Rightarrow> nat \<Rightarrow> nat \<Rightarrow> string option" where
  "substr s pos n = (if pos > length s then None else Some (take n (drop pos s)))"

text \<open>\<open>operator[]\<close> of a constant or mutable string: the terminating null at its length.\<close>

definition char_at :: "string \<Rightarrow> nat \<Rightarrow> char option" where
  "char_at s i = (if i < length s then Some (s ! i) else if i = length s then Some (CHR 0x00) else None)"

definition isspace :: "char \<Rightarrow> bool" where
  "isspace c \<longleftrightarrow> c = CHR 0x20 \<or> (9 \<le> (of_char c :: nat) \<and> (of_char c :: nat) \<le> 13)"

definition isdigit :: "char \<Rightarrow> bool" where
  "isdigit c \<longleftrightarrow> 48 \<le> (of_char c :: nat) \<and> (of_char c :: nat) \<le> 57"

definition decimal :: "string \<Rightarrow> int" where
  "decimal ds = foldl (\<lambda>v c. 10 * v + (of_char c - 48)) 0 ds"

text \<open>\<open>std::stoi\<close>: leading white space, an optional sign and the longest run of digits.\<close>

definition stoi :: "string \<Rightarrow> int option" where
  "stoi s =
    (let s = dropWhile isspace s;
         (neg, s) = (case s of [] \<Rightarrow> (False, s) | c # cs \<Rightarrow>
           if c = CHR ''-'' then (True, cs) else if c = CHR ''+'' then (False, cs) else (False, s));
         ds = takeWhile isdigit s;
         v = (if neg then - decimal ds else decimal ds)
     in if ds = [] \<or> v < -2147483648 \<or> v > 2147483647 then None else Some v)"

definition stoi_at :: "string \<Rightarrow> nat \<Rightarrow> nat \<Rightarrow> int option" where
  "stoi_at s pos n = (case substr s pos n of None \<Rightarrow> None | Some sub \<Rightarrow> stoi sub)"

section \<open>Printing\<close>

definition two_digits :: "nat \<Rightarrow> string" where
  "two_digits n = (if n < 10 then ''0'' @ to_string n else to_string n)"

text \<open>The tick to print: the current time for a null pointer, moved by the zone.\<close>

definition format_tick :: "int \<times> int \<times> int \<Rightarrow> u64 option \<Rightarrow> int \<Rightarrow> u64 option" where
  "format_tick clock pTickUtc iTimeZoneMinutes =
    (case (case pTickUtc of
             None \<Rightarrow> (case sceRtcGetCurrentTick clock True of Inr t \<Rightarrow> t | Inl _ \<Rightarrow> None)
           | Some tick \<Rightarrow> Some tick) of
       None \<Rightarrow> None
     | Some tick \<Rightarrow> (case sceRtcTickAddMinutes (Some tick) (Some tick) iTimeZoneMinutes of Some (Inr t) \<Rightarrow> Some t | _ \<Rightarrow> None))"

definition day_text :: "(RtcError + int) option \<Rightarrow> string" where
  "day_text weekDay = (case weekDay of
     Some (Inr d) \<Rightarrow>
       if d = 0 then ''Sun, '' else if d = 1 then ''Mon, '' else if d = 2 then ''Tue, '' else if d = 3 then ''Wed, ''
       else if d = 4 then ''Thu, '' else if d = 5 then ''Fri, '' else if d = 6 then ''Sat, '' else ''''
   | _ \<Rightarrow> '''')"

definition month_text :: "nat \<Rightarrow> string" where
  "month_text m =
    (if m = 1 then ''Jan '' else if m = 2 then ''Feb '' else if m = 3 then ''Mar '' else if m = 4 then ''Apr ''
     else if m = 5 then ''May '' else if m = 6 then ''Jun '' else if m = 7 then ''Jul '' else if m = 8 then ''Aug ''
     else if m = 9 then ''Sep '' else if m = 10 then ''Oct '' else if m = 11 then ''Nov '' else if m = 12 then ''Dec '' else '''')"

text \<open>The zone: hours and remainder separated by \<open>sep\<close>; the remainder is not padded, and its sign is lost when
  the hours are zero.\<close>

definition zone_text :: "string \<Rightarrow> string \<Rightarrow> int \<Rightarrow> string" where
  "zone_text utc sep iTimeZoneMinutes =
    (if iTimeZoneMinutes = 0 then utc
     else let timeZoneHours = iTimeZoneMinutes sdiv 60;
              timeZoneRemainder = iTimeZoneMinutes smod 60
          in (if timeZoneHours < 0 then ''-'' else ''+'') @ two_digits (nat \<bar>timeZoneHours\<bar>) @ sep @
             (if timeZoneRemainder = 0 then ''00'' else to_string (nat \<bar>timeZoneRemainder\<bar>)))"

definition rfc2822_text :: "int \<Rightarrow> OrbisRtcDateTime \<Rightarrow> int \<Rightarrow> string" where
  "rfc2822_text sdk_version t iTimeZoneMinutes =
    day_text (sceRtcGetDayOfWeek sdk_version (int (dt_year t)) (int (dt_month t)) (int (dt_day t))) @
    two_digits (dt_day t) @ '' '' @ month_text (dt_month t) @ to_string (dt_year t) @ '' '' @
    two_digits (dt_hour t) @ '':'' @ two_digits (dt_minute t) @ '':'' @ two_digits (dt_second t) @ '' '' @
    zone_text ''+0000'' '''' iTimeZoneMinutes"

text \<open>\<open>Inr None\<close>: an invalid date returns ORBIS_OK and leaves the buffer as it was.\<close>

definition sceRtcFormatRFC2822 ::
  "int \<Rightarrow> int \<times> int \<times> int \<Rightarrow> bool \<Rightarrow> u64 option \<Rightarrow> int \<Rightarrow> (RtcError + string option) option" where
  "sceRtcFormatRFC2822 sdk_version clock has_buffer pTickUtc iTimeZoneMinutes =
    (if \<not> has_buffer then Some (Inl ORBIS_RTC_ERROR_INVALID_POINTER)
     else (case format_tick clock pTickUtc iTimeZoneMinutes of
         None \<Rightarrow> None
       | Some tick \<Rightarrow>
         let formatTime = tick_date tick
         in (case sceRtcCheckValid (Some formatTime) of
               Inr _ \<Rightarrow> Some (Inr (Some (rfc2822_text sdk_version formatTime iTimeZoneMinutes)))
             | Inl _ \<Rightarrow> Some (Inr None))))"

definition sceRtcFormatRFC2822LocalTime where
  "sceRtcFormatRFC2822LocalTime sdk_version clock tz has_buffer pTickUtc =
    sceRtcFormatRFC2822 sdk_version clock has_buffer pTickUtc (tz_offset tz)"

definition rfc3339_text :: "OrbisRtcDateTime \<Rightarrow> int \<Rightarrow> string" where
  "rfc3339_text t iTimeZoneMinutes =
    to_string (dt_year t) @ ''-'' @ two_digits (dt_month t) @ ''-'' @ two_digits (dt_day t) @ ''T'' @
    two_digits (dt_hour t) @ '':'' @ two_digits (dt_minute t) @ '':'' @ two_digits (dt_second t) @
    (if dt_microsecond t \<noteq> 0 then ''.'' @ take 2 (to_string (dt_microsecond t div 1000)) else ''.00'') @
    zone_text ''Z'' '':'' iTimeZoneMinutes"

definition sceRtcFormatRFC3339Precise ::
  "int \<times> int \<times> int \<Rightarrow> bool \<Rightarrow> u64 option \<Rightarrow> int \<Rightarrow> (RtcError + string) option" where
  "sceRtcFormatRFC3339Precise clock has_buffer pTickUtc iTimeZoneMinutes =
    (if \<not> has_buffer then Some (Inl ORBIS_RTC_ERROR_INVALID_POINTER)
     else (case format_tick clock pTickUtc iTimeZoneMinutes of
         None \<Rightarrow> None
       | Some tick \<Rightarrow> Some (Inr (rfc3339_text (tick_date tick) iTimeZoneMinutes))))"

definition sceRtcFormatRFC3339 where "sceRtcFormatRFC3339 = sceRtcFormatRFC3339Precise"

definition sceRtcFormatRFC3339LocalTime where
  "sceRtcFormatRFC3339LocalTime clock tz has_buffer pTickUtc = sceRtcFormatRFC3339 clock has_buffer pTickUtc (tz_offset tz)"

definition sceRtcFormatRFC3339PreciseLocalTime where
  "sceRtcFormatRFC3339PreciseLocalTime clock tz has_buffer pTickUtc =
    sceRtcFormatRFC3339Precise clock has_buffer pTickUtc (tz_offset tz)"

section \<open>Parsing\<close>


text \<open>\<open>sceRtcGetTick(&dateTime, pTickUtc)\<close> with its result ignored: an invalid date leaves the tick as it was.\<close>

definition get_tick_into :: "OrbisRtcDateTime \<Rightarrow> u64 \<Rightarrow> u64" where
  "get_tick_into t old = (case sceRtcGetTick (Some t) True of Inr (_, tick) \<Rightarrow> tick | Inl _ \<Rightarrow> old)"

text \<open>The zone's minutes at \<open>hpos\<close> and \<open>mpos\<close>, with the sign of the zone, added to the tick.\<close>

definition add_zone :: "string \<Rightarrow> int \<Rightarrow> nat \<Rightarrow> nat \<Rightarrow> u64 \<Rightarrow> u64 option" where
  "add_zone s sign hpos mpos tick = (case (stoi_at s hpos 2, stoi_at s mpos 2) of
     (Some h, Some m) \<Rightarrow>
       (case sceRtcTickAddMinutes (Some tick) (Some tick) (sign * (h * 60 + m)) of Some (Inr t) \<Rightarrow> Some t | _ \<Rightarrow> None)
   | _ \<Rightarrow> None)"

definition date_of_fields :: "int \<Rightarrow> int \<Rightarrow> int \<Rightarrow> int \<Rightarrow> int \<Rightarrow> int \<Rightarrow> int \<Rightarrow> OrbisRtcDateTime" where
  "date_of_fields y m d h mi s us = \<lparr>dt_year = w16 y, dt_month = w16 m, dt_day = w16 d, dt_hour = w16 h,
    dt_minute = w16 mi, dt_second = w16 s, dt_microsecond = w32 us\<rparr>"

definition sceRtcParseRFC3339 :: "u64 option \<Rightarrow> string option \<Rightarrow> (RtcError + u64) option" where
  "sceRtcParseRFC3339 pTickUtc pszDateTime = (case (pTickUtc, pszDateTime) of
     (Some old, Some s) \<Rightarrow>
       do {
         y \<leftarrow> stoi_at s 0 4; m \<leftarrow> stoi_at s 5 2; d \<leftarrow> stoi_at s 8 2;
         h \<leftarrow> stoi_at s 11 2; mi \<leftarrow> stoi_at s 14 2; sec \<leftarrow> stoi_at s 17 2;
         c \<leftarrow> char_at s 19;
         (us, timezone_pos) \<leftarrow> (if c = CHR ''.'' then map_option (\<lambda>us. (us, 22)) (stoi_at s 20 2) else Some (0, 19));
         z \<leftarrow> char_at s timezone_pos;
         let tick = get_tick_into (date_of_fields y m d h mi sec us) old;
         tick \<leftarrow> (if z = CHR ''-'' then add_zone s (-1) (timezone_pos + 1) (timezone_pos + 4) tick
                  else if z = CHR ''+'' then add_zone s 1 (timezone_pos + 1) (timezone_pos + 4) tick
                  else Some tick);
         Some (Inr tick)
       }
   | _ \<Rightarrow> Some (Inl ORBIS_RTC_ERROR_INVALID_POINTER))"




section \<open>Digits\<close>












section \<open>Round trips\<close>














text \<open>A zone other than UTC is added to the local time instead of subtracted: 01:00 at +01:00 is midnight UTC and reads as
  two o'clock.\<close>

lemma parse_adds_zone:
  "sceRtcParseRFC3339 (Some 0) (Some ''2024-01-31T01:00:00.00+01:00'') = Some (Inr (63842256000000000 + 2 * 3600000000))"
proof -
  have n: "stoi ''2024'' = Some 2024" "stoi ''01'' = Some 1" "stoi ''31'' = Some 31" "stoi ''00'' = Some 0"
    by (simp_all add: stoi_def isspace_def isdigit_def decimal_def)
  let ?t = "\<lparr>dt_year = 2024, dt_month = 1, dt_day = 31, dt_hour = 1, dt_minute = 0, dt_second = 0, dt_microsecond = 0\<rparr>"
  have v: "sceRtcCheckValid (Some ?t) = Inr ()" by (simp add: sceRtcCheckValid_def last_day_def)
  have "day_number 2024 1 31 = 738915" by (simp add: day_number_def year_offset_def month_offset_def)
  then have "date_tick ?t = 63842256000000000 + 3600000000"
    using valid_number [of 2024 1 31] by (simp add: date_tick_def valid_date_def last_day_def)
  then have "get_tick_into ?t 0 = 63842256000000000 + 3600000000" using GetTick_result [OF v] by (simp add: get_tick_into_def)
  then show ?thesis
    by (simp add: sceRtcParseRFC3339_def stoi_at_def substr_def char_at_def n date_of_fields_def w16_exact w32_exact
        add_zone_def sceRtcTickAddMinutes_def tick_add_def in_s64_def w64_def)
qed

text \<open>The sign of a zone less than one hour west is lost.\<close>

lemma zone_text_sign_lost: "zone_text ''Z'' '':'' (-30) = zone_text ''Z'' '':'' 30"
  by (simp add: zone_text_def signed_divide_int_def signed_modulo_int_def)

end
