(* ===== verification/Spec2Isabelle.thy ===== *)
theory Spec2Isabelle
  imports Guest_Startup Memory_Virtual Event_Flag Kernel_Semaphore Posix_Semaphore Pthread_Rwlock Cond_Invariant Pthread_Specific Pthread_Once Pthread_Attr Thread_Safety
    Equeue_Wait Rtc_Text
begin

text \<open>
  Verification of the guest runtime of an emulator for Xbox Series consoles (a C++ program under \<^verbatim>\<open>src/src\<close>).
  The emulator loads a guest program, gives it memory and a first thread, and answers its calls to the
  kernel.  This development models the parts of that runtime that decide something; rendering, sound, user
  interface and host services are outside.

  \<^bold>\<open>The guest pipeline\<close> (\<^verbatim>\<open>src/src/core/uwp\<close>).  A file of the guest passes through a chain of checked stages,
  each of which takes the bytes of the file again and trusts nothing but the stages before it.

  \<^item> \<open>Guest_Preflight\<close> (\<^verbatim>\<open>guest_preflight.h\<close>): \<open>InspectGuestPrefix\<close> classifies a prefix of the file.
  \<^item> \<open>Guest_Load_Plan\<close> (\<^verbatim>\<open>guest_load_plan.h\<close>): \<open>PlanGuestLoads\<close> plans the segments, \<open>StageRawGuest\<close> builds the image of a raw ELF.
  \<^item> \<open>Guest_Payload\<close> (\<^verbatim>\<open>guest_payload.h\<close>): \<open>PlanGuestPayloadFile\<close> finds the bytes of the segments in a raw or signed file,
    \<open>StageGuestPayload\<close> copies them.
  \<^item> \<open>Guest_Link\<close> (\<^verbatim>\<open>guest_link_manifest.h\<close>): \<open>InspectGuestLinkManifest\<close> lists dependencies, symbols and relocations.
  \<^item> \<open>Guest_Import\<close> (\<^verbatim>\<open>guest_import_resolver.h\<close>): the codec of library ids and \<open>ResolveGuestImports\<close>.
  \<^item> \<open>Guest_Data_Link\<close> (\<^verbatim>\<open>guest_data_link.h\<close>): \<open>StageGuestDataLink\<close> composes the three stages before it and applies relocations.
  \<^item> \<open>Guest_Memory\<close> (\<^verbatim>\<open>guest_memory.h\<close>, \<^verbatim>\<open>kernel_clock.h\<close>): memory functions on authorised host ranges, and the clock.
  \<^item> \<open>Guest_Startup\<close> (\<^verbatim>\<open>guest_startup.h\<close>, \<^verbatim>\<open>runtime_layout.h\<close>): stack, thread control block, TLS image and page permissions.

  Every stage is shown total (no read or write outside a span for any file), every reported error is shown to leave
  nothing behind, and every success is characterised: the plan is disjoint, in the file and never writable
  and executable; the staged image holds exactly the bytes of the file and zeros; the import table is
  exactly what the names and the registry say; a linked image differs from the staged one exactly in the applied words.

  \<^bold>\<open>The memory manager\<close> (\<^verbatim>\<open>src/src/core/memory.cpp\<close>).  \<open>Ordered_Map\<close> is the interface of an ordered map (a locale) and its
  implementation by sorted association lists; \<open>Area_Map\<close> has the carving and merging of areas, generic over the kind of area;
  \<open>Memory_Areas\<close> has the two kinds (\<open>VirtualMemoryArea\<close>, \<open>PhysicalMemoryArea\<close>); \<open>Memory_Manager\<close> has the state and the operations;
  \<open>Memory_Physical\<close> and \<open>Memory_Virtual\<close> have the theorems.  The invariant is that the areas tile the address space; the theorems
  say that allocation is first fit, that mapping and unmapping have exactly the effect on the translation of addresses
  that they should have, and that carving refines the identity on the abstract state.  Host mappings
  succeed, as the code assumes.

  \<^bold>\<open>Kernel objects\<close> (\<^verbatim>\<open>src/src/core/libraries/kernel\<close>).  \<open>Kernel_Error\<close> has the error codes.  \<open>Wait_Queue\<close> has the interface of a
  queue of waiting threads (the locale \<open>wait_order\<close>, interpreted for event flags and semaphores); \<open>Event_Flag\<close> (\<^verbatim>\<open>event_flag.cpp\<close>), \<open>Kernel_Semaphore\<close> and
  \<open>Posix_Semaphore\<close> (\<^verbatim>\<open>semaphore.cpp\<close>), \<open>Pthread_Mutex\<close> (\<^verbatim>\<open>mutex.cpp\<close>) and \<open>Pthread_Rwlock\<close> (\<^verbatim>\<open>rwlock.cpp\<close>,
  \<^verbatim>\<open>common/shared_first_mutex.h\<close>) are step relations in which any number of threads interleave; \<open>Slot_Vector\<close>
  (\<^verbatim>\<open>common/slot_vector.h\<close>) is the table of semaphores.  The theorems hold in every reachable state: no wake-up is lost, tokens are
  conserved, locks exclude.  \<open>Exclusive_Lock\<close> is the interface of a lock and proves for both kinds that protected data
  does not change under its holder.

  Condition variables: \<open>Sleep_Queue\<close> (\<^verbatim>\<open>sleepq.cpp\<close>) is the hash table of queue objects that wander between the threads, with the
  locale \<open>sleep_queues\<close>, one list of threads per channel, which it refines; \<open>Pthread_Cond\<close> (\<^verbatim>\<open>condvar.cpp\<close> and the wake-ups of \<^verbatim>\<open>pthread.h\<close>)
  builds \<open>Wait\<close>, \<open>Signal\<close> and \<open>Broadcast\<close> on it and on the mutexes as a function of a schedule, and \<open>Cond_Invariant\<close> proves over the
  facts of the locale that no schedule fails an assertion and that, without cancellation, no wake-up is lost; with
  cancellation one can be, and a schedule shows it.
  \<open>Pthread_Specific\<close> (\<^verbatim>\<open>pthread_spec.cpp\<close>, \<^verbatim>\<open>pthread_clean.cpp\<close>) has thread-specific data, which refines the POSIX specification, the
  destructor rounds at the exit of a thread, which end, and the clean-up handlers.  \<open>Pthread_Once\<close> (\<open>posix_pthread_once\<close>) runs a routine
  once whatever the interleaving, and \<open>Pthread_Attr\<close> (\<^verbatim>\<open>pthread_attr.cpp\<close>) has the attribute objects, which no call makes ill-formed.

  Threads: \<open>Thread_Lifecycle\<close> (\<^verbatim>\<open>thread_state.cpp\<close>, \<^verbatim>\<open>thread_state.h\<close>, \<^verbatim>\<open>pthread.cpp\<close>) has creation, exit, join and detach with the registration,
  reference counting, garbage collection and reuse of the thread objects, step by step between the acquisitions of the locks;
  \<open>Thread_Invariant\<close> has the aspects of the invariant and \<open>Thread_Safety\<close> their preservation.  No object is lost or used by a call after it is
  unregistered, and a join returns what the thread left after it has terminated.  Two schedules show where the code fails: the last unlock of a
  collected object and the end of a thread use an object that was given to another thread, and two threads that join each other
  block the lock of the thread list.

  Event queues (\<^verbatim>\<open>equeue.cpp\<close>, \<^verbatim>\<open>equeue.h\<close>): \<open>Equeue\<close> has the events, their registration, triggering and retrieval, the timers and the
  guest calls; the retrieval loop is equal to a filter over the events and timer expirations are neither lost nor counted twice.
  \<open>Equeue_Wait\<close> lets threads wait and trigger in any interleaving: no event that is reset on retrieval is left to a sleeping thread.

  \<^bold>\<open>The real-time clock\<close> (\<^verbatim>\<open>src/src/core/libraries/rtc/rtc.cpp\<close>).  \<open>Rtc_Calendar\<close> has the calendar, \<open>Rtc_Tick\<close> the conversions and the
  arithmetic, \<open>Rtc_Text\<close> the formatter and the parser; the conversions are inverse to each other.

  \<^bold>\<open>How the code is modelled.\<close>  \<open>Prelude\<close> has the conventions: an unsigned integer is a natural number with the wrap-around
  written out (\<open>add64\<close>), a span is a list of bytes, an access outside it, a failed assertion or any other undefined
  behaviour is \<open>None\<close>, an early return is the left part of a sum, a loop is \<open>for_loop\<close> or \<open>for_each\<close> over such steps, with rules for
  invariants.  All loops are bounded by their data, so no fuel is used; the one loop with a moving
  index (\<open>untouched_loop\<close>) has an explicit measure, and the loop over the clean-up handlers, which can push new ones, is a partial function.  Time is a nondeterministic step.  Host memory is a function from
  addresses to bytes.  \<open>Fixtures\<close> has a small ELF file on which the properties are exercised.

  \<^bold>\<open>Not modelled.\<close>  The formatting of diagnostic strings (\<open>Details\<close>), names of objects that only appear in logs, the
  stacks and host threads of new threads, the delivery of cancellations and signals, the host backends of memory and files, the desktop loader,
  the graphics stack with its shader compiler, and the guest libraries that are stubs or call host services.
\<close>

end
